(* ===== verification/Prelude.thy ===== *)
theory Prelude
  imports
    "HOL-Library.Word"
    "HOL-Library.AList"
    "HOL-Library.List_Lexorder"
    "HOL-Library.Product_Lexorder"
    "HOL-Library.Option_ord"
begin

text \<open>
  Shared ground of the development: the names of the machine types, the models of the
  collections of the Rust standard library that the program uses, the fixed-width byte
  encodings of integers, and the generic lemmas on them.

  \<^item> A byte string (\<open>Vec<u8>\<close>, \<open>&[u8]\<close>, \<open>[u8; N]\<close>, and a \<open>String\<close> by its UTF-8 bytes) is a
    list of 8-bit words. Its order is the lexicographic one of \<open>List_Lexorder\<close>, which is the
    order of \<open>Ord\<close> on slices and arrays; \<open>None\<close> is below \<open>Some\<close> (\<open>Option_ord\<close>) and tuples
    are compared lexicographically (\<open>Product_Lexorder\<close>), as the derived orders of Rust are.
  \<^item> A \<open>HashMap\<close> is an association list with distinct keys. Its order stands for the
    iteration order, which Rust leaves open: a theorem about any such list holds for every
    iteration order.
  \<^item> A \<open>BTreeMap\<close> is an association list sorted by key.
\<close>

unbundle bit_operations_syntax

type_synonym u8 = "8 word"
type_synonym u16 = "16 word"
type_synonym u32 = "32 word"
type_synonym u64 = "64 word"
type_synonym bytes = "u8 list"

named_theorems gipny_simps \<open>unfolding equations of the model's small operations\<close>
named_theorems inv_intros \<open>invariant preservation rules of the components\<close>

section \<open>Association lists\<close>

abbreviation keys :: "('k \<times> 'v) list \<Rightarrow> 'k list" where
  "keys al \<equiv> map fst al"

abbreviation hm_get :: "('k \<times> 'v) list \<Rightarrow> 'k \<Rightarrow> 'v option" where
  "hm_get \<equiv> map_of"

abbreviation hm_insert :: "'k \<Rightarrow> 'v \<Rightarrow> ('k \<times> 'v) list \<Rightarrow> ('k \<times> 'v) list" where
  "hm_insert \<equiv> AList.update"

abbreviation hm_remove :: "'k \<Rightarrow> ('k \<times> 'v) list \<Rightarrow> ('k \<times> 'v) list" where
  "hm_remove \<equiv> AList.delete"

text \<open>\<open>HashMap::get_mut\<close> followed by an in-place change.\<close>

definition hm_modify :: "'k \<Rightarrow> ('v \<Rightarrow> 'v) \<Rightarrow> ('k \<times> 'v) list \<Rightarrow> ('k \<times> 'v) list" where
  "hm_modify k f al = map (\<lambda>(k', v). (k', if k' = k then f v else v)) al"

lemma keys_hm_modify [simp]: "keys (hm_modify k f al) = keys al"
  by (induction al) (auto simp: hm_modify_def)

lemma hm_get_modify:
  "hm_get (hm_modify k f al) k' = (if k' = k then map_option f (hm_get al k) else hm_get al k')"
  by (induction al) (auto simp: hm_modify_def)

lemma length_hm_modify [simp]: "length (hm_modify k f al) = length al"
  by (simp add: hm_modify_def)

lemma hm_remove_filter: "hm_remove k al = filter (\<lambda>p. fst p \<noteq> k) al"
  by (auto simp: AList.delete_eq intro!: filter_cong)

lemma hm_remove_notin: "k \<notin> set (keys al) \<Longrightarrow> hm_remove k al = al"
  by (auto simp: hm_remove_filter filter_id_conv)

lemma length_hm_remove:
  "hm_get al k = Some v \<Longrightarrow> length (hm_remove k al) < length al"
  by (induction al) (auto simp: hm_remove_filter less_Suc_eq_le split: if_splits)

lemma length_hm_remove_distinct:
  "distinct (keys al) \<Longrightarrow> k \<in> set (keys al) \<Longrightarrow> Suc (length (hm_remove k al)) = length al"
proof (induction al)
  case (Cons p al)
  show ?case
  proof (cases "fst p = k")
    case True
    with Cons.prems have "hm_remove k al = al" by (intro hm_remove_notin) auto
    with True show ?thesis by (cases p) simp
  next
    case False
    with Cons show ?thesis by (auto simp: hm_remove_filter)
  qed
qed simp

lemma keys_hm_remove: "keys (hm_remove k al) = filter (\<lambda>x. x \<noteq> k) (keys al)"
  by (induction al) auto

lemma distinct_hm_remove [simp]: "distinct (keys al) \<Longrightarrow> distinct (keys (hm_remove k al))"
  by (simp add: keys_hm_remove)

lemma set_hm_remove: "set (hm_remove k al) = {p \<in> set al. fst p \<noteq> k}"
  by (auto simp: hm_remove_filter)

lemma distinct_hm_insert [simp]: "distinct (keys al) \<Longrightarrow> distinct (keys (hm_insert k v al))"
  by (rule distinct_update)

lemma hm_get_insert [simp]:
  "hm_get (hm_insert k v al) k' = (if k' = k then Some v else hm_get al k')"
  by (simp add: update_conv')

lemma hm_get_remove [simp]:
  "hm_get (hm_remove k al) k' = (if k' = k then None else hm_get al k')"
  by (simp add: delete_conv')

lemma length_hm_insert:
  "distinct (keys al) \<Longrightarrow>
    length (hm_insert k v al) = (if k \<in> set (keys al) then length al else Suc (length al))"
  by (induction al) auto

lemma hm_get_in: "hm_get al k = Some v \<Longrightarrow> k \<in> set (keys al)"
  by (force dest: map_of_SomeD)

subsection \<open>\<open>BTreeMap\<close> insertion\<close>

fun bt_insert :: "'k::linorder \<Rightarrow> 'v \<Rightarrow> ('k \<times> 'v) list \<Rightarrow> ('k \<times> 'v) list" where
  "bt_insert k v [] = [(k, v)]"
| "bt_insert k v ((k', v') # al) =
     (if k < k' then (k, v) # (k', v') # al
      else if k = k' then (k, v) # al
      else (k', v') # bt_insert k v al)"

lemma bt_insert_last: "\<forall>x \<in> set (keys al). x < k \<Longrightarrow> bt_insert k v al = al @ [(k, v)]"
  by (induction al) auto

section \<open>\<open>Iterator::min_by_key\<close> and \<open>min_by\<close>: the first of the least elements\<close>

fun min_by_key :: "('a \<Rightarrow> 'b::linorder) \<Rightarrow> 'a list \<Rightarrow> 'a option" where
  "min_by_key f [] = None"
| "min_by_key f (x # xs) =
     (case min_by_key f xs of None \<Rightarrow> Some x | Some y \<Rightarrow> Some (if f x \<le> f y then x else y))"

lemma min_by_key_None [simp]: "min_by_key f xs = None \<longleftrightarrow> xs = []"
  by (cases xs) (auto split: option.splits)

lemma min_by_key_Some:
  "min_by_key f xs = Some x \<Longrightarrow> x \<in> set xs \<and> (\<forall>y \<in> set xs. f x \<le> f y)"
proof (induction xs arbitrary: x)
  case (Cons a xs)
  show ?case
  proof (cases "min_by_key f xs")
    case None
    with Cons.prems show ?thesis by (auto dest: min_by_key_None [THEN iffD1])
  next
    case (Some b)
    with Cons.IH [of b] Cons.prems show ?thesis by (auto split: if_splits)
  qed
qed simp

lemma min_by_key_unique:
  assumes "x \<in> set xs" and "\<forall>y \<in> set xs. y \<noteq> x \<longrightarrow> f x < f y"
  shows "min_by_key f xs = Some x"
proof (cases "min_by_key f xs")
  case None
  with assms(1) show ?thesis by auto
next
  case (Some y)
  from min_by_key_Some [OF Some] assms show ?thesis using Some by (metis leD)
qed

section \<open>Words\<close>

lemma unat_u8_less: "unat (w :: u8) < 256"
  using unsigned_less [of w, where ?'a = nat] by simp

lemma unat_u32_less: "unat (w :: u32) < 2 ^ 32"
  using unsigned_less [of w, where ?'a = nat] by simp

lemma unat_u64_less: "unat (w :: u64) < 2 ^ 64"
  using unsigned_less [of w, where ?'a = nat] by simp

lemma unat_of_nat_u64 [simp]: "n < 2 ^ 64 \<Longrightarrow> unat (of_nat n :: u64) = n"
  by (simp add: unat_of_nat take_bit_nat_eq_self)

lemma unat_of_nat_u32 [simp]: "n < 2 ^ 32 \<Longrightarrow> unat (of_nat n :: u32) = n"
  by (simp add: unat_of_nat take_bit_nat_eq_self)

lemma unat_of_nat_u8 [simp]: "n < 256 \<Longrightarrow> unat (of_nat n :: u8) = n"
  by (simp add: unat_of_nat take_bit_nat_eq_self)

lemma mult_add_less_iff: "r < m \<Longrightarrow> a * m + r < c * m \<longleftrightarrow> a < c" for a c m r :: nat
proof
  assume "r < m" "a < c"
  then have "a + 1 \<le> c" by simp
  then have "(a + 1) * m \<le> c * m" by (rule mult_le_mono1)
  with \<open>r < m\<close> show "a * m + r < c * m" by simp
next
  assume "a * m + r < c * m"
  then have "a * m < c * m" by linarith
  then show "a < c" by simp
qed

section \<open>Fixed-width integers as bytes\<close>

fun le_bytes :: "nat \<Rightarrow> nat \<Rightarrow> bytes" where
  "le_bytes 0 n = []"
| "le_bytes (Suc w) n = of_nat (n mod 256) # le_bytes w (n div 256)"

fun of_le_bytes :: "bytes \<Rightarrow> nat" where
  "of_le_bytes [] = 0"
| "of_le_bytes (b # bs) = unat b + 256 * of_le_bytes bs"

definition u32_to_le_bytes :: "u32 \<Rightarrow> bytes" where
  "u32_to_le_bytes w = le_bytes 4 (unat w)"

definition u64_to_le_bytes :: "u64 \<Rightarrow> bytes" where
  "u64_to_le_bytes w = le_bytes 8 (unat w)"

definition u32_to_be_bytes :: "u32 \<Rightarrow> bytes" where
  "u32_to_be_bytes w = rev (le_bytes 4 (unat w))"

definition of_be_bytes :: "bytes \<Rightarrow> nat" where
  "of_be_bytes bs = of_le_bytes (rev bs)"

lemma length_le_bytes [simp]: "length (le_bytes w n) = w"
  by (induction w arbitrary: n) auto

lemma of_le_bytes_le_bytes: "of_le_bytes (le_bytes w n) = n mod 256 ^ w"
proof (induction w arbitrary: n)
  case (Suc w)
  have "unat (of_nat (n mod 256) :: u8) = n mod 256"
    by (simp add: unat_of_nat)
  with Suc show ?case by (simp add: mod_mult2_eq)
qed simp

lemma le_bytes_inj: "n < 256 ^ w \<Longrightarrow> m < 256 ^ w \<Longrightarrow> le_bytes w n = le_bytes w m \<Longrightarrow> n = m"
  by (metis mod_less of_le_bytes_le_bytes)

lemma u64_to_le_bytes_inj [simp]: "u64_to_le_bytes a = u64_to_le_bytes b \<longleftrightarrow> a = b"
proof
  assume "u64_to_le_bytes a = u64_to_le_bytes b"
  moreover have "unat a < 256 ^ 8" "unat b < 256 ^ 8"
    using unsigned_less [of a] unsigned_less [of b] by simp_all
  ultimately have "unat a = unat b"
    unfolding u64_to_le_bytes_def by (blast intro: le_bytes_inj)
  then show "a = b" by (rule unsigned_word_eqI)
qed simp

lemma u32_to_le_bytes_inj [simp]: "u32_to_le_bytes a = u32_to_le_bytes b \<longleftrightarrow> a = b"
proof
  assume "u32_to_le_bytes a = u32_to_le_bytes b"
  moreover have "unat a < 256 ^ 4" "unat b < 256 ^ 4"
    using unsigned_less [of a] unsigned_less [of b] by simp_all
  ultimately have "unat a = unat b"
    unfolding u32_to_le_bytes_def by (blast intro: le_bytes_inj)
  then show "a = b" by (rule unsigned_word_eqI)
qed simp

lemma length_u32_to_le_bytes [simp]: "length (u32_to_le_bytes w) = 4"
  by (simp add: u32_to_le_bytes_def)

lemma length_u64_to_le_bytes [simp]: "length (u64_to_le_bytes w) = 8"
  by (simp add: u64_to_le_bytes_def)

lemma length_u32_to_be_bytes [simp]: "length (u32_to_be_bytes w) = 4"
  by (simp add: u32_to_be_bytes_def)

text \<open>A byte string literal.\<close>

definition ascii :: "string \<Rightarrow> bytes" where
  "ascii s = map (\<lambda>c. of_nat (of_char c)) s"

section \<open>Lists\<close>

lemma sum_list_filter_split:
  "sum_list (map f xs) =
    sum_list (map f (filter P xs)) + sum_list (map f (filter (\<lambda>x. \<not> P x) xs))" for f :: "'a \<Rightarrow> nat"
  by (induction xs) auto

lemma sum_list_filter_le: "sum_list (map f (filter P xs)) \<le> sum_list (map f xs)" for f :: "'a \<Rightarrow> nat"
  by (simp add: sum_list_filter_split [of f xs P])

lemma map_filter_fst: "map fst (filter (\<lambda>p. P (fst p)) al) = filter P (map fst al)"
  by (induction al) auto

lemma set_map_filter: "set (List.map_filter f xs) = {y. \<exists>x \<in> set xs. f x = Some y}"
  by (induction xs) (auto simp: List.map_filter_def)

end
