(* ===== verification/Crypto_Prims.thy ===== *)
theory Crypto_Prims
  imports Prelude
begin

text \<open>
  The cryptographic crates the program calls (\<open>sha2\<close>, \<open>hkdf\<close>, \<open>hmac\<close>, \<open>x25519-dalek\<close>,
  \<open>chacha20poly1305\<close>, \<open>ed25519-dalek\<close>) are not part of the repository: they are one record of
  functions, an argument of every definition that uses them. What the program relies on of
  them is stated as predicates on the record, each a documented property of the crate, and a
  theorem that needs one has it as a hypothesis. The record \<open>toy_crypto\<close> satisfies all of
  them; it is what the witnesses of such theorems are evaluated on.

  Bytes drawn from the system RNG are arguments of the definitions that draw them.
\<close>

record crypto =
  Sha256 :: "bytes \<Rightarrow> bytes"
  Hkdf :: "bytes \<Rightarrow> bytes \<Rightarrow> bytes \<Rightarrow> nat \<Rightarrow> bytes"
  Hmac :: "bytes \<Rightarrow> bytes \<Rightarrow> bytes"
  X25519 :: "bytes \<Rightarrow> bytes \<Rightarrow> bytes"
  X25519_pub :: "bytes \<Rightarrow> bytes"
  Aead_encrypt :: "bytes \<Rightarrow> bytes \<Rightarrow> bytes \<Rightarrow> bytes \<Rightarrow> bytes option"
  Aead_decrypt :: "bytes \<Rightarrow> bytes \<Rightarrow> bytes \<Rightarrow> bytes \<Rightarrow> bytes option"
  Ed_public :: "bytes \<Rightarrow> bytes"
  Ed_sign :: "bytes \<Rightarrow> bytes \<Rightarrow> bytes"
  Ed_key_ok :: "bytes \<Rightarrow> bool"
  Ed_verify :: "bytes \<Rightarrow> bytes \<Rightarrow> bytes \<Rightarrow> bool"

text \<open>
  Arguments: \<open>Hkdf salt ikm info len\<close>, \<open>Hmac key msg\<close>, \<open>X25519 secret public\<close>,
  \<open>Aead_encrypt key nonce aad msg\<close>, \<open>Ed_sign seed msg\<close>, \<open>Ed_verify public msg sig\<close>.
  \<open>was_contributory\<close> of \<open>x25519-dalek\<close> is that the shared secret is not all zeros.
\<close>

definition was_contributory :: "bytes \<Rightarrow> bool" where
  "was_contributory shared \<longleftrightarrow> \<not> list_all (\<lambda>b. b = 0) shared"

section \<open>What the program relies on\<close>

definition dh_commutes :: "crypto \<Rightarrow> bool" where
  "dh_commutes C \<longleftrightarrow> (\<forall>a b. X25519 C a (X25519_pub C b) = X25519 C b (X25519_pub C a))"

definition aead_correct :: "crypto \<Rightarrow> bool" where
  "aead_correct C \<longleftrightarrow> (\<forall>k n ad m c. Aead_encrypt C k n ad m = Some c \<longrightarrow> Aead_decrypt C k n ad c = Some m)"

definition aead_overhead :: "crypto \<Rightarrow> bool" where
  "aead_overhead C \<longleftrightarrow> (\<forall>k n ad m c. Aead_encrypt C k n ad m = Some c \<longrightarrow> length c = length m + 16)"

definition ed_correct :: "crypto \<Rightarrow> bool" where
  "ed_correct C \<longleftrightarrow>
     (\<forall>sk m. Ed_key_ok C (Ed_public C sk) \<and> Ed_verify C (Ed_public C sk) m (Ed_sign C sk m))"

definition public_len :: "crypto \<Rightarrow> bool" where
  "public_len C \<longleftrightarrow> (\<forall>sk. length (X25519_pub C sk) = 32)"

lemma dh_commutesD: "dh_commutes C \<Longrightarrow> X25519 C a (X25519_pub C b) = X25519 C b (X25519_pub C a)"
  by (simp add: dh_commutes_def)

lemma aead_correctD: "aead_correct C \<Longrightarrow> Aead_encrypt C k n ad m = Some c \<Longrightarrow> Aead_decrypt C k n ad c = Some m"
  by (simp add: aead_correct_def)

lemma aead_overheadD: "aead_overhead C \<Longrightarrow> Aead_encrypt C k n ad m = Some c \<Longrightarrow> length c = length m + 16"
  by (simp add: aead_overhead_def)

lemma ed_correctD:
  "ed_correct C \<Longrightarrow> Ed_key_ok C (Ed_public C sk)"
  "ed_correct C \<Longrightarrow> Ed_verify C (Ed_public C sk) m (Ed_sign C sk m)"
  by (simp_all add: ed_correct_def)

section \<open>A concrete record for the witnesses\<close>

definition fit :: "nat \<Rightarrow> bytes \<Rightarrow> bytes" where
  "fit n bs = take n (bs @ replicate n 0)"

definition toy_tag :: "bytes \<Rightarrow> bytes \<Rightarrow> bytes \<Rightarrow> bytes" where
  "toy_tag k n ad = replicate 16 (sum_list k + 3 * sum_list n + 5 * sum_list ad)"

definition toy_crypto :: crypto where
  "toy_crypto = \<lparr>
     Sha256 = (\<lambda>m. fit 32 (rev m)),
     Hkdf = (\<lambda>salt ikm info n. fit n (rev ikm @ info @ salt)),
     Hmac = (\<lambda>k m. fit 32 (rev m @ k)),
     X25519 = (\<lambda>a p. map2 (+) (fit 32 a) (fit 32 p)),
     X25519_pub = fit 32,
     Aead_encrypt = (\<lambda>k n ad m. Some (m @ toy_tag k n ad)),
     Aead_decrypt = (\<lambda>k n ad c. if 16 \<le> length c \<and> drop (length c - 16) c = toy_tag k n ad
                               then Some (take (length c - 16) c) else None),
     Ed_public = fit 32,
     Ed_sign = (\<lambda>sk m. fit 64 (fit 32 sk @ rev m)),
     Ed_key_ok = (\<lambda>_. True),
     Ed_verify = (\<lambda>pk m s. s = fit 64 (fit 32 pk @ rev m)) \<rparr>"

lemma length_fit [simp]: "length (fit n bs) = n"
  by (simp add: fit_def)

lemma fit_fit [simp]: "fit n (fit n bs) = fit n bs"
  by (simp add: fit_def)

lemma toy_dh_commutes: "dh_commutes toy_crypto"
proof -
  have "map2 (+) xs ys = map2 (+) ys (xs :: bytes)" for xs ys
    by (induction xs ys rule: list_induct2') (auto simp: add.commute)
  then show ?thesis by (simp add: dh_commutes_def toy_crypto_def)
qed

lemma toy_aead_correct: "aead_correct toy_crypto"
  by (simp add: aead_correct_def toy_crypto_def toy_tag_def)

lemma toy_aead_overhead: "aead_overhead toy_crypto"
  by (simp add: aead_overhead_def toy_crypto_def toy_tag_def)

lemma toy_ed_correct: "ed_correct toy_crypto"
  by (simp add: ed_correct_def toy_crypto_def)

lemma toy_public_len: "public_len toy_crypto"
  by (simp add: public_len_def toy_crypto_def)

text \<open>
  A self-delimiting encoding of a list of fields, from which the witnesses build a concrete
  serializer: every byte is announced by a 1 and a field is closed by a 0.
\<close>

fun enc_field :: "bytes \<Rightarrow> bytes" where
  "enc_field [] = [0]"
| "enc_field (b # bs) = 1 # b # enc_field bs"

fun dec_fields :: "bytes \<Rightarrow> bytes \<Rightarrow> bytes list" where
  "dec_fields acc [] = []"
| "dec_fields acc [t] = (if t = 0 then [rev acc] else [])"
| "dec_fields acc (t # b # rest) =
     (if t = 0 then rev acc # dec_fields [] (b # rest) else dec_fields (b # acc) rest)"

lemma dec_fields_enc_field: "dec_fields acc (enc_field bs @ r) = (rev acc @ bs) # dec_fields [] r"
proof (induction bs arbitrary: acc)
  case Nil
  then show ?case by (cases r) simp_all
qed simp

lemma dec_fields_enc: "dec_fields [] (concat (map enc_field fs)) = fs"
  by (induction fs) (simp_all add: dec_fields_enc_field)

lemma length_enc_field: "length (enc_field bs) = 2 * length bs + 1"
  by (induction bs) auto

definition u64_field :: "bytes \<Rightarrow> u64" where
  "u64_field bs = of_nat (of_le_bytes bs)"

lemma u64_field_inverse [simp]: "u64_field (u64_to_le_bytes w) = w"
proof -
  have "unat w < 256 ^ 8" using unat_u64_less [of w] by simp
  then show ?thesis by (simp add: u64_field_def u64_to_le_bytes_def of_le_bytes_le_bytes)
qed

definition opt_fields :: "bytes option \<Rightarrow> bytes list" where
  "opt_fields p = (case p of None \<Rightarrow> [] | Some b \<Rightarrow> [b])"

definition toy_ser :: "bytes list \<Rightarrow> bytes" where
  "toy_ser fs = concat (map enc_field fs)"

definition toy_de :: "bytes \<Rightarrow> bytes list" where
  "toy_de bs = dec_fields [] bs"

lemma toy_de_ser [simp]: "toy_de (toy_ser fs) = fs"
  by (simp add: toy_de_def toy_ser_def dec_fields_enc)

end
