(* ===== verification/Dht_Proto.thy ===== *)
theory Dht_Proto
  imports Crypto_Prims
begin

text \<open>
  \<open>dht/src/proto.rs\<close>: the messages between relay-network nodes, the identity of a node, and the
  proof of work that makes storing cost the sender. \<open>sha256\<close> of \<open>dht/src/crypto.rs\<close> hashes the
  concatenation of its parts. \<open>encode\<close> and \<open>decode\<close> are calls of \<open>bincode\<close> and have no model here.
\<close>

type_synonym DhtKey = bytes

definition sha256 :: "crypto \<Rightarrow> bytes list \<Rightarrow> bytes" where
  "sha256 C parts = Sha256 C (concat parts)"

definition PROTOCOL_VERSION :: u16 where
  "PROTOCOL_VERSION = 1"

definition MAX_VALUE_BYTES :: nat where
  "MAX_VALUE_BYTES = 4 * 1024 * 1024"

record NodeInfo =
  destination :: bytes
  stores :: bool
  version :: u16

definition node_id :: "crypto \<Rightarrow> bytes \<Rightarrow> DhtKey" where
  "node_id C dest = sha256 C [ascii ''gipny-dht-node-v1'', dest]"

definition NodeInfo_id :: "crypto \<Rightarrow> NodeInfo \<Rightarrow> DhtKey" where
  "NodeInfo_id C n = node_id C (destination n)"

record StoredItem =
  item_key :: DhtKey
  item_value :: bytes
  item_delete_hash :: "bytes option"
  item_expires_at_ms :: u64

datatype DhtRequest =
    Ping
  | FindNode DhtKey
  | Get DhtKey u32
  | Store StoredItem u64
  | Delete DhtKey bytes

record DhtEnvelope =
  env_from :: "NodeInfo option"
  env_req :: DhtRequest

datatype DhtResponse =
    Pong NodeInfo
  | Nodes "NodeInfo option" "NodeInfo list"
  | Items "StoredItem list" bool "NodeInfo list"
  | Stored
  | Deleted nat
  | Error string

section \<open>Proof of work\<close>

definition pow_hash :: "crypto \<Rightarrow> bytes \<Rightarrow> StoredItem \<Rightarrow> u64 \<Rightarrow> bytes" where
  "pow_hash C challenge item nonce =
     sha256 C [ascii ''gipny-dht-pow-v1'', challenge, item_key item,
               sha256 C [item_value item], u64_to_le_bytes nonce]"

text \<open>\<open>u8::leading_zeros\<close>, and the loop over the hash.\<close>

definition u8_leading_zeros :: "u8 \<Rightarrow> nat" where
  "u8_leading_zeros b = length (takeWhile (\<lambda>i. \<not> bit b i) [7, 6, 5, 4, 3, 2, 1, 0])"

fun leading_zero_bits :: "bytes \<Rightarrow> nat" where
  "leading_zero_bits [] = 0"
| "leading_zero_bits (b # h) = (if b = 0 then 8 + leading_zero_bits h else u8_leading_zeros b)"

definition pow_ok :: "crypto \<Rightarrow> bytes \<Rightarrow> StoredItem \<Rightarrow> u64 \<Rightarrow> nat \<Rightarrow> bool" where
  "pow_ok C challenge item nonce difficulty \<longleftrightarrow>
     leading_zero_bits (pow_hash C challenge item nonce) \<ge> difficulty"

text \<open>
  \<open>solve_pow\<close> tries the nonces in order over the whole \<open>u64\<close> range, hashing the value once.
  Running out of nonces (the source panics, \<open>expect\<close>) is \<open>None\<close>.
\<close>

function find_nonce :: "(u64 \<Rightarrow> bool) \<Rightarrow> nat \<Rightarrow> u64 option" where
  "find_nonce p n =
     (if n \<ge> 2 ^ 64 then None
      else if p (of_nat n) then Some (of_nat n)
      else find_nonce p (Suc n))"
  by pat_completeness auto
termination
  by (relation "measure (\<lambda>(p, n). 2 ^ 64 - n)") auto

declare find_nonce.simps [simp del]

definition solve_pow :: "crypto \<Rightarrow> bytes \<Rightarrow> StoredItem \<Rightarrow> nat \<Rightarrow> u64 option" where
  "solve_pow C challenge item difficulty =
     (let value_hash = sha256 C [item_value item] in
      find_nonce (\<lambda>nonce.
        leading_zero_bits (sha256 C [ascii ''gipny-dht-pow-v1'', challenge, item_key item,
                                     value_hash, u64_to_le_bytes nonce]) \<ge> difficulty) 0)"

lemma find_nonce_Some:
  "find_nonce p n = Some x \<Longrightarrow> p x \<and> n \<le> unat x \<and> (\<forall>m. n \<le> m \<and> m < unat x \<longrightarrow> \<not> p (of_nat m))"
proof (induction p n rule: find_nonce.induct)
  case (1 p n)
  show ?case
  proof (cases "n < 2 ^ 64 \<and> \<not> p (of_nat n)")
    case True
    with "1.prems" have rec: "find_nonce p (Suc n) = Some x"
      by (simp add: find_nonce.simps [of p n])
    with "1.IH" True have "p x \<and> Suc n \<le> unat x \<and> (\<forall>m. Suc n \<le> m \<and> m < unat x \<longrightarrow> \<not> p (of_nat m))"
      by simp
    with True show ?thesis by (metis Suc_leD Suc_leI le_neq_implies_less)
  next
    case False
    with "1.prems" have "p (of_nat n)" "x = of_nat n" "n < 2 ^ 64"
      by (auto simp: find_nonce.simps [of p n] split: if_splits)
    moreover from this have "unat x = n" by simp
    ultimately show ?thesis by auto
  qed
qed

lemma find_nonce_exists:
  "n \<le> unat x \<Longrightarrow> p x \<Longrightarrow> \<exists>y. find_nonce p n = Some y"
proof (induction p n rule: find_nonce.induct)
  case (1 p n)
  have lt: "n < 2 ^ 64" using "1.prems"(1) unat_u64_less [of x] by simp
  show ?case
  proof (cases "p (of_nat n)")
    case True
    with lt show ?thesis by (simp add: find_nonce.simps [of p n])
  next
    case False
    with "1.prems" have "n \<noteq> unat x" by auto
    with "1.prems" have "Suc n \<le> unat x" by simp
    with "1.IH" lt False "1.prems"(2) show ?thesis by (simp add: find_nonce.simps [of p n])
  qed
qed

section \<open>Leading zero bits as a bound on the number the bytes spell\<close>

lemma u8_leading_zeros_table:
  "list_all (\<lambda>n. let z = u8_leading_zeros (of_nat n) in
      n < 2 ^ (8 - z) \<and> (z < 8 \<longrightarrow> 2 ^ (7 - z) \<le> n)) [0..<256]"
  by code_simp

lemma u8_leading_zeros_iff:
  assumes "d \<le> 8"
  shows "d \<le> u8_leading_zeros b \<longleftrightarrow> unat b < 2 ^ (8 - d)"
proof -
  let ?z = "u8_leading_zeros b"
  have "unat b \<in> set [0..<256]" using unat_u8_less [of b] by simp
  with u8_leading_zeros_table have "let z = u8_leading_zeros (of_nat (unat b)) in
      unat b < 2 ^ (8 - z) \<and> (z < 8 \<longrightarrow> 2 ^ (7 - z) \<le> unat b)"
    unfolding list_all_iff by (rule bspec)
  then have z: "unat b < 2 ^ (8 - ?z)" "?z < 8 \<longrightarrow> 2 ^ (7 - ?z) \<le> unat b"
    by (simp_all add: Let_def)
  show ?thesis
  proof (cases "d \<le> ?z")
    case True
    have "(2::nat) ^ (8 - ?z) \<le> 2 ^ (8 - d)"
      by (rule power_increasing) (use True in simp_all)
    with z(1) True show ?thesis by linarith
  next
    case False
    have "(2::nat) ^ (8 - d) \<le> 2 ^ (7 - ?z)"
      by (rule power_increasing) (use False in simp_all)
    with z(2) False assms show ?thesis by linarith
  qed
qed

lemma of_be_bytes_Cons: "of_be_bytes (b # h) = unat b * 256 ^ length h + of_be_bytes h"
proof -
  have "of_le_bytes (xs @ [b]) = of_le_bytes xs + 256 ^ length xs * unat b" for xs
    by (induction xs) (auto simp: algebra_simps)
  then show ?thesis by (simp add: of_be_bytes_def)
qed

lemma of_be_bytes_less: "of_be_bytes h < 256 ^ length h"
proof (induction h)
  case (Cons b h)
  then have "unat b * 256 ^ length h + of_be_bytes h < 256 * 256 ^ length h"
    by (subst mult_add_less_iff) (simp_all add: unat_u8_less)
  then show ?case by (simp add: of_be_bytes_Cons)
qed (simp add: of_be_bytes_def)

lemma leading_zero_bits_le: "leading_zero_bits h \<le> 8 * length h"
proof (induction h)
  case (Cons b h)
  have "u8_leading_zeros b \<le> 8"
    unfolding u8_leading_zeros_def by (rule order_trans [OF length_takeWhile_le]) simp
  with Cons show ?case by simp
qed simp

lemma u8_leading_zeros_le: "u8_leading_zeros b \<le> 8"
  unfolding u8_leading_zeros_def by (rule order_trans [OF length_takeWhile_le]) simp

lemma two_pow_byte: "(256::nat) ^ n = 2 ^ (8 * n)"
  by (simp add: power_mult)

lemma two_pow_split: "d \<le> 8 \<Longrightarrow> (2::nat) ^ (8 + 8 * n - d) = 2 ^ (8 - d) * 256 ^ n"
  by (simp add: two_pow_byte flip: power_add)

lemma leading_zero_bits_Cons_iff:
  assumes "d \<le> 8" "b \<noteq> 0"
  shows "d \<le> leading_zero_bits (b # h) \<longleftrightarrow> of_be_bytes (b # h) < 2 ^ (8 * length (b # h) - d)"
proof -
  have "d \<le> leading_zero_bits (b # h) \<longleftrightarrow> unat b < 2 ^ (8 - d)"
    using assms by (simp add: u8_leading_zeros_iff)
  also have "\<dots> \<longleftrightarrow> unat b * 256 ^ length h + of_be_bytes h < 2 ^ (8 - d) * 256 ^ length h"
    by (rule mult_add_less_iff [symmetric]) (rule of_be_bytes_less)
  finally show ?thesis using assms by (simp add: of_be_bytes_Cons two_pow_split)
qed

lemma leading_zero_bits_iff:
  "d \<le> 8 * length h \<Longrightarrow> d \<le> leading_zero_bits h \<longleftrightarrow> of_be_bytes h < 2 ^ (8 * length h - d)"
proof (induction h arbitrary: d)
  case Nil
  then show ?case by (simp add: of_be_bytes_def)
next
  case (Cons b h)
  have less: "of_be_bytes h < 2 ^ (8 * length h)"
    using of_be_bytes_less [of h] by (simp add: two_pow_byte)
  consider (small) "d \<le> 8" "b \<noteq> 0" | (zero) "d \<le> 8" "b = 0" | (big) "8 < d" by linarith
  then show ?case
  proof cases
    case small
    then show ?thesis by (rule leading_zero_bits_Cons_iff)
  next
    case zero
    have "(2::nat) ^ (8 * length h) \<le> 2 ^ (8 + 8 * length h - d)"
      by (rule power_increasing) (use zero in simp_all)
    with less have "of_be_bytes h < 2 ^ (8 + 8 * length h - d)" by (rule less_le_trans)
    with zero show ?thesis by (simp add: of_be_bytes_Cons)
  next
    case big
    show ?thesis
    proof (cases "b = 0")
      case True
      from big Cons.prems have "d - 8 \<le> 8 * length h" by simp
      then have "d - 8 \<le> leading_zero_bits h \<longleftrightarrow> of_be_bytes h < 2 ^ (8 * length h - (d - 8))"
        by (rule Cons.IH)
      moreover have "8 * length h - (d - 8) = 8 * length (b # h) - d" using big by simp
      ultimately show ?thesis using True big by (auto simp: of_be_bytes_Cons)
    next
      case False
      have "(2::nat) ^ (8 + 8 * length h - d) \<le> 2 ^ (8 * length h)"
        by (rule power_increasing) (use big in simp_all)
      also have "\<dots> \<le> unat b * 256 ^ length h"
        using False by (simp add: two_pow_byte Suc_leI unat_gt_0)
      finally show ?thesis
        using False big u8_leading_zeros_le [of b] by (simp add: of_be_bytes_Cons not_less)
    qed
  qed
qed

section \<open>Properties\<close>

lemma solve_pow_find:
  "solve_pow C challenge item difficulty = find_nonce (\<lambda>nonce. pow_ok C challenge item nonce difficulty) 0"
  by (simp add: solve_pow_def pow_ok_def pow_hash_def Let_def)

text \<open>
  \<open>solve_pow\<close> answers exactly the puzzle that \<open>pow_ok\<close> checks: when any 64-bit nonce passes
  for this challenge and item it returns one, and the one it returns passes and is the least
  that does. When none passes, there is no answer (the source panics there).
\<close>

theorem solve_pow_correct:
  "case solve_pow C challenge item difficulty of
     Some nonce \<Rightarrow> pow_ok C challenge item nonce difficulty \<and>
                    {m. pow_ok C challenge item m difficulty \<and> m < nonce} = {}
   | None \<Rightarrow> {m. pow_ok C challenge item m difficulty} = {}"
proof (cases "solve_pow C challenge item difficulty")
  case None
  then have "\<not> pow_ok C challenge item m difficulty" for m
    using find_nonce_exists [of 0 m "\<lambda>nonce. pow_ok C challenge item nonce difficulty"]
    by (auto simp: solve_pow_find)
  with None show ?thesis by simp
next
  case (Some n)
  then have n: "pow_ok C challenge item n difficulty"
    "\<forall>m < unat n. \<not> pow_ok C challenge item (of_nat m) difficulty"
    using find_nonce_Some by (auto simp: solve_pow_find)
  have "\<not> pow_ok C challenge item m difficulty" if "m < n" for m
    using n(2) [rule_format, of "unat m"] that by (simp add: word_less_nat_alt)
  with Some n(1) show ?thesis by auto
qed

text \<open>
  The difficulty is the logarithm of the work: for a 32-byte hash and a difficulty of up to
  256 bits, \<open>pow_ok\<close> accepts a nonce exactly when the hash, read as a big-endian number, is
  below \<open>2 ^ (256 - difficulty)\<close>.
\<close>

theorem pow_ok_bound:
  assumes "\<And>m. length (Sha256 C m) = 32" and "difficulty \<le> 256"
  shows "pow_ok C challenge item nonce difficulty \<longleftrightarrow>
           of_be_bytes (pow_hash C challenge item nonce) < 2 ^ (256 - difficulty)"
proof -
  have "length (pow_hash C challenge item nonce) = 32" by (simp add: pow_hash_def sha256_def assms(1))
  with leading_zero_bits_iff [of difficulty "pow_hash C challenge item nonce"] assms(2)
  show ?thesis by (simp add: pow_ok_def)
qed

definition toy_item :: StoredItem where
  "toy_item = \<lparr>item_key = [1], item_value = [2], item_delete_hash = None, item_expires_at_ms = 3\<rparr>"

theorem pow_ok_bound_witness:
  "pow_ok toy_crypto [7] toy_item 0 9 \<longleftrightarrow> of_be_bytes (pow_hash toy_crypto [7] toy_item 0) < 2 ^ (256 - 9)"
  by (rule pow_ok_bound) (simp_all add: toy_crypto_def)

end
