(* ===== verification/Dht_Store.thy ===== *)
theory Dht_Store
  imports Dht_Proto
begin

text \<open>
  \<open>dht/src/store.rs\<close>: what a node holds for others. \<open>Inner\<close> is the state of \<open>MemStorage\<close>, an
  index from key to sequence numbers beside the entries in order of arrival. The contract of
  the \<open>Storage\<close> trait is stated on the list of held items, oldest first; the operations of
  \<open>MemStorage\<close> are shown to refine it, and the locale \<open>dht_storage\<close> states it for the node.

  Sizes in bytes are \<open>nat\<close>: they are sums of lengths of vectors that are alive in memory. So
  are the sequence numbers, which count stored items. Times are \<open>u64\<close> and wrap.
\<close>

record StoreLimits =
  max_total_bytes :: nat
  max_bytes_per_key :: nat
  max_items_per_key :: nat
  max_ttl_ms :: u64

datatype StoreError = TooLarge | Expired | Backend string

record StoreStats =
  st_items :: nat
  st_bytes :: nat

record Entry =
  e_item :: StoredItem
  e_seq :: nat

record Inner =
  by_key :: "(DhtKey \<times> nat list) list"
  entries :: "(nat \<times> Entry) list"
  bytes_held :: nat
  next_seq :: nat

definition DAY_MS :: u64 where
  "DAY_MS = 24 * 3600 * 1000"

definition MAIL_TTL_MS :: u64 where
  "MAIL_TTL_MS = 7 * DAY_MS"

definition default_limits :: StoreLimits where
  "default_limits = \<lparr>max_total_bytes = 64 * 1024 * 1024, max_bytes_per_key = 16 * 1024 * 1024,
     max_items_per_key = 64, max_ttl_ms = MAIL_TTL_MS\<rparr>"

definition delete_hash :: "crypto \<Rightarrow> bytes \<Rightarrow> bytes" where
  "delete_hash C token = sha256 C [ascii ''gipny-dht-delete-v1'', token]"

definition new_inner :: Inner where
  "new_inner = \<lparr>by_key = [], entries = [], bytes_held = 0, next_seq = 0\<rparr>"

abbreviation item_len :: "StoredItem \<Rightarrow> nat" where
  "item_len it \<equiv> length (item_value it)"

abbreviation entry_len :: "Entry \<Rightarrow> nat" where
  "entry_len e \<equiv> length (item_value (e_item e))"

section \<open>The operations of \<open>MemStorage\<close>\<close>

definition inner_remove :: "Inner \<Rightarrow> nat \<Rightarrow> Inner" where
  "inner_remove g seq =
     (case hm_get (entries g) seq of
        None \<Rightarrow> g
      | Some e \<Rightarrow>
          (let g' = g\<lparr>entries := hm_remove seq (entries g), bytes_held := bytes_held g - entry_len e\<rparr>;
               k = item_key (e_item e)
           in case hm_get (by_key g') k of
                None \<Rightarrow> g'
              | Some l \<Rightarrow>
                  (let l' = filter (\<lambda>s. s \<noteq> seq) l in
                   if l' = [] then g'\<lparr>by_key := hm_remove k (by_key g')\<rparr>
                   else g'\<lparr>by_key := hm_insert k l' (by_key g')\<rparr>)))"

definition admit :: "StoredItem \<Rightarrow> StoreLimits \<Rightarrow> u64 \<Rightarrow> StoreError + StoredItem" where
  "admit item limits now_ms =
     (if item_len item > MAX_VALUE_BYTES \<or> item_len item > max_bytes_per_key limits then Inl TooLarge
      else if item_expires_at_ms item \<le> now_ms then Inl Expired
      else Inr (item\<lparr>item_expires_at_ms := min (item_expires_at_ms item) (now_ms + max_ttl_ms limits)\<rparr>))"

text \<open>The first loop of \<open>put\<close>: the oldest under the same key go first.\<close>

fun evict_under_key :: "StoreLimits \<Rightarrow> nat \<Rightarrow> nat list \<Rightarrow> nat \<Rightarrow> Inner \<Rightarrow> Inner" where
  "evict_under_key lim len [] key_bytes g = g"
| "evict_under_key lim len (oldest # rest) key_bytes g =
     (if length (oldest # rest) \<ge> max_items_per_key lim \<or> key_bytes + len > max_bytes_per_key lim
      then evict_under_key lim len rest
             (key_bytes - (case hm_get (entries g) oldest of None \<Rightarrow> 0 | Some e \<Rightarrow> entry_len e))
             (inner_remove g oldest)
      else g)"

text \<open>The second loop of \<open>put\<close>: then the oldest overall, until the new value fits.\<close>

lemma inner_remove_shrinks:
  "entries g = (s, e) # es \<Longrightarrow> length (entries (inner_remove g s)) < Suc (length es)"
  by (auto simp: inner_remove_def Let_def hm_remove_filter less_Suc_eq_le split: option.splits)

function evict_oldest :: "StoreLimits \<Rightarrow> nat \<Rightarrow> Inner \<Rightarrow> Inner" where
  "evict_oldest lim len g =
     (if bytes_held g + len > max_total_bytes lim then
        (case entries g of
           [] \<Rightarrow> g
         | (oldest, _) # _ \<Rightarrow> evict_oldest lim len (inner_remove g oldest))
      else g)"
  by pat_completeness auto
termination
  by (relation "measure (\<lambda>(lim, len, g). length (entries g))") (auto simp: inner_remove_shrinks)

declare evict_oldest.simps [simp del]

definition mem_put :: "crypto \<Rightarrow> StoreLimits \<Rightarrow> Inner \<Rightarrow> StoredItem \<Rightarrow> u64 \<Rightarrow> StoreError + Inner" where
  "mem_put C lim g item0 now_ms =
     (case admit item0 lim now_ms of
        Inl e \<Rightarrow> Inl e
      | Inr item \<Rightarrow>
          (let value_hash = sha256 C [item_value item];
               existing = (case hm_get (by_key g) (item_key item) of None \<Rightarrow> [] | Some l \<Rightarrow> l)
           in if list_ex (\<lambda>s. case hm_get (entries g) s of
                              None \<Rightarrow> False
                            | Some e \<Rightarrow> sha256 C [item_value (e_item e)] = value_hash) existing
              then Inr g
              else
                (let len = item_len item;
                     key_bytes = sum_list (map entry_len (List.map_filter (hm_get (entries g)) existing));
                     g1 = evict_under_key lim len existing key_bytes g;
                     g2 = evict_oldest lim len g1;
                     seq = next_seq g2;
                     under = (case hm_get (by_key g2) (item_key item) of None \<Rightarrow> [] | Some l \<Rightarrow> l)
                 in Inr (g2\<lparr>next_seq := seq + 1,
                            bytes_held := bytes_held g2 + len,
                            by_key := hm_insert (item_key item) (under @ [seq]) (by_key g2),
                            entries := bt_insert seq \<lparr>e_item = item, e_seq = seq\<rparr> (entries g2)\<rparr>))))"

definition mem_get :: "Inner \<Rightarrow> DhtKey \<Rightarrow> u64 \<Rightarrow> StoredItem list" where
  "mem_get g key now_ms =
     map e_item (filter (\<lambda>e. item_expires_at_ms (e_item e) > now_ms)
       (List.map_filter (hm_get (entries g)) (case hm_get (by_key g) key of None \<Rightarrow> [] | Some l \<Rightarrow> l)))"

definition mem_delete :: "crypto \<Rightarrow> Inner \<Rightarrow> DhtKey \<Rightarrow> bytes \<Rightarrow> Inner \<times> nat" where
  "mem_delete C g key token =
     (let wanted = delete_hash C token;
          matching = filter (\<lambda>s. case hm_get (entries g) s of
                                None \<Rightarrow> False
                              | Some e \<Rightarrow> item_delete_hash (e_item e) = Some wanted)
                       (case hm_get (by_key g) key of None \<Rightarrow> [] | Some l \<Rightarrow> l)
      in (foldl inner_remove g matching, length matching))"

definition mem_gc :: "Inner \<Rightarrow> u64 \<Rightarrow> Inner" where
  "mem_gc g now_ms =
     (let expired = map e_seq (filter (\<lambda>e. item_expires_at_ms (e_item e) \<le> now_ms) (map snd (entries g)))
      in foldl inner_remove g expired)"

definition mem_all :: "Inner \<Rightarrow> u64 \<Rightarrow> StoredItem list" where
  "mem_all g now_ms = map e_item (filter (\<lambda>e. item_expires_at_ms (e_item e) > now_ms) (map snd (entries g)))"

definition mem_stats :: "Inner \<Rightarrow> StoreStats" where
  "mem_stats g = \<lparr>st_items = length (entries g), st_bytes = bytes_held g\<rparr>"

section \<open>The contract of the \<open>Storage\<close> trait, on the list of held items\<close>

text \<open>
  The trait documents \<open>put\<close> as "evicting the oldest under the same key and then the oldest
  overall to stay within limits; storing an identical value again is a no-op". The lists below
  are oldest first. \<open>spec_evict_key\<close> walks from the oldest item and drops an item of the key
  for as long as it and the items of the key after it leave no room.
\<close>

abbreviation of_key :: "DhtKey \<Rightarrow> StoredItem list \<Rightarrow> StoredItem list" where
  "of_key k xs \<equiv> filter (\<lambda>it. item_key it = k) xs"

abbreviation total_len :: "StoredItem list \<Rightarrow> nat" where
  "total_len xs \<equiv> sum_list (map item_len xs)"

definition key_full :: "StoreLimits \<Rightarrow> nat \<Rightarrow> DhtKey \<Rightarrow> StoredItem list \<Rightarrow> bool" where
  "key_full lim len k xs \<longleftrightarrow>
     length (of_key k xs) \<ge> max_items_per_key lim \<or> total_len (of_key k xs) + len > max_bytes_per_key lim"

fun spec_evict_key :: "StoreLimits \<Rightarrow> nat \<Rightarrow> DhtKey \<Rightarrow> StoredItem list \<Rightarrow> StoredItem list" where
  "spec_evict_key lim len k [] = []"
| "spec_evict_key lim len k (x # xs) =
     (if item_key x \<noteq> k then x # spec_evict_key lim len k xs
      else if key_full lim len k (x # xs) then spec_evict_key lim len k xs
      else x # xs)"

fun spec_evict_oldest :: "StoreLimits \<Rightarrow> nat \<Rightarrow> StoredItem list \<Rightarrow> StoredItem list" where
  "spec_evict_oldest lim len [] = []"
| "spec_evict_oldest lim len (x # xs) =
     (if total_len (x # xs) + len > max_total_bytes lim then spec_evict_oldest lim len xs else x # xs)"

definition spec_put ::
  "crypto \<Rightarrow> StoreLimits \<Rightarrow> StoredItem list \<Rightarrow> StoredItem \<Rightarrow> u64 \<Rightarrow> StoreError + StoredItem list" where
  "spec_put C lim xs item0 now_ms =
     (case admit item0 lim now_ms of
        Inl e \<Rightarrow> Inl e
      | Inr item \<Rightarrow>
          if \<exists>x \<in> set xs. item_key x = item_key item \<and> sha256 C [item_value x] = sha256 C [item_value item]
          then Inr xs
          else Inr (spec_evict_oldest lim (item_len item)
                      (spec_evict_key lim (item_len item) (item_key item) xs) @ [item]))"

definition spec_get :: "StoredItem list \<Rightarrow> DhtKey \<Rightarrow> u64 \<Rightarrow> StoredItem list" where
  "spec_get xs key now_ms = filter (\<lambda>it. item_key it = key \<and> item_expires_at_ms it > now_ms) xs"

definition deletable :: "crypto \<Rightarrow> DhtKey \<Rightarrow> bytes \<Rightarrow> StoredItem \<Rightarrow> bool" where
  "deletable C key token it \<longleftrightarrow> item_key it = key \<and> item_delete_hash it = Some (delete_hash C token)"

section \<open>The representation invariant of \<open>Inner\<close>\<close>

definition held :: "Inner \<Rightarrow> StoredItem list" where
  "held g = map (\<lambda>p. e_item (snd p)) (entries g)"

definition seqs_of :: "Inner \<Rightarrow> DhtKey \<Rightarrow> nat list" where
  "seqs_of g k = map fst (filter (\<lambda>p. item_key (e_item (snd p)) = k) (entries g))"

definition inner_inv :: "Inner \<Rightarrow> bool" where
  "inner_inv g \<longleftrightarrow>
     sorted_wrt (<) (keys (entries g)) \<and>
     (\<forall>s \<in> set (keys (entries g)). s < next_seq g) \<and>
     (\<forall>p \<in> set (entries g). e_seq (snd p) = fst p) \<and>
     bytes_held g = total_len (held g) \<and>
     distinct (keys (by_key g)) \<and>
     (\<forall>k. hm_get (by_key g) k = (if seqs_of g k = [] then None else Some (seqs_of g k)))"

lemma inner_inv_new [simp, inv_intros]: "inner_inv new_inner"
  by (simp add: inner_inv_def new_inner_def held_def seqs_of_def)

lemma inner_inv_distinct: "inner_inv g \<Longrightarrow> distinct (keys (entries g))"
  by (simp add: inner_inv_def strict_sorted_iff)

lemma inner_inv_by_key:
  "inner_inv g \<Longrightarrow> (case hm_get (by_key g) k of None \<Rightarrow> [] | Some l \<Rightarrow> l) = seqs_of g k"
  by (simp add: inner_inv_def)

lemma entries_inner_remove: "entries (inner_remove g s) = hm_remove s (entries g)"
proof (cases "hm_get (entries g) s")
  case None
  then have "hm_remove s (entries g) = entries g"
    by (intro hm_remove_notin) (simp add: map_of_eq_None_iff)
  with None show ?thesis by (simp add: inner_remove_def)
next
  case (Some e)
  then show ?thesis by (simp add: inner_remove_def Let_def split: option.splits)
qed

lemma next_seq_inner_remove [simp]: "next_seq (inner_remove g s) = next_seq g"
  by (simp add: inner_remove_def Let_def split: option.splits)

lemma seqs_of_inner_remove: "seqs_of (inner_remove g s) k = filter (\<lambda>x. x \<noteq> s) (seqs_of g k)"
proof -
  have "map fst (filter P (filter (\<lambda>p. fst p \<noteq> s) al)) = filter (\<lambda>x. x \<noteq> s) (map fst (filter P al))"
    for P and al :: "(nat \<times> Entry) list"
    by (induction al) auto
  then show ?thesis by (simp add: seqs_of_def entries_inner_remove hm_remove_filter)
qed

text \<open>The byte counter never underflows: a removed entry is part of the sum.\<close>

lemma total_len_remove:
  assumes "distinct (keys al)" and "hm_get al s = Some e"
  shows "sum_list (map (\<lambda>p. entry_len (snd p)) al) =
           entry_len e + sum_list (map (\<lambda>p. entry_len (snd p)) (hm_remove s al))"
  using assms by (induction al) (auto simp: hm_remove_notin)

lemma bytes_inner_remove:
  "bytes_held (inner_remove g s) =
     bytes_held g - (case hm_get (entries g) s of None \<Rightarrow> 0 | Some e \<Rightarrow> entry_len e)"
  by (simp add: inner_remove_def Let_def split: option.splits)

lemma lookup_inner_remove:
  assumes "hm_get (entries g) s = Some e"
  shows "hm_get (by_key (inner_remove g s)) j =
           (if j = item_key (e_item e)
            then (case hm_get (by_key g) j of
                    None \<Rightarrow> None
                  | Some l \<Rightarrow> (let l' = filter (\<lambda>x. x \<noteq> s) l in if l' = [] then None else Some l'))
            else hm_get (by_key g) j)"
  using assms by (auto simp: inner_remove_def Let_def split: option.splits)

lemma by_key_inner_remove:
  assumes "inner_inv g"
  shows "hm_get (by_key (inner_remove g s)) k =
           (if seqs_of (inner_remove g s) k = [] then None else Some (seqs_of (inner_remove g s) k))"
    and "distinct (keys (by_key (inner_remove g s)))"
proof -
  have bk: "hm_get (by_key g) j = (if seqs_of g j = [] then None else Some (seqs_of g j))" for j
    using assms by (simp add: inner_inv_def)
  have d: "distinct (keys (by_key g))"
    using assms by (simp add: inner_inv_def)
  have idle: "hm_get (entries g) s = Some e \<Longrightarrow> item_key (e_item e) \<noteq> j \<Longrightarrow> s \<notin> set (seqs_of g j)" for e j
    using inner_inv_distinct [OF assms] by (auto simp: seqs_of_def dest!: map_of_SomeD dest: eq_key_imp_eq_value)
  have keep: "s \<notin> set xs \<Longrightarrow> filter (\<lambda>x. x \<noteq> s) xs = xs" for xs :: "nat list"
    by (auto simp: filter_id_conv)
  have none: "hm_get (entries g) s = None \<Longrightarrow> s \<notin> set (seqs_of g j)" for j
    by (force simp: seqs_of_def map_of_eq_None_iff)
  show "hm_get (by_key (inner_remove g s)) k =
           (if seqs_of (inner_remove g s) k = [] then None else Some (seqs_of (inner_remove g s) k))"
  proof (cases "hm_get (entries g) s")
    case None
    then show ?thesis by (simp add: seqs_of_inner_remove keep none bk) (simp add: inner_remove_def bk)
  next
    case (Some e)
    then show ?thesis
      using idle [OF Some, of k] keep [of "seqs_of g k"]
      by (auto simp: lookup_inner_remove [OF Some] seqs_of_inner_remove bk Let_def)
  qed
  show "distinct (keys (by_key (inner_remove g s)))"
    using d by (simp add: inner_remove_def Let_def split: option.splits)
qed

lemma inner_inv_remove [inv_intros]:
  assumes "inner_inv g"
  shows "inner_inv (inner_remove g s)"
proof -
  have d: "distinct (keys (entries g))" by (rule inner_inv_distinct [OF assms])
  have "bytes_held (inner_remove g s) = total_len (held (inner_remove g s))"
  proof (cases "hm_get (entries g) s")
    case None
    then show ?thesis
      using assms by (simp add: inner_remove_def inner_inv_def)
  next
    case (Some e)
    with total_len_remove [OF d Some] assms show ?thesis
      by (simp add: bytes_inner_remove inner_inv_def held_def entries_inner_remove comp_def)
  qed
  moreover have "sorted_wrt (<) (keys (entries (inner_remove g s)))"
    using assms by (simp add: inner_inv_def entries_inner_remove keys_hm_remove sorted_wrt_filter)
  ultimately show ?thesis
    using assms by_key_inner_remove [OF assms]
    by (auto simp: inner_inv_def entries_inner_remove set_hm_remove)
qed

section \<open>The operations refine the contract\<close>

lemma spec_evict_key_skip:
  "\<forall>x \<in> set pre. item_key x \<noteq> k \<Longrightarrow> spec_evict_key lim len k (pre @ xs) = pre @ spec_evict_key lim len k xs"
  by (induction pre) auto

lemma seqs_of_split:
  assumes "seqs_of g k = s # rest"
  obtains pre e post where "entries g = pre @ (s, e) # post" and "item_key (e_item e) = k"
    and "\<forall>p \<in> set pre. item_key (e_item (snd p)) \<noteq> k"
proof -
  from assms obtain p ps where "filter (\<lambda>p. item_key (e_item (snd p)) = k) (entries g) = p # ps" and "s = fst p"
    by (auto simp: seqs_of_def map_eq_Cons_conv)
  then show thesis
    using that by (cases p) (auto simp: filter_eq_Cons_iff)
qed

lemma remove_split:
  assumes "distinct (keys (pre @ (s, e) # post))"
  shows "hm_remove s (pre @ (s, e) # post) = pre @ post" and "hm_get (pre @ (s, e) # post) s = Some e"
proof -
  have "s \<notin> set (keys pre)" "s \<notin> set (keys post)" using assms by auto
  then show "hm_remove s (pre @ (s, e) # post) = pre @ post"
    by (simp add: hm_remove_filter) (metis filter_True hm_remove_filter hm_remove_notin list.set_map)
  have "hm_get pre s = None" using \<open>s \<notin> set (keys pre)\<close> by (simp add: map_of_eq_None_iff)
  then show "hm_get (pre @ (s, e) # post) s = Some e" by (simp add: map_add_def)
qed

lemma of_key_held: "length (of_key k (held g)) = length (seqs_of g k)"
  by (simp add: held_def seqs_of_def filter_map comp_def)

lemma evict_under_key_refines:
  "inner_inv g \<Longrightarrow> seqs_of g k = l \<Longrightarrow> key_bytes = total_len (of_key k (held g)) \<Longrightarrow>
   inner_inv (evict_under_key lim len l key_bytes g) \<and>
   held (evict_under_key lim len l key_bytes g) = spec_evict_key lim len k (held g)"
proof (induction l arbitrary: g key_bytes)
  case Nil
  then have "\<forall>x \<in> set (held g). item_key x \<noteq> k"
    by (auto simp: held_def seqs_of_def filter_empty_conv)
  from spec_evict_key_skip [OF this, of lim len "[]"] Nil show ?case by simp
next
  case (Cons s rest)
  from Cons.prems(2) obtain pre e post where
    ent: "entries g = pre @ (s, e) # post" and ek: "item_key (e_item e) = k"
    and pre: "\<forall>p \<in> set pre. item_key (e_item (snd p)) \<noteq> k"
    by (rule seqs_of_split)
  let ?ipre = "map (\<lambda>p. e_item (snd p)) pre" and ?ipost = "map (\<lambda>p. e_item (snd p)) post"
  have d: "distinct (keys (pre @ (s, e) # post))"
    using inner_inv_distinct [OF Cons.prems(1)] ent by simp
  note rs = remove_split [OF d]
  have heldg: "held g = ?ipre @ e_item e # ?ipost" by (simp add: held_def ent)
  have prek: "of_key k ?ipre = []" using pre by (auto simp: filter_empty_conv)
  have full: "key_full lim len k (e_item e # ?ipost) \<longleftrightarrow>
      length (s # rest) \<ge> max_items_per_key lim \<or> key_bytes + len > max_bytes_per_key lim"
    using of_key_held [of k g] Cons.prems(2,3) by (simp add: key_full_def heldg prek ek)
  have ipre: "\<forall>x \<in> set ?ipre. item_key x \<noteq> k" using pre by auto
  show ?case
  proof (cases "key_full lim len k (e_item e # ?ipost)")
    case False
    then show ?thesis
      using full Cons.prems(1) ek
      by (simp add: heldg spec_evict_key_skip [OF ipre])
  next
    case True
    have "seqs_of (inner_remove g s) k = rest"
    proof -
      have "distinct (s # rest)"
        using inner_inv_distinct [OF Cons.prems(1)] Cons.prems(2)
        by (metis seqs_of_def distinct_map_filter)
      then show ?thesis by (auto simp: seqs_of_inner_remove Cons.prems(2) filter_id_conv)
    qed
    moreover have held': "held (inner_remove g s) = ?ipre @ ?ipost"
      by (simp add: held_def entries_inner_remove ent rs)
    moreover have "key_bytes - entry_len e = total_len (of_key k (held (inner_remove g s)))"
      using Cons.prems(3) by (simp add: held' heldg prek ek)
    ultimately have IH:
      "inner_inv (evict_under_key lim len rest (key_bytes - entry_len e) (inner_remove g s)) \<and>
       held (evict_under_key lim len rest (key_bytes - entry_len e) (inner_remove g s)) =
         spec_evict_key lim len k (?ipre @ ?ipost)"
      using Cons.IH [of "inner_remove g s" "key_bytes - entry_len e"] inner_inv_remove [OF Cons.prems(1)]
      by simp
    moreover have "hm_get (entries g) s = Some e" using rs(2) by (simp only: ent)
    ultimately show ?thesis
      using True full ek by (simp add: heldg spec_evict_key_skip [OF ipre])
  qed
qed

lemma evict_oldest_refines:
  "inner_inv g \<Longrightarrow> inner_inv (evict_oldest lim len g) \<and>
     held (evict_oldest lim len g) = spec_evict_oldest lim len (held g)"
proof (induction lim len g rule: evict_oldest.induct)
  case (1 lim len g)
  have b: "bytes_held g = total_len (held g)" using "1.prems" by (simp add: inner_inv_def)
  show ?case
  proof (cases "entries g")
    case Nil
    with "1.prems" show ?thesis by (simp add: evict_oldest.simps [of lim len g] held_def)
  next
    case (Cons p es)
    obtain s e where p: "p = (s, e)" by fastforce
    have d: "distinct (keys ([] @ (s, e) # es))"
      using inner_inv_distinct [OF "1.prems"] Cons p by simp
    have rest: "held (inner_remove g s) = map (\<lambda>p. e_item (snd p)) es"
      using remove_split(1) [OF d] by (simp add: held_def entries_inner_remove Cons p)
    show ?thesis
    proof (cases "bytes_held g + len > max_total_bytes lim")
      case True
      with "1.IH" [OF True Cons p [symmetric]] "1.prems" Cons p
      have "inner_inv (evict_oldest lim len (inner_remove g s)) \<and>
        held (evict_oldest lim len (inner_remove g s)) = spec_evict_oldest lim len (held (inner_remove g s))"
        by (simp add: inner_inv_remove)
      with True Cons p b rest show ?thesis
        by (simp add: evict_oldest.simps [of lim len g] held_def)
    next
      case False
      with "1.prems" b Cons p show ?thesis
        by (simp add: evict_oldest.simps [of lim len g] held_def)
    qed
  qed
qed

lemma map_filter_lookup:
  "distinct (keys al) \<Longrightarrow> List.map_filter (hm_get al) (map fst (filter P al)) = map snd (filter P al)"
proof -
  assume d: "distinct (keys al)"
  have "List.map_filter (hm_get al) (map fst xs) = map snd xs" if "set xs \<subseteq> set al" for xs
    using that by (induction xs) (auto simp: List.map_filter_def d map_of_is_SomeI)
  then show ?thesis by auto
qed

lemma lookup_seqs_of:
  "inner_inv g \<Longrightarrow> map e_item (List.map_filter (hm_get (entries g)) (seqs_of g k)) = of_key k (held g)"
  by (simp add: seqs_of_def map_filter_lookup inner_inv_distinct held_def filter_map comp_def)

lemma seq_lookup:
  assumes "inner_inv g" and "s \<in> set (seqs_of g k)"
  obtains e where "hm_get (entries g) s = Some e" and "item_key (e_item e) = k" and "e_item e \<in> set (held g)"
proof -
  from assms(2) obtain e where e: "(s, e) \<in> set (entries g)" "item_key (e_item e) = k"
    by (auto simp: seqs_of_def)
  then have "hm_get (entries g) s = Some e"
    using inner_inv_distinct [OF assms(1)] by (simp add: map_of_is_SomeI)
  moreover have "e_item e \<in> set (held g)" using e by (force simp: held_def)
  ultimately show thesis using that e by blast
qed

lemma held_seq:
  assumes "inner_inv g" and "x \<in> set (held g)"
  obtains s e where "s \<in> set (seqs_of g (item_key x))" and "hm_get (entries g) s = Some e" and "e_item e = x"
proof -
  from assms(2) obtain s e where e: "(s, e) \<in> set (entries g)" "e_item e = x"
    by (auto simp: held_def)
  then have "hm_get (entries g) s = Some e"
    using inner_inv_distinct [OF assms(1)] by (simp add: map_of_is_SomeI)
  moreover have "s \<in> set (seqs_of g (item_key x))" using e by (force simp: seqs_of_def)
  ultimately show thesis using that e by blast
qed

lemma duplicate_iff:
  assumes "inner_inv g"
  shows "list_ex (\<lambda>s. case hm_get (entries g) s of None \<Rightarrow> False
                    | Some e \<Rightarrow> sha256 C [item_value (e_item e)] = h) (seqs_of g k) \<longleftrightarrow>
         (\<exists>x \<in> set (held g). item_key x = k \<and> sha256 C [item_value x] = h)" (is "?L \<longleftrightarrow> ?R")
proof
  assume ?L
  then obtain s e where "s \<in> set (seqs_of g k)" "hm_get (entries g) s = Some e" "sha256 C [item_value (e_item e)] = h"
    by (auto simp: list_ex_iff split: option.splits)
  then show ?R using assms by (auto elim!: seq_lookup)
next
  assume ?R
  then obtain x where x: "x \<in> set (held g)" "item_key x = k" "sha256 C [item_value x] = h" by blast
  then obtain s e where "s \<in> set (seqs_of g k)" "hm_get (entries g) s = Some e" "e_item e = x"
    using assms by (blast elim: held_seq)
  with x show ?L by (force simp: list_ex_iff)
qed

definition inner_push :: "Inner \<Rightarrow> StoredItem \<Rightarrow> Inner" where
  "inner_push g item =
     (let seq = next_seq g;
          under = (case hm_get (by_key g) (item_key item) of None \<Rightarrow> [] | Some l \<Rightarrow> l)
      in g\<lparr>next_seq := seq + 1, bytes_held := bytes_held g + item_len item,
           by_key := hm_insert (item_key item) (under @ [seq]) (by_key g),
           entries := bt_insert seq \<lparr>e_item = item, e_seq = seq\<rparr> (entries g)\<rparr>)"

lemma inner_push_refines:
  assumes "inner_inv g"
  shows "inner_inv (inner_push g item)" and "held (inner_push g item) = held g @ [item]"
proof -
  have below: "\<forall>s \<in> set (keys (entries g)). s < next_seq g"
    using assms by (simp add: inner_inv_def)
  have ent: "entries (inner_push g item) = entries g @ [(next_seq g, \<lparr>e_item = item, e_seq = next_seq g\<rparr>)]"
    by (simp add: inner_push_def Let_def bt_insert_last [OF below])
  then show h: "held (inner_push g item) = held g @ [item]" by (simp add: held_def)
  have sq: "seqs_of (inner_push g item) k =
      (if k = item_key item then seqs_of g k @ [next_seq g] else seqs_of g k)" for k
    by (simp add: seqs_of_def ent)
  have bk: "hm_get (by_key (inner_push g item)) k =
      (if seqs_of (inner_push g item) k = [] then None else Some (seqs_of (inner_push g item) k))" for k
    unfolding sq using assms by (simp add: inner_push_def Let_def inner_inv_by_key) (simp add: inner_inv_def)
  have "distinct (keys (by_key (inner_push g item)))"
    using assms by (simp add: inner_push_def Let_def inner_inv_def)
  moreover have "bytes_held (inner_push g item) = total_len (held (inner_push g item))"
    using assms by (simp add: h) (simp add: inner_push_def Let_def inner_inv_def)
  moreover have "next_seq (inner_push g item) = Suc (next_seq g)"
    by (simp add: inner_push_def Let_def)
  moreover have "sorted_wrt (<) (keys (entries g))" "\<forall>p \<in> set (entries g). e_seq (snd p) = fst p"
    using assms by (simp_all add: inner_inv_def)
  ultimately show "inner_inv (inner_push g item)"
    using bk below unfolding inner_inv_def ent by (auto simp: sorted_wrt_append less_Suc_eq)
qed

lemma mem_put_refines:
  assumes "inner_inv g"
  shows "(case mem_put C lim g item0 now_ms of
            Inl e \<Rightarrow> spec_put C lim (held g) item0 now_ms = Inl e
          | Inr g' \<Rightarrow> inner_inv g' \<and> spec_put C lim (held g) item0 now_ms = Inr (held g'))"
proof (cases "admit item0 lim now_ms")
  case (Inl e)
  then show ?thesis by (simp add: mem_put_def spec_put_def)
next
  case (Inr item)
  let ?k = "item_key item" and ?len = "item_len item"
  let ?g1 = "evict_under_key lim ?len (seqs_of g ?k) (total_len (of_key ?k (held g))) g"
  let ?g2 = "evict_oldest lim ?len ?g1"
  have kb: "sum_list (map entry_len (List.map_filter (hm_get (entries g)) (seqs_of g ?k))) =
            total_len (of_key ?k (held g))"
    using lookup_seqs_of [OF assms, of ?k, symmetric] by (simp add: comp_def)
  have 1: "inner_inv ?g1 \<and> held ?g1 = spec_evict_key lim ?len ?k (held g)"
    by (rule evict_under_key_refines [OF assms refl refl])
  then have 2: "inner_inv ?g2 \<and> held ?g2 = spec_evict_oldest lim ?len (held ?g1)"
    by (intro evict_oldest_refines) simp
  have put: "mem_put C lim g item0 now_ms =
      (if \<exists>x \<in> set (held g). item_key x = ?k \<and> sha256 C [item_value x] = sha256 C [item_value item]
       then Inr g else Inr (inner_push ?g2 item))"
    by (auto simp: mem_put_def Inr Let_def inner_inv_by_key [OF assms] duplicate_iff [OF assms] kb inner_push_def)
  show ?thesis
    using assms 1 2 inner_push_refines [of ?g2 item]
    by (auto simp: put spec_put_def Inr)
qed

lemma mem_get_refines: "inner_inv g \<Longrightarrow> mem_get g key now_ms = spec_get (held g) key now_ms"
proof -
  assume inv: "inner_inv g"
  have "mem_get g key now_ms =
      filter (\<lambda>it. item_expires_at_ms it > now_ms) (of_key key (held g))"
    unfolding mem_get_def inner_inv_by_key [OF inv] lookup_seqs_of [OF inv, symmetric]
    by (simp add: filter_map comp_def)
  then show ?thesis by (simp add: spec_get_def conj_commute)
qed

lemma foldl_remove:
  "inner_inv g \<Longrightarrow> inner_inv (foldl inner_remove g l) \<and>
     entries (foldl inner_remove g l) = filter (\<lambda>p. fst p \<notin> set l) (entries g)"
proof (induction l arbitrary: g)
  case (Cons s l)
  from inner_inv_remove [OF Cons.prems, of s]
  have "inner_inv (inner_remove g s)" .
  with Cons.IH [of "inner_remove g s"] show ?case
    by (auto simp: entries_inner_remove hm_remove_filter intro!: filter_cong)
qed simp

lemma held_foldl_remove:
  assumes "inner_inv g" and "\<And>p. p \<in> set (entries g) \<Longrightarrow> fst p \<in> set l \<longleftrightarrow> P (e_item (snd p))"
  shows "inner_inv (foldl inner_remove g l)" and "held (foldl inner_remove g l) = filter (\<lambda>it. \<not> P it) (held g)"
proof -
  show "inner_inv (foldl inner_remove g l)" using foldl_remove [OF assms(1)] by blast
  have "filter (\<lambda>p. fst p \<notin> set l) (entries g) = filter (\<lambda>p. \<not> P (e_item (snd p))) (entries g)"
    using assms(2) by (intro filter_cong) auto
  then show "held (foldl inner_remove g l) = filter (\<lambda>it. \<not> P it) (held g)"
    using foldl_remove [OF assms(1), of l] by (simp add: held_def filter_map comp_def)
qed

lemma mem_delete_refines:
  assumes "inner_inv g"
  shows "inner_inv (fst (mem_delete C g key token))"
    and "held (fst (mem_delete C g key token)) = filter (\<lambda>it. \<not> deletable C key token it) (held g)"
    and "snd (mem_delete C g key token) = length (filter (deletable C key token) (held g))"
proof -
  let ?P = "\<lambda>s. case hm_get (entries g) s of None \<Rightarrow> False
                | Some e \<Rightarrow> item_delete_hash (e_item e) = Some (delete_hash C token)"
  let ?m = "filter ?P (seqs_of g key)"
  have del: "mem_delete C g key token = (foldl inner_remove g ?m, length ?m)"
    by (simp add: mem_delete_def Let_def inner_inv_by_key [OF assms])
  have get: "hm_get (entries g) (fst p) = Some (snd p)" if "p \<in> set (entries g)" for p
    using that inner_inv_distinct [OF assms] by (simp add: map_of_is_SomeI)
  have m: "?m = map fst (filter (\<lambda>p. deletable C key token (e_item (snd p))) (entries g))"
    unfolding seqs_of_def filter_map comp_def filter_filter
    by (rule arg_cong [where f = "map fst"], rule filter_cong) (auto simp: get deletable_def)
  have iff: "fst p \<in> set ?m \<longleftrightarrow> deletable C key token (e_item (snd p))" if "p \<in> set (entries g)" for p
    unfolding m using that get by (force dest: get)
  show "inner_inv (fst (mem_delete C g key token))"
    and "held (fst (mem_delete C g key token)) = filter (\<lambda>it. \<not> deletable C key token it) (held g)"
    using held_foldl_remove [OF assms, of ?m "deletable C key token"] iff by (simp_all add: del)
  show "snd (mem_delete C g key token) = length (filter (deletable C key token) (held g))"
    by (simp only: del m snd_conv) (simp add: held_def filter_map comp_def)
qed

lemma mem_gc_refines:
  assumes "inner_inv g"
  shows "inner_inv (mem_gc g now_ms)"
    and "held (mem_gc g now_ms) = filter (\<lambda>it. item_expires_at_ms it > now_ms) (held g)"
proof -
  let ?x = "map e_seq (filter (\<lambda>e. item_expires_at_ms (e_item e) \<le> now_ms) (map snd (entries g)))"
  have sq: "\<forall>p \<in> set (entries g). e_seq (snd p) = fst p" using assms by (simp add: inner_inv_def)
  have uniq: "snd p = snd q" if "p \<in> set (entries g)" "q \<in> set (entries g)" "fst p = fst q" for p q
    using that inner_inv_distinct [OF assms] unfolding distinct_map by (blast dest: inj_onD)
  have "fst p \<in> set ?x \<longleftrightarrow> item_expires_at_ms (e_item (snd p)) \<le> now_ms" if "p \<in> set (entries g)" for p
  proof
    assume "fst p \<in> set ?x"
    then obtain q where q: "q \<in> set (entries g)" "item_expires_at_ms (e_item (snd q)) \<le> now_ms" "fst p = e_seq (snd q)"
      by auto
    then have "snd p = snd q" using uniq [OF that q(1)] sq by simp
    with q(2) show "item_expires_at_ms (e_item (snd p)) \<le> now_ms" by simp
  next
    assume "item_expires_at_ms (e_item (snd p)) \<le> now_ms"
    with that sq show "fst p \<in> set ?x" by (force simp: image_iff)
  qed
  from held_foldl_remove [OF assms, of ?x "\<lambda>it. item_expires_at_ms it \<le> now_ms"] this
  show "inner_inv (mem_gc g now_ms)"
    and "held (mem_gc g now_ms) = filter (\<lambda>it. item_expires_at_ms it > now_ms) (held g)"
    by (simp_all add: mem_gc_def not_le)
qed

lemma mem_all_refines: "mem_all g now_ms = filter (\<lambda>it. item_expires_at_ms it > now_ms) (held g)"
  by (simp add: mem_all_def held_def filter_map comp_def)

lemma mem_stats_refines:
  "inner_inv g \<Longrightarrow> mem_stats g = \<lparr>st_items = length (held g), st_bytes = total_len (held g)\<rparr>"
  by (simp add: mem_stats_def inner_inv_def held_def)

section \<open>Consequences of the contract\<close>

definition within_limits :: "StoreLimits \<Rightarrow> StoredItem list \<Rightarrow> bool" where
  "within_limits lim xs \<longleftrightarrow>
     (\<forall>k. length (of_key k xs) \<le> max 1 (max_items_per_key lim) \<and>
          total_len (of_key k xs) \<le> max_bytes_per_key lim) \<and>
     total_len xs \<le> max (max_total_bytes lim) (max_bytes_per_key lim)"

lemma spec_evict_key_other: "j \<noteq> k \<Longrightarrow> of_key j (spec_evict_key lim len k xs) = of_key j xs"
  by (induction xs) auto

lemma spec_evict_key_room:
  "of_key k (spec_evict_key lim len k xs) = [] \<or> \<not> key_full lim len k (spec_evict_key lim len k xs)"
  by (induction xs) (auto simp: key_full_def)

text \<open>Of one key, what survives is its newest part.\<close>

lemma spec_evict_key_suffix: "\<exists>n. of_key k (spec_evict_key lim len k xs) = drop n (of_key k xs)"
proof (induction xs)
  case (Cons x xs)
  then obtain n where n: "of_key k (spec_evict_key lim len k xs) = drop n (of_key k xs)" by blast
  consider (other) "item_key x \<noteq> k" | (full) "item_key x = k" "key_full lim len k (x # xs)"
    | (room) "item_key x = k" "\<not> key_full lim len k (x # xs)" by blast
  then show ?case
  proof cases
    case other
    with n show ?thesis by auto
  next
    case full
    with n have "of_key k (spec_evict_key lim len k (x # xs)) = drop (Suc n) (of_key k (x # xs))" by simp
    then show ?thesis by blast
  next
    case room
    then have "of_key k (spec_evict_key lim len k (x # xs)) = drop 0 (of_key k (x # xs))" by simp
    then show ?thesis by blast
  qed
qed simp

lemma spec_evict_key_set: "set (spec_evict_key lim len k xs) \<subseteq> set xs"
  by (induction xs) auto

lemma spec_evict_key_total: "total_len (spec_evict_key lim len k xs) \<le> total_len xs"
  by (induction xs) auto

lemma spec_evict_oldest_suffix: "\<exists>n. spec_evict_oldest lim len xs = drop n xs"
proof (induction xs)
  case (Cons x xs)
  then obtain n where n: "spec_evict_oldest lim len xs = drop n xs" by blast
  show ?case
  proof (cases "total_len (x # xs) + len > max_total_bytes lim")
    case True
    with n have "spec_evict_oldest lim len (x # xs) = drop (Suc n) (x # xs)" by simp
    then show ?thesis by blast
  next
    case False
    then have "spec_evict_oldest lim len (x # xs) = drop 0 (x # xs)" by simp
    then show ?thesis by blast
  qed
qed simp

lemma spec_evict_oldest_room:
  "spec_evict_oldest lim len xs = [] \<or> total_len (spec_evict_oldest lim len xs) + len \<le> max_total_bytes lim"
  by (induction xs) auto

lemma of_key_drop: "\<exists>m. of_key k (drop n xs) = drop m (of_key k xs)"
proof (induction xs arbitrary: n)
  case (Cons x xs)
  show ?case
  proof (cases n)
    case 0
    then show ?thesis by (metis drop0)
  next
    case (Suc n')
    with Cons.IH [of n'] obtain m where "of_key k (drop n (x # xs)) = drop m (of_key k xs)" by auto
    then show ?thesis by (cases "item_key x = k") (auto intro: exI [of _ "Suc m"])
  qed
qed simp

lemma total_len_drop: "total_len (drop n xs) \<le> total_len xs"
proof -
  have "total_len xs = total_len (take n xs) + total_len (drop n xs)"
    by (metis append_take_drop_id map_append sum_list_append)
  then show ?thesis by simp
qed

lemma of_key_length_drop: "length (of_key k (drop n xs)) \<le> length (of_key k xs)"
  using of_key_drop [of k n xs] by force

lemma of_key_total_drop: "total_len (of_key k (drop n xs)) \<le> total_len (of_key k xs)"
  using of_key_drop [of k n xs] total_len_drop by metis

lemma admit_Inr:
  "admit it lim now = Inr it' \<Longrightarrow>
     item_key it' = item_key it \<and> item_value it' = item_value it \<and> item_delete_hash it' = item_delete_hash it \<and>
     item_len it' \<le> max_bytes_per_key lim \<and> item_len it' \<le> MAX_VALUE_BYTES \<and>
     item_expires_at_ms it > now \<and>
     item_expires_at_ms it' = min (item_expires_at_ms it) (now + max_ttl_ms lim)"
  by (auto simp: admit_def split: if_splits)

lemma spec_put_Inr:
  assumes "spec_put C lim xs it now = Inr ys"
  obtains it' where "admit it lim now = Inr it'"
    and "ys = xs \<and> (\<exists>x \<in> set xs. item_key x = item_key it \<and> sha256 C [item_value x] = sha256 C [item_value it])
         \<or> ys = spec_evict_oldest lim (item_len it') (spec_evict_key lim (item_len it') (item_key it') xs) @ [it']"
proof -
  from assms obtain it' where a: "admit it lim now = Inr it'" by (auto simp: spec_put_def split: sum.splits)
  with admit_Inr [OF a] assms show thesis
    by (intro that [OF a]) (auto simp: spec_put_def split: if_splits)
qed

lemma evicted_within:
  assumes w: "within_limits lim xs" and len: "item_len it \<le> max_bytes_per_key lim"
  defines "zs \<equiv> spec_evict_key lim (item_len it) (item_key it) xs"
  shows "within_limits lim (spec_evict_oldest lim (item_len it) zs @ [it])"
proof -
  obtain n where ys: "spec_evict_oldest lim (item_len it) zs = drop n zs"
    using spec_evict_oldest_suffix by blast
  have own: "length (of_key (item_key it) zs) + 1 \<le> max 1 (max_items_per_key lim) \<and>
             total_len (of_key (item_key it) zs) + item_len it \<le> max_bytes_per_key lim"
    using spec_evict_key_room [of "item_key it" lim "item_len it" xs] len
    by (auto simp: zs_def key_full_def)
  have other: "of_key j zs = of_key j xs" if "j \<noteq> item_key it" for j
    using that by (simp add: zs_def spec_evict_key_other)
  have "length (of_key j (drop n zs @ [it])) \<le> max 1 (max_items_per_key lim) \<and>
        total_len (of_key j (drop n zs @ [it])) \<le> max_bytes_per_key lim" for j
  proof (cases "j = item_key it")
    case True
    with own of_key_length_drop [of j n zs] of_key_total_drop [of j n zs] show ?thesis by auto
  next
    case False
    with other [OF False] of_key_length_drop [of j n zs] of_key_total_drop [of j n zs] w show ?thesis
      unfolding within_limits_def by (auto intro: order_trans)
  qed
  moreover have "total_len (drop n zs @ [it]) \<le> max (max_total_bytes lim) (max_bytes_per_key lim)"
    using spec_evict_oldest_room [of lim "item_len it" zs] len by (auto simp: ys)
  ultimately show ?thesis by (simp add: within_limits_def ys)
qed

lemma spec_put_within:
  assumes "within_limits lim xs" and "spec_put C lim xs it now = Inr ys"
  shows "within_limits lim ys"
  using assms(2)
proof (rule spec_put_Inr)
  fix it'
  assume a: "admit it lim now = Inr it'"
  have "item_len it' \<le> max_bytes_per_key lim" using admit_Inr [OF a] by blast
  then have "within_limits lim
      (spec_evict_oldest lim (item_len it') (spec_evict_key lim (item_len it') (item_key it') xs) @ [it'])"
    by (rule evicted_within [OF assms(1)])
  moreover assume "ys = xs \<and> (\<exists>x \<in> set xs. item_key x = item_key it \<and> sha256 C [item_value x] = sha256 C [item_value it])
     \<or> ys = spec_evict_oldest lim (item_len it') (spec_evict_key lim (item_len it') (item_key it') xs) @ [it']"
  ultimately show ?thesis using assms(1) by auto
qed

lemma within_limits_filter: "within_limits lim xs \<Longrightarrow> within_limits lim (filter P xs)"
proof -
  assume w: "within_limits lim xs"
  have "length (of_key k (filter P xs)) \<le> length (of_key k xs)" for k
    by (induction xs) auto
  moreover have "total_len (of_key k (filter P xs)) \<le> total_len (of_key k xs)" for k
    by (induction xs) auto
  moreover have "total_len (filter P xs) \<le> total_len xs" by (rule sum_list_filter_le)
  ultimately show ?thesis
    using w unfolding within_limits_def by (meson order_trans)
qed

section \<open>The \<open>Storage\<close> trait as an interface\<close>

text \<open>
  A backend is a record of its operations; the node takes any. The laws are what the node
  relies on and every backend promises: what is refused and why, that a stored value is there
  afterwards, that nothing else appears, and what reading, deleting and expiring return.
\<close>

record 's storage =
  s_put :: "'s \<Rightarrow> StoredItem \<Rightarrow> u64 \<Rightarrow> StoreError + 's"
  s_get :: "'s \<Rightarrow> DhtKey \<Rightarrow> u64 \<Rightarrow> StoredItem list"
  s_delete :: "'s \<Rightarrow> DhtKey \<Rightarrow> bytes \<Rightarrow> 's \<times> nat"
  s_gc :: "'s \<Rightarrow> u64 \<Rightarrow> 's"
  s_all :: "'s \<Rightarrow> u64 \<Rightarrow> StoredItem list"
  s_stats :: "'s \<Rightarrow> StoreStats"

definition mem_storage :: "crypto \<Rightarrow> StoreLimits \<Rightarrow> Inner storage" where
  "mem_storage C lim = \<lparr>s_put = mem_put C lim, s_get = mem_get, s_delete = mem_delete C,
     s_gc = mem_gc, s_all = mem_all, s_stats = mem_stats\<rparr>"

locale dht_storage =
  fixes C :: crypto and lim :: StoreLimits and S :: "'s storage"
    and ok :: "'s \<Rightarrow> bool" and items :: "'s \<Rightarrow> StoredItem list"
  assumes put_refused: "ok s \<Longrightarrow> s_put S s it now = Inl e \<Longrightarrow> admit it lim now = Inl e \<or> (\<exists>m. e = Backend m)"
    and put_ok: "ok s \<Longrightarrow> s_put S s it now = Inr s' \<Longrightarrow> ok s'"
    and put_admitted: "ok s \<Longrightarrow> s_put S s it now = Inr s' \<Longrightarrow>
          \<exists>it'. admit it lim now = Inr it' \<and> set (items s') \<subseteq> insert it' (set (items s))"
    and put_held: "ok s \<Longrightarrow> s_put S s it now = Inr s' \<Longrightarrow>
          \<exists>x \<in> set (items s'). item_key x = item_key it \<and> sha256 C [item_value x] = sha256 C [item_value it]"
    and put_within: "ok s \<Longrightarrow> within_limits lim (items s) \<Longrightarrow> s_put S s it now = Inr s' \<Longrightarrow>
          within_limits lim (items s')"
    and get_items: "ok s \<Longrightarrow> s_get S s k now = spec_get (items s) k now"
    and delete_ok: "ok s \<Longrightarrow> ok (fst (s_delete S s k t))"
    and delete_items: "ok s \<Longrightarrow> items (fst (s_delete S s k t)) = filter (\<lambda>it. \<not> deletable C k t it) (items s)"
    and delete_count: "ok s \<Longrightarrow> snd (s_delete S s k t) = length (filter (deletable C k t) (items s))"
    and gc_ok: "ok s \<Longrightarrow> ok (s_gc S s now)"
    and gc_items: "ok s \<Longrightarrow> items (s_gc S s now) = filter (\<lambda>it. item_expires_at_ms it > now) (items s)"
    and all_items: "ok s \<Longrightarrow> s_all S s now = filter (\<lambda>it. item_expires_at_ms it > now) (items s)"
begin

text \<open>Deleting what is under another key, or with another token, changes no answer.\<close>

lemma delete_keeps_get:
  "ok s \<Longrightarrow> s_get S (fst (s_delete S s k t)) j now = filter (\<lambda>it. \<not> deletable C k t it) (s_get S s j now)"
  by (simp add: get_items delete_ok delete_items spec_get_def conj_ac)

lemma delete_idempotent: "ok s \<Longrightarrow> snd (s_delete S (fst (s_delete S s k t)) k t) = 0"
  by (simp add: delete_ok delete_items delete_count)

lemma gc_keeps_get: "ok s \<Longrightarrow> now \<le> later \<Longrightarrow> s_get S (s_gc S s now) j later = s_get S s j later"
  by (auto simp: get_items gc_ok gc_items spec_get_def intro!: filter_cong)

lemma put_get_sound:
  assumes "ok s" and "s_put S s it now = Inr s'" and "x \<in> set (s_get S s' k later)"
  shows "x \<in> set (s_get S s k later) \<or> (\<exists>it'. admit it lim now = Inr it' \<and> x = it' \<and> k = item_key it)"
  using put_admitted [OF assms(1,2)] assms put_ok [OF assms(1,2)]
  by (auto simp: get_items spec_get_def dest: admit_Inr)

end

interpretation mem: dht_storage C lim "mem_storage C lim" inner_inv held
proof
  show "admit it lim now = Inl e \<or> (\<exists>m. e = Backend m)"
    if "inner_inv s" "s_put (mem_storage C lim) s it now = Inl e" for s it now e
    using that mem_put_refines [OF that(1), of C lim it now]
    by (auto simp: mem_storage_def spec_put_def split: sum.splits if_splits)
  fix s s' it now
  assume inv: "inner_inv s" and "s_put (mem_storage C lim) s it now = Inr s'"
  then have put: "inner_inv s'" "spec_put C lim (held s) it now = Inr (held s')"
    using mem_put_refines [of s C lim it now] by (auto simp: mem_storage_def)
  then show "inner_inv s'" by simp
  show "within_limits lim (held s) \<Longrightarrow> within_limits lim (held s')"
    by (rule spec_put_within [OF _ put(2)])
  obtain it' where a: "admit it lim now = Inr it'"
    and ys: "held s' = held s \<and> (\<exists>x \<in> set (held s). item_key x = item_key it \<and> sha256 C [item_value x] = sha256 C [item_value it])
      \<or> held s' = spec_evict_oldest lim (item_len it') (spec_evict_key lim (item_len it') (item_key it') (held s)) @ [it']"
    using spec_put_Inr [OF put(2)] by blast
  have sub: "set (spec_evict_oldest lim l (spec_evict_key lim l k xs)) \<subseteq> set xs" for l k xs
    using spec_evict_oldest_suffix [of lim l "spec_evict_key lim l k xs"] spec_evict_key_set [of lim l k xs]
    by (auto dest!: in_set_dropD)
  show "\<exists>it'. admit it lim now = Inr it' \<and> set (held s') \<subseteq> insert it' (set (held s))"
    using a ys sub [of "item_len it'" "item_key it'" "held s"] by auto
  show "\<exists>x \<in> set (held s'). item_key x = item_key it \<and> sha256 C [item_value x] = sha256 C [item_value it]"
    using ys admit_Inr [OF a] by auto
qed (simp_all add: mem_storage_def mem_get_refines mem_delete_refines mem_gc_refines mem_all_refines)

section \<open>Properties\<close>

text \<open>C2. \<open>MemStorage::put\<close> implements the contract of the \<open>Storage\<close> trait: on every state
  that satisfies the representation invariant it fails exactly when the contract says so, with the
  same error, and otherwise the items it holds afterwards are those of the contract (identical values
  once; oldest under the same key evicted first, then oldest overall; the new item last), and the
  invariant (index, byte counter and sequence numbers agree with the entries) is kept.\<close>

theorem mem_put_contract:
  assumes "inner_inv g"
  shows "(case mem_put C lim g item0 now_ms of
            Inl e \<Rightarrow> spec_put C lim (held g) item0 now_ms = Inl e
          | Inr g' \<Rightarrow> inner_inv g' \<and> spec_put C lim (held g) item0 now_ms = Inr (held g'))"
  using assms by (rule mem_put_refines)

definition item_ex :: "u8 \<Rightarrow> bytes \<Rightarrow> u64 \<Rightarrow> StoredItem" where
  "item_ex k v t = \<lparr>item_key = [k], item_value = v, item_delete_hash = None, item_expires_at_ms = t\<rparr>"

definition limits_ex :: StoreLimits where
  "limits_ex = \<lparr>max_total_bytes = 6, max_bytes_per_key = 4, max_items_per_key = 2, max_ttl_ms = 1000\<rparr>"

lemma mem_put_contract_witness:
  "inner_inv new_inner \<and>
   (case mem_put toy_crypto limits_ex new_inner (item_ex 1 [7] 500) 0 of
      Inl e \<Rightarrow> False
    | Inr g' \<Rightarrow> inner_inv g' \<and> held g' = [item_ex 1 [7] 500])"
proof -
  have "spec_put toy_crypto limits_ex (held new_inner) (item_ex 1 [7] 500) 0 = Inr [item_ex 1 [7] 500]"
    by (simp add: spec_put_def admit_def MAX_VALUE_BYTES_def item_ex_def limits_ex_def held_def new_inner_def)
  with mem_put_contract [OF inner_inv_new, of toy_crypto limits_ex "item_ex 1 [7] 500" 0]
  show ?thesis by (auto split: sum.splits)
qed

text \<open>The operations that change a store, as the letters of a history.\<close>

datatype StoreOp = OpPut StoredItem u64 | OpDelete DhtKey bytes | OpGc u64

fun store_step :: "crypto \<Rightarrow> StoreLimits \<Rightarrow> Inner \<Rightarrow> StoreOp \<Rightarrow> Inner" where
  "store_step C lim g (OpPut it now) = (case mem_put C lim g it now of Inl _ \<Rightarrow> g | Inr g' \<Rightarrow> g')"
| "store_step C lim g (OpDelete k t) = fst (mem_delete C g k t)"
| "store_step C lim g (OpGc now) = mem_gc g now"

lemma store_step_inv:
  "inner_inv g \<and> within_limits lim (held g) \<Longrightarrow>
     inner_inv (store_step C lim g op) \<and> within_limits lim (held (store_step C lim g op))"
proof (cases op)
  case (OpPut it now)
  assume "inner_inv g \<and> within_limits lim (held g)"
  with OpPut mem_put_refines [of g C lim it now] show ?thesis
    by (auto split: sum.splits intro: spec_put_within)
qed (auto simp: mem_delete_refines mem_gc_refines within_limits_filter)

text \<open>The limits hold after every sequence of \<open>MemStorage\<close> operations from an empty store: under
  each key at most \<open>max_items_per_key\<close> items (one, if that is 0) and \<open>max_bytes_per_key\<close>
  bytes, and at most \<open>max_total_bytes\<close> bytes in all (\<open>max_bytes_per_key\<close>, if that is more).\<close>

theorem store_limits_hold:
  "within_limits lim (held (foldl (store_step C lim) new_inner ops))"
proof -
  have "inner_inv (foldl (store_step C lim) g ops) \<and> within_limits lim (held (foldl (store_step C lim) g ops))"
    if "inner_inv g \<and> within_limits lim (held g)" for g
    using that
  proof (induction ops arbitrary: g)
    case (Cons op ops)
    from Cons.IH [OF store_step_inv [OF Cons.prems]] show ?case by simp
  qed simp
  moreover have "within_limits lim (held new_inner)"
    by (simp add: within_limits_def new_inner_def held_def)
  ultimately show ?thesis by simp
qed

text \<open>\<open>MemStorage::delete\<close> removes exactly the items under the key whose delete hash is the hash
  of the token, reports their number, and leaves every other item in place and in order.\<close>

theorem mem_delete_exact:
  assumes "inner_inv g"
  shows "held (fst (mem_delete C g key token)) =
           filter (\<lambda>it. \<not> (item_key it = key \<and> item_delete_hash it = Some (delete_hash C token))) (held g) \<and>
         snd (mem_delete C g key token) =
           length (filter (\<lambda>it. item_key it = key \<and> item_delete_hash it = Some (delete_hash C token)) (held g)) \<and>
         inner_inv (fst (mem_delete C g key token))"
  using mem_delete_refines [OF assms, of C key token]
  by (simp only: deletable_def [abs_def] simp_thms)

lemma mem_delete_exact_witness:
  "(let it = (item_ex 1 [7] 500)\<lparr>item_delete_hash := Some (delete_hash toy_crypto [9])\<rparr>;
        g = inner_push (inner_push new_inner (item_ex 1 [8] 500)) it
    in inner_inv g \<and> held (fst (mem_delete toy_crypto g [1] [9])) = [item_ex 1 [8] 500] \<and>
       snd (mem_delete toy_crypto g [1] [9]) = 1)"
proof -
  let ?it = "(item_ex 1 [7] 500)\<lparr>item_delete_hash := Some (delete_hash toy_crypto [9])\<rparr>"
  let ?g = "inner_push (inner_push new_inner (item_ex 1 [8] 500)) ?it"
  have inv: "inner_inv ?g" by (intro inner_push_refines(1) inner_inv_new)
  have h: "held ?g = [item_ex 1 [8] 500, ?it]"
    using inner_push_refines [OF inner_inv_new, of "item_ex 1 [8] 500"]
      inner_push_refines(2) [of "inner_push new_inner (item_ex 1 [8] 500)" ?it]
    by (simp add: new_inner_def held_def)
  have n: "item_delete_hash (item_ex 1 [8] 500) = None" "item_key (item_ex 1 [7] 500) = [1]"
    by (simp_all add: item_ex_def)
  show ?thesis
    using mem_delete_exact [OF inv, of toy_crypto "[1]" "[9]"] inv unfolding h Let_def by (simp add: n)
qed

text \<open>A value that was stored is there afterwards: when \<open>put\<close> succeeds, an item under the same
  key with the same value hash is held, it was never the one evicted; and a reader of the store gets,
  beyond what it got before, at most the admitted item with its clamped lifetime.\<close>

theorem mem_put_get:
  assumes "inner_inv g" and "mem_put C lim g it now = Inr g'"
  shows "(\<exists>x \<in> set (held g'). item_key x = item_key it \<and> sha256 C [item_value x] = sha256 C [item_value it]) \<and>
         (\<forall>k later. set (mem_get g' k later) \<subseteq>
            set (mem_get g k later) \<union>
            {it\<lparr>item_expires_at_ms := min (item_expires_at_ms it) (now + max_ttl_ms lim)\<rparr>})"
proof -
  have put: "s_put (mem_storage C lim) g it now = Inr g'" using assms(2) by (simp add: mem_storage_def)
  have "x = it\<lparr>item_expires_at_ms := min (item_expires_at_ms it) (now + max_ttl_ms lim)\<rparr>"
    if "admit it lim now = Inr x" for x
    using that by (auto simp: admit_def split: if_splits)
  then show ?thesis
    using mem.put_held [OF assms(1) put] mem.put_get_sound [OF assms(1) put]
    by (auto simp: mem_storage_def)
qed

lemma mem_put_get_witness:
  "\<exists>g'. mem_put toy_crypto limits_ex new_inner (item_ex 1 [7] 500) 0 = Inr g' \<and>
     (\<exists>x \<in> set (held g'). item_key x = [1] \<and> sha256 toy_crypto [item_value x] = sha256 toy_crypto [[7]])"
proof -
  let ?r = "mem_put toy_crypto limits_ex new_inner (item_ex 1 [7] 500) 0"
  have "\<not> isl ?r"
    by (simp add: mem_put_def admit_def MAX_VALUE_BYTES_def item_ex_def limits_ex_def new_inner_def Let_def)
  then obtain g' where g': "?r = Inr g'" by (cases ?r) auto
  from mem_put_get [OF inner_inv_new g'] g' show ?thesis by (auto simp: item_ex_def)
qed

end
