(* ===== verification/Dht_Crypto.thy ===== *)
theory Dht_Crypto
  imports Dht_Store
begin

text \<open>
  \<open>dht/src/crypto.rs\<close>: the keys under which items are stored, and how an item is padded and
  sealed before it leaves its owner. The primitives are the record \<open>crypto\<close>; a nonce or an
  ephemeral secret drawn from the RNG is an argument.
\<close>

definition MIN_BUCKET :: nat where
  "MIN_BUCKET = 256"

definition MAX_PLAINTEXT :: nat where
  "MAX_PLAINTEXT = 4 * 1024 * 1024 - 64"

definition NONCE_LEN :: nat where
  "NONCE_LEN = 24"

text \<open>\<open>(now_ms / DAY_MS) as u32\<close>: the cast keeps the low 32 bits.\<close>

definition day_of :: "u64 \<Rightarrow> u32" where
  "day_of now_ms = ucast (now_ms div DAY_MS)"

definition SALT_PAIR :: bytes where
  "SALT_PAIR = ascii ''gipny-dht-pair-v1''"
definition SALT_CARD :: bytes where
  "SALT_CARD = ascii ''gipny-dht-card-v1''"
definition SALT_SEAL :: bytes where
  "SALT_SEAL = ascii ''gipny-dht-seal-v1''"
definition SALT_ECIES :: bytes where
  "SALT_ECIES = ascii ''gipny-dht-ecies-v1''"
definition SALT_ALIAS :: bytes where
  "SALT_ALIAS = ascii ''gipny-dht-alias-v1''"

definition hkdf :: "crypto \<Rightarrow> bytes \<Rightarrow> bytes \<Rightarrow> bytes \<Rightarrow> bytes" where
  "hkdf C salt ikm info = Hkdf C salt ikm info 32"

definition hmac :: "crypto \<Rightarrow> bytes \<Rightarrow> bytes list \<Rightarrow> bytes" where
  "hmac C key parts = Hmac C key (concat parts)"

definition pair_secret :: "crypto \<Rightarrow> bytes \<Rightarrow> bytes \<Rightarrow> bytes \<Rightarrow> bytes \<Rightarrow> bytes option" where
  "pair_secret C my_dh_sk their_dh_pk my_sign_pk their_sign_pk =
     (let shared = X25519 C my_dh_sk their_dh_pk in
      if \<not> was_contributory shared then None
      else let (lo, hi) = (if my_sign_pk \<le> their_sign_pk then (my_sign_pk, their_sign_pk)
                           else (their_sign_pk, my_sign_pk))
           in Some (hkdf C SALT_PAIR (shared @ lo @ hi) (ascii ''pair'')))"

definition card_secret :: "crypto \<Rightarrow> bytes \<Rightarrow> bytes \<Rightarrow> bytes" where
  "card_secret C sign_pk dh_pk = hkdf C SALT_CARD (sign_pk @ dh_pk) (ascii ''card'')"

definition mail_key :: "crypto \<Rightarrow> bytes \<Rightarrow> bytes \<Rightarrow> u32 \<Rightarrow> DhtKey" where
  "mail_key C pair to_sign_pk day = hmac C pair [ascii ''mail'', to_sign_pk, u32_to_le_bytes day]"

definition intro_key :: "crypto \<Rightarrow> bytes \<Rightarrow> u32 \<Rightarrow> DhtKey" where
  "intro_key C crd day = hmac C crd [ascii ''intro'', u32_to_le_bytes day]"

definition addr_key :: "crypto \<Rightarrow> bytes \<Rightarrow> bytes \<Rightarrow> DhtKey" where
  "addr_key C pair owner_sign_pk = hmac C pair [ascii ''addr'', owner_sign_pk]"

definition bundle_key :: "crypto \<Rightarrow> bytes \<Rightarrow> DhtKey" where
  "bundle_key C crd = hmac C crd [ascii ''bundle'']"

definition alias_key :: "crypto \<Rightarrow> bytes \<Rightarrow> DhtKey" where
  "alias_key C alias = sha256 C [ascii ''gipny-dht-alias-key-v1'', alias]"

definition alias_seal_secret :: "crypto \<Rightarrow> DhtKey \<Rightarrow> bytes" where
  "alias_seal_secret C key = hkdf C SALT_ALIAS key (ascii ''alias'')"

section \<open>Padding\<close>

text \<open>\<open>usize::next_power_of_two\<close>, the smallest power of two that is at least the argument.\<close>

function next_pow2_from :: "nat \<Rightarrow> nat \<Rightarrow> nat" where
  "next_pow2_from p n = (if p = 0 \<or> n \<le> p then p else next_pow2_from (2 * p) n)"
  by pat_completeness auto
termination
  by (relation "measure (\<lambda>(p, n). n - p)") auto

declare next_pow2_from.simps [simp del]

definition next_power_of_two :: "nat \<Rightarrow> nat" where
  "next_power_of_two n = next_pow2_from 1 n"

definition pad :: "bytes \<Rightarrow> bytes option" where
  "pad plaintext =
     (if length plaintext > MAX_PLAINTEXT then None
      else let need = length plaintext + 4;
               bucket = max (next_power_of_two need) MIN_BUCKET;
               out = u32_to_le_bytes (of_nat (length plaintext)) @ plaintext
           in Some (out @ replicate (bucket - length out) 0))"

text \<open>
  \<open>padded.get(..4)?\<close> and \<open>padded.get(4..4 + len)\<close> are \<open>None\<close> out of range; on a 64-bit target
  \<open>4 + len\<close> of a \<open>u32\<close> cannot overflow.
\<close>

definition unpad :: "bytes \<Rightarrow> bytes option" where
  "unpad padded =
     (if length padded < 4 then None
      else let len = of_le_bytes (take 4 padded) in
           if 4 + len > length padded then None else Some (take len (drop 4 padded)))"

section \<open>Sealing\<close>

definition aead_seal :: "crypto \<Rightarrow> bytes \<Rightarrow> bytes \<Rightarrow> bytes \<Rightarrow> bytes \<Rightarrow> bytes option" where
  "aead_seal C nonce key aad plaintext =
     (case pad plaintext of
        None \<Rightarrow> None
      | Some padded \<Rightarrow>
          (case Aead_encrypt C key nonce aad padded of
             None \<Rightarrow> None
           | Some ct \<Rightarrow> Some (nonce @ ct)))"

definition aead_open :: "crypto \<Rightarrow> bytes \<Rightarrow> bytes \<Rightarrow> bytes \<Rightarrow> bytes option" where
  "aead_open C key aad sealed =
     (if length sealed < NONCE_LEN then None
      else (case Aead_decrypt C key (take NONCE_LEN sealed) aad (drop NONCE_LEN sealed) of
              None \<Rightarrow> None
            | Some padded \<Rightarrow> unpad padded))"

definition seal :: "crypto \<Rightarrow> bytes \<Rightarrow> bytes \<Rightarrow> bytes \<Rightarrow> DhtKey \<Rightarrow> bytes \<Rightarrow> bytes option" where
  "seal C nonce secret label dht_key plaintext =
     aead_seal C nonce (hkdf C SALT_SEAL secret label) dht_key plaintext"

definition open_sealed :: "crypto \<Rightarrow> bytes \<Rightarrow> bytes \<Rightarrow> DhtKey \<Rightarrow> bytes \<Rightarrow> bytes option" where
  "open_sealed C secret label dht_key sealed = aead_open C (hkdf C SALT_SEAL secret label) dht_key sealed"

definition seal_to :: "crypto \<Rightarrow> bytes \<Rightarrow> bytes \<Rightarrow> bytes \<Rightarrow> DhtKey \<Rightarrow> bytes \<Rightarrow> bytes option" where
  "seal_to C eph nonce recipient_dh_pk dht_key plaintext =
     (let eph_pk = X25519_pub C eph;
          shared = X25519 C eph recipient_dh_pk
      in if \<not> was_contributory shared then None
         else let key = hkdf C SALT_ECIES (shared @ eph_pk @ recipient_dh_pk) (ascii ''intro'')
              in case aead_seal C nonce key dht_key plaintext of
                   None \<Rightarrow> None
                 | Some ct \<Rightarrow> Some (eph_pk @ ct))"

definition open_from :: "crypto \<Rightarrow> bytes \<Rightarrow> DhtKey \<Rightarrow> bytes \<Rightarrow> bytes option" where
  "open_from C my_dh_sk dht_key sealed =
     (if length sealed < 32 then None
      else let eph_pk = take 32 sealed;
               my_pk = X25519_pub C my_dh_sk;
               shared = X25519 C my_dh_sk eph_pk
           in if \<not> was_contributory shared then None
              else aead_open C (hkdf C SALT_ECIES (shared @ eph_pk @ my_pk) (ascii ''intro'')) dht_key (drop 32 sealed))"

section \<open>Lemmas\<close>

lemma next_pow2_from_spec:
  assumes "0 < p"
  shows "\<exists>i. next_pow2_from p n = p * 2 ^ i \<and> n \<le> p * 2 ^ i \<and> (\<forall>j < i. p * 2 ^ j < n)"
  using assms
proof (induction p n rule: next_pow2_from.induct)
  case (1 p n)
  show ?case
  proof (cases "n \<le> p")
    case True
    then have "next_pow2_from p n = p * 2 ^ 0" by (simp add: next_pow2_from.simps [of p n])
    with True show ?thesis by (intro exI [of _ 0]) simp
  next
    case False
    with 1 obtain i where i: "next_pow2_from (2 * p) n = 2 * p * 2 ^ i" "n \<le> 2 * p * 2 ^ i"
      "\<forall>j < i. 2 * p * 2 ^ j < n" by auto
    have "p * 2 ^ j < n" if "j < Suc i" for j
      using that False i(3) by (cases j) (auto simp: mult.assoc mult.left_commute)
    with False i(1,2) "1.prems" show ?thesis
      by (intro exI [of _ "Suc i"]) (simp add: next_pow2_from.simps [of p n] mult.assoc mult.left_commute)
  qed
qed

lemma next_power_of_two_spec:
  obtains i where "next_power_of_two n = 2 ^ i" "n \<le> 2 ^ i" "\<forall>j < i. 2 ^ j < n"
  using next_pow2_from_spec [of 1 n] by (auto simp: next_power_of_two_def)

lemma pad_Some:
  assumes "pad p = Some out"
  shows "length out = max (next_power_of_two (length p + 4)) MIN_BUCKET" and "length p \<le> MAX_PLAINTEXT"
    and "\<exists>z. out = u32_to_le_bytes (of_nat (length p)) @ p @ replicate z 0"
proof -
  obtain i where "next_power_of_two (length p + 4) = 2 ^ i" "length p + 4 \<le> 2 ^ i"
    by (rule next_power_of_two_spec)
  then show "length out = max (next_power_of_two (length p + 4)) MIN_BUCKET"
    using assms by (auto simp: pad_def Let_def split: if_splits)
  show "length p \<le> MAX_PLAINTEXT" and "\<exists>z. out = u32_to_le_bytes (of_nat (length p)) @ p @ replicate z 0"
    using assms by (auto simp: pad_def Let_def split: if_splits)
qed

lemma unpad_pad: "pad p = Some out \<Longrightarrow> unpad out = Some p"
proof -
  assume a: "pad p = Some out"
  obtain z where out: "out = u32_to_le_bytes (of_nat (length p)) @ p @ replicate z 0"
    using pad_Some(3) [OF a] by blast
  have small: "length p < 2 ^ 32" using pad_Some(2) [OF a] by (simp add: MAX_PLAINTEXT_def)
  then have "of_le_bytes (u32_to_le_bytes (of_nat (length p))) = length p"
    by (simp add: u32_to_le_bytes_def of_le_bytes_le_bytes)
  then show ?thesis by (simp add: unpad_def out Let_def)
qed

lemma aead_open_seal:
  assumes "aead_correct C" and "length nonce = NONCE_LEN" and "aead_seal C nonce key aad p = Some s"
  shows "aead_open C key aad s = Some p"
proof -
  from assms(3) obtain padded ct where "pad p = Some padded" "Aead_encrypt C key nonce aad padded = Some ct" "s = nonce @ ct"
    by (auto simp: aead_seal_def split: option.splits)
  with assms(1,2) show ?thesis by (simp add: aead_open_def aead_correctD unpad_pad)
qed

lemma open_seal:
  assumes "aead_correct C" and "length nonce = NONCE_LEN" and "seal C nonce secret label k p = Some s"
  shows "open_sealed C secret label k s = Some p"
  using assms by (simp add: seal_def open_sealed_def aead_open_seal)

lemma open_from_seal_to:
  assumes "aead_correct C" "dh_commutes C" "public_len C" and "length nonce = NONCE_LEN"
    and "seal_to C eph nonce (X25519_pub C sk) k p = Some s"
  shows "open_from C sk k s = Some p"
proof -
  let ?key = "hkdf C SALT_ECIES (X25519 C eph (X25519_pub C sk) @ X25519_pub C eph @ X25519_pub C sk) (ascii ''intro'')"
  from assms(5) obtain ct where c: "was_contributory (X25519 C eph (X25519_pub C sk))"
    and ct: "aead_seal C nonce ?key k p = Some ct" and s: "s = X25519_pub C eph @ ct"
    by (auto simp: seal_to_def Let_def split: if_splits option.splits)
  have l: "length (X25519_pub C eph) = 32" using assms(3) by (simp add: public_len_def)
  have "X25519 C sk (X25519_pub C eph) = X25519 C eph (X25519_pub C sk)"
    using assms(2) by (rule dh_commutesD)
  with c aead_open_seal [OF assms(1,4) ct] l show ?thesis
    by (simp add: open_from_def s Let_def)
qed

lemma sealed_length:
  assumes "aead_overhead C" and "length nonce = NONCE_LEN" and "seal C nonce secret label k p = Some s"
  shows "length s = NONCE_LEN + max (next_power_of_two (length p + 4)) MIN_BUCKET + 16"
proof -
  from assms(3) obtain padded ct where "pad p = Some padded"
    "Aead_encrypt C (hkdf C SALT_SEAL secret label) nonce k padded = Some ct" "s = nonce @ ct"
    by (auto simp: seal_def aead_seal_def split: option.splits)
  with assms(1,2) pad_Some(1) [of p padded] show ?thesis by (simp add: aead_overheadD)
qed

lemma ascii_append_neq: "length a = length b \<Longrightarrow> a \<noteq> b \<Longrightarrow> a @ x \<noteq> b @ y" for a b :: bytes
  by simp

lemma next_power_of_two_le_iff: "next_power_of_two n \<le> 2 ^ k \<longleftrightarrow> n \<le> 2 ^ k"
proof -
  obtain i where i: "next_power_of_two n = 2 ^ i" "n \<le> 2 ^ i" "\<forall>j < i. 2 ^ j < n"
    by (rule next_power_of_two_spec)
  show ?thesis
  proof (cases "i \<le> k")
    case True
    then have "(2::nat) ^ i \<le> 2 ^ k" by (rule power_increasing) simp
    with i(2) have "n \<le> 2 ^ k" by (rule order_trans)
    with i(1) True show ?thesis by simp
  next
    case False
    with i have "2 ^ k < n" by simp
    moreover from this i(2) have "(2::nat) ^ k < 2 ^ i" by (rule less_le_trans)
    ultimately show ?thesis by (simp add: i(1))
  qed
qed

lemma next_power_of_two_gt: "2 ^ k < n \<Longrightarrow> 2 ^ Suc k \<le> next_power_of_two n"
proof -
  assume n: "2 ^ k < n"
  obtain i where i: "next_power_of_two n = 2 ^ i" "n \<le> 2 ^ i"
    by (rule next_power_of_two_spec)
  from n i(2) have "(2::nat) ^ k < 2 ^ i" by (rule less_le_trans)
  then have "Suc k \<le> i" by (simp add: Suc_leI)
  then show "2 ^ Suc k \<le> next_power_of_two n" unfolding i(1) by (rule power_increasing) simp
qed

section \<open>Properties\<close>

text \<open>
  Sealing round trips: a value sealed under a secret, a label and its DHT key is opened under
  the same three to the plaintext, and a value sealed to a public key is opened with the
  matching secret key.
\<close>

theorem seal_open_roundtrip:
  assumes "aead_correct C" and "dh_commutes C" and "public_len C" and "length nonce = NONCE_LEN"
  shows "(seal C nonce secret label k p = Some s \<longrightarrow> open_sealed C secret label k s = Some p) \<and>
         (seal_to C eph nonce (X25519_pub C sk) k p = Some t \<longrightarrow> open_from C sk k t = Some p)"
  using open_seal [OF assms(1,4)] open_from_seal_to [OF assms] by blast

text \<open>
  The two ends of a pair derive the same pair secret from their own secret keys and the
  other's public keys, or both refuse (a non-contributory exchange), so they also agree on the
  mail and address keys they store under and poll.
\<close>

theorem pair_secret_symmetric:
  assumes "dh_commutes C"
  shows "pair_secret C a (X25519_pub C b) sa sb = pair_secret C b (X25519_pub C a) sb sa"
proof -
  have "(if sa \<le> sb then (sa, sb) else (sb, sa)) = (if sb \<le> sa then (sb, sa) else (sa, sb))"
    by (auto dest: antisym)
  then show ?thesis
    unfolding pair_secret_def Let_def dh_commutesD [OF assms, of a b] by simp
qed

theorem pair_secret_symmetric_witness:
  "pair_secret toy_crypto [1] (X25519_pub toy_crypto [2]) [3] [4] =
     pair_secret toy_crypto [2] (X25519_pub toy_crypto [1]) [4] [3]"
  by (rule pair_secret_symmetric [OF toy_dh_commutes])

text \<open>
  What length a sealed value shows: it is the nonce, the tag and a bucket, and the bucket is
  a power of two of at least 256 that depends on nothing but the length of the plaintext and
  is at most twice the framed length (or the smallest bucket).
\<close>

theorem sealed_bucket:
  assumes "aead_overhead C" and "length nonce = NONCE_LEN" and "seal C nonce secret label k p = Some s"
  shows "\<exists>i \<ge> 8. length s = 40 + 2 ^ i \<and> length p + 4 \<le> 2 ^ i \<and> (i = 8 \<or> 2 ^ i < 2 * (length p + 4))"
proof -
  obtain i where i: "next_power_of_two (length p + 4) = 2 ^ i" "length p + 4 \<le> 2 ^ i"
    "\<forall>j < i. 2 ^ j < length p + 4" by (rule next_power_of_two_spec)
  have len: "length s = 40 + max (2 ^ i) 256"
    using sealed_length [OF assms] i(1) by (simp add: NONCE_LEN_def MIN_BUCKET_def)
  show ?thesis
  proof (cases "i \<le> 8")
    case True
    then have "(2::nat) ^ i \<le> 2 ^ 8" by (rule power_increasing) simp
    with len i(2) show ?thesis by (intro exI [of _ 8]) simp
  next
    case False
    then have "(2::nat) ^ 8 \<le> 2 ^ i" by (intro power_increasing) simp_all
    moreover from False i(3) have "2 ^ (i - 1) < length p + 4" by simp
    moreover from False have "(2::nat) ^ i = 2 * 2 ^ (i - 1)" by (cases i) simp_all
    ultimately show ?thesis using len False i(2) by (intro exI [of _ i]) simp
  qed
qed

text \<open>
  Not everything that can be sealed can be stored: a sealed value is within the
  \<open>MAX_VALUE_BYTES\<close> that every store admits exactly when the plaintext and its four length bytes
  fit 2 MiB, although \<open>seal\<close> accepts plaintexts of up to \<open>MAX_PLAINTEXT\<close>, almost 4 MiB.
\<close>

theorem sealed_fits_iff:
  assumes "aead_overhead C" and "length nonce = NONCE_LEN" and "seal C nonce secret label k p = Some s"
  shows "length s \<le> MAX_VALUE_BYTES \<longleftrightarrow> length p + 4 \<le> 2 ^ 21"
proof -
  have len: "length s = 40 + max (next_power_of_two (length p + 4)) 256"
    using sealed_length [OF assms] by (simp add: NONCE_LEN_def MIN_BUCKET_def)
  show ?thesis
  proof (cases "length p + 4 \<le> 2 ^ 21")
    case True
    then have "next_power_of_two (length p + 4) \<le> 2 ^ 21" by (simp only: next_power_of_two_le_iff)
    with len True show ?thesis by (simp add: MAX_VALUE_BYTES_def)
  next
    case False
    then have "2 ^ Suc 21 \<le> next_power_of_two (length p + 4)" by (intro next_power_of_two_gt) simp
    with len False show ?thesis by (simp add: MAX_VALUE_BYTES_def)
  qed
qed

section \<open>Witnesses\<close>

definition toy_nonce :: bytes where
  "toy_nonce = replicate 24 9"

lemma length_toy_nonce: "length toy_nonce = NONCE_LEN"
  by (simp add: toy_nonce_def NONCE_LEN_def)

lemma toy_seal:
  "length p \<le> MAX_PLAINTEXT \<Longrightarrow> \<exists>s. seal toy_crypto nonce secret label k p = Some s"
  by (simp add: seal_def aead_seal_def pad_def toy_crypto_def Let_def)

lemma toy_contributory: "was_contributory (X25519 toy_crypto [1] (X25519_pub toy_crypto [2]))"
  by (simp add: was_contributory_def toy_crypto_def fit_def)

lemma toy_seal_to:
  "length p \<le> MAX_PLAINTEXT \<Longrightarrow> \<exists>s. seal_to toy_crypto [1] nonce (X25519_pub toy_crypto [2]) k p = Some s"
  using toy_contributory by (simp add: seal_to_def aead_seal_def pad_def Let_def) (simp add: toy_crypto_def)

theorem seal_open_roundtrip_witness:
  "(\<exists>s. seal toy_crypto toy_nonce [5] [6] [7] [8] = Some s \<and> open_sealed toy_crypto [5] [6] [7] s = Some [8]) \<and>
   (\<exists>t. seal_to toy_crypto [1] toy_nonce (X25519_pub toy_crypto [2]) [7] [8] = Some t \<and>
        open_from toy_crypto [2] [7] t = Some [8])"
proof -
  note rt = seal_open_roundtrip [OF toy_aead_correct toy_dh_commutes toy_public_len length_toy_nonce]
  obtain s where s: "seal toy_crypto toy_nonce [5] [6] [7] [8] = Some s"
    using toy_seal [of "[8]" toy_nonce "[5]" "[6]" "[7]"] by (auto simp: MAX_PLAINTEXT_def)
  obtain t where t: "seal_to toy_crypto [1] toy_nonce (X25519_pub toy_crypto [2]) [7] [8] = Some t"
    using toy_seal_to [of "[8]" toy_nonce "[7]"] by (auto simp: MAX_PLAINTEXT_def)
  from rt s t show ?thesis by blast
qed

theorem sealed_bucket_witness:
  "\<exists>s. seal toy_crypto toy_nonce [5] [6] [7] [8] = Some s \<and>
     (\<exists>i \<ge> 8. length s = 40 + 2 ^ i \<and> length [8::u8] + 4 \<le> 2 ^ i \<and> (i = 8 \<or> 2 ^ i < 2 * (length [8::u8] + 4)))"
proof -
  obtain s where s: "seal toy_crypto toy_nonce [5] [6] [7] [8] = Some s"
    using toy_seal [of "[8]" toy_nonce "[5]" "[6]" "[7]"] by (auto simp: MAX_PLAINTEXT_def)
  from sealed_bucket [OF toy_aead_overhead length_toy_nonce s] s show ?thesis by blast
qed

theorem sealed_fits_iff_witness:
  "\<exists>p s. seal toy_crypto toy_nonce [5] [6] [7] p = Some s \<and> \<not> length s \<le> MAX_VALUE_BYTES"
proof -
  define p :: bytes where "p = replicate (2 ^ 21) 0"
  have "length p \<le> MAX_PLAINTEXT" by (simp add: p_def MAX_PLAINTEXT_def)
  then obtain s where s: "seal toy_crypto toy_nonce [5] [6] [7] p = Some s"
    using toy_seal by blast
  from sealed_fits_iff [OF toy_aead_overhead length_toy_nonce s] s show ?thesis by (auto simp: p_def)
qed

end
