(* ===== verification/Utf8.thy ===== *)
theory Utf8
  imports Prelude
begin

text \<open>
  The parts of Rust's \<open>str\<close> the program uses, on the UTF-8 bytes of the string: validity
  (\<open>String::from_utf8\<close>, \<open>str::from_utf8\<close>), the number of characters (\<open>chars().count()\<close>), \<open>trim\<close>
  (Unicode white space at both ends), and the ASCII character classes.
\<close>

definition is_cont :: "u8 \<Rightarrow> bool" where
  "is_cont b \<longleftrightarrow> 0x80 \<le> b \<and> b \<le> 0xBF"

fun utf8_valid :: "bytes \<Rightarrow> bool" where
  "utf8_valid [] = True"
| "utf8_valid (a # xs) =
     (if a < 0x80 then utf8_valid xs
      else case xs of
        [] \<Rightarrow> False
      | b # ys \<Rightarrow>
          if 0xC2 \<le> a \<and> a \<le> 0xDF then is_cont b \<and> utf8_valid ys
          else case ys of
            [] \<Rightarrow> False
          | c # zs \<Rightarrow>
              if 0xE0 \<le> a \<and> a \<le> 0xEF then
                is_cont b \<and> is_cont c \<and> (a = 0xE0 \<longrightarrow> 0xA0 \<le> b) \<and> (a = 0xED \<longrightarrow> b \<le> 0x9F) \<and> utf8_valid zs
              else case zs of
                [] \<Rightarrow> False
              | d # ws \<Rightarrow>
                  0xF0 \<le> a \<and> a \<le> 0xF4 \<and> is_cont b \<and> is_cont c \<and> is_cont d \<and>
                  (a = 0xF0 \<longrightarrow> 0x90 \<le> b) \<and> (a = 0xF4 \<longrightarrow> b \<le> 0x8F) \<and> utf8_valid ws)"

definition char_count :: "bytes \<Rightarrow> nat" where
  "char_count s = length (filter (\<lambda>b. \<not> is_cont b) s)"

definition is_ascii_alphanumeric :: "u8 \<Rightarrow> bool" where
  "is_ascii_alphanumeric b \<longleftrightarrow>
     (0x30 \<le> b \<and> b \<le> 0x39) \<or> (0x41 \<le> b \<and> b \<le> 0x5A) \<or> (0x61 \<le> b \<and> b \<le> 0x7A)"

text \<open>
  \<open>char::is_whitespace\<close>: U+0009 to U+000D, U+0020, U+0085, U+00A0, U+1680, U+2000 to U+200A,
  U+2028, U+2029, U+202F, U+205F, U+3000, as their one, two and three bytes.
\<close>

definition ws1 :: "u8 \<Rightarrow> bool" where
  "ws1 a \<longleftrightarrow> (9 \<le> a \<and> a \<le> 13) \<or> a = 0x20"

definition ws2 :: "u8 \<Rightarrow> u8 \<Rightarrow> bool" where
  "ws2 a b \<longleftrightarrow> a = 0xC2 \<and> (b = 0x85 \<or> b = 0xA0)"

definition ws3 :: "u8 \<Rightarrow> u8 \<Rightarrow> u8 \<Rightarrow> bool" where
  "ws3 a b c \<longleftrightarrow>
     (a = 0xE1 \<and> b = 0x9A \<and> c = 0x80) \<or>
     (a = 0xE2 \<and> b = 0x80 \<and> ((0x80 \<le> c \<and> c \<le> 0x8A) \<or> c = 0xA8 \<or> c = 0xA9 \<or> c = 0xAF)) \<or>
     (a = 0xE2 \<and> b = 0x81 \<and> c = 0x9F) \<or>
     (a = 0xE3 \<and> b = 0x80 \<and> c = 0x80)"

function trim_start :: "bytes \<Rightarrow> bytes" where
  "trim_start s =
     (case s of
        a # xs \<Rightarrow>
          if ws1 a then trim_start xs
          else (case xs of
            b # ys \<Rightarrow>
              if ws2 a b then trim_start ys
              else (case ys of c # zs \<Rightarrow> if ws3 a b c then trim_start zs else s | [] \<Rightarrow> s)
          | [] \<Rightarrow> s)
      | [] \<Rightarrow> [])"
  by pat_completeness auto
termination
  by (relation "measure length") auto

text \<open>From the other end the bytes of a character come in reverse.\<close>

function trim_rev :: "bytes \<Rightarrow> bytes" where
  "trim_rev s =
     (case s of
        a # xs \<Rightarrow>
          if ws1 a then trim_rev xs
          else (case xs of
            b # ys \<Rightarrow>
              if ws2 b a then trim_rev ys
              else (case ys of c # zs \<Rightarrow> if ws3 c b a then trim_rev zs else s | [] \<Rightarrow> s)
          | [] \<Rightarrow> s)
      | [] \<Rightarrow> [])"
  by pat_completeness auto
termination
  by (relation "measure length") auto

declare trim_start.simps [simp del] trim_rev.simps [simp del]

definition trim_end :: "bytes \<Rightarrow> bytes" where
  "trim_end s = rev (trim_rev (rev s))"

definition trim :: "bytes \<Rightarrow> bytes" where
  "trim s = trim_end (trim_start s)"

lemma trim_start_id:
  assumes "0x20 < a" and "a < 0x80"
  shows "trim_start (a # xs) = a # xs"
proof -
  have "\<not> ws1 a" "a \<noteq> 0xC2" "a \<noteq> 0xE1" "a \<noteq> 0xE2" "a \<noteq> 0xE3"
    using assms by (auto simp: ws1_def word_le_nat_alt word_less_nat_alt)
  then show ?thesis
    by (simp add: trim_start.simps [of "a # xs"] ws2_def ws3_def split: list.split)
qed

lemma trim_rev_id:
  assumes "0x20 < a" and "a < 0x80"
  shows "trim_rev (a # xs) = a # xs"
proof -
  have "\<not> ws1 a" "a \<noteq> 0x85" "a \<noteq> 0xA0" "a \<noteq> 0x80" "\<not> 0x80 \<le> a" "a \<noteq> 0xA8" "a \<noteq> 0xA9" "a \<noteq> 0xAF" "a \<noteq> 0x9F"
    using assms by (auto simp: ws1_def word_le_nat_alt word_less_nat_alt)
  then show ?thesis
    by (simp add: trim_rev.simps [of "a # xs"] ws2_def ws3_def split: list.split)
qed

lemma utf8_trim_id:
  assumes "s \<noteq> []" "0x20 < hd s" "hd s < 0x80" "0x20 < last s" "last s < 0x80"
  shows "trim s = s"
proof -
  obtain a xs where s: "s = a # xs" using assms(1) by (cases s) auto
  obtain b ys where r: "rev s = b # ys" using assms(1) by (cases "rev s") auto
  then have "b = last s" using hd_rev [of s] by simp
  then have "trim_rev (rev s) = rev s" unfolding r using assms by (simp add: trim_rev_id)
  moreover have "trim_start s = s" using assms s by (simp add: trim_start_id)
  ultimately show ?thesis by (simp add: trim_def trim_end_def)
qed

lemma is_ascii_alphanumeric_not_cont: "is_ascii_alphanumeric b \<Longrightarrow> \<not> is_cont b"
  by (auto simp: is_ascii_alphanumeric_def is_cont_def word_le_nat_alt)

lemma utf8_valid_ascii: "\<forall>b \<in> set s. b < 0x80 \<Longrightarrow> utf8_valid s"
  by (induction s) auto

end
