(* ===== verification/Dht_Items.thy ===== *)
theory Dht_Items
  imports Dht_Crypto Utf8
begin

text \<open>
  \<open>dht/src/items.rs\<close>: what is put into the relay network. Mail and first letters, the signed
  address and bundle records, and the alias claims with the rule that decides whose alias it is.

  The structures that travel are encoded by \<open>bincode\<close>, which is not part of the repository: its
  serialize and deserialize functions at these types are the record \<open>codec\<close>, and what is relied
  on is that reading back what was written returns it. Signing keys are their seeds; tokens,
  nonces and ephemeral secrets, drawn from the RNG, are arguments.
\<close>

definition ADDRESS_TTL_MS :: u64 where
  "ADDRESS_TTL_MS = 2 * 3600 * 1000"

definition BUNDLE_TTL_MS :: u64 where
  "BUNDLE_TTL_MS = 7 * DAY_MS"

definition MAX_PUBLISHED_RELAYS :: nat where
  "MAX_PUBLISHED_RELAYS = 3"

record PreparedItem =
  p_key :: DhtKey
  p_value :: bytes
  p_delete_hash :: "bytes option"
  p_expires_at_ms :: u64

record OpenedMail =
  om_envelope :: bytes
  om_delete_token :: bytes

record MailPlain =
  mp_delete_token :: bytes
  mp_envelope :: bytes

record AliasBody =
  ab_alias :: bytes
  ab_payload :: "bytes option"

record SignedRecord =
  sr_kind :: u8
  sr_owner :: bytes
  sr_seq :: u64
  sr_expires_at_ms :: u64
  sr_body :: bytes
  sr_sig :: bytes

record codec =
  ser_mail :: "MailPlain \<Rightarrow> bytes"
  de_mail :: "bytes \<Rightarrow> MailPlain option"
  ser_alias :: "AliasBody \<Rightarrow> bytes"
  de_alias :: "bytes \<Rightarrow> AliasBody option"
  ser_signed :: "SignedRecord \<Rightarrow> bytes"
  de_signed :: "bytes \<Rightarrow> SignedRecord option"

definition codec_correct :: "codec \<Rightarrow> bool" where
  "codec_correct B \<longleftrightarrow>
     (\<forall>m. de_mail B (ser_mail B m) = Some m) \<and>
     (\<forall>a. de_alias B (ser_alias B a) = Some a) \<and>
     (\<forall>r. de_signed B (ser_signed B r) = Some r)"

section \<open>Mail and first letters\<close>

definition mail_plain :: "codec \<Rightarrow> bytes \<Rightarrow> bytes \<Rightarrow> bytes" where
  "mail_plain B token envelope = ser_mail B \<lparr>mp_delete_token = token, mp_envelope = envelope\<rparr>"

definition open_plain :: "codec \<Rightarrow> bytes \<Rightarrow> OpenedMail option" where
  "open_plain B plain =
     map_option (\<lambda>m. \<lparr>om_envelope = mp_envelope m, om_delete_token = mp_delete_token m\<rparr>) (de_mail B plain)"

definition mail :: "crypto \<Rightarrow> codec \<Rightarrow> bytes \<Rightarrow> bytes \<Rightarrow> bytes \<Rightarrow> bytes \<Rightarrow> u64 \<Rightarrow> bytes \<Rightarrow> PreparedItem option" where
  "mail C B token nonce pair to_sign_pk now_ms envelope =
     (let key = mail_key C pair to_sign_pk (day_of now_ms) in
      map_option (\<lambda>v. \<lparr>p_key = key, p_value = v, p_delete_hash = Some (delete_hash C token),
                        p_expires_at_ms = now_ms + MAIL_TTL_MS\<rparr>)
        (seal C nonce pair (ascii ''mail'') key (mail_plain B token envelope)))"

definition open_mail :: "crypto \<Rightarrow> codec \<Rightarrow> bytes \<Rightarrow> DhtKey \<Rightarrow> bytes \<Rightarrow> OpenedMail option" where
  "open_mail C B pair key val = Option.bind (open_sealed C pair (ascii ''mail'') key val) (open_plain B)"

definition intro_letter ::
  "crypto \<Rightarrow> codec \<Rightarrow> bytes \<Rightarrow> bytes \<Rightarrow> bytes \<Rightarrow> bytes \<Rightarrow> bytes \<Rightarrow> u64 \<Rightarrow> bytes \<Rightarrow> PreparedItem option" where
  "intro_letter C B token eph nonce recipient_sign_pk recipient_dh_pk now_ms envelope =
     (let key = intro_key C (card_secret C recipient_sign_pk recipient_dh_pk) (day_of now_ms) in
      map_option (\<lambda>v. \<lparr>p_key = key, p_value = v, p_delete_hash = Some (delete_hash C token),
                        p_expires_at_ms = now_ms + MAIL_TTL_MS\<rparr>)
        (seal_to C eph nonce recipient_dh_pk key (mail_plain B token envelope)))"

definition open_intro :: "crypto \<Rightarrow> codec \<Rightarrow> bytes \<Rightarrow> DhtKey \<Rightarrow> bytes \<Rightarrow> OpenedMail option" where
  "open_intro C B my_dh_sk key val = Option.bind (open_from C my_dh_sk key val) (open_plain B)"

text \<open>\<open>(0..days).filter_map(|d| today.checked_sub(d))\<close>: the days back from today that exist.\<close>

definition days_back :: "u32 \<Rightarrow> u32 \<Rightarrow> u32 list" where
  "days_back today days =
     List.map_filter (\<lambda>d. if d \<le> unat today then Some (today - of_nat d) else None) [0..<unat days]"

definition mail_keys_to_poll :: "crypto \<Rightarrow> bytes \<Rightarrow> bytes \<Rightarrow> u64 \<Rightarrow> u32 \<Rightarrow> DhtKey list" where
  "mail_keys_to_poll C pair my_sign_pk now_ms days =
     map (mail_key C pair my_sign_pk) (days_back (day_of now_ms) days)"

definition intro_keys_to_poll :: "crypto \<Rightarrow> bytes \<Rightarrow> bytes \<Rightarrow> u64 \<Rightarrow> u32 \<Rightarrow> DhtKey list" where
  "intro_keys_to_poll C my_sign_pk my_dh_pk now_ms days =
     (let crd = card_secret C my_sign_pk my_dh_pk in
      map (intro_key C crd) (days_back (day_of now_ms) days))"

section \<open>Signed records\<close>

definition KIND_ADDRESS :: u8 where "KIND_ADDRESS = 1"
definition KIND_BUNDLE :: u8 where "KIND_BUNDLE = 2"
definition KIND_ALIAS_CLAIM :: u8 where "KIND_ALIAS_CLAIM = 3"
definition KIND_ALIAS_TOMBSTONE :: u8 where "KIND_ALIAS_TOMBSTONE = 4"

definition record_digest :: "crypto \<Rightarrow> u8 \<Rightarrow> bytes \<Rightarrow> u64 \<Rightarrow> u64 \<Rightarrow> bytes \<Rightarrow> DhtKey \<Rightarrow> bytes" where
  "record_digest C kind owner sq expires_at_ms body key =
     sha256 C [ascii ''gipny-dht-record-v1'', [kind], owner, u64_to_le_bytes sq,
               u64_to_le_bytes expires_at_ms, sha256 C [body], key]"

definition build_record ::
  "crypto \<Rightarrow> codec \<Rightarrow> bytes \<Rightarrow> bytes \<Rightarrow> bytes \<Rightarrow> bytes \<Rightarrow> DhtKey \<Rightarrow> u8 \<Rightarrow> u64 \<Rightarrow> u64 \<Rightarrow> bytes \<Rightarrow> PreparedItem option" where
  "build_record C B nonce signing secret label key kind now_ms ttl_ms body =
     (let owner = Ed_public C signing;
          expires_at_ms = now_ms + ttl_ms;
          sig = Ed_sign C signing (record_digest C kind owner now_ms expires_at_ms body key);
          plain = ser_signed B \<lparr>sr_kind = kind, sr_owner = owner, sr_seq = now_ms,
                                sr_expires_at_ms = expires_at_ms, sr_body = body, sr_sig = sig\<rparr>
      in map_option (\<lambda>v. \<lparr>p_key = key, p_value = v, p_delete_hash = None, p_expires_at_ms = expires_at_ms\<rparr>)
           (seal C nonce secret label key plain))"

text \<open>The checks of \<open>valid_records\<close> on one value; \<open>valid_records\<close> keeps what passes, newest first.\<close>

definition record_valid :: "crypto \<Rightarrow> DhtKey \<Rightarrow> u8 \<Rightarrow> bytes \<Rightarrow> u64 \<Rightarrow> SignedRecord \<Rightarrow> bool" where
  "record_valid C key kind owner now_ms r \<longleftrightarrow>
     sr_kind r = kind \<and> sr_owner r = owner \<and> sr_expires_at_ms r > now_ms \<and>
     Ed_verify C owner
       (record_digest C (sr_kind r) (sr_owner r) (sr_seq r) (sr_expires_at_ms r) (sr_body r) key) (sr_sig r)"

definition valid_records ::
  "crypto \<Rightarrow> codec \<Rightarrow> bytes \<Rightarrow> bytes \<Rightarrow> DhtKey \<Rightarrow> u8 \<Rightarrow> bytes \<Rightarrow> bytes list \<Rightarrow> u64 \<Rightarrow> (u64 \<times> bytes) list" where
  "valid_records C B secret label key kind owner values now_ms =
     (if \<not> Ed_key_ok C owner then []
      else sort_key (\<lambda>r. - uint (fst r))
             (map (\<lambda>r. (sr_seq r, sr_body r))
                (filter (record_valid C key kind owner now_ms)
                   (List.map_filter (de_signed B)
                      (List.map_filter (open_sealed C secret label key) values)))))"

definition first_opt :: "'a list \<Rightarrow> 'a option" where
  "first_opt xs = (case xs of [] \<Rightarrow> None | x # _ \<Rightarrow> Some x)"

definition best_record ::
  "crypto \<Rightarrow> codec \<Rightarrow> bytes \<Rightarrow> bytes \<Rightarrow> DhtKey \<Rightarrow> u8 \<Rightarrow> bytes \<Rightarrow> bytes list \<Rightarrow> u64 \<Rightarrow> (u64 \<times> bytes) option" where
  "best_record C B secret label key kind owner values now_ms =
     first_opt (valid_records C B secret label key kind owner values now_ms)"

definition address_record :: "crypto \<Rightarrow> codec \<Rightarrow> bytes \<Rightarrow> bytes \<Rightarrow> bytes \<Rightarrow> u64 \<Rightarrow> bytes \<Rightarrow> PreparedItem option" where
  "address_record C B nonce signing pair now_ms relay =
     (let owner = Ed_public C signing; key = addr_key C pair owner in
      build_record C B nonce signing pair (ascii ''addr'') key KIND_ADDRESS now_ms ADDRESS_TTL_MS relay)"

text \<open>The stateful filter of \<open>open_address_records\<close>: non-blank addresses not seen before.\<close>

fun fresh_addresses :: "bytes list \<Rightarrow> (bytes \<times> u64) list \<Rightarrow> (bytes \<times> u64) list" where
  "fresh_addresses seen [] = []"
| "fresh_addresses seen ((addr, sq) # rest) =
     (if trim addr \<noteq> [] \<and> addr \<notin> set seen
      then (addr, sq) # fresh_addresses (addr # seen) rest
      else fresh_addresses seen rest)"

definition open_address_records ::
  "crypto \<Rightarrow> codec \<Rightarrow> bytes \<Rightarrow> bytes \<Rightarrow> bytes list \<Rightarrow> u64 \<Rightarrow> (bytes \<times> u64) list" where
  "open_address_records C B pair owner_sign_pk values now_ms =
     (let key = addr_key C pair owner_sign_pk in
      take MAX_PUBLISHED_RELAYS
        (fresh_addresses []
           (List.map_filter (\<lambda>(sq, body). if utf8_valid body then Some (body, sq) else None)
              (valid_records C B pair (ascii ''addr'') key KIND_ADDRESS owner_sign_pk values now_ms))))"

definition open_address_record ::
  "crypto \<Rightarrow> codec \<Rightarrow> bytes \<Rightarrow> bytes \<Rightarrow> bytes list \<Rightarrow> u64 \<Rightarrow> (bytes \<times> u64) option" where
  "open_address_record C B pair owner_sign_pk values now_ms =
     first_opt (open_address_records C B pair owner_sign_pk values now_ms)"

definition address_key :: "crypto \<Rightarrow> bytes \<Rightarrow> bytes \<Rightarrow> DhtKey" where
  "address_key C pair owner_sign_pk = addr_key C pair owner_sign_pk"

definition bundle_record :: "crypto \<Rightarrow> codec \<Rightarrow> bytes \<Rightarrow> bytes \<Rightarrow> bytes \<Rightarrow> u64 \<Rightarrow> bytes \<Rightarrow> PreparedItem option" where
  "bundle_record C B nonce signing my_dh_pk now_ms bundle =
     (let owner = Ed_public C signing;
          crd = card_secret C owner my_dh_pk;
          key = bundle_key C crd
      in build_record C B nonce signing crd (ascii ''bundle'') key KIND_BUNDLE now_ms BUNDLE_TTL_MS bundle)"

definition owner_bundle_key :: "crypto \<Rightarrow> bytes \<Rightarrow> bytes \<Rightarrow> DhtKey" where
  "owner_bundle_key C owner_sign_pk owner_dh_pk = bundle_key C (card_secret C owner_sign_pk owner_dh_pk)"

definition open_bundle_record ::
  "crypto \<Rightarrow> codec \<Rightarrow> bytes \<Rightarrow> bytes \<Rightarrow> bytes list \<Rightarrow> u64 \<Rightarrow> bytes option" where
  "open_bundle_record C B owner_sign_pk owner_dh_pk values now_ms =
     (let crd = card_secret C owner_sign_pk owner_dh_pk;
          key = bundle_key C crd
      in map_option snd (best_record C B crd (ascii ''bundle'') key KIND_BUNDLE owner_sign_pk values now_ms))"

section \<open>Aliases\<close>

definition ALIAS_LABEL :: bytes where
  "ALIAS_LABEL = ascii ''alias''"
definition ALIAS_CLAIM_TTL_MS :: u64 where
  "ALIAS_CLAIM_TTL_MS = 366 * DAY_MS"
definition ALIAS_TOMBSTONE_TTL_MS :: u64 where
  "ALIAS_TOMBSTONE_TTL_MS = 10 * 366 * DAY_MS"
definition ALIAS_MIN_LEN :: nat where
  "ALIAS_MIN_LEN = 3"
definition ALIAS_MAX_LEN :: nat where
  "ALIAS_MAX_LEN = 32"

definition valid_alias :: "bytes \<Rightarrow> bool" where
  "valid_alias alias \<longleftrightarrow>
     (let len = char_count alias in
      len \<ge> ALIAS_MIN_LEN \<and> len \<le> ALIAS_MAX_LEN \<and>
      list_all (\<lambda>c. is_ascii_alphanumeric c \<or> c = 0x5F) alias)"

record AliasRecord =
  ar_owner :: bytes
  ar_created_at_ms :: u64
  ar_expires_at_ms :: u64
  ar_payload :: "bytes option"

datatype AliasState = Available | Claimed AliasRecord | Revoked AliasRecord

definition build_alias_record ::
  "crypto \<Rightarrow> codec \<Rightarrow> bytes \<Rightarrow> bytes \<Rightarrow> bytes \<Rightarrow> u64 \<Rightarrow> u64 \<Rightarrow> u64 \<Rightarrow> bytes option \<Rightarrow> bool \<Rightarrow> PreparedItem option" where
  "build_alias_record C B nonce signing alias now_ms ttl_ms created_at_ms payload tombstone =
     (if \<not> valid_alias alias \<or> created_at_ms > now_ms then None
      else let key = alias_key C alias;
               body = ser_alias B \<lparr>ab_alias = alias, ab_payload = payload\<rparr>;
               kind = (if tombstone then KIND_ALIAS_TOMBSTONE else KIND_ALIAS_CLAIM);
               owner = Ed_public C signing;
               expires_at_ms = now_ms + ttl_ms;
               sig = Ed_sign C signing (record_digest C kind owner created_at_ms expires_at_ms body key);
               plain = ser_signed B \<lparr>sr_kind = kind, sr_owner = owner, sr_seq = created_at_ms,
                                     sr_expires_at_ms = expires_at_ms, sr_body = body, sr_sig = sig\<rparr>;
               secret = alias_seal_secret C key
           in map_option (\<lambda>v. \<lparr>p_key = key, p_value = v, p_delete_hash = None, p_expires_at_ms = expires_at_ms\<rparr>)
                (seal C nonce secret ALIAS_LABEL key plain))"

definition alias_claim_record :: "crypto \<Rightarrow> codec \<Rightarrow> bytes \<Rightarrow> bytes \<Rightarrow> bytes \<Rightarrow> u64 \<Rightarrow> bytes option \<Rightarrow> PreparedItem option" where
  "alias_claim_record C B nonce signing alias now_ms payload =
     build_alias_record C B nonce signing alias now_ms ALIAS_CLAIM_TTL_MS now_ms payload False"

definition alias_claim_renewal ::
  "crypto \<Rightarrow> codec \<Rightarrow> bytes \<Rightarrow> bytes \<Rightarrow> bytes \<Rightarrow> u64 \<Rightarrow> u64 \<Rightarrow> bytes option \<Rightarrow> PreparedItem option" where
  "alias_claim_renewal C B nonce signing alias now_ms created_at_ms payload =
     build_alias_record C B nonce signing alias now_ms ALIAS_CLAIM_TTL_MS created_at_ms payload False"

definition alias_tombstone_record :: "crypto \<Rightarrow> codec \<Rightarrow> bytes \<Rightarrow> bytes \<Rightarrow> bytes \<Rightarrow> u64 \<Rightarrow> PreparedItem option" where
  "alias_tombstone_record C B nonce signing alias now_ms =
     build_alias_record C B nonce signing alias now_ms ALIAS_TOMBSTONE_TTL_MS now_ms None True"

text \<open>
  One turn of the loop of \<open>open_alias_records\<close>: \<open>None\<close> is \<open>continue\<close>, \<open>Inl\<close> a claim and \<open>Inr\<close> a
  tombstone, in the order of the checks of the source.
\<close>

definition open_alias_value ::
  "crypto \<Rightarrow> codec \<Rightarrow> bytes \<Rightarrow> DhtKey \<Rightarrow> u64 \<Rightarrow> bytes \<Rightarrow> (AliasRecord + AliasRecord) option" where
  "open_alias_value C B alias key now_ms v =
     (case open_sealed C (alias_seal_secret C key) ALIAS_LABEL key v of None \<Rightarrow> None | Some plain \<Rightarrow>
      case de_signed B plain of None \<Rightarrow> None | Some sg \<Rightarrow>
      if (sr_kind sg \<noteq> KIND_ALIAS_CLAIM \<and> sr_kind sg \<noteq> KIND_ALIAS_TOMBSTONE)
         \<or> sr_seq sg > now_ms \<or> sr_expires_at_ms sg \<le> now_ms then None
      else case de_alias B (sr_body sg) of None \<Rightarrow> None | Some body \<Rightarrow>
      if ab_alias body \<noteq> alias then None
      else let digest = record_digest C (sr_kind sg) (sr_owner sg) (sr_seq sg)
                          (sr_expires_at_ms sg) (sr_body sg) key in
      if \<not> Ed_key_ok C (sr_owner sg) then None
      else if \<not> Ed_verify C (sr_owner sg) digest (sr_sig sg) then None
      else let rec = \<lparr>ar_owner = sr_owner sg, ar_created_at_ms = sr_seq sg,
                      ar_expires_at_ms = sr_expires_at_ms sg,
                      ar_payload = (if sr_kind sg = KIND_ALIAS_TOMBSTONE then None else ab_payload body)\<rparr>
           in if sr_kind sg = KIND_ALIAS_CLAIM then Some (Inl rec) else Some (Inr rec))"

fun open_alias_records ::
  "crypto \<Rightarrow> codec \<Rightarrow> bytes \<Rightarrow> DhtKey \<Rightarrow> bytes list \<Rightarrow> u64 \<Rightarrow> AliasRecord list \<times> AliasRecord list" where
  "open_alias_records C B alias key [] now_ms = ([], [])"
| "open_alias_records C B alias key (v # vs) now_ms =
     (let (claims, revocations) = open_alias_records C B alias key vs now_ms in
      case open_alias_value C B alias key now_ms v of
        None \<Rightarrow> (claims, revocations)
      | Some (Inl rec) \<Rightarrow> (rec # claims, revocations)
      | Some (Inr rec) \<Rightarrow> (claims, rec # revocations))"

definition age_key :: "AliasRecord \<Rightarrow> u64 \<times> u64 \<times> bytes option" where
  "age_key r = (ar_created_at_ms r, ar_expires_at_ms r, ar_payload r)"

text \<open>The loop of \<open>founding_of_owner\<close> over its hash map; the result is in iteration order.\<close>

definition found_step :: "(bytes \<times> AliasRecord) list \<Rightarrow> AliasRecord \<Rightarrow> (bytes \<times> AliasRecord) list" where
  "found_step per_owner c =
     (let m = (if ar_owner c \<in> set (keys per_owner) then per_owner else hm_insert (ar_owner c) c per_owner)
      in case hm_get m (ar_owner c) of
           None \<Rightarrow> m
         | Some e \<Rightarrow> if age_key c < age_key e then hm_insert (ar_owner c) c m else m)"

definition founding_of_owner :: "AliasRecord list \<Rightarrow> AliasRecord list" where
  "founding_of_owner claims = map snd (foldl found_step [] claims)"

definition line_key :: "AliasRecord \<Rightarrow> u64 \<times> bytes" where
  "line_key r = (ar_created_at_ms r, ar_owner r)"

definition decide_alias :: "AliasRecord list \<Rightarrow> AliasRecord list \<Rightarrow> AliasState" where
  "decide_alias claims revocations =
     (case min_by_key line_key (founding_of_owner claims) of
        Some claim \<Rightarrow>
          (case find (\<lambda>t. ar_owner t = ar_owner claim) revocations of
             Some tombstone \<Rightarrow> Revoked tombstone
           | None \<Rightarrow> Claimed claim)
      | None \<Rightarrow>
          (case min_by_key line_key revocations of
             Some tombstone \<Rightarrow> Revoked tombstone
           | None \<Rightarrow> Available))"

definition alias_state :: "crypto \<Rightarrow> codec \<Rightarrow> bytes \<Rightarrow> bytes list \<Rightarrow> u64 \<Rightarrow> AliasState" where
  "alias_state C B alias values now_ms =
     (if \<not> valid_alias alias then Available
      else let key = alias_key C alias;
               (claims, revocations) = open_alias_records C B alias key values now_ms
           in decide_alias claims revocations)"

section \<open>Lemmas on aliases\<close>

lemma set_open_alias_records:
  "set (fst (open_alias_records C B alias key vs now)) =
     {r. \<exists>v \<in> set vs. open_alias_value C B alias key now v = Some (Inl r)}"
  "set (snd (open_alias_records C B alias key vs now)) =
     {r. \<exists>v \<in> set vs. open_alias_value C B alias key now v = Some (Inr r)}"
  by (induction vs) (auto split: prod.splits option.splits sum.splits)

lemma open_alias_value_sound:
  assumes "open_alias_value C B alias key now v = Some x" and "x = Inl r \<or> x = Inr r"
  shows "ar_created_at_ms r \<le> now" and "now < ar_expires_at_ms r" and "Ed_key_ok C (ar_owner r)"
    and "\<exists>kind body sig. (kind = KIND_ALIAS_CLAIM \<longleftrightarrow> x = Inl r) \<and>
           map_option ab_alias (de_alias B body) = Some alias \<and>
           Ed_verify C (ar_owner r)
             (record_digest C kind (ar_owner r) (ar_created_at_ms r) (ar_expires_at_ms r) body key) sig"
proof -
  from assms(1) obtain plain sg body where
    sg: "de_signed B plain = Some sg" "de_alias B (sr_body sg) = Some body" "ab_alias body = alias"
      "\<not> sr_seq sg > now" "\<not> sr_expires_at_ms sg \<le> now" "Ed_key_ok C (sr_owner sg)"
      "Ed_verify C (sr_owner sg) (record_digest C (sr_kind sg) (sr_owner sg) (sr_seq sg)
         (sr_expires_at_ms sg) (sr_body sg) key) (sr_sig sg)"
    and x: "x = (let rec = \<lparr>ar_owner = sr_owner sg, ar_created_at_ms = sr_seq sg,
                      ar_expires_at_ms = sr_expires_at_ms sg,
                      ar_payload = (if sr_kind sg = KIND_ALIAS_TOMBSTONE then None else ab_payload body)\<rparr>
           in if sr_kind sg = KIND_ALIAS_CLAIM then Inl rec else Inr rec)"
    by (auto simp: open_alias_value_def Let_def split: option.splits if_splits)
  from x assms(2) have r: "ar_owner r = sr_owner sg" "ar_created_at_ms r = sr_seq sg"
    "ar_expires_at_ms r = sr_expires_at_ms sg" "sr_kind sg = KIND_ALIAS_CLAIM \<longleftrightarrow> x = Inl r"
    by (auto simp: Let_def split: if_splits)
  then show "ar_created_at_ms r \<le> now" "now < ar_expires_at_ms r" "Ed_key_ok C (ar_owner r)"
    using sg by (simp_all add: not_less not_le)
  show "\<exists>kind body sig. (kind = KIND_ALIAS_CLAIM \<longleftrightarrow> x = Inl r) \<and>
           map_option ab_alias (de_alias B body) = Some alias \<and>
           Ed_verify C (ar_owner r)
             (record_digest C kind (ar_owner r) (ar_created_at_ms r) (ar_expires_at_ms r) body key) sig"
    using sg r by (intro exI [of _ "sr_kind sg"] exI [of _ "sr_body sg"] exI [of _ "sr_sig sg"]) simp
qed

text \<open>What the hash map of \<open>founding_of_owner\<close> holds after some claims.\<close>

definition found_inv :: "AliasRecord set \<Rightarrow> (bytes \<times> AliasRecord) list \<Rightarrow> bool" where
  "found_inv cs m \<longleftrightarrow>
     distinct (keys m) \<and> set (keys m) = ar_owner ` cs \<and>
     (\<forall>ow r. hm_get m ow = Some r \<longrightarrow> r \<in> cs \<and> ar_owner r = ow \<and>
        (\<forall>c \<in> cs. ar_owner c = ow \<longrightarrow> age_key r \<le> age_key c))"

lemma found_step_inv:
  assumes "found_inv cs m"
  shows "found_inv (insert c cs) (found_step m c)"
proof (cases "ar_owner c \<in> set (keys m)")
  case False
  then have step: "found_step m c = hm_insert (ar_owner c) c m"
    by (simp add: found_step_def)
  have "ar_owner c \<notin> ar_owner ` cs" using False assms by (simp add: found_inv_def)
  then have new: "ar_owner d \<noteq> ar_owner c" if "d \<in> cs" for d
    using that by (metis imageI)
  with assms show ?thesis
    by (auto simp: found_inv_def step dom_update)
next
  case True
  then obtain e where e: "hm_get m (ar_owner c) = Some e"
    by (metis map_of_eq_None_iff option.exhaust list.set_map)
  have step: "found_step m c = (if age_key c < age_key e then hm_insert (ar_owner c) c m else m)"
    using True e by (simp add: found_step_def)
  have key: "ar_owner c \<in> ar_owner ` cs" using True assms by (simp add: found_inv_def)
  have le: "\<forall>d \<in> cs. ar_owner d = ar_owner c \<longrightarrow> age_key e \<le> age_key d"
    using e assms by (simp add: found_inv_def)
  show ?thesis
  proof (cases "age_key c < age_key e")
    case less: True
    have "found_inv (insert c cs) (hm_insert (ar_owner c) c m)"
      unfolding found_inv_def
      using assms key le less by (auto simp: found_inv_def dom_update intro: order_trans less_imp_le)
    with step less show ?thesis by simp
  next
    case False
    then have "age_key e \<le> age_key c" by simp
    then have "\<forall>r. hm_get m (ar_owner c) = Some r \<longrightarrow> age_key r \<le> age_key c" using e by simp
    moreover have "insert (ar_owner c) (ar_owner ` cs) = ar_owner ` cs" using key by (rule insert_absorb)
    ultimately have "found_inv (insert c cs) m"
      using assms unfolding found_inv_def image_insert by (metis insert_iff)
    with step False show ?thesis by simp
  qed
qed

lemma foldl_found_inv: "found_inv cs m \<Longrightarrow> found_inv (cs \<union> set claims) (foldl found_step m claims)"
proof (induction claims arbitrary: cs m)
  case (Cons c claims)
  from Cons.IH [OF found_step_inv [OF Cons.prems, of c]] show ?case by (simp add: insert_commute)
qed simp

lemma founding_inv: "found_inv (set claims) (foldl found_step [] claims)"
  using foldl_found_inv [of "{}" "[]" claims] by (simp add: found_inv_def)

lemma founding_mem:
  assumes "r \<in> set (founding_of_owner claims)"
  shows "r \<in> set claims" and "c \<in> set claims \<Longrightarrow> ar_owner c = ar_owner r \<Longrightarrow> age_key r \<le> age_key c"
proof -
  let ?m = "foldl found_step [] claims"
  from assms obtain ow where "(ow, r) \<in> set ?m" by (auto simp: founding_of_owner_def)
  then have "hm_get ?m ow = Some r"
    using founding_inv [of claims] by (auto simp: found_inv_def intro: map_of_is_SomeI)
  then show "r \<in> set claims" and "c \<in> set claims \<Longrightarrow> ar_owner c = ar_owner r \<Longrightarrow> age_key r \<le> age_key c"
    using founding_inv [of claims] by (auto simp: found_inv_def)
qed

lemma founding_of:
  assumes "c \<in> set claims"
  obtains f where "f \<in> set (founding_of_owner claims)" and "ar_owner f = ar_owner c"
proof -
  let ?m = "foldl found_step [] claims"
  have "ar_owner c \<in> set (keys ?m)" using assms founding_inv [of claims] by (simp add: found_inv_def)
  then obtain f where "(ar_owner c, f) \<in> set ?m" by auto
  moreover from this have "ar_owner f = ar_owner c"
    using founding_inv [of claims] by (auto simp: found_inv_def dest: map_of_is_SomeI)
  ultimately show thesis using that by (force simp: founding_of_owner_def)
qed

text \<open>The whole order of the line: founding time, owner, then expiry and payload.\<close>

definition full_key :: "AliasRecord \<Rightarrow> u64 \<times> bytes \<times> u64 \<times> bytes option" where
  "full_key r = (ar_created_at_ms r, ar_owner r, ar_expires_at_ms r, ar_payload r)"

lemma full_key_inj: "full_key r = full_key s \<Longrightarrow> r = s"
  by (simp add: full_key_def)

lemma full_key_leI:
  assumes "line_key r \<le> line_key f" and "ar_owner f = ar_owner c" and "age_key f \<le> age_key c"
    and "ar_owner r = ar_owner f \<Longrightarrow> age_key r \<le> age_key c"
  shows "full_key r \<le> full_key c"
  using assms by (auto simp: full_key_def line_key_def age_key_def less_eq_prod_def less_le)

lemma first_in_line:
  assumes "min_by_key line_key (founding_of_owner claims) = Some r"
  shows "r \<in> set claims" and "c \<in> set claims \<Longrightarrow> full_key r \<le> full_key c"
proof -
  from min_by_key_Some [OF assms]
  have r: "r \<in> set (founding_of_owner claims)" "\<forall>f \<in> set (founding_of_owner claims). line_key r \<le> line_key f"
    by blast+
  show "r \<in> set claims" by (rule founding_mem(1) [OF r(1)])
  assume c: "c \<in> set claims"
  then obtain f where f: "f \<in> set (founding_of_owner claims)" "ar_owner f = ar_owner c"
    by (rule founding_of)
  show "full_key r \<le> full_key c"
  proof (rule full_key_leI)
    show "line_key r \<le> line_key f" using r f by blast
    show "ar_owner f = ar_owner c" by (rule f(2))
    show "age_key f \<le> age_key c" using founding_mem(2) [OF f(1) c] f(2) by simp
    show "age_key r \<le> age_key c" if "ar_owner r = ar_owner f"
      using founding_mem(2) [OF r(1) c] f(2) that by simp
  qed
qed

lemma founding_empty [simp]: "founding_of_owner claims = [] \<longleftrightarrow> claims = []"
proof
  assume e: "founding_of_owner claims = []"
  have False if "c \<in> set claims" for c
    using founding_of [OF that] e by (metis empty_iff empty_set)
  then show "claims = []" by (cases claims) auto
qed (simp add: founding_of_owner_def)

lemma decide_alias_cases:
  obtains (claimed) r where "decide_alias claims revs = Claimed r" "r \<in> set claims"
      "\<forall>c \<in> set claims. full_key r \<le> full_key c" "\<forall>t \<in> set revs. ar_owner t \<noteq> ar_owner r"
  | (burned) r t where "decide_alias claims revs = Revoked t" "r \<in> set claims"
      "\<forall>c \<in> set claims. full_key r \<le> full_key c" "t \<in> set revs" "ar_owner t = ar_owner r"
  | (orphan) t where "decide_alias claims revs = Revoked t" "claims = []" "t \<in> set revs"
      "\<forall>s \<in> set revs. line_key t \<le> line_key s"
  | (free) "decide_alias claims revs = Available" "claims = []" "revs = []"
proof (cases "min_by_key line_key (founding_of_owner claims)")
  case None
  then have "claims = []" by simp
  have d: "decide_alias claims revs =
      (case min_by_key line_key revs of Some tombstone \<Rightarrow> Revoked tombstone | None \<Rightarrow> Available)"
    by (simp add: decide_alias_def None)
  show thesis
  proof (cases "min_by_key line_key revs")
    case None
    with \<open>claims = []\<close> d show thesis by (intro free) simp_all
  next
    case (Some t)
    with \<open>claims = []\<close> d min_by_key_Some [OF Some] show thesis by (intro orphan [of t]) simp_all
  qed
next
  case (Some r)
  note r = first_in_line [OF Some]
  show thesis
  proof (cases "find (\<lambda>t. ar_owner t = ar_owner r) revs")
    case None
    then have "\<forall>t \<in> set revs. ar_owner t \<noteq> ar_owner r" by (simp add: find_None_iff)
    with None Some r show thesis
      by (intro claimed [of r]) (simp_all add: decide_alias_def)
  next
    case (Some t)
    then have "t \<in> set revs" "ar_owner t = ar_owner r" by (auto simp: find_Some_iff)
    with Some r \<open>min_by_key line_key (founding_of_owner claims) = Some r\<close> show thesis
      by (intro burned [of t r]) (auto simp: decide_alias_def)
  qed
qed

text \<open>What a reader is told, up to which of the owner's tombstones it is shown.\<close>

fun verdict :: "AliasState \<Rightarrow> (AliasRecord + bytes) option" where
  "verdict Available = None"
| "verdict (Claimed r) = Some (Inl r)"
| "verdict (Revoked t) = Some (Inr (ar_owner t))"

lemma verdict_set:
  assumes "set claims = set claims'" and "set revs = set revs'"
  shows "verdict (decide_alias claims revs) = verdict (decide_alias claims' revs')"
proof -
  have least: "r = s" if "r \<in> set claims" "\<forall>c \<in> set claims. full_key r \<le> full_key c"
    "s \<in> set claims" "\<forall>c \<in> set claims. full_key s \<le> full_key c" for r s
    using that by (meson antisym full_key_inj)
  have line: "ar_owner t = ar_owner s" if "line_key t \<le> line_key s" "line_key s \<le> line_key t" for s t
    using that by (auto simp: line_key_def dest: antisym)
  show ?thesis
  proof (cases rule: decide_alias_cases [of claims revs])
    case (claimed r)
    note outer = this
    show ?thesis
    proof (cases rule: decide_alias_cases [of claims' revs'])
      case (claimed s)
      with outer assms have "r = s" by (intro least) simp_all
      with outer claimed show ?thesis by simp
    next
      case (burned s t)
      with outer assms have "r = s" by (intro least) simp_all
      with outer burned assms show ?thesis by auto
    qed (use outer assms in auto)
  next
    case (burned r t)
    note outer = this
    show ?thesis
    proof (cases rule: decide_alias_cases [of claims' revs'])
      case (claimed s)
      with outer assms have "r = s" by (intro least) simp_all
      with outer claimed assms show ?thesis by auto
    next
      case (burned s u)
      with outer assms have "r = s" by (intro least) simp_all
      with outer burned show ?thesis by simp
    qed (use outer assms in auto)
  next
    case (orphan t)
    note outer = this
    show ?thesis
    proof (cases rule: decide_alias_cases [of claims' revs'])
      case (orphan s)
      with outer assms have "ar_owner t = ar_owner s" by (intro line) simp_all
      with outer orphan show ?thesis by simp
    qed (use outer assms in auto)
  next
    case free
    note outer = this
    show ?thesis
      by (cases rule: decide_alias_cases [of claims' revs']) (use outer assms in auto)
  qed
qed

section \<open>Lemmas on what is published and read back\<close>

lemma codec_correctD:
  assumes "codec_correct B"
  shows "de_mail B (ser_mail B m) = Some m" and "de_alias B (ser_alias B a) = Some a"
    and "de_signed B (ser_signed B r) = Some r"
  using assms by (simp_all add: codec_correct_def)

lemma open_alias_value_build:
  assumes "codec_correct B" "aead_correct C" "ed_correct C" "length nonce = NONCE_LEN"
    and "build_alias_record C B nonce sk alias now ttl created payload tomb = Some it"
    and "created \<le> t" "t < now + ttl"
  shows "open_alias_value C B alias (alias_key C alias) t (p_value it) =
           Some ((if tomb then Inr else Inl)
             \<lparr>ar_owner = Ed_public C sk, ar_created_at_ms = created, ar_expires_at_ms = now + ttl,
              ar_payload = (if tomb then None else payload)\<rparr>)"
  using assms(5-7) open_seal [OF assms(2,4)] codec_correctD [OF assms(1)] ed_correctD [OF assms(3)]
  by (auto simp: build_alias_record_def open_alias_value_def Let_def KIND_ALIAS_CLAIM_def
      KIND_ALIAS_TOMBSTONE_def split: if_splits)

lemma build_alias_record_key:
  "build_alias_record C B nonce sk alias now ttl created payload tomb = Some it \<Longrightarrow>
     valid_alias alias \<and> p_key it = alias_key C alias \<and> created \<le> now"
  by (auto simp: build_alias_record_def Let_def split: if_splits)

lemma decide_alias_winner:
  assumes "r \<in> set claims" "\<forall>c \<in> set claims. full_key r \<le> full_key c"
    and "\<forall>t \<in> set revs. ar_owner t \<noteq> ar_owner r"
  shows "decide_alias claims revs = Claimed r"
proof -
  have same: "s = r" if "s \<in> set claims" "\<forall>c \<in> set claims. full_key s \<le> full_key c" for s
    using that assms by (meson antisym full_key_inj)
  show ?thesis
  proof (cases rule: decide_alias_cases [of claims revs])
    case (claimed s)
    with same show ?thesis by simp
  next
    case (burned s u)
    then have "s = r" by (intro same)
    with burned assms(3) show ?thesis by auto
  qed (use assms(1) in auto)
qed

lemma alias_state_winner:
  assumes "valid_alias alias" and "v \<in> set vals"
    and "open_alias_value C B alias (alias_key C alias) t v = Some (Inl r)"
    and "\<And>w c. w \<in> set vals \<Longrightarrow> open_alias_value C B alias (alias_key C alias) t w = Some (Inl c) \<Longrightarrow>
           full_key r \<le> full_key c"
    and "\<And>w b. w \<in> set vals \<Longrightarrow> open_alias_value C B alias (alias_key C alias) t w = Some (Inr b) \<Longrightarrow>
           ar_owner b \<noteq> ar_owner r"
  shows "alias_state C B alias vals t = Claimed r"
proof -
  obtain claims revs where cr: "open_alias_records C B alias (alias_key C alias) vals t = (claims, revs)"
    by (cases "open_alias_records C B alias (alias_key C alias) vals t")
  have cl: "set claims = {r. \<exists>v \<in> set vals. open_alias_value C B alias (alias_key C alias) t v = Some (Inl r)}"
    and rv: "set revs = {r. \<exists>v \<in> set vals. open_alias_value C B alias (alias_key C alias) t v = Some (Inr r)}"
    using set_open_alias_records [of C B "alias" "alias_key C alias" vals t] by (simp_all add: cr)
  have "decide_alias claims revs = Claimed r"
    by (rule decide_alias_winner) (use assms cl rv in auto)
  with assms(1) cr show ?thesis by (simp add: alias_state_def Let_def)
qed

text \<open>The records \<open>valid_records\<close> keeps of the vals, before they are sorted.\<close>

definition opened :: "crypto \<Rightarrow> codec \<Rightarrow> bytes \<Rightarrow> bytes \<Rightarrow> DhtKey \<Rightarrow> bytes list \<Rightarrow> SignedRecord set" where
  "opened C B secret label key vals =
     {r. \<exists>v \<in> set vals. Option.bind (open_sealed C secret label key v) (de_signed B) = Some r}"

lemma set_valid_records:
  "set (valid_records C B secret label key kind owner vals now) =
     {(sr_seq r, sr_body r) |r. r \<in> opened C B secret label key vals \<and>
        Ed_key_ok C owner \<and> record_valid C key kind owner now r}"
  by (auto simp: valid_records_def set_map_filter opened_def bind_eq_Some_conv)

lemma sorted_valid_records:
  "sorted (map (\<lambda>r. - uint (fst r)) (valid_records C B secret label key kind owner vals now))"
  by (simp add: valid_records_def)

lemma opened_build_record:
  assumes "codec_correct B" "aead_correct C" "length nonce = NONCE_LEN"
    and "build_record C B nonce sk secret label key kind now ttl body = Some it" "p_value it \<in> set vals"
  shows "\<lparr>sr_kind = kind, sr_owner = Ed_public C sk, sr_seq = now, sr_expires_at_ms = now + ttl, sr_body = body,
          sr_sig = Ed_sign C sk (record_digest C kind (Ed_public C sk) now (now + ttl) body key)\<rparr>
         \<in> opened C B secret label key vals"
  using assms(4,5) open_seal [OF assms(2,3)] codec_correctD [OF assms(1)]
  by (force simp: build_record_def opened_def Let_def)

lemma published_in_valid_records:
  assumes "codec_correct B" "aead_correct C" "ed_correct C" "length nonce = NONCE_LEN"
    and "build_record C B nonce sk secret label key kind now ttl body = Some it" "p_value it \<in> set vals"
    and "t < now + ttl"
  shows "(now, body) \<in> set (valid_records C B secret label key kind (Ed_public C sk) vals t)"
  unfolding set_valid_records
  using opened_build_record [OF assms(1,2,4-6)] ed_correctD [OF assms(3)] assms(7)
  by (force simp: record_valid_def)

lemma newest_first:
  assumes "x \<in> set xs" and "sorted (map (\<lambda>r. - uint (fst r)) xs)"
    and "\<And>y. y \<in> set xs \<Longrightarrow> y \<noteq> x \<Longrightarrow> fst y < (fst x :: u64)"
  shows "\<exists>ys. xs = x # ys"
proof (cases xs)
  case (Cons y ys)
  have "y = x"
  proof (rule ccontr)
    assume ne: "y \<noteq> x"
    with assms(1) Cons have "x \<in> set ys" by auto
    with assms(2) Cons have "uint (fst x) \<le> uint (fst y)" by auto
    with assms(3) [of y] ne Cons show False by (simp add: word_less_def)
  qed
  with Cons show ?thesis by blast
qed (use assms(1) in simp)

lemma set_fresh_addresses:
  "set (fresh_addresses seen xs) \<subseteq> set xs"
  "fst ` set (fresh_addresses seen xs) = {a \<in> fst ` set xs. trim a \<noteq> [] \<and> a \<notin> set seen}"
  by (induction seen xs rule: fresh_addresses.induct) (auto split: if_splits)

lemma distinct_fresh_addresses: "distinct (map fst (fresh_addresses seen xs))"
proof (induction seen xs rule: fresh_addresses.induct)
  case (2 seen addr sq rest)
  have "addr \<notin> fst ` set (fresh_addresses (addr # seen) rest)"
    by (simp add: set_fresh_addresses(2))
  with 2 show ?case by simp
qed simp

lemma sorted_fresh_addresses:
  "sorted (map (\<lambda>r. - uint (snd r)) xs) \<Longrightarrow> sorted (map (\<lambda>r. - uint (snd r)) (fresh_addresses seen xs))"
proof (induction seen xs rule: fresh_addresses.induct)
  case (2 seen addr sq rest)
  have "set (fresh_addresses (addr # seen) rest) \<subseteq> set rest" by (rule set_fresh_addresses(1))
  with 2 show ?case by auto
qed simp

text \<open>The UTF-8 step of \<open>open_address_records\<close>.\<close>

lemma sorted_utf8_addresses:
  "sorted (map (\<lambda>r. - uint (fst r)) xs) \<Longrightarrow>
     sorted (map (\<lambda>r. - uint (snd r))
       (List.map_filter (\<lambda>(sq, body). if utf8_valid body then Some (body, sq) else None) xs))"
proof (induction xs)
  case (Cons x xs)
  then show ?case by (cases x) (auto simp: List.map_filter_simps set_map_filter split: if_splits)
qed (simp add: List.map_filter_simps)

text \<open>Everything \<open>open_address_records\<close> could list: the owner's live records that are addresses.\<close>

definition live_addresses :: "crypto \<Rightarrow> codec \<Rightarrow> bytes \<Rightarrow> bytes \<Rightarrow> bytes list \<Rightarrow> u64 \<Rightarrow> (bytes \<times> u64) set" where
  "live_addresses C B pair owner vals now =
     {(sr_body r, sr_seq r) |r.
        r \<in> opened C B pair (ascii ''addr'') (addr_key C pair owner) vals \<and> Ed_key_ok C owner \<and>
        record_valid C (addr_key C pair owner) KIND_ADDRESS owner now r \<and>
        utf8_valid (sr_body r) \<and> trim (sr_body r) \<noteq> []}"

definition all_addresses :: "crypto \<Rightarrow> codec \<Rightarrow> bytes \<Rightarrow> bytes \<Rightarrow> bytes list \<Rightarrow> u64 \<Rightarrow> (bytes \<times> u64) list" where
  "all_addresses C B pair owner vals now =
     fresh_addresses []
       (List.map_filter (\<lambda>(sq, body). if utf8_valid body then Some (body, sq) else None)
          (valid_records C B pair (ascii ''addr'') (addr_key C pair owner) KIND_ADDRESS owner vals now))"

lemma open_address_records_take:
  "open_address_records C B pair owner vals now = take MAX_PUBLISHED_RELAYS (all_addresses C B pair owner vals now)"
  by (simp add: open_address_records_def all_addresses_def Let_def)

lemma all_addresses_facts:
  "sorted (map (\<lambda>r. - uint (snd r)) (all_addresses C B pair owner vals now))"
  "distinct (map fst (all_addresses C B pair owner vals now))"
  "set (all_addresses C B pair owner vals now) \<subseteq> live_addresses C B pair owner vals now"
  "fst ` set (all_addresses C B pair owner vals now) = fst ` live_addresses C B pair owner vals now"
proof -
  let ?xs = "List.map_filter (\<lambda>(sq, body). if utf8_valid body then Some (body, sq) else None)
          (valid_records C B pair (ascii ''addr'') (addr_key C pair owner) KIND_ADDRESS owner vals now)"
  have xs: "set ?xs = {(b, q). (q, b) \<in> set (valid_records C B pair (ascii ''addr'') (addr_key C pair owner)
                KIND_ADDRESS owner vals now) \<and> utf8_valid b}"
    by (force simp: set_map_filter split: if_splits)
  have live: "live_addresses C B pair owner vals now = {p \<in> set ?xs. trim (fst p) \<noteq> []}"
    unfolding xs set_valid_records live_addresses_def by auto
  show "sorted (map (\<lambda>r. - uint (snd r)) (all_addresses C B pair owner vals now))"
    unfolding all_addresses_def by (intro sorted_fresh_addresses sorted_utf8_addresses sorted_valid_records)
  show "distinct (map fst (all_addresses C B pair owner vals now))"
    unfolding all_addresses_def by (rule distinct_fresh_addresses)
  have img: "fst ` set (fresh_addresses [] ?xs) = {a \<in> fst ` set ?xs. trim a \<noteq> []}"
    by (simp add: set_fresh_addresses(2))
  then show "fst ` set (all_addresses C B pair owner vals now) = fst ` live_addresses C B pair owner vals now"
    unfolding live all_addresses_def by auto
  have "trim (fst p) \<noteq> []" if "p \<in> set (fresh_addresses [] ?xs)" for p
  proof -
    have "fst p \<in> {a \<in> fst ` set ?xs. trim a \<noteq> []}"
      unfolding img [symmetric] using that by (rule imageI)
    then show ?thesis by simp
  qed
  with set_fresh_addresses(1) [of "[]" ?xs]
  show "set (all_addresses C B pair owner vals now) \<subseteq> live_addresses C B pair owner vals now"
    unfolding live all_addresses_def by auto
qed

section \<open>Properties\<close>

text \<open>
  C21. The verdict on an alias is a function of the set of values: whatever order they arrive in
  and however often, every reader who sees the same values finds the alias free, claimed by the
  same record, or burned by the same owner. (Which of several tombstones of that owner is shown
  does depend on the order.)
\<close>

theorem alias_verdict_order_independent:
  assumes "set vals = set vals'"
  shows "verdict (alias_state C B alias vals now) = verdict (alias_state C B alias vals' now)"
proof (cases "valid_alias alias")
  case True
  let ?o = "\<lambda>vs. open_alias_records C B alias (alias_key C alias) vs now"
  have "verdict (decide_alias (fst (?o vals)) (snd (?o vals))) =
        verdict (decide_alias (fst (?o vals')) (snd (?o vals')))"
    by (rule verdict_set) (simp_all add: set_open_alias_records assms)
  with True show ?thesis by (simp add: alias_state_def Let_def split_beta)
qed (simp add: alias_state_def)

text \<open>
  C6. First come, first served: an alias is reported claimed only by a record that was founded
  no later than now, has not expired and carries its owner's signature over this very alias,
  and then no claim among the values comes before it in the order of founding time and owner
  key, and its owner has burned nothing.
\<close>

theorem alias_claimed_sound:
  assumes "alias_state C B alias vals now = Claimed r"
  shows "valid_alias alias \<and> ar_created_at_ms r \<le> now \<and> now < ar_expires_at_ms r \<and> Ed_key_ok C (ar_owner r) \<and>
    (\<exists>body sig. map_option ab_alias (de_alias B body) = Some alias \<and>
       Ed_verify C (ar_owner r)
         (record_digest C KIND_ALIAS_CLAIM (ar_owner r) (ar_created_at_ms r) (ar_expires_at_ms r) body
            (alias_key C alias)) sig) \<and>
    (\<forall>v \<in> set vals. \<forall>c. open_alias_value C B alias (alias_key C alias) now v = Some (Inl c) \<longrightarrow>
        line_key r \<le> line_key c) \<and>
    (\<forall>v \<in> set vals. \<forall>t. open_alias_value C B alias (alias_key C alias) now v = Some (Inr t) \<longrightarrow>
        ar_owner t \<noteq> ar_owner r)"
proof -
  let ?o = "open_alias_records C B alias (alias_key C alias) vals now"
  from assms have valid: "valid_alias alias" and d: "decide_alias (fst ?o) (snd ?o) = Claimed r"
    by (auto simp: alias_state_def Let_def split_beta split: if_splits)
  from d have r: "r \<in> set (fst ?o)" "\<forall>c \<in> set (fst ?o). full_key r \<le> full_key c"
    "\<forall>t \<in> set (snd ?o). ar_owner t \<noteq> ar_owner r"
    by (cases rule: decide_alias_cases [of "fst ?o" "snd ?o"]; auto)+
  from r(1) obtain v where "open_alias_value C B alias (alias_key C alias) now v = Some (Inl r)"
    by (auto simp: set_open_alias_records)
  note open_alias_value_sound [OF this, of r]
  moreover have "line_key r \<le> line_key c" if "full_key r \<le> full_key c" for c
    using that by (auto simp: full_key_def line_key_def less_eq_prod_def less_le)
  ultimately show ?thesis using valid r(2,3) by (auto simp: set_open_alias_records)
qed

text \<open>
  A published claim (or renewal) is what readers find: while it is live, once it is among the
  values, no other claim there precedes it and its owner has not burned the alias, every reader
  finds the alias claimed by that owner, with the founding time, the expiry and the payload of
  the publication.
\<close>

theorem alias_claim_published:
  assumes "codec_correct B" "aead_correct C" "ed_correct C" "length nonce = NONCE_LEN"
    and "build_alias_record C B nonce sk alias now ttl created payload False = Some it"
    and "p_value it \<in> set vals" and "created \<le> t" and "t < now + ttl"
    and "\<forall>v \<in> set vals. \<forall>c. open_alias_value C B alias (alias_key C alias) t v = Some (Inl c) \<longrightarrow>
           v = p_value it \<or> (created, Ed_public C sk) < line_key c"
    and "\<forall>v \<in> set vals. \<forall>b. open_alias_value C B alias (alias_key C alias) t v = Some (Inr b) \<longrightarrow>
           ar_owner b \<noteq> Ed_public C sk"
  shows "p_key it = alias_key C alias \<and>
         alias_state C B alias vals t =
           Claimed \<lparr>ar_owner = Ed_public C sk, ar_created_at_ms = created, ar_expires_at_ms = now + ttl,
                    ar_payload = payload\<rparr>" (is "_ \<and> _ = Claimed ?r")
proof
  note built = build_alias_record_key [OF assms(5)]
  then show "p_key it = alias_key C alias" by simp
  have own: "open_alias_value C B alias (alias_key C alias) t (p_value it) = Some (Inl ?r)"
    using open_alias_value_build [OF assms(1-5,7,8)] by simp
  have "full_key ?r \<le> full_key c" if "(created, Ed_public C sk) < line_key c" for c
    using that by (auto simp: full_key_def line_key_def less_eq_prod_def less_le)
  with own assms(9) have le: "full_key ?r \<le> full_key c"
    if "w \<in> set vals" "open_alias_value C B alias (alias_key C alias) t w = Some (Inl c)" for w c
    using that by fastforce
  show "alias_state C B alias vals t = Claimed ?r"
    by (rule alias_state_winner [OF _ assms(6) own le]) (use built assms(10) in auto)
qed

text \<open>
  A burn does not outlive the burned claim: with the tombstone of one identity alone under
  the alias the alias is revoked, but a claim that any other identity publishes then takes it,
  the tombstone still being visible.
\<close>

theorem alias_burn_overridden:
  assumes "codec_correct B" "aead_correct C" "ed_correct C" "length nonce = NONCE_LEN" "length nonce' = NONCE_LEN"
    and "alias_tombstone_record C B nonce sk alias now = Some tomb"
    and "alias_claim_record C B nonce' sk' alias now' payload = Some it"
    and "Ed_public C sk \<noteq> Ed_public C sk'"
    and "now \<le> t" "t < now + ALIAS_TOMBSTONE_TTL_MS" "now' \<le> t" "t < now' + ALIAS_CLAIM_TTL_MS"
  shows "(\<exists>b. ar_owner b = Ed_public C sk \<and> alias_state C B alias [p_value tomb] t = Revoked b) \<and>
         (\<exists>r. ar_owner r = Ed_public C sk' \<and> alias_state C B alias [p_value tomb, p_value it] t = Claimed r)"
proof -
  note tb = assms(6) [unfolded alias_tombstone_record_def]
  note cl = assms(7) [unfolded alias_claim_record_def]
  note t = open_alias_value_build [OF assms(1-4) tb assms(9,10)]
  note c = open_alias_value_build [OF assms(1-3,5) cl assms(11,12)]
  show ?thesis
    using t c assms(8) build_alias_record_key [OF tb]
    by (simp add: alias_state_def Let_def decide_alias_def founding_of_owner_def found_step_def)
qed

text \<open>
  The relays read for a contact: at most \<open>MAX_PUBLISHED_RELAYS\<close>, newest first, no address
  twice, each of them a live, signed, non-blank address of that owner; and an address of the
  owner is left out only when the list is full of addresses that are at least as new as some
  record of it.
\<close>

theorem address_records_spec:
  "let found = open_address_records C B pair owner vals now; live = live_addresses C B pair owner vals now in
     length found \<le> MAX_PUBLISHED_RELAYS \<and> sorted (map (\<lambda>r. - uint (snd r)) found) \<and>
     distinct (map fst found) \<and> set found \<subseteq> live \<and>
     (\<forall>a \<in> fst ` live. a \<in> fst ` set found \<or>
        (length found = MAX_PUBLISHED_RELAYS \<and>
         (\<exists>q. (a, q) \<in> live \<and> (\<forall>r \<in> set found. q \<le> snd r))))"
proof -
  let ?all = "all_addresses C B pair owner vals now"
  let ?n = MAX_PUBLISHED_RELAYS
  note facts = all_addresses_facts [of C B pair owner vals now]
  have sd: "sorted (map (\<lambda>r. - uint (snd r)) (take ?n ?all @ drop ?n ?all))" using facts(1) by simp
  have out: "length (take ?n ?all) = ?n \<and> (\<exists>q. (a, q) \<in> live_addresses C B pair owner vals now \<and>
      (\<forall>r \<in> set (take ?n ?all). q \<le> snd r))"
    if a: "a \<in> fst ` live_addresses C B pair owner vals now" and no: "a \<notin> fst ` set (take ?n ?all)" for a
  proof -
    from a obtain q where q: "(a, q) \<in> set ?all" unfolding facts(4) [symmetric] by auto
    then have "(a, q) \<in> set (take ?n ?all) \<union> set (drop ?n ?all)"
      by (metis append_take_drop_id set_append)
    with no have dr: "(a, q) \<in> set (drop ?n ?all)" by force
    then have "length ?all > ?n" by (metis drop_eq_Nil empty_iff empty_set not_le)
    then have "length (take ?n ?all) = ?n" by simp
    moreover have "q \<le> snd r" if "r \<in> set (take ?n ?all)" for r
      using sd that dr unfolding map_append sorted_append by (force simp: word_le_def)
    ultimately show ?thesis using q facts(3) by blast
  qed
  show ?thesis
    unfolding Let_def open_address_records_take
  proof (intro conjI ballI)
    show "sorted (map (\<lambda>r. - uint (snd r)) (take ?n ?all))" using facts(1) by (metis sorted_wrt_take take_map)
    show "distinct (map fst (take ?n ?all))" using facts(2) by (metis distinct_take take_map)
    show "set (take ?n ?all) \<subseteq> live_addresses C B pair owner vals now" 
      using set_take_subset [of ?n ?all] facts(3) by (rule subset_trans)
    show "length (take ?n ?all) \<le> ?n" by simp
  qed (use out in blast)
qed

text \<open>
  Publishing an address reaches the contact: once the record is among the values found under
  its key and while it is live, if every other live record of the owner is older, the first relay
  the contact reads is the one published, with the publication time.
\<close>

theorem address_publish_found:
  assumes "codec_correct B" "aead_correct C" "ed_correct C" "length nonce = NONCE_LEN"
    and "address_record C B nonce sk pair now relay = Some it" and "p_value it \<in> set vals"
    and "t < now + ADDRESS_TTL_MS" and "utf8_valid relay" and "trim relay \<noteq> []"
    and "\<forall>x \<in> set (valid_records C B pair (ascii ''addr'') (p_key it) KIND_ADDRESS (Ed_public C sk) vals t).
           x \<noteq> (now, relay) \<longrightarrow> fst x < now"
  shows "p_key it = address_key C pair (Ed_public C sk) \<and>
         open_address_record C B pair (Ed_public C sk) vals t = Some (relay, now)"
proof -
  let ?k = "addr_key C pair (Ed_public C sk)"
  let ?vr = "valid_records C B pair (ascii ''addr'') ?k KIND_ADDRESS (Ed_public C sk) vals t"
  have b: "build_record C B nonce sk pair (ascii ''addr'') ?k KIND_ADDRESS now ADDRESS_TTL_MS relay = Some it"
    using assms(5) by (simp add: address_record_def Let_def)
  then have key: "p_key it = ?k" by (auto simp: build_record_def Let_def)
  have "(now, relay) \<in> set ?vr" by (rule published_in_valid_records [OF assms(1-4) b assms(6,7)])
  then obtain ys where "?vr = (now, relay) # ys"
    using newest_first [of "(now, relay)" ?vr] sorted_valid_records assms(10) key by auto
  then show ?thesis
    using assms(8,9) key
    by (simp add: address_key_def open_address_record_def open_address_records_def Let_def
        List.map_filter_simps MAX_PUBLISHED_RELAYS_def first_opt_def numeral_3_eq_3)
qed

lemma set_days_back:
  "d \<le> today \<Longrightarrow> unat today - unat d < unat days \<Longrightarrow> d \<in> set (days_back today days)"
proof -
  assume d: "d \<le> today" and n: "unat today - unat d < unat days"
  have "unat d \<le> unat today" using d by (simp add: word_le_nat_alt)
  then have "today - of_nat (unat today - unat d) = d" by (simp add: of_nat_diff)
  with n show ?thesis
    by (auto simp: days_back_def set_map_filter intro!: bexI [of _ "unat today - unat d"])
qed

text \<open>
  Mail round trip: what \<open>mail\<close> seals is opened by the other end of the pair to the envelope
  and the token whose hash guards the item's deletion; and it lies under a key the recipient
  polls, as long as no more days have passed than the recipient looks back.
\<close>

theorem mail_roundtrip:
  assumes "codec_correct B" "aead_correct C" "length nonce = NONCE_LEN"
    and "mail C B token nonce pair to_pk now envelope = Some it"
    and "day_of now \<le> day_of t" and "unat (day_of t) - unat (day_of now) < unat days"
  shows "open_mail C B pair (p_key it) (p_value it) = Some \<lparr>om_envelope = envelope, om_delete_token = token\<rparr> \<and>
         p_delete_hash it = Some (delete_hash C token) \<and>
         p_key it \<in> set (mail_keys_to_poll C pair to_pk t days)"
  using assms(4) open_seal [OF assms(2,3)] codec_correctD(1) [OF assms(1)] set_days_back [OF assms(5,6)]
  by (auto simp: mail_def open_mail_def open_plain_def mail_plain_def mail_keys_to_poll_def Let_def)

text \<open>
  A first letter, written with nothing but a card, is opened by the owner of the card with
  their own secret key, and lies under a key they poll.
\<close>

theorem intro_roundtrip:
  assumes "codec_correct B" "aead_correct C" "dh_commutes C" "public_len C" "length nonce = NONCE_LEN"
    and "intro_letter C B token eph nonce sign_pk (X25519_pub C sk) now envelope = Some it"
    and "day_of now \<le> day_of t" and "unat (day_of t) - unat (day_of now) < unat days"
  shows "open_intro C B sk (p_key it) (p_value it) = Some \<lparr>om_envelope = envelope, om_delete_token = token\<rparr> \<and>
         p_delete_hash it = Some (delete_hash C token) \<and>
         p_key it \<in> set (intro_keys_to_poll C sign_pk (X25519_pub C sk) t days)"
  using assms(6) open_from_seal_to [OF assms(2-5)] codec_correctD(1) [OF assms(1)] set_days_back [OF assms(7,8)]
  by (auto simp: intro_letter_def open_intro_def open_plain_def mail_plain_def intro_keys_to_poll_def Let_def)

section \<open>Witnesses\<close>

definition toy_codec :: codec where
  "toy_codec = \<lparr>
     ser_mail = (\<lambda>m. toy_ser [mp_delete_token m, mp_envelope m]),
     de_mail = (\<lambda>b. case toy_de b of [d, e] \<Rightarrow> Some \<lparr>mp_delete_token = d, mp_envelope = e\<rparr> | _ \<Rightarrow> None),
     ser_alias = (\<lambda>a. toy_ser (ab_alias a # opt_fields (ab_payload a))),
     de_alias = (\<lambda>b. case toy_de b of [a] \<Rightarrow> Some \<lparr>ab_alias = a, ab_payload = None\<rparr>
                     | [a, p] \<Rightarrow> Some \<lparr>ab_alias = a, ab_payload = Some p\<rparr> | _ \<Rightarrow> None),
     ser_signed = (\<lambda>r. toy_ser [[sr_kind r], sr_owner r, u64_to_le_bytes (sr_seq r),
                                u64_to_le_bytes (sr_expires_at_ms r), sr_body r, sr_sig r]),
     de_signed = (\<lambda>b. case toy_de b of
         [[k], ow, sq, ex, bd, sg] \<Rightarrow> Some \<lparr>sr_kind = k, sr_owner = ow, sr_seq = u64_field sq,
           sr_expires_at_ms = u64_field ex, sr_body = bd, sr_sig = sg\<rparr>
       | _ \<Rightarrow> None) \<rparr>"

lemma toy_codec_correct: "codec_correct toy_codec"
  by (auto simp: codec_correct_def toy_codec_def opt_fields_def split: option.splits)

lemma length_toy_ser: "length (toy_ser fs) = sum_list (map (\<lambda>f. 2 * length f + 1) fs)"
  by (induction fs) (simp_all add: toy_ser_def length_enc_field)

lemma toy_lengths: "length (Ed_public toy_crypto sk) = 32" "length (Ed_sign toy_crypto sk m) = 64"
  by (simp_all add: toy_crypto_def)

lemma toy_build_record:
  assumes "length body < 1000"
  shows "\<exists>it. build_record toy_crypto toy_codec toy_nonce sk secret label key kind now ttl body = Some it"
proof -
  have "length (ser_signed toy_codec \<lparr>sr_kind = kind, sr_owner = Ed_public toy_crypto sk, sr_seq = now,
      sr_expires_at_ms = now + ttl, sr_body = body,
      sr_sig = Ed_sign toy_crypto sk (record_digest toy_crypto kind (Ed_public toy_crypto sk) now (now + ttl) body key)\<rparr>)
      \<le> MAX_PLAINTEXT" (is "length ?p \<le> _")
    using assms by (simp add: toy_codec_def length_toy_ser toy_lengths MAX_PLAINTEXT_def)
  from toy_seal [OF this, of toy_nonce secret label key] show ?thesis
    by (auto simp: build_record_def Let_def)
qed

definition toy_alias :: bytes where
  "toy_alias = ascii ''bob''"

lemma toy_build_alias_record:
  assumes "created \<le> now"
  shows "\<exists>it. build_alias_record toy_crypto toy_codec toy_nonce sk toy_alias now ttl created None tomb = Some it"
proof -
  let ?kind = "if tomb then KIND_ALIAS_TOMBSTONE else KIND_ALIAS_CLAIM"
  let ?body = "ser_alias toy_codec \<lparr>ab_alias = toy_alias, ab_payload = None\<rparr>"
  let ?key = "alias_key toy_crypto toy_alias"
  have "length (ser_signed toy_codec \<lparr>sr_kind = ?kind, sr_owner = Ed_public toy_crypto sk, sr_seq = created,
      sr_expires_at_ms = now + ttl, sr_body = ?body,
      sr_sig = Ed_sign toy_crypto sk (record_digest toy_crypto ?kind (Ed_public toy_crypto sk) created (now + ttl) ?body ?key)\<rparr>)
      \<le> MAX_PLAINTEXT"
    by (simp add: toy_codec_def length_toy_ser toy_lengths MAX_PLAINTEXT_def opt_fields_def toy_alias_def ascii_def)
  moreover have "valid_alias toy_alias" by code_simp
  ultimately show ?thesis
    using toy_seal [of _ toy_nonce] assms by (simp add: build_alias_record_def Let_def)
qed

theorem alias_verdict_order_independent_witness:
  "verdict (alias_state toy_crypto toy_codec toy_alias [[1], [2]] 5) =
   verdict (alias_state toy_crypto toy_codec toy_alias [[2], [1], [2]] 5)"
  by (rule alias_verdict_order_independent) auto

theorem alias_claim_published_witness:
  "\<exists>it. build_alias_record toy_crypto toy_codec toy_nonce [1] toy_alias 5 9 3 None False = Some it \<and>
     alias_state toy_crypto toy_codec toy_alias [p_value it] 6 =
       Claimed \<lparr>ar_owner = Ed_public toy_crypto [1], ar_created_at_ms = 3, ar_expires_at_ms = 5 + 9, ar_payload = None\<rparr>"
proof -
  obtain it where it: "build_alias_record toy_crypto toy_codec toy_nonce [1] toy_alias 5 9 3 None False = Some it"
    using toy_build_alias_record [of 3 5 "[1]" 9 False] by auto
  note own = open_alias_value_build [OF toy_codec_correct toy_aead_correct toy_ed_correct length_toy_nonce it, of 6]
  have "alias_state toy_crypto toy_codec toy_alias [p_value it] 6 =
       Claimed \<lparr>ar_owner = Ed_public toy_crypto [1], ar_created_at_ms = 3, ar_expires_at_ms = 5 + 9, ar_payload = None\<rparr>"
    by (rule alias_claim_published [THEN conjunct2, OF toy_codec_correct toy_aead_correct toy_ed_correct length_toy_nonce it])
      (use own in simp_all)
  with it show ?thesis by blast
qed

theorem alias_claimed_sound_witness:
  "\<exists>v r. alias_state toy_crypto toy_codec toy_alias [v] 6 = Claimed r \<and> ar_created_at_ms r \<le> 6 \<and> 6 < ar_expires_at_ms r"
proof -
  obtain it where it: "build_alias_record toy_crypto toy_codec toy_nonce [1] toy_alias 5 9 3 None False = Some it"
    using toy_build_alias_record [of 3 5 "[1]" 9 False] by auto
  note own = open_alias_value_build [OF toy_codec_correct toy_aead_correct toy_ed_correct length_toy_nonce it, of 6]
  have "\<exists>r. alias_state toy_crypto toy_codec toy_alias [p_value it] 6 = Claimed r"
    by (rule exI, rule alias_state_winner) (use own build_alias_record_key [OF it] in auto)
  with alias_claimed_sound show ?thesis by blast
qed

theorem alias_burn_overridden_witness:
  "\<exists>t c. (\<exists>b. ar_owner b = Ed_public toy_crypto [1] \<and> alias_state toy_crypto toy_codec toy_alias [t] 6 = Revoked b) \<and>
         (\<exists>r. ar_owner r = Ed_public toy_crypto [2] \<and> alias_state toy_crypto toy_codec toy_alias [t, c] 6 = Claimed r)"
proof -
  obtain tb where tb: "alias_tombstone_record toy_crypto toy_codec toy_nonce [1] toy_alias 5 = Some tb"
    using toy_build_alias_record [of 5 5 "[1]" ALIAS_TOMBSTONE_TTL_MS True] by (auto simp: alias_tombstone_record_def)
  obtain c where c: "alias_claim_record toy_crypto toy_codec toy_nonce [2] toy_alias 6 None = Some c"
    using toy_build_alias_record [of 6 6 "[2]" ALIAS_CLAIM_TTL_MS False] by (auto simp: alias_claim_record_def)
  have "Ed_public toy_crypto [1] \<noteq> Ed_public toy_crypto [2]" by (simp add: toy_crypto_def fit_def)
  from alias_burn_overridden [OF toy_codec_correct toy_aead_correct toy_ed_correct length_toy_nonce length_toy_nonce tb c this, of 6]
  show ?thesis by (auto simp: ALIAS_TOMBSTONE_TTL_MS_def ALIAS_CLAIM_TTL_MS_def DAY_MS_def)
qed

text \<open>The relay address of the witnesses; a single value under the key is the whole network.\<close>

definition toy_relay :: bytes where
  "toy_relay = ascii ''r''"

lemma toy_published_only:
  assumes "address_record toy_crypto toy_codec toy_nonce [1] [4] 5 toy_relay = Some it"
  shows "\<forall>x \<in> set (valid_records toy_crypto toy_codec [4] (ascii ''addr'') (p_key it) KIND_ADDRESS
           (Ed_public toy_crypto [1]) [p_value it] t). x \<noteq> (5, toy_relay) \<longrightarrow> fst x < 5"
proof -
  have b: "build_record toy_crypto toy_codec toy_nonce [1] [4] (ascii ''addr'') (p_key it) KIND_ADDRESS 5 ADDRESS_TTL_MS toy_relay = Some it"
    using assms by (auto simp: address_record_def build_record_def Let_def)
  have "r = s" if "r \<in> opened toy_crypto toy_codec [4] (ascii ''addr'') (p_key it) [p_value it]"
    "s \<in> opened toy_crypto toy_codec [4] (ascii ''addr'') (p_key it) [p_value it]" for r s
    using that by (auto simp: opened_def)
  with opened_build_record [OF toy_codec_correct toy_aead_correct length_toy_nonce b, of "[p_value it]"]
  show ?thesis by (force simp: set_valid_records)
qed

lemma toy_address: "\<exists>it. address_record toy_crypto toy_codec toy_nonce [1] [4] 5 toy_relay = Some it"
  using toy_build_record [of toy_relay "[1]" "[4]" "ascii ''addr''"]
  by (simp add: address_record_def Let_def toy_relay_def ascii_def)

lemma toy_relay_ok: "utf8_valid toy_relay" "trim toy_relay \<noteq> []"
  by code_simp+

theorem address_publish_found_witness:
  "\<exists>it. address_record toy_crypto toy_codec toy_nonce [1] [4] 5 toy_relay = Some it \<and>
     open_address_record toy_crypto toy_codec [4] (Ed_public toy_crypto [1]) [p_value it] 6 = Some (toy_relay, 5)"
proof -
  obtain it where it: "address_record toy_crypto toy_codec toy_nonce [1] [4] 5 toy_relay = Some it"
    using toy_address by blast
  have "open_address_record toy_crypto toy_codec [4] (Ed_public toy_crypto [1]) [p_value it] 6 = Some (toy_relay, 5)"
    by (rule address_publish_found [THEN conjunct2, OF toy_codec_correct toy_aead_correct toy_ed_correct
          length_toy_nonce it _ _ toy_relay_ok toy_published_only [OF it]])
      (simp_all add: ADDRESS_TTL_MS_def)
  with it show ?thesis by blast
qed

theorem address_records_spec_witness:
  "\<exists>v. let found = open_address_records toy_crypto toy_codec [4] (Ed_public toy_crypto [1]) [v] 6;
           live = live_addresses toy_crypto toy_codec [4] (Ed_public toy_crypto [1]) [v] 6 in
     live \<noteq> {} \<and> set found \<subseteq> live \<and> length found \<le> MAX_PUBLISHED_RELAYS"
proof -
  obtain it where it: "address_record toy_crypto toy_codec toy_nonce [1] [4] 5 toy_relay = Some it"
    using toy_address by blast
  let ?k = "addr_key toy_crypto [4] (Ed_public toy_crypto [1])"
  have b: "build_record toy_crypto toy_codec toy_nonce [1] [4] (ascii ''addr'') ?k KIND_ADDRESS 5 ADDRESS_TTL_MS toy_relay = Some it"
    using it by (simp add: address_record_def Let_def)
  have "(5, toy_relay) \<in> set (valid_records toy_crypto toy_codec [4] (ascii ''addr'') ?k KIND_ADDRESS (Ed_public toy_crypto [1]) [p_value it] 6)"
    by (rule published_in_valid_records [OF toy_codec_correct toy_aead_correct toy_ed_correct length_toy_nonce b])
      (simp_all add: ADDRESS_TTL_MS_def)
  then have "(toy_relay, 5) \<in> live_addresses toy_crypto toy_codec [4] (Ed_public toy_crypto [1]) [p_value it] 6"
    using toy_relay_ok by (auto simp: set_valid_records live_addresses_def)
  with address_records_spec [of toy_crypto toy_codec "[4]" "Ed_public toy_crypto [1]" "[p_value it]" 6]
  show ?thesis unfolding Let_def by blast
qed

theorem mail_roundtrip_witness:
  "\<exists>it. mail toy_crypto toy_codec [1] toy_nonce [2] [3] 5 [8, 9] = Some it \<and>
     open_mail toy_crypto toy_codec [2] (p_key it) (p_value it) = Some \<lparr>om_envelope = [8, 9], om_delete_token = [1]\<rparr> \<and>
     p_key it \<in> set (mail_keys_to_poll toy_crypto [2] [3] 6 8)"
proof -
  have "length (mail_plain toy_codec [1] [8, 9]) \<le> MAX_PLAINTEXT"
    by (simp add: mail_plain_def toy_codec_def length_toy_ser MAX_PLAINTEXT_def)
  then obtain it where it: "mail toy_crypto toy_codec [1] toy_nonce [2] [3] 5 [8, 9] = Some it"
    using toy_seal [of "mail_plain toy_codec [1] [8, 9]" toy_nonce "[2]" "ascii ''mail''"]
    by (fastforce simp: mail_def Let_def)
  have d: "day_of 5 = 0" "day_of 6 = 0" by (code_simp)+
  from mail_roundtrip [OF toy_codec_correct toy_aead_correct length_toy_nonce it, of 6 8] it d
  show ?thesis by auto
qed

theorem intro_roundtrip_witness:
  "\<exists>it. intro_letter toy_crypto toy_codec [7] [1] toy_nonce [3] (X25519_pub toy_crypto [2]) 5 [8, 9] = Some it \<and>
     open_intro toy_crypto toy_codec [2] (p_key it) (p_value it) = Some \<lparr>om_envelope = [8, 9], om_delete_token = [7]\<rparr> \<and>
     p_key it \<in> set (intro_keys_to_poll toy_crypto [3] (X25519_pub toy_crypto [2]) 6 8)"
proof -
  have "length (mail_plain toy_codec [7] [8, 9]) \<le> MAX_PLAINTEXT"
    by (simp add: mail_plain_def toy_codec_def length_toy_ser MAX_PLAINTEXT_def)
  then obtain it where it: "intro_letter toy_crypto toy_codec [7] [1] toy_nonce [3] (X25519_pub toy_crypto [2]) 5 [8, 9] = Some it"
    using toy_seal_to [of "mail_plain toy_codec [7] [8, 9]" toy_nonce] by (fastforce simp: intro_letter_def Let_def)
  have d: "day_of 5 = 0" "day_of 6 = 0" by (code_simp)+
  from intro_roundtrip [OF toy_codec_correct toy_aead_correct toy_dh_commutes toy_public_len length_toy_nonce it, of 6 8] it d
  show ?thesis by auto
qed

end
