(* ===== verification/Dht_Node.thy ===== *)
theory Dht_Node
  imports Dht_Items
begin

text \<open>
  \<open>dht/src/node.rs\<close>: a node of the relay network. It answers other nodes (\<open>handle\<close>), keeps a table
  of known nodes, and finds, stores and fetches items across the network.

  \<^item> The storage is a parameter (the record \<open>storage\<close> of \<open>Dht_Store\<close>), as \<open>S: Storage\<close> is in the
    source; what the node relies on of it is the locale \<open>dht_storage\<close>.
  \<^item> The transport is code outside \<open>dht/\<close>: the record \<open>net\<close> holds its two calls and the clock as
    functions of a state of the world that is left open. A dial or a call that fails or times out
    is \<open>None\<close>; nothing is assumed of what the network answers.
  \<^item> Calls the source runs concurrently with \<open>join_all\<close> run one after the other, in the order in
    which the source lists them. \<open>handle\<close> reads the clock once.
  \<^item> A loop whose end the network decides takes fuel, and running out of it is \<open>None\<close>.
  \<^item> \<open>probe_order\<close>, which counts events, and counters of failures and bytes are \<open>nat\<close>.
\<close>

record 'w net =
  net_open :: "'w \<Rightarrow> bytes \<Rightarrow> bytes option \<times> 'w"
  net_call :: "'w \<Rightarrow> bytes \<Rightarrow> DhtEnvelope \<Rightarrow> DhtResponse option \<times> 'w"
  net_now :: "'w \<Rightarrow> u64"

record NodeConfig =
  cfg_k :: nat
  alpha :: nat
  pow_difficulty :: nat
  max_peers :: nat
  dial_timeout_s :: nat
  call_timeout_s :: nat
  max_failures :: nat
  max_get_bytes :: nat

definition default_config :: NodeConfig where
  "default_config = \<lparr>cfg_k = 8, alpha = 3, pow_difficulty = 18, max_peers = 2048,
     dial_timeout_s = 60, call_timeout_s = 120, max_failures = 3, max_get_bytes = 8 * 1024 * 1024\<rparr>"

record Peer =
  pe_info :: NodeInfo
  pe_confirmed :: bool
  pe_failures :: nat
  pe_seed :: bool
  pe_first_seen_ms :: u64
  pe_last_ok_ms :: u64
  pe_last_probe_order :: nat

record KnownPeer =
  kp_info :: NodeInfo
  kp_first_seen_ms :: u64
  kp_last_ok_ms :: u64

type_synonym peers = "(bytes \<times> Peer) list"

record 's Node =
  nd_me :: "NodeInfo option"
  nd_storage :: 's
  nd_peers :: peers
  nd_probe_order :: nat

definition distance :: "DhtKey \<Rightarrow> DhtKey \<Rightarrow> DhtKey" where
  "distance a b = map2 (XOR) a b"

definition new_node :: "'s \<Rightarrow> 's Node" where
  "new_node st = \<lparr>nd_me = None, nd_storage = st, nd_peers = [], nd_probe_order = 1\<rparr>"

definition set_me :: "NodeInfo option \<Rightarrow> 's Node \<Rightarrow> 's Node" where
  "set_me m nd = nd\<lparr>nd_me := m\<rparr>"

definition node_stores :: "'s Node \<Rightarrow> bool" where
  "node_stores nd = (case nd_me nd of None \<Rightarrow> False | Some m \<Rightarrow> stores m)"

section \<open>The table of known nodes\<close>

definition victim :: "peers \<Rightarrow> bytes option" where
  "victim ps =
     map_option fst (min_by_key (\<lambda>(d, p). (pe_confirmed p, pe_last_ok_ms p))
       (filter (\<lambda>(d, p). \<not> pe_seed p) ps))"

lemma victim_in: "victim ps = Some d \<Longrightarrow> \<exists>p. (d, p) \<in> set ps \<and> \<not> pe_seed p"
  by (auto simp: victim_def dest!: min_by_key_Some)

lemma length_hm_remove_in: "(d, p) \<in> set ps \<Longrightarrow> length (hm_remove d ps) < length ps"
  by (auto simp: hm_remove_filter intro!: length_filter_less)

function trim_peers :: "NodeConfig \<Rightarrow> peers \<Rightarrow> peers" where
  "trim_peers cfg ps =
     (if length ps > max_peers cfg then
        (case victim ps of
           Some d \<Rightarrow> trim_peers cfg (hm_remove d ps)
         | None \<Rightarrow> ps)
      else ps)"
  by pat_completeness auto
termination
  by (relation "measure (\<lambda>(cfg, ps). length ps)") (auto dest!: victim_in intro: length_hm_remove_in)

declare trim_peers.simps [simp del]

text \<open>
  One turn of the loop of \<open>add_candidates\<close>. The argument of \<open>or_insert\<close> is evaluated, and with it
  the counter advanced, whether or not the entry exists.
\<close>

definition add_candidate :: "u64 \<Rightarrow> bool \<Rightarrow> 's Node \<Rightarrow> bytes \<Rightarrow> 's Node" where
  "add_candidate now seed nd d0 =
     (let d = trim d0 in
      if d = [] \<or> map_option destination (nd_me nd) = Some d then nd
      else nd\<lparr>nd_peers :=
                (case hm_get (nd_peers nd) d of
                   Some p \<Rightarrow> hm_modify d (\<lambda>p. p\<lparr>pe_seed := pe_seed p \<or> seed\<rparr>) (nd_peers nd)
                 | None \<Rightarrow> hm_insert d
                     \<lparr>pe_info = \<lparr>destination = d, stores = True, version = PROTOCOL_VERSION\<rparr>,
                      pe_confirmed = False, pe_failures = 0, pe_seed = seed, pe_first_seen_ms = now,
                      pe_last_ok_ms = 0, pe_last_probe_order = nd_probe_order nd\<rparr> (nd_peers nd)),
              nd_probe_order := nd_probe_order nd + 1\<rparr>)"

definition add_candidates :: "NodeConfig \<Rightarrow> u64 \<Rightarrow> bytes list \<Rightarrow> bool \<Rightarrow> 's Node \<Rightarrow> 's Node" where
  "add_candidates cfg now destinations seed nd =
     (let nd1 = foldl (add_candidate now seed) nd destinations
      in nd1\<lparr>nd_peers := trim_peers cfg (nd_peers nd1)\<rparr>)"

definition known_peers :: "'s Node \<Rightarrow> KnownPeer list" where
  "known_peers nd =
     map (\<lambda>p. \<lparr>kp_info = pe_info p, kp_first_seen_ms = pe_first_seen_ms p, kp_last_ok_ms = pe_last_ok_ms p\<rparr>)
       (filter pe_confirmed (map snd (nd_peers nd)))"

definition peer_count :: "'s Node \<Rightarrow> nat" where
  "peer_count nd = length (filter pe_confirmed (map snd (nd_peers nd)))"

definition table_len :: "'s Node \<Rightarrow> nat" where
  "table_len nd = length (nd_peers nd)"

definition learned_peer :: "NodeInfo \<Rightarrow> bool \<Rightarrow> u64 \<Rightarrow> nat \<Rightarrow> Peer \<Rightarrow> Peer" where
  "learned_peer info confirmed now ord p =
     (let p1 = (if confirmed \<or> \<not> pe_confirmed p then p\<lparr>pe_info := info\<rparr> else p)
      in if confirmed
         then p1\<lparr>pe_confirmed := True, pe_failures := 0, pe_last_ok_ms := now, pe_last_probe_order := ord\<rparr>
         else p1)"

definition learn :: "NodeConfig \<Rightarrow> u64 \<Rightarrow> NodeInfo \<Rightarrow> bool \<Rightarrow> 's Node \<Rightarrow> 's Node" where
  "learn cfg now info confirmed nd =
     (if version info \<noteq> PROTOCOL_VERSION \<or> destination info = [] then nd
      else if map_option destination (nd_me nd) = Some (destination info) then nd
      else
        (let (ps, order) =
           (case hm_get (nd_peers nd) (destination info) of
              Some p \<Rightarrow>
                (hm_modify (destination info) (learned_peer info confirmed now (nd_probe_order nd)) (nd_peers nd),
                 if confirmed then nd_probe_order nd + 1 else nd_probe_order nd)
            | None \<Rightarrow>
                (hm_insert (destination info)
                   \<lparr>pe_info = info, pe_confirmed = confirmed, pe_failures = 0, pe_seed = False,
                    pe_first_seen_ms = now, pe_last_ok_ms = (if confirmed then now else 0),
                    pe_last_probe_order = nd_probe_order nd\<rparr> (nd_peers nd),
                 nd_probe_order nd + 1))
         in nd\<lparr>nd_peers := trim_peers cfg ps, nd_probe_order := order\<rparr>))"

definition failed :: "NodeConfig \<Rightarrow> bytes \<Rightarrow> 's Node \<Rightarrow> 's Node" where
  "failed cfg dest nd =
     (case hm_get (nd_peers nd) dest of
        None \<Rightarrow> nd
      | Some p \<Rightarrow>
          nd\<lparr>nd_peers :=
               (if pe_failures p + 1 \<ge> max_failures cfg \<and> \<not> pe_seed p
                then hm_remove dest (nd_peers nd)
                else hm_modify dest (\<lambda>p. p\<lparr>pe_failures := pe_failures p + 1\<rparr>) (nd_peers nd))\<rparr>)"

definition forget :: "bytes \<Rightarrow> 's Node \<Rightarrow> 's Node" where
  "forget dest nd = nd\<lparr>nd_peers := hm_remove dest (nd_peers nd)\<rparr>"

definition by_distance :: "crypto \<Rightarrow> DhtKey \<Rightarrow> NodeInfo list \<Rightarrow> NodeInfo list" where
  "by_distance C target = sort_key (\<lambda>i. distance (NodeInfo_id C i) target)"

definition usable :: "bool \<Rightarrow> Peer \<Rightarrow> bool" where
  "usable storing_only p \<longleftrightarrow> \<not> storing_only \<or> stores (pe_info p)"

definition closest_to_share :: "crypto \<Rightarrow> 's Node \<Rightarrow> DhtKey \<Rightarrow> nat \<Rightarrow> bool \<Rightarrow> NodeInfo list" where
  "closest_to_share C nd target n storing_only =
     (let ps = filter (usable storing_only) (map snd (nd_peers nd));
          conf = take n (by_distance C target
                   (map pe_info (filter (\<lambda>p. pe_confirmed p \<and> pe_failures p = 0) ps)))
      in if length conf < n
         then (let rest = by_distance C target
                     (map pe_info (filter (\<lambda>p. \<not> pe_confirmed p \<and> pe_failures p = 0) ps))
               in conf @ take (n - length conf) rest)
         else conf)"

definition closest :: "crypto \<Rightarrow> 's Node \<Rightarrow> DhtKey \<Rightarrow> nat \<Rightarrow> bool \<Rightarrow> NodeInfo list" where
  "closest C nd target n storing_only =
     (let ps = filter (usable storing_only) (map snd (nd_peers nd));
          fresh = map pe_info (filter (\<lambda>p. pe_failures p = 0) ps);
          lst = (if fresh = [] then map pe_info ps else fresh)
      in take n (by_distance C target lst))"

section \<open>Answering other nodes\<close>

fun get_page :: "nat \<Rightarrow> StoredItem list \<Rightarrow> nat \<Rightarrow> StoredItem list \<Rightarrow> StoredItem list \<times> bool" where
  "get_page limit items used [] = (items, False)"
| "get_page limit items used (it # rest) =
     (if items \<noteq> [] \<and> used + item_len it > limit then (items, True)
      else get_page limit (items @ [it]) (used + item_len it) rest)"

definition store_error_text :: "StoreError \<Rightarrow> string" where
  "store_error_text e = (case e of TooLarge \<Rightarrow> ''item too large'' | Expired \<Rightarrow> ''already expired''
                         | Backend msg \<Rightarrow> ''store failed: '' @ msg)"

definition handle ::
  "crypto \<Rightarrow> NodeConfig \<Rightarrow> 's storage \<Rightarrow> u64 \<Rightarrow> bytes \<Rightarrow> DhtEnvelope \<Rightarrow> 's Node \<Rightarrow> DhtResponse \<times> 's Node" where
  "handle C cfg S now challenge env nd0 =
     (let nd = (case env_from env of Some from \<Rightarrow> learn cfg now from False nd0 | None \<Rightarrow> nd0) in
      case env_req env of
        Ping \<Rightarrow> (case nd_me nd of Some node \<Rightarrow> (Pong node, nd) | None \<Rightarrow> (Error ''not a node'', nd))
      | FindNode target \<Rightarrow> (Nodes (nd_me nd) (closest_to_share C nd target (cfg_k cfg) False), nd)
      | Get key skip \<Rightarrow>
          (let closer = closest_to_share C nd key (cfg_k cfg) True in
           if \<not> node_stores nd then (Items [] False closer, nd)
           else (let all = s_get S (nd_storage nd) key now;
                     (items, more_left) = get_page (max_get_bytes cfg) [] 0 (drop (unat skip) all)
                 in (Items items more_left closer, nd)))
      | Store item pow \<Rightarrow>
          (if \<not> node_stores nd then (Error ''this node does not store'', nd)
           else if \<not> pow_ok C challenge item pow (pow_difficulty cfg) then (Error ''insufficient work'', nd)
           else (case s_put S (nd_storage nd) item now of
                   Inr st \<Rightarrow> (Stored, nd\<lparr>nd_storage := st\<rparr>)
                 | Inl e \<Rightarrow> (Error (store_error_text e), nd)))
      | Delete key token \<Rightarrow>
          (let (st, n) = s_delete S (nd_storage nd) key token in (Deleted n, nd\<lparr>nd_storage := st\<rparr>)))"

section \<open>Asking other nodes\<close>

definition envelope :: "'s Node \<Rightarrow> DhtRequest \<Rightarrow> DhtEnvelope" where
  "envelope nd req = \<lparr>env_from = nd_me nd, env_req = req\<rparr>"

text \<open>The counter is advanced, and the peer moved to the tail of the probe order, if it is in the table.\<close>

definition touch :: "bytes \<Rightarrow> 's Node \<Rightarrow> 's Node" where
  "touch dest nd =
     (case hm_get (nd_peers nd) dest of
        None \<Rightarrow> nd
      | Some _ \<Rightarrow>
          nd\<lparr>nd_peers := hm_modify dest (\<lambda>p. p\<lparr>pe_last_probe_order := nd_probe_order nd\<rparr>) (nd_peers nd),
             nd_probe_order := nd_probe_order nd + 1\<rparr>)"

definition dht_open :: "NodeConfig \<Rightarrow> 'w net \<Rightarrow> bytes \<Rightarrow> 's Node \<times> 'w \<Rightarrow> bytes option \<times> 's Node \<times> 'w" where
  "dht_open cfg N dest s =
     (let nd = touch dest (fst s) in
      case net_open N (snd s) dest of
        (Some challenge, w) \<Rightarrow> (Some challenge, nd, w)
      | (None, w) \<Rightarrow> (None, failed cfg dest nd, w))"

definition exchange ::
  "NodeConfig \<Rightarrow> 'w net \<Rightarrow> bytes \<Rightarrow> DhtRequest \<Rightarrow> 's Node \<times> 'w \<Rightarrow> DhtResponse option \<times> 's Node \<times> 'w" where
  "exchange cfg N dest req s =
     (case net_call N (snd s) dest (envelope (fst s) req) of
        (Some r, w) \<Rightarrow> (Some r, fst s, w)
      | (None, w) \<Rightarrow> (None, failed cfg dest (fst s), w))"

definition ask ::
  "NodeConfig \<Rightarrow> 'w net \<Rightarrow> bytes \<Rightarrow> DhtRequest \<Rightarrow> 's Node \<times> 'w \<Rightarrow> DhtResponse option \<times> 's Node \<times> 'w" where
  "ask cfg N dest req s =
     (case dht_open cfg N dest s of
        (None, s1) \<Rightarrow> (None, s1)
      | (Some _, s1) \<Rightarrow> exchange cfg N dest req s1)"

text \<open>\<open>join_all\<close> over a list of destinations, the state threaded through.\<close>

fun map_state :: "('a \<Rightarrow> 'st \<Rightarrow> 'b \<times> 'st) \<Rightarrow> 'a list \<Rightarrow> 'st \<Rightarrow> 'b list \<times> 'st" where
  "map_state f [] s = ([], s)"
| "map_state f (x # xs) s =
     (let (y, s1) = f x s; (ys, s2) = map_state f xs s1 in (y # ys, s2))"

definition ping :: "NodeConfig \<Rightarrow> 'w net \<Rightarrow> bytes \<Rightarrow> 's Node \<times> 'w \<Rightarrow> bool \<times> 's Node \<times> 'w" where
  "ping cfg N dest s =
     (case ask cfg N dest Ping s of
        (Some (Pong node), nd, w) \<Rightarrow>
          if destination node = dest then (True, learn cfg (net_now N w) node True nd, w)
          else (False, forget dest nd, w)
      | (Some _, nd, w) \<Rightarrow> (False, forget dest nd, w)
      | (None, s1) \<Rightarrow> (False, s1))"

section \<open>Lookups\<close>

type_synonym answers = "(bytes \<times> NodeInfo) list"

text \<open>What a lookup does with one reply: \<open>n\<close> is the node that was asked.\<close>

definition take_reply ::
  "NodeConfig \<Rightarrow> u64 \<Rightarrow> answers \<times> 's Node \<Rightarrow> NodeInfo \<times> DhtResponse option \<Rightarrow> answers \<times> 's Node" where
  "take_reply cfg now acc nr =
     (let (answered, nd) = acc; (n, reply) = nr in
      case reply of
        Some (Nodes me nodes) \<Rightarrow>
          (case me of
             Some m \<Rightarrow>
               if destination m = destination n
               then (hm_insert (destination n) m answered,
                     foldl (\<lambda>nd i. learn cfg now i False nd) (learn cfg now m True nd) nodes)
               else (answered, forget (destination n) nd)
           | None \<Rightarrow> (answered, forget (destination n) nd))
      | _ \<Rightarrow> (answered, nd))"

definition next_batch :: "crypto \<Rightarrow> NodeConfig \<Rightarrow> DhtKey \<Rightarrow> bytes list \<Rightarrow> 's Node \<Rightarrow> NodeInfo list" where
  "next_batch C cfg target queried nd =
     take (alpha cfg)
       (filter (\<lambda>n. destination n \<notin> set queried) (closest C nd target (cfg_k cfg * 2) False))"

definition k_closest_asked :: "crypto \<Rightarrow> NodeConfig \<Rightarrow> DhtKey \<Rightarrow> bytes list \<Rightarrow> 's Node \<Rightarrow> bool" where
  "k_closest_asked C cfg target queried nd =
     list_all (\<lambda>n. destination n \<in> set queried) (closest C nd target (cfg_k cfg) False)"

definition find_node_at ::
  "NodeConfig \<Rightarrow> 'w net \<Rightarrow> DhtKey \<Rightarrow> NodeInfo \<Rightarrow> 's Node \<times> 'w \<Rightarrow>
     (NodeInfo \<times> DhtResponse option) \<times> 's Node \<times> 'w" where
  "find_node_at cfg N target n s =
     (let (r, s1) = ask cfg N (destination n) (FindNode target) s in ((n, r), s1))"

definition lookup_round ::
  "NodeConfig \<Rightarrow> 'w net \<Rightarrow> DhtKey \<Rightarrow> NodeInfo list \<Rightarrow> answers \<Rightarrow> 's Node \<times> 'w \<Rightarrow> answers \<times> 's Node \<times> 'w" where
  "lookup_round cfg N target batch answered s =
     (let (replies, nd, w) = map_state (find_node_at cfg N target) batch s;
          (answered1, nd1) = foldl (take_reply cfg (net_now N w)) (answered, nd) replies
      in (answered1, nd1, w))"

fun lookup_loop ::
  "crypto \<Rightarrow> NodeConfig \<Rightarrow> 'w net \<Rightarrow> DhtKey \<Rightarrow> nat \<Rightarrow> bytes list \<Rightarrow> answers \<Rightarrow> 's Node \<times> 'w \<Rightarrow>
     (answers \<times> bytes list \<times> 's Node \<times> 'w) option" where
  "lookup_loop C cfg N target 0 queried answered s = None"
| "lookup_loop C cfg N target (Suc fuel) queried answered s =
     (let batch = next_batch C cfg target queried (fst s) in
      if batch = [] \<or> k_closest_asked C cfg target queried (fst s) then Some (answered, queried, s)
      else (let (answered1, s1) = lookup_round cfg N target batch answered s
            in lookup_loop C cfg N target fuel (fold (\<lambda>n. List.insert (destination n)) batch queried)
                 answered1 s1))"

definition lookup ::
  "crypto \<Rightarrow> NodeConfig \<Rightarrow> 'w net \<Rightarrow> nat \<Rightarrow> DhtKey \<Rightarrow> 's Node \<times> 'w \<Rightarrow> (NodeInfo list \<times> 's Node \<times> 'w) option" where
  "lookup C cfg N fuel target s =
     map_option (\<lambda>(answered, _, s1). (take (cfg_k cfg) (by_distance C target (map snd answered)), s1))
       (lookup_loop C cfg N target fuel [] [] s)"

definition bootstrap ::
  "crypto \<Rightarrow> NodeConfig \<Rightarrow> 'w net \<Rightarrow> nat \<Rightarrow> bytes \<Rightarrow> 's Node \<times> 'w \<Rightarrow> ('s Node \<times> 'w) option" where
  "bootstrap C cfg N fuel random_32 s =
     (let pending = map (\<lambda>p. destination (pe_info p)) (filter (\<lambda>p. \<not> pe_confirmed p) (map snd (nd_peers (fst s))));
          (_, s1) = map_state (ping cfg N) pending s;
          target = (case nd_me (fst s1) of Some m \<Rightarrow> NodeInfo_id C m | None \<Rightarrow> random_32)
      in map_option snd (lookup C cfg N fuel target s1))"

section \<open>Storing, fetching and deleting\<close>

text \<open>\<open>solve_pow\<close> runs in a blocking task; where it panics the task fails and \<open>store_at\<close> is false.\<close>

definition store_at ::
  "crypto \<Rightarrow> NodeConfig \<Rightarrow> 'w net \<Rightarrow> StoredItem \<Rightarrow> NodeInfo \<Rightarrow> 's Node \<times> 'w \<Rightarrow> bool \<times> 's Node \<times> 'w" where
  "store_at C cfg N item node s =
     (case dht_open cfg N (destination node) s of
        (None, s1) \<Rightarrow> (False, s1)
      | (Some challenge, s1) \<Rightarrow>
          (case solve_pow C challenge item (pow_difficulty cfg) of
             None \<Rightarrow> (False, s1)
           | Some pow \<Rightarrow>
               (let (r, s2) = exchange cfg N (destination node) (Store item pow) s1
                in (r = Some Stored, s2))))"

definition seed_storing_nodes :: "'s Node \<Rightarrow> NodeInfo list" where
  "seed_storing_nodes nd =
     map pe_info
       (filter (\<lambda>p. Some (destination (pe_info p)) \<noteq> map_option destination (nd_me nd))
         (filter (\<lambda>p. pe_seed p \<and> stores (pe_info p) \<and> pe_failures p = 0) (map snd (nd_peers nd))))"

definition add_target :: "NodeInfo list \<Rightarrow> NodeInfo \<Rightarrow> NodeInfo list" where
  "add_target targets seed =
     (if list_ex (\<lambda>t. destination t = destination seed) targets then targets else targets @ [seed])"

text \<open>The storing nodes that answered a lookup, and the seeds: where items are put, read and deleted.\<close>

definition item_targets ::
  "crypto \<Rightarrow> NodeConfig \<Rightarrow> 'w net \<Rightarrow> nat \<Rightarrow> DhtKey \<Rightarrow> 's Node \<times> 'w \<Rightarrow> (NodeInfo list \<times> 's Node \<times> 'w) option" where
  "item_targets C cfg N fuel key s =
     map_option (\<lambda>(found, s1). (foldl add_target (filter stores found) (seed_storing_nodes (fst s1)), s1))
       (lookup C cfg N fuel key s)"

definition dht_put ::
  "crypto \<Rightarrow> NodeConfig \<Rightarrow> 's storage \<Rightarrow> 'w net \<Rightarrow> nat \<Rightarrow> StoredItem \<Rightarrow> 's Node \<times> 'w \<Rightarrow> (nat \<times> 's Node \<times> 'w) option" where
  "dht_put C cfg S N fuel item s =
     (let nd = fst s; now = net_now N (snd s);
          nd1 = (if node_stores nd
                 then (case s_put S (nd_storage nd) item now of Inr st \<Rightarrow> nd\<lparr>nd_storage := st\<rparr> | Inl _ \<Rightarrow> nd)
                 else nd)
      in case item_targets C cfg N fuel (item_key item) (nd1, snd s) of
           None \<Rightarrow> None
         | Some (targets, s1) \<Rightarrow>
             (let (results, s2) = map_state (store_at C cfg N item) targets s1
              in Some (length (filter id results), s2)))"

fun items_at_loop ::
  "NodeConfig \<Rightarrow> 'w net \<Rightarrow> bytes \<Rightarrow> DhtKey \<Rightarrow> nat \<Rightarrow> StoredItem list \<Rightarrow> 's Node \<times> 'w \<Rightarrow>
     (StoredItem list option \<times> 's Node \<times> 'w) option" where
  "items_at_loop cfg N dest key 0 out s = None"
| "items_at_loop cfg N dest key (Suc fuel) out s =
     (case exchange cfg N dest (Get key (of_nat (length out))) s of
        (Some (Items items more_left closer), nd, w) \<Rightarrow>
          (let s1 = (foldl (\<lambda>nd c. learn cfg (net_now N w) c False nd) nd closer, w) in
           if \<not> more_left \<or> items = [] then Some (Some (out @ items), s1)
           else items_at_loop cfg N dest key fuel (out @ items) s1)
      | (_, s1) \<Rightarrow> Some (None, s1))"

definition items_at ::
  "NodeConfig \<Rightarrow> 'w net \<Rightarrow> nat \<Rightarrow> DhtKey \<Rightarrow> NodeInfo \<Rightarrow> 's Node \<times> 'w \<Rightarrow>
     (StoredItem list option \<times> 's Node \<times> 'w) option" where
  "items_at cfg N fuel key node s =
     (case dht_open cfg N (destination node) s of
        (None, s1) \<Rightarrow> Some (None, s1)
      | (Some _, s1) \<Rightarrow> items_at_loop cfg N (destination node) key fuel [] s1)"

text \<open>\<open>join_all\<close> over computations that may run out of fuel.\<close>

fun map_fuel :: "('a \<Rightarrow> 'st \<Rightarrow> ('b \<times> 'st) option) \<Rightarrow> 'a list \<Rightarrow> 'st \<Rightarrow> ('b list \<times> 'st) option" where
  "map_fuel f [] s = Some ([], s)"
| "map_fuel f (x # xs) s =
     (case f x s of
        None \<Rightarrow> None
      | Some (y, s1) \<Rightarrow> (case map_fuel f xs s1 of None \<Rightarrow> None | Some (ys, s2) \<Rightarrow> Some (y # ys, s2)))"

text \<open>The closure \<open>take\<close> of \<open>get\<close>: \<open>seen\<close> are the hashes of the values already collected.\<close>

fun take_items :: "crypto \<Rightarrow> DhtKey \<Rightarrow> u64 \<Rightarrow> bytes list \<times> StoredItem list \<Rightarrow> StoredItem list \<Rightarrow> bytes list \<times> StoredItem list" where
  "take_items C key now (seen, out) [] = (seen, out)"
| "take_items C key now (seen, out) (it # rest) =
     (if item_key it = key \<and> item_expires_at_ms it > now \<and> sha256 C [item_value it] \<notin> set seen
      then take_items C key now (sha256 C [item_value it] # seen, out @ [it]) rest
      else take_items C key now (seen, out) rest)"

definition get_batch :: "nat \<Rightarrow> bytes list \<Rightarrow> NodeInfo list \<Rightarrow> NodeInfo list" where
  "get_batch budget queried targets =
     take (budget - length queried) (filter (\<lambda>n. destination n \<notin> set queried) targets)"

abbreviation mark :: "NodeInfo list \<Rightarrow> bytes list \<Rightarrow> bytes list" where
  "mark batch queried \<equiv> fold (\<lambda>n. List.insert (destination n)) batch queried"

lemma length_mark_mono: "length queried \<le> length (mark batch queried)"
proof (induction batch arbitrary: queried)
  case (Cons n batch)
  have "length queried \<le> length (List.insert (destination n) queried)" by (simp add: List.insert_def)
  also have "\<dots> \<le> length (mark batch (List.insert (destination n) queried))" by (rule Cons)
  finally show ?case by simp
qed simp

lemma length_mark: "n \<in> set batch \<Longrightarrow> destination n \<notin> set queried \<Longrightarrow> length queried < length (mark batch queried)"
proof (induction batch arbitrary: queried)
  case (Cons m batch)
  show ?case
  proof (cases "destination m \<in> set queried")
    case True
    with Cons show ?thesis by (auto simp: List.insert_def)
  next
    case False
    then have "length queried < length (List.insert (destination m) queried)" by simp
    also have "\<dots> \<le> length (mark batch (List.insert (destination m) queried))" by (rule length_mark_mono)
    finally show ?thesis by simp
  qed
qed simp

lemma get_batch_progress:
  assumes "get_batch budget queried targets \<noteq> []"
  shows "length queried < budget"
    and "length queried < length (mark (get_batch budget queried targets) queried)"
proof -
  show "length queried < budget" using assms by (auto simp: get_batch_def)
  obtain n where "n \<in> set (get_batch budget queried targets)" using assms by (meson list.set_sel(1))
  moreover from this have "destination n \<notin> set queried" by (auto simp: get_batch_def dest: in_set_takeD)
  ultimately show "length queried < length (mark (get_batch budget queried targets) queried)"
    by (rule length_mark)
qed

lemma get_batch_measure:
  "get_batch budget queried targets \<noteq> [] \<Longrightarrow>
     budget - length (mark (get_batch budget queried targets) queried) < budget - length queried"
  using get_batch_progress [of budget queried targets] by (simp add: diff_less_mono2)

function get_loop ::
  "crypto \<Rightarrow> NodeConfig \<Rightarrow> 'w net \<Rightarrow> nat \<Rightarrow> DhtKey \<Rightarrow> u64 \<Rightarrow> nat \<Rightarrow> bytes list \<Rightarrow> NodeInfo list \<Rightarrow>
     bytes list \<times> StoredItem list \<Rightarrow> 's Node \<times> 'w \<Rightarrow> (bytes list \<times> StoredItem list \<times> 's Node \<times> 'w) option" where
  "get_loop C cfg N fuel key now budget queried targets acc s =
     (let batch = get_batch budget queried targets in
      if batch = [] then Some (queried, snd acc, s)
      else (case map_fuel (items_at cfg N fuel key) batch s of
              None \<Rightarrow> None
            | Some (answers, s1) \<Rightarrow>
                get_loop C cfg N fuel key now budget (mark batch queried)
                  (closest C (fst s1) key (cfg_k cfg) True)
                  (foldl (take_items C key now) acc (List.map_filter id answers)) s1))"
  by pat_completeness auto
termination
  by (relation "measure (\<lambda>(C, cfg, N, fuel, key, now, budget, queried, targets, acc, s). budget - length queried)")
    (auto intro: get_batch_measure)

declare get_loop.simps [simp del]

definition dht_get ::
  "crypto \<Rightarrow> NodeConfig \<Rightarrow> 's storage \<Rightarrow> 'w net \<Rightarrow> nat \<Rightarrow> DhtKey \<Rightarrow> 's Node \<times> 'w \<Rightarrow>
     (StoredItem list \<times> 's Node \<times> 'w) option" where
  "dht_get C cfg S N fuel key s =
     (let nd = fst s; now = net_now N (snd s);
          acc = (if node_stores nd then take_items C key now ([], []) (s_get S (nd_storage nd) key now) else ([], []))
      in case item_targets C cfg N fuel key s of
           None \<Rightarrow> None
         | Some (targets, s1) \<Rightarrow>
             map_option snd (get_loop C cfg N fuel key now (cfg_k cfg + length targets) [] targets acc s1))"

definition deleted_count :: "DhtResponse option \<Rightarrow> nat" where
  "deleted_count r = (case r of Some (Deleted d) \<Rightarrow> d | _ \<Rightarrow> 0)"

definition dht_delete ::
  "crypto \<Rightarrow> NodeConfig \<Rightarrow> 's storage \<Rightarrow> 'w net \<Rightarrow> nat \<Rightarrow> DhtKey \<Rightarrow> bytes \<Rightarrow> 's Node \<times> 'w \<Rightarrow>
     (nat \<times> 's Node \<times> 'w) option" where
  "dht_delete C cfg S N fuel key token s =
     (let (st, n) = s_delete S (nd_storage (fst s)) key token in
      case item_targets C cfg N fuel key ((fst s)\<lparr>nd_storage := st\<rparr>, snd s) of
        None \<Rightarrow> None
      | Some (targets, s1) \<Rightarrow>
          (let (rs, s2) = map_state (\<lambda>t. ask cfg N (destination t) (Delete key token)) targets s1
           in Some (n + sum_list (map deleted_count rs), s2)))"

section \<open>Republishing and upkeep\<close>

definition republish_at ::
  "crypto \<Rightarrow> NodeConfig \<Rightarrow> 'w net \<Rightarrow> nat \<Rightarrow> StoredItem \<Rightarrow> NodeInfo \<Rightarrow> 's Node \<times> 'w \<Rightarrow> (bool \<times> 's Node \<times> 'w) option" where
  "republish_at C cfg N fuel item node s =
     (case items_at cfg N fuel (item_key item) node s of
        None \<Rightarrow> None
      | Some (items, s1) \<Rightarrow>
          (let has = (case items of None \<Rightarrow> False
                      | Some its \<Rightarrow> list_ex (\<lambda>i. sha256 C [item_value i] = sha256 C [item_value item]) its)
           in if has then Some (False, s1) else Some (store_at C cfg N item node s1)))"

fun republish_items ::
  "crypto \<Rightarrow> NodeConfig \<Rightarrow> 'w net \<Rightarrow> nat \<Rightarrow> StoredItem list \<Rightarrow> nat \<Rightarrow> 's Node \<times> 'w \<Rightarrow> (nat \<times> 's Node \<times> 'w) option" where
  "republish_items C cfg N fuel [] handed s = Some (handed, s)"
| "republish_items C cfg N fuel (item # rest) handed s =
     (case item_targets C cfg N fuel (item_key item) s of
        None \<Rightarrow> None
      | Some (targets, s1) \<Rightarrow>
          (case map_fuel (republish_at C cfg N fuel item) targets s1 of
             None \<Rightarrow> None
           | Some (results, s2) \<Rightarrow>
               republish_items C cfg N fuel rest (handed + length (filter id results)) s2))"

definition republish ::
  "crypto \<Rightarrow> NodeConfig \<Rightarrow> 's storage \<Rightarrow> 'w net \<Rightarrow> nat \<Rightarrow> 's Node \<times> 'w \<Rightarrow> (nat \<times> 's Node \<times> 'w) option" where
  "republish C cfg S N fuel s =
     (let now = net_now N (snd s); st = s_gc S (nd_storage (fst s)) now
      in republish_items C cfg N fuel (s_all S st now) 0 ((fst s)\<lparr>nd_storage := st\<rparr>, snd s))"

definition probe_list :: "NodeConfig \<Rightarrow> 's Node \<Rightarrow> bytes list" where
  "probe_list cfg nd =
     map snd (take (min (cfg_k cfg * 2) (max_peers cfg))
       (sort (map (\<lambda>(d, p). (pe_last_probe_order p, d)) (nd_peers nd))))"

text \<open>\<open>slice::chunks\<close>.\<close>

function chunks :: "nat \<Rightarrow> 'a list \<Rightarrow> 'a list list" where
  "chunks n xs = (if n = 0 \<or> xs = [] then [] else take n xs # chunks n (drop n xs))"
  by pat_completeness auto
termination
  by (relation "measure (\<lambda>(n, xs). length xs)") auto

declare chunks.simps [simp del]

definition maintain ::
  "NodeConfig \<Rightarrow> 's storage \<Rightarrow> 'w net \<Rightarrow> 's Node \<times> 'w \<Rightarrow> 's Node \<times> 'w" where
  "maintain cfg S N s =
     (let nd = (fst s)\<lparr>nd_storage := s_gc S (nd_storage (fst s)) (net_now N (snd s))\<rparr>;
          probes = probe_list cfg nd;
          nd1 = fold touch probes nd
      in fold (\<lambda>batch s. snd (map_state (ping cfg N) batch s)) (chunks (max (alpha cfg) 1) probes) (nd1, snd s))"

end
