(* ===== verification/Dht_Node_Props.thy ===== *)
theory Dht_Node_Props
  imports Dht_Node "HOL-Library.Multiset"
begin

text \<open>
  What holds of a node of the relay network: the invariant of its table and that every operation
  keeps it (the locale \<open>table_invariant\<close>), what a flood of strangers can and cannot do to the
  table, whom a node vouches for, how answers are paged, when a lookup ends and what it returns,
  and what \<open>handle\<close> does to the storage (in the context of the locale \<open>dht_storage\<close>).
\<close>

section \<open>The invariant of the table\<close>

definition peer_ok :: "NodeConfig \<Rightarrow> bytes \<Rightarrow> Peer \<Rightarrow> bool" where
  "peer_ok cfg d p \<longleftrightarrow>
     destination (pe_info p) = d \<and> d \<noteq> [] \<and> version (pe_info p) = PROTOCOL_VERSION \<and>
     (pe_seed p \<or> pe_failures p = 0 \<or> pe_failures p < max_failures cfg)"

definition peers_ok :: "NodeConfig \<Rightarrow> peers \<Rightarrow> bool" where
  "peers_ok cfg ps \<longleftrightarrow> distinct (keys ps) \<and> (\<forall>(d, p) \<in> set ps. peer_ok cfg d p)"

definition orders_ok :: "nat \<Rightarrow> peers \<Rightarrow> bool" where
  "orders_ok n ps \<longleftrightarrow>
     (\<forall>(d, p) \<in> set ps. pe_last_probe_order p < n) \<and> distinct (map (\<lambda>(d, p). pe_last_probe_order p) ps)"

definition table_bounded :: "NodeConfig \<Rightarrow> peers \<Rightarrow> bool" where
  "table_bounded cfg ps \<longleftrightarrow> length ps \<le> max_peers cfg \<or> (\<forall>(d, p) \<in> set ps. pe_seed p)"

definition node_inv :: "NodeConfig \<Rightarrow> 's Node \<Rightarrow> bool" where
  "node_inv cfg nd \<longleftrightarrow>
     peers_ok cfg (nd_peers nd) \<and> orders_ok (nd_probe_order nd) (nd_peers nd) \<and> table_bounded cfg (nd_peers nd)"

subsection \<open>What the table primitives keep\<close>

lemma set_hm_modify: "set (hm_modify k f al) = (\<lambda>(k', v). (k', if k' = k then f v else v)) ` set al"
  by (auto simp: hm_modify_def)

lemma set_hm_insert: "set (hm_insert k v al) \<subseteq> insert (k, v) (set al)"
  by (induction al) auto

lemma hm_insert_new: "k \<notin> set (keys al) \<Longrightarrow> hm_insert k v al = al @ [(k, v)]"
  by (induction al) auto

lemma peers_ok_get: "peers_ok cfg ps \<Longrightarrow> hm_get ps d = Some p \<Longrightarrow> peer_ok cfg d p"
  by (auto simp: peers_ok_def dest: map_of_SomeD)

lemma peers_ok_modify:
  assumes "peers_ok cfg ps" and "\<And>p. hm_get ps d = Some p \<Longrightarrow> peer_ok cfg d p \<Longrightarrow> peer_ok cfg d (f p)"
  shows "peers_ok cfg (hm_modify d f ps)"
proof -
  have d: "distinct (keys ps)" and all: "\<And>e p. (e, p) \<in> set ps \<Longrightarrow> peer_ok cfg e p"
    using assms(1) by (auto simp: peers_ok_def)
  have "peer_ok cfg d (f p)" if "(d, p) \<in> set ps" for p
    by (rule assms(2) [OF map_of_is_SomeI [OF d that] all [OF that]])
  with d all show ?thesis by (auto simp: peers_ok_def set_hm_modify)
qed

lemma peers_ok_insert:
  assumes "peers_ok cfg ps" and "peer_ok cfg d p"
  shows "peers_ok cfg (hm_insert d p ps)"
  using assms set_hm_insert [of d p ps] by (auto simp: peers_ok_def)

lemma peers_ok_remove: "peers_ok cfg ps \<Longrightarrow> peers_ok cfg (hm_remove d ps)"
  by (auto simp: peers_ok_def set_hm_remove)

lemma orders_ok_mono: "orders_ok n ps \<Longrightarrow> n \<le> m \<Longrightarrow> orders_ok m ps"
  by (fastforce simp: orders_ok_def)

lemma orders_ok_filter: "orders_ok n ps \<Longrightarrow> orders_ok n (filter P ps)"
  by (auto simp: orders_ok_def distinct_map_filter)

lemma orders_ok_remove: "orders_ok n ps \<Longrightarrow> orders_ok n (hm_remove d ps)"
  by (simp add: hm_remove_filter orders_ok_filter)

lemma orders_ok_append: "orders_ok n ps \<Longrightarrow> pe_last_probe_order p = n \<Longrightarrow> orders_ok (Suc n) (ps @ [(d, p)])"
  by (fastforce simp: orders_ok_def)

lemma orders_hm_modify:
  "distinct (keys ps) \<Longrightarrow> \<forall>p. pe_last_probe_order (f p) = n \<Longrightarrow> \<forall>(d, p) \<in> set ps. pe_last_probe_order p < n \<Longrightarrow>
     distinct (map (\<lambda>(d, p). pe_last_probe_order p) ps) \<Longrightarrow>
     distinct (map (\<lambda>(d, p). pe_last_probe_order p) (hm_modify k f ps))"
proof (induction ps)
  case (Cons x ps)
  obtain d p where x: "x = (d, p)" by (cases x)
  show ?case
  proof (cases "d = k")
    case True
    with Cons.prems(1) x have "hm_modify k f ps = ps"
      by (force simp: hm_modify_def intro!: map_idI)
    with True x Cons.prems show ?thesis by (auto simp: hm_modify_def)
  next
    case False
    have "pe_last_probe_order p \<noteq> pe_last_probe_order (if e = k then f q else q)" if "(e, q) \<in> set ps" for e q
      using Cons.prems that x by (auto simp: split_beta image_iff)
    with False x Cons show ?thesis by (auto simp: hm_modify_def)
  qed
qed (simp add: hm_modify_def)

lemma orders_ok_fresh:
  assumes "orders_ok n ps" "distinct (keys ps)" "\<forall>p. pe_last_probe_order (f p) = n"
  shows "orders_ok (Suc n) (hm_modify d f ps)"
proof -
  have lt: "pe_last_probe_order p < n" if "(e, p) \<in> set ps" for e p
    using assms(1) that by (auto simp: orders_ok_def)
  have "distinct (map (\<lambda>(d, p). pe_last_probe_order p) (hm_modify d f ps))"
    by (rule orders_hm_modify [OF assms(2,3)]) (use assms(1) in \<open>auto simp: orders_ok_def\<close>)
  with lt assms(3) show ?thesis by (auto simp: orders_ok_def set_hm_modify less_SucI)
qed

lemma orders_ok_same:
  assumes "orders_ok n ps" "\<And>p. pe_last_probe_order (f p) = pe_last_probe_order p"
  shows "orders_ok n (hm_modify d f ps)"
proof -
  have "map (\<lambda>(d, p). pe_last_probe_order p) (hm_modify d f ps) = map (\<lambda>(d, p). pe_last_probe_order p) ps"
    by (auto simp: hm_modify_def assms(2))
  with assms show ?thesis by (fastforce simp: orders_ok_def set_hm_modify)
qed

lemma table_bounded_modify:
  "table_bounded cfg ps \<Longrightarrow> (\<And>p. pe_seed p \<Longrightarrow> pe_seed (f p)) \<Longrightarrow> table_bounded cfg (hm_modify d f ps)"
  by (fastforce simp: table_bounded_def set_hm_modify)

lemma table_bounded_filter: "table_bounded cfg ps \<Longrightarrow> table_bounded cfg (filter P ps)"
  by (auto simp: table_bounded_def intro: order_trans [OF length_filter_le])

lemma table_bounded_remove: "table_bounded cfg ps \<Longrightarrow> table_bounded cfg (hm_remove d ps)"
  by (simp add: hm_remove_filter table_bounded_filter)

subsection \<open>Trimming\<close>

lemma victim_None: "victim ps = None \<longleftrightarrow> (\<forall>(d, p) \<in> set ps. pe_seed p)"
  by (auto simp: victim_def filter_empty_conv)

lemma trim_peers_ok: "peers_ok cfg ps \<Longrightarrow> peers_ok cfg (trim_peers cfg ps)"
proof (induction cfg ps rule: trim_peers.induct)
  case (1 cfg ps)
  then show ?case by (auto simp: trim_peers.simps [of cfg ps] peers_ok_remove split: option.splits)
qed

lemma trim_orders_ok: "orders_ok n ps \<Longrightarrow> orders_ok n (trim_peers cfg ps)"
proof (induction cfg ps rule: trim_peers.induct)
  case (1 cfg ps)
  then show ?case by (auto simp: trim_peers.simps [of cfg ps] orders_ok_remove split: option.splits)
qed

lemma trim_bounded: "table_bounded cfg (trim_peers cfg ps)"
proof (induction cfg ps rule: trim_peers.induct)
  case (1 cfg ps)
  then show ?case
    by (auto simp: trim_peers.simps [of cfg ps] table_bounded_def [of cfg ps] victim_None split: option.splits)
qed

lemma trim_subset: "set (trim_peers cfg ps) \<subseteq> set ps"
proof (induction cfg ps rule: trim_peers.induct)
  case (1 cfg ps)
  then show ?case by (auto simp: trim_peers.simps [of cfg ps] set_hm_remove split: option.splits)
qed

lemma trim_id: "table_bounded cfg ps \<Longrightarrow> trim_peers cfg ps = ps"
  by (auto simp: trim_peers.simps [of cfg ps] table_bounded_def victim_None [symmetric])

text \<open>Seeds are never trimmed.\<close>

lemma trim_keeps_seeds: "distinct (keys ps) \<Longrightarrow> (d, p) \<in> set ps \<Longrightarrow> pe_seed p \<Longrightarrow> (d, p) \<in> set (trim_peers cfg ps)"
proof (induction cfg ps rule: trim_peers.induct)
  case (1 cfg ps)
  have "d \<noteq> v" if "victim ps = Some v" for v
    using victim_in [OF that] 1(2-4) by (auto dest: eq_key_imp_eq_value)
  with 1 show ?case by (auto simp: trim_peers.simps [of cfg ps] set_hm_remove split: option.splits)
qed

text \<open>A table one over its bound loses its least valuable entry.\<close>

lemma trim_one:
  assumes "table_bounded cfg ps" and "d \<notin> set (keys ps)" and "distinct (keys ps)"
    and "\<not> pe_seed p" and "\<not> pe_confirmed p" and "(e, q) \<in> set ps" and "pe_confirmed q"
  shows "(e, q) \<in> set (trim_peers cfg (ps @ [(d, p)]))"
proof (cases "length ps < max_peers cfg")
  case True
  then have "table_bounded cfg (ps @ [(d, p)])" by (simp add: table_bounded_def)
  with assms(6) show ?thesis by (simp add: trim_id)
next
  case False
  let ?ps = "ps @ [(d, p)]"
  have over: "length ?ps > max_peers cfg" using False by simp
  obtain v where v: "victim ?ps = Some v"
    using assms(4) victim_None [of ?ps] by (cases "victim ?ps") auto
  then obtain x where x: "min_by_key (\<lambda>(d, p). (pe_confirmed p, pe_last_ok_ms p)) (filter (\<lambda>(d, p). \<not> pe_seed p) ?ps) = Some (v, x)"
    by (auto simp: victim_def)
  have xin: "(v, x) \<in> set ?ps" and xns: "\<not> pe_seed x" and xun: "\<not> pe_confirmed x"
    using min_by_key_Some [OF x] assms(4,5) by (auto simp: less_eq_prod_def)
  have "e \<noteq> v"
  proof
    assume "e = v"
    have "distinct (keys ?ps)" using assms(2,3) by simp
    moreover have "(v, q) \<in> set ?ps" using assms(6) \<open>e = v\<close> by simp
    ultimately have "x = q" using xin by (blast dest: eq_key_imp_eq_value)
    with xun assms(7) show False by simp
  qed
  then have kept: "(e, q) \<in> set (hm_remove v ?ps)" using assms(6) by (simp add: set_hm_remove)
  have "table_bounded cfg (hm_remove v ?ps)"
  proof (cases "length ps \<le> max_peers cfg")
    case True
    have "length (hm_remove v ?ps) < length ?ps" using xin by (rule length_hm_remove_in)
    with True show ?thesis by (simp add: table_bounded_def)
  next
    case False
    with assms(1) have seeds: "\<forall>(d, p) \<in> set ps. pe_seed p" by (simp add: table_bounded_def)
    with xin xns have "v = d" by auto
    with seeds show ?thesis by (auto simp: table_bounded_def set_hm_remove)
  qed
  then have "trim_peers cfg ?ps = hm_remove v ?ps"
    using over v by (simp add: trim_peers.simps [of cfg ?ps] trim_id)
  with kept show ?thesis by simp
qed

subsection \<open>What every step on the table keeps\<close>

lemma node_inv_new [inv_intros]: "node_inv cfg (new_node st)"
  by (simp add: node_inv_def new_node_def peers_ok_def orders_ok_def table_bounded_def)

lemma node_inv_storage [simp]: "node_inv cfg (nd\<lparr>nd_storage := st\<rparr>) = node_inv cfg nd"
  by (simp add: node_inv_def)

lemma node_inv_set_me [inv_intros]: "node_inv cfg nd \<Longrightarrow> node_inv cfg (set_me m nd)"
  by (simp add: node_inv_def set_me_def)

lemma keys_None: "hm_get ps d = None \<longleftrightarrow> d \<notin> set (keys ps)"
  by (simp add: map_of_eq_None_iff)

text \<open>A table that is well-formed but may be over its bound, as between the turns of a loop.\<close>

definition table_ok :: "NodeConfig \<Rightarrow> 's Node \<Rightarrow> bool" where
  "table_ok cfg nd \<longleftrightarrow> peers_ok cfg (nd_peers nd) \<and> orders_ok (nd_probe_order nd) (nd_peers nd)"

lemma node_inv_table_ok: "node_inv cfg nd \<longleftrightarrow> table_ok cfg nd \<and> table_bounded cfg (nd_peers nd)"
  by (auto simp: node_inv_def table_ok_def)

lemma node_inv_trim: "table_ok cfg nd \<Longrightarrow> node_inv cfg (nd\<lparr>nd_peers := trim_peers cfg (nd_peers nd)\<rparr>)"
  by (simp add: node_inv_def table_ok_def trim_peers_ok trim_orders_ok trim_bounded)

lemma table_ok_insert:
  assumes "table_ok cfg nd" "hm_get (nd_peers nd) d = None" "peer_ok cfg d p" "pe_last_probe_order p = nd_probe_order nd"
  shows "table_ok cfg (nd\<lparr>nd_peers := hm_insert d p (nd_peers nd), nd_probe_order := nd_probe_order nd + 1\<rparr>)"
  using assms orders_ok_append [of "nd_probe_order nd" "nd_peers nd" p d]
  by (simp add: table_ok_def keys_None peers_ok_insert) (simp add: hm_insert_new)

lemma add_candidate_ok: "table_ok cfg nd \<Longrightarrow> table_ok cfg (add_candidate now seed nd d)"
proof -
  assume ok: "table_ok cfg nd"
  let ?d = "trim d"
  let ?f = "\<lambda>p. p\<lparr>pe_seed := pe_seed p \<or> seed\<rparr>"
  have "peers_ok cfg (hm_modify ?d ?f (nd_peers nd))"
    using ok by (intro peers_ok_modify) (auto simp: table_ok_def peer_ok_def)
  moreover have "orders_ok (Suc (nd_probe_order nd)) (hm_modify ?d ?f (nd_peers nd))"
    using ok by (intro orders_ok_mono [OF orders_ok_same]) (auto simp: table_ok_def)
  ultimately show ?thesis
    using ok table_ok_insert [OF ok, of ?d]
    by (auto simp: add_candidate_def Let_def table_ok_def peer_ok_def split: option.splits)
qed

lemma add_candidates_inv [inv_intros]: "node_inv cfg nd \<Longrightarrow> node_inv cfg (add_candidates cfg now ds seed nd)"
proof -
  assume "node_inv cfg nd"
  then have "table_ok cfg nd" by (simp add: node_inv_table_ok)
  then have "table_ok cfg (foldl (add_candidate now seed) nd ds)"
    by (induction ds arbitrary: nd) (auto intro: add_candidate_ok)
  then show ?thesis by (simp add: add_candidates_def Let_def node_inv_trim)
qed

lemma peer_ok_learned:
  "version i = PROTOCOL_VERSION \<Longrightarrow> peer_ok cfg (destination i) p \<Longrightarrow> peer_ok cfg (destination i) (learned_peer i c now n p)"
  by (auto simp: peer_ok_def learned_peer_def Let_def)

lemma learn_inv [inv_intros]:
  assumes inv: "node_inv cfg nd"
  shows "node_inv cfg (learn cfg now i c nd)"
proof (cases "version i \<noteq> PROTOCOL_VERSION \<or> destination i = [] \<or> map_option destination (nd_me nd) = Some (destination i)")
  case True
  with inv show ?thesis by (auto simp: learn_def)
next
  case False
  let ?ps = "nd_peers nd" let ?n = "nd_probe_order nd"
  have ok: "peers_ok cfg ?ps" "orders_ok ?n ?ps" using inv by (simp_all add: node_inv_def)
  show ?thesis
  proof (cases "hm_get ?ps (destination i)")
    case None
    let ?p = "\<lparr>pe_info = i, pe_confirmed = c, pe_failures = 0, pe_seed = False,
                    pe_first_seen_ms = now, pe_last_ok_ms = (if c then now else 0), pe_last_probe_order = ?n\<rparr>"
    have "table_ok cfg (nd\<lparr>nd_peers := hm_insert (destination i) ?p ?ps, nd_probe_order := ?n + 1\<rparr>)"
      by (rule table_ok_insert) (use inv None False in \<open>auto simp: node_inv_table_ok peer_ok_def\<close>)
    from node_inv_trim [OF this] False None show ?thesis by (auto simp: learn_def node_inv_def)
  next
    case (Some p)
    let ?f = "learned_peer i c now ?n"
    let ?m = "if c then ?n + 1 else ?n"
    have "peers_ok cfg (hm_modify (destination i) ?f ?ps)"
      using ok(1) False by (intro peers_ok_modify) (auto intro: peer_ok_learned)
    moreover have "orders_ok ?m (hm_modify (destination i) ?f ?ps)"
      using ok orders_ok_fresh [OF ok(2), of ?f] orders_ok_same [OF ok(2), of ?f]
      by (auto simp: peers_ok_def learned_peer_def Let_def)
    ultimately show ?thesis
      using False Some by (auto simp: learn_def node_inv_def trim_peers_ok trim_orders_ok trim_bounded)
  qed
qed

lemma failed_inv [inv_intros]:
  assumes inv: "node_inv cfg nd"
  shows "node_inv cfg (failed cfg d nd)"
proof (cases "hm_get (nd_peers nd) d")
  case (Some p)
  let ?ps = "nd_peers nd"
  let ?f = "\<lambda>p. p\<lparr>pe_failures := pe_failures p + 1\<rparr>"
  have "peers_ok cfg (hm_modify d ?f ?ps)" if "\<not> (pe_failures p + 1 \<ge> max_failures cfg \<and> \<not> pe_seed p)"
    using inv that Some by (intro peers_ok_modify) (auto simp: node_inv_def peer_ok_def)
  moreover have "orders_ok (nd_probe_order nd) (hm_modify d ?f ?ps)"
    using inv by (intro orders_ok_same) (auto simp: node_inv_def)
  moreover have "table_bounded cfg (hm_modify d ?f ?ps)"
    using inv by (intro table_bounded_modify) (auto simp: node_inv_def)
  ultimately show ?thesis
    using inv Some by (auto simp: failed_def node_inv_def peers_ok_remove orders_ok_remove table_bounded_remove)
qed (use inv in \<open>simp add: failed_def\<close>)

lemma forget_inv [inv_intros]: "node_inv cfg nd \<Longrightarrow> node_inv cfg (forget d nd)"
  by (simp add: forget_def node_inv_def peers_ok_remove orders_ok_remove table_bounded_remove)

lemma touch_inv [inv_intros]:
  assumes inv: "node_inv cfg nd"
  shows "node_inv cfg (touch d nd)"
proof -
  let ?f = "\<lambda>p. p\<lparr>pe_last_probe_order := nd_probe_order nd\<rparr>"
  have "peers_ok cfg (hm_modify d ?f (nd_peers nd))"
    using inv by (intro peers_ok_modify) (auto simp: node_inv_def peer_ok_def)
  moreover have "orders_ok (Suc (nd_probe_order nd)) (hm_modify d ?f (nd_peers nd))"
    using inv by (intro orders_ok_fresh) (auto simp: node_inv_def peers_ok_def)
  moreover have "table_bounded cfg (hm_modify d ?f (nd_peers nd))"
    using inv by (intro table_bounded_modify) (auto simp: node_inv_def)
  ultimately show ?thesis using inv by (auto simp: touch_def node_inv_def split: option.splits)
qed

section \<open>Invariants of the node's operations on the network\<close>

fun infos_of :: "DhtResponse \<Rightarrow> NodeInfo set" where
  "infos_of (Pong n) = {n}"
| "infos_of (Nodes m ns) = set_option m \<union> set ns"
| "infos_of (Items _ _ closer) = set closer"
| "infos_of _ = {}"

text \<open>
  A predicate on nodes that the steps on the table keep, as far as the nodes learned satisfy
  \<open>Q\<close>, in a network whose answers name only such nodes: every operation of the client keeps it.
\<close>

locale table_invariant =
  fixes cfg :: NodeConfig and N :: "'w net" and Q :: "NodeInfo \<Rightarrow> bool" and P :: "'s Node \<Rightarrow> bool"
  assumes learn_P: "P nd \<Longrightarrow> Q i \<Longrightarrow> P (learn cfg now i c nd)"
    and failed_P: "P nd \<Longrightarrow> P (failed cfg d nd)"
    and forget_P: "P nd \<Longrightarrow> P (forget d nd)"
    and touch_P: "P nd \<Longrightarrow> P (touch d nd)"
    and answers_Q: "net_call N w d env = (Some r, w') \<Longrightarrow> i \<in> infos_of r \<Longrightarrow> Q i"
begin

lemma learn_all_P: "P nd \<Longrightarrow> \<forall>i \<in> set is. Q i \<Longrightarrow> P (foldl (\<lambda>nd i. learn cfg now i c nd) nd is)"
  by (induction "is" arbitrary: nd) (auto intro: learn_P)

lemma open_P: "P (fst s) \<Longrightarrow> P (fst (snd (dht_open cfg N d s)))"
  by (auto simp: dht_open_def Let_def touch_P failed_P split: prod.splits option.splits)

lemma exchange_P: "P (fst s) \<Longrightarrow> P (fst (snd (exchange cfg N d req s)))"
  by (auto simp: exchange_def failed_P split: prod.splits option.splits)

lemma exchange_Q: "exchange cfg N d req s = (Some r, s1) \<Longrightarrow> i \<in> infos_of r \<Longrightarrow> Q i"
  by (auto simp: exchange_def intro: answers_Q split: prod.splits option.splits)

lemma ask_P: "P (fst s) \<Longrightarrow> P (fst (snd (ask cfg N d req s)))"
  using open_P [of s d] exchange_P by (fastforce simp: ask_def split: prod.splits option.splits)

lemma ask_Q: "ask cfg N d req s = (Some r, s1) \<Longrightarrow> i \<in> infos_of r \<Longrightarrow> Q i"
  by (auto simp: ask_def intro: exchange_Q split: prod.splits option.splits)

lemma ping_P: "P (fst s) \<Longrightarrow> P (fst (snd (ping cfg N d s)))"
proof -
  assume p: "P (fst s)"
  obtain r nd w where a: "ask cfg N d Ping s = (r, nd, w)" by (cases "ask cfg N d Ping s") auto
  have nd: "P nd" using ask_P [OF p, of d Ping] a by simp
  have q: "Q i" if "r = Some x" "i \<in> infos_of x" for x i using ask_Q [OF a [unfolded that(1)] that(2)] .
  from nd q show ?thesis
    by (auto simp: ping_def a intro!: forget_P learn_P split: option.splits DhtResponse.splits)
qed

lemma map_state_P:
  assumes "P (fst s)" and "\<And>x s. P (fst s) \<Longrightarrow> P (fst (snd (f x s)))"
  shows "P (fst (snd (map_state f xs s)))"
  using assms(1)
proof (induction xs arbitrary: s)
  case (Cons x xs)
  then have "P (fst (snd (f x s)))" using assms(2) by blast
  from Cons.IH [OF this] show ?case by (simp add: split_beta)
qed simp

lemma take_reply_P:
  assumes "P nd" and "\<And>r i. reply = Some r \<Longrightarrow> i \<in> infos_of r \<Longrightarrow> Q i"
  shows "P (snd (take_reply cfg now (answered, nd) (n, reply)))"
  using assms by (auto simp: take_reply_def intro!: learn_all_P learn_P forget_P split: option.splits DhtResponse.splits)

lemma replies_Q:
  "(n, Some r) \<in> set (fst (map_state (find_node_at cfg N target) ns s)) \<Longrightarrow> i \<in> infos_of r \<Longrightarrow> Q i"
proof (induction ns arbitrary: s)
  case (Cons m ns)
  then show ?case
    by (cases "ask cfg N (destination m) (FindNode target) s")
      (auto simp: find_node_at_def split_beta intro: ask_Q)
qed simp

lemma take_replies_P:
  assumes "\<And>n r i. (n, Some r) \<in> set rs \<Longrightarrow> i \<in> infos_of r \<Longrightarrow> Q i"
  shows "P nd \<Longrightarrow> P (snd (foldl (take_reply cfg now) (ans, nd) rs))"
  using assms
proof (induction rs arbitrary: ans nd)
  case (Cons nr rs)
  obtain n r where nr: "nr = (n, r)" by (cases nr)
  have "P (snd (take_reply cfg now (ans, nd) (n, r)))"
    by (rule take_reply_P) (use Cons.prems nr in auto)
  moreover have "Q i" if "(m, Some r) \<in> set rs" "i \<in> infos_of r" for m r i
    using Cons.prems(2) [of m r i] that by simp
  ultimately show ?case
    using Cons.IH by (cases "take_reply cfg now (ans, nd) (n, r)") (simp add: nr)
qed simp

lemma lookup_round_P:
  assumes "P (fst s)"
  shows "P (fst (snd (lookup_round cfg N target batch answered s)))"
proof -
  obtain replies nd w where m: "map_state (find_node_at cfg N target) batch s = (replies, nd, w)"
    by (cases "map_state (find_node_at cfg N target) batch s") auto
  have "P (fst (snd (map_state (find_node_at cfg N target) batch s)))"
    by (rule map_state_P [OF assms]) (auto simp: find_node_at_def split_beta intro: ask_P)
  then have nd: "P nd" by (simp add: m)
  have "Q i" if "(n, Some r) \<in> set replies" "i \<in> infos_of r" for n r i
    using replies_Q [of n r target batch s i] that m by simp
  from take_replies_P [of replies, OF this nd] show ?thesis
    by (simp add: lookup_round_def m split_beta)
qed

lemma lookup_loop_P:
  "P (fst s) \<Longrightarrow> lookup_loop C cfg N target fuel queried answered s = Some (ans, q, s1) \<Longrightarrow> P (fst s1)"
proof (induction fuel arbitrary: queried answered s)
  case (Suc fuel)
  let ?batch = "next_batch C cfg target queried (fst s)"
  show ?case
  proof (cases "?batch = [] \<or> k_closest_asked C cfg target queried (fst s)")
    case True
    with Suc.prems show ?thesis by (simp add: Let_def)
  next
    case False
    obtain ans1 s2 where r: "lookup_round cfg N target ?batch answered s = (ans1, s2)" by (cases "lookup_round cfg N target ?batch answered s")
    have "P (fst s2)" using lookup_round_P [OF Suc.prems(1), of target ?batch answered] r by simp
    from Suc.IH [OF this] Suc.prems(2) False r show ?thesis by (simp add: Let_def)
  qed
qed simp

lemma lookup_P: "P (fst s) \<Longrightarrow> lookup C cfg N fuel target s = Some (ns, s1) \<Longrightarrow> P (fst s1)"
  by (auto simp: lookup_def dest: lookup_loop_P)

lemma item_targets_P: "P (fst s) \<Longrightarrow> item_targets C cfg N fuel key s = Some (ns, s1) \<Longrightarrow> P (fst s1)"
  by (auto simp: item_targets_def dest: lookup_P)

lemma store_at_P:
  assumes "P (fst s)"
  shows "P (fst (snd (store_at C cfg N item node s)))"
proof -
  obtain c s1 where o: "dht_open cfg N (destination node) s = (c, s1)" by (cases "dht_open cfg N (destination node) s")
  have "P (fst s1)" using open_P [OF assms, of "destination node"] o by simp
  then show ?thesis
    by (auto simp: store_at_def o split_beta intro: exchange_P split: option.splits)
qed

lemma items_at_loop_P:
  "P (fst s) \<Longrightarrow> items_at_loop cfg N d key fuel out s = Some (r, s1) \<Longrightarrow> P (fst s1)"
proof (induction fuel arbitrary: out s)
  case (Suc fuel)
  obtain x nd w where e: "exchange cfg N d (Get key (of_nat (length out))) s = (x, nd, w)"
    by (cases "exchange cfg N d (Get key (of_nat (length out))) s") auto
  have nd: "P nd" using exchange_P [OF Suc.prems(1), of d "Get key (of_nat (length out))"] e by simp
  have q: "Q i" if "x = Some r" "i \<in> infos_of r" for r i
    using exchange_Q [of d "Get key (of_nat (length out))" s r "(nd, w)" i] e that by simp
  from Suc.prems(2) nd q show ?case
    by (auto simp: e Let_def intro!: learn_all_P Suc.IH split: option.splits DhtResponse.splits if_splits)
qed simp

lemma items_at_P: "P (fst s) \<Longrightarrow> items_at cfg N fuel key node s = Some (r, s1) \<Longrightarrow> P (fst s1)"
  using open_P [of s "destination node"]
  by (auto simp: items_at_def intro: items_at_loop_P split: prod.splits option.splits)

lemma map_fuel_P:
  assumes "\<And>x s y s1. P (fst s) \<Longrightarrow> f x s = Some (y, s1) \<Longrightarrow> P (fst s1)"
  shows "P (fst s) \<Longrightarrow> map_fuel f xs s = Some (ys, s1) \<Longrightarrow> P (fst s1)"
proof (induction xs arbitrary: s ys)
  case (Cons x xs)
  from Cons.prems(2) obtain y s2 ys' where f: "f x s = Some (y, s2)" and r: "map_fuel f xs s2 = Some (ys', s1)"
    by (auto split: option.splits)
  from Cons.IH [OF assms [OF Cons.prems(1) f] r] show ?case .
qed simp

lemma get_loop_P:
  "P (fst s) \<Longrightarrow> get_loop C cfg N fuel key now budget queried targets acc s = Some (q, out, s1) \<Longrightarrow> P (fst s1)"
proof (induction "budget - length queried" arbitrary: queried targets acc s rule: less_induct)
  case less
  let ?batch = "get_batch budget queried targets"
  show ?case
  proof (cases "?batch = []")
    case True
    with less.prems show ?thesis by (simp add: get_loop.simps [of C cfg N fuel key now budget queried])
  next
    case False
    with less.prems(2) obtain ans s2 where m: "map_fuel (items_at cfg N fuel key) ?batch s = Some (ans, s2)"
      by (auto simp: get_loop.simps [of C cfg N fuel key now budget queried] Let_def split: option.splits)
    have "P (fst s2)" by (rule map_fuel_P [OF items_at_P less.prems(1) m])
    from less.hyps [OF get_batch_measure [OF False] this] less.prems(2) False m show ?thesis
      by (simp add: get_loop.simps [of C cfg N fuel key now budget queried] Let_def)
  qed
qed

lemma republish_at_P:
  assumes "P (fst s)" and "republish_at C cfg N fuel item node s = Some (r, s1)"
  shows "P (fst s1)"
proof -
  from assms(2) obtain its s2 where it: "items_at cfg N fuel (item_key item) node s = Some (its, s2)"
    by (auto simp: republish_at_def split: option.splits)
  have "P (fst s2)" by (rule items_at_P [OF assms(1) it])
  with store_at_P [of s2 C item node] assms(2) it show ?thesis
    by (auto simp: republish_at_def Let_def split: if_splits)
qed

lemma republish_items_P: "P (fst s) \<Longrightarrow> republish_items C cfg N fuel items handed s = Some (n, s1) \<Longrightarrow> P (fst s1)"
proof (induction items arbitrary: handed s)
  case (Cons item items)
  from Cons.prems(2) obtain targets s2 rs s3 where
    t: "item_targets C cfg N fuel (item_key item) s = Some (targets, s2)"
    and r: "map_fuel (republish_at C cfg N fuel item) targets s2 = Some (rs, s3)"
    and n: "republish_items C cfg N fuel items (handed + length (filter id rs)) s3 = Some (n, s1)"
    by (auto split: option.splits)
  have s2: "P (fst s2)" by (rule item_targets_P [OF Cons.prems(1) t])
  have "P (fst s3)" by (rule map_fuel_P [OF _ s2 r]) (rule republish_at_P)
  from Cons.IH [OF this n] show ?case .
qed simp

lemma pings_P: "P (fst s) \<Longrightarrow> P (fst (fold (\<lambda>batch s. snd (map_state (ping cfg N) batch s)) bs s))"
proof (induction bs arbitrary: s)
  case (Cons b bs)
  have "P (fst (snd (map_state (ping cfg N) b s)))" by (rule map_state_P [OF Cons.prems ping_P])
  from Cons.IH [OF this] show ?case by simp
qed simp

end

interpretation inv: table_invariant cfg N "\<lambda>_. True" "node_inv cfg" for cfg N
  by unfold_locales (auto intro: inv_intros)

lemma learn_me [simp]: "nd_me (learn cfg now i c nd) = nd_me nd"
  by (simp add: learn_def split_beta)

lemma learn_storage [simp]: "nd_storage (learn cfg now i c nd) = nd_storage nd"
  by (simp add: learn_def split_beta)

text \<open>The node after it has noted who is asking.\<close>

definition heard :: "NodeConfig \<Rightarrow> u64 \<Rightarrow> DhtEnvelope \<Rightarrow> 's Node \<Rightarrow> 's Node" where
  "heard cfg now env nd = (case env_from env of Some i \<Rightarrow> learn cfg now i False nd | None \<Rightarrow> nd)"

lemma heard_me [simp]: "nd_me (heard cfg now env nd) = nd_me nd"
  by (simp add: heard_def split: option.splits)

lemma heard_storage [simp]: "nd_storage (heard cfg now env nd) = nd_storage nd"
  by (simp add: heard_def split: option.splits)

lemma heard_stores [simp]: "node_stores (heard cfg now env nd) = node_stores nd"
  by (simp add: node_stores_def)

lemma handle_node:
  "snd (handle C cfg S now ch env nd) = (heard cfg now env nd)
     \<lparr>nd_storage := (case env_req env of
         Store item pow \<Rightarrow>
           if node_stores nd \<and> pow_ok C ch item pow (pow_difficulty cfg)
           then (case s_put S (nd_storage nd) item now of Inr st \<Rightarrow> st | Inl _ \<Rightarrow> nd_storage nd)
           else nd_storage nd
       | Delete key t \<Rightarrow> fst (s_delete S (nd_storage nd) key t)
       | _ \<Rightarrow> nd_storage nd)\<rparr>"
  unfolding handle_def heard_def [symmetric]
  by (cases "env_req env") (simp_all add: Let_def split_beta split: option.splits sum.splits)

lemma handle_table:
  "nd_peers (snd (handle C cfg S now ch env nd)) = nd_peers (heard cfg now env nd)"
  "nd_probe_order (snd (handle C cfg S now ch env nd)) = nd_probe_order (heard cfg now env nd)"
  "nd_me (snd (handle C cfg S now ch env nd)) = nd_me nd"
  by (simp_all add: handle_node)

lemma handle_inv [inv_intros]: "node_inv cfg nd \<Longrightarrow> node_inv cfg (snd (handle C cfg S now ch env nd))"
  by (auto simp: handle_node heard_def intro: inv_intros split: option.splits)

text \<open>
  The states of a node: any interleaving of the requests it answers, the operations of the app
  and its upkeep, over a network and a clock that do what they like.
\<close>

inductive node_reach :: "crypto \<Rightarrow> NodeConfig \<Rightarrow> 's storage \<Rightarrow> 'w net \<Rightarrow> 's Node \<times> 'w \<Rightarrow> bool"
  for C cfg S N where
  start: "node_reach C cfg S N (new_node st, w)"
| world: "node_reach C cfg S N (nd, w) \<Longrightarrow> node_reach C cfg S N (nd, w')"
| me: "node_reach C cfg S N (nd, w) \<Longrightarrow> node_reach C cfg S N (set_me m nd, w)"
| candidates: "node_reach C cfg S N (nd, w) \<Longrightarrow> node_reach C cfg S N (add_candidates cfg now ds seed nd, w)"
| request: "node_reach C cfg S N (nd, w) \<Longrightarrow> handle C cfg S now ch env nd = (r, nd') \<Longrightarrow> node_reach C cfg S N (nd', w)"
| pinging: "node_reach C cfg S N s \<Longrightarrow> ping cfg N d s = (b, s') \<Longrightarrow> node_reach C cfg S N s'"
| joining: "node_reach C cfg S N s \<Longrightarrow> bootstrap C cfg N fuel r s = Some s' \<Longrightarrow> node_reach C cfg S N s'"
| looking: "node_reach C cfg S N s \<Longrightarrow> lookup C cfg N fuel key s = Some (ns, s') \<Longrightarrow> node_reach C cfg S N s'"
| putting: "node_reach C cfg S N s \<Longrightarrow> dht_put C cfg S N fuel item s = Some (n, s') \<Longrightarrow> node_reach C cfg S N s'"
| getting: "node_reach C cfg S N s \<Longrightarrow> dht_get C cfg S N fuel key s = Some (its, s') \<Longrightarrow> node_reach C cfg S N s'"
| deleting: "node_reach C cfg S N s \<Longrightarrow> dht_delete C cfg S N fuel key t s = Some (n, s') \<Longrightarrow> node_reach C cfg S N s'"
| republishing: "node_reach C cfg S N s \<Longrightarrow> republish C cfg S N fuel s = Some (n, s') \<Longrightarrow> node_reach C cfg S N s'"
| upkeep: "node_reach C cfg S N s \<Longrightarrow> node_reach C cfg S N (maintain cfg S N s)"

lemma bootstrap_inv: "node_inv cfg (fst s) \<Longrightarrow> bootstrap C cfg N fuel r s = Some s' \<Longrightarrow> node_inv cfg (fst s')"
  by (auto simp: bootstrap_def Let_def split_beta dest!: inv.lookup_P [rotated]
      intro!: inv.map_state_P inv.ping_P)

lemma put_inv:
  assumes "node_inv cfg (fst s)" and "dht_put C cfg S N fuel item s = Some (n, s')"
  shows "node_inv cfg (fst s')"
proof -
  let ?nd = "if node_stores (fst s)
     then (case s_put S (nd_storage (fst s)) item (net_now N (snd s)) of Inr st \<Rightarrow> (fst s)\<lparr>nd_storage := st\<rparr> | Inl _ \<Rightarrow> fst s)
     else fst s"
  have nd: "node_inv cfg ?nd" using assms(1) by (auto split: sum.splits)
  from assms(2) obtain ts s1 where t: "item_targets C cfg N fuel (item_key item) (?nd, snd s) = Some (ts, s1)"
    and s': "s' = snd (map_state (store_at C cfg N item) ts s1)"
    by (auto simp: dht_put_def Let_def split_beta split: option.splits)
  have "node_inv cfg (fst s1)" using inv.item_targets_P [OF _ t] nd by simp
  then show ?thesis unfolding s' by (rule inv.map_state_P) (rule inv.store_at_P)
qed

definition local_items :: "crypto \<Rightarrow> 's storage \<Rightarrow> DhtKey \<Rightarrow> u64 \<Rightarrow> 's Node \<Rightarrow> bytes list \<times> StoredItem list" where
  "local_items C S key now nd =
     (if node_stores nd then take_items C key now ([], []) (s_get S (nd_storage nd) key now) else ([], []))"

lemma dht_get_SomeE:
  assumes "dht_get C cfg S N fuel key s = Some (its, s')"
  obtains ts s1 q where "item_targets C cfg N fuel key s = Some (ts, s1)"
    and "get_loop C cfg N fuel key (net_now N (snd s)) (cfg_k cfg + length ts) [] ts
           (local_items C S key (net_now N (snd s)) (fst s)) s1 = Some (q, its, s')"
proof -
  from assms obtain ts s1 where t: "item_targets C cfg N fuel key s = Some (ts, s1)"
    by (auto simp: dht_get_def Let_def split: option.splits)
  with assms that [OF t] show thesis
    by (auto simp: dht_get_def local_items_def Let_def)
qed

lemma get_inv:
  assumes "node_inv cfg (fst s)" and "dht_get C cfg S N fuel key s = Some (its, s')"
  shows "node_inv cfg (fst s')"
  using assms(2)
proof (rule dht_get_SomeE)
  fix ts s1 q
  assume t: "item_targets C cfg N fuel key s = Some (ts, s1)"
    and g: "get_loop C cfg N fuel key (net_now N (snd s)) (cfg_k cfg + length ts) [] ts
           (local_items C S key (net_now N (snd s)) (fst s)) s1 = Some (q, its, s')"
  from inv.get_loop_P [OF inv.item_targets_P [OF assms(1) t] g] show ?thesis .
qed

lemma delete_inv:
  assumes "node_inv cfg (fst s)" and "dht_delete C cfg S N fuel key t s = Some (n, s')"
  shows "node_inv cfg (fst s')"
proof -
  let ?nd = "(fst s)\<lparr>nd_storage := fst (s_delete S (nd_storage (fst s)) key t)\<rparr>"
  from assms(2) obtain ts s1 where t: "item_targets C cfg N fuel key (?nd, snd s) = Some (ts, s1)"
    and s': "s' = snd (map_state (\<lambda>x. ask cfg N (destination x) (Delete key t)) ts s1)"
    by (auto simp: dht_delete_def Let_def split_beta split: option.splits)
  have "node_inv cfg (fst s1)" using inv.item_targets_P [OF _ t] assms(1) by simp
  then show ?thesis unfolding s' by (rule inv.map_state_P) (rule inv.ask_P)
qed

lemma republish_inv: "node_inv cfg (fst s) \<Longrightarrow> republish C cfg S N fuel s = Some (n, s') \<Longrightarrow> node_inv cfg (fst s')"
  unfolding republish_def Let_def by (erule inv.republish_items_P [rotated]) simp

lemma maintain_inv: "node_inv cfg (fst s) \<Longrightarrow> node_inv cfg (fst (maintain cfg S N s))"
proof -
  assume "node_inv cfg (fst s)"
  then have "node_inv cfg (fold touch ds (fst s\<lparr>nd_storage := st\<rparr>))" for ds st
    by (induction ds rule: rev_induct) (auto intro: inv_intros)
  then show ?thesis unfolding maintain_def Let_def by (intro inv.pings_P) simp
qed

section \<open>Properties of the table\<close>

text \<open>
  C11. In every reachable state of a node its table is well-formed: one entry per address, filed
  under the address its information carries, of this protocol version, never one that has failed
  \<open>max_failures\<close> times unless it is a seed; at most \<open>max_peers\<close> entries, unless all of them are
  seeds; and every entry with a place of its own in the order of probes.
\<close>

theorem node_table_invariant:
  assumes "node_reach C cfg S N s"
  shows "node_inv cfg (fst s)"
  using assms
proof (induction rule: node_reach.induct)
  case (request nd w now ch env r nd')
  then show ?case using handle_inv [of cfg nd C S now ch env] by simp
next
  case (pinging s d b s')
  then show ?case using inv.ping_P [of cfg s N d] by simp
qed (auto intro: inv_intros bootstrap_inv inv.lookup_P put_inv get_inv delete_inv republish_inv maintain_inv)

subsection \<open>Hearsay\<close>

abbreviation confirmed_peers :: "'s Node \<Rightarrow> (bytes \<times> Peer) set" where
  "confirmed_peers nd \<equiv> {x \<in> set (nd_peers nd). pe_confirmed (snd x)}"

lemma learned_hearsay:
  "pe_confirmed (learned_peer i False now n p) = pe_confirmed p"
  "pe_seed (learned_peer i c now n p) = pe_seed p"
  "pe_confirmed p \<Longrightarrow> learned_peer i False now n p = p"
  by (auto simp: learned_peer_def Let_def)

lemma confirmed_hm_modify:
  assumes "\<And>p. pe_confirmed (f p) = pe_confirmed p" "\<And>p. pe_confirmed p \<Longrightarrow> f p = p"
  shows "{x \<in> set (hm_modify d f ps). pe_confirmed (snd x)} = {x \<in> set ps. pe_confirmed (snd x)}"
proof -
  have "filter (\<lambda>x. pe_confirmed (snd x)) (hm_modify d f ps) = filter (\<lambda>x. pe_confirmed (snd x)) ps"
    using assms by (induction ps) (auto simp: hm_modify_def split: if_splits)
  then show ?thesis by (metis set_filter)
qed

lemma learn_hearsay_confirmed:
  assumes inv: "node_inv cfg nd"
  shows "confirmed_peers (learn cfg now i False nd) = confirmed_peers nd"
proof (cases "version i \<noteq> PROTOCOL_VERSION \<or> destination i = [] \<or> map_option destination (nd_me nd) = Some (destination i)")
  case True
  then show ?thesis by (auto simp: learn_def)
next
  case False
  let ?ps = "nd_peers nd" let ?n = "nd_probe_order nd"
  show ?thesis
  proof (cases "hm_get ?ps (destination i)")
    case (Some p)
    let ?f = "learned_peer i False now ?n"
    have "table_bounded cfg (hm_modify (destination i) ?f ?ps)"
      using inv by (intro table_bounded_modify) (auto simp: node_inv_def learned_hearsay)
    then have "nd_peers (learn cfg now i False nd) = hm_modify (destination i) ?f ?ps"
      using False Some by (auto simp: learn_def trim_id)
    with confirmed_hm_modify [of ?f] show ?thesis by (simp add: learned_hearsay)
  next
    case None
    let ?p = "\<lparr>pe_info = i, pe_confirmed = False, pe_failures = 0, pe_seed = False,
                    pe_first_seen_ms = now, pe_last_ok_ms = 0, pe_last_probe_order = ?n\<rparr>"
    have new: "destination i \<notin> set (keys ?ps)" using None by (simp add: keys_None)
    have ps: "nd_peers (learn cfg now i False nd) = trim_peers cfg (?ps @ [(destination i, ?p)])"
      using False None new by (auto simp: learn_def hm_insert_new)
    have "(e, q) \<in> set (trim_peers cfg (?ps @ [(destination i, ?p)]))" if "(e, q) \<in> set ?ps" "pe_confirmed q" for e q
      by (rule trim_one) (use inv new that in \<open>auto simp: node_inv_def peers_ok_def\<close>)
    with trim_subset [of cfg "?ps @ [(destination i, ?p)]"] show ?thesis unfolding ps by auto
  qed
qed

text \<open>Answering a series of requests, each with the time and the challenge of its connection.\<close>

definition serve ::
  "crypto \<Rightarrow> NodeConfig \<Rightarrow> 's storage \<Rightarrow> 's Node \<Rightarrow> u64 \<times> bytes \<times> DhtEnvelope \<Rightarrow> 's Node" where
  "serve C cfg S nd req = (case req of (now, ch, env) \<Rightarrow> snd (handle C cfg S now ch env nd))"

lemma serve_confirmed:
  assumes "node_inv cfg nd"
  shows "node_inv cfg (serve C cfg S nd req)" and "confirmed_peers (serve C cfg S nd req) = confirmed_peers nd"
  using assms learn_hearsay_confirmed [OF assms]
  by (auto simp: serve_def handle_inv handle_node heard_def learn_inv split: prod.splits option.splits)

text \<open>
  Strangers can neither push a proven node out of the table nor get one into it: after
  any number of requests from anybody, whatever they claim about themselves or about others,
  the confirmed entries of the table are exactly what they were, unchanged.
\<close>

theorem flood_keeps_confirmed:
  assumes "node_inv cfg nd"
  shows "confirmed_peers (foldl (serve C cfg S) nd reqs) = confirmed_peers nd"
proof -
  have "node_inv cfg (foldl (serve C cfg S) nd reqs) \<and>
        confirmed_peers (foldl (serve C cfg S) nd reqs) = confirmed_peers nd"
    using assms
  proof (induction reqs arbitrary: nd)
    case (Cons r reqs)
    with Cons.IH [OF serve_confirmed(1) [OF Cons.prems, of C S r]] serve_confirmed(2) [OF Cons.prems, of C S r]
    show ?case by simp
  qed simp
  then show ?thesis by blast
qed

subsection \<open>Whom a node vouches for\<close>

abbreviation dist_to :: "crypto \<Rightarrow> DhtKey \<Rightarrow> NodeInfo \<Rightarrow> DhtKey" where
  "dist_to C target i \<equiv> distance (NodeInfo_id C i) target"

text \<open>The nodes that may be shared: usable and without a failed exchange; confirmed, or not.\<close>

definition sharable :: "bool \<Rightarrow> bool \<Rightarrow> 's Node \<Rightarrow> NodeInfo list" where
  "sharable conf storing_only nd =
     map pe_info (filter (\<lambda>p. pe_confirmed p = conf \<and> pe_failures p = 0)
       (filter (usable storing_only) (map snd (nd_peers nd))))"

lemma sorted_by_distance: "sorted (map (dist_to C t) (by_distance C t xs))"
  by (simp add: by_distance_def)

lemma set_by_distance [simp]: "set (by_distance C t xs) = set xs"
  by (simp add: by_distance_def)

lemma length_by_distance [simp]: "length (by_distance C t xs) = length xs"
  by (simp add: by_distance_def)

lemma take_by_distance:
  assumes "i \<in> set (take n (by_distance C t xs))" and "j \<in> set xs - set (take n (by_distance C t xs))"
  shows "dist_to C t i \<le> dist_to C t j"
proof -
  let ?ys = "by_distance C t xs"
  have "sorted (map (dist_to C t) (take n ?ys @ drop n ?ys))" by (simp add: sorted_by_distance)
  moreover have "j \<in> set (drop n ?ys)"
    using assms(2) by (metis DiffE Un_iff append_take_drop_id set_append set_by_distance)
  ultimately show ?thesis using assms(1) unfolding map_append sorted_append by auto
qed

lemma sorted_take_by_distance: "sorted (map (dist_to C t) (take n (by_distance C t xs)))"
  using sorted_by_distance [of C t xs] by (metis sorted_wrt_take take_map)

lemma closest_to_share_split:
  "closest_to_share C nd t n so =
     (let a = take n (by_distance C t (sharable True so nd))
      in a @ take (n - length a) (by_distance C t (sharable False so nd)))"
  by (simp add: closest_to_share_def sharable_def Let_def)

text \<open>
  Whom a node names to others: at most \<open>n\<close>; first the closest of the nodes that answered
  it, by distance, and addresses that never answered only when every node that did is already
  in the list; none that failed its last exchange; and within each kind nothing closer is left out.
\<close>

theorem closest_to_share_spec:
  "\<exists>a b. closest_to_share C nd t n so = a @ b \<and> length (a @ b) \<le> n \<and>
     sorted (map (dist_to C t) a) \<and> sorted (map (dist_to C t) b) \<and>
     set a \<subseteq> set (sharable True so nd) \<and> set b \<subseteq> set (sharable False so nd) \<and>
     (b = [] \<or> set a = set (sharable True so nd)) \<and>
     (\<forall>i \<in> set a. \<forall>j \<in> set (sharable True so nd) - set a. dist_to C t i \<le> dist_to C t j) \<and>
     (\<forall>i \<in> set b. \<forall>j \<in> set (sharable False so nd) - set b. dist_to C t i \<le> dist_to C t j)"
proof -
  let ?T = "sharable True so nd" let ?F = "sharable False so nd"
  let ?a = "take n (by_distance C t ?T)"
  let ?b = "take (n - length ?a) (by_distance C t ?F)"
  have "?b = [] \<or> set ?a = set ?T"
  proof (cases "length ?T < n")
    case True
    then have "?a = by_distance C t ?T" by simp
    then show ?thesis by simp
  qed simp
  moreover have "set ?a \<subseteq> set ?T" "set ?b \<subseteq> set ?F" by (auto dest: in_set_takeD)
  ultimately show ?thesis
    unfolding closest_to_share_split Let_def
    by (intro exI [of _ ?a] exI [of _ ?b]) (auto simp: sorted_take_by_distance intro: take_by_distance)
qed

text \<open>
  The answers of a node do not depend on the iteration order of its hash map: two tables
  with the same entries give the same closest nodes and share the same nodes, as long as no
  two known nodes are at the same distance of the target (their ids collide).
\<close>

lemma closest_order_independent:
  assumes "mset (nd_peers nd) = mset (nd_peers nd')"
    and "inj_on (dist_to C t) (pe_info ` snd ` set (nd_peers nd))"
  shows "closest C nd t n so = closest C nd' t n so \<and>
         closest_to_share C nd t n so = closest_to_share C nd' t n so"
proof -
  let ?all = "pe_info ` snd ` set (nd_peers nd)"
  have same: "by_distance C t (map pe_info (filter P (map snd (nd_peers nd)))) =
              by_distance C t (map pe_info (filter P (map snd (nd_peers nd'))))" for P
  proof -
    have m: "mset (map pe_info (filter P (map snd (nd_peers nd)))) = mset (map pe_info (filter P (map snd (nd_peers nd'))))"
      using assms(1) by simp
    have "inj_on (dist_to C t) (set (map pe_info (filter P (map snd (nd_peers nd)))))"
      by (rule inj_on_subset [OF assms(2)]) auto
    from sort_key_inj_key_eq [OF _ this, of "by_distance C t (map pe_info (filter P (map snd (nd_peers nd'))))"] m
    show ?thesis by (simp add: by_distance_def)
  qed
  have empty: "filter P (map snd (nd_peers nd)) = [] \<longleftrightarrow> filter P (map snd (nd_peers nd')) = []" for P
    using assms(1) by (metis mset_filter mset_map mset_zero_iff)
  have "by_distance C t (sharable c so nd) = by_distance C t (sharable c so nd')" for c
    using same [of "\<lambda>p. usable so p \<and> pe_confirmed p = c \<and> pe_failures p = 0"]
    by (simp add: sharable_def conj_commute conj_left_commute)
  then have "closest_to_share C nd t n so = closest_to_share C nd' t n so"
    by (simp add: closest_to_share_split)
  moreover have "closest C nd t n so = closest C nd' t n so"
    using same [of "usable so"] same [of "\<lambda>p. usable so p \<and> pe_failures p = 0"]
      empty [of "\<lambda>p. usable so p \<and> pe_failures p = 0"]
    by (simp add: closest_def Let_def conj_commute)
  ultimately show ?thesis by simp
qed

section \<open>What requests do to the storage\<close>

text \<open>Which items a request may add: the admitted item of a store with its work done.\<close>

definition may_add :: "crypto \<Rightarrow> NodeConfig \<Rightarrow> StoreLimits \<Rightarrow> u64 \<Rightarrow> bytes \<Rightarrow> DhtRequest \<Rightarrow> 's Node \<Rightarrow> StoredItem set" where
  "may_add C cfg lim now ch req nd =
     (case req of
        Store item pow \<Rightarrow>
          {it. node_stores nd \<and> pow_ok C ch item pow (pow_difficulty cfg) \<and> admit item lim now = Inr it}
      | _ \<Rightarrow> {})"

context dht_storage
begin

lemma handle_ok:
  assumes "ok (nd_storage nd)"
  shows "ok (nd_storage (snd (handle C cfg S now ch env nd)))"
  using assms put_ok [OF assms] delete_ok [OF assms]
  by (auto simp: handle_node split: DhtRequest.splits sum.splits)

lemma handle_within:
  assumes "ok (nd_storage nd)" and "within_limits lim (items (nd_storage nd))"
  shows "within_limits lim (items (nd_storage (snd (handle C cfg S now ch env nd))))"
  using assms put_within [OF assms] delete_items [OF assms(1)]
  by (auto simp: handle_node within_limits_filter split: DhtRequest.splits sum.splits)

lemma handle_adds:
  assumes "ok (nd_storage nd)"
  shows "set (items (nd_storage (snd (handle C cfg S now ch env nd))))
           \<subseteq> set (items (nd_storage nd)) \<union> may_add C cfg lim now ch (env_req env) nd"
proof (cases "env_req env")
  case (Store item pow)
  show ?thesis
  proof (cases "s_put S (nd_storage nd) item now")
    case (Inr st)
    from put_admitted [OF assms Inr] Store Inr show ?thesis by (auto simp: handle_node may_add_def)
  qed (use Store in \<open>simp add: handle_node\<close>)
qed (use delete_items [OF assms] in \<open>auto simp: handle_node\<close>)

lemma handle_keeps:
  assumes "ok (nd_storage nd)" and "\<forall>item pow. env_req env \<noteq> Store item pow"
  shows "items (nd_storage (snd (handle C cfg S now ch env nd))) =
           filter (\<lambda>it. \<forall>key t. env_req env = Delete key t \<longrightarrow> \<not> deletable C key t it) (items (nd_storage nd))"
  using assms delete_items [OF assms(1)]
  by (cases "env_req env") (simp_all add: handle_node)

lemma handle_stored:
  assumes "ok (nd_storage nd)" and "env_req env = Store item pow"
    and "fst (handle C cfg S now ch env nd) = Stored"
  shows "\<exists>x \<in> set (items (nd_storage (snd (handle C cfg S now ch env nd)))).
           item_key x = item_key item \<and> sha256 C [item_value x] = sha256 C [item_value item]"
proof -
  obtain st where p: "s_put S (nd_storage nd) item now = Inr st"
    and "nd_storage (snd (handle C cfg S now ch env nd)) = st"
    using assms(2,3) unfolding handle_node unfolding handle_def heard_def [symmetric]
    by (auto simp: Let_def split: if_splits sum.splits)
  with put_held [OF assms(1) p] show ?thesis by simp
qed

end

text \<open>
  A request changes what a node holds only as it should: whatever is asked, the store stays
  well-formed and within its limits, nothing comes in but the admitted item of a store request
  that carries its proof of work for this connection to a node that stores, and nothing is lost
  to a request other than a store but what a deletion with the right token removes. An answer
  \<open>Stored\<close> means that the value is held.
\<close>

theorem handle_storage_contract:
  assumes "inner_inv (nd_storage nd)" and "within_limits lim (held (nd_storage nd))"
    and "handle C cfg (mem_storage C lim) now ch env nd = (resp, nd')"
  shows "inner_inv (nd_storage nd') \<and> within_limits lim (held (nd_storage nd')) \<and>
    set (held (nd_storage nd')) \<subseteq> set (held (nd_storage nd)) \<union> may_add C cfg lim now ch (env_req env) nd \<and>
    (\<forall>key t. env_req env = Delete key t \<longrightarrow>
       held (nd_storage nd') = filter (\<lambda>it. \<not> deletable C key t it) (held (nd_storage nd))) \<and>
    (\<forall>item pow. env_req env = Store item pow \<and> resp = Stored \<longrightarrow>
       (\<exists>x \<in> set (held (nd_storage nd')). item_key x = item_key item \<and>
          sha256 C [item_value x] = sha256 C [item_value item])) \<and>
    (env_req env \<in> {Ping} \<union> range FindNode \<union> {Get k n |k n. True} \<longrightarrow> held (nd_storage nd') = held (nd_storage nd))"
proof -
  let ?S = "mem_storage C lim"
  have h: "snd (handle C cfg ?S now ch env nd) = nd'" "fst (handle C cfg ?S now ch env nd) = resp"
    by (simp_all add: assms(3))
  have "inner_inv (nd_storage nd')" using mem.handle_ok [OF assms(1), where C = C and lim = lim and cfg = cfg and now = now and ch = ch and env = env] h
    by simp
  moreover have "within_limits lim (held (nd_storage nd'))"
    using mem.handle_within [OF assms(1,2), where C = C and cfg = cfg and now = now and ch = ch and env = env] h by simp
  moreover have "set (held (nd_storage nd')) \<subseteq> set (held (nd_storage nd)) \<union> may_add C cfg lim now ch (env_req env) nd"
    using mem.handle_adds [OF assms(1), where C = C and lim = lim and cfg = cfg and now = now and ch = ch and env = env] h by simp
  moreover have "held (nd_storage nd') = filter (\<lambda>it. \<forall>key t. env_req env = Delete key t \<longrightarrow> \<not> deletable C key t it) (held (nd_storage nd))"
    if "\<forall>item pow. env_req env \<noteq> Store item pow"
    using mem.handle_keeps [OF assms(1) that, where C = C and lim = lim and cfg = cfg and now = now and ch = ch] h by simp
  moreover have "\<exists>x \<in> set (held (nd_storage nd')). item_key x = item_key item \<and>
          sha256 C [item_value x] = sha256 C [item_value item]" if "env_req env = Store item pow" "resp = Stored" for item pow
    using mem.handle_stored [OF assms(1) that(1), where C = C and lim = lim and cfg = cfg and now = now and ch = ch] h that(2) by simp
  ultimately show ?thesis by (cases "env_req env") (simp_all add: image_iff)
qed

section \<open>Paging\<close>

lemma get_page_spec:
  "get_page limit acc used xs = (ys, m) \<Longrightarrow>
     \<exists>zs rest. ys = acc @ zs \<and> xs = zs @ rest \<and> m = (rest \<noteq> []) \<and> (acc = [] \<and> xs \<noteq> [] \<longrightarrow> zs \<noteq> [])"
proof (induction limit acc used xs rule: get_page.induct)
  case (2 limit items used it rest)
  show ?case
  proof (cases "items \<noteq> [] \<and> used + item_len it > limit")
    case True
    with "2.prems" show ?thesis by auto
  next
    case False
    with "2.prems" have "get_page limit (items @ [it]) (used + item_len it) rest = (ys, m)" by simp
    with 2 False obtain zs r where "ys = (items @ [it]) @ zs" "rest = zs @ r" "m = (r \<noteq> [])" by blast
    then show ?thesis by (intro exI [of _ "it # zs"] exI [of _ r]) simp
  qed
qed simp

text \<open>
  A network in which the other end is a node of this program: the world is that node, and a call
  is its \<open>handle\<close>.
\<close>

definition node_net :: "crypto \<Rightarrow> NodeConfig \<Rightarrow> 's storage \<Rightarrow> u64 \<Rightarrow> bytes \<Rightarrow> 's Node net" where
  "node_net C cfg S now ch = \<lparr>
     net_open = (\<lambda>remote _. (Some ch, remote)),
     net_call = (\<lambda>remote _ env. (Some (fst (handle C cfg S now ch env remote)), snd (handle C cfg S now ch env remote))),
     net_now = (\<lambda>_. now)\<rparr>"

lemma handle_get:
  assumes "node_stores remote" and "env_req env = Get key skip"
  obtains items m closer where
    "fst (handle C cfg S now ch env remote) = Items items m closer"
    "get_page (max_get_bytes cfg) [] 0 (drop (unat skip) (s_get S (nd_storage remote) key now)) = (items, m)"
proof -
  let ?p = "get_page (max_get_bytes cfg) [] 0 (drop (unat skip) (s_get S (nd_storage remote) key now))"
  obtain items m where p: "?p = (items, m)" by (cases ?p)
  have "fst (handle C cfg S now ch env remote) = Items items m (closest_to_share C (heard cfg now env remote) key (cfg_k cfg) True)"
    using assms p unfolding handle_def heard_def [symmetric] by (simp add: Let_def)
  with p that show thesis by blast
qed

lemma handle_get_node:
  assumes "env_req env = Get key skip"
  shows "nd_storage (snd (handle C cfg S now ch env remote)) = nd_storage remote"
    and "node_stores (snd (handle C cfg S now ch env remote)) = node_stores remote"
  using assms by (simp_all add: handle_node node_stores_def)

lemma items_at_loop_honest:
  assumes "node_stores remote" and "s_get S (nd_storage remote) key now = out @ rest"
    and "length (out @ rest) < 2 ^ 32" and "length rest < fuel"
  shows "\<exists>s1. items_at_loop cfg (node_net C cfg' S now ch) d key fuel out (nd, remote) = Some (Some (out @ rest), s1)"
  using assms
proof (induction fuel arbitrary: out rest nd remote)
  case (Suc fuel)
  let ?N = "node_net C cfg' S now ch"
  let ?env = "envelope nd (Get key (of_nat (length out)))"
  let ?r = "snd (handle C cfg' S now ch ?env remote)"
  have sk: "unat (of_nat (length out) :: u32) = length out" using Suc.prems(3) by simp
  have env: "env_req ?env = Get key (of_nat (length out))" by (simp add: envelope_def)
  obtain items m closer where h: "fst (handle C cfg' S now ch ?env remote) = Items items m closer"
    and p: "get_page (max_get_bytes cfg') [] 0 rest = (items, m)"
    using handle_get [OF Suc.prems(1) env, of C cfg' S now ch] Suc.prems(2) sk by auto
  have ex: "exchange cfg ?N d (Get key (of_nat (length out))) (nd, remote) = (Some (Items items m closer), nd, ?r)"
    using h by (simp add: exchange_def node_net_def)
  obtain rest' where r: "rest = items @ rest'" "m = (rest' \<noteq> [])" "rest \<noteq> [] \<longrightarrow> items \<noteq> []"
    using get_page_spec [OF p] by auto
  let ?nd1 = "foldl (\<lambda>nd c. learn cfg (net_now ?N ?r) c False nd) nd closer"
  show ?case
  proof (cases "rest' = []")
    case True
    with r ex show ?thesis by (simp add: Let_def)
  next
    case False
    note hn = handle_get_node [OF env, of C cfg' S now ch remote]
    have "\<exists>s1. items_at_loop cfg ?N d key fuel (out @ items) (?nd1, ?r) = Some (Some ((out @ items) @ rest'), s1)"
    proof (rule Suc.IH)
      have "0 < length items" using r False by simp
      moreover have "length items + length rest' < Suc fuel" using Suc.prems(4) r(1) by simp
      ultimately show "length rest' < fuel" by linarith
    qed (use Suc.prems r hn in auto)
    with r False ex show ?thesis by (auto simp: Let_def)
  qed
qed simp

text \<open>
  Paging is complete: asking a storing node of this program for a key, page by page, ends
  (within one call per item, and one more) and returns exactly what that node's storage holds for
  the key, in its order, however small the node makes its pages.
\<close>

theorem items_at_complete:
  assumes "node_stores remote" and "length (s_get S (nd_storage remote) key now) < 2 ^ 32"
    and "length (s_get S (nd_storage remote) key now) < fuel"
  shows "\<exists>s1. items_at cfg (node_net C cfg' S now ch) fuel key node (nd, remote) =
           Some (Some (s_get S (nd_storage remote) key now), s1)"
proof -
  have "dht_open cfg (node_net C cfg' S now ch) (destination node) (nd, remote) = (Some ch, touch (destination node) nd, remote)"
    by (simp add: dht_open_def node_net_def Let_def)
  then show ?thesis
    using items_at_loop_honest [OF assms(1), where S = S and key = key and now = now and out = "[]"
        and rest = "s_get S (nd_storage remote) key now" and fuel = fuel and cfg = cfg and C = C and cfg' = cfg' and ch = ch
        and d = "destination node" and nd = "touch (destination node) nd"] assms(2,3)
    by (simp add: items_at_def)
qed

text \<open>
  Nothing bounds what one node may send: a node that answers every request for a page with
  one more item and the promise of more keeps the caller in its loop without end.
\<close>

theorem items_at_unbounded:
  assumes "\<And>w d env. fst (net_call N w d env) = Some (Items [it] True [])"
  shows "items_at_loop cfg N d key fuel out s = None"
proof (induction fuel arbitrary: out s)
  case (Suc fuel)
  obtain w where "net_call N (snd s) d (envelope (fst s) (Get key (of_nat (length out)))) = (Some (Items [it] True []), w)"
    using assms by (metis prod.collapse)
  then show ?case using Suc by (simp add: exchange_def Let_def)
qed simp

section \<open>Lookups\<close>

text \<open>A network that remembers which connections were opened and what was replied to what.\<close>

datatype net_event = Opened bytes | Replied bytes DhtRequest DhtResponse

definition logged :: "'w net \<Rightarrow> ('w \<times> net_event list) net" where
  "logged N = \<lparr>
     net_open = (\<lambda>(w, log) d. case net_open N w d of (c, w') \<Rightarrow> (c, w', log @ [Opened d])),
     net_call = (\<lambda>(w, log) d env. case net_call N w d env of
        (None, w') \<Rightarrow> (None, w', log)
      | (Some r, w') \<Rightarrow> (Some r, w', log @ [Replied d (env_req env) r])),
     net_now = (\<lambda>(w, log). net_now N w)\<rparr>"

text \<open>A node that answered a lookup for itself.\<close>

definition answered :: "net_event list \<Rightarrow> DhtKey \<Rightarrow> NodeInfo \<Rightarrow> bool" where
  "answered log t i \<longleftrightarrow> (\<exists>nodes. Replied (destination i) (FindNode t) (Nodes (Some i) nodes) \<in> set log)"

lemma ask_logged:
  assumes "ask cfg (logged N) d req (nd, w, log) = (r, nd', w', log')"
  shows "ask cfg N d req (nd, w) = (r, nd', w')"
    and "set log' = insert (Opened d) (set log) \<union> (case r of None \<Rightarrow> {} | Some x \<Rightarrow> {Replied d req x})"
  using assms
  by (auto simp: ask_def dht_open_def exchange_def logged_def envelope_def Let_def split: option.splits prod.splits)

text \<open>What the log says of a list of replies.\<close>

definition log_of :: "DhtKey \<Rightarrow> (NodeInfo \<times> DhtResponse option) list \<Rightarrow> net_event set" where
  "log_of t replies = (\<lambda>(n, r). Opened (destination n)) ` set replies \<union>
     {Replied (destination n) (FindNode t) x |n x. (n, Some x) \<in> set replies}"

lemma replies_logged:
  "map_state (find_node_at cfg (logged N) t) batch (nd, w, log) = (replies, nd', w', log') \<Longrightarrow>
     map_state (find_node_at cfg N t) batch (nd, w) = (replies, nd', w') \<and> set log' = set log \<union> log_of t replies"
proof (induction batch arbitrary: nd w log replies)
  case Nil
  then show ?case by (simp add: log_of_def)
next
  case (Cons n batch)
  obtain r nd1 w1 log1 where a: "ask cfg (logged N) (destination n) (FindNode t) (nd, w, log) = (r, nd1, w1, log1)"
    by (metis prod_cases4)
  have f: "find_node_at cfg (logged N) t n (nd, w, log) = ((n, r), nd1, w1, log1)" using a by (simp add: find_node_at_def)
  obtain rs where m: "map_state (find_node_at cfg (logged N) t) batch (nd1, w1, log1) = (rs, nd', w', log')"
    and replies: "replies = (n, r) # rs"
    using Cons.prems f by (auto split: prod.splits)
  note IH = Cons.IH [OF m]
  have "log_of t replies = insert (Opened (destination n))
      (case r of None \<Rightarrow> {} | Some x \<Rightarrow> {Replied (destination n) (FindNode t) x}) \<union> log_of t rs"
    unfolding replies log_of_def by (cases r) auto
  then have "set log' = set log \<union> log_of t replies" using IH ask_logged(2) [OF a] by auto
  moreover have "find_node_at cfg N t n (nd, w) = ((n, r), nd1, w1)" using ask_logged(1) [OF a] by (simp add: find_node_at_def)
  ultimately show ?case using IH replies by simp
qed

text \<open>The answers a lookup has collected are those in the log.\<close>

definition lookup_inv :: "net_event set \<Rightarrow> DhtKey \<Rightarrow> answers \<Rightarrow> bool" where
  "lookup_inv L t ans \<longleftrightarrow> distinct (keys ans) \<and>
     (\<forall>(d, i) \<in> set ans. destination i = d \<and> (\<exists>nodes. Replied d (FindNode t) (Nodes (Some i) nodes) \<in> L)) \<and>
     (\<forall>i nodes. Replied (destination i) (FindNode t) (Nodes (Some i) nodes) \<in> L \<longrightarrow> destination i \<in> set (keys ans))"

lemma take_reply_inv:
  assumes "lookup_inv L t ans"
  shows "lookup_inv (L \<union> log_of t [(n, r)]) t (fst (take_reply cfg now (ans, nd) (n, r)))"
proof (cases "\<exists>i nodes. r = Some (Nodes (Some i) nodes) \<and> destination i = destination n")
  case True
  then obtain i nodes where r: "r = Some (Nodes (Some i) nodes)" "destination i = destination n" by blast
  then have ans: "fst (take_reply cfg now (ans, nd) (n, r)) = hm_insert (destination n) i ans" by (simp add: take_reply_def)
  let ?L = "insert (Opened (destination n)) (insert (Replied (destination n) (FindNode t) (Nodes (Some i) nodes)) L)"
  have log: "L \<union> log_of t [(n, r)] = ?L" by (auto simp: log_of_def r)
  have keys: "set (keys (hm_insert (destination n) i ans)) = insert (destination n) (set (keys ans))"
    by (auto simp: dom_map_of_conv_image_fst [symmetric] update_conv')
  have old: "\<And>d x. (d, x) \<in> set ans \<Longrightarrow> destination x = d \<and> (\<exists>ns. Replied d (FindNode t) (Nodes (Some x) ns) \<in> L)"
    "\<And>x ns. Replied (destination x) (FindNode t) (Nodes (Some x) ns) \<in> L \<Longrightarrow> destination x \<in> set (keys ans)"
    using assms unfolding lookup_inv_def by blast+
  have "destination x = d \<and> (\<exists>ns. Replied d (FindNode t) (Nodes (Some x) ns) \<in> ?L)" if "(d, x) \<in> set (hm_insert (destination n) i ans)" for d x
  proof (cases "(d, x) \<in> set ans")
    case False
    then have "d = destination n" "x = i" using that set_hm_insert [of "destination n" i ans] by auto
    then show ?thesis using r(2) by blast
  qed (use old(1) in blast)
  moreover have "destination x \<in> insert (destination n) (set (keys ans))" if "Replied (destination x) (FindNode t) (Nodes (Some x) ns) \<in> ?L" for x ns
    using that old(2) [of x ns] by auto
  moreover have "distinct (keys (hm_insert (destination n) i ans))" using assms by (simp add: lookup_inv_def)
  ultimately show ?thesis unfolding ans log lookup_inv_def keys by blast
next
  case False
  then have "fst (take_reply cfg now (ans, nd) (n, r)) = ans"
    by (auto simp: take_reply_def split: option.splits DhtResponse.splits)
  then show ?thesis using assms False by (auto simp: lookup_inv_def log_of_def)
qed

lemma log_of_Cons: "log_of t ((n, r) # rs) = log_of t [(n, r)] \<union> log_of t rs"
  by (auto simp: log_of_def)

lemma take_replies_inv:
  "lookup_inv L t ans \<Longrightarrow> lookup_inv (L \<union> log_of t rs) t (fst (foldl (take_reply cfg now) (ans, nd) rs))"
proof (induction rs arbitrary: L ans nd)
  case Nil
  then show ?case by (simp add: log_of_def)
next
  case (Cons nr rs)
  obtain n r where nr: "nr = (n, r)" by (cases nr)
  obtain ans1 nd1 where t: "take_reply cfg now (ans, nd) (n, r) = (ans1, nd1)" by fastforce
  have "lookup_inv (L \<union> log_of t [(n, r)]) t ans1" using take_reply_inv [OF Cons.prems, of n r cfg now nd] t by simp
  from Cons.IH [OF this, of nd1] show ?case unfolding nr log_of_Cons [of t n r rs] by (simp add: t Un_assoc)
qed

lemma map_fst_find_node: "map fst (fst (map_state (find_node_at cfg N t) ns s)) = ns"
  by (induction ns arbitrary: s) (auto simp: find_node_at_def split_beta)

lemma set_mark: "set (mark batch q) = set q \<union> destination ` set batch"
  by (induction batch arbitrary: q) auto

lemma lookup_round_logged:
  assumes "lookup_round cfg (logged N) t batch ans (nd, w, log) = (ans', nd', w', log')" and "lookup_inv (set log) t ans"
  shows "lookup_round cfg N t batch ans (nd, w) = (ans', nd', w')" and "lookup_inv (set log') t ans'"
    and "set log \<union> Opened ` destination ` set batch \<subseteq> set log'"
proof -
  obtain replies nd1 w1 log1 where m: "map_state (find_node_at cfg (logged N) t) batch (nd, w, log) = (replies, nd1, w1, log1)"
    by (metis prod_cases4)
  note m' = replies_logged [OF m]
  have fold: "foldl (take_reply cfg (net_now N w1)) (ans, nd1) replies = (ans', nd')" and e: "w' = w1" "log' = log1"
    using assms(1) m by (auto simp: lookup_round_def logged_def split: prod.splits)
  show "lookup_round cfg N t batch ans (nd, w) = (ans', nd', w')" using m' fold e by (simp add: lookup_round_def)
  show "lookup_inv (set log') t ans'" using take_replies_inv [OF assms(2), of replies cfg "net_now N w1" nd1] fold m' e by simp
  have "map fst replies = batch" using map_fst_find_node [of cfg "logged N" t batch "(nd, w, log)"] m by simp
  then show "set log \<union> Opened ` destination ` set batch \<subseteq> set log'"
    using m' e by (auto simp: log_of_def image_iff split_beta)
qed

lemma closest_prefix: "n \<le> m \<Longrightarrow> set (closest C nd t n so) \<subseteq> set (closest C nd t m so)"
  by (simp add: closest_def Let_def set_take_subset_set_take)

lemma next_batch_empty:
  assumes "alpha cfg > 0" and "next_batch C cfg t q nd = []"
  shows "k_closest_asked C cfg t q nd"
proof -
  have "\<forall>n \<in> set (closest C nd t (cfg_k cfg * 2) False). destination n \<in> set q"
    using assms by (auto simp: next_batch_def filter_empty_conv)
  moreover have "set (closest C nd t (cfg_k cfg) False) \<subseteq> set (closest C nd t (cfg_k cfg * 2) False)"
    by (rule closest_prefix) simp
  ultimately show ?thesis by (auto simp: k_closest_asked_def list_all_iff)
qed

lemma lookup_loop_logged:
  assumes "alpha cfg > 0"
  shows "lookup_inv (set log) t ans \<Longrightarrow> Opened ` set q \<subseteq> set log \<Longrightarrow>
     lookup_loop C cfg (logged N) t fuel q ans (nd, w, log) = Some (ans', q', nd', w', log') \<Longrightarrow>
     lookup_loop C cfg N t fuel q ans (nd, w) = Some (ans', q', nd', w') \<and> lookup_inv (set log') t ans' \<and>
     Opened ` set q' \<subseteq> set log' \<and> k_closest_asked C cfg t q' nd'"
proof (induction fuel arbitrary: q ans nd w log)
  case (Suc fuel)
  let ?batch = "next_batch C cfg t q nd"
  show ?case
  proof (cases "?batch = [] \<or> k_closest_asked C cfg t q nd")
    case True
    with Suc.prems next_batch_empty [OF assms] show ?thesis by (auto simp: Let_def)
  next
    case False
    obtain ans1 nd1 w1 log1 where r: "lookup_round cfg (logged N) t ?batch ans (nd, w, log) = (ans1, nd1, w1, log1)"
      by (metis prod_cases4)
    note r' = lookup_round_logged [OF r Suc.prems(1)]
    have "Opened ` set (mark ?batch q) \<subseteq> set log1" using r'(3) Suc.prems(2) by (auto simp: set_mark)
    moreover have "lookup_loop C cfg (logged N) t fuel (mark ?batch q) ans1 (nd1, w1, log1) = Some (ans', q', nd', w', log')"
      using Suc.prems(3) False r by (simp add: Let_def)
    ultimately show ?thesis using Suc.IH [OF r'(2)] r'(1) False by (simp add: Let_def)
  qed
qed simp


subsection \<open>When a lookup ends\<close>

text \<open>A network whose answers name only nodes of a given set of addresses.\<close>

definition net_within :: "'w net \<Rightarrow> bytes set \<Rightarrow> bool" where
  "net_within N U \<longleftrightarrow> (\<forall>w d env r w'. net_call N w d env = (Some r, w') \<longrightarrow> destination ` infos_of r \<subseteq> U)"

lemma net_withinD: "net_within N U \<Longrightarrow> net_call N w d env = (Some r, w') \<Longrightarrow> i \<in> infos_of r \<Longrightarrow> destination i \<in> U"
  by (fastforce simp: net_within_def)

definition known_within :: "NodeConfig \<Rightarrow> bytes set \<Rightarrow> 's Node \<Rightarrow> bool" where
  "known_within cfg U nd \<longleftrightarrow> node_inv cfg nd \<and> set (keys (nd_peers nd)) \<subseteq> U"

lemma trim_keys: "set (keys (trim_peers cfg ps)) \<subseteq> set (keys ps)"
  using trim_subset [of cfg ps] by auto

lemma keys_hm_insert_subset: "set (keys (hm_insert d p ps)) \<subseteq> insert d (set (keys ps))"
  using set_hm_insert [of d p ps] by auto

lemma learn_keys: "set (keys (nd_peers (learn cfg now i c nd))) \<subseteq> insert (destination i) (set (keys (nd_peers nd)))"
proof -
  have "set (keys (trim_peers cfg (hm_insert (destination i) p ps))) \<subseteq> insert (destination i) (set (keys ps))" for p ps
    using trim_keys keys_hm_insert_subset by (rule subset_trans)
  moreover have "set (keys (trim_peers cfg (hm_modify (destination i) f ps))) \<subseteq> insert (destination i) (set (keys ps))" for f ps
    using trim_keys [of cfg "hm_modify (destination i) f ps"] by (simp only: keys_hm_modify) blast
  moreover have "set (keys ps) \<subseteq> insert (destination i) (set (keys ps))" for ps :: peers by blast
  ultimately show ?thesis unfolding learn_def by (simp only: Let_def split_beta split: if_split option.split) simp
qed

lemma known_within_learn: "known_within cfg U nd \<Longrightarrow> destination i \<in> U \<Longrightarrow> known_within cfg U (learn cfg now i c nd)"
  using learn_keys [of cfg now i c nd] unfolding known_within_def by (blast intro: learn_inv)

lemma known_within_rest:
  "known_within cfg U nd \<Longrightarrow> known_within cfg U (failed cfg d nd)"
  "known_within cfg U nd \<Longrightarrow> known_within cfg U (forget d nd)"
  "known_within cfg U nd \<Longrightarrow> known_within cfg U (touch d nd)"
proof -
  assume k: "known_within cfg U nd"
  then have inv: "node_inv cfg nd" and sub: "set (keys (nd_peers nd)) \<subseteq> U" by (auto simp: known_within_def)
  have "set (keys (nd_peers (failed cfg d nd))) \<subseteq> set (keys (nd_peers nd))"
    by (force simp: failed_def set_hm_remove set_hm_modify split: option.splits if_splits)
  moreover have "set (keys (nd_peers (forget d nd))) \<subseteq> set (keys (nd_peers nd))"
    by (auto simp: forget_def set_hm_remove)
  moreover have "set (keys (nd_peers (touch d nd))) = set (keys (nd_peers nd))"
    by (simp only: touch_def split: option.splits) simp
  ultimately show "known_within cfg U (failed cfg d nd)" "known_within cfg U (forget d nd)" "known_within cfg U (touch d nd)"
    using inv sub unfolding known_within_def by (blast intro: failed_inv forget_inv touch_inv)+
qed

lemma within_table_invariant:
  assumes "net_within N U"
  shows "table_invariant cfg N (\<lambda>i. destination i \<in> U) (known_within cfg U)"
  using assms by unfold_locales (auto intro: known_within_learn known_within_rest net_withinD)

lemma closest_known:
  assumes "known_within cfg U nd" and "n \<in> set (closest C nd t m so)"
  shows "destination n \<in> U"
proof -
  obtain d p where "(d, p) \<in> set (nd_peers nd)" "n = pe_info p"
    using assms(2) by (auto simp: closest_def Let_def dest!: in_set_takeD split: if_splits)
  with assms(1) have "destination n = d" "d \<in> U"
    by (auto simp: known_within_def node_inv_def peers_ok_def peer_ok_def)
  then show ?thesis by simp
qed

lemma lookup_loop_ends:
  assumes "net_within N U" and "finite U"
  shows "known_within cfg U (fst s) \<Longrightarrow> card (U - set q) < fuel \<Longrightarrow> lookup_loop C cfg N t fuel q ans s \<noteq> None"
proof (induction fuel arbitrary: q ans s)
  case (Suc fuel)
  let ?batch = "next_batch C cfg t q (fst s)"
  show ?case
  proof (cases "?batch = [] \<or> k_closest_asked C cfg t q (fst s)")
    case False
    obtain ans1 s1 where r: "lookup_round cfg N t ?batch ans s = (ans1, s1)"
      by (cases "lookup_round cfg N t ?batch ans s")
    have k1: "known_within cfg U (fst s1)"
      using table_invariant.lookup_round_P [OF within_table_invariant [OF assms(1)] Suc.prems(1), of t ?batch ans] r by simp
    obtain n where n: "n \<in> set ?batch" using False by (meson list.set_sel(1))
    then have "destination n \<in> U" "destination n \<notin> set q"
      using closest_known [OF Suc.prems(1)] by (auto simp: next_batch_def dest!: in_set_takeD)
    with n have "U - set (mark ?batch q) \<subset> U - set q" by (auto simp: set_mark)
    then have "card (U - set (mark ?batch q)) < card (U - set q)"
      by (intro psubset_card_mono) (use assms(2) in auto)
    with Suc.prems(2) have "card (U - set (mark ?batch q)) < fuel" by simp
    from Suc.IH [OF k1 this] False r show ?thesis by (simp add: Let_def)
  qed (auto simp: Let_def)
qed simp

text \<open>
  C23. A lookup ends: in a network in which only finitely many addresses exist, it takes no more
  rounds than there are addresses, and one to see that it is done. (Nothing else ends it: the
  source sets no bound on the rounds.)
\<close>

theorem lookup_terminates:
  assumes "net_within N U" and "finite U" and "node_inv cfg (fst s)" and "set (keys (nd_peers (fst s))) \<subseteq> U"
    and "card U < fuel"
  shows "lookup C cfg N fuel t s \<noteq> None"
  using lookup_loop_ends [OF assms(1,2), of cfg s "[]" fuel C t "[]"] assms(3-5)
  by (simp add: lookup_def known_within_def)

section \<open>Putting, getting and deleting\<close>

lemma add_target_sets:
  "destination s \<in> destination ` set (add_target ts s)"
  "set ts \<subseteq> set (add_target ts s)"
  "set (add_target ts s) \<subseteq> insert s (set ts)"
  "distinct (map destination ts) \<Longrightarrow> distinct (map destination (add_target ts s))"
proof -
  show "destination s \<in> destination ` set (add_target ts s)"
  proof (cases "list_ex (\<lambda>t. destination t = destination s) ts")
    case True
    then obtain t where "t \<in> set ts" "destination t = destination s" by (auto simp: list_ex_iff)
    with True show ?thesis by (metis add_target_def imageI)
  qed (simp add: add_target_def)
qed (auto simp: add_target_def list_ex_iff)

lemma foldl_add_target:
  "set ts \<subseteq> set (foldl add_target ts seeds) \<and>
   destination ` set seeds \<subseteq> destination ` set (foldl add_target ts seeds) \<and>
   set (foldl add_target ts seeds) \<subseteq> set ts \<union> set seeds"
proof (induction seeds arbitrary: ts)
  case (Cons s seeds)
  have "set (add_target ts s) \<subseteq> set (foldl add_target (add_target ts s) seeds)"
    "destination ` set seeds \<subseteq> destination ` set (foldl add_target (add_target ts s) seeds)"
    "set (foldl add_target (add_target ts s) seeds) \<subseteq> set (add_target ts s) \<union> set seeds"
    using Cons [of "add_target ts s"] by blast+
  moreover from this(1) have "destination s \<in> destination ` set (foldl add_target (add_target ts s) seeds)"
    using add_target_sets(1) [of s ts] by blast
  ultimately show ?case using add_target_sets(2,3) [of ts s] by auto
qed simp

text \<open>
  Nobody can surround a key: whatever the lookup for an item's key was told, the nodes the
  item is then stored at, read from or deleted at include every known storing seed that has not
  just failed; and all of them store.
\<close>

theorem item_targets_seeds:
  assumes "item_targets C cfg N fuel key s = Some (ts, s')"
  shows "(\<forall>(d, p) \<in> set (nd_peers (fst s')).
            pe_seed p \<and> stores (pe_info p) \<and> pe_failures p = 0 \<and>
            map_option destination (nd_me (fst s')) \<noteq> Some (destination (pe_info p)) \<longrightarrow>
            destination (pe_info p) \<in> destination ` set ts) \<and>
         (\<forall>t \<in> set ts. stores t)"
proof -
  from assms obtain found where l: "lookup C cfg N fuel key s = Some (found, s')"
    and ts: "ts = foldl add_target (filter stores found) (seed_storing_nodes (fst s'))"
    by (auto simp: item_targets_def)
  have seeds: "set (seed_storing_nodes (fst s')) = {pe_info p |d p. (d, p) \<in> set (nd_peers (fst s')) \<and>
      pe_seed p \<and> stores (pe_info p) \<and> pe_failures p = 0 \<and> Some (destination (pe_info p)) \<noteq> map_option destination (nd_me (fst s'))}"
    by (force simp: seed_storing_nodes_def)
  have "destination (pe_info p) \<in> destination ` set ts"
    if "(d, p) \<in> set (nd_peers (fst s'))" "pe_seed p" "stores (pe_info p)" "pe_failures p = 0"
      "map_option destination (nd_me (fst s')) \<noteq> Some (destination (pe_info p))" for d p
  proof -
    have "pe_info p \<in> set (seed_storing_nodes (fst s'))"
      unfolding seeds using that by (metis (mono_tags, lifting) mem_Collect_eq)
    with foldl_add_target [of "filter stores found" "seed_storing_nodes (fst s')"] show ?thesis unfolding ts by blast
  qed
  moreover have "\<forall>t \<in> set ts. stores t"
    using foldl_add_target [of "filter stores found" "seed_storing_nodes (fst s')"] seeds unfolding ts by auto
  ultimately show ?thesis by auto
qed

text \<open>The state of the closure \<open>take\<close>: what was collected is of the key, live, and without repetition.\<close>

definition collected_ok :: "crypto \<Rightarrow> DhtKey \<Rightarrow> u64 \<Rightarrow> bytes list \<times> StoredItem list \<Rightarrow> bool" where
  "collected_ok C key now acc \<longleftrightarrow>
     set (fst acc) = (\<lambda>it. sha256 C [item_value it]) ` set (snd acc) \<and>
     distinct (map (\<lambda>it. sha256 C [item_value it]) (snd acc)) \<and>
     (\<forall>it \<in> set (snd acc). item_key it = key \<and> item_expires_at_ms it > now)"

lemma take_items_spec:
  "collected_ok C key now (seen, out) \<Longrightarrow>
     collected_ok C key now (take_items C key now (seen, out) its) \<and>
     set out \<subseteq> set (snd (take_items C key now (seen, out) its)) \<and>
     set (snd (take_items C key now (seen, out) its)) \<subseteq> set out \<union> set its \<and>
     (\<forall>it \<in> set its. item_key it = key \<and> item_expires_at_ms it > now \<longrightarrow>
        sha256 C [item_value it] \<in> set (fst (take_items C key now (seen, out) its)))"
proof (induction its arbitrary: seen out)
  case (Cons it its)
  let ?h = "sha256 C [item_value it]"
  have mono: "set seen' \<subseteq> set (fst (take_items C key now (seen', out') its))" for seen' out'
  proof (induction its arbitrary: seen' out')
    case (Cons a its)
    have "set seen' \<subseteq> set (fst (take_items C key now (sha256 C [item_value a] # seen', out' @ [a]) its))"
      using Cons [of "sha256 C [item_value a] # seen'" "out' @ [a]"] by simp
    with Cons [of seen' out'] show ?case by simp
  qed simp
  show ?case
  proof (cases "item_key it = key \<and> item_expires_at_ms it > now \<and> ?h \<notin> set seen")
    case True
    with Cons.prems have "collected_ok C key now (?h # seen, out @ [it])"
      by (auto simp: collected_ok_def)
    from Cons.IH [OF this] True mono [of "?h # seen" "out @ [it]"] show ?thesis by auto
  next
    case False
    from Cons.IH [OF Cons.prems] False mono [of seen out] show ?thesis by auto
  qed
qed (simp add: collected_ok_def)

lemma foldl_take_items:
  "collected_ok C key now acc \<Longrightarrow>
     collected_ok C key now (foldl (take_items C key now) acc answers) \<and>
     set (snd acc) \<subseteq> set (snd (foldl (take_items C key now) acc answers))"
proof (induction answers arbitrary: acc)
  case (Cons a answers)
  have "collected_ok C key now (take_items C key now acc a)" "set (snd acc) \<subseteq> set (snd (take_items C key now acc a))"
    using take_items_spec [of C key now "fst acc" "snd acc" a] Cons.prems by simp_all
  with Cons.IH [of "take_items C key now acc a"] show ?case by auto
qed simp

lemma length_mark_le: "length (mark batch q) \<le> length q + length batch"
proof (induction batch arbitrary: q)
  case (Cons n batch)
  have "length (mark batch (List.insert (destination n) q)) \<le> length (List.insert (destination n) q) + length batch"
    by (rule Cons)
  also have "length (List.insert (destination n) q) \<le> Suc (length q)" by (simp add: List.insert_def)
  finally show ?case by simp
qed simp

lemma get_loop_spec:
  "collected_ok C key now acc \<Longrightarrow> length q \<le> budget \<Longrightarrow>
     get_loop C cfg N fuel key now budget q ts acc s = Some (q', out, s') \<Longrightarrow>
     (\<exists>seen. collected_ok C key now (seen, out)) \<and> set (snd acc) \<subseteq> set out \<and> length q' \<le> budget"
proof (induction "budget - length q" arbitrary: q ts acc s rule: less_induct)
  case less
  let ?batch = "get_batch budget q ts"
  show ?case
  proof (cases "?batch = []")
    case True
    with less.prems show ?thesis
      by (simp add: get_loop.simps [of C cfg N fuel key now budget q]) (metis prod.collapse)
  next
    case False
    with less.prems(3) obtain ans s2 where m: "map_fuel (items_at cfg N fuel key) ?batch s = Some (ans, s2)"
      by (auto simp: get_loop.simps [of C cfg N fuel key now budget q] Let_def split: option.splits)
    let ?acc = "foldl (take_items C key now) acc (List.map_filter id ans)"
    have acc: "collected_ok C key now ?acc" "set (snd acc) \<subseteq> set (snd ?acc)"
      using foldl_take_items [OF less.prems(1)] by blast+
    have "length ?batch \<le> budget - length q" by (simp add: get_batch_def)
    with length_mark_le [of ?batch q] less.prems(2) have "length (mark ?batch q) \<le> budget" by simp
    moreover have "get_loop C cfg N fuel key now budget (mark ?batch q) (closest C (fst s2) key (cfg_k cfg) True) ?acc s2 =
        Some (q', out, s')"
      using less.prems(3) False m by (simp add: get_loop.simps [of C cfg N fuel key now budget q])
    ultimately have "(\<exists>seen. collected_ok C key now (seen, out)) \<and> set (snd ?acc) \<subseteq> set out \<and> length q' \<le> budget"
      by (rule less.hyps [OF get_batch_measure [OF False] acc(1)])
    with acc(2) show ?thesis by blast
  qed
qed

text \<open>
  What \<open>get\<close> returns, whatever the network sends: only items of the key asked for that
  have not expired, no value twice, and every live value this node itself stores.
\<close>

theorem dht_get_sound:
  assumes "dht_get C cfg S N fuel key s = Some (its, s')"
  shows "(\<forall>it \<in> set its. item_key it = key \<and> item_expires_at_ms it > net_now N (snd s)) \<and>
         distinct (map (\<lambda>it. sha256 C [item_value it]) its) \<and>
         (\<forall>it \<in> set (s_get S (nd_storage (fst s)) key (net_now N (snd s))).
            node_stores (fst s) \<and> item_key it = key \<and> item_expires_at_ms it > net_now N (snd s) \<longrightarrow>
            sha256 C [item_value it] \<in> (\<lambda>x. sha256 C [item_value x]) ` set its)"
  using assms
proof (rule dht_get_SomeE)
  let ?now = "net_now N (snd s)" let ?acc = "local_items C S key ?now (fst s)"
  fix ts s1 q
  assume g: "get_loop C cfg N fuel key ?now (cfg_k cfg + length ts) [] ts ?acc s1 = Some (q, its, s')"
  have nil: "collected_ok C key ?now ([], [])" by (simp add: collected_ok_def)
  then have acc: "collected_ok C key ?now ?acc"
    using take_items_spec [of C key ?now "[]" "[]"] by (simp add: local_items_def)
  from get_loop_spec [OF acc _ g] obtain seen where out: "collected_ok C key ?now (seen, its)" and sub: "set (snd ?acc) \<subseteq> set its"
    by auto
  have "sha256 C [item_value it] \<in> (\<lambda>x. sha256 C [item_value x]) ` set its"
    if "it \<in> set (s_get S (nd_storage (fst s)) key ?now)" "node_stores (fst s)" "item_key it = key" "item_expires_at_ms it > ?now" for it
  proof -
    have "sha256 C [item_value it] \<in> set (fst ?acc)"
      using take_items_spec [OF nil] that by (simp add: local_items_def)
    with acc sub show ?thesis unfolding collected_ok_def by blast
  qed
  with out show ?thesis by (auto simp: collected_ok_def)
qed

text \<open>
  Fetching is bounded in nodes: the loop of \<open>get\<close> asks at most as many different nodes as
  it started with and \<open>k\<close> more, however many addresses the answers invent, and it ends as soon as
  each node's own answer does.
\<close>

lemma get_loop_bounded:
  fixes s :: "'s Node \<times> 'w"
  assumes "\<And>node (st :: 's Node \<times> 'w). items_at cfg N fuel key node st \<noteq> None"
  shows "\<exists>q out s'. get_loop C cfg N fuel key now (cfg_k cfg + length ts) [] ts acc s = Some (q, out, s') \<and>
           length q \<le> cfg_k cfg + length ts"
proof -
  have m: "map_fuel (items_at cfg N fuel key) ns s \<noteq> None" for ns and s :: "'s Node \<times> 'w"
  proof (induction ns arbitrary: s)
    case (Cons n ns)
    obtain y s1 where "items_at cfg N fuel key n s = Some (y, s1)"
      using assms [of n s] by (cases "items_at cfg N fuel key n s") auto
    with Cons [of s1] show ?case by auto
  qed simp
  have "length q \<le> budget \<Longrightarrow> \<exists>q' out s'. get_loop C cfg N fuel key now budget q ts acc s = Some (q', out, s') \<and> length q' \<le> budget"
    for budget q
  proof (induction "budget - length q" arbitrary: q ts acc s rule: less_induct)
    case less
    let ?batch = "get_batch budget q ts"
    show ?case
    proof (cases "?batch = []")
      case True
      with less.prems show ?thesis by (simp add: get_loop.simps [of C cfg N fuel key now budget q])
    next
      case False
      obtain ans s2 where a: "map_fuel (items_at cfg N fuel key) ?batch s = Some (ans, s2)"
        using m [of ?batch s] by (cases "map_fuel (items_at cfg N fuel key) ?batch s") auto
      have "length ?batch \<le> budget - length q" by (simp add: get_batch_def)
      with length_mark_le [of ?batch q] less.prems have "length (mark ?batch q) \<le> budget" by simp
      from less.hyps [OF get_batch_measure [OF False] this] a False show ?thesis
        by (simp add: get_loop.simps [of C cfg N fuel key now budget q])
    qed
  qed
  from this [of "[]"] show ?thesis by simp
qed

end
