(* ===== verification/Dht_Upkeep.thy ===== *)
theory Dht_Upkeep
  imports Dht_Node_Props
begin

text \<open>
  The upkeep of a node of the relay network (\<open>maintain\<close> of \<open>dht/src/node.rs\<close>): that every known
  node is probed in its turn, and what happens to seeds that answer the wrong way. Then the
  witnesses of the properties of \<open>Dht_Node_Props\<close>.
\<close>

section \<open>Upkeep\<close>

text \<open>How many known nodes are to be probed before a node: those with an earlier place in the order.\<close>

definition before :: "'s Node \<Rightarrow> bytes \<Rightarrow> bytes set" where
  "before nd d = {e. \<exists>p q. hm_get (nd_peers nd) d = Some p \<and> hm_get (nd_peers nd) e = Some q \<and>
                      pe_last_probe_order q < pe_last_probe_order p}"

lemma length_filter_sort: "length (filter P (sort xs)) = length (filter P xs)"
proof -
  have "mset (filter P (sort xs)) = mset (filter P xs)" by simp
  then show ?thesis by (rule mset_eq_length)
qed

lemma take_sorted_iff:
  "sorted xs \<Longrightarrow> distinct xs \<Longrightarrow> x \<in> set xs \<Longrightarrow> x \<in> set (take m xs) \<longleftrightarrow> length (filter (\<lambda>y. y < x) xs) < m"
proof (induction xs arbitrary: m)
  case (Cons a xs)
  show ?case
  proof (cases "x = a")
    case True
    with Cons.prems have "filter (\<lambda>y. y < x) (a # xs) = []" by (auto simp: filter_empty_conv)
    with True show ?thesis by (cases m) auto
  next
    case False
    with Cons.prems have x: "x \<in> set xs" "a < x" by auto
    with Cons.IH [of "m - 1"] Cons.prems False show ?thesis by (cases m) auto
  qed
qed simp

lemma orders_inj:
  assumes "node_inv cfg nd" and "hm_get (nd_peers nd) d = Some p" and "hm_get (nd_peers nd) e = Some q"
    and "pe_last_probe_order p = pe_last_probe_order q"
  shows "d = e"
proof -
  have "inj_on (\<lambda>(d, p). pe_last_probe_order p) (set (nd_peers nd))"
    using assms(1) by (auto simp: node_inv_def orders_ok_def distinct_map)
  from inj_onD [OF this, of "(d, p)" "(e, q)"] assms(2-4) show ?thesis by (auto dest: map_of_SomeD)
qed

lemma before_finite: "finite (before nd d)"
proof (rule finite_subset)
  show "before nd d \<subseteq> set (keys (nd_peers nd))" by (auto simp: before_def dest: hm_get_in)
qed simp

lemma card_before:
  assumes inv: "node_inv cfg nd" and d: "hm_get (nd_peers nd) d = Some p"
  shows "card (before nd d) =
     length (filter (\<lambda>y. y < (pe_last_probe_order p, d)) (sort (map (\<lambda>(d, p). (pe_last_probe_order p, d)) (nd_peers nd))))"
proof -
  let ?ps = "nd_peers nd" let ?x = "(pe_last_probe_order p, d)"
  let ?f = "\<lambda>(d, p). (pe_last_probe_order p, d)"
  have dk: "distinct (keys ?ps)" using inv by (simp add: node_inv_def peers_ok_def)
  have get: "hm_get ?ps e = Some q" if "(e, q) \<in> set ?ps" for e q using dk that by simp
  have "length (filter (\<lambda>y. y < ?x) (sort (map ?f ?ps))) = length (filter (\<lambda>y. y < ?x) (map ?f ?ps))"
    by (rule length_filter_sort)
  also have "\<dots> = length (filter (\<lambda>z. ?f z < ?x) ?ps)" by (simp add: filter_map comp_def)
  also have "\<dots> = card (fst ` set (filter (\<lambda>z. ?f z < ?x) ?ps))"
  proof -
    have "distinct (map fst (filter (\<lambda>z. ?f z < ?x) ?ps))" using dk by (rule distinct_map_filter)
    from distinct_card [OF this] show ?thesis by simp
  qed
  also have "fst ` set (filter (\<lambda>z. ?f z < ?x) ?ps) = before nd d"
  proof -
    have "e \<in> before nd d" if e: "(e, q) \<in> set ?ps" and lt: "(pe_last_probe_order q, e) < ?x" for e q
    proof -
      have "pe_last_probe_order q < pe_last_probe_order p"
        using lt orders_inj [OF inv d get [OF e]] by (auto simp: less_prod_def less_le)
      with d get [OF e] show ?thesis by (auto simp: before_def)
    qed
    moreover have "\<exists>q. (e, q) \<in> set ?ps \<and> (pe_last_probe_order q, e) < ?x" if "e \<in> before nd d" for e
      using that d by (auto simp: before_def less_prod_def dest: map_of_SomeD)
    moreover have "fst ` set (filter (\<lambda>z. ?f z < ?x) ?ps) =
        {e. \<exists>q. (e, q) \<in> set ?ps \<and> (pe_last_probe_order q, e) < ?x}"
      by (auto simp: image_def)
    ultimately show ?thesis by blast
  qed
  finally show ?thesis ..
qed

abbreviation probes_per_tick :: "NodeConfig \<Rightarrow> nat" where
  "probes_per_tick cfg \<equiv> min (cfg_k cfg * 2) (max_peers cfg)"

lemma probe_list_iff:
  assumes inv: "node_inv cfg nd" and d: "hm_get (nd_peers nd) d = Some p"
  shows "d \<in> set (probe_list cfg nd) \<longleftrightarrow> card (before nd d) < probes_per_tick cfg"
proof -
  let ?f = "\<lambda>(d, p). (pe_last_probe_order p, d)"
  let ?xs = "sort (map ?f (nd_peers nd))"
  have "distinct (keys (nd_peers nd))" using inv by (simp add: node_inv_def peers_ok_def)
  then have "distinct (map snd (map ?f (nd_peers nd)))" by (simp add: comp_def split_beta)
  then have dx: "distinct ?xs" by (metis distinct_map distinct_sort)
  have x: "(pe_last_probe_order p, d) \<in> set ?xs" using d by (force dest: map_of_SomeD)
  have only: "y = (pe_last_probe_order p, d)" if "y \<in> set ?xs" "snd y = d" for y
    using that d inv by (auto simp: node_inv_def peers_ok_def dest: map_of_SomeD eq_key_imp_eq_value)
  have "d \<in> set (probe_list cfg nd) \<longleftrightarrow> (\<exists>y \<in> set (take (probes_per_tick cfg) ?xs). snd y = d)"
    unfolding probe_list_def by auto
  also have "\<dots> \<longleftrightarrow> (pe_last_probe_order p, d) \<in> set (take (probes_per_tick cfg) ?xs)"
  proof
    assume "\<exists>y \<in> set (take (probes_per_tick cfg) ?xs). snd y = d"
    then obtain y where y: "y \<in> set (take (probes_per_tick cfg) ?xs)" "snd y = d" by blast
    from only [OF in_set_takeD [OF y(1)] y(2)] y(1) show "(pe_last_probe_order p, d) \<in> set (take (probes_per_tick cfg) ?xs)"
      by simp
  next
    assume "(pe_last_probe_order p, d) \<in> set (take (probes_per_tick cfg) ?xs)"
    then show "\<exists>y \<in> set (take (probes_per_tick cfg) ?xs). snd y = d" by (rule rev_bexI) simp
  qed
  also have "\<dots> \<longleftrightarrow> card (before nd d) < probes_per_tick cfg"
    unfolding card_before [OF inv d] by (rule take_sorted_iff [OF sorted_sort dx x])
  finally show ?thesis .
qed

lemma touch_get:
  "hm_get (nd_peers (touch d nd)) e =
     (if e = d then map_option (\<lambda>p. p\<lparr>pe_last_probe_order := nd_probe_order nd\<rparr>) (hm_get (nd_peers nd) d)
      else hm_get (nd_peers nd) e)"
  by (auto simp: touch_def hm_get_modify split: option.splits)

lemma touch_order: "nd_probe_order nd \<le> nd_probe_order (touch d nd)"
  by (auto simp: touch_def split: option.splits)

text \<open>Reserving a list of nodes: they move to the tail of the order, and the rest stays.\<close>

lemma fold_touch_get:
  "(e \<notin> set ds \<longrightarrow> hm_get (nd_peers (fold touch ds nd)) e = hm_get (nd_peers nd) e) \<and>
   (e \<in> set ds \<longrightarrow> (\<forall>q. hm_get (nd_peers (fold touch ds nd)) e = Some q \<longrightarrow> nd_probe_order nd \<le> pe_last_probe_order q)) \<and>
   ((hm_get (nd_peers (fold touch ds nd)) e = None) = (hm_get (nd_peers nd) e = None))"
proof (induction ds arbitrary: nd)
  case (Cons d ds)
  note IH = Cons [of "touch d nd"]
  show ?case
  proof (cases "e \<in> set ds")
    case True
    with IH touch_order [of nd d] show ?thesis by (fastforce simp: touch_get split: if_splits)
  next
    case False
    with IH have "hm_get (nd_peers (fold touch ds (touch d nd))) e = hm_get (nd_peers (touch d nd)) e" by blast
    then show ?thesis using False by (cases "hm_get (nd_peers nd) d") (auto simp: touch_get)
  qed
qed simp

lemma get_order_less:
  "node_inv cfg nd \<Longrightarrow> hm_get (nd_peers nd) e = Some q \<Longrightarrow> pe_last_probe_order q < nd_probe_order nd"
  by (auto simp: node_inv_def orders_ok_def dest: map_of_SomeD)

lemma probe_list_facts:
  assumes "node_inv cfg nd"
  shows "distinct (probe_list cfg nd)" and "set (probe_list cfg nd) \<subseteq> set (keys (nd_peers nd))"
    and "length (probe_list cfg nd) = min (probes_per_tick cfg) (length (nd_peers nd))"
proof -
  let ?xs = "sort (map (\<lambda>(d, p). (pe_last_probe_order p, d)) (nd_peers nd))"
  have "distinct (keys (nd_peers nd))" using assms by (simp add: node_inv_def peers_ok_def)
  then have "distinct (map snd (map (\<lambda>(d, p). (pe_last_probe_order p, d)) (nd_peers nd)))"
    by (simp add: comp_def split_beta)
  then have "distinct (map snd ?xs)" by (simp only: distinct_map distinct_sort set_sort)
  then show "distinct (probe_list cfg nd)" unfolding probe_list_def by (metis distinct_take take_map)
  show "set (probe_list cfg nd) \<subseteq> set (keys (nd_peers nd))"
    by (force simp: probe_list_def dest: in_set_takeD)
  show "length (probe_list cfg nd) = min (probes_per_tick cfg) (length (nd_peers nd))"
    by (simp add: probe_list_def)
qed

lemma before_reserved:
  assumes inv: "node_inv cfg nd" and d: "hm_get (nd_peers nd) d = Some p" and no: "d \<notin> set (probe_list cfg nd)"
  shows "before (fold touch (probe_list cfg nd) nd) d = before nd d - set (probe_list cfg nd)"
proof -
  let ?ds = "probe_list cfg nd" let ?nd = "fold touch ?ds nd"
  note t = fold_touch_get [of _ ?ds nd]
  have dd: "hm_get (nd_peers ?nd) d = Some p" using t [of d] no d by simp
  have lt: "pe_last_probe_order p < nd_probe_order nd" by (rule get_order_less [OF inv d])
  have out: "\<not> pe_last_probe_order q < pe_last_probe_order p" if "e \<in> set ?ds" "hm_get (nd_peers ?nd) e = Some q" for e q
    using t [of e] that lt by fastforce
  have same: "hm_get (nd_peers ?nd) e = hm_get (nd_peers nd) e" if "e \<notin> set ?ds" for e
    using t [of e] that by blast
  show ?thesis
    using d dd out same by (auto simp: before_def) (metis)+
qed

text \<open>Hearing of a node leaves the places of the others, and gives a new one the last.\<close>

lemma learn_hearsay_get:
  assumes inv: "node_inv cfg nd" and e: "hm_get (nd_peers (learn cfg now i False nd)) e = Some q"
  shows "(\<exists>q0. hm_get (nd_peers nd) e = Some q0 \<and> pe_last_probe_order q0 = pe_last_probe_order q) \<or>
         (hm_get (nd_peers nd) e = None \<and> pe_last_probe_order q = nd_probe_order nd)"
proof -
  let ?ps = "nd_peers nd" let ?d = "destination i"
  have dk: "distinct (keys ?ps)" using inv by (simp add: node_inv_def peers_ok_def)
  have dm: "distinct (keys (hm_modify ?d f ?ps))" for f using dk by simp
  have "(e, q) \<in> set ?ps \<or> (\<exists>p. hm_get ?ps ?d = Some p \<and>
      (e, q) \<in> set (hm_modify ?d (learned_peer i False now (nd_probe_order nd)) ?ps)) \<or>
      (hm_get ?ps ?d = None \<and> (e, q) \<in> set (hm_insert ?d \<lparr>pe_info = i, pe_confirmed = False, pe_failures = 0, pe_seed = False,
                    pe_first_seen_ms = now, pe_last_ok_ms = 0, pe_last_probe_order = nd_probe_order nd\<rparr> ?ps))"
    using map_of_SomeD [OF e] trim_subset [of cfg]
    by (fastforce simp: learn_def split: if_splits option.splits)
  then consider (old) "(e, q) \<in> set ?ps"
    | (upd) q0 where "(e, q0) \<in> set ?ps" "q = q0 \<or> q = learned_peer i False now (nd_probe_order nd) q0"
    | (new) "hm_get ?ps ?d = None" "e = ?d" "pe_last_probe_order q = nd_probe_order nd"
    using set_hm_insert [of ?d _ ?ps] by (fastforce simp: set_hm_modify split: if_splits)
  then show ?thesis
  proof cases
    case old
    with dk show ?thesis by simp
  next
    case upd
    with dk have "hm_get ?ps e = Some q0" by simp
    moreover have "pe_last_probe_order q = pe_last_probe_order q0"
      using upd(2) by (auto simp: learned_peer_def Let_def)
    ultimately show ?thesis by simp
  qed simp
qed

lemma serve_before:
  assumes inv: "node_inv cfg nd" and d: "hm_get (nd_peers nd) d = Some p"
  shows "before (serve C cfg S nd req) d \<subseteq> before nd d"
proof -
  obtain now ch env where req: "req = (now, ch, env)" by (cases req)
  have ps: "nd_peers (serve C cfg S nd req) = nd_peers (heard cfg now env nd)"
    by (simp add: serve_def req handle_table)
  show ?thesis
  proof (cases "env_from env")
    case None
    then show ?thesis by (simp add: before_def ps heard_def)
  next
    case (Some i)
    have ps': "nd_peers (serve C cfg S nd req) = nd_peers (learn cfg now i False nd)"
      by (simp add: ps heard_def Some)
    have lt: "pe_last_probe_order p < nd_probe_order nd" by (rule get_order_less [OF inv d])
    show ?thesis
    proof
      fix e assume "e \<in> before (serve C cfg S nd req) d"
      then obtain p' q where p': "hm_get (nd_peers (learn cfg now i False nd)) d = Some p'"
        and q: "hm_get (nd_peers (learn cfg now i False nd)) e = Some q"
        and less: "pe_last_probe_order q < pe_last_probe_order p'"
        by (auto simp: before_def ps')
      have "pe_last_probe_order p' = pe_last_probe_order p"
        using learn_hearsay_get [OF inv p'] d by auto
      with learn_hearsay_get [OF inv q] less lt obtain q0 where
        "hm_get (nd_peers nd) e = Some q0" "pe_last_probe_order q0 < pe_last_probe_order p" by fastforce
      with d show "e \<in> before nd d" by (auto simp: before_def)
    qed
  qed
qed

text \<open>
  No known node starves: a tick of \<open>maintain\<close> probes exactly the nodes with fewer than
  \<open>min (2 k) max_peers\<close> nodes before them, each tick moves every other node forward by that many
  places, and no number of requests from strangers ever moves a node back.
\<close>

theorem probe_fairness:
  assumes "node_inv cfg nd" and "hm_get (nd_peers nd) d = Some p"
  shows "(d \<in> set (probe_list cfg nd) \<longleftrightarrow> card (before nd d) < probes_per_tick cfg) \<and>
         (d \<notin> set (probe_list cfg nd) \<longrightarrow>
            card (before (fold touch (probe_list cfg nd) nd) d) = card (before nd d) - probes_per_tick cfg) \<and>
         card (before (serve C cfg S nd req) d) \<le> card (before nd d)"
proof (intro conjI impI)
  show iff: "d \<in> set (probe_list cfg nd) \<longleftrightarrow> card (before nd d) < probes_per_tick cfg"
    by (rule probe_list_iff [OF assms])
  {
    assume no: "d \<notin> set (probe_list cfg nd)"
    have sub: "set (probe_list cfg nd) \<subseteq> before nd d"
    proof
      fix e assume e: "e \<in> set (probe_list cfg nd)"
      then obtain q where q: "hm_get (nd_peers nd) e = Some q"
        using probe_list_facts(2) [OF assms(1)] by (metis keys_None option.exhaust subsetD)
      have "card (before nd e) < card (before nd d)"
        using probe_list_iff [OF assms(1) q] e iff no by linarith
      have "\<not> pe_last_probe_order p \<le> pe_last_probe_order q"
      proof
        assume "pe_last_probe_order p \<le> pe_last_probe_order q"
        then have "before nd d \<subseteq> before nd e" using assms(2) q by (auto simp: before_def)
        then have "card (before nd d) \<le> card (before nd e)" by (rule card_mono [OF before_finite])
        with \<open>card (before nd e) < card (before nd d)\<close> show False by simp
      qed
      with assms(2) q show "e \<in> before nd d" by (auto simp: before_def)
    qed
    then have "length (probe_list cfg nd) \<le> card (before nd d)"
      using distinct_card [OF probe_list_facts(1) [OF assms(1)]] card_mono [OF before_finite] by metis
    have "before nd d \<subseteq> set (keys (nd_peers nd))" by (auto simp: before_def dest: hm_get_in)
    then have "card (before nd d) \<le> length (nd_peers nd)"
      by (metis card_length card_mono finite_set length_map order_trans)
    moreover have "probes_per_tick cfg \<le> card (before nd d)" using iff no by linarith
    ultimately have len: "length (probe_list cfg nd) = probes_per_tick cfg"
      using probe_list_facts(3) [OF assms(1)] by linarith
    show "card (before (fold touch (probe_list cfg nd) nd) d) = card (before nd d) - probes_per_tick cfg"
      unfolding before_reserved [OF assms no] card_Diff_subset [OF finite_set sub]
      using distinct_card [OF probe_list_facts(1) [OF assms(1)]] len by simp
  }
  show "card (before (serve C cfg S nd req) d) \<le> card (before nd d)"
    by (rule card_mono [OF before_finite serve_before [OF assms]])
qed

text \<open>
  A seed that answers is not safe from being forgotten: a node that can be reached but answers
  a ping with anything but its own \<open>Pong\<close> (for one, because it does not serve yet) is dropped
  from the table, seed or not.
\<close>

theorem ping_drops_seed:
  assumes "net_open N w d = (Some ch, w1)" and "net_call N w1 d (envelope nd Ping) = (Some r, w2)"
    and "\<forall>n. r = Pong n \<longrightarrow> destination n \<noteq> d" and "hm_get (nd_peers nd) d = Some p" and "pe_seed p"
  shows "hm_get (nd_peers (fst (snd (ping cfg N d (nd, w))))) d = None"
proof -
  have "envelope (touch d nd) Ping = envelope nd Ping"
    by (simp add: envelope_def touch_def split: option.splits)
  then have a: "ask cfg N d Ping (nd, w) = (Some r, touch d nd, w2)"
    using assms(1,2) by (simp add: ask_def dht_open_def exchange_def Let_def)
  then show ?thesis
    using assms(3) by (cases r) (simp_all add: ping_def forget_def)
qed

section \<open>Witnesses\<close>

text \<open>A network in which every address is a node that knows nobody and holds nothing.\<close>

definition toy_info :: "bytes \<Rightarrow> NodeInfo" where
  "toy_info d = \<lparr>destination = d, stores = True, version = PROTOCOL_VERSION\<rparr>"

definition toy_net :: "unit net" where
  "toy_net = \<lparr>net_open = (\<lambda>w d. (Some [], w)),
     net_call = (\<lambda>w d env. (Some (case env_req env of
          Ping \<Rightarrow> Pong (toy_info d) | FindNode _ \<Rightarrow> Nodes (Some (toy_info d)) []
        | Get _ _ \<Rightarrow> Items [] False [] | Store _ _ \<Rightarrow> Stored | Delete _ _ \<Rightarrow> Deleted 1), w)),
     net_now = (\<lambda>_. 5)\<rparr>"

definition toy_cfg :: NodeConfig where
  "toy_cfg = default_config\<lparr>pow_difficulty := 0, cfg_k := 2\<rparr>"

definition toy_limits :: StoreLimits where
  "toy_limits = \<lparr>max_total_bytes = 100, max_bytes_per_key = 100, max_items_per_key = 4, max_ttl_ms = 1000\<rparr>"

definition toy_peer :: "bytes \<Rightarrow> bool \<Rightarrow> nat \<Rightarrow> Peer" where
  "toy_peer d seed n = \<lparr>pe_info = toy_info d, pe_confirmed = True, pe_failures = 0, pe_seed = seed,
     pe_first_seen_ms = 1, pe_last_ok_ms = 2, pe_last_probe_order = n\<rparr>"

text \<open>A node that stores, with an empty store, knowing the seed \<open>[1]\<close> and the node \<open>[2]\<close>.\<close>

definition toy_node :: "Inner Node" where
  "toy_node = \<lparr>nd_me = Some (toy_info [9]), nd_storage = new_inner,
     nd_peers = [([1], toy_peer [1] True 1), ([2], toy_peer [2] False 2)], nd_probe_order = 3\<rparr>"

lemmas toy_defs = toy_node_def toy_peer_def toy_info_def toy_cfg_def default_config_def toy_net_def

lemma toy_node_inv: "node_inv toy_cfg toy_node"
  by (simp add: toy_defs node_inv_def peers_ok_def peer_ok_def orders_ok_def table_bounded_def)

theorem node_table_invariant_witness:
  "node_inv toy_cfg (add_candidates toy_cfg 5 [[1], [2], [1]] True (new_node new_inner))"
proof -
  have "node_reach toy_crypto toy_cfg (mem_storage toy_crypto toy_limits) toy_net
      (add_candidates toy_cfg 5 [[1], [2], [1]] True (new_node new_inner), ())"
    by (rule node_reach.candidates) (rule node_reach.start)
  from node_table_invariant [OF this] show ?thesis by simp
qed

theorem flood_keeps_confirmed_witness:
  "confirmed_peers (foldl (serve toy_crypto toy_cfg (mem_storage toy_crypto toy_limits)) toy_node
     [(5, [], \<lparr>env_from = Some (toy_info [3]), env_req = Ping\<rparr>)]) = confirmed_peers toy_node"
  by (rule flood_keeps_confirmed [OF toy_node_inv])

theorem closest_to_share_spec_witness:
  "\<exists>a b. closest_to_share toy_crypto toy_node [] 1 False = a @ b \<and> length (a @ b) \<le> 1 \<and>
     set a \<subseteq> set (sharable True False toy_node)"
  using closest_to_share_spec [of toy_crypto toy_node "[]" 1 False] by blast

theorem handle_storage_contract_witness:
  "inner_inv (nd_storage (snd (handle toy_crypto toy_cfg (mem_storage toy_crypto toy_limits) 5 []
      \<lparr>env_from = None, env_req = Store toy_item 0\<rparr> toy_node)))"
proof -
  let ?h = "handle toy_crypto toy_cfg (mem_storage toy_crypto toy_limits) 5 [] \<lparr>env_from = None, env_req = Store toy_item 0\<rparr> toy_node"
  have "inner_inv (nd_storage toy_node)" by (simp add: toy_node_def)
  moreover have "within_limits toy_limits (held (nd_storage toy_node))"
    by (simp add: toy_node_def within_limits_def new_inner_def held_def)
  ultimately show ?thesis
    using handle_storage_contract [of toy_node toy_limits toy_crypto toy_cfg 5 "[]" _ "fst ?h" "snd ?h"] by simp
qed

theorem items_at_complete_witness:
  "\<exists>s1. items_at toy_cfg (node_net toy_crypto toy_cfg (mem_storage toy_crypto toy_limits) 5 []) 3 [7] (toy_info [9])
      (toy_node, toy_node) = Some (Some (s_get (mem_storage toy_crypto toy_limits) (nd_storage toy_node) [7] 5), s1)"
  by (rule items_at_complete)
    (simp_all add: node_stores_def mem_storage_def mem_get_def toy_node_def toy_info_def new_inner_def List.map_filter_def)

theorem items_at_unbounded_witness:
  "items_at_loop toy_cfg (toy_net\<lparr>net_call := \<lambda>w d env. (Some (Items [toy_item] True []), w)\<rparr>) [1] [7] 1000 [] (toy_node, ()) = None"
  by (rule items_at_unbounded) simp

lemma toy_infos: "i \<in> infos_of r \<Longrightarrow> fst (net_call toy_net w d env) = Some r \<Longrightarrow> destination i = d"
  by (auto simp: toy_net_def toy_info_def split: DhtRequest.splits)

text \<open>The same network with a single address, for the lookup to end in.\<close>

definition mute_net :: "unit net" where
  "mute_net = toy_net\<lparr>net_call := \<lambda>w d env. (None, w)\<rparr>"

lemma mute_within: "net_within mute_net {[1], [2]}"
  by (simp add: net_within_def mute_net_def)

lemma toy_lookup_ends: "\<exists>ns s'. lookup toy_crypto toy_cfg mute_net 3 [] (toy_node, ()) = Some (ns, s')"
proof -
  have "lookup_loop toy_crypto toy_cfg mute_net [] 3 [] [] (toy_node, ()) \<noteq> None"
    by (rule lookup_loop_ends [OF mute_within])
      (use toy_node_inv in \<open>auto simp: known_within_def toy_node_def\<close>)
  then show ?thesis by (auto simp: lookup_def)
qed

theorem lookup_terminates_witness:
  "lookup toy_crypto toy_cfg mute_net 3 [] (toy_node, ()) \<noteq> None"
  by (rule lookup_terminates [OF mute_within])
    (use toy_node_inv in \<open>simp_all add: toy_node_def\<close>)

text \<open>A lookup that two nodes answer.\<close>

definition small_cfg :: NodeConfig where
  "small_cfg = \<lparr>cfg_k = 2, alpha = 1, pow_difficulty = 0, max_peers = 4, dial_timeout_s = 1, call_timeout_s = 1,
     max_failures = 3, max_get_bytes = 4\<rparr>"

lemma small_lookup:
  "map_option (\<lambda>(ns, s). map destination ns) (lookup toy_crypto small_cfg (logged toy_net) 3 [] (toy_node, (), [])) = Some [[1], [2]]"
  by code_simp


theorem item_targets_seeds_witness:
  "\<exists>ts s'. item_targets toy_crypto toy_cfg mute_net 3 [] (toy_node, ()) = Some (ts, s') \<and> (\<forall>t \<in> set ts. stores t)"
proof -
  obtain ts s' where t: "item_targets toy_crypto toy_cfg mute_net 3 [] (toy_node, ()) = Some (ts, s')"
    using toy_lookup_ends by (auto simp: item_targets_def)
  from item_targets_seeds [OF t] t show ?thesis by blast
qed

theorem dht_get_sound_witness:
  "\<exists>its s'. dht_get toy_crypto toy_cfg (mem_storage toy_crypto toy_limits) mute_net 3 [] (toy_node, ()) = Some (its, s') \<and>
     (\<forall>it \<in> set its. item_key it = [] \<and> item_expires_at_ms it > 5)"
proof -
  obtain ts s1 where t: "item_targets toy_crypto toy_cfg mute_net 3 [] (toy_node, ()) = Some (ts, s1)"
    using toy_lookup_ends by (auto simp: item_targets_def)
  have "items_at toy_cfg mute_net 3 [] node (s :: Inner Node \<times> unit) \<noteq> None" for node s
    by (simp add: items_at_def numeral_3_eq_3 exchange_def mute_net_def split: option.splits prod.splits)
  from get_loop_bounded [OF this, of toy_crypto 5 ts _ s1] t
  obtain its s' where g: "dht_get toy_crypto toy_cfg (mem_storage toy_crypto toy_limits) mute_net 3 [] (toy_node, ()) = Some (its, s')"
    by (fastforce simp: dht_get_def Let_def mute_net_def toy_net_def)
  have "net_now mute_net () = 5" by (simp add: mute_net_def toy_net_def)
  with dht_get_sound [OF g] g show ?thesis by (metis snd_conv)
qed

theorem probe_fairness_witness:
  "[2] \<in> set (probe_list toy_cfg toy_node) \<longleftrightarrow> card (before toy_node [2]) < 4"
proof -
  have "hm_get (nd_peers toy_node) [2] = Some (toy_peer [2] False 2)" by (simp add: toy_node_def)
  moreover have "probes_per_tick toy_cfg = 4" by (simp add: toy_defs)
  ultimately show ?thesis using probe_fairness [OF toy_node_inv, of "[2]"] by simp
qed

theorem ping_drops_seed_witness:
  "pe_seed (toy_peer [1] True 1) \<and>
   hm_get (nd_peers (fst (snd (ping toy_cfg (toy_net\<lparr>net_call := \<lambda>w d env. (Some (Error ''not a node''), w)\<rparr>) [1] (toy_node, ()))))) [1] = None"
proof
  show "pe_seed (toy_peer [1] True 1)" by (simp add: toy_peer_def)
  show "hm_get (nd_peers (fst (snd (ping toy_cfg (toy_net\<lparr>net_call := \<lambda>w d env. (Some (Error ''not a node''), w)\<rparr>) [1] (toy_node, ()))))) [1] = None"
    by (rule ping_drops_seed [where r = "Error ''not a node''" and p = "toy_peer [1] True 1"])
      (simp_all add: toy_net_def toy_node_def toy_peer_def)
qed

end
