(* ===== verification/Ratchet.thy ===== *)
theory Ratchet
  imports Crypto_Prims
begin

text \<open>
  \<open>libcore/src/crypto.rs\<close>: identities and prekeys, the X3DH handshake, the Double Ratchet of a
  conversation, and the cipher of attachments.

  A \<open>Sealed\<close> key (an encrypted page of memory, \<open>libcore/src/memory.rs\<close>) is the key it holds, and
  opening one succeeds: the \<open>Memory\<close> error of the operating system is not modelled. Fresh
  secrets drawn from the RNG are arguments. Message counters are \<open>u32\<close>, with the checked and
  saturating operations of the source.
\<close>

definition MAX_SKIP :: nat where
  "MAX_SKIP = 1000"

definition X3DH_INFO :: bytes where
  "X3DH_INFO = ascii ''gipny/x3dh/v1''"
definition RK_INFO :: bytes where
  "RK_INFO = ascii ''gipny/dr/root/v1''"
definition MSG_INFO :: bytes where
  "MSG_INFO = ascii ''gipny/dr/msg/v1''"

datatype CryptoError = Crypto | Codec | BadSignature | TooManySkipped | Mac | State

section \<open>Identities and prekeys\<close>

record IdentityCard =
  sign_pk :: bytes
  dh_pk :: bytes

record Identity =
  id_sign_seed :: bytes
  id_dh_sk :: bytes
  id_card :: IdentityCard

definition identity_from_bytes :: "crypto \<Rightarrow> bytes \<Rightarrow> bytes \<Rightarrow> Identity" where
  "identity_from_bytes C sign_seed dh_sk =
     \<lparr>id_sign_seed = sign_seed, id_dh_sk = dh_sk,
      id_card = \<lparr>sign_pk = Ed_public C sign_seed, dh_pk = X25519_pub C dh_sk\<rparr>\<rparr>"

definition identity_sign :: "crypto \<Rightarrow> Identity \<Rightarrow> bytes \<Rightarrow> bytes" where
  "identity_sign C ident msg = Ed_sign C (id_sign_seed ident) msg"

definition card_verify :: "crypto \<Rightarrow> IdentityCard \<Rightarrow> bytes \<Rightarrow> bytes \<Rightarrow> bool" where
  "card_verify C crd msg sig \<longleftrightarrow> Ed_key_ok C (sign_pk crd) \<and> Ed_verify C (sign_pk crd) msg sig"

definition fingerprint :: "crypto \<Rightarrow> IdentityCard \<Rightarrow> bytes" where
  "fingerprint C crd = Sha256 C (sign_pk crd @ dh_pk crd)"

record PreKeyPair =
  pk_secret :: bytes
  pk_public :: bytes

definition prekey_from_secret :: "crypto \<Rightarrow> bytes \<Rightarrow> PreKeyPair" where
  "prekey_from_secret C secret = \<lparr>pk_secret = secret, pk_public = X25519_pub C secret\<rparr>"

record PreKeyBundle =
  pb_identity :: IdentityCard
  signed_prekey :: bytes
  signed_prekey_sig :: bytes
  one_time_prekey :: "bytes option"
  pb_one_time_id :: "int option"

definition bundle_new :: "crypto \<Rightarrow> Identity \<Rightarrow> PreKeyPair \<Rightarrow> (int \<times> PreKeyPair) option \<Rightarrow> PreKeyBundle" where
  "bundle_new C ident spk one_time =
     \<lparr>pb_identity = id_card ident, signed_prekey = pk_public spk,
      signed_prekey_sig = identity_sign C ident (pk_public spk),
      one_time_prekey = map_option (\<lambda>(_, k). pk_public k) one_time,
      pb_one_time_id = map_option fst one_time\<rparr>"

definition bundle_verify :: "crypto \<Rightarrow> PreKeyBundle \<Rightarrow> bool" where
  "bundle_verify C b = card_verify C (pb_identity b) (signed_prekey b) (signed_prekey_sig b)"

section \<open>Key derivation and message encryption\<close>

record RatchetHeader =
  h_dh :: bytes
  h_pn :: u32
  h_n :: u32

definition split_32 :: "bytes \<Rightarrow> bytes \<times> bytes" where
  "split_32 out = (take 32 out, drop 32 out)"

definition kdf_rk :: "crypto \<Rightarrow> bytes \<Rightarrow> bytes \<Rightarrow> bytes \<times> bytes" where
  "kdf_rk C rk dh_out = split_32 (Hkdf C rk dh_out RK_INFO 64)"

text \<open>The next chain key, and the message key.\<close>

definition kdf_ck :: "crypto \<Rightarrow> bytes \<Rightarrow> bytes \<times> bytes" where
  "kdf_ck C ck = (Hmac C ck [0x02], Hmac C ck [0x01])"

definition aead_from_mk :: "crypto \<Rightarrow> bytes \<Rightarrow> bytes \<times> bytes" where
  "aead_from_mk C mk = (let out = Hkdf C (replicate 32 0) mk MSG_INFO 56 in (take 32 out, drop 32 out))"

definition build_aad :: "bytes \<Rightarrow> RatchetHeader \<Rightarrow> bytes" where
  "build_aad ad h = ad @ h_dh h @ u32_to_le_bytes (h_pn h) @ u32_to_le_bytes (h_n h)"

definition aead_encrypt :: "crypto \<Rightarrow> bytes \<Rightarrow> bytes \<Rightarrow> RatchetHeader \<Rightarrow> bytes \<Rightarrow> CryptoError + bytes" where
  "aead_encrypt C mk ad h plaintext =
     (let (key, nonce) = aead_from_mk C mk in
      case Aead_encrypt C key nonce (build_aad ad h) plaintext of None \<Rightarrow> Inl Crypto | Some ct \<Rightarrow> Inr ct)"

definition aead_decrypt :: "crypto \<Rightarrow> bytes \<Rightarrow> bytes \<Rightarrow> RatchetHeader \<Rightarrow> bytes \<Rightarrow> CryptoError + bytes" where
  "aead_decrypt C mk ad h ct =
     (let (key, nonce) = aead_from_mk C mk in
      case Aead_decrypt C key nonce (build_aad ad h) ct of None \<Rightarrow> Inl Mac | Some pt \<Rightarrow> Inr pt)"

section \<open>The Double Ratchet\<close>

type_synonym skipped = "((bytes \<times> u32) \<times> bytes) list"

record RatchetState =
  dhs_sk :: bytes
  dhs_pk :: bytes
  dhr :: "bytes option"
  rk :: bytes
  cks :: "bytes option"
  ckr :: "bytes option"
  ns :: u32
  nr :: u32
  pn :: u32
  skipped :: skipped

definition new_alice :: "crypto \<Rightarrow> bytes \<Rightarrow> bytes \<Rightarrow> bytes \<Rightarrow> RatchetState" where
  "new_alice C fresh sk their_dh_pk =
     (let (rk0, ck) = kdf_rk C sk (X25519 C fresh their_dh_pk) in
      \<lparr>dhs_sk = fresh, dhs_pk = X25519_pub C fresh, dhr = Some their_dh_pk, rk = rk0, cks = Some ck,
       ckr = None, ns = 0, nr = 0, pn = 0, skipped = []\<rparr>)"

definition new_bob :: "bytes \<Rightarrow> PreKeyPair \<Rightarrow> RatchetState" where
  "new_bob sk spk =
     \<lparr>dhs_sk = pk_secret spk, dhs_pk = pk_public spk, dhr = None, rk = sk, cks = None, ckr = None,
      ns = 0, nr = 0, pn = 0, skipped = []\<rparr>"

definition u32_checked_add1 :: "u32 \<Rightarrow> u32 option" where
  "u32_checked_add1 n = (if n = - 1 then None else Some (n + 1))"

definition encrypt_inner ::
  "crypto \<Rightarrow> RatchetState \<Rightarrow> bytes \<Rightarrow> bytes \<Rightarrow> CryptoError + (RatchetState \<times> RatchetHeader \<times> bytes)" where
  "encrypt_inner C st plaintext ad =
     (case cks st of
        None \<Rightarrow> Inl State
      | Some ck \<Rightarrow>
          (let (next_ck, mk) = kdf_ck C ck;
               h = \<lparr>h_dh = dhs_pk st, h_pn = pn st, h_n = ns st\<rparr>
           in case u32_checked_add1 (ns st) of
                None \<Rightarrow> Inl State
              | Some ns' \<Rightarrow>
                  (case aead_encrypt C mk ad h plaintext of
                     Inl e \<Rightarrow> Inl e
                   | Inr ct \<Rightarrow> Inr (st\<lparr>cks := Some next_ck, ns := ns'\<rparr>, h, ct))))"

text \<open>The public operations work on a clone and keep it only when they succeed.\<close>

definition encrypt ::
  "crypto \<Rightarrow> RatchetState \<Rightarrow> bytes \<Rightarrow> bytes \<Rightarrow> RatchetState \<times> (CryptoError + (RatchetHeader \<times> bytes))" where
  "encrypt C st plaintext ad =
     (case encrypt_inner C st plaintext ad of
        Inl e \<Rightarrow> (st, Inl e)
      | Inr (probe, result) \<Rightarrow> (probe, Inr result))"

definition dh_ratchet :: "crypto \<Rightarrow> bytes \<Rightarrow> RatchetState \<Rightarrow> RatchetHeader \<Rightarrow> RatchetState" where
  "dh_ratchet C fresh st h =
     (let (rk1, ckr1) = kdf_rk C (rk st) (X25519 C (dhs_sk st) (h_dh h));
          (rk2, cks2) = kdf_rk C rk1 (X25519 C fresh (h_dh h))
      in st\<lparr>pn := ns st, ns := 0, nr := 0, dhr := Some (h_dh h), rk := rk2, ckr := Some ckr1,
            dhs_sk := fresh, dhs_pk := X25519_pub C fresh, cks := Some cks2\<rparr>)"

lemma unat_plus1: "(a :: u32) < b \<Longrightarrow> unat (a + 1) = Suc (unat a)"
proof -
  assume "a < b"
  then have "unat a + 1 < 2 ^ 32" using unat_u32_less [of b] by (simp add: word_less_nat_alt)
  then show ?thesis by (simp add: unat_word_ariths)
qed

function skip_loop :: "crypto \<Rightarrow> bytes \<Rightarrow> u32 \<Rightarrow> bytes \<Rightarrow> u32 \<Rightarrow> skipped \<Rightarrow> bytes \<times> u32 \<times> skipped" where
  "skip_loop C dh until ck n sk =
     (if n < until
      then (let (next_ck, mk) = kdf_ck C ck in skip_loop C dh until next_ck (n + 1) (hm_insert (dh, n) mk sk))
      else (ck, n, sk))"
  by pat_completeness auto
termination
  by (relation "measure (\<lambda>(C, dh, until, ck, n, sk). unat until - unat n)")
    (auto simp: unat_plus1 word_less_nat_alt)

declare skip_loop.simps [simp del]

definition u32_saturating_sub :: "u32 \<Rightarrow> u32 \<Rightarrow> nat" where
  "u32_saturating_sub a b = unat a - unat b"

definition skip_message_keys :: "crypto \<Rightarrow> RatchetState \<Rightarrow> u32 \<Rightarrow> CryptoError + RatchetState" where
  "skip_message_keys C st until =
     (let gap = u32_saturating_sub until (nr st) in
      if gap > MAX_SKIP \<or> length (skipped st) + gap > MAX_SKIP then Inl TooManySkipped
      else (case ckr st of
              None \<Rightarrow> Inr st
            | Some ck \<Rightarrow>
                (case dhr st of
                   None \<Rightarrow> Inl State
                 | Some dh \<Rightarrow>
                     (let (ck', n', sk') = skip_loop C dh until ck (nr st) (skipped st)
                      in Inr (st\<lparr>ckr := Some ck', nr := n', skipped := sk'\<rparr>)))))"

definition decrypt_step ::
  "crypto \<Rightarrow> RatchetState \<Rightarrow> RatchetHeader \<Rightarrow> bytes \<Rightarrow> bytes \<Rightarrow> CryptoError + (RatchetState \<times> bytes)" where
  "decrypt_step C st h ct ad =
     (case skip_message_keys C st (h_n h) of
        Inl e \<Rightarrow> Inl e
      | Inr st1 \<Rightarrow>
          (case ckr st1 of
             None \<Rightarrow> Inl State
           | Some ck \<Rightarrow>
               (let (next_ck, mk) = kdf_ck C ck in
                case u32_checked_add1 (nr st1) of
                  None \<Rightarrow> Inl State
                | Some nr' \<Rightarrow>
                    (case aead_decrypt C mk ad h ct of
                       Inl e \<Rightarrow> Inl e
                     | Inr pt \<Rightarrow> Inr (st1\<lparr>ckr := Some next_ck, nr := nr'\<rparr>, pt)))))"

definition decrypt_inner ::
  "crypto \<Rightarrow> bytes \<Rightarrow> RatchetState \<Rightarrow> RatchetHeader \<Rightarrow> bytes \<Rightarrow> bytes \<Rightarrow> CryptoError + (RatchetState \<times> bytes)" where
  "decrypt_inner C fresh st h ct ad =
     (case hm_get (skipped st) (h_dh h, h_n h) of
        Some mk \<Rightarrow>
          (case aead_decrypt C mk ad h ct of
             Inl e \<Rightarrow> Inl e
           | Inr pt \<Rightarrow> Inr (st\<lparr>skipped := hm_remove (h_dh h, h_n h) (skipped st)\<rparr>, pt))
      | None \<Rightarrow>
          if Some (h_dh h) \<noteq> dhr st
          then (case skip_message_keys C st (h_pn h) of
                  Inl e \<Rightarrow> Inl e
                | Inr st1 \<Rightarrow> decrypt_step C (dh_ratchet C fresh st1 h) h ct ad)
          else decrypt_step C st h ct ad)"

definition decrypt ::
  "crypto \<Rightarrow> bytes \<Rightarrow> RatchetState \<Rightarrow> RatchetHeader \<Rightarrow> bytes \<Rightarrow> bytes \<Rightarrow> RatchetState \<times> (CryptoError + bytes)" where
  "decrypt C fresh st h ct ad =
     (case decrypt_inner C fresh st h ct ad of
        Inl e \<Rightarrow> (st, Inl e)
      | Inr (probe, pt) \<Rightarrow> (probe, Inr pt))"

text \<open>Reading skipped keys back from storage (\<open>visit_map\<close>): bounded, and no key twice.\<close>

fun read_skipped :: "((bytes \<times> u32) \<times> bytes) list \<Rightarrow> skipped \<Rightarrow> CryptoError + skipped" where
  "read_skipped [] out = Inr out"
| "read_skipped ((i, key) # rest) out =
     (if length out \<ge> MAX_SKIP then Inl Codec
      else if i \<in> set (keys out) then Inl Codec
      else read_skipped rest (hm_insert i key out))"

section \<open>The handshake\<close>

record X3dhInitial =
  xi_identity :: IdentityCard
  xi_ephemeral :: bytes
  xi_one_time_id :: "int option"
  xi_header :: RatchetHeader
  xi_ciphertext :: bytes

definition x3dh_key :: "crypto \<Rightarrow> bytes \<Rightarrow> bytes \<Rightarrow> bytes \<Rightarrow> bytes option \<Rightarrow> bytes" where
  "x3dh_key C dh1 dh2 dh3 dh4 =
     Hkdf C (replicate 32 0)
       (replicate 32 0xff @ dh1 @ dh2 @ dh3 @ (case dh4 of None \<Rightarrow> [] | Some d \<Rightarrow> d)) X3DH_INFO 32"

definition x3dh_ikm_initiator :: "crypto \<Rightarrow> bytes \<Rightarrow> bytes \<Rightarrow> bytes \<Rightarrow> bytes \<Rightarrow> bytes option \<Rightarrow> bytes" where
  "x3dh_ikm_initiator C my_ik_sk my_eph_sk their_ik_dh their_spk their_opk =
     x3dh_key C (X25519 C my_ik_sk their_spk) (X25519 C my_eph_sk their_ik_dh)
       (X25519 C my_eph_sk their_spk) (map_option (X25519 C my_eph_sk) their_opk)"

definition x3dh_ikm_responder :: "crypto \<Rightarrow> bytes \<Rightarrow> bytes \<Rightarrow> bytes option \<Rightarrow> bytes \<Rightarrow> bytes \<Rightarrow> bytes" where
  "x3dh_ikm_responder C my_ik_sk my_spk_sk my_opk_sk their_ik_dh their_eph =
     x3dh_key C (X25519 C my_spk_sk their_ik_dh) (X25519 C my_ik_sk their_eph)
       (X25519 C my_spk_sk their_eph) (map_option (\<lambda>opk. X25519 C opk their_eph) my_opk_sk)"

definition x3dh_initiate ::
  "crypto \<Rightarrow> bytes \<Rightarrow> bytes \<Rightarrow> Identity \<Rightarrow> PreKeyBundle \<Rightarrow> bytes \<Rightarrow> bytes \<Rightarrow> CryptoError + (RatchetState \<times> X3dhInitial)" where
  "x3dh_initiate C eph fresh mine their plaintext ad =
     (if \<not> bundle_verify C their then Inl BadSignature
      else
        (let sk = x3dh_ikm_initiator C (id_dh_sk mine) eph (dh_pk (pb_identity their)) (signed_prekey their)
                    (one_time_prekey their);
             st = new_alice C fresh sk (signed_prekey their)
         in case encrypt C st plaintext ad of
              (_, Inl e) \<Rightarrow> Inl e
            | (st', Inr (h, ct)) \<Rightarrow>
                Inr (st', \<lparr>xi_identity = id_card mine, xi_ephemeral = X25519_pub C eph,
                           xi_one_time_id = pb_one_time_id their, xi_header = h, xi_ciphertext = ct\<rparr>)))"

definition x3dh_respond ::
  "crypto \<Rightarrow> bytes \<Rightarrow> Identity \<Rightarrow> PreKeyPair \<Rightarrow> PreKeyPair option \<Rightarrow> X3dhInitial \<Rightarrow> bytes \<Rightarrow> CryptoError + (RatchetState \<times> bytes)" where
  "x3dh_respond C fresh mine my_spk my_opk initial ad =
     (let sk = x3dh_ikm_responder C (id_dh_sk mine) (pk_secret my_spk) (map_option pk_secret my_opk)
                 (dh_pk (xi_identity initial)) (xi_ephemeral initial);
          st = new_bob sk my_spk
      in case decrypt C fresh st (xi_header initial) (xi_ciphertext initial) ad of
           (_, Inl e) \<Rightarrow> Inl e
         | (st', Inr pt) \<Rightarrow> Inr (st', pt))"

section \<open>Attachments\<close>

definition chunk_nonce :: "u64 \<Rightarrow> bytes" where
  "chunk_nonce idx = u64_to_le_bytes idx @ replicate 16 0"

definition encrypt_chunk :: "crypto \<Rightarrow> bytes \<Rightarrow> u64 \<Rightarrow> bytes \<Rightarrow> bytes \<Rightarrow> CryptoError + bytes" where
  "encrypt_chunk C key idx aad plaintext =
     (case Aead_encrypt C key (chunk_nonce idx) aad plaintext of None \<Rightarrow> Inl Crypto | Some ct \<Rightarrow> Inr ct)"

definition decrypt_chunk :: "crypto \<Rightarrow> bytes \<Rightarrow> u64 \<Rightarrow> bytes \<Rightarrow> bytes \<Rightarrow> CryptoError + bytes" where
  "decrypt_chunk C key idx aad ciphertext =
     (case Aead_decrypt C key (chunk_nonce idx) aad ciphertext of None \<Rightarrow> Inl Mac | Some pt \<Rightarrow> Inr pt)"

end
