(* ===== verification/Ratchet_Props.thy ===== *)
theory Ratchet_Props
  imports Ratchet
begin

text \<open>
  What holds of the Double Ratchet and of the handshake: both ends of a conversation stay in
  step (\<open>ahead\<close>), messages of one sending chain are read in any order (\<open>receiving\<close>), and what a
  stranger can send never grows the state beyond its bound.
\<close>

section \<open>Chains\<close>

fun ck_iter :: "crypto \<Rightarrow> bytes \<Rightarrow> nat \<Rightarrow> bytes" where
  "ck_iter C ck 0 = ck"
| "ck_iter C ck (Suc i) = fst (kdf_ck C (ck_iter C ck i))"

definition mk_at :: "crypto \<Rightarrow> bytes \<Rightarrow> nat \<Rightarrow> bytes" where
  "mk_at C ck i = snd (kdf_ck C (ck_iter C ck i))"

lemma kdf_ck_iter: "kdf_ck C (ck_iter C ck i) = (ck_iter C ck (Suc i), mk_at C ck i)"
  by (simp add: mk_at_def)

lemma aead_roundtrip:
  "aead_correct C \<Longrightarrow> aead_encrypt C mk ad h p = Inr ct \<Longrightarrow> aead_decrypt C mk ad h ct = Inr p"
  by (auto simp: aead_encrypt_def aead_decrypt_def split_beta aead_correctD split: option.splits)

lemma u32_add1: "n \<noteq> - 1 \<Longrightarrow> u32_checked_add1 n = Some (n + 1)"
  by (simp add: u32_checked_add1_def)

lemma unat_add1: "n \<noteq> (- 1 :: u32) \<Longrightarrow> unat (n + 1) = Suc (unat n)"
proof -
  assume "n \<noteq> - 1"
  then have "n < - 1" by (simp add: less_le word_order.extremum)
  then show "unat (n + 1) = Suc (unat n)" by (rule unat_plus1)
qed

lemma encrypt_inner_chain:
  assumes "cks A = Some (ck_iter C ck i)" and "encrypt_inner C A p ad = Inr (A', h, ct)"
  shows "h = \<lparr>h_dh = dhs_pk A, h_pn = pn A, h_n = ns A\<rparr>" and "aead_encrypt C (mk_at C ck i) ad h p = Inr ct"
    and "A' = A\<lparr>cks := Some (ck_iter C ck (Suc i)), ns := ns A + 1\<rparr>" and "ns A \<noteq> - 1"
  using assms unfolding encrypt_inner_def
  by (auto simp: kdf_ck_iter u32_checked_add1_def Let_def split: option.splits sum.splits if_splits simp del: ck_iter.simps)

section \<open>Skipping\<close>

lemma skip_loop_done: "\<not> n < until \<Longrightarrow> skip_loop C dh until ck n sk = (ck, n, sk)"
  by (simp add: skip_loop.simps [of C dh until ck n sk])

lemma skip_loop_step:
  "n < until \<Longrightarrow> skip_loop C dh until (ck_iter C ck0 (unat n)) n sk =
     skip_loop C dh until (ck_iter C ck0 (unat (n + 1))) (n + 1) (hm_insert (dh, n) (mk_at C ck0 (unat n)) sk)"
  by (subst skip_loop.simps) (simp add: kdf_ck_iter unat_plus1 del: ck_iter.simps)

lemma skip_loop_spec:
  assumes "n \<le> until" and "distinct (keys sk)"
  shows "\<exists>sk'. skip_loop C dh until (ck_iter C ck0 (unat n)) n sk = (ck_iter C ck0 (unat until), until, sk') \<and>
     distinct (keys sk') \<and> length sk' \<le> length sk + (unat until - unat n) \<and>
     (\<forall>d k. hm_get sk' (d, k) = (if d = dh \<and> n \<le> k \<and> k < until then Some (mk_at C ck0 (unat k)) else hm_get sk (d, k)))"
  using assms
proof (induction "unat until - unat n" arbitrary: n sk)
  case 0
  then have "unat n = unat until" by (simp add: word_le_nat_alt)
  then have "n = until" by (rule unsigned_word_eqI)
  then show ?case using 0 by (auto simp: skip_loop_done)
next
  case (Suc m)
  then have lt: "n < until" by (simp add: word_less_nat_alt)
  let ?sk = "hm_insert (dh, n) (mk_at C ck0 (unat n)) sk"
  note n1 = unat_plus1 [OF lt]
  have m: "m = unat until - unat (n + 1)" using Suc.hyps(2) n1 by simp
  have le: "n + 1 \<le> until" using lt n1 by (simp add: word_le_nat_alt word_less_nat_alt)
  have d: "distinct (keys ?sk)" using Suc.prems(2) by simp
  from Suc.hyps(1) [OF m le d] obtain sk' where
    r: "skip_loop C dh until (ck_iter C ck0 (unat (n + 1))) (n + 1) ?sk = (ck_iter C ck0 (unat until), until, sk')"
    and dk: "distinct (keys sk')" and len: "length sk' \<le> length ?sk + (unat until - unat (n + 1))"
    and get: "\<forall>d k. hm_get sk' (d, k) = (if d = dh \<and> n + 1 \<le> k \<and> k < until then Some (mk_at C ck0 (unat k)) else hm_get ?sk (d, k))"
    by blast
  have "length ?sk \<le> Suc (length sk)" using length_hm_insert [OF Suc.prems(2)] by simp
  with len have "length sk' \<le> length sk + (unat until - unat n)"
    using n1 lt by (simp add: word_less_nat_alt)
  moreover have "n + 1 \<le> k \<longleftrightarrow> n < k" for k
    using n1 by (simp add: word_le_nat_alt word_less_nat_alt Suc_le_eq)
  then have "hm_get sk' (d, k) = (if d = dh \<and> n \<le> k \<and> k < until then Some (mk_at C ck0 (unat k)) else hm_get sk (d, k))" for d k
    using get lt by (auto simp: le_less)
  ultimately show ?case using skip_loop_step [OF lt] r dk by auto
qed

section \<open>The bound on the state\<close>

definition ratchet_inv :: "RatchetState \<Rightarrow> bool" where
  "ratchet_inv st \<longleftrightarrow> length (skipped st) \<le> MAX_SKIP \<and> distinct (keys (skipped st)) \<and> (ckr st \<noteq> None \<longrightarrow> dhr st \<noteq> None)"

lemma skip_loop_bound:
  "distinct (keys sk) \<Longrightarrow> skip_loop C dh until ck n sk = (ck', n', sk') \<Longrightarrow>
     distinct (keys sk') \<and> length sk' \<le> length sk + (unat until - unat n)"
proof (induction C dh until ck n sk rule: skip_loop.induct)
  case (1 C dh until ck n sk)
  show ?case
  proof (cases "n < until")
    case True
    let ?sk = "hm_insert (dh, n) (snd (kdf_ck C ck)) sk"
    have "skip_loop C dh until (fst (kdf_ck C ck)) (n + 1) ?sk = (ck', n', sk')"
      using "1.prems"(2) True by (simp add: skip_loop.simps [of C dh until ck n sk] split_beta)
    with "1.IH" [OF True, of "kdf_ck C ck" "fst (kdf_ck C ck)" "snd (kdf_ck C ck)"] "1.prems"(1)
    have "distinct (keys sk') \<and> length sk' \<le> length ?sk + (unat until - unat (n + 1))" by simp
    with length_hm_insert [OF "1.prems"(1), of "(dh, n)" "snd (kdf_ck C ck)"] unat_plus1 [OF True] True show ?thesis
      by (auto simp: word_less_nat_alt split: if_splits)
  next
    case False
    with 1 show ?thesis by (simp add: skip_loop_done)
  qed
qed

lemma skip_inv: "ratchet_inv st \<Longrightarrow> skip_message_keys C st until = Inr st' \<Longrightarrow> ratchet_inv st'"
  using skip_loop_bound [of "skipped st" C _ until _ "nr st"]
  by (fastforce simp: skip_message_keys_def ratchet_inv_def u32_saturating_sub_def Let_def
      split: if_splits option.splits prod.splits)

lemma dh_ratchet_inv: "ratchet_inv st \<Longrightarrow> ratchet_inv (dh_ratchet C fresh st h)"
  by (simp add: dh_ratchet_def ratchet_inv_def split_beta)

lemma decrypt_step_inv: "ratchet_inv st \<Longrightarrow> decrypt_step C st h ct ad = Inr (st', pt) \<Longrightarrow> ratchet_inv st'"
  by (auto simp: decrypt_step_def Let_def split_beta ratchet_inv_def dest!: skip_inv [rotated]
      split: sum.splits option.splits)

lemma decrypt_inner_inv: "ratchet_inv st \<Longrightarrow> decrypt_inner C fresh st h ct ad = Inr (st', pt) \<Longrightarrow> ratchet_inv st'"
proof (cases "hm_get (skipped st) (h_dh h, h_n h)")
  case None
  assume inv: "ratchet_inv st" and d: "decrypt_inner C fresh st h ct ad = Inr (st', pt)"
  show ?thesis
  proof (cases "Some (h_dh h) = dhr st")
    case True
    with None d inv show ?thesis by (auto simp: decrypt_inner_def intro: decrypt_step_inv)
  next
    case False
    with None d obtain st1 where s: "skip_message_keys C st (h_pn h) = Inr st1"
      and "decrypt_step C (dh_ratchet C fresh st1 h) h ct ad = Inr (st', pt)"
      by (auto simp: decrypt_inner_def split: sum.splits)
    with dh_ratchet_inv [OF skip_inv [OF inv s]] show ?thesis by (blast intro: decrypt_step_inv)
  qed
next
  case (Some mk)
  assume "ratchet_inv st" and "decrypt_inner C fresh st h ct ad = Inr (st', pt)"
  with Some length_hm_remove [OF Some] show ?thesis
    by (auto simp: decrypt_inner_def ratchet_inv_def split: sum.splits)
qed

lemma encrypt_inv: "ratchet_inv st \<Longrightarrow> ratchet_inv (fst (encrypt C st p ad))"
  by (auto simp: encrypt_def encrypt_inner_def ratchet_inv_def Let_def split_beta split: sum.splits option.splits)

lemma decrypt_inv: "ratchet_inv st \<Longrightarrow> ratchet_inv (fst (decrypt C fresh st h ct ad))"
  using decrypt_inner_inv [of st C fresh h ct ad] by (auto simp: decrypt_def split: sum.splits)

datatype RatchetOp = Send bytes bytes | Receive bytes RatchetHeader bytes bytes

fun ratchet_step :: "crypto \<Rightarrow> RatchetState \<Rightarrow> RatchetOp \<Rightarrow> RatchetState" where
  "ratchet_step C st (Send p ad) = fst (encrypt C st p ad)"
| "ratchet_step C st (Receive fresh h ct ad) = fst (decrypt C fresh st h ct ad)"

lemma ratchet_steps_inv: "ratchet_inv st \<Longrightarrow> ratchet_inv (foldl (ratchet_step C) st ops)"
proof (induction ops arbitrary: st)
  case (Cons op ops)
  have "ratchet_inv (ratchet_step C st op)"
    using Cons.prems by (cases op) (simp_all add: encrypt_inv decrypt_inv)
  from Cons.IH [OF this] show ?case by simp
qed simp

text \<open>
  C32. What a peer or a stranger can do to a session: after any sequence of messages sent and
  received, whatever the headers and ciphertexts that arrive, the state holds at most \<open>MAX_SKIP\<close>
  keys of skipped messages, none twice; and whatever state the session has come to, an operation
  that fails then leaves it exactly as it was, so that a forged message cannot break a session or
  cost it a stored key.
\<close>

theorem ratchet_bounded:
  assumes "st = new_alice C fresh sk their \<or> st = new_bob sk spk"
    and "st' = foldl (ratchet_step C) st ops"
  shows "length (skipped st') \<le> MAX_SKIP \<and> distinct (keys (skipped st')) \<and>
         (\<forall>p ad e. snd (encrypt C st' p ad) = Inl e \<longrightarrow> fst (encrypt C st' p ad) = st') \<and>
         (\<forall>r h ct ad e. snd (decrypt C r st' h ct ad) = Inl e \<longrightarrow> fst (decrypt C r st' h ct ad) = st')"
proof -
  have "ratchet_inv st" using assms(1) by (auto simp: new_alice_def new_bob_def ratchet_inv_def split_beta)
  then have "ratchet_inv st'" unfolding assms(2) by (rule ratchet_steps_inv)
  then have "length (skipped st') \<le> MAX_SKIP" "distinct (keys (skipped st'))" by (simp_all add: ratchet_inv_def)
  moreover have "fst (encrypt C st' p ad) = st'" if "snd (encrypt C st' p ad) = Inl e" for p ad e
    using that by (auto simp: encrypt_def split: sum.splits)
  moreover have "fst (decrypt C r st' h ct ad) = st'" if "snd (decrypt C r st' h ct ad) = Inl e" for r h ct ad e
    using that by (auto simp: decrypt_def split: sum.splits)
  ultimately show ?thesis by blast
qed

section \<open>Messages of one chain, in any order\<close>

text \<open>
  The receiver's view of the sender's chain that starts at \<open>ck0\<close> under the ratchet key \<open>dh\<close>:
  \<open>got\<close> are the numbers of the messages it has read.
\<close>

definition receiving :: "crypto \<Rightarrow> RatchetState \<Rightarrow> bytes \<Rightarrow> bytes \<Rightarrow> u32 set \<Rightarrow> bool" where
  "receiving C st dh ck0 got \<longleftrightarrow>
     dhr st = Some dh \<and> ckr st = Some (ck_iter C ck0 (unat (nr st))) \<and> distinct (keys (skipped st)) \<and>
     (\<forall>n. hm_get (skipped st) (dh, n) = (if n < nr st \<and> n \<notin> got then Some (mk_at C ck0 (unat n)) else None)) \<and>
     (\<forall>n \<in> got. n < nr st)"

lemma skip_to:
  assumes "receiving C st dh ck0 got" and "nr st \<le> n" and "length (skipped st) + (unat n - unat (nr st)) \<le> MAX_SKIP"
  shows "\<exists>sk. skip_message_keys C st n = Inr (st\<lparr>ckr := Some (ck_iter C ck0 (unat n)), nr := n, skipped := sk\<rparr>) \<and>
     distinct (keys sk) \<and> length sk \<le> length (skipped st) + (unat n - unat (nr st)) \<and>
     (\<forall>k. hm_get sk (dh, k) = (if k < n \<and> k \<notin> got then Some (mk_at C ck0 (unat k)) else None))"
proof -
  note r = assms(1) [unfolded receiving_def]
  from skip_loop_spec [OF assms(2), of "skipped st" C dh ck0] r obtain sk where
    l: "skip_loop C dh n (ck_iter C ck0 (unat (nr st))) (nr st) (skipped st) = (ck_iter C ck0 (unat n), n, sk)"
    and sk: "distinct (keys sk)" "length sk \<le> length (skipped st) + (unat n - unat (nr st))"
    and get: "\<forall>d k. hm_get sk (d, k) = (if d = dh \<and> nr st \<le> k \<and> k < n then Some (mk_at C ck0 (unat k)) else hm_get (skipped st) (d, k))"
    by blast
  have "hm_get sk (dh, k) = (if k < n \<and> k \<notin> got then Some (mk_at C ck0 (unat k)) else None)" for k
  proof (cases "nr st \<le> k")
    case True
    with r have "k \<notin> got" by auto
    moreover have "hm_get (skipped st) (dh, k) = None" using r True by (simp add: not_less)
    ultimately show ?thesis using get True by simp
  next
    case False
    then have "k < nr st" by simp
    with assms(2) have "k < n" by simp
    moreover have "hm_get sk (dh, k) = hm_get (skipped st) (dh, k)" using get False by simp
    ultimately show ?thesis using r \<open>k < nr st\<close> by simp
  qed
  moreover have "skip_message_keys C st n = Inr (st\<lparr>ckr := Some (ck_iter C ck0 (unat n)), nr := n, skipped := sk\<rparr>)"
    using assms(3) r l by (simp add: skip_message_keys_def u32_saturating_sub_def)
  ultimately show ?thesis using sk by blast
qed

lemma deliver:
  assumes "aead_correct C" and rcv: "receiving C st dh ck0 got" and "h_dh h = dh" and "h_n h \<notin> got" and "h_n h \<noteq> - 1"
    and lim: "nr st \<le> h_n h \<Longrightarrow> length (skipped st) + (unat (h_n h) - unat (nr st)) \<le> MAX_SKIP"
    and ct: "aead_encrypt C (mk_at C ck0 (unat (h_n h))) ad h p = Inr ct"
  shows "\<exists>st'. decrypt C fresh st h ct ad = (st', Inr p) \<and> receiving C st' dh ck0 (insert (h_n h) got) \<and>
           length (skipped st') + unat (nr st) \<le> length (skipped st) + unat (nr st') \<and>
           unat (nr st') \<le> max (unat (nr st)) (Suc (unat (h_n h)))"
proof (cases "h_n h < nr st")
  case True
  let ?st = "st\<lparr>skipped := hm_remove (dh, h_n h) (skipped st)\<rparr>"
  have mk: "hm_get (skipped st) (dh, h_n h) = Some (mk_at C ck0 (unat (h_n h)))"
    using rcv True assms(4) by (simp add: receiving_def)
  then have "decrypt C fresh st h ct ad = (?st, Inr p)"
    using aead_roundtrip [OF assms(1) ct] assms(3) by (simp add: decrypt_def decrypt_inner_def)
  moreover have "receiving C ?st dh ck0 (insert (h_n h) got)"
    using rcv True by (auto simp: receiving_def)
  ultimately show ?thesis using length_hm_remove [OF mk] by auto
next
  case False
  then have ge: "nr st \<le> h_n h" by simp
  have none: "hm_get (skipped st) (dh, h_n h) = None" using rcv False by (simp add: receiving_def)
  from skip_to [OF rcv ge lim [OF ge]] obtain sk where
    s: "skip_message_keys C st (h_n h) = Inr (st\<lparr>ckr := Some (ck_iter C ck0 (unat (h_n h))), nr := h_n h, skipped := sk\<rparr>)"
    and sk: "distinct (keys sk)" "length sk \<le> length (skipped st) + (unat (h_n h) - unat (nr st))"
    and get: "\<forall>k. hm_get sk (dh, k) = (if k < h_n h \<and> k \<notin> got then Some (mk_at C ck0 (unat k)) else None)"
    by blast
  let ?st = "st\<lparr>ckr := Some (ck_iter C ck0 (Suc (unat (h_n h)))), nr := h_n h + 1, skipped := sk\<rparr>"
  have n1: "unat (h_n h + 1) = Suc (unat (h_n h))" by (rule unat_add1 [OF assms(5)])
  have "decrypt_step C st h ct ad = Inr (?st, p)"
    using s aead_roundtrip [OF assms(1) ct] u32_add1 [OF assms(5)]
    by (simp add: decrypt_step_def kdf_ck_iter del: ck_iter.simps)
  then have "decrypt C fresh st h ct ad = (?st, Inr p)"
    using none assms(3) rcv by (simp add: decrypt_def decrypt_inner_def receiving_def)
  moreover have "receiving C ?st dh ck0 (insert (h_n h) got)"
  proof -
    have le: "k < h_n h + 1 \<longleftrightarrow> k < h_n h \<or> k = h_n h" for k
      using n1 by (auto simp: word_less_nat_alt less_Suc_eq word_unat_eq_iff)
    have "\<forall>k \<in> got. k < h_n h" using rcv ge by (auto simp: receiving_def)
    with rcv sk(1) get le n1 show ?thesis by (auto simp: receiving_def simp del: ck_iter.simps)
  qed
  moreover have "length sk + unat (nr st) \<le> length (skipped st) + unat (h_n h + 1)"
    using sk(2) n1 ge by (simp add: word_le_nat_alt)
  ultimately show ?thesis using n1 by auto
qed

text \<open>
  A message that was read already: its key is gone, and the next key of the chain, which is tried instead, does not
  open it.
\<close>

lemma deliver_again:
  assumes rcv: "receiving C st dh ck0 got" and "h_dh h = dh" and "h_n h \<in> got" and "nr st \<noteq> - 1"
    and "length (skipped st) \<le> MAX_SKIP" and "aead_decrypt C (mk_at C ck0 (unat (nr st))) ad h ct = Inl Mac"
  shows "decrypt C fresh st h ct ad = (st, Inl Mac)"
proof -
  have old: "h_n h < nr st" and none: "hm_get (skipped st) (dh, h_n h) = None"
    using rcv assms(3) by (simp_all add: receiving_def)
  have "skip_message_keys C st (h_n h) = Inr st"
    using old assms(5) rcv by (simp add: skip_message_keys_def u32_saturating_sub_def skip_loop_done word_less_nat_alt receiving_def)
  then have "decrypt_step C st h ct ad = Inl Mac"
    using rcv assms(4,6) u32_add1 [OF assms(4)] by (simp add: decrypt_step_def receiving_def kdf_ck_iter del: ck_iter.simps)
  then show ?thesis using none rcv assms(2) by (simp add: decrypt_def decrypt_inner_def receiving_def)
qed

text \<open>Sending a list of messages, each with its associated data; the first error ends it.\<close>

fun send_all :: "crypto \<Rightarrow> RatchetState \<Rightarrow> (bytes \<times> bytes) list \<Rightarrow> RatchetState \<times> (CryptoError + (RatchetHeader \<times> bytes) list)" where
  "send_all C st [] = (st, Inr [])"
| "send_all C st ((p, ad) # rest) =
     (case encrypt C st p ad of
        (st1, Inl e) \<Rightarrow> (st1, Inl e)
      | (st1, Inr m) \<Rightarrow>
          (case send_all C st1 rest of (st2, Inl e) \<Rightarrow> (st2, Inl e) | (st2, Inr ms) \<Rightarrow> (st2, Inr (m # ms))))"

text \<open>Receiving a list of messages, each with the secret drawn for it and its associated data.\<close>

fun receive_all ::
  "crypto \<Rightarrow> RatchetState \<Rightarrow> (bytes \<times> (RatchetHeader \<times> bytes) \<times> bytes) list \<Rightarrow> (CryptoError + bytes) list" where
  "receive_all C st [] = []"
| "receive_all C st ((fresh, (h, ct), ad) # rest) =
     (let (st', r) = decrypt C fresh st h ct ad in r # receive_all C st' rest)"

lemma send_all_chain:
  assumes "cks A = Some (ck_iter C ck0 (unat (ns A)))" and "send_all C A ms = (A', Inr sent)"
  shows "length sent = length ms \<and> (\<forall>i < length ms.
     h_dh (fst (sent ! i)) = dhs_pk A \<and> unat (h_n (fst (sent ! i))) = unat (ns A) + i \<and> h_n (fst (sent ! i)) \<noteq> - 1 \<and>
     aead_encrypt C (mk_at C ck0 (unat (ns A) + i)) (snd (ms ! i)) (fst (sent ! i)) (fst (ms ! i)) = Inr (snd (sent ! i)))"
  using assms
proof (induction ms arbitrary: A sent)
  case (Cons m ms)
  obtain p ad where m: "m = (p, ad)" by (cases m)
  from Cons.prems(2) m obtain A1 h ct sent' where
    e: "encrypt_inner C A p ad = Inr (A1, h, ct)" and r: "send_all C A1 ms = (A', Inr sent')" and s: "sent = (h, ct) # sent'"
    by (auto simp: encrypt_def split: sum.splits prod.splits)
  note c = encrypt_inner_chain [OF Cons.prems(1) e]
  have n1: "unat (ns A + 1) = Suc (unat (ns A))" by (rule unat_add1 [OF c(4)])
  have "cks A1 = Some (ck_iter C ck0 (unat (ns A1)))" using c(3) n1 by (simp del: ck_iter.simps)
  from Cons.IH [OF this r] have IH: "length sent' = length ms"
    "\<And>i. i < length ms \<Longrightarrow> h_dh (fst (sent' ! i)) = dhs_pk A1 \<and> unat (h_n (fst (sent' ! i))) = unat (ns A1) + i \<and>
       h_n (fst (sent' ! i)) \<noteq> - 1 \<and>
       aead_encrypt C (mk_at C ck0 (unat (ns A1) + i)) (snd (ms ! i)) (fst (sent' ! i)) (fst (ms ! i)) = Inr (snd (sent' ! i))"
    by blast+
  have A1: "dhs_pk A1 = dhs_pk A" "ns A1 = ns A + 1" using c(3) by simp_all
  have h: "h_dh h = dhs_pk A" "h_n h = ns A" using c(1) by simp_all
  show ?case
  proof (intro conjI allI impI)
    show "length sent = length (m # ms)" using IH(1) s by simp
    fix i assume i: "i < length (m # ms)"
    show "h_dh (fst (sent ! i)) = dhs_pk A" "unat (h_n (fst (sent ! i))) = unat (ns A) + i" "h_n (fst (sent ! i)) \<noteq> - 1"
      "aead_encrypt C (mk_at C ck0 (unat (ns A) + i)) (snd ((m # ms) ! i)) (fst (sent ! i)) (fst ((m # ms) ! i)) = Inr (snd (sent ! i))"
      using i IH(2) [of "i - 1"] s m h c(2,4) A1 n1 by (cases i; simp)+
  qed
qed simp

text \<open>
  What the receiver answers when the messages \<open>is\<close> arrive after those of \<open>got\<close>: a message's text the first time, an
  authentication error every further time.
\<close>

fun read_once :: "(nat \<Rightarrow> bytes) \<Rightarrow> nat list \<Rightarrow> nat list \<Rightarrow> (CryptoError + bytes) list" where
  "read_once p got [] = []"
| "read_once p got (i # is) = (if i \<in> set got then Inl Mac else Inr (p i)) # read_once p (i # got) is"

text \<open>No message of the chain opens under the key of another message of it.\<close>

definition keys_apart :: "crypto \<Rightarrow> bytes \<Rightarrow> (bytes \<times> bytes) list \<Rightarrow> (RatchetHeader \<times> bytes) list \<Rightarrow> bool" where
  "keys_apart C ck ms sent \<longleftrightarrow>
     (\<forall>i < length ms. \<forall>j \<le> length ms. j \<noteq> i \<longrightarrow>
        aead_decrypt C (mk_at C ck j) (snd (ms ! i)) (fst (sent ! i)) (snd (sent ! i)) = Inl Mac)"

text \<open>Message \<open>i\<close> of the chain \<open>ck0\<close> as it was sent.\<close>

definition on_chain :: "crypto \<Rightarrow> bytes \<Rightarrow> bytes \<Rightarrow> bytes \<times> bytes \<Rightarrow> RatchetHeader \<times> bytes \<Rightarrow> nat \<Rightarrow> bool" where
  "on_chain C dh ck0 m x i \<longleftrightarrow> h_dh (fst x) = dh \<and> unat (h_n (fst x)) = i \<and> h_n (fst x) \<noteq> - 1 \<and>
     aead_encrypt C (mk_at C ck0 i) (snd m) (fst x) (fst m) = Inr (snd x)"

lemma deliver_or_again:
  assumes "aead_correct C" and sent: "\<forall>i < length ms. on_chain C dh ck0 (ms ! i) (sent ! i) i"
    and lim: "base + length ms \<le> MAX_SKIP" and got: "\<forall>j \<in> set got. j < length ms" and i: "i < length ms"
    and rcv: "receiving C st dh ck0 ((\<lambda>j. h_n (fst (sent ! j))) ` set got)"
    and len: "length (skipped st) \<le> base + unat (nr st)" "unat (nr st) \<le> length ms"
    and apart: "i \<in> set got \<Longrightarrow> keys_apart C ck0 ms sent"
  shows "\<exists>st'. decrypt C fresh st (fst (sent ! i)) (snd (sent ! i)) (snd (ms ! i)) =
       (st', if i \<in> set got then Inl Mac else Inr (fst (ms ! i))) \<and>
     receiving C st' dh ck0 ((\<lambda>j. h_n (fst (sent ! j))) ` set (i # got)) \<and>
     length (skipped st') \<le> base + unat (nr st') \<and> unat (nr st') \<le> length ms"
proof -
  let ?N = "\<lambda>j. h_n (fst (sent ! j))"
  have s: "h_dh (fst (sent ! i)) = dh" "unat (?N i) = i" "?N i \<noteq> - 1"
    "aead_encrypt C (mk_at C ck0 (unat (?N i))) (snd (ms ! i)) (fst (sent ! i)) (fst (ms ! i)) = Inr (snd (sent ! i))"
    using sent i by (simp_all add: on_chain_def)
  have seen: "?N i \<in> ?N ` set got \<longleftrightarrow> i \<in> set got"
  proof
    assume "?N i \<in> ?N ` set got"
    then obtain j where j: "j \<in> set got" "?N i = ?N j" by auto
    then have "unat (?N j) = j" using sent got by (simp add: on_chain_def)
    with j s(2) show "i \<in> set got" by metis
  qed simp
  show ?thesis
  proof (cases "i \<in> set got")
    case True
    with rcv have "?N i < nr st" by (simp add: receiving_def)
    then have ne: "unat (nr st) \<noteq> i" using s(2) by (auto simp: word_less_nat_alt)
    have "unat (nr st) \<le> 1000" using len(2) lim by (simp add: MAX_SKIP_def)
    then have "nr st \<noteq> - 1" by (auto simp: unsigned_minus_1_eq_mask mask_eq_exp_minus_1)
    then have "decrypt C fresh st (fst (sent ! i)) (snd (sent ! i)) (snd (ms ! i)) = (st, Inl Mac)"
      using apart [OF True] ne i len lim True by (intro deliver_again [OF rcv s(1)]) (auto simp: keys_apart_def)
    moreover have "?N ` set (i # got) = ?N ` set got" using True by auto
    ultimately show ?thesis using rcv len True by simp
  next
    case False
    have room: "length (skipped st) + (unat (?N i) - unat (nr st)) \<le> MAX_SKIP" if "nr st \<le> ?N i"
      using that len(1) lim i s(2) by (simp add: word_le_nat_alt)
    from deliver [OF assms(1) rcv s(1) _ s(3) room s(4), of fresh] False seen obtain st' where
      d: "decrypt C fresh st (fst (sent ! i)) (snd (sent ! i)) (snd (ms ! i)) = (st', Inr (fst (ms ! i)))"
      "receiving C st' dh ck0 (insert (?N i) (?N ` set got))"
      and l: "length (skipped st') + unat (nr st) \<le> length (skipped st) + unat (nr st')"
      "unat (nr st') \<le> max (unat (nr st)) (Suc (unat (?N i)))" by blast
    have "length (skipped st') \<le> base + unat (nr st')" using l(1) len(1) by linarith
    moreover have "unat (nr st') \<le> length ms" using l(2) len(2) i s(2) by simp
    ultimately show ?thesis using d False by (intro exI [of _ st']) simp
  qed
qed

lemma receive_all_chain:
  assumes "aead_correct C" and "\<forall>i < length ms. on_chain C dh ck0 (ms ! i) (sent ! i) i" and "base + length ms \<le> MAX_SKIP"
  shows "receiving C st dh ck0 ((\<lambda>j. h_n (fst (sent ! j))) ` set got) \<Longrightarrow> \<forall>j \<in> set got. j < length ms \<Longrightarrow>
     length (skipped st) \<le> base + unat (nr st) \<Longrightarrow> unat (nr st) \<le> length ms \<Longrightarrow> \<forall>i \<in> set order. i < length ms \<Longrightarrow>
     keys_apart C ck0 ms sent \<or> distinct order \<and> set order \<inter> set got = {} \<Longrightarrow>
     receive_all C st (map (\<lambda>i. (fresh i, sent ! i, snd (ms ! i))) order) = read_once (\<lambda>i. fst (ms ! i)) got order"
proof (induction order arbitrary: st got)
  case (Cons i order)
  have i: "i < length ms" "i \<in> set got \<Longrightarrow> keys_apart C ck0 ms sent" using Cons.prems(5,6) by auto
  from deliver_or_again [OF assms Cons.prems(2) i(1) Cons.prems(1,3,4) i(2), of "fresh i"] obtain st' where
    d: "decrypt C (fresh i) st (fst (sent ! i)) (snd (sent ! i)) (snd (ms ! i)) =
       (st', if i \<in> set got then Inl Mac else Inr (fst (ms ! i)))"
    and st': "receiving C st' dh ck0 ((\<lambda>j. h_n (fst (sent ! j))) ` set (i # got))"
    "length (skipped st') \<le> base + unat (nr st')" "unat (nr st') \<le> length ms" by blast
  have "receive_all C st' (map (\<lambda>i. (fresh i, sent ! i, snd (ms ! i))) order) = read_once (\<lambda>i. fst (ms ! i)) (i # got) order"
    by (rule Cons.IH [OF st'(1) _ st'(2,3)]) (use Cons.prems in auto)
  with d show ?case by (cases "sent ! i") simp
qed simp

text \<open>
  C9. Out-of-order delivery: of the messages a sender writes on one chain, the receiver reads
  every one it gets, in whatever order they arrive and whichever are lost, to the text that was
  sent, as long as the chain is no longer than the keys of skipped messages it may hold. Each is
  read once: one that arrives again, however often and whenever, is refused as not authentic (no
  message of the chain opening under the key of another), and changes nothing for those that follow.
\<close>

theorem ratchet_any_order:
  assumes "aead_correct C"
    and "cks A = Some ck" and "ns A = 0" and "send_all C A ms = (A', Inr sent)"
    and "dhr B = Some (dhs_pk A)" and "ckr B = Some ck" and "nr B = 0"
    and "\<forall>n. hm_get (skipped B) (dhs_pk A, n) = None" and "distinct (keys (skipped B))"
    and "length (skipped B) + length ms \<le> MAX_SKIP"
    and "\<forall>i \<in> set order. i < length ms" and "distinct order \<or> keys_apart C ck ms sent"
  shows "receive_all C B (map (\<lambda>i. (fresh i, sent ! i, snd (ms ! i))) order) = read_once (\<lambda>i. fst (ms ! i)) [] order"
proof -
  have chain: "cks A = Some (ck_iter C ck (unat (ns A)))" using assms(2,3) by simp
  have sent: "\<forall>i < length ms. on_chain C (dhs_pk A) ck (ms ! i) (sent ! i) i"
    using send_all_chain [OF chain assms(4)] assms(3) by (simp add: on_chain_def)
  show ?thesis
    by (rule receive_all_chain [OF assms(1) sent assms(10)]) (use assms in \<open>auto simp: receiving_def\<close>)
qed

section \<open>A conversation\<close>

text \<open>
  \<open>ahead C X Y\<close>: the two ends of a session in step, \<open>X\<close> being the one whose current sending
  chain the other has not seen. \<open>Y\<close> may go on with its own chain, which \<open>X\<close> reads.
\<close>

definition ahead :: "crypto \<Rightarrow> RatchetState \<Rightarrow> RatchetState \<Rightarrow> bool" where
  "ahead C X Y \<longleftrightarrow>
     dhs_pk X = X25519_pub C (dhs_sk X) \<and> dhs_pk Y = X25519_pub C (dhs_sk Y) \<and>
     dhr X = Some (dhs_pk Y) \<and> dhr Y \<noteq> Some (dhs_pk X) \<and> dhr Y \<noteq> None \<and>
     (\<exists>ck. cks X = Some ck \<and> kdf_rk C (rk Y) (X25519 C (dhs_sk X) (dhs_pk Y)) = (rk X, ck)) \<and>
     (\<exists>ck. cks Y = Some ck \<and> ckr X = Some ck) \<and> nr X = ns Y \<and>
     ns X = 0 \<and> pn X = nr Y \<and> skipped X = [] \<and> skipped Y = []"

definition aead_total :: "crypto \<Rightarrow> bool" where
  "aead_total C \<longleftrightarrow> (\<forall>k n ad m. Aead_encrypt C k n ad m \<noteq> None)"

lemma encrypt_total:
  assumes "aead_total C" and "cks X = Some ck" and "ns X \<noteq> - 1"
  shows "\<exists>ct. encrypt C X p ad =
      (X\<lparr>cks := Some (fst (kdf_ck C ck)), ns := ns X + 1\<rparr>, Inr (\<lparr>h_dh = dhs_pk X, h_pn = pn X, h_n = ns X\<rparr>, ct)) \<and>
    aead_encrypt C (snd (kdf_ck C ck)) ad \<lparr>h_dh = dhs_pk X, h_pn = pn X, h_n = ns X\<rparr> p = Inr ct"
proof -
  obtain ct where "aead_encrypt C (snd (kdf_ck C ck)) ad \<lparr>h_dh = dhs_pk X, h_pn = pn X, h_n = ns X\<rparr> p = Inr ct"
    using assms(1) by (fastforce simp: aead_encrypt_def aead_total_def split_beta split: option.splits)
  with assms(2,3) show ?thesis
    by (simp add: encrypt_def encrypt_inner_def u32_add1 split_beta Let_def)
qed

lemma skip_nothing:
  "skipped st = [] \<Longrightarrow> nr st = until \<Longrightarrow> (ckr st = None \<or> dhr st \<noteq> None) \<Longrightarrow> skip_message_keys C st until = Inr st"
  by (auto simp: skip_message_keys_def u32_saturating_sub_def skip_loop_done split: option.splits)

lemma decrypt_step_next:
  assumes "skipped st = []" "nr st = h_n h" "ckr st = Some ck" "dhr st \<noteq> None" "h_n h \<noteq> - 1"
    and "aead_decrypt C (snd (kdf_ck C ck)) ad h ct = Inr p"
  shows "decrypt_step C st h ct ad = Inr (st\<lparr>ckr := Some (fst (kdf_ck C ck)), nr := h_n h + 1\<rparr>, p)"
  using assms skip_nothing [of st "h_n h" C] by (simp add: decrypt_step_def u32_add1 split_beta)

text \<open>A first message on a new chain turns the roles; the receiver draws its next secret.\<close>

lemma ahead_speaks:
  assumes "aead_correct C" "aead_total C" "dh_commutes C" and a: "ahead C X Y" and fresh: "X25519_pub C r \<noteq> dhs_pk Y"
  shows "\<exists>X' Y' h ct. encrypt C X p ad = (X', Inr (h, ct)) \<and> decrypt C r Y h ct ad = (Y', Inr p) \<and>
           ahead C Y' X' \<and> dhs_pk X' = dhs_pk X \<and> dhs_pk Y' = X25519_pub C r \<and> ns X' = 1 \<and> ns Y' = 0"
proof -
  from a obtain ck cky where ck: "cks X = Some ck" "kdf_rk C (rk Y) (X25519 C (dhs_sk X) (dhs_pk Y)) = (rk X, ck)"
    and y: "cks Y = Some cky" "ckr X = Some cky" by (auto simp: ahead_def)
  note a' = a [unfolded ahead_def]
  let ?h = "\<lparr>h_dh = dhs_pk X, h_pn = pn X, h_n = ns X\<rparr>"
  let ?X = "X\<lparr>cks := Some (fst (kdf_ck C ck)), ns := ns X + 1\<rparr>"
  have n0: "ns X = 0" using a' by blast
  obtain ct where e: "encrypt C X p ad = (?X, Inr (?h, ct))" and ct: "aead_encrypt C (snd (kdf_ck C ck)) ad ?h p = Inr ct"
    using encrypt_total [OF assms(2) ck(1), of p ad] n0 by auto
  let ?Y1 = "dh_ratchet C r Y ?h"
  have dh: "X25519 C (dhs_sk Y) (dhs_pk X) = X25519 C (dhs_sk X) (dhs_pk Y)"
    using a' dh_commutesD [OF assms(3), of "dhs_sk Y" "dhs_sk X"] by simp
  have Y1: "ckr ?Y1 = Some ck" "nr ?Y1 = 0" "skipped ?Y1 = []" "dhr ?Y1 = Some (dhs_pk X)" "pn ?Y1 = ns Y" "ns ?Y1 = 0"
    "dhs_sk ?Y1 = r" "dhs_pk ?Y1 = X25519_pub C r"
    "kdf_rk C (rk X) (X25519 C r (dhs_pk X)) = (rk ?Y1, the (cks ?Y1))" "cks ?Y1 \<noteq> None"
    using a' dh ck(2) by (auto simp: dh_ratchet_def split_beta)
  have s: "skip_message_keys C Y (h_pn ?h) = Inr Y"
    using a' by (intro skip_nothing) auto
  let ?Y = "?Y1\<lparr>ckr := Some (fst (kdf_ck C ck)), nr := h_n ?h + 1\<rparr>"
  have "decrypt_step C ?Y1 ?h ct ad = Inr (?Y, p)"
    by (rule decrypt_step_next) (use Y1 n0 aead_roundtrip [OF assms(1) ct] in auto)
  then have d: "decrypt C r Y ?h ct ad = (?Y, Inr p)"
    using a' s by (auto simp: decrypt_def decrypt_inner_def)
  have "ahead C ?Y ?X"
    using a' Y1 n0 fresh y by (auto simp: ahead_def)
  then show ?thesis using e d Y1 n0 by auto
qed

text \<open>The other end going on with its chain turns nothing.\<close>

lemma behind_speaks:
  assumes "aead_correct C" "aead_total C" and a: "ahead C X Y" and n: "ns Y \<noteq> - 1"
  shows "\<exists>X' Y' h ct. encrypt C Y p ad = (Y', Inr (h, ct)) \<and> decrypt C r X h ct ad = (X', Inr p) \<and>
           ahead C X' Y' \<and> dhs_pk X' = dhs_pk X \<and> dhs_pk Y' = dhs_pk Y \<and> ns Y' = ns Y + 1 \<and> ns X' = 0"
proof -
  from a obtain ck where ck: "cks Y = Some ck" "ckr X = Some ck" by (auto simp: ahead_def)
  note a' = a [unfolded ahead_def]
  let ?h = "\<lparr>h_dh = dhs_pk Y, h_pn = pn Y, h_n = ns Y\<rparr>"
  let ?Y = "Y\<lparr>cks := Some (fst (kdf_ck C ck)), ns := ns Y + 1\<rparr>"
  let ?X = "X\<lparr>ckr := Some (fst (kdf_ck C ck)), nr := h_n ?h + 1\<rparr>"
  obtain ct where e: "encrypt C Y p ad = (?Y, Inr (?h, ct))" and ct: "aead_encrypt C (snd (kdf_ck C ck)) ad ?h p = Inr ct"
    using encrypt_total [OF assms(2) ck(1) n, of p ad] by auto
  have "decrypt_step C X ?h ct ad = Inr (?X, p)"
    by (rule decrypt_step_next) (use a' ck n aead_roundtrip [OF assms(1) ct] in auto)
  then have d: "decrypt C r X ?h ct ad = (?X, Inr p)"
    using a' by (auto simp: decrypt_def decrypt_inner_def)
  have "ahead C ?X ?Y" using a' ck by (auto simp: ahead_def)
  then show ?thesis using e d a' by auto
qed

text \<open>
  A script of a conversation: who speaks (\<open>True\<close> for the first party), the text, its associated
  data, and the secret the reader draws. The result is what each reader reads.
\<close>

fun converse ::
  "crypto \<Rightarrow> RatchetState \<times> RatchetState \<Rightarrow> (bool \<times> bytes \<times> bytes \<times> bytes) list \<Rightarrow> (CryptoError + bytes) list" where
  "converse C (A, B) [] = []"
| "converse C (A, B) ((who, p, ad, r) # rest) =
     (let (sender, reader) = (if who then (A, B) else (B, A)) in
      case encrypt C sender p ad of
        (_, Inl e) \<Rightarrow> [Inl e]
      | (sender', Inr (h, ct)) \<Rightarrow>
          (let (reader', res) = decrypt C r reader h ct ad
           in res # converse C (if who then (sender', reader') else (reader', sender')) rest))"

lemma small_ns: "unat (n :: u32) < 2 ^ 32 - 1 \<Longrightarrow> n \<noteq> - 1"
proof -
  have "unat (- 1 :: u32) = 2 ^ 32 - 1" by (simp add: unsigned_minus_1_eq_mask mask_eq_exp_minus_1)
  then show "unat n < 2 ^ 32 - 1 \<Longrightarrow> n \<noteq> - 1" by auto
qed

definition drawn :: "crypto \<Rightarrow> (bool \<times> bytes \<times> bytes \<times> bytes) list \<Rightarrow> bytes list" where
  "drawn C script = map (\<lambda>(who, p, ad, r). X25519_pub C r) script"

lemma drawn_Cons [simp]: "drawn C ((who, p, ad, r) # script) = X25519_pub C r # drawn C script"
  by (simp add: drawn_def)

text \<open>One turn, whoever speaks and whoever is ahead.\<close>

lemma turn:
  assumes "aead_correct C" "aead_total C" "dh_commutes C" and "ahead C S R \<or> ahead C R S"
    and "X25519_pub C r \<noteq> dhs_pk R" and "unat (ns S) < 2 ^ 32 - 1"
  shows "\<exists>S' R' h ct. encrypt C S p ad = (S', Inr (h, ct)) \<and> decrypt C r R h ct ad = (R', Inr p) \<and>
           (ahead C S' R' \<or> ahead C R' S') \<and> dhs_pk S' = dhs_pk S \<and> (dhs_pk R' = X25519_pub C r \<or> dhs_pk R' = dhs_pk R) \<and>
           unat (ns S') + unat (ns R') \<le> Suc (unat (ns S) + unat (ns R))"
  using assms(4)
proof
  assume a: "ahead C S R"
  from ahead_speaks [OF assms(1-3) a assms(5), of p ad] show ?thesis
    by (elim exE conjE) (fastforce simp: a [unfolded ahead_def])
next
  assume a: "ahead C R S"
  note n = small_ns [OF assms(6)]
  from behind_speaks [OF assms(1,2) a n, of p ad r] obtain R' S' h ct where
    "encrypt C S p ad = (S', Inr (h, ct))" "decrypt C r R h ct ad = (R', Inr p)" "ahead C R' S'"
    "dhs_pk R' = dhs_pk R" "dhs_pk S' = dhs_pk S" "ns S' = ns S + 1" "ns R' = 0" by blast
  then show ?thesis using unat_add1 [OF n] by auto
qed

text \<open>
  C1. A conversation is read as it is written: once two ends are in step, whoever speaks when and
  how often, every message is read by the other end to the text that was sent. (The secrets drawn
  are taken to have public keys that differ from one another, and the conversation to be shorter
  than the message counters reach.)
\<close>

theorem ratchet_conversation:
  assumes "aead_correct C" "aead_total C" "dh_commutes C" and "ahead C A B \<or> ahead C B A"
    and "distinct (dhs_pk A # dhs_pk B # drawn C script)"
    and "unat (ns A) + unat (ns B) + length script < 2 ^ 32"
  shows "converse C (A, B) script = map (\<lambda>(who, p, ad, r). Inr p) script"
proof -
  have "converse C (A, B) script = map (\<lambda>(who, p, ad, r). Inr p) script"
    if "dhs_pk A \<notin> set (drawn C script)"
      "dhs_pk B \<notin> set (drawn C script)"
    using assms(4-6) that
  proof (induction script arbitrary: A B)
    case (Cons x script)
    obtain who p ad r where x: "x = (who, p, ad, r)" by (metis prod.exhaust)
    define S where "S = (if who then A else B)"
    define R where "R = (if who then B else A)"
    have sr: "ahead C S R \<or> ahead C R S" "X25519_pub C r \<noteq> dhs_pk R" "unat (ns S) < 2 ^ 32 - 1"
      using Cons.prems x by (auto simp: S_def R_def)
    from turn [OF assms(1-3) sr, of p ad] obtain S' R' h ct where
      t: "encrypt C S p ad = (S', Inr (h, ct))" "decrypt C r R h ct ad = (R', Inr p)" "ahead C S' R' \<or> ahead C R' S'"
      "dhs_pk S' = dhs_pk S" "dhs_pk R' = X25519_pub C r \<or> dhs_pk R' = dhs_pk R"
      "unat (ns S') + unat (ns R') \<le> Suc (unat (ns S) + unat (ns R))" by blast
    define A' where "A' = (if who then S' else R')"
    define B' where "B' = (if who then R' else S')"
    have "converse C (A', B') script = map (\<lambda>(who, p, ad, r). Inr p) script"
    proof (rule Cons.IH)
      show "ahead C A' B' \<or> ahead C B' A'" using t(3) by (auto simp: A'_def B'_def)
      show "unat (ns A') + unat (ns B') + length script < 2 ^ 32"
        using t(6) Cons.prems(3) by (auto simp: A'_def B'_def S_def R_def split: if_splits)
      have pks: "dhs_pk A' \<in> {dhs_pk A, dhs_pk B, X25519_pub C r}" "dhs_pk B' \<in> {dhs_pk A, dhs_pk B, X25519_pub C r}"
        using t(4,5) by (auto simp: A'_def B'_def S_def R_def split: if_splits)
      have new: "X25519_pub C r \<notin> set (drawn C script)"
        using Cons.prems(2) x by simp
      show "dhs_pk A' \<notin> set (drawn C script)"
        "dhs_pk B' \<notin> set (drawn C script)"
        using pks new Cons.prems(4,5) unfolding x drawn_Cons by (metis insertE list.set_intros(2) singletonD)+
      have "dhs_pk A' \<noteq> dhs_pk B'"
        using t(4,5) Cons.prems(2) x by (auto simp: A'_def B'_def S_def R_def split: if_splits)
      with Cons.prems(2) [unfolded x] \<open>dhs_pk A' \<notin> _\<close> \<open>dhs_pk B' \<notin> _\<close>
      show "distinct (dhs_pk A' # dhs_pk B' # drawn C script)" by simp
    qed
    with t(1,2) x show ?case by (auto simp: S_def R_def A'_def B'_def)
  qed simp
  with assms(5) show ?thesis by simp
qed

section \<open>The handshake\<close>

lemma x3dh_same_key:
  assumes "dh_commutes C"
  shows "x3dh_ikm_initiator C ik eph (X25519_pub C ik') (X25519_pub C spk) (map_option (X25519_pub C) opk) =
         x3dh_ikm_responder C ik' spk opk (X25519_pub C ik) (X25519_pub C eph)"
  unfolding x3dh_ikm_initiator_def x3dh_ikm_responder_def
  using dh_commutesD [OF assms, of ik spk] dh_commutesD [OF assms, of eph ik'] dh_commutesD [OF assms, of eph spk]
    dh_commutesD [OF assms, of eph]
  by (cases opk) simp_all

text \<open>
  C19. The handshake works: a first message written from a bundle is read by the owner of the
  bundle to the text that was sent, with whichever of their one-time keys the bundle carried,
  and both ends are then in step. A bundle whose prekey is not signed by its identity is refused.
\<close>

theorem x3dh_roundtrip:
  assumes "aead_correct C" "aead_total C" "dh_commutes C" "ed_correct C"
    and "alice = identity_from_bytes C sa ka" and "bob = identity_from_bytes C sb kb"
    and "spk = prekey_from_secret C k1" and "opk = map_option (\<lambda>(i, k). (i, prekey_from_secret C k)) one_time"
    and "X25519_pub C fb \<noteq> pk_public spk" and "X25519_pub C fa \<noteq> pk_public spk"
  shows "(\<exists>stA init stB. x3dh_initiate C eph fa alice (bundle_new C bob spk opk) p ad = Inr (stA, init) \<and>
           xi_one_time_id init = map_option fst opk \<and>
           x3dh_respond C fb bob spk (map_option snd opk) init ad = Inr (stB, p) \<and>
           (X25519_pub C fa \<noteq> X25519_pub C fb \<longrightarrow> ahead C stB stA)) \<and>
         (\<forall>b. \<not> bundle_verify C b \<longrightarrow> x3dh_initiate C eph fa alice b p ad = Inl BadSignature)"
proof -
  let ?b = "bundle_new C bob spk opk"
  let ?sk = "x3dh_ikm_initiator C ka eph (X25519_pub C kb) (X25519_pub C k1) (one_time_prekey ?b)"
  have v: "bundle_verify C ?b"
    using ed_correctD [OF assms(4)]
    by (simp add: bundle_verify_def bundle_new_def card_verify_def identity_sign_def assms(6) identity_from_bytes_def)
  have otp: "one_time_prekey ?b = map_option (X25519_pub C) (map_option snd one_time)"
    by (cases one_time) (auto simp: bundle_new_def assms(8) prekey_from_secret_def split_beta)
  let ?A = "new_alice C fa ?sk (X25519_pub C k1)"
  define ck where "ck = snd (kdf_rk C ?sk (X25519 C fa (X25519_pub C k1)))"
  have A: "cks ?A = Some ck" "kdf_rk C ?sk (X25519 C fa (X25519_pub C k1)) = (rk ?A, ck)" "ns ?A = 0" "pn ?A = 0"
    "dhs_pk ?A = X25519_pub C fa" "dhs_sk ?A = fa" "dhr ?A = Some (X25519_pub C k1)" "ckr ?A = None" "nr ?A = 0" "skipped ?A = []"
    by (simp_all add: new_alice_def split_beta ck_def)
  let ?h = "\<lparr>h_dh = dhs_pk ?A, h_pn = pn ?A, h_n = ns ?A\<rparr>"
  let ?A' = "?A\<lparr>cks := Some (fst (kdf_ck C ck)), ns := ns ?A + 1\<rparr>"
  obtain ct where e: "encrypt C ?A p ad = (?A', Inr (?h, ct))" and ct: "aead_encrypt C (snd (kdf_ck C ck)) ad ?h p = Inr ct"
    using encrypt_total [OF assms(2) A(1), of p ad] A(3) by auto
  let ?init = "\<lparr>xi_identity = id_card alice, xi_ephemeral = X25519_pub C eph, xi_one_time_id = pb_one_time_id ?b,
    xi_header = ?h, xi_ciphertext = ct\<rparr>"
  have init: "x3dh_initiate C eph fa alice ?b p ad = Inr (?A', ?init)"
    using v e by (simp add: x3dh_initiate_def assms(5-7) identity_from_bytes_def bundle_new_def prekey_from_secret_def)
  let ?B = "new_bob ?sk spk"
  have sk: "x3dh_ikm_responder C kb k1 (map_option snd one_time) (X25519_pub C ka) (X25519_pub C eph) = ?sk"
    unfolding otp by (rule x3dh_same_key [OF assms(3), symmetric])
  have opks: "map_option pk_secret (map_option snd opk) = map_option snd one_time"
    by (cases one_time) (auto simp: assms(8) prekey_from_secret_def split_beta)
  have dh: "X25519 C k1 (X25519_pub C fa) = X25519 C fa (X25519_pub C k1)" by (rule dh_commutesD [OF assms(3)])
  let ?B1 = "dh_ratchet C fb ?B ?h"
  have B1: "ckr ?B1 = Some ck" "nr ?B1 = 0" "skipped ?B1 = []" "dhr ?B1 = Some (X25519_pub C fa)" "pn ?B1 = 0" "ns ?B1 = 0"
    "dhs_sk ?B1 = fb" "dhs_pk ?B1 = X25519_pub C fb"
    "kdf_rk C (rk ?A) (X25519 C fb (X25519_pub C fa)) = (rk ?B1, the (cks ?B1))" "cks ?B1 \<noteq> None"
    using A dh by (auto simp: dh_ratchet_def new_bob_def assms(7) prekey_from_secret_def split_beta)
  have s: "skip_message_keys C ?B (h_pn ?h) = Inr ?B" by (rule skip_nothing) (simp_all add: new_bob_def A(4))
  let ?B2 = "?B1\<lparr>ckr := Some (fst (kdf_ck C ck)), nr := h_n ?h + 1\<rparr>"
  have "decrypt_step C ?B1 ?h ct ad = Inr (?B2, p)"
    by (rule decrypt_step_next) (use B1 A(3) aead_roundtrip [OF assms(1) ct] in auto)
  then have d: "decrypt C fb ?B ?h ct ad = (?B2, Inr p)"
    using s by (simp add: decrypt_def decrypt_inner_def new_bob_def)
  have "x3dh_respond C fb bob spk (map_option snd opk) ?init ad = Inr (?B2, p)"
    using d sk opks by (simp add: x3dh_respond_def assms(5-7) identity_from_bytes_def prekey_from_secret_def)
  moreover have "ahead C ?B2 ?A'" if "X25519_pub C fa \<noteq> X25519_pub C fb"
    using B1 A assms(7,9) that by (auto simp: ahead_def prekey_from_secret_def)
  moreover have "xi_one_time_id ?init = map_option fst opk" by (simp add: bundle_new_def)
  moreover have "\<forall>b. \<not> bundle_verify C b \<longrightarrow> x3dh_initiate C eph fa alice b p ad = Inl BadSignature"
    by (simp add: x3dh_initiate_def)
  ultimately show ?thesis using init by blast
qed

section \<open>Attachments\<close>

lemma chunk_nonce_inj: "chunk_nonce i = chunk_nonce j \<longleftrightarrow> i = j"
  by (simp add: chunk_nonce_def)

text \<open>
  Attachment chunks round trip under their index and associated data, and no two chunks of
  an attachment are encrypted under the same nonce.
\<close>

theorem chunk_roundtrip:
  assumes "aead_correct C" and "encrypt_chunk C key i aad p = Inr ct"
  shows "decrypt_chunk C key i aad ct = Inr p \<and> (\<forall>j. chunk_nonce j = chunk_nonce i \<longleftrightarrow> j = i) \<and> length (chunk_nonce i) = 24"
  using assms by (auto simp: encrypt_chunk_def decrypt_chunk_def chunk_nonce_inj aead_correctD chunk_nonce_def split: option.splits)

lemma read_skipped_ok:
  "distinct (keys out) \<Longrightarrow> read_skipped xs out = Inr sk \<Longrightarrow>
     distinct (keys sk) \<and> (length out \<le> MAX_SKIP \<longrightarrow> length sk \<le> MAX_SKIP)"
proof (induction xs out rule: read_skipped.induct)
  case (2 i key rest out)
  then show ?case by (auto simp: length_hm_insert split: if_splits)
qed simp

section \<open>Witnesses\<close>

lemma toy_aead_total: "aead_total toy_crypto"
  by (simp add: aead_total_def toy_crypto_def)

definition toy_sender :: RatchetState where
  "toy_sender = new_alice toy_crypto [1] [2] (X25519_pub toy_crypto [3])"

definition toy_reader :: RatchetState where
  "toy_reader = \<lparr>dhs_sk = [3], dhs_pk = X25519_pub toy_crypto [3], dhr = Some (dhs_pk toy_sender), rk = [], cks = None,
     ckr = cks toy_sender, ns = 0, nr = 0, pn = 0, skipped = []\<rparr>"

theorem ratchet_bounded_witness:
  "\<exists>st'. st' = foldl (ratchet_step toy_crypto) toy_sender [Send [7] [], Receive [4] \<lparr>h_dh = [5], h_pn = 2000, h_n = 9\<rparr> [6] []] \<and>
     ns st' = 1 \<and> length (skipped st') \<le> MAX_SKIP \<and>
     snd (decrypt toy_crypto [6] st' \<lparr>h_dh = [5], h_pn = 2000, h_n = 2\<rparr> [1] []) = Inl TooManySkipped \<and>
     fst (decrypt toy_crypto [6] st' \<lparr>h_dh = [5], h_pn = 2000, h_n = 2\<rparr> [1] []) = st'"
proof -
  let ?ops = "[Send [7] [], Receive [4] \<lparr>h_dh = [5], h_pn = 2000, h_n = 9\<rparr> [6] []]"
  let ?st = "foldl (ratchet_step toy_crypto) toy_sender ?ops"
  obtain ck where ck: "cks toy_sender = Some ck" and s: "ns toy_sender = 0" "nr toy_sender = 0" "skipped toy_sender = []"
    "dhr toy_sender = Some (X25519_pub toy_crypto [3])"
    by (simp add: toy_sender_def new_alice_def split_beta)
  obtain X where X: "fst (encrypt toy_crypto toy_sender [7] []) = X" "ns X = 1" "nr X = 0" "skipped X = []"
    "dhr X = Some (X25519_pub toy_crypto [3])"
    using encrypt_total [OF toy_aead_total ck, of "[7]" "[]"] s by fastforce
  have far: "decrypt toy_crypto r X \<lparr>h_dh = [5], h_pn = 2000, h_n = n\<rparr> ct ad = (X, Inl TooManySkipped)" for r n ct ad
    using X by (simp add: decrypt_def decrypt_inner_def skip_message_keys_def u32_saturating_sub_def MAX_SKIP_def toy_crypto_def fit_def)
  then have st: "?st = X" using X(1) by simp
  have "length (skipped ?st) \<le> MAX_SKIP \<and>
      (\<forall>r h ct ad e. snd (decrypt toy_crypto r ?st h ct ad) = Inl e \<longrightarrow> fst (decrypt toy_crypto r ?st h ct ad) = ?st)"
    using ratchet_bounded [OF disjI1 [OF toy_sender_def] refl, of ?ops] by blast
  then have "length (skipped ?st) \<le> MAX_SKIP"
    "fst (decrypt toy_crypto [6] ?st \<lparr>h_dh = [5], h_pn = 2000, h_n = 2\<rparr> [1] []) = ?st"
    using far [of "[6]" 2 "[1]" "[]"] unfolding st by auto
  moreover have "snd (decrypt toy_crypto [6] ?st \<lparr>h_dh = [5], h_pn = 2000, h_n = 2\<rparr> [1] []) = Inl TooManySkipped"
    unfolding st far by simp
  moreover have "ns ?st = 1" unfolding st by (rule X(2))
  ultimately show ?thesis by (intro exI [of _ ?st] conjI refl)
qed

text \<open>The keys of the sender's first four messages are told apart by the tags of the toy cipher.\<close>

definition toy_sum :: "bytes \<Rightarrow> 8 word" where
  "toy_sum mk = sum_list (fst (aead_from_mk toy_crypto mk)) + 3 * sum_list (snd (aead_from_mk toy_crypto mk))"

lemma toy_sums: "map (\<lambda>j. toy_sum (mk_at toy_crypto (the (cks toy_sender)) j)) [0, 1, 2, 3] = [96, 98, 100, 102]"
  by code_simp

lemma toy_apart:
  assumes "aead_encrypt toy_crypto mk ad h p = Inr ct" and "toy_sum mk \<noteq> toy_sum mk'"
  shows "aead_decrypt toy_crypto mk' ad h ct = Inl Mac"
  using assms by (auto simp: aead_encrypt_def aead_decrypt_def toy_crypto_def toy_tag_def toy_sum_def split_beta)

lemma toy_keys_apart:
  assumes "send_all toy_crypto toy_sender ms = (A', Inr sent)" and "length ms = 3"
  shows "keys_apart toy_crypto (the (cks toy_sender)) ms sent"
proof -
  let ?ck = "the (cks toy_sender)"
  have ck: "cks toy_sender = Some ?ck" "ns toy_sender = 0"
    by (simp_all add: toy_sender_def new_alice_def split_beta)
  have sums: "toy_sum (mk_at toy_crypto ?ck 0) = 96" "toy_sum (mk_at toy_crypto ?ck 1) = 98"
    "toy_sum (mk_at toy_crypto ?ck 2) = 100" "toy_sum (mk_at toy_crypto ?ck 3) = 102"
    using toy_sums by simp_all
  have sent: "aead_encrypt toy_crypto (mk_at toy_crypto ?ck i) (snd (ms ! i)) (fst (sent ! i)) (fst (ms ! i)) = Inr (snd (sent ! i))"
    if "i < 3" for i
    using send_all_chain [of toy_sender toy_crypto ?ck ms A' sent] ck assms that by simp
  have "toy_sum (mk_at toy_crypto ?ck i) \<noteq> toy_sum (mk_at toy_crypto ?ck j)" if "i < 3" "j \<le> 3" "j \<noteq> i" for i j
  proof -
    have "i \<in> {0, 1, 2}" "j \<in> {0, 1, 2, 3}" using that by auto
    then show ?thesis using that(3) sums by auto
  qed
  with sent show ?thesis unfolding keys_apart_def assms(2) by (blast intro: toy_apart)
qed

theorem ratchet_any_order_witness:
  "\<exists>A' sent. send_all toy_crypto toy_sender [([7], []), ([8], []), ([9], [])] = (A', Inr sent) \<and>
     receive_all toy_crypto toy_reader (map (\<lambda>i. ([], sent ! i, snd ([([7], []), ([8], []), ([9], [])] ! i))) [2, 0, 2, 0, 1])
       = [Inr [9], Inr [7], Inl Mac, Inl Mac, Inr [8]]"
proof -
  let ?ms = "[([7], []), ([8], []), ([9], [])] :: (bytes \<times> bytes) list"
  have ck: "cks toy_sender = Some (the (cks toy_sender))" "ns toy_sender = 0"
    by (simp_all add: toy_sender_def new_alice_def split_beta)
  have step: "\<exists>X' m. encrypt toy_crypto X p ad = (X', Inr m) \<and> cks X' \<noteq> None \<and> ns X' = ns X + 1"
    if "cks X \<noteq> None" "ns X \<noteq> - 1" for X p ad
    using encrypt_total [OF toy_aead_total _ that(2), of _ p ad] that(1) by fastforce
  obtain X1 m1 where 1: "encrypt toy_crypto toy_sender [7] [] = (X1, Inr m1)" "cks X1 \<noteq> None" "ns X1 = 1"
    using step [of toy_sender "[7]" "[]"] ck by auto
  obtain X2 m2 where 2: "encrypt toy_crypto X1 [8] [] = (X2, Inr m2)" "cks X2 \<noteq> None" "ns X2 = 2"
    using step [of X1 "[8]" "[]"] 1 by auto
  obtain X3 m3 where 3: "encrypt toy_crypto X2 [9] [] = (X3, Inr m3)"
    using step [of X2 "[9]" "[]"] 2 by auto
  have s: "send_all toy_crypto toy_sender ?ms = (X3, Inr [m1, m2, m3])" using 1 2 3 by simp
  have "receive_all toy_crypto toy_reader (map (\<lambda>i. ((\<lambda>_. []) i, [m1, m2, m3] ! i, snd (?ms ! i))) [2, 0, 2, 0, 1]) =
      read_once (\<lambda>i. fst (?ms ! i)) [] [2, 0, 2, 0, 1]"
    by (rule ratchet_any_order [OF toy_aead_correct ck s])
      (use toy_keys_apart [OF s] ck in \<open>simp_all add: toy_reader_def MAX_SKIP_def\<close>)
  with s show ?thesis by auto
qed

lemma toy_pubs: "X25519_pub toy_crypto [a] = X25519_pub toy_crypto [b] \<longleftrightarrow> a = b"
  by (simp add: toy_crypto_def fit_def)

theorem x3dh_roundtrip_witness:
  "\<exists>stA init stB.
     x3dh_initiate toy_crypto [9] [5] (identity_from_bytes toy_crypto [1] [2])
       (bundle_new toy_crypto (identity_from_bytes toy_crypto [3] [4]) (prekey_from_secret toy_crypto [7])
          (Some (1, prekey_from_secret toy_crypto [8]))) [42] [] = Inr (stA, init) \<and>
     x3dh_respond toy_crypto [6] (identity_from_bytes toy_crypto [3] [4]) (prekey_from_secret toy_crypto [7])
       (Some (prekey_from_secret toy_crypto [8])) init [] = Inr (stB, [42]) \<and> ahead toy_crypto stB stA"
proof -
  have f: "X25519_pub toy_crypto [6] \<noteq> pk_public (prekey_from_secret toy_crypto [7])"
    "X25519_pub toy_crypto [5] \<noteq> pk_public (prekey_from_secret toy_crypto [7])"
    "X25519_pub toy_crypto [5] \<noteq> X25519_pub toy_crypto [6]"
    by (simp_all add: prekey_from_secret_def toy_pubs)
  from x3dh_roundtrip [OF toy_aead_correct toy_aead_total toy_dh_commutes toy_ed_correct refl refl refl refl f(1,2),
      where one_time = "Some (1, [8])" and p = "[42]" and ad = "[]" and eph = "[9]" and sa = "[1]" and ka = "[2]" and sb = "[3]" and kb = "[4]"] f(3)
  show ?thesis by auto
qed

theorem ratchet_conversation_witness:
  "\<exists>A B. converse toy_crypto (A, B) [(True, [1], [], [11]), (True, [2], [], [12]), (False, [3], [], [13]), (True, [4], [], [14])]
     = [Inr [1], Inr [2], Inr [3], Inr [4]]"
proof -
  let ?script = "[(True, [1], [], [11]), (True, [2], [], [12]), (False, [3], [], [13]), (True, [4], [], [14])] :: (bool \<times> bytes \<times> bytes \<times> bytes) list"
  let ?K = "kdf_rk toy_crypto [] (X25519 toy_crypto [5] (X25519_pub toy_crypto [6]))"
  let ?X = "\<lparr>dhs_sk = [5], dhs_pk = X25519_pub toy_crypto [5], dhr = Some (X25519_pub toy_crypto [6]), rk = fst ?K,
     cks = Some (snd ?K), ckr = Some [], ns = 0, nr = 0, pn = 0, skipped = []\<rparr>"
  let ?Y = "\<lparr>dhs_sk = [6], dhs_pk = X25519_pub toy_crypto [6], dhr = Some [], rk = [],
     cks = Some [], ckr = None, ns = 0, nr = 0, pn = 0, skipped = []\<rparr>"
  have "ahead toy_crypto ?X ?Y" by (simp add: ahead_def toy_crypto_def fit_def)
  moreover have "distinct (dhs_pk ?X # dhs_pk ?Y # drawn toy_crypto ?script)"
    by (simp add: drawn_def toy_pubs)
  ultimately have "converse toy_crypto (?X, ?Y) ?script = map (\<lambda>(who, p, ad, r). Inr p) ?script"
    by (intro ratchet_conversation [OF toy_aead_correct toy_aead_total toy_dh_commutes]) simp_all
  then show ?thesis by auto
qed

theorem chunk_roundtrip_witness:
  "\<exists>ct. encrypt_chunk toy_crypto [1] 7 [] [5] = Inr ct \<and> decrypt_chunk toy_crypto [1] 7 [] ct = Inr [5]"
proof -
  obtain ct where ct: "encrypt_chunk toy_crypto [1] 7 [] [5] = Inr ct"
    by (simp add: encrypt_chunk_def toy_crypto_def)
  from chunk_roundtrip [OF toy_aead_correct ct] ct show ?thesis by blast
qed

end
