(* ===== verification/Str_Ops.thy ===== *)
theory Str_Ops
  imports Utf8
begin

text \<open>
  More of Rust's \<open>str\<close> and slices on bytes: prefixes and suffixes, \<open>contains\<close>, \<open>split\<close> and \<open>split_once\<close>
  at an ASCII character, \<open>lines\<close>, ASCII classes and case, and the formats of numbers the program
  writes, with the lemmas the components that read and write names, versions and digests share.
\<close>

definition starts_with :: "bytes \<Rightarrow> bytes \<Rightarrow> bool" where
  "starts_with d p \<longleftrightarrow> take (length p) d = p"

definition strip_prefix :: "bytes \<Rightarrow> bytes \<Rightarrow> bytes option" where
  "strip_prefix p d = (if starts_with d p then Some (drop (length p) d) else None)"

definition ends_with :: "bytes \<Rightarrow> bytes \<Rightarrow> bool" where
  "ends_with d p \<longleftrightarrow> starts_with (rev d) (rev p)"

definition strip_suffix :: "bytes \<Rightarrow> bytes \<Rightarrow> bytes option" where
  "strip_suffix suf s =
     (if length suf \<le> length s \<and> drop (length s - length suf) s = suf
      then Some (take (length s - length suf) s) else None)"

definition has_window :: "bytes \<Rightarrow> bytes \<Rightarrow> bool" where
  "has_window w d \<longleftrightarrow> list_ex (\<lambda>i. take (length w) (drop i d) = w) [0..<Suc (length d) - length w]"

fun split_on :: "u8 \<Rightarrow> bytes \<Rightarrow> bytes list" where
  "split_on c [] = [[]]"
| "split_on c (x # xs) =
     (if x = c then [] # split_on c xs
      else case split_on c xs of [] \<Rightarrow> [[x]] | p # ps \<Rightarrow> (x # p) # ps)"

definition split_once :: "u8 \<Rightarrow> bytes \<Rightarrow> (bytes \<times> bytes) option" where
  "split_once c s =
     (case dropWhile (\<lambda>x. x \<noteq> c) s of [] \<Rightarrow> None | _ # after \<Rightarrow> Some (takeWhile (\<lambda>x. x \<noteq> c) s, after))"

text \<open>\<open>str::lines\<close>: a line ends at a line feed, before which one carriage return is dropped.\<close>

definition strip_cr :: "bytes \<Rightarrow> bytes" where
  "strip_cr l = (if l \<noteq> [] \<and> last l = 0x0D then butlast l else l)"

definition str_lines :: "bytes \<Rightarrow> bytes list" where
  "str_lines s =
     (let ps = split_on 0x0A s in map strip_cr (butlast ps) @ (if last ps = [] then [] else [last ps]))"

definition is_digit :: "u8 \<Rightarrow> bool" where
  "is_digit b \<longleftrightarrow> 0x30 \<le> b \<and> b \<le> 0x39"

definition is_ascii_hexdigit :: "u8 \<Rightarrow> bool" where
  "is_ascii_hexdigit b \<longleftrightarrow> is_digit b \<or> (0x41 \<le> b \<and> b \<le> 0x46) \<or> (0x61 \<le> b \<and> b \<le> 0x66)"

definition to_ascii_lowercase :: "u8 \<Rightarrow> u8" where
  "to_ascii_lowercase c = (if 0x41 \<le> c \<and> c \<le> 0x5A then c + 0x20 else c)"

definition hex_digit :: "nat \<Rightarrow> u8" where
  "hex_digit n = of_nat (if n < 10 then 48 + n else 87 + n)"

definition hex_02 :: "u8 \<Rightarrow> bytes" where
  "hex_02 b = [hex_digit (unat b div 16), hex_digit (unat b mod 16)]"

text \<open>\<open>str::parse::<u64>\<close> on a string of decimal digits, and the number written in decimal.\<close>

definition of_decimal :: "bytes \<Rightarrow> nat" where
  "of_decimal s = foldl (\<lambda>n b. 10 * n + (unat b - 48)) 0 s"

definition parse_u64 :: "bytes \<Rightarrow> nat option" where
  "parse_u64 s = (if of_decimal s < 2 ^ 64 then Some (of_decimal s) else None)"

fun decimal :: "nat \<Rightarrow> bytes" where
  "decimal n = (if n < 10 then [of_nat (48 + n)] else decimal (n div 10) @ [of_nat (48 + n mod 10)])"

declare decimal.simps [simp del]

section \<open>Splitting and joining\<close>

lemma split_on_ne [simp]: "split_on c s \<noteq> []"
  by (induction s) (auto split: list.split)

lemma split_on_none: "c \<notin> set s \<Longrightarrow> split_on c s = [s]"
  by (induction s) auto

lemma split_on_app: "c \<notin> set a \<Longrightarrow> split_on c (a @ c # b) = a # split_on c b"
  by (induction a) auto

lemma split_on_parts: "p \<in> set (split_on c s) \<Longrightarrow> c \<notin> set p"
proof (induction s arbitrary: p)
  case (Cons x xs)
  then show ?case by (cases "split_on c xs") (auto split: if_splits)
qed simp

fun join_on :: "u8 \<Rightarrow> bytes list \<Rightarrow> bytes" where
  "join_on c [] = []"
| "join_on c [p] = p"
| "join_on c (p # ps) = p @ c # join_on c ps"

lemma join_split [simp]: "join_on c (split_on c s) = s"
proof (induction s)
  case (Cons x xs)
  obtain p ps where "split_on c xs = p # ps" by (cases "split_on c xs") auto
  then show ?case using Cons by (cases ps) auto
qed simp

lemma split_join: "ps \<noteq> [] \<Longrightarrow> \<forall>p \<in> set ps. c \<notin> set p \<Longrightarrow> split_on c (join_on c ps) = ps"
  by (induction c ps rule: join_on.induct) (auto simp: split_on_none split_on_app)

section \<open>Hexadecimal digits\<close>

lemma unat_u8: "unat (b::u8) < 256"
  using unsigned_less [of b] by simp

lemma hex_digit_range: "n < 16 \<Longrightarrow> is_ascii_hexdigit (hex_digit n)"
  by (auto simp: hex_digit_def is_ascii_hexdigit_def is_digit_def word_le_nat_alt unat_of_nat)

lemma hex_02_digits: "list_all is_ascii_hexdigit (hex_02 b)"
  using unat_u8 [of b] by (simp add: hex_02_def hex_digit_range)

section \<open>Decimal numbers\<close>

lemma of_decimal_snoc [simp]: "of_decimal (s @ [b]) = 10 * of_decimal s + (unat b - 48)"
  by (simp add: of_decimal_def)

lemma digit_value: "n < 10 \<Longrightarrow> unat (of_nat (48 + n) :: u8) = 48 + n"
  by (simp add: unat_of_nat take_bit_eq_mod del: of_nat_add)

lemma is_digit_of_nat: "n < 10 \<Longrightarrow> is_digit (of_nat (48 + n))"
  by (simp add: is_digit_def word_le_nat_alt digit_value del: of_nat_add)

lemma decimal_digits: "list_all is_digit (decimal n)"
proof (induction n rule: decimal.induct)
  case (1 n)
  then show ?case using is_digit_of_nat [of n] is_digit_of_nat [of "n mod 10"]
    by (cases "n < 10") (simp_all add: decimal.simps [of n] del: of_nat_add)
qed

lemma of_decimal_decimal [simp]: "of_decimal (decimal n) = n"
proof (induction n rule: decimal.induct)
  case (1 n)
  show ?case
  proof (cases "n < 10")
    case True
    then show ?thesis using digit_value [of n] by (simp add: decimal.simps [of n] of_decimal_def del: of_nat_add)
  next
    case False
    then show ?thesis using 1 digit_value [of "n mod 10"] by (simp add: decimal.simps [of n] del: of_nat_add)
  qed
qed

lemma decimal_ne [simp]: "decimal n \<noteq> []"
  by (subst decimal.simps) simp

lemma hd_decimal: "0 < n \<Longrightarrow> hd (decimal n) \<noteq> 0x30"
proof (induction n rule: decimal.induct)
  case (1 n)
  show ?case
  proof (cases "n < 10")
    case True
    have "unat (of_nat (48 + n) :: u8) \<noteq> 48" using True 1(2) digit_value [of n] by simp
    then have "(of_nat (48 + n) :: u8) \<noteq> 0x30" by fastforce
    then show ?thesis using True by (simp add: decimal.simps [of n])
  next
    case False
    then show ?thesis using 1 by (simp add: decimal.simps [of n])
  qed
qed

text \<open>A number without leading zeros is the decimal of its value.\<close>

lemma of_decimal_pos:
  assumes "list_all is_digit s" and "s \<noteq> []" and "hd s \<noteq> 0x30"
  shows "0 < of_decimal s"
  using assms
proof (induction s rule: rev_induct)
  case (snoc b s)
  have "unat b \<noteq> 48" if "s = []" using snoc(4) that by (auto simp: word_unat_eq_iff)
  then show ?case using snoc by (cases "s = []") (auto simp: is_digit_def word_le_nat_alt of_decimal_def)
qed simp

lemma decimal_of_decimal:
  assumes "list_all is_digit s" and "s \<noteq> []" and "length s = 1 \<or> hd s \<noteq> 0x30"
  shows "decimal (of_decimal s) = s"
  using assms
proof (induction s rule: rev_induct)
  case (snoc b s)
  have b: "unat b - 48 < 10" "of_nat (48 + (unat b - 48)) = b"
    using snoc(2) by (auto simp: is_digit_def word_le_nat_alt)
  show ?case
  proof (cases "s = []")
    case True
    then show ?thesis using b by (simp add: decimal.simps [of "unat b - 48"] of_decimal_def)
  next
    case False
    then have h: "list_all is_digit s" "hd s \<noteq> 0x30" using snoc by auto
    then have "0 < of_decimal s" using False of_decimal_pos by blast
    then have "decimal (of_decimal (s @ [b])) = decimal (of_decimal s) @ [of_nat (48 + (unat b - 48))]"
      using b(1) by (subst decimal.simps) (simp del: of_nat_add of_nat_diff)
    then show ?thesis using snoc.IH h False b(2) by simp
  qed
qed simp

end
