(* ===== verification/Relay_Wire.thy ===== *)
theory Relay_Wire
  imports Crypto_Prims Str_Ops
begin

text \<open>
  The frames between a client and a relay, \<open>libcore/src/relay_wire.rs\<close>, what a login signs, the
  two decoders of destination addresses, and the framing and login of \<open>libcore/src/relay.rs\<close>.
  The encoding of a frame is \<open>bincode\<close>'s, a parameter (\<open>frame_codec\<close>). Message ids are natural
  numbers, as in the store.
\<close>

section \<open>Frames\<close>

datatype ClientToRelay =
    Auth bytes bytes
  | Publish bytes
  | GetBundle bytes
  | Send bytes bytes
  | Ack nat
  | Ping
  | AuthV2 bytes bytes
  | Dht bytes

datatype RelayToClient =
    Challenge bytes
  | AuthOk
  | AuthFail
  | Bundle bytes "bytes option"
  | Incoming nat bytes bytes
  | Deposited nat
  | Pong
  | Error bytes
  | DhtAnswer bytes

definition ERR_NOT_SERVED :: bytes where
  "ERR_NOT_SERVED = ascii ''this relay does not serve that recipient''"

definition ERR_NEEDS_AUTH_V2 :: bytes where
  "ERR_NEEDS_AUTH_V2 = ascii ''log in with AuthV2 to collect or publish''"

definition MAX_FRAME :: u32 where
  "MAX_FRAME = 16 * 1024 * 1024"

definition AUTH_V2_CONTEXT :: bytes where
  "AUTH_V2_CONTEXT = ascii ''gipny-relay-auth-v2''"

definition auth_v2_message :: "bytes \<Rightarrow> bytes \<Rightarrow> bytes" where
  "auth_v2_message destination_hash challenge = concat [AUTH_V2_CONTEXT, destination_hash, challenge]"

text \<open>What a login to one relay signs says which relay it is for, and for which challenge.\<close>

lemma auth_v2_message_inj:
  "length h = length h' \<Longrightarrow> auth_v2_message h c = auth_v2_message h' c' \<longleftrightarrow> h = h' \<and> c = c'"
  by (simp add: auth_v2_message_def)

section \<open>Addresses\<close>

text \<open>
  Both decoders gather the bits of the symbols in a \<open>u32\<close> whose upper bits fall off, and put out a
  byte whenever eight bits are there. \<open>feed m\<close> is the common body for symbols of \<open>m\<close> bits.
\<close>

type_synonym bit_state = "u32 \<times> nat \<times> bytes"

definition feed :: "nat \<Rightarrow> bit_state \<Rightarrow> u8 \<Rightarrow> bit_state" where
  "feed m st v =
     (case st of (acc0, bits0, out) \<Rightarrow>
        let acc = push_bit m acc0 OR ucast v; bits = bits0 + m
        in if bits \<ge> 8 then (acc, bits - 8, out @ [ucast (drop_bit (bits - 8) acc)]) else (acc, bits, out))"

definition b32_digit :: "u8 \<Rightarrow> u8 option" where
  "b32_digit c =
     (if 0x61 \<le> c \<and> c \<le> 0x7A then Some (c - 0x61)
      else if 0x32 \<le> c \<and> c \<le> 0x37 then Some (c - 0x32 + 26)
      else None)"

definition b64_digit :: "u8 \<Rightarrow> u8 option" where
  "b64_digit c =
     (if 0x41 \<le> c \<and> c \<le> 0x5A then Some (c - 0x41)
      else if 0x61 \<le> c \<and> c \<le> 0x7A then Some (c - 0x61 + 26)
      else if 0x30 \<le> c \<and> c \<le> 0x39 then Some (c - 0x30 + 52)
      else if c = 0x2D then Some 62
      else if c = 0x7E then Some 63
      else None)"

fun feed_all :: "(u8 \<Rightarrow> u8 option) \<Rightarrow> nat \<Rightarrow> bytes \<Rightarrow> bit_state \<Rightarrow> bit_state option" where
  "feed_all digit m [] st = Some st"
| "feed_all digit m (c # s) st =
     (case digit c of None \<Rightarrow> None | Some v \<Rightarrow> feed_all digit m s (feed m st v))"

definition trim_eq :: "bytes \<Rightarrow> bytes" where
  "trim_eq s = rev (dropWhile (\<lambda>c. c = 0x3D) (rev s))"

definition i2p_base64_decode :: "bytes \<Rightarrow> bytes option" where
  "i2p_base64_decode s = map_option (\<lambda>(_, _, out). out) (feed_all b64_digit 6 (trim_eq s) (0, 0, []))"

definition base32_decode :: "bytes \<Rightarrow> bytes option" where
  "base32_decode s =
     map_option (\<lambda>(_, _, out). out) (feed_all (\<lambda>c. b32_digit (to_ascii_lowercase c)) 5 s (0, 0, []))"

definition destination_hash :: "crypto \<Rightarrow> bytes \<Rightarrow> bytes option" where
  "destination_hash C address =
     (let a = trim address
      in case (case strip_suffix (ascii ''.b32.i2p'') a of
                 Some host \<Rightarrow> Some host
               | None \<Rightarrow> strip_suffix (ascii ''.B32.I2P'') a) of
           Some host \<Rightarrow>
             (case base32_decode host of
                None \<Rightarrow> None
              | Some out \<Rightarrow> if length out = 32 then Some out else None)
         | None \<Rightarrow> map_option (Sha256 C) (i2p_base64_decode a))"

section \<open>Framing and the client's login, \<open>relay.rs\<close>\<close>

text \<open>Reading from and writing to the stream fail with \<open>Io\<close>.\<close>

datatype RelayError = Net | Io | RCodec | AuthFailed | Proto bytes | Closed | AuthV2Unsupported

text \<open>
  \<open>send\<close> writes a 4-byte big-endian length and the encoding; a frame whose encoding is longer than
  \<open>MAX_FRAME\<close> is not written. \<open>recv\<close> takes a frame off a byte stream: a stream that ends early is
  an \<open>Io\<close> error (\<open>read_exact\<close>).
\<close>

definition send_frame :: "('f \<Rightarrow> bytes) \<Rightarrow> 'f \<Rightarrow> RelayError + bytes" where
  "send_frame ser f =
     (let data = ser f
      in if length data > unat MAX_FRAME then Inl (Proto (ascii ''frame too large''))
         else Inr (u32_to_be_bytes (of_nat (length data)) @ data))"

definition recv_frame :: "(bytes \<Rightarrow> 'f option) \<Rightarrow> bytes \<Rightarrow> RelayError + ('f \<times> bytes)" where
  "recv_frame de s =
     (if length s < 4 then Inl Io
      else
        (let len = of_be_bytes (take 4 s); rest = drop 4 s
         in if len > unat MAX_FRAME then Inl (Proto (ascii ''frame too large''))
            else if length rest < len then Inl Io
            else (case de (take len rest) of
                    None \<Rightarrow> Inl RCodec
                  | Some f \<Rightarrow> Inr (f, drop len rest))))"

text \<open>
  The client's side of a login, up to the frames it writes: the answer to the challenge, and what
  the relay's answer means. A relay that hangs up on, or garbles, the answer to \<open>AuthV2\<close> is taken
  for one that predates it.
\<close>

definition auth_frame :: "(bytes \<Rightarrow> bytes) \<Rightarrow> bytes \<Rightarrow> bytes option \<Rightarrow> RelayToClient \<Rightarrow> RelayError + ClientToRelay" where
  "auth_frame sign pk dest f =
     (case f of
        Challenge c \<Rightarrow>
          Inr (case dest of
                 Some hash \<Rightarrow> AuthV2 pk (sign (auth_v2_message hash c))
               | None \<Rightarrow> Auth pk (sign c))
      | _ \<Rightarrow> Inl (Proto (ascii ''expected Challenge'')))"

definition login_answer :: "bytes option \<Rightarrow> RelayError + RelayToClient \<Rightarrow> RelayError + unit" where
  "login_answer dest r =
     (case r of
        Inl e \<Rightarrow> Inl (if dest \<noteq> None \<and> (e = Io \<or> e = RCodec) then AuthV2Unsupported else e)
      | Inr AuthOk \<Rightarrow> Inr ()
      | Inr AuthFail \<Rightarrow> Inl AuthFailed
      | Inr _ \<Rightarrow> Inl (Proto (ascii ''expected AuthOk'')))"

definition predates_auth_v2 :: "RelayError \<Rightarrow> bool" where
  "predates_auth_v2 e \<longleftrightarrow> e = AuthV2Unsupported"

text \<open>
  \<open>connect\<close> and \<open>connect_peer\<close>: opening a stream (\<open>dial\<close>) and shaking hands on it (\<open>shake\<close>, with
  the destination hash for \<open>AuthV2\<close> or without) are the network's; what is decided here is which
  login is tried and when the plain one is tried after it. The lists are the attempts' results,
  first attempt first.
\<close>

definition connect_with ::
  "(nat \<Rightarrow> RelayError + 's) \<Rightarrow> (nat \<Rightarrow> 's \<Rightarrow> bytes option \<Rightarrow> RelayError + 'c) \<Rightarrow> bytes option \<Rightarrow> RelayError + 'c" where
  "connect_with dial shake hash =
     (case hash of
        None \<Rightarrow> (case dial 0 of Inl e \<Rightarrow> Inl e | Inr s \<Rightarrow> shake 0 s None)
      | Some h \<Rightarrow>
          (case dial 0 of
             Inl e \<Rightarrow> Inl e
           | Inr s \<Rightarrow>
               (case shake 0 s (Some h) of
                  Inl e \<Rightarrow>
                    if predates_auth_v2 e
                    then (case dial 1 of Inl e' \<Rightarrow> Inl e' | Inr s' \<Rightarrow> shake 1 s' None)
                    else Inl e
                | Inr c \<Rightarrow> Inr c)))"

definition probe_answer :: "RelayError + RelayToClient \<Rightarrow> RelayError + unit" where
  "probe_answer r =
     (case r of
        Inl e \<Rightarrow> Inl e
      | Inr (Challenge _) \<Rightarrow> Inr ()
      | Inr _ \<Rightarrow> Inl (Proto (ascii ''expected Challenge'')))"

end
