(* ===== verification/Relay_Store.thy ===== *)
theory Relay_Store
  imports Prelude
begin

text \<open>
  The in-memory mail store of the relay a client hosts, \<open>libcore/src/relay_server.rs\<close>
  (\<open>MemStoreLimits\<close>, \<open>Inner\<close>, \<open>MemStore\<close>). Byte counters and message ids are natural numbers (the
  counters never reach the width of \<open>usize\<close> or \<open>u64\<close>; \<open>saturating_add\<close> in \<open>pending_above\<close> is
  written out), instants and durations are counted in nanoseconds, \<open>Instant::now()\<close> is an argument.
  \<open>messages\<close> is a \<open>BTreeMap\<close>, an association list sorted by id, and the ids of an inbox a sorted
  list.

  The eviction loop of one inbox follows the ids of the inbox and not the messages: on an inbox
  that named a message the store does not hold it would never end, so it is a partial function
  whose value \<open>None\<close> stands for not returning. That the store never gets there is proved.
\<close>

section \<open>Data\<close>

type_synonym instant = nat

definition from_secs :: "nat \<Rightarrow> nat" where
  "from_secs n = n * 1000000000"

record MemStoreLimits =
  max_total_bytes :: nat
  max_recipient_bytes :: nat
  max_bundle_bytes :: nat
  max_bundles :: nat
  message_ttl :: nat
  bundle_ttl :: nat
  only_for :: "bytes option"

definition default_mem_limits :: MemStoreLimits where
  "default_mem_limits =
     \<lparr>max_total_bytes = 96 * 1024 * 1024, max_recipient_bytes = 24 * 1024 * 1024,
      max_bundle_bytes = 16 * 1024, max_bundles = 4096,
      message_ttl = from_secs (3 * 24 * 3600), bundle_ttl = from_secs (7 * 24 * 3600), only_for = None\<rparr>"

definition personal :: "bytes \<Rightarrow> MemStoreLimits" where
  "personal owner = default_mem_limits\<lparr>only_for := Some owner\<rparr>"

datatype MailError = TooLarge | NotServed

record MailStats =
  ms_bundles :: nat
  ms_messages :: nat
  ms_message_bytes :: nat

record Stored =
  recipient :: bytes
  blob :: bytes
  stored_at :: instant

record Inbox =
  ib_ids :: "nat list"
  ib_bytes :: nat

record MailInner =
  next_id :: nat
  messages :: "(nat \<times> Stored) list"
  inboxes :: "(bytes \<times> Inbox) list"
  bundles :: "(bytes \<times> bytes \<times> instant) list"
  total_bytes :: nat

datatype Serving = Anyone | Only bytes | Nobody

record MemStore =
  inner :: MailInner
  limits :: MemStoreLimits
  serving :: Serving

definition empty_inner :: MailInner where
  "empty_inner = \<lparr>next_id = 0, messages = [], inboxes = [], bundles = [], total_bytes = 0\<rparr>"

definition PENDING_LIMIT :: nat where
  "PENDING_LIMIT = 200"

section \<open>Operations\<close>

definition mail_remove :: "MailInner \<Rightarrow> nat \<Rightarrow> MailInner \<times> Stored option" where
  "mail_remove g i =
     (case hm_get (messages g) i of
        None \<Rightarrow> (g, None)
      | Some m \<Rightarrow>
          (let g' = g\<lparr>messages := hm_remove i (messages g), total_bytes := total_bytes g - length (blob m)\<rparr>
           in (case hm_get (inboxes g') (recipient m) of
                 None \<Rightarrow> g'
               | Some b \<Rightarrow>
                   (let b' = b\<lparr>ib_ids := filter (\<lambda>x. x \<noteq> i) (ib_ids b), ib_bytes := ib_bytes b - length (blob m)\<rparr>
                    in if ib_ids b' = [] then g'\<lparr>inboxes := hm_remove (recipient m) (inboxes g')\<rparr>
                       else g'\<lparr>inboxes := hm_insert (recipient m) b' (inboxes g')\<rparr>),
               Some m)))"

definition new_store :: "MemStoreLimits \<Rightarrow> MemStore" where
  "new_store lim =
     \<lparr>inner = empty_inner,
      limits = lim\<lparr>max_recipient_bytes := min (max_recipient_bytes lim) (max_total_bytes lim)\<rparr>,
      serving = (case only_for lim of Some owner \<Rightarrow> Only owner | None \<Rightarrow> Anyone)\<rparr>"

definition unclaimed :: "MemStoreLimits \<Rightarrow> MemStore" where
  "unclaimed lim = (new_store lim)\<lparr>serving := Nobody\<rparr>"

definition claim_store :: "MemStore \<Rightarrow> bytes \<Rightarrow> MemStore" where
  "claim_store s owner = s\<lparr>serving := Only owner\<rparr>"

definition serves :: "MemStore \<Rightarrow> bytes \<Rightarrow> bool" where
  "serves s pk = (case serving s of Anyone \<Rightarrow> True | Only owner \<Rightarrow> owner = pk | Nobody \<Rightarrow> False)"

definition store_bundle :: "MemStore \<Rightarrow> bytes \<Rightarrow> bytes \<Rightarrow> instant \<Rightarrow> MailError + MemStore" where
  "store_bundle s pk bundle now =
     (if \<not> serves s pk then Inl NotServed
      else if length bundle > max_bundle_bytes (limits s) then Inl TooLarge
      else
        (let g = inner s;
             bs = (if hm_get (bundles g) pk = None \<and> length (bundles g) \<ge> max_bundles (limits s)
                   then (case min_by_key (\<lambda>p. snd (snd p)) (bundles g) of
                           Some stalest \<Rightarrow> hm_remove (fst stalest) (bundles g)
                         | None \<Rightarrow> bundles g)
                   else bundles g)
         in Inr (s\<lparr>inner := g\<lparr>bundles := hm_insert pk (bundle, now) bs\<rparr>\<rparr>)))"

definition get_bundle :: "MemStore \<Rightarrow> bytes \<Rightarrow> bytes option" where
  "get_bundle s pk = map_option fst (hm_get (bundles (inner s)) pk)"

text \<open>The first loop of \<open>deposit\<close>.\<close>

partial_function (option) evict_inbox :: "nat \<Rightarrow> bytes \<Rightarrow> MailInner \<Rightarrow> MailInner option" where
  [code]: "evict_inbox cap to g =
     (case (case hm_get (inboxes g) to of
              Some b \<Rightarrow> if ib_bytes b > cap then (case ib_ids b of i # _ \<Rightarrow> Some i | [] \<Rightarrow> None) else None
            | None \<Rightarrow> None) of
        Some old \<Rightarrow> evict_inbox cap to (fst (mail_remove g old))
      | None \<Rightarrow> Some g)"

text \<open>The second loop.\<close>

lemma mail_remove_shrinks:
  "messages g = (i, m) # ms \<Longrightarrow> length (messages (fst (mail_remove g i))) < Suc (length ms)"
  by (auto simp: mail_remove_def Let_def hm_remove_filter less_Suc_eq_le split: option.splits)

function evict_mail :: "nat \<Rightarrow> MailInner \<Rightarrow> MailInner" where
  "evict_mail cap g =
     (if total_bytes g > cap then
        (case messages g of
           [] \<Rightarrow> g
         | (old, _) # _ \<Rightarrow> evict_mail cap (fst (mail_remove g old)))
      else g)"
  by pat_completeness auto
termination
  by (relation "measure (\<lambda>(cap, g). length (messages g))") (auto simp: mail_remove_shrinks)

declare evict_mail.simps [simp del]

definition insert_mail :: "MailInner \<Rightarrow> bytes \<Rightarrow> bytes \<Rightarrow> instant \<Rightarrow> MailInner" where
  "insert_mail g to bl now =
     (let i = next_id g + 1;
          b = (case hm_get (inboxes g) to of Some b \<Rightarrow> b | None \<Rightarrow> \<lparr>ib_ids = [], ib_bytes = 0\<rparr>)
      in g\<lparr>next_id := i,
           messages := bt_insert i \<lparr>recipient = to, blob = bl, stored_at = now\<rparr> (messages g),
           total_bytes := total_bytes g + length bl,
           inboxes := hm_insert to (b\<lparr>ib_ids := insort i (ib_ids b), ib_bytes := ib_bytes b + length bl\<rparr>) (inboxes g)\<rparr>)"

definition deposit :: "MemStore \<Rightarrow> bytes \<Rightarrow> bytes \<Rightarrow> instant \<Rightarrow> (MailError + nat \<times> MemStore) option" where
  "deposit s to bl now =
     (if \<not> serves s to then Some (Inl NotServed)
      else if length bl > max_recipient_bytes (limits s) then Some (Inl TooLarge)
      else
        (let g = insert_mail (inner s) to bl now
         in case evict_inbox (max_recipient_bytes (limits s)) to g of
              None \<Rightarrow> None
            | Some g1 \<Rightarrow> Some (Inr (next_id g, s\<lparr>inner := evict_mail (max_total_bytes (limits s)) g1\<rparr>))))"

definition pending_above :: "MemStore \<Rightarrow> bytes \<Rightarrow> nat \<Rightarrow> (nat \<times> bytes) list" where
  "pending_above s pk cursor =
     (case hm_get (inboxes (inner s)) pk of
        None \<Rightarrow> []
      | Some b \<Rightarrow>
          List.map_filter (\<lambda>i. map_option (\<lambda>m. (i, blob m)) (hm_get (messages (inner s)) i))
            (take PENDING_LIMIT (filter (\<lambda>i. min (cursor + 1) (2 ^ 64 - 1) \<le> i) (ib_ids b))))"

definition ack :: "MemStore \<Rightarrow> bytes \<Rightarrow> nat \<Rightarrow> MemStore \<times> bool" where
  "ack s pk i =
     (case hm_get (messages (inner s)) i of
        Some m \<Rightarrow>
          (if recipient m = pk
           then (let (g, r) = mail_remove (inner s) i in (s\<lparr>inner := g\<rparr>, r \<noteq> None))
           else (s, False))
      | None \<Rightarrow> (s, False))"

text \<open>The loop of \<open>gc_at\<close>; \<open>saturating_duration_since\<close> is subtraction of naturals.\<close>

function expire_mail :: "nat \<Rightarrow> instant \<Rightarrow> MailInner \<Rightarrow> MailInner" where
  "expire_mail ttl now g =
     (case messages g of
        [] \<Rightarrow> g
      | (i, m) # _ \<Rightarrow> if now - stored_at m > ttl then expire_mail ttl now (fst (mail_remove g i)) else g)"
  by pat_completeness auto
termination
  by (relation "measure (\<lambda>(ttl, now, g). length (messages g))") (auto simp: mail_remove_shrinks)

declare expire_mail.simps [simp del]

definition gc_at :: "MemStore \<Rightarrow> instant \<Rightarrow> MemStore" where
  "gc_at s now =
     (let g = expire_mail (message_ttl (limits s)) now (inner s)
      in s\<lparr>inner := g\<lparr>bundles := filter (\<lambda>(_, _, at). now - at \<le> bundle_ttl (limits s)) (bundles g)\<rparr>\<rparr>)"

definition mail_stats :: "MemStore \<Rightarrow> MailStats" where
  "mail_stats s =
     (let g = inner s
      in \<lparr>ms_bundles = length (bundles g), ms_messages = length (messages g), ms_message_bytes = total_bytes g\<rparr>)"

section \<open>The mail held, and the representation invariant\<close>

type_synonym mail = "(nat \<times> Stored) list"

abbreviation mail_of :: "bytes \<Rightarrow> mail \<Rightarrow> mail" where
  "mail_of r ms \<equiv> filter (\<lambda>p. recipient (snd p) = r) ms"

abbreviation mail_len :: "mail \<Rightarrow> nat" where
  "mail_len ms \<equiv> sum_list (map (\<lambda>p. length (blob (snd p))) ms)"

definition inbox_of :: "mail \<Rightarrow> bytes \<Rightarrow> Inbox option" where
  "inbox_of ms r =
     (if mail_of r ms = [] then None else Some \<lparr>ib_ids = keys (mail_of r ms), ib_bytes = mail_len (mail_of r ms)\<rparr>)"

definition mail_inv :: "MailInner \<Rightarrow> bool" where
  "mail_inv g \<longleftrightarrow>
     sorted_wrt (<) (keys (messages g)) \<and> (\<forall>i \<in> set (keys (messages g)). i \<le> next_id g) \<and>
     total_bytes g = mail_len (messages g) \<and> distinct (keys (inboxes g)) \<and>
     (\<forall>r. hm_get (inboxes g) r = inbox_of (messages g) r)"

lemma mail_inv_empty [simp, inv_intros]: "mail_inv empty_inner"
  by (simp add: mail_inv_def empty_inner_def inbox_of_def)

lemma mail_inv_bundles [simp]: "mail_inv (g\<lparr>bundles := bs\<rparr>) \<longleftrightarrow> mail_inv g"
  by (simp add: mail_inv_def)

lemma mail_inv_distinct: "mail_inv g \<Longrightarrow> distinct (keys (messages g))"
  by (simp add: mail_inv_def strict_sorted_iff)

lemma mail_inv_get: "mail_inv g \<Longrightarrow> (i, m) \<in> set (messages g) \<Longrightarrow> hm_get (messages g) i = Some m"
  by (simp add: mail_inv_distinct)

lemma messages_mail_remove [simp]: "messages (fst (mail_remove g i)) = hm_remove i (messages g)"
proof (cases "hm_get (messages g) i")
  case None
  then have "hm_remove i (messages g) = messages g"
    by (intro hm_remove_notin) (simp add: map_of_eq_None_iff)
  with None show ?thesis by (simp add: mail_remove_def)
next
  case (Some m)
  then show ?thesis by (simp add: mail_remove_def Let_def split: option.splits)
qed

lemma mail_remove_frame [simp]:
  "next_id (fst (mail_remove g i)) = next_id g" "bundles (fst (mail_remove g i)) = bundles g"
  by (simp_all add: mail_remove_def Let_def split: option.splits)

lemma mail_remove_result: "snd (mail_remove g i) = hm_get (messages g) i"
  by (simp add: mail_remove_def Let_def split: option.splits)

lemma mail_len_remove:
  assumes "distinct (keys ms)" and "(i, m) \<in> set ms"
  shows "mail_len ms = length (blob m) + mail_len (hm_remove i ms)"
  using assms by (induction ms) (auto simp: hm_remove_notin rev_image_eqI)

lemma mail_of_hm_remove: "mail_of r (hm_remove i ms) = hm_remove i (mail_of r ms)"
  unfolding hm_remove_filter by (simp add: conj_commute)

lemma inbox_of_remove:
  assumes "distinct (keys ms)" and "hm_get ms i = Some m"
  shows "inbox_of (hm_remove i ms) r =
           (if r \<noteq> recipient m then inbox_of ms r
            else if filter (\<lambda>x. x \<noteq> i) (keys (mail_of r ms)) = [] then None
            else Some \<lparr>ib_ids = filter (\<lambda>x. x \<noteq> i) (keys (mail_of r ms)), ib_bytes = mail_len (mail_of r ms) - length (blob m)\<rparr>)"
proof (cases "r = recipient m")
  case True
  have m: "(i, m) \<in> set (mail_of r ms)" using assms(2) True by (simp add: map_of_SomeD)
  have "distinct (keys (mail_of r ms))" using assms(1) by (simp add: distinct_map_filter)
  from mail_len_remove [OF this m] True show ?thesis
    by (auto simp: inbox_of_def mail_of_hm_remove keys_hm_remove [symmetric])
next
  case False
  have "i \<notin> set (keys (mail_of r ms))"
    using assms False by (auto dest!: map_of_SomeD dest: eq_key_imp_eq_value)
  then have "mail_of r (hm_remove i ms) = mail_of r ms"
    unfolding mail_of_hm_remove by (rule hm_remove_notin)
  with False show ?thesis by (simp add: inbox_of_def)
qed

lemma mail_inv_remove [inv_intros]:
  assumes "mail_inv g"
  shows "mail_inv (fst (mail_remove g i))"
proof (cases "hm_get (messages g) i")
  case None
  then show ?thesis using assms by (simp add: mail_remove_def)
next
  case (Some m)
  let ?g = "fst (mail_remove g i)"
  have d: "distinct (keys (messages g))" and ib: "\<And>r. hm_get (inboxes g) r = inbox_of (messages g) r"
    using assms by (simp_all add: mail_inv_def strict_sorted_iff)
  have t: "total_bytes ?g = mail_len (messages ?g)"
    using Some assms mail_len_remove [OF d map_of_SomeD [OF Some]]
    by (simp add: mail_remove_def Let_def mail_inv_def split: option.splits)
  have "mail_of (recipient m) (messages g) \<noteq> []"
    using map_of_SomeD [OF Some] by (force simp: filter_empty_conv)
  then have own: "inbox_of (messages g) (recipient m) =
      Some \<lparr>ib_ids = keys (mail_of (recipient m) (messages g)), ib_bytes = mail_len (mail_of (recipient m) (messages g))\<rparr>"
    by (simp add: inbox_of_def)
  have "hm_get (inboxes ?g) r = inbox_of (messages ?g) r" for r
    unfolding messages_mail_remove inbox_of_remove [OF d Some]
    using Some own by (simp add: mail_remove_def Let_def ib)
  moreover have "distinct (keys (inboxes ?g))"
    using assms Some by (auto simp: mail_remove_def Let_def mail_inv_def split: option.splits)
  ultimately show ?thesis
    using assms t by (auto simp: mail_inv_def keys_hm_remove sorted_wrt_filter)
qed

lemma insort_last: "\<forall>x \<in> set xs. x < (i :: nat) \<Longrightarrow> insort i xs = xs @ [i]"
  by (induction xs) auto

lemma messages_insert_mail:
  assumes "mail_inv g"
  shows "messages (insert_mail g to bl now) = messages g @ [(Suc (next_id g), \<lparr>recipient = to, blob = bl, stored_at = now\<rparr>)]"
  using assms by (auto simp: insert_mail_def Let_def mail_inv_def intro!: bt_insert_last le_imp_less_Suc)

lemma mail_inv_insert [inv_intros]:
  assumes "mail_inv g"
  shows "mail_inv (insert_mail g to bl now)"
proof -
  let ?m = "\<lparr>recipient = to, blob = bl, stored_at = now\<rparr>"
  let ?ms = "messages g @ [(Suc (next_id g), ?m)]"
  have le: "\<forall>i \<in> set (keys (messages g)). i \<le> next_id g" and ib: "\<And>r. hm_get (inboxes g) r = inbox_of (messages g) r"
    and srt: "sorted_wrt (<) (keys (messages g))" using assms by (simp_all add: mail_inv_def)
  have "insort (Suc (next_id g)) (keys (mail_of to (messages g))) = keys (mail_of to (messages g)) @ [Suc (next_id g)]"
    using le by (intro insort_last) (auto intro!: le_imp_less_Suc)
  then have "hm_get (inboxes (insert_mail g to bl now)) r = inbox_of ?ms r" for r
    by (auto simp: insert_mail_def Let_def ib inbox_of_def)
  moreover have "sorted_wrt (<) (keys ?ms)" using srt le by (auto simp: sorted_wrt_append intro!: le_imp_less_Suc)
  ultimately show ?thesis
    using assms by (auto simp: mail_inv_def messages_insert_mail [OF assms]) (auto simp: insert_mail_def Let_def)
qed

section \<open>What \<open>deposit\<close>, \<open>ack\<close> and \<open>gc\<close> do to the mail\<close>

text \<open>
  The documented rule, on the list of messages, oldest first: "when one is hit the oldest message
  goes first", of this recipient's own messages and then of all.
\<close>

fun spec_evict_inbox :: "nat \<Rightarrow> bytes \<Rightarrow> mail \<Rightarrow> mail" where
  "spec_evict_inbox cap r [] = []"
| "spec_evict_inbox cap r (x # xs) =
     (if recipient (snd x) \<noteq> r then x # spec_evict_inbox cap r xs
      else if mail_len (mail_of r (x # xs)) > cap then spec_evict_inbox cap r xs
      else x # xs)"

fun spec_evict_mail :: "nat \<Rightarrow> mail \<Rightarrow> mail" where
  "spec_evict_mail cap [] = []"
| "spec_evict_mail cap (x # xs) = (if mail_len (x # xs) > cap then spec_evict_mail cap xs else x # xs)"

lemma spec_evict_inbox_fits: "mail_len (mail_of r ms) \<le> cap \<Longrightarrow> spec_evict_inbox cap r ms = ms"
  by (induction ms) auto

lemma spec_evict_inbox_step:
  assumes "distinct (keys ms)" and "mail_of r ms = (i, m) # rest" and "mail_len (mail_of r ms) > cap"
  shows "spec_evict_inbox cap r (hm_remove i ms) = spec_evict_inbox cap r ms"
  using assms
proof (induction ms)
  case (Cons x ms)
  show ?case
  proof (cases "recipient (snd x) = r")
    case True
    with Cons.prems have "x = (i, m)" "hm_remove i ms = ms" by (auto intro!: hm_remove_notin)
    with True Cons.prems(3) show ?thesis by simp
  next
    case False
    with Cons.prems have "fst x \<noteq> i" by (cases x) (auto simp: filter_eq_Cons_iff)
    with False Cons show ?thesis by (cases x) (auto simp: hm_remove_filter)
  qed
qed simp

lemma hm_remove_hd: "distinct (keys ((i, m) # ms)) \<Longrightarrow> hm_remove i ((i, m) # ms) = ms"
  by (auto intro!: hm_remove_notin)

lemma evict_inbox_refines:
  assumes "mail_inv g"
  shows "\<exists>g'. evict_inbox cap to g = Some g' \<and> mail_inv g' \<and> messages g' = spec_evict_inbox cap to (messages g) \<and>
           next_id g' = next_id g \<and> bundles g' = bundles g"
  using assms
proof (induction "length (messages g)" arbitrary: g rule: less_induct)
  case less
  have ib: "hm_get (inboxes g) to = inbox_of (messages g) to" using less.prems by (simp add: mail_inv_def)
  show ?case
  proof (cases "mail_len (mail_of to (messages g)) > cap")
    case True
    then obtain i m rest where ms: "mail_of to (messages g) = (i, m) # rest"
      by (cases "mail_of to (messages g)") auto
    let ?g = "fst (mail_remove g i)"
    have step: "evict_inbox cap to g = evict_inbox cap to ?g"
      using True ms by (subst evict_inbox.simps) (simp add: ib inbox_of_def)
    have "(i, m) \<in> set (mail_of to (messages g))" by (simp add: ms)
    then have "hm_get (messages g) i = Some m" using mail_inv_get [OF less.prems] by simp
    then have "length (messages ?g) < length (messages g)" by (simp add: length_hm_remove)
    from less.hyps [OF this mail_inv_remove [OF less.prems]]
    show ?thesis
      unfolding step using spec_evict_inbox_step [OF mail_inv_distinct [OF less.prems] ms True] by simp
  next
    case False
    then have "evict_inbox cap to g = Some g"
      by (subst evict_inbox.simps) (simp add: ib inbox_of_def)
    with False less.prems show ?thesis by (simp add: spec_evict_inbox_fits not_less)
  qed
qed

lemma evict_mail_refines:
  assumes "mail_inv g"
  shows "mail_inv (evict_mail cap g) \<and> messages (evict_mail cap g) = spec_evict_mail cap (messages g) \<and>
         next_id (evict_mail cap g) = next_id g \<and> bundles (evict_mail cap g) = bundles g"
  using assms
proof (induction cap g rule: evict_mail.induct)
  case (1 cap g)
  show ?case
  proof (cases "messages g")
    case Nil
    with "1.prems" show ?thesis by (simp add: evict_mail.simps [of cap g])
  next
    case (Cons x ms)
    obtain i m where x: "x = (i, m)" by (cases x)
    have tot: "total_bytes g = mail_len (messages g)" using "1.prems" by (simp add: mail_inv_def)
    have rest: "messages (fst (mail_remove g i)) = ms"
      using mail_inv_distinct [OF "1.prems"] unfolding messages_mail_remove Cons x by (rule hm_remove_hd)
    show ?thesis
    proof (cases "total_bytes g > cap")
      case True
      have "evict_mail cap g = evict_mail cap (fst (mail_remove g i))"
        using True Cons x by (simp add: evict_mail.simps [of cap g])
      with "1.IH" [OF True Cons x [symmetric] mail_inv_remove [OF "1.prems"]] True tot rest
      show ?thesis by (simp add: Cons x)
    next
      case False
      with "1.prems" tot Cons show ?thesis by (simp add: evict_mail.simps [of cap g])
    qed
  qed
qed

lemma expire_mail_refines:
  assumes "mail_inv g"
  shows "mail_inv (expire_mail ttl now g) \<and>
         messages (expire_mail ttl now g) = dropWhile (\<lambda>p. now - stored_at (snd p) > ttl) (messages g) \<and>
         next_id (expire_mail ttl now g) = next_id g \<and> bundles (expire_mail ttl now g) = bundles g"
  using assms
proof (induction ttl now g rule: expire_mail.induct)
  case (1 ttl now g)
  show ?case
  proof (cases "messages g")
    case Nil
    with "1.prems" show ?thesis by (simp add: expire_mail.simps [of ttl now g])
  next
    case (Cons x ms)
    obtain i m where x: "x = (i, m)" by (cases x)
    have rest: "messages (fst (mail_remove g i)) = ms"
      using mail_inv_distinct [OF "1.prems"] unfolding messages_mail_remove Cons x by (rule hm_remove_hd)
    show ?thesis
    proof (cases "now - stored_at m > ttl")
      case True
      have "expire_mail ttl now g = expire_mail ttl now (fst (mail_remove g i))"
        using True Cons x by (simp add: expire_mail.simps [of ttl now g])
      with "1.IH" [OF Cons x [symmetric] True mail_inv_remove [OF "1.prems"]] True rest
      show ?thesis by (simp add: Cons x)
    next
      case False
      with "1.prems" Cons x show ?thesis by (simp add: expire_mail.simps [of ttl now g])
    qed
  qed
qed

section \<open>The store within its limits\<close>

definition store_ok :: "MemStore \<Rightarrow> bool" where
  "store_ok s \<longleftrightarrow>
     mail_inv (inner s) \<and>
     max_recipient_bytes (limits s) \<le> max_total_bytes (limits s) \<and>
     mail_len (messages (inner s)) \<le> max_total_bytes (limits s) \<and>
     (\<forall>r. mail_len (mail_of r (messages (inner s))) \<le> max_recipient_bytes (limits s)) \<and>
     distinct (keys (bundles (inner s))) \<and>
     length (bundles (inner s)) \<le> max 1 (max_bundles (limits s)) \<and>
     (\<forall>(pk, b, at) \<in> set (bundles (inner s)). length b \<le> max_bundle_bytes (limits s))"

lemma store_ok_new [simp, inv_intros]: "store_ok (new_store lim)"
  using mail_inv_empty by (simp add: store_ok_def new_store_def empty_inner_def)

lemma store_ok_unclaimed [simp, inv_intros]: "store_ok (unclaimed lim)"
  using store_ok_new [of lim] by (simp add: store_ok_def unclaimed_def)

lemma store_ok_claim [inv_intros]: "store_ok s \<Longrightarrow> store_ok (claim_store s owner)"
  by (simp add: store_ok_def claim_store_def)

lemma mail_len_filter_le: "mail_len (filter P ms) \<le> mail_len ms"
  by (rule sum_list_filter_le)

lemma mail_len_drop_le: "mail_len (drop n ms) \<le> mail_len ms"
  by (induction ms arbitrary: n) (auto simp: drop_Cons' intro: le_SucI trans_le_add2)

lemma mail_of_drop: "\<exists>k. mail_of r (drop n ms) = drop k (mail_of r ms)"
proof -
  have "mail_of r ms = mail_of r (take n ms) @ mail_of r (drop n ms)"
    by (metis append_take_drop_id filter_append)
  then have "mail_of r (drop n ms) = drop (length (mail_of r (take n ms))) (mail_of r ms)" by simp
  then show ?thesis ..
qed

lemma mail_len_mail_of_drop: "mail_len (mail_of r (drop n ms)) \<le> mail_len (mail_of r ms)"
proof -
  obtain k where "mail_of r (drop n ms) = drop k (mail_of r ms)" using mail_of_drop by blast
  then show ?thesis by (simp add: mail_len_drop_le)
qed

lemma spec_evict_mail_drop: "\<exists>n. spec_evict_mail cap ms = drop n ms"
proof (induction ms)
  case (Cons x ms)
  then obtain n where "spec_evict_mail cap ms = drop n ms" ..
  then have "spec_evict_mail cap (x # ms) = drop (if mail_len (x # ms) > cap then Suc n else 0) (x # ms)" by simp
  then show ?case ..
qed simp

lemma spec_evict_mail_fits: "mail_len ms \<le> cap \<Longrightarrow> spec_evict_mail cap ms = ms"
  by (cases ms) auto

lemma spec_evict_mail_len: "mail_len (spec_evict_mail cap ms) \<le> cap"
  by (induction ms) auto

lemma spec_evict_mail_last: "mail_len [x] \<le> cap \<Longrightarrow> \<exists>ys. spec_evict_mail cap (xs @ [x]) = ys @ [x]"
  by (induction xs) auto

lemma spec_evict_inbox_other: "r' \<noteq> r \<Longrightarrow> mail_of r' (spec_evict_inbox cap r ms) = mail_of r' ms"
  by (induction ms) auto

lemma spec_evict_inbox_drop: "\<exists>n. mail_of r (spec_evict_inbox cap r ms) = drop n (mail_of r ms)"
proof (induction ms)
  case (Cons x ms)
  then obtain n where n: "mail_of r (spec_evict_inbox cap r ms) = drop n (mail_of r ms)" ..
  show ?case
  proof (cases "recipient (snd x) = r \<and> mail_len (mail_of r (x # ms)) > cap")
    case True
    then have "mail_of r (spec_evict_inbox cap r (x # ms)) = drop (Suc n) (mail_of r (x # ms))" using n by auto
    then show ?thesis ..
  next
    case False
    then have "mail_of r (spec_evict_inbox cap r (x # ms)) = drop (if recipient (snd x) = r then 0 else n) (mail_of r (x # ms))"
      using n by auto
    then show ?thesis ..
  qed
qed simp

lemma spec_evict_inbox_len: "mail_len (mail_of r (spec_evict_inbox cap r ms)) \<le> cap"
  by (induction ms) auto

lemma spec_evict_inbox_last:
  "mail_len [x] \<le> cap \<Longrightarrow> \<exists>ys. spec_evict_inbox cap r (xs @ [x]) = ys @ [x]"
  by (induction xs) auto

lemma spec_evict_inbox_total: "mail_len (spec_evict_inbox cap r ms) \<le> mail_len ms"
  by (induction ms) (auto intro: trans_le_add2)

abbreviation new_mail :: "MemStore \<Rightarrow> bytes \<Rightarrow> bytes \<Rightarrow> instant \<Rightarrow> nat \<times> Stored" where
  "new_mail s to bl now \<equiv> (Suc (next_id (inner s)), \<lparr>recipient = to, blob = bl, stored_at = now\<rparr>)"

text \<open>While the total fits, only the recipient's own mail makes room.\<close>

lemma evict_other:
  assumes "mail_len (messages (inner s)) + length bl \<le> cap" and "r \<noteq> to"
  shows "mail_of r (spec_evict_mail cap (spec_evict_inbox n to (messages (inner s) @ [new_mail s to bl now]))) =
         mail_of r (messages (inner s))"
proof -
  have "mail_len (spec_evict_inbox n to (messages (inner s) @ [new_mail s to bl now])) \<le> cap"
    by (rule le_trans [OF spec_evict_inbox_total]) (use assms(1) in simp)
  then show ?thesis using assms(2) by (simp add: spec_evict_mail_fits spec_evict_inbox_other)
qed

lemma deposit_refines:
  assumes "store_ok s" and "serves s to" and "length bl \<le> max_recipient_bytes (limits s)"
  obtains s' where "deposit s to bl now = Some (Inr (Suc (next_id (inner s)), s'))"
    and "mail_inv (inner s')" and "next_id (inner s') = Suc (next_id (inner s))"
    and "bundles (inner s') = bundles (inner s)" and "limits s' = limits s" and "serving s' = serving s"
    and "messages (inner s') = spec_evict_mail (max_total_bytes (limits s))
           (spec_evict_inbox (max_recipient_bytes (limits s)) to (messages (inner s) @ [new_mail s to bl now]))"
proof -
  let ?g = "insert_mail (inner s) to bl now"
  have inv: "mail_inv (inner s)" using assms(1) by (simp add: store_ok_def)
  have nb: "next_id ?g = Suc (next_id (inner s))" "bundles ?g = bundles (inner s)" by (simp_all add: insert_mail_def Let_def)
  from evict_inbox_refines [OF mail_inv_insert [OF inv, of to bl now], of "max_recipient_bytes (limits s)" to]
  obtain g1 where g1: "evict_inbox (max_recipient_bytes (limits s)) to ?g = Some g1" "mail_inv g1"
    "messages g1 = spec_evict_inbox (max_recipient_bytes (limits s)) to (messages ?g)"
    "next_id g1 = next_id ?g" "bundles g1 = bundles ?g" by blast
  let ?s' = "s\<lparr>inner := evict_mail (max_total_bytes (limits s)) g1\<rparr>"
  have "deposit s to bl now = Some (Inr (Suc (next_id (inner s)), ?s'))"
    using assms(2,3) g1(1) nb by (simp add: deposit_def Let_def)
  with evict_mail_refines [OF g1(2), of "max_total_bytes (limits s)"] g1 nb messages_insert_mail [OF inv, of to bl now] that [of ?s']
  show ?thesis by simp
qed

lemma deposit_ok:
  assumes "store_ok s" and "deposit s to bl now = Some (Inr (i, s'))"
  shows "store_ok s' \<and> i = Suc (next_id (inner s)) \<and> next_id (inner s') = i \<and> serves s to \<and>
         (\<exists>kept. messages (inner s') = kept @ [new_mail s to bl now])"
proof -
  let ?L = "limits s"
  have sv: "serves s to" "length bl \<le> max_recipient_bytes ?L"
    using assms(2) by (auto simp: deposit_def split: if_splits)
  obtain s1 where d: "deposit s to bl now = Some (Inr (Suc (next_id (inner s)), s1))"
    and m: "mail_inv (inner s1)" "next_id (inner s1) = Suc (next_id (inner s))" "bundles (inner s1) = bundles (inner s)" "limits s1 = ?L"
    and e: "messages (inner s1) = spec_evict_mail (max_total_bytes ?L)
           (spec_evict_inbox (max_recipient_bytes ?L) to (messages (inner s) @ [new_mail s to bl now]))"
    by (rule deposit_refines [OF assms(1) sv])
  have eq: "s' = s1" "i = Suc (next_id (inner s))" using d assms(2) by auto
  let ?e = "spec_evict_inbox (max_recipient_bytes ?L) to (messages (inner s) @ [new_mail s to bl now])"
  have caps: "max_recipient_bytes ?L \<le> max_total_bytes ?L" "mail_len (mail_of r (messages (inner s))) \<le> max_recipient_bytes ?L" for r
    using assms(1) by (auto simp: store_ok_def)
  obtain n where n: "spec_evict_mail (max_total_bytes ?L) ?e = drop n ?e" using spec_evict_mail_drop by blast
  have "mail_len (mail_of r ?e) \<le> max_recipient_bytes ?L" for r
    using caps(2) [of r] by (cases "r = to") (simp_all add: spec_evict_inbox_len spec_evict_inbox_other)
  then have "mail_len (mail_of r (messages (inner s1))) \<le> max_recipient_bytes ?L" for r
    unfolding e n using mail_len_mail_of_drop [of r n ?e] le_trans by blast
  moreover have "mail_len (messages (inner s1)) \<le> max_total_bytes ?L" unfolding e by (rule spec_evict_mail_len)
  ultimately have "store_ok s1" using assms(1) m by (simp add: store_ok_def)
  moreover have "\<exists>kept. messages (inner s1) = kept @ [new_mail s to bl now]"
  proof -
    obtain ys where "?e = ys @ [new_mail s to bl now]"
      using spec_evict_inbox_last [of "new_mail s to bl now" "max_recipient_bytes ?L" to "messages (inner s)"] sv(2) by auto
    then show ?thesis
      unfolding e using spec_evict_mail_last [of "new_mail s to bl now" "max_total_bytes ?L" ys] sv(2) caps(1) by auto
  qed
  ultimately show ?thesis using eq m sv by simp
qed

lemma ack_refines:
  assumes "store_ok s"
  shows "messages (inner (fst (ack s pk i))) = filter (\<lambda>p. \<not> (fst p = i \<and> recipient (snd p) = pk)) (messages (inner s))"
    and "snd (ack s pk i) \<longleftrightarrow> i \<in> set (keys (mail_of pk (messages (inner s))))"
    and "mail_inv (inner (fst (ack s pk i)))"
    and "next_id (inner (fst (ack s pk i))) = next_id (inner s)" and "bundles (inner (fst (ack s pk i))) = bundles (inner s)"
    and "limits (fst (ack s pk i)) = limits s" and "serving (fst (ack s pk i)) = serving s"
proof -
  have inv: "mail_inv (inner s)" using assms by (simp add: store_ok_def)
  have only: "hm_get (messages (inner s)) i = Some m \<Longrightarrow> (i, m') \<in> set (messages (inner s)) \<Longrightarrow> m' = m" for m m'
    using mail_inv_get [OF inv] by force
  have none: "hm_get (messages (inner s)) i = None \<Longrightarrow> (i, m) \<notin> set (messages (inner s))" for m
    by (auto simp: map_of_eq_None_iff rev_image_eqI)
  show "messages (inner (fst (ack s pk i))) = filter (\<lambda>p. \<not> (fst p = i \<and> recipient (snd p) = pk)) (messages (inner s))"
    by (auto simp: ack_def case_prod_beta hm_remove_filter dest: only none
        intro!: filter_cong filter_True [symmetric] split: option.split)
  show "snd (ack s pk i) \<longleftrightarrow> i \<in> set (keys (mail_of pk (messages (inner s))))"
    by (auto simp: ack_def case_prod_beta mail_remove_result dest: only none map_of_SomeD
        intro!: rev_image_eqI split: option.split)
  show "mail_inv (inner (fst (ack s pk i)))"
    using mail_inv_remove [OF inv] inv by (simp add: ack_def case_prod_beta split: option.split)
  show "next_id (inner (fst (ack s pk i))) = next_id (inner s)" "bundles (inner (fst (ack s pk i))) = bundles (inner s)"
    "limits (fst (ack s pk i)) = limits s" "serving (fst (ack s pk i)) = serving s"
    by (simp_all add: ack_def case_prod_beta split: option.split)
qed

lemma mail_of_filter: "mail_of r (filter Q ms) = filter Q (mail_of r ms)"
  unfolding filter_filter by (rule filter_cong) auto

text \<open>Whatever only shrinks the mail keeps the limits.\<close>

lemma store_ok_shrink:
  assumes "store_ok s" and "mail_inv (inner s')" and "limits s' = limits s"
    and "bundles (inner s') = filter Q (bundles (inner s))"
    and "\<And>r. mail_len (mail_of r (messages (inner s'))) \<le> mail_len (mail_of r (messages (inner s)))"
    and "mail_len (messages (inner s')) \<le> mail_len (messages (inner s))"
  shows "store_ok s'"
proof -
  have "length (filter Q (bundles (inner s))) \<le> max 1 (max_bundles (limits s))"
    by (rule le_trans [OF length_filter_le]) (use assms(1) in \<open>simp add: store_ok_def\<close>)
  moreover have "mail_len (mail_of r (messages (inner s'))) \<le> max_recipient_bytes (limits s)" for r
    using assms(1) assms(5) [of r] le_trans unfolding store_ok_def by blast
  ultimately show ?thesis
    using assms by (auto simp: store_ok_def distinct_map_filter)
qed

lemma store_ok_ack [inv_intros]:
  assumes "store_ok s"
  shows "store_ok (fst (ack s pk i))"
proof (rule store_ok_shrink [OF assms, where Q = "\<lambda>_. True"])
  show "mail_len (mail_of r (messages (inner (fst (ack s pk i))))) \<le> mail_len (mail_of r (messages (inner s)))" for r
    unfolding ack_refines(1) [OF assms] mail_of_filter by (rule mail_len_filter_le)
qed (simp_all add: ack_refines [OF assms] mail_len_filter_le)

lemma gc_refines:
  assumes "store_ok s"
  shows "messages (inner (gc_at s now)) = dropWhile (\<lambda>p. now - stored_at (snd p) > message_ttl (limits s)) (messages (inner s))"
    and "store_ok (gc_at s now)"
proof -
  have inv: "mail_inv (inner s)" using assms by (simp add: store_ok_def)
  note e = expire_mail_refines [OF inv, of "message_ttl (limits s)" now]
  show m: "messages (inner (gc_at s now)) = dropWhile (\<lambda>p. now - stored_at (snd p) > message_ttl (limits s)) (messages (inner s))"
    using e by (simp add: gc_at_def Let_def)
  then obtain n where n: "messages (inner (gc_at s now)) = drop n (messages (inner s))"
    using dropWhile_eq_drop by metis
  show "store_ok (gc_at s now)"
  proof (rule store_ok_shrink [OF assms])
    show "mail_inv (inner (gc_at s now))" using e by (simp add: gc_at_def Let_def mail_inv_bundles)
    show "bundles (inner (gc_at s now)) = filter (\<lambda>(_, _, at). now - at \<le> bundle_ttl (limits s)) (bundles (inner s))"
      using e by (simp add: gc_at_def Let_def)
    show "limits (gc_at s now) = limits s" by (simp add: gc_at_def Let_def)
    show "mail_len (mail_of r (messages (inner (gc_at s now)))) \<le> mail_len (mail_of r (messages (inner s)))" for r
      unfolding n by (rule mail_len_mail_of_drop)
    show "mail_len (messages (inner (gc_at s now))) \<le> mail_len (messages (inner s))"
      unfolding n by (rule mail_len_drop_le)
  qed
qed

lemma store_bundle_ok:
  assumes "store_ok s" and "store_bundle s pk b now = Inr s'"
  shows "store_ok s' \<and> messages (inner s') = messages (inner s) \<and> get_bundle s' pk = Some b"
proof -
  let ?g = "inner s"
  define bs where "bs = (if hm_get (bundles ?g) pk = None \<and> length (bundles ?g) \<ge> max_bundles (limits s)
                   then (case min_by_key (\<lambda>p. snd (snd p)) (bundles ?g) of
                           Some stalest \<Rightarrow> hm_remove (fst stalest) (bundles ?g) | None \<Rightarrow> bundles ?g)
                   else bundles ?g)"
  have s': "s' = s\<lparr>inner := ?g\<lparr>bundles := hm_insert pk (b, now) bs\<rparr>\<rparr>" "length b \<le> max_bundle_bytes (limits s)"
    using assms(2) by (auto simp: store_bundle_def bs_def Let_def split: if_splits)
  have d: "distinct (keys (bundles ?g))" and len: "length (bundles ?g) \<le> max 1 (max_bundles (limits s))"
    using assms(1) by (auto simp: store_ok_def)
  have sub: "set bs \<subseteq> set (bundles ?g)" "distinct (keys bs)"
    using d by (auto simp: bs_def set_hm_remove split: option.splits)
  have "length (hm_insert pk (b, now) bs) \<le> max 1 (max_bundles (limits s))"
  proof (cases "hm_get (bundles ?g) pk = None \<and> length (bundles ?g) \<ge> max_bundles (limits s)")
    case False
    then show ?thesis using len d by (auto simp: bs_def length_hm_insert map_of_eq_None_iff)
  next
    case True
    show ?thesis
    proof (cases "min_by_key (\<lambda>p. snd (snd p)) (bundles ?g)")
      case None
      with True show ?thesis by (simp add: bs_def)
    next
      case (Some p)
      then have "fst p \<in> set (keys (bundles ?g))" using min_by_key_Some by fastforce
      with True Some d have "Suc (length bs) = length (bundles ?g)"
        by (simp add: bs_def length_hm_remove_distinct)
      with len show ?thesis using sub(2) by (auto simp: length_hm_insert)
    qed
  qed
  moreover have "set (hm_insert pk (b, now) bs) \<subseteq> insert (pk, b, now) (set bs)"
    by (induction bs) auto
  ultimately show ?thesis
    using assms(1) s' sub by (fastforce simp: store_ok_def get_bundle_def mail_inv_def)
qed

section \<open>The store as its connections see it\<close>

text \<open>
  What \<open>client_loop\<close> relies on, in the words of the store's documentation: "ids are unique and
  increasing, \<open>pending_above\<close> returns them in order"; an acknowledgement takes away the one
  message of the one recipient, and a deposit puts the message it was given at the end of the
  recipient's mail.
\<close>

fun batches :: "(nat \<Rightarrow> (nat \<times> bytes) list) \<Rightarrow> nat \<Rightarrow> nat \<Rightarrow> (nat \<times> bytes) list" where
  "batches pend 0 c = []"
| "batches pend (Suc n) c =
     (let b = pend c in if b = [] then [] else b @ batches pend n (fst (last b)))"

lemma sorted_above:
  fixes xs :: "(nat \<times> bytes) list"
  assumes "sorted_wrt (<) (map fst xs)" and "xs = b @ rest" and "b \<noteq> []"
  shows "filter (\<lambda>p. fst (last b) < fst p) xs = rest"
proof -
  obtain bs x where b: "b = bs @ [x]" using assms(3) by (cases b rule: rev_cases) auto
  then have "\<forall>p \<in> set bs. fst p < fst x" "\<forall>p \<in> set rest. fst x < fst p"
    using assms(1,2) by (auto simp: sorted_wrt_append)
  then have "filter (\<lambda>p. fst x < fst p) bs = []" "filter (\<lambda>p. fst x < fst p) rest = rest"
    by (auto simp: filter_empty_conv filter_id_conv dest: less_asym)
  with assms(2) b show ?thesis by simp
qed

locale mailbox =
  fixes inv :: "'s \<Rightarrow> bool"
    and box :: "'s \<Rightarrow> bytes \<Rightarrow> (nat \<times> bytes) list"
    and pend :: "'s \<Rightarrow> bytes \<Rightarrow> nat \<Rightarrow> (nat \<times> bytes) list"
    and drop_ack :: "'s \<Rightarrow> bytes \<Rightarrow> nat \<Rightarrow> 's"
    and dep :: "'s \<Rightarrow> bytes \<Rightarrow> bytes \<Rightarrow> instant \<Rightarrow> (MailError + nat \<times> 's) option"
  assumes box_sorted: "inv s \<Longrightarrow> sorted_wrt (<) (map fst (box s pk))"
    and pend_box: "inv s \<Longrightarrow> c < 2 ^ 64 - 1 \<Longrightarrow> pend s pk c = take PENDING_LIMIT (filter (\<lambda>p. c < fst p) (box s pk))"
    and ack_inv: "inv s \<Longrightarrow> inv (drop_ack s pk i)"
    and ack_box: "inv s \<Longrightarrow> box (drop_ack s pk i) r = (if r = pk then filter (\<lambda>p. fst p \<noteq> i) (box s r) else box s r)"
    and dep_returns: "inv s \<Longrightarrow> dep s to bl now \<noteq> None"
    and dep_box: "inv s \<Longrightarrow> dep s to bl now = Some (Inr (i, s')) \<Longrightarrow>
          inv s' \<and> (\<exists>kept. box s' to = kept @ [(i, bl)] \<and> set kept \<subseteq> set (box s to)) \<and> (\<forall>r. \<forall>p \<in> set (box s r). fst p < i)"
begin

lemma ack_all:
  "inv s \<Longrightarrow> inv (foldl (\<lambda>s i. drop_ack s pk i) s is) \<and>
     box (foldl (\<lambda>s i. drop_ack s pk i) s is) r = (if r = pk then filter (\<lambda>p. fst p \<notin> set is) (box s r) else box s r)"
proof (induction "is" arbitrary: s)
  case (Cons i is')
  have eq: "filter (\<lambda>p. fst p \<notin> set is') (filter (\<lambda>p. fst p \<noteq> i) xs) = filter (\<lambda>p. fst p \<notin> set (i # is')) xs"
    for xs :: "(nat \<times> bytes) list" by (induction xs) auto
  show ?case using Cons.IH [OF ack_inv [OF Cons.prems]] ack_box [OF Cons.prems] by (simp add: eq)
qed simp

lemma batches_complete:
  assumes "inv s" and "\<forall>p \<in> set (box s pk). fst p < 2 ^ 64 - 1" and "c < 2 ^ 64 - 1"
    and "length (filter (\<lambda>p. c < fst p) (box s pk)) \<le> n * PENDING_LIMIT"
  shows "batches (pend s pk) n c = filter (\<lambda>p. c < fst p) (box s pk)"
  using assms(3,4)
proof (induction n arbitrary: c)
  case (Suc n)
  let ?xs = "filter (\<lambda>p. c < fst p) (box s pk)"
  let ?b = "take PENDING_LIMIT ?xs"
  have pend: "pend s pk c = ?b" by (rule pend_box [OF assms(1) Suc.prems(1)])
  show ?case
  proof (cases "?b = []")
    case True
    then have "?xs = []" by (simp add: PENDING_LIMIT_def)
    with pend show ?thesis by simp
  next
    case False
    let ?c = "fst (last ?b)"
    have l: "last ?b \<in> set ?xs" using last_in_set [OF False] by (rule in_set_takeD)
    have "filter (\<lambda>p. ?c < fst p) (box s pk) = filter (\<lambda>p. ?c < fst p) ?xs"
      unfolding filter_filter using l by (intro filter_cong) auto
    also have "\<dots> = drop PENDING_LIMIT ?xs"
      by (rule sorted_above [OF _ append_take_drop_id [symmetric] False])
        (use box_sorted [OF assms(1), of pk] in \<open>simp add: sorted_wrt_map sorted_wrt_filter\<close>)
    finally have rest: "filter (\<lambda>p. ?c < fst p) (box s pk) = drop PENDING_LIMIT ?xs" .
    have "batches (pend s pk) n ?c = drop PENDING_LIMIT ?xs"
      using Suc.IH [of ?c] Suc.prems(2) assms(2) l unfolding rest by auto
    with pend False show ?thesis by (simp add: Let_def)
  qed
qed simp

end

definition box_of :: "MemStore \<Rightarrow> bytes \<Rightarrow> (nat \<times> bytes) list" where
  "box_of s pk = map (\<lambda>p. (fst p, blob (snd p))) (mail_of pk (messages (inner s)))"

lemma keys_box_of: "map fst (box_of s pk) = keys (mail_of pk (messages (inner s)))"
  by (simp add: box_of_def comp_def)

lemma pending_above_refines:
  assumes "store_ok s" and "c < 2 ^ 64 - 1"
  shows "pending_above s pk c = take PENDING_LIMIT (filter (\<lambda>p. c < fst p) (box_of s pk))"
proof -
  let ?ms = "mail_of pk (messages (inner s))"
  have inv: "mail_inv (inner s)" using assms(1) by (simp add: store_ok_def)
  have ib: "hm_get (inboxes (inner s)) pk = inbox_of (messages (inner s)) pk" using inv by (simp add: mail_inv_def)
  define xs where "xs = take PENDING_LIMIT (filter (\<lambda>p. c < fst p) ?ms)"
  have "\<forall>p \<in> set xs. map_option (\<lambda>m. (fst p, blob m)) (hm_get (messages (inner s)) (fst p)) = Some (fst p, blob (snd p))"
    using mail_inv_get [OF inv] by (force simp: xs_def dest!: in_set_takeD)
  then have "List.map_filter (\<lambda>i. map_option (\<lambda>m. (i, blob m)) (hm_get (messages (inner s)) i)) (map fst xs) =
             map (\<lambda>p. (fst p, blob (snd p))) xs"
    by (induction xs) (auto simp: List.map_filter_simps)
  moreover have "take PENDING_LIMIT (filter (\<lambda>i. min (c + 1) (2 ^ 64 - 1) \<le> i) (keys ?ms)) = map fst xs"
    using assms(2) by (simp add: xs_def filter_map comp_def take_map Suc_le_eq min_def)
  ultimately show ?thesis
    by (cases "?ms = []")
      (simp_all add: pending_above_def ib inbox_of_def box_of_def xs_def filter_map comp_def take_map)
qed

lemma deposit_returns:
  assumes "store_ok s"
  shows "deposit s to bl now \<noteq> None"
proof (cases "serves s to \<and> length bl \<le> max_recipient_bytes (limits s)")
  case True
  then show ?thesis using deposit_refines [OF assms, of to bl now] by auto
qed (auto simp: deposit_def)

lemma deposit_kept:
  assumes "store_ok s" and "deposit s to bl now = Some (Inr (i, s'))"
  shows "set (messages (inner s')) \<subseteq> insert (new_mail s to bl now) (set (messages (inner s)))"
proof -
  have sv: "serves s to" "length bl \<le> max_recipient_bytes (limits s)"
    using assms(2) by (auto simp: deposit_def split: if_splits)
  have sub: "set (spec_evict_mail c ms) \<subseteq> set ms" "set (spec_evict_inbox c r ms) \<subseteq> set ms" for c r ms
    by (induction ms) auto
  from deposit_refines [OF assms(1) sv, of now] assms(2) sub show ?thesis
    by (metis (no_types, lifting) Inr_inject option.inject prod.inject set_append list.simps(15) empty_set Un_insert_right sup_bot_right subset_trans)
qed

interpretation mem_box: mailbox store_ok box_of pending_above "\<lambda>s pk i. fst (ack s pk i)" deposit
proof unfold_locales
  fix s pk i r and to bl :: bytes and now c :: nat and s'
  assume ok: "store_ok s"
  then have inv: "mail_inv (inner s)" by (simp add: store_ok_def)
  show "sorted_wrt (<) (map fst (box_of s pk))"
    unfolding keys_box_of using inv by (simp add: mail_inv_def sorted_wrt_map sorted_wrt_filter)
  show "pending_above s pk c = take PENDING_LIMIT (filter (\<lambda>p. c < fst p) (box_of s pk))" if "c < 2 ^ 64 - 1"
    by (rule pending_above_refines [OF ok that])
  show "store_ok (fst (ack s pk i))" by (rule store_ok_ack [OF ok])
  show "box_of (fst (ack s pk i)) r = (if r = pk then filter (\<lambda>p. fst p \<noteq> i) (box_of s r) else box_of s r)"
    by (auto simp: box_of_def ack_refines(1) [OF ok] filter_map comp_def intro!: arg_cong [where f = "map _"] filter_cong)
  show "deposit s to bl now \<noteq> None" by (rule deposit_returns [OF ok])
  assume d: "deposit s to bl now = Some (Inr (i, s'))"
  from deposit_ok [OF ok d] obtain kept where k: "store_ok s'" "i = Suc (next_id (inner s))"
    "messages (inner s') = kept @ [new_mail s to bl now]" by blast
  have "set kept \<subseteq> set (messages (inner s))"
  proof
    fix p assume p: "p \<in> set kept"
    have "distinct (keys (messages (inner s')))" using k(1) by (simp add: store_ok_def mail_inv_distinct)
    with p have "p \<noteq> new_mail s to bl now" unfolding k(3) by force
    with p deposit_kept [OF ok d] show "p \<in> set (messages (inner s))" unfolding k(3) by auto
  qed
  then have "\<exists>kept. box_of s' to = kept @ [(i, bl)] \<and> set kept \<subseteq> set (box_of s to)"
    using k by (intro exI [of _ "map (\<lambda>p. (fst p, blob (snd p))) (mail_of to kept)"]) (auto simp: box_of_def)
  moreover have "\<forall>r. \<forall>p \<in> set (box_of s r). fst p < i"
    using inv k(2) by (auto simp: box_of_def mail_inv_def less_Suc_eq_le)
  ultimately show "store_ok s' \<and> (\<exists>kept. box_of s' to = kept @ [(i, bl)] \<and> set kept \<subseteq> set (box_of s to)) \<and>
      (\<forall>r. \<forall>p \<in> set (box_of s r). fst p < i)" using k(1) by blast
qed

section \<open>Properties\<close>

text \<open>
  C10. A deposit always returns. It is refused for a recipient the store does not serve and for a
  message larger than one recipient's share, and nothing is changed then. Otherwise the message
  is stored under the next id and is never the one evicted; the mail left is that of the
  documented rule (the recipient's own oldest go first, then the oldest of all), and while the
  total fits nobody else's mail is touched.
\<close>

theorem deposit_contract:
  assumes "store_ok s"
  shows "case deposit s to bl now of
           None \<Rightarrow> False
         | Some (Inl NotServed) \<Rightarrow> \<not> serves s to
         | Some (Inl TooLarge) \<Rightarrow> serves s to \<and> length bl > max_recipient_bytes (limits s)
         | Some (Inr (i, s')) \<Rightarrow>
             serves s to \<and> i = Suc (next_id (inner s)) \<and> store_ok s' \<and>
             messages (inner s') = spec_evict_mail (max_total_bytes (limits s))
               (spec_evict_inbox (max_recipient_bytes (limits s)) to (messages (inner s) @ [new_mail s to bl now])) \<and>
             last (messages (inner s')) = new_mail s to bl now \<and> messages (inner s') \<noteq> [] \<and>
             (mail_len (messages (inner s)) + length bl \<le> max_total_bytes (limits s) \<longrightarrow>
               (\<forall>r. r \<noteq> to \<longrightarrow> mail_of r (messages (inner s')) = mail_of r (messages (inner s))))"
proof (cases "serves s to \<and> length bl \<le> max_recipient_bytes (limits s)")
  case True
  let ?e = "spec_evict_inbox (max_recipient_bytes (limits s)) to (messages (inner s) @ [new_mail s to bl now])"
  obtain s' where d: "deposit s to bl now = Some (Inr (Suc (next_id (inner s)), s'))"
    and m: "messages (inner s') = spec_evict_mail (max_total_bytes (limits s)) ?e"
    using deposit_refines [OF assms, of to bl now] True by blast
  from deposit_ok [OF assms d] obtain kept where k: "store_ok s'" "messages (inner s') = kept @ [new_mail s to bl now]" by blast
  have "mail_of r (messages (inner s')) = mail_of r (messages (inner s))"
    if "mail_len (messages (inner s)) + length bl \<le> max_total_bytes (limits s)" "r \<noteq> to" for r
    unfolding m by (rule evict_other [OF that])
  with True d k m show ?thesis by simp
qed (auto simp: deposit_def)

inductive mail_reach :: "MemStore \<Rightarrow> bool" where
  start: "mail_reach (new_store lim)"
| start_unclaimed: "mail_reach (unclaimed lim)"
| claimed: "mail_reach s \<Longrightarrow> mail_reach (claim_store s owner)"
| published: "mail_reach s \<Longrightarrow> store_bundle s pk b now = Inr s' \<Longrightarrow> mail_reach s'"
| deposited: "mail_reach s \<Longrightarrow> deposit s to bl now = Some (Inr (i, s')) \<Longrightarrow> mail_reach s'"
| acked: "mail_reach s \<Longrightarrow> mail_reach (fst (ack s pk i))"
| collected: "mail_reach s \<Longrightarrow> mail_reach (gc_at s now)"

text \<open>
  C33. Through any sequence of operations the store stays within its budget: the byte counters and
  the index of inboxes agree with the messages held, all mail together and the mail of each
  recipient are within their limits, and so are the number and the size of the bundles.
\<close>

theorem mail_limits_hold: "mail_reach s \<Longrightarrow> store_ok s"
proof (induction rule: mail_reach.induct)
  case (published s pk b now s')
  then show ?case using store_bundle_ok by blast
next
  case (deposited s to bl now i s')
  then show ?case using deposit_ok by blast
qed (simp_all add: store_ok_claim store_ok_ack gc_refines(2))

text \<open>
  Nobody's mail can be taken by another: an acknowledgement removes the one message of this
  recipient with this id and no other, says whether there was one, and acknowledging all that is
  pending leaves an empty inbox and every other inbox as it was.
\<close>

theorem ack_only_own:
  assumes "store_ok s"
  shows "box_of (fst (ack s pk i)) r = (if r = pk then filter (\<lambda>p. fst p \<noteq> i) (box_of s r) else box_of s r) \<and>
         (snd (ack s pk i) \<longleftrightarrow> i \<in> fst ` set (box_of s pk)) \<and>
         box_of (foldl (\<lambda>s i. fst (ack s pk i)) s (map fst (box_of s pk))) r = (if r = pk then [] else box_of s r)"
proof -
  have "filter (\<lambda>p. fst p \<notin> set (map fst xs)) xs = []" for xs :: "(nat \<times> bytes) list" by (auto simp: filter_empty_conv)
  then show ?thesis
    using mem_box.ack_box [OF assms, of pk i r] mem_box.ack_all [OF assms, of pk "map fst (box_of s pk)" r] ack_refines(2) [OF assms, of pk i]
    by (auto simp: keys_box_of [symmetric])
qed

text \<open>
  Reading a mailbox in batches from a cursor, each time above the last id of the batch before,
  yields every message of the recipient above the cursor exactly once and in order.
\<close>

theorem pending_walk:
  assumes "store_ok s" and "next_id (inner s) < 2 ^ 64 - 1" and "c < 2 ^ 64 - 1"
    and "length (filter (\<lambda>p. c < fst p) (box_of s pk)) \<le> n * PENDING_LIMIT"
  shows "batches (pending_above s pk) n c = filter (\<lambda>p. c < fst p) (box_of s pk)"
proof (rule mem_box.batches_complete [OF assms(1) _ assms(3,4)])
  show "\<forall>p \<in> set (box_of s pk). fst p < 2 ^ 64 - 1"
    using assms(1,2) by (auto simp: box_of_def store_ok_def mail_inv_def)
qed

section \<open>Witnesses\<close>

definition toy_mail :: MemStore where
  "toy_mail = new_store (default_mem_limits\<lparr>max_total_bytes := 10, max_recipient_bytes := 5\<rparr>)"

definition toy_mail1 :: MemStore where
  "toy_mail1 = toy_mail\<lparr>inner := insert_mail empty_inner [1] [7, 7, 7] 0\<rparr>"

lemma toy_mail1_deposit: "deposit toy_mail [1] [7, 7, 7] 0 = Some (Inr (1, toy_mail1))"
  by (simp add: deposit_def toy_mail_def toy_mail1_def serves_def new_store_def default_mem_limits_def insert_mail_def
      empty_inner_def Let_def evict_inbox.simps evict_mail.simps)

lemma toy_mail1_ok: "store_ok toy_mail1"
  using deposit_ok [OF _ toy_mail1_deposit] by (simp add: toy_mail_def)

theorem deposit_contract_witness:
  "\<exists>s'. deposit toy_mail1 [1] [8, 8, 8] 5 = Some (Inr (2, s')) \<and>
     messages (inner s') = [(2, \<lparr>recipient = [1], blob = [8, 8, 8], stored_at = 5\<rparr>)]"
  using deposit_contract [OF toy_mail1_ok, of "[1]" "[8, 8, 8]" 5]
  by (auto simp: toy_mail1_def toy_mail_def serves_def new_store_def default_mem_limits_def insert_mail_def empty_inner_def Let_def
      split: option.splits sum.splits prod.splits MailError.splits)

theorem mail_limits_hold_witness: "store_ok toy_mail1"
proof -
  have "mail_reach toy_mail1"
    using mail_reach.deposited [OF _ toy_mail1_deposit] by (simp add: toy_mail_def mail_reach.start)
  then show ?thesis by (rule mail_limits_hold)
qed

theorem ack_only_own_witness:
  "box_of (fst (ack toy_mail1 [1] 1)) [1] = [] \<and> box_of (fst (ack toy_mail1 [2] 1)) [1] = [(1, [7, 7, 7])]"
proof -
  have b: "box_of toy_mail1 [1] = [(1, [7, 7, 7])]"
    by (simp add: box_of_def toy_mail1_def toy_mail_def insert_mail_def empty_inner_def Let_def)
  from ack_only_own [OF toy_mail1_ok, of "[1]" 1 "[1]"] ack_only_own [OF toy_mail1_ok, of "[2]" 1 "[1]"] b
  show ?thesis by simp
qed

theorem pending_walk_witness: "batches (pending_above toy_mail1 [1]) 3 0 = [(1, [7, 7, 7])]"
proof -
  have b: "box_of toy_mail1 [1] = [(1, [7, 7, 7])]" and n: "next_id (inner toy_mail1) < 2 ^ 64 - 1"
    by (simp_all add: box_of_def toy_mail1_def toy_mail_def insert_mail_def empty_inner_def Let_def)
  from pending_walk [OF toy_mail1_ok n, of 0 "[1]" 3] b show ?thesis by (simp add: PENDING_LIMIT_def)
qed

end
