(* ===== verification/Relay_Server.thy ===== *)
theory Relay_Server
  imports Relay_Wire Relay_Store
begin

text \<open>
  The relay a client hosts, \<open>libcore/src/relay_server.rs\<close>, from the login of a connection to its
  end: \<open>Pushed\<close>, \<open>Lanes\<close>, \<open>handle_client\<close>, \<open>client_loop\<close>, \<open>redeal\<close>, \<open>serve_dht\<close>.

  A connection is the record \<open>Conn\<close>: its key, the channel of frames to be pushed to it
  (\<open>push_tx\<close> and \<open>push_rx\<close>, named by the connection's number), what it was given and has not
  acknowledged, and what was written to its stream. The cursor of a key (\<open>Arc<Mutex<Pushed>>\<close>) is
  shared by its connections, and replaced while an old connection may still hold the old one, so
  cursors live in a store of their own and are named by numbers. A spawned task is an entry of
  \<open>tasks\<close>. Each turn of \<open>select!\<close> and each turn of a task is one step; a turn that writes to the
  stream takes whether the write succeeds.

  A channel is open while its connection is in \<open>conns\<close>. A connection that ends first closes its
  channel (\<open>on_leave\<close>) and then takes itself out of the table of connections, once it has the lock
  (\<open>on_unregister\<close>); in between it is in \<open>closing\<close>. One that is aborted, when the tunnels are
  rebuilt, only loses its channel.
\<close>

section \<open>State\<close>

record Pushed =
  high :: nat
  pids :: "nat list"

definition new_pushed :: Pushed where
  "new_pushed = \<lparr>high = 0, pids = []\<rparr>"

text \<open>\<open>HashSet::insert\<close> says whether the element was new.\<close>

definition claim :: "Pushed \<Rightarrow> nat \<Rightarrow> Pushed \<times> bool" where
  "claim p i = (p\<lparr>high := max (high p) i, pids := List.insert i (pids p)\<rparr>, i \<notin> set (pids p))"

definition acked :: "Pushed \<Rightarrow> nat \<Rightarrow> Pushed" where
  "acked p i = p\<lparr>pids := filter (\<lambda>x. x \<noteq> i) (pids p)\<rparr>"

record Conn =
  c_pk :: bytes
  c_owner :: bool
  c_cursor :: nat
  c_queue :: "RelayToClient list"
  c_given :: "nat list"
  c_unacked :: nat
  c_out :: "RelayToClient list"

record Lanes =
  senders :: "nat list"
  l_next :: nat
  l_cursor :: nat

text \<open>
  \<open>InitialStart\<close>, \<open>Initial\<close> and \<open>InitialSend\<close> are the catch-up task of a connection before it has
  read the store, between two messages and while it waits for room in the channel; they hold the
  number of the connection and of its cursor. \<open>Deliver\<close> waits
  to put a frame into a channel; with a key it is the task of a deposit, which tries another
  connection of the key once when the channel is closed, and without it is that second try, or the
  task of \<open>redeal\<close>.
\<close>

datatype Task =
    InitialStart nat bytes nat
  | Initial nat nat "(nat \<times> bytes) list"
  | InitialSend nat nat nat bytes "(nat \<times> bytes) list"
  | Deliver nat "bytes option" RelayToClient

record Server =
  store :: MemStore
  conns :: "(nat \<times> Conn) list"
  connections :: "(bytes \<times> Lanes) list"
  cursors :: "nat \<Rightarrow> Pushed"
  next_cursor :: nat
  tasks :: "Task list"
  closing :: "(nat \<times> bytes \<times> nat list) list"

definition PUSH_CAPACITY :: nat where
  "PUSH_CAPACITY = 512"

definition DHT_MAX_REQUESTS :: nat where
  "DHT_MAX_REQUESTS = 64"

definition incoming :: "nat \<Rightarrow> bytes \<Rightarrow> RelayToClient" where
  "incoming i bl = Incoming i (replicate 32 0) bl"

section \<open>Channels, lanes and cursors\<close>

definition chan_open :: "Server \<Rightarrow> nat \<Rightarrow> bool" where
  "chan_open srv c \<longleftrightarrow> hm_get (conns srv) c \<noteq> None"

definition chan_len :: "Server \<Rightarrow> nat \<Rightarrow> nat" where
  "chan_len srv c = (case hm_get (conns srv) c of Some k \<Rightarrow> length (c_queue k) | None \<Rightarrow> 0)"

definition modify_conn :: "nat \<Rightarrow> (Conn \<Rightarrow> Conn) \<Rightarrow> Server \<Rightarrow> Server" where
  "modify_conn c f srv = srv\<lparr>conns := hm_modify c f (conns srv)\<rparr>"

definition enqueue :: "nat \<Rightarrow> RelayToClient \<Rightarrow> Server \<Rightarrow> Server" where
  "enqueue c msg = modify_conn c (\<lambda>k. k\<lparr>c_queue := c_queue k @ [msg]\<rparr>)"

definition write_to :: "nat \<Rightarrow> RelayToClient \<Rightarrow> Server \<Rightarrow> Server" where
  "write_to c msg = modify_conn c (\<lambda>k. k\<lparr>c_out := c_out k @ [msg]\<rparr>)"

definition can_send :: "Server \<Rightarrow> nat \<Rightarrow> bool" where
  "can_send srv c \<longleftrightarrow> chan_open srv c \<and> chan_len srv c < PUSH_CAPACITY"

definition load :: "Server \<Rightarrow> nat \<Rightarrow> nat" where
  "load srv c = (case hm_get (conns srv) c of Some k \<Rightarrow> c_unacked k + length (c_queue k) | None \<Rightarrow> 0)"

definition pick :: "Server \<Rightarrow> Lanes \<Rightarrow> Lanes \<times> nat option" where
  "pick srv l =
     (let live = filter (chan_open srv) (senders l)
      in if live = [] then (l, None)
         else (let least = Min (set (map (load srv) live));
                   even = filter (\<lambda>c. load srv c = least) live
               in (l\<lparr>l_next := l_next l + 1\<rparr>, Some (even ! (l_next l mod length even)))))"

text \<open>\<open>pick\<close> through the table of connections, whose counter it advances.\<close>

definition pick_for :: "Server \<Rightarrow> bytes \<Rightarrow> Server \<times> nat option" where
  "pick_for srv pk =
     (case hm_get (connections srv) pk of
        None \<Rightarrow> (srv, None)
      | Some l \<Rightarrow>
          (let (l', c) = pick srv l
           in (srv\<lparr>connections := hm_insert pk l' (connections srv)\<rparr>, c)))"

definition is_first :: "Server \<Rightarrow> Lanes \<Rightarrow> nat \<Rightarrow> bool" where
  "is_first srv l c = (case filter (chan_open srv) (senders l) of [] \<Rightarrow> False | d # _ \<Rightarrow> d = c)"

definition claim_at :: "nat \<Rightarrow> nat \<Rightarrow> Server \<Rightarrow> Server \<times> bool" where
  "claim_at k i srv =
     (let (p, new) = claim (cursors srv k) i in (srv\<lparr>cursors := (cursors srv)(k := p)\<rparr>, new))"

section \<open>Login\<close>

datatype Login = ServeDht bytes | LoggedIn bytes bool | LoginRefused | ProtocolError

definition authenticate :: "crypto \<Rightarrow> bytes \<Rightarrow> bytes \<Rightarrow> ClientToRelay \<Rightarrow> Login" where
  "authenticate C dest_hash challenge first =
     (let verified = (\<lambda>pk sig signed. Ed_key_ok C pk \<and> Ed_verify C pk signed sig)
      in case first of
           Dht b \<Rightarrow> ServeDht b
         | AuthV2 pk sig \<Rightarrow>
             if verified pk sig (auth_v2_message dest_hash challenge) then LoggedIn pk True else LoginRefused
         | Auth pk sig \<Rightarrow> if verified pk sig challenge then LoggedIn pk False else LoginRefused
         | _ \<Rightarrow> ProtocolError)"

definition new_conn :: "bytes \<Rightarrow> bool \<Rightarrow> nat \<Rightarrow> Conn" where
  "new_conn pk own k =
     \<lparr>c_pk = pk, c_owner = own, c_cursor = k, c_queue = [], c_given = [], c_unacked = 0, c_out = []\<rparr>"

text \<open>A login without \<open>AuthV2\<close> is not entered in the table of connections.\<close>

definition enter_guest :: "nat \<Rightarrow> bytes \<Rightarrow> Server \<Rightarrow> Server" where
  "enter_guest c pk srv =
     write_to c AuthOk
       (srv\<lparr>conns := (c, new_conn pk False (next_cursor srv)) # conns srv,
            cursors := (cursors srv)(next_cursor srv := new_pushed),
            next_cursor := next_cursor srv + 1\<rparr>)"

definition enter_owner :: "nat \<Rightarrow> bytes \<Rightarrow> Server \<Rightarrow> Server" where
  "enter_owner c pk srv =
     (let l0 = (case hm_get (connections srv) pk of
                  Some l \<Rightarrow> l
                | None \<Rightarrow> \<lparr>senders = [], l_next = 0, l_cursor = next_cursor srv\<rparr>);
          live = filter (chan_open srv) (senders l0);
          first = (live = []);
          k = (if first then next_cursor srv else l_cursor l0)
      in write_to c AuthOk
           (srv\<lparr>conns := (c, new_conn pk True k) # conns srv,
                connections := hm_insert pk (l0\<lparr>senders := live @ [c], l_cursor := k\<rparr>) (connections srv),
                cursors := (if first then (cursors srv)(next_cursor srv := new_pushed) else cursors srv),
                next_cursor := (if first then next_cursor srv + 1 else next_cursor srv),
                tasks := (if first then tasks srv @ [InitialStart c pk k] else tasks srv)\<rparr>))"

section \<open>The turns of \<open>client_loop\<close>\<close>

text \<open>The sweep above the cursor, after an acknowledgement and at every tick.\<close>

fun push_pending :: "nat \<Rightarrow> nat \<Rightarrow> (nat \<times> bytes) list \<Rightarrow> Server \<Rightarrow> Server" where
  "push_pending c k [] srv = srv"
| "push_pending c k ((i, bl) # rest) srv =
     (let (srv', new) = claim_at k i srv
      in if \<not> new then push_pending c k rest srv'
         else if can_send srv' c then push_pending c k rest (enqueue c (incoming i bl) srv')
         else srv')"

definition sweep :: "nat \<Rightarrow> Conn \<Rightarrow> Server \<Rightarrow> Server" where
  "sweep c k srv =
     push_pending c (c_cursor k) (pending_above (store srv) (c_pk k) (high (cursors srv (c_cursor k)))) srv"

definition mail_error_text :: "MailError \<Rightarrow> bytes" where
  "mail_error_text e =
     (case e of TooLarge \<Rightarrow> ascii ''larger than this relay holds'' | NotServed \<Rightarrow> ERR_NOT_SERVED)"

text \<open>
  One frame of a client. The value is the new state and whether the loop goes on: it ends when the
  answer cannot be written (\<open>wrote\<close>). \<open>None\<close> is a deposit that does not return.
\<close>

definition reply :: "nat \<Rightarrow> RelayToClient \<Rightarrow> bool \<Rightarrow> Server \<Rightarrow> Server \<times> bool" where
  "reply c msg wrote srv = (if wrote then (write_to c msg srv, True) else (srv, False))"

definition on_send :: "nat \<Rightarrow> bytes \<Rightarrow> bytes \<Rightarrow> instant \<Rightarrow> bool \<Rightarrow> Server \<Rightarrow> (Server \<times> bool) option" where
  "on_send c to bl now wrote srv =
     (case deposit (store srv) to bl now of
        None \<Rightarrow> None
      | Some (Inl e) \<Rightarrow> Some (reply c (Error (mail_error_text e)) wrote srv)
      | Some (Inr (i, s')) \<Rightarrow>
          (let (srv1, lane) = pick_for (srv\<lparr>store := s'\<rparr>) to;
               (srv2, online) =
                 (case lane of
                    None \<Rightarrow> (srv1, None)
                  | Some d \<Rightarrow>
                      (let (srv', new) = claim_at (l_cursor (the (hm_get (connections srv1) to))) i srv1
                       in (srv', if new then Some d else None)));
               (srv3, go) = reply c (Deposited i) wrote srv2
           in Some (case online of
                      Some d \<Rightarrow>
                        if go then (srv3\<lparr>tasks := tasks srv3 @ [Deliver d (Some to) (incoming i bl)]\<rparr>, True)
                        else (srv3, False)
                    | None \<Rightarrow> (srv3, go))))"

definition on_ack :: "nat \<Rightarrow> Conn \<Rightarrow> nat \<Rightarrow> Server \<Rightarrow> Server" where
  "on_ack c k i srv =
     (let srv1 = srv\<lparr>store := fst (ack (store srv) (c_pk k) i)\<rparr>;
          srv2 = (if i \<in> set (c_given k)
                  then modify_conn c (\<lambda>k. k\<lparr>c_given := filter (\<lambda>x. x \<noteq> i) (c_given k), c_unacked := c_unacked k - 1\<rparr>) srv1
                  else srv1);
          srv3 = srv2\<lparr>cursors := (cursors srv2)(c_cursor k := acked (cursors srv2 (c_cursor k)) i)\<rparr>
      in sweep c k srv3)"

definition on_frame :: "nat \<Rightarrow> ClientToRelay \<Rightarrow> instant \<Rightarrow> bool \<Rightarrow> Server \<Rightarrow> (Server \<times> bool) option" where
  "on_frame c f now wrote srv =
     (case hm_get (conns srv) c of
        None \<Rightarrow> Some (srv, False)
      | Some k \<Rightarrow>
          (case f of
             Publish b \<Rightarrow>
               Some (if \<not> c_owner k then reply c (Error ERR_NEEDS_AUTH_V2) wrote srv
                     else (case store_bundle (store srv) (c_pk k) b now of
                             Inl e \<Rightarrow> reply c (Error (mail_error_text e)) wrote srv
                           | Inr s' \<Rightarrow> (srv\<lparr>store := s'\<rparr>, True)))
           | GetBundle pk \<Rightarrow> Some (reply c (Bundle pk (get_bundle (store srv) pk)) wrote srv)
           | Send to bl \<Rightarrow> on_send c to bl now wrote srv
           | Ack i \<Rightarrow>
               Some (if \<not> c_owner k then reply c (Error ERR_NEEDS_AUTH_V2) wrote srv
                     else (on_ack c k i srv, True))
           | Ping \<Rightarrow> Some (reply c Pong wrote srv)
           | _ \<Rightarrow> Some (srv, True)))"

text \<open>A frame taken off the channel: \<open>push_rx.recv()\<close>.\<close>

definition on_push :: "nat \<Rightarrow> bool \<Rightarrow> Server \<Rightarrow> Server \<times> bool" where
  "on_push c wrote srv =
     (case hm_get (conns srv) c of
        None \<Rightarrow> (srv, False)
      | Some k \<Rightarrow>
          (case c_queue k of
             [] \<Rightarrow> (srv, True)
           | msg # rest \<Rightarrow>
               (let srv1 = modify_conn c (\<lambda>k. k\<lparr>c_queue := rest\<rparr>) srv;
                    srv2 = (case msg of
                              Incoming i _ _ \<Rightarrow>
                                (let srv' = fst (claim_at (c_cursor k) i srv1)
                                 in if i \<in> set (c_given k) then srv'
                                    else modify_conn c (\<lambda>k. k\<lparr>c_given := i # c_given k, c_unacked := c_unacked k + 1\<rparr>) srv')
                            | _ \<Rightarrow> srv1)
                in reply c msg wrote srv2)))"

text \<open>The periodic sweep.\<close>

definition on_tick :: "nat \<Rightarrow> Server \<Rightarrow> Server" where
  "on_tick c srv =
     (case hm_get (conns srv) c of
        None \<Rightarrow> srv
      | Some k \<Rightarrow>
          if (case hm_get (connections srv) (c_pk k) of None \<Rightarrow> False | Some l \<Rightarrow> is_first srv l c)
          then sweep c k srv else srv)"

section \<open>Tasks\<close>

text \<open>One turn of a task; the value is what is left of it. A full channel makes it wait.\<close>

definition run_task :: "Task \<Rightarrow> Server \<Rightarrow> Server \<times> Task option" where
  "run_task t srv =
     (case t of
        InitialStart c pk k \<Rightarrow> (srv, Some (Initial c k (pending_above (store srv) pk 0)))
      | Initial c k [] \<Rightarrow> (srv, None)
      | Initial c k ((i, bl) # rest) \<Rightarrow>
          (let (srv', new) = claim_at k i srv
           in (srv', Some (if new then InitialSend c k i bl rest else Initial c k rest)))
      | InitialSend c k i bl rest \<Rightarrow>
          if \<not> chan_open srv c then (srv, None)
          else if can_send srv c then (enqueue c (incoming i bl) srv, Some (Initial c k rest))
          else (srv, Some t)
      | Deliver d to msg \<Rightarrow>
          if chan_open srv d then
            (if can_send srv d then (enqueue d msg srv, None) else (srv, Some t))
          else (case to of
                  None \<Rightarrow> (srv, None)
                | Some pk \<Rightarrow>
                    (let (srv', lane) = pick_for srv pk
                     in (srv', map_option (\<lambda>d'. Deliver d' None msg) lane))))"

definition step_task :: "nat \<Rightarrow> Server \<Rightarrow> Server" where
  "step_task n srv =
     (if n < length (tasks srv) then
        (let (srv', t) = run_task (tasks srv ! n) srv
         in case t of
              Some t' \<Rightarrow> srv'\<lparr>tasks := (tasks srv')[n := t']\<rparr>
            | None \<Rightarrow> srv'\<lparr>tasks := take n (tasks srv') @ drop (Suc n) (tasks srv')\<rparr>)
      else srv)"

section \<open>The end of a connection\<close>

definition task_of :: "nat \<Rightarrow> Task \<Rightarrow> bool" where
  "task_of c t = (case t of InitialStart d _ _ \<Rightarrow> d = c | Initial d _ _ \<Rightarrow> d = c | InitialSend d _ _ _ _ \<Rightarrow> d = c | Deliver _ _ _ \<Rightarrow> False)"

definition incoming_id :: "RelayToClient \<Rightarrow> nat option" where
  "incoming_id f = (case f of Incoming i _ _ \<Rightarrow> Some i | _ \<Rightarrow> None)"

fun redeal :: "bytes \<Rightarrow> (nat \<times> bytes) list \<Rightarrow> nat list \<Rightarrow> Server \<Rightarrow> Server" where
  "redeal pk [] given srv = srv"
| "redeal pk ((i, bl) # pending) given srv =
     (if i \<in> set given then
        (case pick_for srv pk of
           (srv', None) \<Rightarrow> srv'
         | (srv', Some d) \<Rightarrow> redeal pk pending given (srv'\<lparr>tasks := tasks srv' @ [Deliver d None (incoming i bl)]\<rparr>))
      else redeal pk pending given srv)"

definition on_leave :: "nat \<Rightarrow> Server \<Rightarrow> Server" where
  "on_leave c srv =
     (case hm_get (conns srv) c of
        None \<Rightarrow> srv
      | Some k \<Rightarrow>
          if \<not> c_owner k then srv\<lparr>conns := hm_remove c (conns srv)\<rparr>
          else srv\<lparr>conns := hm_remove c (conns srv),
                   tasks := filter (\<lambda>t. \<not> task_of c t) (tasks srv),
                   closing := closing srv @ [(c, c_pk k, c_given k @ List.map_filter incoming_id (c_queue k))]\<rparr>)"

definition on_unregister :: "Server \<Rightarrow> Server" where
  "on_unregister srv =
     (case closing srv of
        [] \<Rightarrow> srv
      | (c, pk, given) # rest \<Rightarrow>
          (let srv1 = srv\<lparr>closing := rest\<rparr>
           in case hm_get (connections srv1) pk of
                None \<Rightarrow> srv1
              | Some l \<Rightarrow>
                  (let live = filter (\<lambda>d. d \<noteq> c \<and> chan_open srv1 d) (senders l)
                   in if live = [] then srv1\<lparr>connections := hm_remove pk (connections srv1)\<rparr>
                      else redeal pk (pending_above (store srv1) pk 0) given
                             (srv1\<lparr>connections := hm_insert pk (l\<lparr>senders := live\<rparr>) (connections srv1)\<rparr>))))"

definition on_abort :: "nat \<Rightarrow> Server \<Rightarrow> Server" where
  "on_abort c srv = srv\<lparr>conns := hm_remove c (conns srv)\<rparr>"

section \<open>A connection to the relay network\<close>

text \<open>
  \<open>serve_dht\<close>: the frames that come in after the first are a list, in which a timeout, the end of
  the stream and a read error are events too. The handler is a parameter; \<open>None\<close> is a handler that
  panics. The value is the answers written and how the connection ends.
\<close>

datatype DhtRead = Idle | Eof | ReadError RelayError | Read ClientToRelay

fun serve_dht_loop ::
  "(bytes \<Rightarrow> bytes option) \<Rightarrow> nat \<Rightarrow> bytes \<Rightarrow> DhtRead list \<Rightarrow> RelayToClient list \<times> (RelayError + unit)" where
  "serve_dht_loop dht served request [] =
     (case dht request of
        None \<Rightarrow> ([], Inl (Proto (ascii ''dht handler'')))
      | Some answer \<Rightarrow> ([DhtAnswer answer], Inr ()))"
| "serve_dht_loop dht served request (ev # evs) =
     (case dht request of
        None \<Rightarrow> ([], Inl (Proto (ascii ''dht handler'')))
      | Some answer \<Rightarrow>
          if served \<ge> DHT_MAX_REQUESTS then ([DhtAnswer answer], Inr ())
          else (case ev of
                  Idle \<Rightarrow> ([DhtAnswer answer], Inr ())
                | Eof \<Rightarrow> ([DhtAnswer answer], Inr ())
                | ReadError e \<Rightarrow> ([DhtAnswer answer], Inl e)
                | Read (Dht b) \<Rightarrow>
                    (let (out, r) = serve_dht_loop dht (served + 1) b evs in (DhtAnswer answer # out, r))
                | Read _ \<Rightarrow> ([DhtAnswer answer], Inl (Proto (ascii ''only relay-network frames after one'')))))"

definition serve_dht :: "(bytes \<Rightarrow> bytes option) option \<Rightarrow> bytes \<Rightarrow> DhtRead list \<Rightarrow> RelayToClient list \<times> (RelayError + unit)" where
  "serve_dht dht first evs =
     (case dht of
        None \<Rightarrow> ([Error (ascii ''not a relay-network node'')], Inr ())
      | Some h \<Rightarrow> serve_dht_loop h 1 first evs)"

end
