(* ===== verification/Relay_Server_Props.thy ===== *)
theory Relay_Server_Props
  imports Relay_Server
begin

text \<open>
  The running relay as a step relation, and what holds in every state it can reach. The second
  argument of \<open>relay_reach\<close> is the history of deposits: which message was left for whom under
  which id.
\<close>

section \<open>Steps\<close>

definition task_conns :: "Task \<Rightarrow> nat list" where
  "task_conns t =
     (case t of InitialStart c _ _ \<Rightarrow> [c] | Initial c _ _ \<Rightarrow> [c] | InitialSend c _ _ _ _ \<Rightarrow> [c] | Deliver d _ _ \<Rightarrow> [d])"

definition fresh_conn :: "nat \<Rightarrow> Server \<Rightarrow> bool" where
  "fresh_conn c srv \<longleftrightarrow>
     c \<notin> set (keys (conns srv)) \<and> (\<forall>p \<in> set (connections srv). c \<notin> set (senders (snd p))) \<and>
     (\<forall>t \<in> set (tasks srv). c \<notin> set (task_conns t)) \<and> c \<notin> fst ` set (closing srv)"

text \<open>A turn after which the loop does not go on is followed by the end of the connection.\<close>

definition after_turn :: "nat \<Rightarrow> Server \<times> bool \<Rightarrow> Server" where
  "after_turn c r = (case r of (srv, go) \<Rightarrow> if go then srv else on_leave c srv)"

type_synonym history = "(nat \<times> bytes \<times> bytes) set"

definition deposited_by :: "ClientToRelay \<Rightarrow> Server \<Rightarrow> instant \<Rightarrow> history" where
  "deposited_by f srv now =
     (case f of
        Send to bl \<Rightarrow>
          (case deposit (store srv) to bl now of Some (Inr (i, _)) \<Rightarrow> {(i, to, bl)} | _ \<Rightarrow> {})
      | _ \<Rightarrow> {})"

inductive relay_step :: "crypto \<Rightarrow> bytes \<Rightarrow> Server \<times> history \<Rightarrow> Server \<times> history \<Rightarrow> bool" for C h where
  guest: "authenticate C h ch f = LoggedIn pk False \<Longrightarrow> fresh_conn c srv \<Longrightarrow> relay_step C h (srv, H) (enter_guest c pk srv, H)"
| owner: "authenticate C h ch f = LoggedIn pk True \<Longrightarrow> fresh_conn c srv \<Longrightarrow> relay_step C h (srv, H) (enter_owner c pk srv, H)"
| frame: "chan_open srv c \<Longrightarrow> on_frame c f now wrote srv = Some r \<Longrightarrow> relay_step C h (srv, H) (after_turn c r, H \<union> deposited_by f srv now)"
| push: "relay_step C h (srv, H) (after_turn c (on_push c wrote srv), H)"
| tick: "relay_step C h (srv, H) (on_tick c srv, H)"
| task: "relay_step C h (srv, H) (step_task n srv, H)"
| leave: "relay_step C h (srv, H) (on_leave c srv, H)"
| unregister: "relay_step C h (srv, H) (on_unregister srv, H)"
| abort: "relay_step C h (srv, H) (on_abort c srv, H)"
| claim_owner: "relay_step C h (srv, H) (srv\<lparr>store := claim_store (store srv) own\<rparr>, H)"
| gc: "relay_step C h (srv, H) (srv\<lparr>store := gc_at (store srv) now\<rparr>, H)"

definition new_server :: "MemStore \<Rightarrow> Server" where
  "new_server s = \<lparr>store = s, conns = [], connections = [], cursors = (\<lambda>_. new_pushed), next_cursor = 0, tasks = [], closing = []\<rparr>"

definition relay_reach :: "crypto \<Rightarrow> bytes \<Rightarrow> Server \<times> history \<Rightarrow> bool" where
  "relay_reach C h s \<longleftrightarrow> (\<exists>lim. (relay_step C h)\<^sup>*\<^sup>* (new_server (new_store lim), {}) s \<or> (relay_step C h)\<^sup>*\<^sup>* (new_server (unclaimed lim), {}) s)"

section \<open>The invariant: mail goes to the connections of its recipient\<close>

definition who :: "Server \<Rightarrow> nat \<Rightarrow> (bytes \<times> bool) option" where
  "who srv c = map_option (\<lambda>k. (c_pk k, c_owner k)) (hm_get (conns srv) c)"

definition store_logged :: "history \<Rightarrow> Server \<Rightarrow> bool" where
  "store_logged H srv \<longleftrightarrow>
     store_ok (store srv) \<and> (\<forall>(i, m) \<in> set (messages (inner (store srv))). (i, recipient m, blob m) \<in> H)"

definition frame_ok :: "history \<Rightarrow> Conn \<Rightarrow> RelayToClient \<Rightarrow> bool" where
  "frame_ok H k f = (case f of Incoming i _ bl \<Rightarrow> c_owner k \<and> (i, c_pk k, bl) \<in> H | _ \<Rightarrow> True)"

lemma frame_ok_simps [simp]:
  "frame_ok H (k\<lparr>c_queue := q\<rparr>) f = frame_ok H k f" "frame_ok H (k\<lparr>c_out := q\<rparr>) f = frame_ok H k f"
  "frame_ok H (k\<lparr>c_given := g\<rparr>) f = frame_ok H k f" "frame_ok H (k\<lparr>c_unacked := n\<rparr>) f = frame_ok H k f"
  "frame_ok H k (incoming i bl) \<longleftrightarrow> c_owner k \<and> (i, c_pk k, bl) \<in> H"
  by (simp_all add: frame_ok_def incoming_def split: RelayToClient.split)

definition conn_ok :: "crypto \<Rightarrow> bytes \<Rightarrow> history \<Rightarrow> Conn \<Rightarrow> bool" where
  "conn_ok C h H k \<longleftrightarrow>
     (\<forall>f \<in> set (c_queue k) \<union> set (c_out k). frame_ok H k f) \<and>
     (c_owner k \<longrightarrow> (\<exists>ch sig. Ed_verify C (c_pk k) (auth_v2_message h ch) sig))"

definition dest_ok :: "history \<Rightarrow> (nat \<Rightarrow> (bytes \<times> bool) option) \<Rightarrow> nat \<Rightarrow> nat \<times> bytes \<Rightarrow> bool" where
  "dest_ok H w c p \<longleftrightarrow> (\<forall>pk own. w c = Some (pk, own) \<longrightarrow> own \<and> (fst p, pk, snd p) \<in> H)"

fun task_ok :: "history \<Rightarrow> (nat \<Rightarrow> (bytes \<times> bool) option) \<Rightarrow> Task \<Rightarrow> bool" where
  "task_ok H w (InitialStart c pk k) \<longleftrightarrow> w c = None \<or> w c = Some (pk, True)"
| "task_ok H w (Initial c k todo) \<longleftrightarrow> (\<forall>p \<in> set todo. dest_ok H w c p)"
| "task_ok H w (InitialSend c k i bl todo) \<longleftrightarrow> (\<forall>p \<in> set ((i, bl) # todo). dest_ok H w c p)"
| "task_ok H w (Deliver d to msg) \<longleftrightarrow>
     (\<exists>i bl. msg = incoming i bl \<and> dest_ok H w d (i, bl) \<and> (\<forall>pk. to = Some pk \<longrightarrow> (i, pk, bl) \<in> H))"

definition lanes_ok :: "(nat \<Rightarrow> (bytes \<times> bool) option) \<Rightarrow> (bytes \<times> Lanes) list \<Rightarrow> bool" where
  "lanes_ok w cs \<longleftrightarrow>
     (\<forall>pk l c. hm_get cs pk = Some l \<longrightarrow> c \<in> set (senders l) \<longrightarrow> w c = None \<or> w c = Some (pk, True))"

definition server_ok :: "crypto \<Rightarrow> bytes \<Rightarrow> Server \<times> history \<Rightarrow> bool" where
  "server_ok C h s \<longleftrightarrow>
     (case s of (srv, H) \<Rightarrow>
        store_logged H srv \<and> distinct (keys (conns srv)) \<and>
        (\<forall>c k. hm_get (conns srv) c = Some k \<longrightarrow> conn_ok C h H k) \<and>
        lanes_ok (who srv) (connections srv) \<and> (\<forall>t \<in> set (tasks srv). task_ok H (who srv) t))"

lemma incoming_inject [simp]: "incoming i bl = incoming j bl' \<longleftrightarrow> i = j \<and> bl = bl'"
  by (simp add: incoming_def)

lemma dest_okI: "w c = None \<or> w c = Some (pk, True) \<Longrightarrow> (i, pk, bl) \<in> H \<Longrightarrow> dest_ok H w c (i, bl)"
  by (auto simp: dest_ok_def)

lemma who_modify [simp]:
  "(\<And>k. c_pk (f k) = c_pk k) \<Longrightarrow> (\<And>k. c_owner (f k) = c_owner k) \<Longrightarrow> who (modify_conn c f srv) = who srv"
  by (auto simp: who_def modify_conn_def hm_get_modify fun_eq_iff option.map_comp comp_def)

lemma who_enqueue [simp]: "who (enqueue c f srv) = who srv" by (simp add: enqueue_def)

lemma who_write [simp]: "who (write_to c f srv) = who srv" by (simp add: write_to_def)

lemma who_conns: "conns srv' = conns srv \<Longrightarrow> who srv' = who srv" by (simp add: who_def fun_eq_iff)

lemma who_tasks [simp]: "who (srv\<lparr>tasks := ts\<rparr>) = who srv" by (simp add: who_def fun_eq_iff)

lemma chan_open_who: "chan_open srv c \<longleftrightarrow> who srv c \<noteq> None" by (simp add: chan_open_def who_def)

lemma server_okD:
  assumes "server_ok C h (srv, H)"
  shows "store_logged H srv" "distinct (keys (conns srv))" "\<And>c k. hm_get (conns srv) c = Some k \<Longrightarrow> conn_ok C h H k"
    "lanes_ok (who srv) (connections srv)" "\<And>t. t \<in> set (tasks srv) \<Longrightarrow> task_ok H (who srv) t"
  using assms by (auto simp: server_ok_def)

lemma server_okI:
  assumes "store_logged H srv" "distinct (keys (conns srv))" "\<And>c k. hm_get (conns srv) c = Some k \<Longrightarrow> conn_ok C h H k"
    "lanes_ok (who srv) (connections srv)" "\<And>t. t \<in> set (tasks srv) \<Longrightarrow> task_ok H (who srv) t"
  shows "server_ok C h (srv, H)"
  using assms by (simp add: server_ok_def)

lemma lanes_okD:
  "lanes_ok w cs \<Longrightarrow> hm_get cs pk = Some l \<Longrightarrow> c \<in> set (senders l) \<Longrightarrow> w c = None \<or> w c = Some (pk, True)"
  by (simp add: lanes_ok_def)

text \<open>A change of one connection that leaves its key and login alone and adds only frames it may have.\<close>

lemma modify_ok:
  assumes "server_ok C h (srv, H)" and "\<And>k. c_pk (f k) = c_pk k" and "\<And>k. c_owner (f k) = c_owner k"
    and "\<And>k. hm_get (conns srv) c = Some k \<Longrightarrow> conn_ok C h H k \<Longrightarrow> conn_ok C h H (f k)"
  shows "server_ok C h (modify_conn c f srv, H)"
proof -
  note D = server_okD [OF assms(1)]
  have w: "who (modify_conn c f srv) = who srv" using assms(2,3) by simp
  have "conn_ok C h H k" if "hm_get (conns (modify_conn c f srv)) d = Some k" for d k
    using that D(3) assms(4) by (auto simp: modify_conn_def hm_get_modify split: if_splits)
  then show ?thesis
    by (rule server_okI [rotated 2]) (use D in \<open>simp_all only: w, simp_all add: modify_conn_def store_logged_def\<close>)
qed

lemma enqueue_ok:
  assumes "server_ok C h (srv, H)" and "dest_ok H (who srv) c (i, bl)"
  shows "server_ok C h (enqueue c (incoming i bl) srv, H)"
  unfolding enqueue_def
  by (rule modify_ok [OF assms(1)]) (use assms(2) in \<open>auto simp: conn_ok_def dest_ok_def who_def\<close>)

lemma write_ok:
  assumes "server_ok C h (srv, H)" and "\<And>k. hm_get (conns srv) c = Some k \<Longrightarrow> frame_ok H k f"
  shows "server_ok C h (write_to c f srv, H)"
  unfolding write_to_def
  by (rule modify_ok [OF assms(1)]) (use assms(2) in \<open>auto simp: conn_ok_def\<close>)

text \<open>What is neither the store, nor a connection, a lane or a task, does not matter.\<close>

lemma rest_ok:
  assumes "server_ok C h (srv, H)" and "store srv' = store srv" and "conns srv' = conns srv"
    and "\<And>pk l'. hm_get (connections srv') pk = Some l' \<Longrightarrow> \<exists>l. hm_get (connections srv) pk = Some l \<and> set (senders l') \<subseteq> set (senders l)"
    and "set (tasks srv') \<subseteq> set (tasks srv)"
  shows "server_ok C h (srv', H)"
proof -
  note D = server_okD [OF assms(1)]
  have w: "who srv' = who srv" by (rule who_conns [OF assms(3)])
  show ?thesis
  proof (rule server_okI)
    show "lanes_ok (who srv') (connections srv')"
      unfolding w lanes_ok_def using assms(4) lanes_okD [OF D(4)] by blast
    show "task_ok H (who srv') t" if "t \<in> set (tasks srv')" for t unfolding w using that assms(5) D(5) by blast
  qed (use D assms(2,3) in \<open>auto simp: store_logged_def\<close>)
qed

lemma claim_at_ok: "server_ok C h (srv, H) \<Longrightarrow> server_ok C h (fst (claim_at k i srv), H)"
  by (erule rest_ok) (auto simp: claim_at_def split_beta)

lemma claim_at_who [simp]: "who (fst (claim_at k i srv)) = who srv"
  by (rule who_conns) (simp add: claim_at_def split_beta)

lemma dest_ok_mono: "dest_ok H w c p \<Longrightarrow> H \<subseteq> H' \<Longrightarrow> dest_ok H' w c p"
  by (auto simp: dest_ok_def)

lemma task_ok_mono: "task_ok H w t \<Longrightarrow> H \<subseteq> H' \<Longrightarrow> task_ok H' w t"
proof (cases t)
  case (Deliver d to msg)
  assume "task_ok H w t" "H \<subseteq> H'"
  then obtain i bl where "msg = incoming i bl" "dest_ok H w d (i, bl)" "\<forall>pk. to = Some pk \<longrightarrow> (i, pk, bl) \<in> H"
    unfolding Deliver task_ok.simps by blast
  with \<open>H \<subseteq> H'\<close> dest_ok_mono [of H w d "(i, bl)" H'] show ?thesis
    unfolding Deliver task_ok.simps by (intro exI [of _ i] exI [of _ bl]) auto
qed (auto intro: dest_ok_mono)

lemma conn_ok_mono: "conn_ok C h H k \<Longrightarrow> H \<subseteq> H' \<Longrightarrow> conn_ok C h H' k"
proof -
  assume "conn_ok C h H k" "H \<subseteq> H'"
  moreover have "frame_ok H k f \<Longrightarrow> frame_ok H' k f" for f using \<open>H \<subseteq> H'\<close> by (cases f) (auto simp: frame_ok_def)
  ultimately show ?thesis unfolding conn_ok_def by blast
qed

lemma store_ok_change:
  assumes "server_ok C h (srv, H)" and "store_logged H' (srv\<lparr>store := s\<rparr>)" and "H \<subseteq> H'"
  shows "server_ok C h (srv\<lparr>store := s\<rparr>, H')"
proof -
  note D = server_okD [OF assms(1)]
  have w: "who (srv\<lparr>store := s\<rparr>) = who srv" by (rule who_conns) simp
  show ?thesis
    by (rule server_okI)
      (use D assms in \<open>auto simp: w intro: task_ok_mono conn_ok_mono\<close>)
qed

section \<open>Every step keeps the invariant\<close>

lemma pick_open: "snd (pick srv l) = Some c \<Longrightarrow> c \<in> set (senders l) \<and> chan_open srv c"
proof -
  assume p: "snd (pick srv l) = Some c"
  let ?live = "filter (chan_open srv) (senders l)"
  let ?even = "filter (\<lambda>c. load srv c = Min (set (map (load srv) ?live))) ?live"
  have ne: "?live \<noteq> []" using p by (auto simp: pick_def Let_def split: if_splits)
  then have "Min (set (map (load srv) ?live)) \<in> set (map (load srv) ?live)"
    by (intro Min_in) (auto simp: filter_empty_conv)
  then have "\<exists>c \<in> set ?live. load srv c = Min (set (map (load srv) ?live))" unfolding set_map by (metis imageE)
  then have "?even \<noteq> []" by (simp only: filter_empty_conv) blast
  then have "?even ! (l_next l mod length ?even) \<in> set ?even" by (intro nth_mem) simp
  moreover have "c = ?even ! (l_next l mod length ?even)" using p ne by (simp add: pick_def Let_def)
  ultimately show ?thesis by auto
qed

lemma pick_senders: "senders (fst (pick srv l)) = senders l" "l_cursor (fst (pick srv l)) = l_cursor l"
  by (simp_all add: pick_def Let_def)

lemma pick_for_facts:
  assumes "pick_for srv pk = (srv', r)"
  shows "store srv' = store srv \<and> conns srv' = conns srv \<and> tasks srv' = tasks srv \<and> cursors srv' = cursors srv \<and>
         next_cursor srv' = next_cursor srv \<and> closing srv' = closing srv"
    and "hm_get (connections srv') pk' = Some l' \<Longrightarrow>
           \<exists>l. hm_get (connections srv) pk' = Some l \<and> senders l' = senders l \<and> l_cursor l' = l_cursor l"
    and "r = Some d \<Longrightarrow> \<exists>l. hm_get (connections srv) pk = Some l \<and> d \<in> set (senders l) \<and> chan_open srv d"
proof -
  show "store srv' = store srv \<and> conns srv' = conns srv \<and> tasks srv' = tasks srv \<and> cursors srv' = cursors srv \<and>
         next_cursor srv' = next_cursor srv \<and> closing srv' = closing srv"
    using assms by (auto simp: pick_for_def split_beta split: option.splits)
  show "\<exists>l. hm_get (connections srv) pk' = Some l \<and> senders l' = senders l \<and> l_cursor l' = l_cursor l"
    if "hm_get (connections srv') pk' = Some l'"
    using assms that by (auto simp: pick_for_def split_beta pick_senders split: option.splits if_splits)
  show "\<exists>l. hm_get (connections srv) pk = Some l \<and> d \<in> set (senders l) \<and> chan_open srv d" if "r = Some d"
    using assms that pick_open by (fastforce simp: pick_for_def split_beta split: option.splits)
qed

lemma pick_for_ok:
  assumes "server_ok C h (srv, H)" and "pick_for srv pk = (srv', r)"
  shows "server_ok C h (srv', H)" and "who srv' = who srv" and "r = Some d \<Longrightarrow> who srv d = Some (pk, True)"
proof -
  note F = pick_for_facts [OF assms(2)]
  show "server_ok C h (srv', H)"
  proof (rule rest_ok [OF assms(1)])
    show "\<exists>l. hm_get (connections srv) pk' = Some l \<and> set (senders l') \<subseteq> set (senders l)"
      if "hm_get (connections srv') pk' = Some l'" for pk' l' using F(2) [OF that] by auto
  qed (use F(1) in auto)
  show "who srv' = who srv" by (rule who_conns) (use F(1) in blast)
  show "who srv d = Some (pk, True)" if "r = Some d"
  proof -
    obtain l where "hm_get (connections srv) pk = Some l" "d \<in> set (senders l)" "chan_open srv d" using F(3) [OF \<open>r = Some d\<close>] by blast
    with lanes_okD [OF server_okD(4) [OF assms(1)] this(1,2)] show ?thesis by (auto simp: chan_open_who)
  qed
qed

lemma add_task_ok:
  "server_ok C h (srv, H) \<Longrightarrow> task_ok H (who srv) t \<Longrightarrow> server_ok C h (srv\<lparr>tasks := tasks srv @ [t]\<rparr>, H)"
  using server_okD [of C h srv H] by (intro server_okI) (auto simp: store_logged_def who_tasks)

lemma pending_logged:
  assumes "store_logged H srv" and "(i, bl) \<in> set (pending_above (store srv) pk c)"
  shows "(i, pk, bl) \<in> H"
proof -
  let ?s = "store srv"
  have inv: "mail_inv (inner ?s)" using assms(1) by (simp add: store_logged_def store_ok_def)
  then have ib: "hm_get (inboxes (inner ?s)) pk = inbox_of (messages (inner ?s)) pk" by (simp add: mail_inv_def)
  from assms(2) obtain m where m: "i \<in> set (keys (mail_of pk (messages (inner ?s))))" "hm_get (messages (inner ?s)) i = Some m" "bl = blob m"
    by (auto simp: pending_above_def ib inbox_of_def set_map_filter dest!: in_set_takeD split: if_splits option.splits)
  then have "recipient m = pk" using mail_inv_get [OF inv] by auto
  with m assms(1) show ?thesis by (auto simp: store_logged_def dest: map_of_SomeD)
qed

lemma push_pending_ok:
  assumes "server_ok C h (srv, H)" and "\<forall>p \<in> set xs. dest_ok H (who srv) c p"
  shows "server_ok C h (push_pending c k xs srv, H) \<and> who (push_pending c k xs srv) = who srv"
  using assms
proof (induction c k xs srv rule: push_pending.induct)
  case (2 c k i bl rest srv)
  let ?s = "fst (claim_at k i srv)"
  have ok: "server_ok C h (?s, H)" by (rule claim_at_ok [OF "2.prems"(1)])
  have q: "server_ok C h (enqueue c (incoming i bl) ?s, H)"
    by (rule enqueue_ok [OF ok]) (use "2.prems"(2) in simp)
  show ?case
    using "2.IH"(1) [OF refl prod.collapse] "2.IH"(2) [OF refl prod.collapse] ok q "2.prems"(2)
    by (simp add: split_beta Let_def)
qed simp

lemma sweep_ok:
  assumes "server_ok C h (srv, H)" and "who srv c = Some (c_pk k, True)"
  shows "server_ok C h (sweep c k srv, H)"
  unfolding sweep_def
  by (rule push_pending_ok [THEN conjunct1, OF assms(1)])
    (use pending_logged [OF server_okD(1) [OF assms(1)]] assms(2) in \<open>auto intro: dest_okI\<close>)

lemma reply_ok:
  assumes "server_ok C h (srv, H)" and "\<And>k. frame_ok H k f"
  shows "server_ok C h (fst (reply c f wrote srv), H)"
  using assms by (simp add: reply_def write_ok)

lemma reply_who [simp]: "who (fst (reply c f wrote srv)) = who srv"
  by (simp add: reply_def)

lemma deposit_logged:
  assumes "store_logged H srv" and "deposit (store srv) to bl now = Some (Inr (i, s'))"
  shows "store_logged (H \<union> {(i, to, bl)}) (srv\<lparr>store := s'\<rparr>)"
proof -
  have ok: "store_ok (store srv)" using assms(1) by (simp add: store_logged_def)
  from deposit_ok [OF ok assms(2)] deposit_kept [OF ok assms(2)] assms(1)
  show ?thesis by (auto simp: store_logged_def)
qed

text \<open>The state after an accepted deposit, before the task that delivers it.\<close>

definition answered :: "nat \<Rightarrow> nat \<Rightarrow> bytes \<Rightarrow> bool \<Rightarrow> Server \<times> nat option \<Rightarrow> Server \<times> bool" where
  "answered c i to wrote p =
     reply c (Deposited i) wrote
       (case snd p of None \<Rightarrow> fst p | Some _ \<Rightarrow> fst (claim_at (l_cursor (the (hm_get (connections (fst p)) to))) i (fst p)))"

lemma on_send_split:
  assumes "deposit (store srv) to bl now = Some (Inr (i, s'))" and "on_send c to bl now wrote srv = Some r"
    and "pick_for (srv\<lparr>store := s'\<rparr>) to = p"
  shows "fst r = fst (answered c i to wrote p) \<or>
         (\<exists>d. snd p = Some d \<and>
            fst r = (fst (answered c i to wrote p))\<lparr>tasks := tasks (fst (answered c i to wrote p)) @ [Deliver d (Some to) (incoming i bl)]\<rparr>)"
  using assms unfolding answered_def
  by (cases p) (auto simp: on_send_def Let_def split: option.splits prod.splits if_splits, (metis fst_conv)+)

lemma on_send_ok:
  assumes "server_ok C h (srv, H)" and "on_send c to bl now wrote srv = Some r"
  shows "server_ok C h (fst r, H \<union> deposited_by (Send to bl) srv now)"
proof (cases "deposit (store srv) to bl now")
  case None
  then show ?thesis using assms(2) by (simp add: on_send_def)
next
  case (Some d)
  show ?thesis
  proof (cases d)
    case (Inl e)
    with Some assms show ?thesis
      by (auto simp: on_send_def deposited_by_def reply_ok frame_ok_def)
  next
    case (Inr p)
    obtain i s' where p: "p = (i, s')" by (cases p)
    let ?H = "H \<union> {(i, to, bl)}"
    have dep: "deposit (store srv) to bl now = Some (Inr (i, s'))" using Some Inr p by simp
    have ok0: "server_ok C h (srv\<lparr>store := s'\<rparr>, ?H)"
      by (rule store_ok_change [OF assms(1) deposit_logged [OF server_okD(1) [OF assms(1)] dep]]) auto
    obtain srv1 lane where pk: "pick_for (srv\<lparr>store := s'\<rparr>) to = (srv1, lane)" by (cases "pick_for (srv\<lparr>store := s'\<rparr>) to")
    note P = pick_for_ok [OF ok0 pk]
    let ?srv2 = "case lane of None \<Rightarrow> srv1 | Some _ \<Rightarrow> fst (claim_at (l_cursor (the (hm_get (connections srv1) to))) i srv1)"
    have ok2: "server_ok C h (?srv2, ?H)" "who ?srv2 = who (srv\<lparr>store := s'\<rparr>)"
      using P(1,2) by (simp_all add: claim_at_ok split: option.split)
    let ?r = "reply c (Deposited i) wrote ?srv2"
    have ok3: "server_ok C h (fst ?r, ?H)" by (rule reply_ok [OF ok2(1)]) (simp add: frame_ok_def)
    have w3: "who (fst ?r) = who (srv\<lparr>store := s'\<rparr>)" by (simp add: ok2(2))
    have task: "task_ok ?H (who (fst ?r)) (Deliver d' (Some to) (incoming i bl))" if "lane = Some d'" for d'
      unfolding w3 using P(3) [OF that] by (auto simp: dest_ok_def)
    have "answered c i to wrote (srv1, lane) = ?r" unfolding answered_def fst_conv snd_conv ..
    then have "fst r = fst ?r \<or> (\<exists>d'. lane = Some d' \<and> fst r = (fst ?r)\<lparr>tasks := tasks (fst ?r) @ [Deliver d' (Some to) (incoming i bl)]\<rparr>)"
      using on_send_split [OF dep assms(2) pk] by simp
    with ok3 task add_task_ok [OF ok3] show ?thesis
      by (auto simp: deposited_by_def dep)
  qed
qed

lemma on_ack_ok:
  assumes "server_ok C h (srv, H)" and "hm_get (conns srv) c = Some k" and "c_owner k"
  shows "server_ok C h (on_ack c k i srv, H)"
proof -
  let ?srv1 = "srv\<lparr>store := fst (ack (store srv) (c_pk k) i)\<rparr>"
  let ?f = "\<lambda>k. k\<lparr>c_given := filter (\<lambda>x. x \<noteq> i) (c_given k), c_unacked := c_unacked k - 1\<rparr>"
  let ?srv2 = "if i \<in> set (c_given k) then modify_conn c ?f ?srv1 else ?srv1"
  let ?srv3 = "?srv2\<lparr>cursors := (cursors ?srv2)(c_cursor k := acked (cursors ?srv2 (c_cursor k)) i)\<rparr>"
  have log: "store_logged H srv" by (rule server_okD(1) [OF assms(1)])
  then have ok: "store_ok (store srv)" by (simp add: store_logged_def)
  have "store_logged H ?srv1"
    using log store_ok_ack [OF ok] by (auto simp: store_logged_def ack_refines(1) [OF ok])
  then have 1: "server_ok C h (?srv1, H)" by (rule store_ok_change [OF assms(1)]) simp
  have "server_ok C h (modify_conn c ?f ?srv1, H)"
    by (rule modify_ok [OF 1]) (simp_all add: conn_ok_def)
  with 1 have 2: "server_ok C h (?srv2, H)" by simp
  then have 3: "server_ok C h (?srv3, H)" by (rule rest_ok) auto
  have "who ?srv3 = who ?srv2" by (rule who_conns) simp
  also have "\<dots> = who ?srv1" by simp
  also have "\<dots> = who srv" by (rule who_conns) simp
  finally have "who ?srv3 c = Some (c_pk k, True)" using assms(2,3) by (simp add: who_def)
  from sweep_ok [OF 3 this] show ?thesis by (simp add: on_ack_def Let_def)
qed

lemma on_leave_ok:
  assumes "server_ok C h (srv, H)"
  shows "server_ok C h (on_leave c srv, H)"
proof (cases "hm_get (conns srv) c")
  case None
  with assms show ?thesis by (simp add: on_leave_def)
next
  case (Some k)
  note D = server_okD [OF assms]
  have w: "who srv' d = (if d = c then None else who srv d)" if "conns srv' = hm_remove c (conns srv)" for srv' d
    using that by (simp add: who_def)
  have t: "task_ok H w' t" if "task_ok H (who srv) t" "\<And>d. w' d = (if d = c then None else who srv d)" for w' t
    using that by (cases t) (auto simp: dest_ok_def)
  have l: "lanes_ok w' (connections srv)" if "\<And>d. w' d = (if d = c then None else who srv d)" for w'
    using D(4) that by (simp add: lanes_ok_def)
  show ?thesis
  proof (rule server_okI)
    have cs: "conns (on_leave c srv) = hm_remove c (conns srv)" using Some by (simp add: on_leave_def)
    have "connections (on_leave c srv) = connections srv" using Some by (simp add: on_leave_def)
    then show "lanes_ok (who (on_leave c srv)) (connections (on_leave c srv))"
      using l [of "who (on_leave c srv)", OF w [OF cs]] by simp
    show "task_ok H (who (on_leave c srv)) x" if "x \<in> set (tasks (on_leave c srv))" for x
    proof (rule t [OF D(5) w [OF cs]])
      show "x \<in> set (tasks srv)" using that Some by (auto simp: on_leave_def split: if_splits)
    qed
    show "store_logged H (on_leave c srv)" using Some D(1) by (simp add: on_leave_def store_logged_def)
    show "distinct (keys (conns (on_leave c srv)))" unfolding cs using D(2) by simp
    show "conn_ok C h H k" if "hm_get (conns (on_leave c srv)) d = Some k" for d k
      using that D(3) unfolding cs by (simp split: if_splits)
  qed
qed

lemma after_turn_ok:
  "server_ok C h (fst r, H) \<Longrightarrow> server_ok C h (after_turn c r, H)"
  by (simp add: after_turn_def split_beta on_leave_ok)

lemma not_incoming [simp]:
  "frame_ok H k (Error e)" "frame_ok H k (Bundle pk b)" "frame_ok H k Pong" "frame_ok H k AuthOk"
  by (simp_all add: frame_ok_def)

lemma on_frame_ok:
  assumes "server_ok C h (srv, H)" and "hm_get (conns srv) c = Some k" and "on_frame c f now wrote srv = Some r"
  shows "server_ok C h (fst r, H \<union> deposited_by f srv now)"
proof -
  note r = assms(3) [unfolded on_frame_def assms(2) option.case]
  have log: "store_logged H srv" by (rule server_okD(1) [OF assms(1)])
  show ?thesis
  proof (cases f)
    case (Publish b)
    have "server_ok C h (srv\<lparr>store := s'\<rparr>, H)" if "store_bundle (store srv) (c_pk k) b now = Inr s'" for s'
      by (rule store_ok_change [OF assms(1)])
        (use log store_bundle_ok [OF _ that] in \<open>auto simp: store_logged_def\<close>)
    with r Publish assms(1) show ?thesis
      by (auto simp: deposited_by_def reply_ok split: if_splits sum.splits)
  next
    case (Send to bl)
    with r show ?thesis using on_send_ok [OF assms(1)] by simp
  next
    case (Ack i)
    with r on_ack_ok [OF assms(1,2)] assms(1) show ?thesis by (auto simp: deposited_by_def reply_ok split: if_splits)
  qed (use r assms(1) in \<open>auto simp: deposited_by_def reply_ok\<close>)
qed

lemma on_push_ok:
  assumes "server_ok C h (srv, H)"
  shows "server_ok C h (fst (on_push c wrote srv), H)"
proof (cases "hm_get (conns srv) c")
  case None
  with assms show ?thesis by (simp add: on_push_def)
next
  case (Some k)
  show ?thesis
  proof (cases "c_queue k")
    case Nil
    with Some assms show ?thesis by (simp add: on_push_def)
  next
    case (Cons msg rest)
    let ?q = "\<lambda>k. k\<lparr>c_queue := rest\<rparr>"
    let ?srv1 = "modify_conn c ?q srv"
    have k: "conn_ok C h H k" by (rule server_okD(3) [OF assms Some])
    have 1: "server_ok C h (?srv1, H)"
      by (rule modify_ok [OF assms]) (use Some Cons in \<open>auto simp: conn_ok_def\<close>)
    let ?g = "\<lambda>i k. k\<lparr>c_given := i # c_given k, c_unacked := c_unacked k + 1\<rparr>"
    let ?srv2 = "case msg of
                   Incoming i _ _ \<Rightarrow>
                     (let srv' = fst (claim_at (c_cursor k) i ?srv1)
                      in if i \<in> set (c_given k) then srv' else modify_conn c (?g i) srv')
                 | _ \<Rightarrow> ?srv1"
    have "server_ok C h (modify_conn c (?g i) (fst (claim_at (c_cursor k) i ?srv1)), H)" for i
      by (rule modify_ok [OF claim_at_ok [OF 1]]) (simp_all add: conn_ok_def)
    then have 2: "server_ok C h (?srv2, H)"
      using 1 by (cases msg) (simp_all add: claim_at_ok Let_def)
    have w: "who ?srv2 = who srv" by (cases msg) (simp_all add: Let_def)
    have "frame_ok H k' msg" if "hm_get (conns ?srv2) c = Some k'" for k'
    proof -
      have "who srv c = Some (c_pk k', c_owner k')" unfolding w [symmetric] using that by (simp add: who_def)
      then have "c_pk k' = c_pk k" "c_owner k' = c_owner k" using Some by (simp_all add: who_def)
      moreover have "frame_ok H k msg" using k Cons by (simp add: conn_ok_def)
      ultimately show ?thesis by (cases msg) (simp_all add: frame_ok_def)
    qed
    from write_ok [OF 2 this] 2 have "server_ok C h (fst (reply c msg wrote ?srv2), H)" by (simp add: reply_def)
    moreover have "on_push c wrote srv = reply c msg wrote ?srv2" using Some Cons by (simp add: on_push_def Let_def)
    ultimately show ?thesis by simp
  qed
qed

lemma on_tick_ok:
  assumes "server_ok C h (srv, H)"
  shows "server_ok C h (on_tick c srv, H)"
proof (cases "\<exists>k l. hm_get (conns srv) c = Some k \<and> hm_get (connections srv) (c_pk k) = Some l \<and> is_first srv l c")
  case True
  then obtain k l where k: "hm_get (conns srv) c = Some k" "hm_get (connections srv) (c_pk k) = Some l" "is_first srv l c" by blast
  then have "c \<in> set (senders l)"
    by (auto simp: is_first_def filter_eq_Cons_iff split: list.splits)
  from lanes_okD [OF server_okD(4) [OF assms] k(2) this] k(1) have "who srv c = Some (c_pk k, True)" by (simp add: who_def)
  from sweep_ok [OF assms this] k show ?thesis by (simp add: on_tick_def)
next
  case False
  with assms show ?thesis by (auto simp: on_tick_def split: option.splits)
qed

lemma run_task_ok:
  assumes "server_ok C h (srv, H)" and "task_ok H (who srv) t" and "run_task t srv = (srv', r)"
  shows "server_ok C h (srv', H) \<and> who srv' = who srv \<and> tasks srv' = tasks srv \<and> (\<forall>t'. r = Some t' \<longrightarrow> task_ok H (who srv) t')"
proof (cases t)
  case (InitialStart c pk k)
  have "dest_ok H (who srv) c (i, bl)" if "(i, bl) \<in> set (pending_above (store srv) pk 0)" for i bl
    by (rule dest_okI [of _ _ pk]) (use assms(2) InitialStart pending_logged [OF server_okD(1) [OF assms(1)] that] in auto)
  then show ?thesis using assms InitialStart by (auto simp: run_task_def)
next
  case (Initial c k todo)
  have tk: "tasks (fst (claim_at k i srv)) = tasks srv" for i by (simp add: claim_at_def split_beta)
  show ?thesis
    using assms claim_at_ok [OF assms(1)] claim_at_who tk unfolding Initial run_task_def
    by (cases todo) (auto simp: split_beta)
next
  case (InitialSend c k i bl todo)
  have tk: "tasks (enqueue c f srv) = tasks srv" for f by (simp add: enqueue_def modify_conn_def)
  show ?thesis
    using assms enqueue_ok [OF assms(1)] tk unfolding InitialSend run_task_def
    by (auto split: if_splits)
next
  case (Deliver d to msg)
  then obtain i bl where m: "msg = incoming i bl" "dest_ok H (who srv) d (i, bl)" "\<And>pk. to = Some pk \<Longrightarrow> (i, pk, bl) \<in> H"
    using assms(2) by auto
  have tk: "tasks (enqueue d f srv) = tasks srv" for f by (simp add: enqueue_def modify_conn_def)
  show ?thesis
  proof (cases "chan_open srv d \<or> to = None")
    case True
    then show ?thesis
      using assms enqueue_ok [OF assms(1) m(2)] tk m(1) unfolding Deliver run_task_def
      by (auto split: if_splits option.splits)
  next
    case False
    then obtain pk where pk: "to = Some pk" by auto
    obtain s1 lane where p: "pick_for srv pk = (s1, lane)" by (cases "pick_for srv pk")
    note P = pick_for_ok [OF assms(1) p]
    have "tasks s1 = tasks srv" using pick_for_facts(1) [OF p] by simp
    moreover have "task_ok H (who srv) (Deliver d' None msg)" if "lane = Some d'" for d'
      using P(3) [OF that] m pk by (auto simp: dest_ok_def)
    moreover have "srv' = s1" "r = map_option (\<lambda>d'. Deliver d' None msg) lane"
      using assms(3) False pk p by (simp_all add: Deliver run_task_def)
    ultimately show ?thesis using P(1,2) by auto
  qed
qed

lemma tasks_subset_ok:
  assumes "server_ok C h (srv, H)" and "\<And>t. t \<in> set ts \<Longrightarrow> task_ok H (who srv) t"
  shows "server_ok C h (srv\<lparr>tasks := ts\<rparr>, H)"
  using server_okD [OF assms(1)] assms(2) by (intro server_okI) (auto simp: store_logged_def)

lemma step_task_ok:
  assumes "server_ok C h (srv, H)"
  shows "server_ok C h (step_task n srv, H)"
proof (cases "n < length (tasks srv)")
  case True
  obtain srv' r where r: "run_task (tasks srv ! n) srv = (srv', r)" by (cases "run_task (tasks srv ! n) srv")
  have t: "task_ok H (who srv) (tasks srv ! n)" using True server_okD(5) [OF assms] by simp
  note R = run_task_ok [OF assms t r]
  have "\<forall>t \<in> set (case r of Some t' \<Rightarrow> (tasks srv)[n := t'] | None \<Rightarrow> take n (tasks srv) @ drop (Suc n) (tasks srv)). task_ok H (who srv) t"
    using R server_okD(5) [OF assms] by (auto dest!: in_set_takeD in_set_dropD subsetD [OF set_update_subset_insert] split: option.splits)
  with R have "server_ok C h (srv'\<lparr>tasks := (case r of Some t' \<Rightarrow> (tasks srv)[n := t'] | None \<Rightarrow> take n (tasks srv) @ drop (Suc n) (tasks srv))\<rparr>, H)"
    by (intro tasks_subset_ok) auto
  moreover have "step_task n srv = srv'\<lparr>tasks := (case r of Some t' \<Rightarrow> (tasks srv)[n := t'] | None \<Rightarrow> take n (tasks srv) @ drop (Suc n) (tasks srv))\<rparr>"
    using True r R by (simp add: step_task_def split: option.split)
  ultimately show ?thesis by simp
qed (use assms in \<open>simp add: step_task_def\<close>)

lemma redeal_ok:
  assumes "server_ok C h (srv, H)" and "\<forall>(i, bl) \<in> set xs. (i, pk, bl) \<in> H"
  shows "server_ok C h (redeal pk xs given srv, H)"
  using assms
proof (induction pk xs given srv rule: redeal.induct)
  case (2 pk i bl pending given srv)
  obtain s1 lane where p: "pick_for srv pk = (s1, lane)" by (cases "pick_for srv pk")
  note P = pick_for_ok [OF "2.prems"(1) p]
  have q: "server_ok C h (s1\<lparr>tasks := tasks s1 @ [Deliver d None (incoming i bl)]\<rparr>, H)" if "lane = Some d" for d
    by (rule add_task_ok [OF P(1)]) (use P(2) P(3) [OF that] "2.prems"(2) in \<open>auto simp: dest_ok_def\<close>)
  show ?case
    using "2.IH"(1) [OF _ p [symmetric]] "2.IH"(2) "2.prems" P(1) q p
    by (auto split: option.splits)
qed simp

lemma on_unregister_ok:
  assumes "server_ok C h (srv, H)"
  shows "server_ok C h (on_unregister srv, H)"
proof (cases "closing srv")
  case Nil
  with assms show ?thesis by (simp add: on_unregister_def)
next
  case (Cons x rest)
  obtain c pk given where x: "x = (c, pk, given)" by (cases x)
  let ?srv1 = "srv\<lparr>closing := rest\<rparr>"
  have 1: "server_ok C h (?srv1, H)" by (rule rest_ok [OF assms]) auto
  show ?thesis
  proof (cases "hm_get (connections srv) pk")
    case None
    with 1 Cons x show ?thesis by (simp add: on_unregister_def)
  next
    case (Some l)
    let ?live = "filter (\<lambda>d. d \<noteq> c \<and> chan_open ?srv1 d) (senders l)"
    let ?srv2 = "?srv1\<lparr>connections := hm_insert pk (l\<lparr>senders := ?live\<rparr>) (connections ?srv1)\<rparr>"
    have "server_ok C h (?srv1\<lparr>connections := hm_remove pk (connections ?srv1)\<rparr>, H)"
      by (rule rest_ok [OF 1]) (auto split: if_splits)
    moreover have 2: "server_ok C h (?srv2, H)"
      by (rule rest_ok [OF 1]) (use Some in \<open>auto split: if_splits\<close>)
    moreover have "server_ok C h (redeal pk (pending_above (store ?srv1) pk 0) given ?srv2, H)"
      by (rule redeal_ok [OF 2]) (use pending_logged [OF server_okD(1) [OF assms]] in auto)
    ultimately show ?thesis using Cons x Some by (simp add: on_unregister_def Let_def)
  qed
qed

lemma on_abort_ok:
  assumes "server_ok C h (srv, H)"
  shows "server_ok C h (on_abort c srv, H)"
proof -
  note D = server_okD [OF assms]
  have w: "who (on_abort c srv) d = (if d = c then None else who srv d)" for d by (simp add: who_def on_abort_def)
  have t: "task_ok H (who (on_abort c srv)) t" if "task_ok H (who srv) t" for t
    using that by (cases t) (auto simp: dest_ok_def w)
  show ?thesis
  proof (rule server_okI)
    show "lanes_ok (who (on_abort c srv)) (connections (on_abort c srv))"
      using D(4) by (simp add: lanes_ok_def w) (simp add: on_abort_def)
    show "task_ok H (who (on_abort c srv)) x" if "x \<in> set (tasks (on_abort c srv))" for x
      by (rule t [OF D(5)]) (use that in \<open>simp add: on_abort_def\<close>)
  qed (use D(1-3) in \<open>auto simp: on_abort_def store_logged_def split: if_splits\<close>)
qed

lemma enter_ok:
  assumes "server_ok C h (srv, H)" and "fresh_conn c srv" and "who srv' = (who srv)(c := Some (pk, own))"
    and "store srv' = store srv" and "conns srv' = (c, new_conn pk own k) # conns srv"
    and "own \<longrightarrow> (\<exists>ch sig. Ed_verify C pk (auth_v2_message h ch) sig)"
    and "lanes_ok (who srv') (connections srv')"
    and "\<And>t. t \<in> set (tasks srv') \<Longrightarrow> t \<in> set (tasks srv) \<or> t = InitialStart c pk k \<and> own"
  shows "server_ok C h (srv', H)"
proof -
  note D = server_okD [OF assms(1)]
  have t: "task_ok H (who srv') t" if "t \<in> set (tasks srv)" for t
    using D(5) [OF that] that assms(2,3)
    by (cases t) (force simp: dest_ok_def fresh_conn_def task_conns_def)+
  show ?thesis
  proof (rule server_okI)
    show "conn_ok C h H k'" if "hm_get (conns srv') d = Some k'" for d k'
    proof (cases "d = c")
      case True
      then have "k' = new_conn pk own k" using that by (simp add: assms(5))
      then show ?thesis using assms(6) by (simp add: conn_ok_def new_conn_def)
    next
      case False
      then show ?thesis using that D(3) by (simp add: assms(5))
    qed
    show "task_ok H (who srv') x" if "x \<in> set (tasks srv')" for x
      using assms(8) [OF that] t by (auto simp: assms(3))
    show "distinct (keys (conns srv'))" using D(2) assms(2) by (simp add: assms(5) fresh_conn_def)
  qed (use D assms in \<open>auto simp: store_logged_def\<close>)
qed

lemma fresh_lanes:
  assumes "lanes_ok (who srv) (connections srv)" and "fresh_conn c srv"
  shows "lanes_ok ((who srv)(c := x)) (connections srv)"
  using assms by (force simp: lanes_ok_def fresh_conn_def dest: map_of_SomeD)

lemma enter_guest_ok:
  assumes "server_ok C h (srv, H)" and "fresh_conn c srv"
  shows "server_ok C h (enter_guest c pk srv, H)"
  unfolding enter_guest_def
proof (rule write_ok)
  let ?s = "srv\<lparr>conns := (c, new_conn pk False (next_cursor srv)) # conns srv,
            cursors := (cursors srv)(next_cursor srv := new_pushed), next_cursor := next_cursor srv + 1\<rparr>"
  have w: "who ?s = (who srv)(c := Some (pk, False))" by (auto simp: who_def new_conn_def fun_eq_iff)
  have "lanes_ok (who ?s) (connections ?s)"
    unfolding w using fresh_lanes [OF server_okD(4) [OF assms(1)] assms(2)] by simp
  then show "server_ok C h (?s, H)" by (intro enter_ok [OF assms w]) auto
qed simp

lemma enter_owner_ok:
  assumes "server_ok C h (srv, H)" and "fresh_conn c srv" and "Ed_verify C pk (auth_v2_message h ch) sig"
  shows "server_ok C h (enter_owner c pk srv, H)"
proof -
  note D = server_okD [OF assms(1)]
  define l0 where "l0 = (case hm_get (connections srv) pk of
                  Some l \<Rightarrow> l | None \<Rightarrow> \<lparr>senders = [], l_next = 0, l_cursor = next_cursor srv\<rparr>)"
  define live where "live = filter (chan_open srv) (senders l0)"
  define k where "k = (if live = [] then next_cursor srv else l_cursor l0)"
  let ?s = "srv\<lparr>conns := (c, new_conn pk True k) # conns srv,
                connections := hm_insert pk (l0\<lparr>senders := live @ [c], l_cursor := k\<rparr>) (connections srv),
                cursors := (if live = [] then (cursors srv)(next_cursor srv := new_pushed) else cursors srv),
                next_cursor := (if live = [] then next_cursor srv + 1 else next_cursor srv),
                tasks := (if live = [] then tasks srv @ [InitialStart c pk k] else tasks srv)\<rparr>"
  have w: "who ?s = (who srv)(c := Some (pk, True))" by (auto simp: who_def new_conn_def fun_eq_iff)
  have old: "lanes_ok ((who srv)(c := Some (pk, True))) (connections srv)" by (rule fresh_lanes [OF D(4) assms(2)])
  have "x \<in> set live \<Longrightarrow> \<exists>l. hm_get (connections srv) pk = Some l \<and> x \<in> set (senders l)" for x
    by (auto simp: live_def l0_def split: option.splits)
  with lanes_okD [OF old] have own: "x \<in> set live \<Longrightarrow> ((who srv)(c := Some (pk, True))) x \<in> {None, Some (pk, True)}" for x
    by blast
  then have "lanes_ok ((who srv)(c := Some (pk, True))) (hm_insert pk (l0\<lparr>senders := live @ [c], l_cursor := k\<rparr>) (connections srv))"
    using lanes_okD [OF old] own unfolding lanes_ok_def hm_get_insert by (auto simp del: fun_upd_apply split: if_splits) simp
  then have "lanes_ok (who ?s) (connections ?s)" unfolding w by simp
  then have "server_ok C h (?s, H)"
    by (intro enter_ok [OF assms(1,2) w]) (use assms(3) in \<open>auto split: if_splits\<close>)
  from write_ok [OF this, of c AuthOk] show ?thesis
    unfolding enter_owner_def Let_def l0_def [symmetric] live_def [symmetric] k_def [symmetric] by simp
qed

lemma server_step_ok:
  assumes "relay_step C h s s'" and "server_ok C h s"
  shows "server_ok C h s'"
  using assms
proof (induction rule: relay_step.induct)
  case (owner ch f pk c srv H)
  then obtain sig where "Ed_verify C pk (auth_v2_message h ch) sig"
    by (auto simp: authenticate_def Let_def split: ClientToRelay.splits if_splits)
  with owner show ?case by (intro enter_owner_ok)
next
  case (frame srv c f now wrote r H)
  then obtain k where "hm_get (conns srv) c = Some k" by (auto simp: chan_open_def)
  with frame show ?case by (intro after_turn_ok on_frame_ok)
next
  case (claim_owner srv H own)
  then show ?case using server_okD(1) [OF claim_owner]
    by (intro store_ok_change) (auto simp: store_logged_def claim_store_def store_ok_def)
next
  case (gc srv H now)
  then show ?case using server_okD(1) [OF gc] gc_refines [of "store srv" now]
    by (intro store_ok_change) (auto simp: store_logged_def dest: set_dropWhileD)
qed (auto intro: enter_guest_ok after_turn_ok on_push_ok on_tick_ok step_task_ok on_leave_ok on_unregister_ok on_abort_ok)

lemma server_reach_ok:
  assumes "relay_reach C h s"
  shows "server_ok C h s"
proof -
  have new: "server_ok C h (new_server st, {})" if "store_ok st" "messages (inner st) = []" for st
    using that by (intro server_okI) (auto simp: new_server_def store_logged_def lanes_ok_def)
  have "messages (inner (new_store lim)) = []" "messages (inner (unclaimed lim)) = []" for lim
    by (simp_all add: unclaimed_def new_store_def empty_inner_def)
  moreover have "(relay_step C h)\<^sup>*\<^sup>* a s \<Longrightarrow> server_ok C h a \<Longrightarrow> server_ok C h s" for a
    by (induction rule: rtranclp_induct) (auto intro: server_step_ok)
  ultimately show ?thesis using assms new unfolding relay_reach_def by (metis store_ok_new store_ok_unclaimed)
qed

section \<open>Properties\<close>

text \<open>
  C5. Mail reaches its recipient alone. In every state the relay can get to, whatever clients
  send, whichever writes fail and in whatever order its tasks run: a message written to a
  connection, or waiting to be, was deposited for the key that connection logged in with, and that
  login was signed for this very relay (\<open>AuthV2\<close>); a login without it is given no mail at all.
\<close>

theorem mail_privacy:
  assumes "relay_reach C h (srv, H)" and "hm_get (conns srv) c = Some k"
    and "Incoming i from bl \<in> set (c_out k) \<union> set (c_queue k)"
  shows "c_owner k \<and> (i, c_pk k, bl) \<in> H \<and> (\<exists>ch sig. Ed_verify C (c_pk k) (auth_v2_message h ch) sig)"
proof -
  have "conn_ok C h H k" by (rule server_okD(3) [OF server_reach_ok [OF assms(1)] assms(2)])
  then show ?thesis using assms(3) by (force simp: conn_ok_def frame_ok_def)
qed

lemma store_reply [simp]: "store (fst (reply c f wrote srv)) = store srv"
  by (simp add: reply_def write_to_def modify_conn_def)

lemma reply_storeD: "reply c f wrote srv = (srv', go) \<Longrightarrow> store srv' = store srv"
  using store_reply [of c f wrote srv] by simp

lemma store_push_pending [simp]: "store (push_pending c j xs srv) = store srv"
  by (induction c j xs srv rule: push_pending.induct)
    (auto simp: Let_def split_beta claim_at_def enqueue_def modify_conn_def)

lemma store_on_ack: "store (on_ack c k i srv) = fst (ack (store srv) (c_pk k) i)"
  by (simp add: on_ack_def sweep_def Let_def modify_conn_def)

lemma store_on_send:
  assumes "deposit (store srv) to bl now = Some (Inr (i, s'))" and "on_send c to bl now wrote srv = Some r"
  shows "store (fst r) = s'"
proof -
  obtain s1 lane where p: "pick_for (srv\<lparr>store := s'\<rparr>) to = (s1, lane)" by (cases "pick_for (srv\<lparr>store := s'\<rparr>) to")
  then have "store s1 = s'" using pick_for_facts(1) by fastforce
  then have "store (fst (answered c i to wrote (s1, lane))) = s'"
    unfolding answered_def store_reply by (simp add: claim_at_def split_beta split: option.split)
  with on_send_split [OF assms p] show ?thesis by auto
qed

lemma on_send_refused:
  assumes "on_send c to bl now wrote srv = Some r" and "\<And>i s'. deposit (store srv) to bl now \<noteq> Some (Inr (i, s'))"
  shows "store (fst r) = store srv"
  using assms by (auto simp: on_send_def split: option.splits sum.splits)

lemma deposit_other_boxes:
  assumes "store_ok s" and "deposit s to bl now = Some (Inr (i, s'))" and "r \<noteq> to"
    and "mail_len (messages (inner s)) + length bl \<le> max_total_bytes (limits s)"
  shows "box_of s' r = box_of s r"
proof -
  have sv: "serves s to" "length bl \<le> max_recipient_bytes (limits s)"
    using assms(2) by (auto simp: deposit_def split: if_splits)
  obtain s1 where d: "deposit s to bl now = Some (Inr (Suc (next_id (inner s)), s1))"
    "messages (inner s1) = spec_evict_mail (max_total_bytes (limits s))
       (spec_evict_inbox (max_recipient_bytes (limits s)) to (messages (inner s) @ [new_mail s to bl now]))"
    by (rule deposit_refines [OF assms(1) sv])
  have "mail_of r (messages (inner s1)) = mail_of r (messages (inner s))"
    unfolding d(2) by (rule evict_other [OF assms(4,3)])
  then show ?thesis using d(1) assms(2) by (simp add: box_of_def)
qed

text \<open>
  Who may take mail away: a frame of a client that removes a message of another recipient from
  the store is a deposit that passed the total budget (which evicts the oldest), never an
  acknowledgement; and a client that did not log in with \<open>AuthV2\<close> can neither acknowledge nor
  publish.
\<close>

theorem frame_store_contract:
  assumes "relay_reach C h (srv, H)" and "hm_get (conns srv) c = Some k"
    and "on_frame c f now wrote srv = Some (srv', go)"
  shows "(\<forall>r. r \<noteq> c_pk k \<longrightarrow> box_of (store srv') r = box_of (store srv) r \<or> (\<exists>to bl. f = Send to bl)) \<and>
         (\<not> c_owner k \<longrightarrow> store srv' = store srv \<or> (\<exists>to bl. f = Send to bl)) \<and>
         (\<forall>to bl r. f = Send to bl \<longrightarrow> r \<noteq> to \<longrightarrow>
            mail_len (messages (inner (store srv))) + length bl \<le> max_total_bytes (limits (store srv)) \<longrightarrow>
            box_of (store srv') r = box_of (store srv) r)"
proof -
  have ok: "store_ok (store srv)" using server_okD(1) [OF server_reach_ok [OF assms(1)]] by (simp add: store_logged_def)
  note r = assms(3) [unfolded on_frame_def assms(2) option.case]
  show ?thesis
  proof (cases f)
    case (Send to bl)
    have e: "on_send c to bl now wrote srv = Some (srv', go)" using r Send by simp
    show ?thesis
      using Send store_on_send [OF _ e] on_send_refused [OF e] deposit_other_boxes [OF ok]
      by (metis ClientToRelay.inject(4) fst_conv)
  next
    case (Ack i)
    then show ?thesis
      using r mem_box.ack_box [OF ok, of "c_pk k" i] store_on_ack [of c k i srv]
      by (auto split: if_splits dest: reply_storeD)
  next
    case (Publish b)
    have "box_of s' r = box_of (store srv) r" if "store_bundle (store srv) (c_pk k) b now = Inr s'" for s' r
      using store_bundle_ok [OF ok that] by (simp add: box_of_def)
    then show ?thesis
      using r Publish by (auto split: if_splits sum.splits dest: reply_storeD)
  qed (use r in \<open>auto dest: reply_storeD\<close>)
qed

text \<open>
  A message whose depositor hangs up before the answer is written is left behind: it is marked
  as handed to the recipient who is online, yet no task and no channel holds it, and no later sweep
  of a mailbox from a cursor at or above its mark (what an acknowledgement and the periodic tick
  do, and the mark never goes down) will find it.
\<close>

theorem unanswered_deposit_stranded:
  assumes "relay_reach C h (srv, H)" and "deposit (store srv) to bl now = Some (Inr (i, s'))"
    and "pick_for (srv\<lparr>store := s'\<rparr>) to = (srv1, Some d)" and "hm_get (connections srv) to = Some l"
    and "on_send c to bl now False srv = Some (srv', go)"
  shows "\<not> go \<and> (i, bl) \<in> set (box_of (store srv') to) \<and> chan_open srv' d \<and>
         tasks srv' = tasks srv \<and> conns srv' = conns srv \<and>
         i \<le> high (cursors srv' (l_cursor l)) \<and> (\<forall>p j. high p \<le> high (fst (claim p j)) \<and> high (acked p j) = high p) \<and>
         (\<forall>s2 m. store_ok s2 \<and> i \<le> m \<and> m < 2 ^ 64 - 1 \<longrightarrow> i \<notin> fst ` set (pending_above s2 to m))"
proof -
  have ok: "store_ok (store srv)" using server_okD(1) [OF server_reach_ok [OF assms(1)]] by (simp add: store_logged_def)
  note P = pick_for_facts [OF assms(3)]
  obtain l1 where l1: "hm_get (connections srv1) to = Some l1" "l_cursor l1 = l_cursor l"
    using assms(3,4) by (auto simp: pick_for_def split_beta pick_senders)
  have s: "srv' = fst (claim_at (l_cursor l) i srv1)" "\<not> go"
    using assms(2,3,5) l1 by (auto simp: on_send_def reply_def Let_def split: prod.splits option.splits if_splits)
  have "(i, bl) \<in> set (box_of s' to)" using mem_box.dep_box [OF ok assms(2)] by auto
  moreover have "i \<notin> fst ` set (pending_above s2 to m)" if "store_ok s2" "i \<le> m" "m < 2 ^ 64 - 1" for s2 m
    using that(2) by (auto simp: pending_above_refines [OF that(1,3)] dest!: in_set_takeD)
  ultimately show ?thesis
    using s P(1) P(3) [OF refl] by (auto simp: claim_at_def claim_def acked_def split_beta chan_open_def)
qed

section \<open>Witnesses\<close>

definition toy_pk :: bytes where
  "toy_pk = Ed_public toy_crypto [1]"

definition toy_login :: "bool \<Rightarrow> ClientToRelay" where
  "toy_login v2 = (if v2 then AuthV2 toy_pk (Ed_sign toy_crypto [1] (auth_v2_message [9] [5])) else Auth toy_pk (Ed_sign toy_crypto [1] [5]))"

lemma toy_authenticate: "authenticate toy_crypto [9] [5] (toy_login v2) = LoggedIn toy_pk v2"
  using toy_ed_correct by (simp add: authenticate_def toy_login_def toy_pk_def ed_correct_def)

definition toy_relay :: Server where
  "toy_relay = new_server (new_store default_mem_limits)"

definition toy_relay1 :: Server where
  "toy_relay1 = enter_owner 0 toy_pk toy_relay"

lemma toy_relay1_reach: "relay_reach toy_crypto [9] (toy_relay1, {})"
proof -
  have "relay_step toy_crypto [9] (toy_relay, {}) (toy_relay1, {})"
    unfolding toy_relay1_def
    by (rule relay_step.owner [OF toy_authenticate [of True]]) (simp add: fresh_conn_def toy_relay_def new_server_def)
  then show ?thesis unfolding relay_reach_def toy_relay_def by blast
qed

lemmas toy_relay_simps = toy_relay1_def toy_relay_def new_server_def enter_owner_def Let_def new_conn_def write_to_def
  modify_conn_def hm_modify_def new_store_def empty_inner_def default_mem_limits_def from_secs_def

lemma toy_send:
  "\<exists>srv. on_frame 0 (Send toy_pk [7]) 0 True toy_relay1 = Some (srv, True) \<and>
     tasks srv = [InitialStart 0 toy_pk 0, Deliver 0 (Some toy_pk) (incoming 1 [7])] \<and> chan_open srv 0 \<and> chan_len srv 0 = 0 \<and>
     (\<exists>k. hm_get (conns srv) 0 = Some k) \<and> deposited_by (Send toy_pk [7]) toy_relay1 0 = {(1, toy_pk, [7])}"
  by (simp add: toy_relay_simps on_frame_def on_send_def deposit_def serves_def insert_mail_def evict_inbox.simps evict_mail.simps
      pick_for_def pick_def chan_open_def chan_len_def load_def claim_at_def claim_def new_pushed_def reply_def deposited_by_def)

theorem mail_privacy_witness:
  "\<exists>srv H k. relay_reach toy_crypto [9] (srv, H) \<and> hm_get (conns srv) 0 = Some k \<and> incoming 1 [7] \<in> set (c_queue k) \<and>
     c_owner k \<and> (1, c_pk k, [7]) \<in> H"
proof -
  from toy_send obtain srv k where s: "on_frame 0 (Send toy_pk [7]) 0 True toy_relay1 = Some (srv, True)"
    "tasks srv = [InitialStart 0 toy_pk 0, Deliver 0 (Some toy_pk) (incoming 1 [7])]" "chan_open srv 0" "chan_len srv 0 = 0"
    "hm_get (conns srv) 0 = Some k" "deposited_by (Send toy_pk [7]) toy_relay1 0 = {(1, toy_pk, [7])}" by blast
  let ?H = "{} \<union> {(1, toy_pk, [7])} :: history"
  have "chan_open toy_relay1 0" by (simp add: toy_relay_simps chan_open_def)
  from relay_step.frame [OF this s(1), of toy_crypto "[9]" "{}"] s(6)
  have "relay_step toy_crypto [9] (toy_relay1, {}) (srv, ?H)" by (simp add: after_turn_def)
  moreover have "relay_step toy_crypto [9] (srv, ?H) (step_task 1 srv, ?H)" by (rule relay_step.task)
  ultimately have r: "relay_reach toy_crypto [9] (step_task 1 srv, ?H)"
    using toy_relay1_reach unfolding relay_reach_def by (meson rtranclp.rtrancl_into_rtrancl)
  have "can_send srv 0" using s(3,4) by (simp add: can_send_def PUSH_CAPACITY_def)
  then have "conns (step_task 1 srv) = conns (enqueue 0 (incoming 1 [7]) srv)"
    using s(2,3) by (simp add: step_task_def run_task_def)
  then have k: "hm_get (conns (step_task 1 srv)) 0 = Some (k\<lparr>c_queue := c_queue k @ [incoming 1 [7]]\<rparr>)"
    using s(5) by (simp add: enqueue_def modify_conn_def hm_get_modify)
  from mail_privacy [OF r k, of 1 "replicate 32 0" "[7]"] r k show ?thesis by (fastforce simp: incoming_def)
qed

theorem frame_store_contract_witness:
  "\<exists>srv'. on_frame 0 (Ack 1) 0 True toy_relay1 = Some (srv', True) \<and> box_of (store srv') [3] = box_of (store toy_relay1) [3]"
proof -
  obtain k where k: "hm_get (conns toy_relay1) 0 = Some k" "c_owner k" "c_pk k = toy_pk"
    by (simp add: toy_relay_simps)
  have f: "on_frame 0 (Ack 1) 0 True toy_relay1 = Some (on_ack 0 k 1 toy_relay1, True)" using k by (simp add: on_frame_def)
  have "[3] \<noteq> toy_pk" by (simp add: toy_pk_def toy_crypto_def fit_def)
  with frame_store_contract [OF toy_relay1_reach k(1) f] k(3) f show ?thesis by auto
qed

theorem unanswered_deposit_stranded_witness:
  "\<exists>srv'. on_send 0 toy_pk [7] 0 False toy_relay1 = Some (srv', False) \<and> tasks srv' = tasks toy_relay1 \<and>
     (1, [7]) \<in> set (box_of (store srv') toy_pk)"
proof -
  obtain s' where d: "deposit (store toy_relay1) toy_pk [7] 0 = Some (Inr (1, s'))"
    by (simp add: toy_relay_simps deposit_def serves_def insert_mail_def evict_inbox.simps evict_mail.simps)
  obtain srv1 where p: "pick_for (toy_relay1\<lparr>store := s'\<rparr>) toy_pk = (srv1, Some 0)"
    by (simp add: toy_relay_simps pick_for_def pick_def chan_open_def load_def)
  obtain l where l: "hm_get (connections toy_relay1) toy_pk = Some l" by (simp add: toy_relay_simps)
  have "on_send 0 toy_pk [7] 0 False toy_relay1 \<noteq> None"
    using d p by (simp add: on_send_def Let_def split_beta)
  then obtain r where r: "on_send 0 toy_pk [7] 0 False toy_relay1 = Some r" by blast
  from unanswered_deposit_stranded [OF toy_relay1_reach d p l, of 0 "fst r" "snd r"] r show ?thesis by (cases r) auto
qed

end
