(* ===== verification/Radix.thy ===== *)
theory Radix
  imports Relay_Wire
begin

text \<open>
  Numbers in a base, big-endian, and what the bit-gathering loops of the program compute: the
  decoders of \<open>relay_wire.rs\<close> and \<open>card.rs\<close> (symbols of five or six bits to bytes) and the encoder of
  \<open>card.rs\<close> (bytes to symbols of five bits). Their accumulator is a \<open>u32\<close> that is shifted without
  end and only ever read near its lower end; it always holds the whole number read so far, modulo
  \<open>2 ^ 32\<close>.
\<close>

definition ofd :: "nat \<Rightarrow> nat list \<Rightarrow> nat" where
  "ofd B ds = foldl (\<lambda>a d. a * B + d) 0 ds"

fun dig :: "nat \<Rightarrow> nat \<Rightarrow> nat \<Rightarrow> nat list" where
  "dig B 0 V = []"
| "dig B (Suc n) V = dig B n (V div B) @ [V mod B]"

lemma ofd_simps [simp]: "ofd B [] = 0" "ofd B (ds @ [d]) = ofd B ds * B + d"
  by (simp_all add: ofd_def)

lemma length_dig [simp]: "length (dig B n V) = n"
  by (induction n arbitrary: V) auto

lemma dig_less: "0 < B \<Longrightarrow> d \<in> set (dig B n V) \<Longrightarrow> d < B"
  by (induction n arbitrary: V) auto

lemma ofd_dig: "ofd B (dig B n V) = V mod B ^ n"
proof (induction n arbitrary: V)
  case (Suc n)
  have "V mod (B * B ^ n) = B * (V div B mod B ^ n) + V mod B" by (rule mod_mult2_eq)
  then show ?case using Suc.IH [of "V div B"] by (simp add: mult.commute)
qed simp

lemma ofd_less: "\<forall>d \<in> set ds. d < B \<Longrightarrow> ofd B ds < B ^ length ds"
proof (induction ds rule: rev_induct)
  case (snoc d ds)
  then have "ofd B ds * B + d < B * B ^ length ds"
    using mult_le_mono [of "Suc (ofd B ds)" "B ^ length ds" B B] by (simp add: mult.commute)
  then show ?case by simp
qed simp

lemma dig_ofd: "\<forall>d \<in> set ds. d < B \<Longrightarrow> dig B (length ds) (ofd B ds) = ds"
  by (induction ds rule: rev_induct) auto

section \<open>The accumulator\<close>

lemma push_or:
  assumes "unat v < 2 ^ m" and "m < 32"
  shows "push_bit m (of_nat V :: u32) OR ucast (v :: u8) = of_nat (V * 2 ^ m + unat v)"
proof -
  have "push_bit m (of_nat V :: u32) OR ucast v = push_bit m (of_nat V) + ucast v"
  proof (rule disjunctive_add [symmetric])
    fix n
    have "\<not> bit v n" if "m \<le> n"
    proof
      assume "bit v n"
      then have "bit (unat v) n" by (simp add: bit_unsigned_iff bit_imp_le_length)
      then have "2 ^ n \<le> unat v" by (simp add: bit_iff_odd) (metis div_less even_zero not_less)
      with that assms(1) show False by (meson le_less_trans not_less one_le_numeral power_increasing)
    qed
    then show "\<not> bit (push_bit m (of_nat V :: u32)) n \<or> \<not> bit (ucast v :: u32) n"
      by (auto simp: bit_push_bit_iff bit_unsigned_iff)
  qed
  also have "\<dots> = of_nat (V * 2 ^ m + unat v)"
    by (simp add: push_bit_eq_mult)
  finally show ?thesis .
qed

lemma drop_bit_u32: "unat (drop_bit j (of_nat W :: u32)) = W mod 2 ^ 32 div 2 ^ j"
  unfolding unat_drop_bit_eq by (simp add: drop_bit_eq_div unat_of_nat)

lemma mod_div_mod:
  assumes "j + k \<le> 32"
  shows "W mod 2 ^ 32 div 2 ^ j mod 2 ^ k = W div 2 ^ j mod (2 ^ k :: nat)"
proof -
  have "(2 :: nat) ^ 32 = 2 ^ j * 2 ^ (32 - j)" using assms by (simp flip: power_add)
  then have "W mod 2 ^ 32 = 2 ^ j * (W div 2 ^ j mod 2 ^ (32 - j)) + W mod 2 ^ j" by (simp only: mod_mult2_eq)
  then have "W mod 2 ^ 32 div 2 ^ j = W div 2 ^ j mod 2 ^ (32 - j)" by simp
  moreover have "(2 :: nat) ^ k dvd 2 ^ (32 - j)" using assms by (intro le_imp_power_dvd) simp
  ultimately show ?thesis by (simp add: mod_mod_cancel)
qed

lemma top_byte: "j + 8 \<le> 32 \<Longrightarrow> (ucast (drop_bit j (of_nat W :: u32)) :: u8) = of_nat (W div 2 ^ j)"
proof -
  assume "j + 8 \<le> 32"
  then have "W mod 2 ^ 32 div 2 ^ j mod 2 ^ 8 = W div 2 ^ j mod 2 ^ 8" by (rule mod_div_mod)
  then show ?thesis by (simp add: word_unat_eq_iff unsigned_ucast_eq drop_bit_u32 unat_of_nat take_bit_eq_mod)
qed

lemma shift_in: "v < 2 ^ m \<Longrightarrow> (V * 2 ^ m + v) div 2 ^ (b + m) = V div (2 ^ b :: nat)"
  by (simp add: power_add mult.commute [of "2 ^ b"] div_mult2_eq)

section \<open>From symbols to bytes\<close>

lemma div_pow_diff: "k \<le> s \<Longrightarrow> W div 2 ^ (s - k) div 2 ^ k = W div (2 ^ s :: nat)"
  by (simp flip: div_mult2_eq power_add)

lemma carry:
  fixes x m :: nat
  assumes "8 \<le> x mod 8 + m" and "m \<le> 8"
  shows "(x + m) div 8 = Suc (x div 8) \<and> (x + m) mod 8 = x mod 8 + m - 8"
proof -
  have e: "x + m = (x mod 8 + m - 8) + 8 * Suc (x div 8)" using assms(1) by simp
  have "x mod 8 + m - 8 < 8" using assms(2) mod_less_divisor [of 8 x] by linarith
  then have "((x mod 8 + m - 8) + 8 * Suc (x div 8)) div 8 = Suc (x div 8)"
    "((x mod 8 + m - 8) + 8 * Suc (x div 8)) mod 8 = x mod 8 + m - 8"
    by (simp_all only: div_mult_self2 mod_mult_self2) simp_all
  then show ?thesis by (simp only: e [symmetric])
qed

lemma no_carry:
  fixes x m :: nat
  assumes "x mod 8 + m < 8"
  shows "(x + m) div 8 = x div 8 \<and> (x + m) mod 8 = x mod 8 + m"
proof -
  have e: "x + m = (x mod 8 + m) + 8 * (x div 8)" by simp
  have "((x mod 8 + m) + 8 * (x div 8)) div 8 = x div 8" "((x mod 8 + m) + 8 * (x div 8)) mod 8 = x mod 8 + m"
    using assms by (simp_all only: div_mult_self2 mod_mult_self2) simp_all
  then show ?thesis by (simp only: e [symmetric])
qed

definition fed :: "nat \<Rightarrow> nat \<Rightarrow> nat \<Rightarrow> bit_state" where
  "fed m n V = (of_nat V, m * n mod 8, map of_nat (dig 256 (m * n div 8) (V div 2 ^ (m * n mod 8))))"

lemma feed_fed:
  assumes "unat v < 2 ^ m" and "m \<le> 8" and "0 < m"
  shows "feed m (fed m n V) v = fed m (Suc n) (V * 2 ^ m + unat v)"
proof -
  let ?k = "m * n div 8" and ?b = "m * n mod 8" and ?W = "V * 2 ^ m + unat v"
  have acc: "push_bit m (of_nat V :: u32) OR ucast v = of_nat ?W" by (rule push_or [OF assms(1)]) (use assms(2) in simp)
  have sh: "?W div 2 ^ (?b + m) = V div 2 ^ ?b" by (rule shift_in [OF assms(1)])
  have b8: "?b < 8" by simp
  show ?thesis
  proof (cases "?b + m \<ge> 8")
    case True
    have kb: "m * Suc n div 8 = Suc ?k" "m * Suc n mod 8 = ?b + m - 8"
      using carry [OF True assms(2)] by (simp_all add: add.commute)
    have "?W div 2 ^ (?b + m - 8) div 256 = ?W div 2 ^ (?b + m)"
      using div_pow_diff [OF True, of ?W] by simp
    moreover have "(ucast (drop_bit (?b + m - 8) (of_nat ?W :: u32)) :: u8) = of_nat (?W div 2 ^ (?b + m - 8))"
      by (rule top_byte) (use assms(2) in simp)
    moreover have "(of_nat (x mod 256) :: u8) = of_nat x" for x by (simp add: word_unat_eq_iff unat_of_nat)
    ultimately show ?thesis
      unfolding fed_def kb using True acc sh by (simp add: feed_def Let_def)
  next
    case False
    have kb: "m * Suc n div 8 = ?k" "m * Suc n mod 8 = ?b + m"
      using no_carry [of "m * n" m] False by (simp_all add: add.commute)
    show ?thesis unfolding fed_def kb using False acc sh by (simp add: feed_def Let_def)
  qed
qed

lemma fed_0 [simp]: "fed m 0 0 = (0, 0, [])"
  by (simp add: fed_def)

lemma feed_all_fed:
  assumes "\<forall>c \<in> set s. \<exists>v. digit c = Some v \<and> unat v < 2 ^ m" and "m \<le> 8" and "0 < m"
  shows "feed_all digit m s (fed m n V) =
           Some (fed m (n + length s) (foldl (\<lambda>a c. a * 2 ^ m + unat (the (digit c))) V s))"
  using assms(1)
proof (induction s arbitrary: n V)
  case (Cons c s)
  then obtain v where v: "digit c = Some v" "unat v < 2 ^ m" by auto
  show ?case using Cons v feed_fed [OF v(2) assms(2,3), of n V] by simp
qed simp

lemma feed_all_digits:
  assumes "\<forall>c \<in> set s. \<exists>v. digit c = Some v \<and> unat v < 2 ^ m" and "m \<le> 8" and "0 < m"
  shows "feed_all digit m s (0, 0, []) = Some (fed m (length s) (ofd (2 ^ m) (map (\<lambda>c. unat (the (digit c))) s)))"
  using feed_all_fed [OF assms, of 0 0] by (simp add: ofd_def foldl_map)

lemma feed_all_None: "c \<in> set s \<Longrightarrow> digit c = None \<Longrightarrow> feed_all digit m s st = None"
proof (induction s arbitrary: st)
  case (Cons a s)
  show ?case
  proof (cases "digit a")
    case (Some v)
    then have "c \<in> set s" using Cons.prems by auto
    from Cons.IH [OF this Cons.prems(2)] Some show ?thesis by simp
  qed simp
qed simp

lemma feed_all_Some: "feed_all digit m s st = Some st' \<Longrightarrow> c \<in> set s \<Longrightarrow> digit c \<noteq> None"
  by (metis feed_all_None option.distinct(1))

lemma b32_digit_less: "b32_digit c = Some v \<Longrightarrow> unat v < 32"
proof -
  assume "b32_digit c = Some v"
  then consider "0x61 \<le> c" "c \<le> 0x7A" "v = c - 0x61" | "0x32 \<le> c" "c \<le> 0x37" "v = c - 0x32 + 26"
    by (auto simp: b32_digit_def split: if_splits)
  then show ?thesis
  proof cases
    case 1
    then have "unat v = unat c - 97" by (simp add: unat_sub)
    with 1 show ?thesis by (simp add: word_le_nat_alt)
  next
    case 2
    then have "v = c - 24" "24 \<le> c" by (simp_all add: word_le_nat_alt)
    then have "unat v = unat c - 24" by (simp add: unat_sub)
    with 2 show ?thesis by (simp add: word_le_nat_alt)
  qed
qed

lemma base32_decode_digits:
  assumes "\<forall>c \<in> set s. b32_digit (to_ascii_lowercase c) \<noteq> None"
  shows "feed_all (\<lambda>c. b32_digit (to_ascii_lowercase c)) 5 s (0, 0, []) =
           Some (fed 5 (length s) (ofd 32 (map (\<lambda>c. unat (the (b32_digit (to_ascii_lowercase c)))) s)))"
  using feed_all_digits [of s "\<lambda>c. b32_digit (to_ascii_lowercase c)" 5] assms b32_digit_less by fastforce

end
