(* ===== verification/Card.thy ===== *)
theory Card
  imports Radix Ratchet
begin

text \<open>
  Contact cards, \<open>libcore/src/card.rs\<close>: the three formats that are read, the one that is written,
  and the spellings of an I2P address. Strings are their UTF-8 bytes. The \<open>base64\<close> crate is a
  parameter, the record \<open>b64\<close>: what \<open>URL_SAFE_NO_PAD\<close> and \<open>STANDARD\<close> encode and decode.
\<close>

record b64 =
  Url_encode :: "bytes \<Rightarrow> bytes"
  Url_decode :: "bytes \<Rightarrow> bytes option"
  Std_decode :: "bytes \<Rightarrow> bytes option"

text \<open>The documented behaviour relied on: four characters for three bytes, rounded up, and decoding is the inverse.\<close>

definition b64_correct :: "b64 \<Rightarrow> bool" where
  "b64_correct E \<longleftrightarrow>
     (\<forall>b. Url_decode E (Url_encode E b) = Some b \<and> length (Url_encode E b) = (4 * length b + 2) div 3 \<and>
          (\<forall>c \<in> set (Url_encode E b). 0x20 < c \<and> c < 0x80))"

section \<open>Data\<close>

definition V3_PREFIX :: bytes where
  "V3_PREFIX = ascii ''gipny:v3:''"

definition CHECKSUM_DOMAIN :: bytes where
  "CHECKSUM_DOMAIN = ascii ''gipny/contact-card/v3'' @ [0]"

definition MAX_NAME_BYTES :: nat where
  "MAX_NAME_BYTES = 96"

definition MAX_V3_BYTES :: nat where
  "MAX_V3_BYTES = 230"

definition MAX_V3_CHARS :: nat where
  "MAX_V3_CHARS = 316"

record ContactCard =
  cc_onion :: bytes
  cc_sign_pk :: bytes
  cc_dh_pk :: bytes
  cc_relay :: "bytes option"
  cc_name :: "bytes option"

datatype CardError = NotACard | Malformed | BadAddress bytes

definition card_identity :: "ContactCard \<Rightarrow> IdentityCard" where
  "card_identity c = \<lparr>sign_pk = cc_sign_pk c, dh_pk = cc_dh_pk c\<rparr>"

section \<open>Addresses\<close>

definition is_valid_i2p_address :: "bytes \<Rightarrow> bool" where
  "is_valid_i2p_address addr =
     (let a = trim addr
      in case (case strip_suffix (ascii ''.b32.i2p'') a of
                 Some host \<Rightarrow> Some host
               | None \<Rightarrow> strip_suffix (ascii ''.B32.I2P'') a) of
           Some host \<Rightarrow>
             length host = 52 \<and>
             list_all (\<lambda>c. (0x61 \<le> c \<and> c \<le> 0x7A) \<or> (0x41 \<le> c \<and> c \<le> 0x5A) \<or> (0x32 \<le> c \<and> c \<le> 0x37)) host
         | None \<Rightarrow>
             (let body = trim_eq a
              in \<not> (length a - length body > 2 \<or> length body < 516) \<and>
                 list_all (\<lambda>c. is_ascii_alphanumeric c \<or> c = 0x7E \<or> c = 0x2D) body))"

definition address_hash :: "crypto \<Rightarrow> b64 \<Rightarrow> bytes \<Rightarrow> CardError + bytes" where
  "address_hash C E address0 =
     (let address = trim address0; bad = Inl (BadAddress address)
      in if length address > 4096 then bad
         else case strip_suffix (ascii ''.b32.i2p'') (map to_ascii_lowercase address) of
           Some host \<Rightarrow>
             if length host \<noteq> 52 then bad
             else (case feed_all b32_digit 5 host (0, 0, []) of
                     None \<Rightarrow> bad
                   | Some (acc, bits, out) \<Rightarrow>
                       if bits \<noteq> 4 \<or> acc AND 15 \<noteq> 0 then bad
                       else if length out = 32 then Inr out else bad)
         | None \<Rightarrow>
             if length address > 4096 \<or> \<not> is_valid_i2p_address address then bad
             else
               (let body = trim_eq address;
                    normalized = map (\<lambda>c. if c = 0x2D then 0x2B else if c = 0x7E then 0x2F else c) body;
                    padding = (4 - length normalized mod 4) mod 4
                in if length address \<noteq> length body \<and> length address - length body \<noteq> padding then bad
                   else (case Std_decode E (normalized @ replicate padding 0x3D) of
                           None \<Rightarrow> bad
                         | Some raw \<Rightarrow>
                             if length raw < 387 \<or> 387 + of_be_bytes [raw ! 385, raw ! 386] \<noteq> length raw then bad
                             else Inr (Sha256 C raw))))"

text \<open>\<open>same_destination\<close> of \<open>relay_wire.rs\<close>.\<close>

definition same_destination :: "crypto \<Rightarrow> b64 \<Rightarrow> bytes \<Rightarrow> bytes \<Rightarrow> bool" where
  "same_destination C E a b =
     (case (address_hash C E a, address_hash C E b) of (Inr l, Inr r) \<Rightarrow> l = r | _ \<Rightarrow> False)"

definition ALPHABET :: bytes where
  "ALPHABET = ascii ''abcdefghijklmnopqrstuvwxyz234567''"

text \<open>The inner \<open>while\<close> of \<open>b32_address\<close>.\<close>

fun emit :: "u32 \<Rightarrow> nat \<Rightarrow> bytes \<Rightarrow> nat \<times> bytes" where
  "emit acc bits text =
     (if bits \<ge> 5
      then emit acc (bits - 5) (text @ [ALPHABET ! unat (drop_bit (bits - 5) acc AND 31)])
      else (bits, text))"

declare emit.simps [simp del]

definition b32_step :: "bit_state \<Rightarrow> u8 \<Rightarrow> bit_state" where
  "b32_step st byte =
     (case st of (acc0, bits0, text0) \<Rightarrow>
        let acc = push_bit 8 acc0 OR ucast byte; (bits, text) = emit acc (bits0 + 8) text0
        in (acc, bits, text))"

definition b32_address :: "bytes \<Rightarrow> bytes" where
  "b32_address hash =
     (case foldl b32_step (0, 0, []) hash of
        (acc, bits, text) \<Rightarrow>
          (if bits \<noteq> 0 then text @ [ALPHABET ! unat (push_bit (5 - bits) acc AND 31)] else text) @ ascii ''.b32.i2p'')"

section \<open>Writing\<close>

definition card_checksum :: "crypto \<Rightarrow> bytes \<Rightarrow> bytes" where
  "card_checksum C body = (let sum = Sha256 C (CHECKSUM_DOMAIN @ body) in [sum ! 0, sum ! 1, sum ! 2, sum ! 3])"

definition card_body :: "ContactCard \<Rightarrow> bytes \<Rightarrow> bytes option \<Rightarrow> bytes option \<Rightarrow> bytes" where
  "card_body c onion relay nm =
     [(if relay \<noteq> None then 1 else 0) OR push_bit 1 (if nm \<noteq> None then 1 else 0)] @
     cc_sign_pk c @ cc_dh_pk c @ onion @
     (case relay of Some r \<Rightarrow> r | None \<Rightarrow> []) @
     (case nm of Some n \<Rightarrow> of_nat (length n) # n | None \<Rightarrow> [])"

definition card_encode :: "crypto \<Rightarrow> b64 \<Rightarrow> ContactCard \<Rightarrow> CardError + bytes" where
  "card_encode C E c =
     (case address_hash C E (cc_onion c) of
        Inl e \<Rightarrow> Inl e
      | Inr onion \<Rightarrow>
          (case (case cc_relay c of
                   None \<Rightarrow> Inr None
                 | Some r \<Rightarrow> (case address_hash C E r of Inl e \<Rightarrow> Inl e | Inr h \<Rightarrow> Inr (Some h))) of
             Inl e \<Rightarrow> Inl e
           | Inr relay \<Rightarrow>
               (let nm = (case cc_name c of Some [] \<Rightarrow> None | n \<Rightarrow> n)
                in if (case nm of Some n \<Rightarrow> length n > MAX_NAME_BYTES | None \<Rightarrow> False) then Inl Malformed
                   else (let body = card_body c onion relay nm
                         in Inr (V3_PREFIX @ Url_encode E (body @ card_checksum C body))))))"

section \<open>Reading\<close>

definition parse_v3 :: "crypto \<Rightarrow> b64 \<Rightarrow> bytes \<Rightarrow> CardError + ContactCard" where
  "parse_v3 C E payload =
     (if length payload + length V3_PREFIX > MAX_V3_CHARS then Inl Malformed
      else case Url_decode E payload of
        None \<Rightarrow> Inl Malformed
      | Some bs \<Rightarrow>
          if \<not> (101 \<le> length bs \<and> length bs \<le> MAX_V3_BYTES) \<or> Url_encode E bs \<noteq> payload then Inl Malformed
          else
            (let body = take (length bs - 4) bs; sum = drop (length bs - 4) bs
             in if card_checksum C body \<noteq> sum \<or> body ! 0 AND NOT 3 \<noteq> 0 then Inl Malformed
                else
                  (let has_relay = (body ! 0 AND 1 \<noteq> 0);
                       off1 = (if has_relay then 129 else 97)
                   in if has_relay \<and> length body < 129 then Inl Malformed
                      else
                        (let relay = (if has_relay then Some (b32_address (take 32 (drop 97 body))) else None);
                             named = (if body ! 0 AND 2 \<noteq> 0
                                      then (if length body \<le> off1 then Inl Malformed
                                            else (let len = unat (body ! off1); off2 = off1 + 1
                                                  in if len = 0 \<or> len > MAX_NAME_BYTES then Inl Malformed
                                                     else if length body < off2 + len then Inl Malformed
                                                     else if \<not> utf8_valid (take len (drop off2 body)) then Inl Malformed
                                                     else Inr (off2 + len, Some (take len (drop off2 body)))))
                                      else Inr (off1, None))
                         in case named of
                              Inl e \<Rightarrow> Inl e
                            | Inr (off, nm) \<Rightarrow>
                                if off \<noteq> length body then Inl Malformed
                                else Inr \<lparr>cc_onion = b32_address (take 32 (drop 65 body)),
                                          cc_sign_pk = take 32 (drop 1 body),
                                          cc_dh_pk = take 32 (drop 33 body),
                                          cc_relay = relay, cc_name = nm\<rparr>))))"

definition hex_val :: "u8 \<Rightarrow> u8 option" where
  "hex_val c =
     (if 0x30 \<le> c \<and> c \<le> 0x39 then Some (c - 0x30)
      else if 0x61 \<le> c \<and> c \<le> 0x66 then Some (c - 0x61 + 10)
      else if 0x41 \<le> c \<and> c \<le> 0x46 then Some (c - 0x41 + 10)
      else None)"

text \<open>\<open>u8::from_str_radix\<close> of two hexadecimal digits.\<close>

fun hex_bytes :: "bytes \<Rightarrow> bytes" where
  "hex_bytes (a # b # s) = (push_bit 4 (the (hex_val a)) OR the (hex_val b)) # hex_bytes s"
| "hex_bytes _ = []"

definition hex32 :: "bytes \<Rightarrow> CardError + bytes" where
  "hex32 s = (if length s \<noteq> 64 \<or> \<not> list_all is_ascii_hexdigit s then Inl Malformed else Inr (hex_bytes s))"

fun percent_loop :: "bytes \<Rightarrow> bytes option" where
  "percent_loop [] = Some []"
| "percent_loop (c # s) =
     (if c = 0x25 then
        (case s of
           a # b # rest \<Rightarrow>
             (case (hex_val a, hex_val b) of
                (Some h, Some l) \<Rightarrow> map_option ((#) (push_bit 4 h OR l)) (percent_loop rest)
              | _ \<Rightarrow> None)
         | _ \<Rightarrow> None)
      else map_option ((#) c) (percent_loop s))"

definition percent_decode :: "bytes \<Rightarrow> CardError + bytes" where
  "percent_decode s =
     (case percent_loop s of
        None \<Rightarrow> Inl Malformed
      | Some out \<Rightarrow> if utf8_valid out then Inr out else Inl Malformed)"

text \<open>\<open>str::splitn\<close>: at most \<open>n\<close> parts, the last of them the rest.\<close>

fun splitn :: "nat \<Rightarrow> u8 \<Rightarrow> bytes \<Rightarrow> bytes list" where
  "splitn 0 c s = []"
| "splitn (Suc 0) c s = [s]"
| "splitn (Suc (Suc n)) c s =
     (if c \<in> set s
      then takeWhile (\<lambda>x. x \<noteq> c) s # splitn (Suc n) c (tl (dropWhile (\<lambda>x. x \<noteq> c) s))
      else [s])"

text \<open>The keys and the name of an old card, in the order in which the constructor's fields are evaluated.\<close>

definition legacy_card :: "bytes \<Rightarrow> bytes \<Rightarrow> bytes \<Rightarrow> bytes option \<Rightarrow> bytes option \<Rightarrow> CardError + ContactCard" where
  "legacy_card onion sgk dh relay nm =
     (case hex32 sgk of Inl e \<Rightarrow> Inl e
      | Inr s \<Rightarrow>
          (case hex32 dh of Inl e \<Rightarrow> Inl e
           | Inr d \<Rightarrow>
               (case (case nm of None \<Rightarrow> Inr None
                      | Some [] \<Rightarrow> Inr None
                      | Some n \<Rightarrow> (case percent_decode n of Inl e \<Rightarrow> Inl e | Inr x \<Rightarrow> Inr (Some x))) of
                  Inl e \<Rightarrow> Inl e
                | Inr n \<Rightarrow> Inr \<lparr>cc_onion = onion, cc_sign_pk = s, cc_dh_pk = d, cc_relay = relay, cc_name = n\<rparr>)))"

definition card_parse :: "crypto \<Rightarrow> b64 \<Rightarrow> bytes \<Rightarrow> CardError + ContactCard" where
  "card_parse C E input =
     (let raw = trim input
      in case strip_prefix V3_PREFIX raw of
           Some payload \<Rightarrow> parse_v3 C E payload
         | None \<Rightarrow>
             if length raw > 16384 then Inl Malformed
             else case strip_prefix (ascii ''gipny:v2:'') raw of
               Some rest \<Rightarrow>
                 (case splitn 5 0x3A rest of
                    onion # sgk # dh # relay # more_parts \<Rightarrow>
                      if onion = [] \<or> relay = [] then Inl Malformed
                      else if \<not> is_valid_i2p_address relay then Inl (BadAddress relay)
                      else legacy_card onion sgk dh (Some relay) (case more_parts of n # _ \<Rightarrow> Some n | [] \<Rightarrow> None)
                  | _ \<Rightarrow> Inl Malformed)
             | None \<Rightarrow>
                 (case strip_prefix (ascii ''gipny:v1:'') raw of
                    Some rest \<Rightarrow>
                      (case splitn 4 0x3A rest of
                         onion # sgk # dh # more_parts \<Rightarrow>
                           if onion = [] then Inl Malformed
                           else legacy_card onion sgk dh None (case more_parts of n # _ \<Rightarrow> Some n | [] \<Rightarrow> None)
                       | _ \<Rightarrow> Inl Malformed)
                  | None \<Rightarrow> Inl NotACard))"

end
