(* ===== verification/Card_Props.thy ===== *)
theory Card_Props
  imports Card
begin

text \<open>
  What holds of contact cards: the base32 spelling of a destination hash is read back by both
  decoders of the program, a written card is read back, and a card has one v3 spelling.
\<close>

section \<open>The base32 address\<close>

lemma alphabet_table:
  "list_all (\<lambda>d. b32_digit (ALPHABET ! d) = Some (of_nat d) \<and> to_ascii_lowercase (ALPHABET ! d) = ALPHABET ! d \<and>
      0x20 < ALPHABET ! d \<and> ALPHABET ! d < 0x80) [0..<32]"
  by code_simp

lemma alphabet:
  assumes "d < 32"
  shows "b32_digit (ALPHABET ! d) = Some (of_nat d)" "to_ascii_lowercase (ALPHABET ! d) = ALPHABET ! d"
    "0x20 < ALPHABET ! d" "ALPHABET ! d < 0x80"
  using alphabet_table assms by (auto simp: list_all_iff)

lemma unat_and_31: "unat (w AND 31 :: u32) = unat w mod 32"
proof -
  have "w AND 31 = take_bit 5 w" by (simp add: take_bit_eq_mask mask_numeral)
  then have "unat (w AND 31) = take_bit 5 (unat w)" by (simp only: unsigned_take_bit_eq)
  then show ?thesis by (simp add: take_bit_eq_mod)
qed

lemma symbol_at:
  "j + 5 \<le> 32 \<Longrightarrow> unat (drop_bit j (of_nat W :: u32) AND 31) = W div 2 ^ j mod 32"
  using mod_div_mod [of j 5 W] by (simp add: unat_and_31 drop_bit_u32)

lemma emit_digits:
  "bits \<le> 32 \<Longrightarrow> tx = map ((!) ALPHABET) (dig 32 k (W div 2 ^ bits)) \<Longrightarrow>
     emit (of_nat W) bits tx = (bits mod 5, map ((!) ALPHABET) (dig 32 (k + bits div 5) (W div 2 ^ (bits mod 5))))"
proof (induction bits arbitrary: tx k rule: less_induct)
  case (less bits)
  show ?case
  proof (cases "bits \<ge> 5")
    case True
    let ?j = "bits - 5"
    have "tx @ [ALPHABET ! unat (drop_bit ?j (of_nat W :: u32) AND 31)] = map ((!) ALPHABET) (dig 32 (Suc k) (W div 2 ^ ?j))"
      using symbol_at [of ?j W] less.prems True div_pow_diff [OF True, of W] by simp
    from less.IH [OF _ _ this] True less.prems(1)
    have "emit (of_nat W) bits tx = (?j mod 5, map ((!) ALPHABET) (dig 32 (Suc k + ?j div 5) (W div 2 ^ (?j mod 5))))"
      by (subst emit.simps) simp
    moreover have "?j mod 5 = bits mod 5" "Suc k + ?j div 5 = k + bits div 5"
      using True by (simp_all add: le_mod_geq le_div_geq)
    ultimately show ?thesis by (simp only:)
  next
    case False
    with less.prems show ?thesis by (subst emit.simps) simp
  qed
qed

definition b32_state :: "nat \<Rightarrow> nat \<Rightarrow> bit_state" where
  "b32_state n V = (of_nat V, 8 * n mod 5, map ((!) ALPHABET) (dig 32 (8 * n div 5) (V div 2 ^ (8 * n mod 5))))"

lemma carry5:
  fixes x :: nat
  shows "(x mod 5 + 8) mod 5 = (x + 8) mod 5" "x div 5 + (x mod 5 + 8) div 5 = (x + 8) div 5"
proof -
  have "((x mod 5 + 8) + 5 * (x div 5)) div 5 = x div 5 + (x mod 5 + 8) div 5" by (simp only: div_mult_self2)
  then show "x div 5 + (x mod 5 + 8) div 5 = (x + 8) div 5" by simp
  show "(x mod 5 + 8) mod 5 = (x + 8) mod 5" by (simp add: mod_add_left_eq)
qed

lemma b32_step_state: "b32_step (b32_state n V) byte = b32_state (Suc n) (V * 256 + unat byte)"
proof -
  let ?W = "V * 2 ^ 8 + unat byte" and ?b = "8 * n mod 5"
  have v: "unat byte < 2 ^ 8" using unat_u8_less [of byte] by simp
  have acc: "push_bit 8 (of_nat V :: u32) OR ucast byte = of_nat ?W" by (rule push_or [OF v]) simp
  have tx: "map ((!) ALPHABET) (dig 32 (8 * n div 5) (V div 2 ^ ?b)) = map ((!) ALPHABET) (dig 32 (8 * n div 5) (?W div 2 ^ (?b + 8)))"
    using shift_in [OF v, of V ?b] by simp
  have "?b + 8 \<le> 32" by (rule le_trans [of _ "4 + 8"]) (use mod_less_divisor [of 5 "8 * n"] in linarith, simp)
  from emit_digits [OF this tx] carry5 [of "8 * n"]
  have "emit (of_nat ?W) (?b + 8) (map ((!) ALPHABET) (dig 32 (8 * n div 5) (V div 2 ^ ?b))) =
     ((8 * n + 8) mod 5, map ((!) ALPHABET) (dig 32 ((8 * n + 8) div 5) (?W div 2 ^ ((8 * n + 8) mod 5))))" by simp
  then show ?thesis unfolding b32_step_def b32_state_def prod.case acc Let_def by (simp add: add.commute)
qed

lemma b32_address_digits:
  assumes "length h = 32"
  shows "b32_address h = map ((!) ALPHABET) (dig 32 52 (ofd 256 (map unat h) * 16)) @ ascii ''.b32.i2p''"
proof -
  let ?V = "ofd 256 (map unat h)"
  have "foldl b32_step (b32_state n V) bs = b32_state (n + length bs) (foldl (\<lambda>a b. a * 256 + unat b) V bs)" for n V bs
    by (induction bs arbitrary: n V) (simp_all add: b32_step_state)
  from this [of 0 0 h] have "foldl b32_step (0, 0, []) h = b32_state 32 ?V"
    using assms by (simp add: b32_state_def ofd_def foldl_map)
  moreover have "unat (push_bit 4 (of_nat ?V :: u32) AND 31) = ?V * 16 mod 32"
  proof -
    have "push_bit 4 (of_nat ?V :: u32) = of_nat (?V * 16)" by (simp add: push_bit_eq_mult)
    then show ?thesis using symbol_at [of 0 "?V * 16"] by simp
  qed
  moreover have "dig 32 52 (?V * 16) = dig 32 51 (?V div 2) @ [?V * 16 mod 32]"
  proof -
    have "?V * 16 div 32 = ?V div 2" using div_mult_mult2 [of 16 ?V 2] by simp
    moreover have "(52 :: nat) = Suc 51" by simp
    ultimately show ?thesis by (simp only: dig.simps)
  qed
  ultimately show ?thesis by (simp add: b32_address_def b32_state_def)
qed

definition b32_host :: "bytes \<Rightarrow> bytes" where
  "b32_host h = map ((!) ALPHABET) (dig 32 52 (ofd 256 (map unat h) * 16))"

lemma b32_address_host: "length h = 32 \<Longrightarrow> b32_address h = b32_host h @ ascii ''.b32.i2p''"
  by (simp only: b32_address_digits b32_host_def)

lemma b32_host_mem: "c \<in> set (b32_host h) \<Longrightarrow> \<exists>d < 32. c = ALPHABET ! d"
  using dig_less [of 32 _ 52 "ofd 256 (map unat h) * 16"] by (auto simp: b32_host_def)

lemma b32_host_props:
  "length (b32_host h) = 52" "c \<in> set (b32_host h) \<Longrightarrow> 0x20 < c \<and> c < 0x80"
  "map to_ascii_lowercase (b32_host h) = b32_host h"
  using alphabet dig_less [of 32 _ 52 "ofd 256 (map unat h) * 16"] by (auto simp: b32_host_def)

lemma b32_host_value:
  assumes "length h = 32"
  shows "ofd 32 (map (\<lambda>c. unat (the (b32_digit c))) (b32_host h)) = ofd 256 (map unat h) * 16"
proof -
  let ?V = "ofd 256 (map unat h)"
  have d: "d < 32 \<and> d < 256" if "d \<in> set (dig 32 52 (?V * 16))" for d using dig_less [OF _ that] by simp
  have "map (\<lambda>c. unat (the (b32_digit c))) (b32_host h) = dig 32 52 (?V * 16)"
    unfolding b32_host_def map_map by (rule map_idI) (use d in \<open>simp add: alphabet(1)\<close>)
  moreover have "?V < 256 ^ 32"
    using ofd_less [of "map unat h" 256] unat_u8_less assms by auto
  then have "?V * 16 mod 32 ^ 52 = ?V * 16" by simp
  ultimately show ?thesis by (simp only: ofd_dig)
qed

lemma b32_host_feeds:
  assumes "length h = 32"
  shows "feed_all b32_digit 5 (b32_host h) (0, 0, []) = Some (of_nat (ofd 256 (map unat h) * 16), 4, h)"
proof -
  let ?V = "ofd 256 (map unat h)"
  have dg: "\<forall>c \<in> set (b32_host h). \<exists>v. b32_digit c = Some v \<and> unat v < 2 ^ 5"
  proof
    fix c assume "c \<in> set (b32_host h)"
    then obtain d where d: "c = ALPHABET ! d" "d < 32" using b32_host_mem by blast
    then show "\<exists>v. b32_digit c = Some v \<and> unat v < 2 ^ 5" using alphabet(1) [OF d(2)] b32_digit_less by fastforce
  qed
  have "feed_all b32_digit 5 (b32_host h) (0, 0, []) = Some (fed 5 52 (?V * 16))"
    using feed_all_digits [OF dg] b32_host_value [OF assms] by (simp add: b32_host_props(1))
  moreover have "map of_nat (dig 256 32 (?V * 16 div 2 ^ 4)) = h"
  proof -
    have "dig 256 32 ?V = map unat h" using dig_ofd [of "map unat h" 256] assms unat_u8_less by simp
    then show ?thesis by (simp add: map_idI)
  qed
  moreover have "5 * 52 mod 8 = (4 :: nat)" "5 * 52 div 8 = (32 :: nat)" by simp_all
  ultimately show ?thesis unfolding fed_def by (simp only:)
qed

lemma ascii_suffix: "ascii ''.b32.i2p'' = [0x2E, 0x62, 0x33, 0x32, 0x2E, 0x69, 0x32, 0x70]"
  by code_simp

lemma strip_suffix_append: "strip_suffix suf (xs @ suf) = Some xs"
  by (simp add: strip_suffix_def)

lemma b32_trim:
  assumes "length h = 32"
  shows "trim (b32_address h) = b32_address h"
proof (rule utf8_trim_id)
  have "b32_host h \<noteq> []" using b32_host_props(1) [of h] by auto
  then have "hd (b32_address h) = hd (b32_host h)" "hd (b32_host h) \<in> set (b32_host h)"
    using b32_address_host [OF assms] by simp_all
  then show "0x20 < hd (b32_address h)" "hd (b32_address h) < 0x80" using b32_host_props(2) by auto
qed (simp_all add: b32_address_host [OF assms] ascii_suffix)

lemma address_hash_b32:
  assumes "length h = 32"
  shows "address_hash C E (b32_address h) = Inr h"
proof -
  let ?V = "ofd 256 (map unat h)"
  have low: "map to_ascii_lowercase (b32_address h) = b32_host h @ ascii ''.b32.i2p''"
    by (simp add: b32_address_host [OF assms] b32_host_props(3)) (simp add: ascii_suffix to_ascii_lowercase_def)
  have "(of_nat (?V * 16) :: u32) AND 15 = 0"
  proof -
    have p: "of_nat (?V * 16) = push_bit 4 (of_nat ?V :: u32)" by (simp add: push_bit_eq_mult)
    have "(of_nat (?V * 16) :: u32) AND 15 = take_bit 4 (of_nat (?V * 16))" by (simp add: take_bit_eq_mask mask_numeral)
    also have "\<dots> = 0" unfolding p take_bit_push_bit by simp
    finally show ?thesis .
  qed
  moreover have "length (b32_address h) = 60" by (simp add: b32_address_host [OF assms] b32_host_props(1) ascii_suffix)
  ultimately show ?thesis
    unfolding address_hash_def Let_def b32_trim [OF assms] low strip_suffix_append
    by (simp add: b32_host_props(1) b32_host_feeds [OF assms] assms)
qed

lemma destination_hash_b32:
  assumes "length h = 32"
  shows "destination_hash C (b32_address h) = Some h"
proof -
  have "feed_all (\<lambda>c. b32_digit (to_ascii_lowercase c)) m s st = feed_all b32_digit m (map to_ascii_lowercase s) st" for m s st
    by (induction s arbitrary: st) (simp_all split: option.split)
  then have "base32_decode (b32_host h) = Some h"
    by (simp add: base32_decode_def b32_host_props(3) b32_host_feeds [OF assms])
  then show ?thesis
    using b32_trim [OF assms] by (simp add: destination_hash_def b32_address_host [OF assms] strip_suffix_append assms)
qed

section \<open>A written card is read back\<close>

definition sha_len :: "crypto \<Rightarrow> bool" where
  "sha_len C \<longleftrightarrow> (\<forall>b. length (Sha256 C b) = 32)"

text \<open>What is read from a card: the same keys, and the addresses in their base32 spelling.\<close>

definition canonical :: "ContactCard \<Rightarrow> bytes \<Rightarrow> bytes option \<Rightarrow> bytes option \<Rightarrow> ContactCard" where
  "canonical c onion relay nm =
     \<lparr>cc_onion = b32_address onion, cc_sign_pk = cc_sign_pk c, cc_dh_pk = cc_dh_pk c,
      cc_relay = map_option b32_address relay, cc_name = nm\<rparr>"

lemma address_hash_len: "sha_len C \<Longrightarrow> address_hash C E a = Inr h \<Longrightarrow> length h = 32"
  by (auto simp: address_hash_def Let_def sha_len_def split: option.splits if_splits prod.splits)

lemma length_checksum [simp]: "length (card_checksum C b) = 4"
  by (simp add: card_checksum_def Let_def)

definition card_fields_ok :: "ContactCard \<Rightarrow> bytes \<Rightarrow> bytes option \<Rightarrow> bytes option \<Rightarrow> bool" where
  "card_fields_ok c onion relay nm \<longleftrightarrow>
     length (cc_sign_pk c) = 32 \<and> length (cc_dh_pk c) = 32 \<and> length onion = 32 \<and>
     (\<forall>r. relay = Some r \<longrightarrow> length r = 32) \<and>
     (\<forall>n. nm = Some n \<longrightarrow> n \<noteq> [] \<and> length n \<le> MAX_NAME_BYTES \<and> utf8_valid n)"

lemma card_body_length:
  "card_fields_ok c onion relay nm \<Longrightarrow>
     length (card_body c onion relay nm) = 97 + (if relay = None then 0 else 32) + (case nm of None \<Rightarrow> 0 | Some n \<Rightarrow> 1 + length n)"
  by (auto simp: card_fields_ok_def card_body_def split: option.split)

lemma card_body_bounds:
  "card_fields_ok c onion relay nm \<Longrightarrow> 97 \<le> length (card_body c onion relay nm) \<and> length (card_body c onion relay nm) \<le> 226"
proof -
  assume ok: "card_fields_ok c onion relay nm"
  then have "(case nm of None \<Rightarrow> 0 | Some n \<Rightarrow> 1 + length n) \<le> 97"
    by (simp add: card_fields_ok_def MAX_NAME_BYTES_def split: option.split)
  moreover have "(if relay = None then 0 else 32) \<le> (32 :: nat)" by simp
  ultimately show ?thesis unfolding card_body_length [OF ok] by linarith
qed

lemma flag_bits:
  "((if a then 1 else 0) OR push_bit 1 (if b then 1 else 0)) AND NOT 3 = (0 :: u8)"
  "((if a then 1 else 0) OR push_bit 1 (if b then 1 else 0)) AND 1 \<noteq> (0 :: u8) \<longleftrightarrow> a"
  "((if a then 1 else 0) OR push_bit 1 (if b then 1 else 0)) AND 2 \<noteq> (0 :: u8) \<longleftrightarrow> b"
  by (cases a; cases b; simp)+

lemma card_body_slices:
  assumes "card_fields_ok c onion relay nm"
  defines "body \<equiv> card_body c onion relay nm"
  shows "body ! 0 = (if relay \<noteq> None then 1 else 0) OR push_bit 1 (if nm \<noteq> None then 1 else 0)"
    "take 32 (drop 1 body) = cc_sign_pk c" "take 32 (drop 33 body) = cc_dh_pk c" "take 32 (drop 65 body) = onion"
    "drop 97 body = (case relay of Some r \<Rightarrow> r | None \<Rightarrow> []) @ (case nm of Some n \<Rightarrow> of_nat (length n) # n | None \<Rightarrow> [])"
  using assms by (simp_all add: card_body_def card_fields_ok_def drop_Cons')

lemma card_body_name:
  assumes "card_fields_ok c onion relay (Some n)"
  defines "body \<equiv> card_body c onion relay (Some n)" and "off \<equiv> (if relay \<noteq> None then 129 else 97)"
  shows "off < length body" "unat (body ! off) = length n" "length body = Suc off + length n"
    "take (length n) (drop (Suc off) body) = n"
proof -
  have rest: "drop off body = of_nat (length n) # n"
    using card_body_slices(5) [OF assms(1)] assms(1) drop_drop [of 32 97 body]
    by (auto simp: body_def off_def card_fields_ok_def split: option.splits)
  then show less: "off < length body" by (metis drop_all list.distinct(1) not_le_imp_less)
  have "body ! off = of_nat (length n)" using hd_drop_conv_nth [OF less] rest by simp
  then show "unat (body ! off) = length n" using assms(1) by (simp add: card_fields_ok_def MAX_NAME_BYTES_def)
  show "length body = Suc off + length n"
    using card_body_length [OF assms(1)] by (simp add: body_def off_def)
  have "drop (Suc off) body = n" using rest by (metis drop_Suc list.sel(3) tl_drop)
  then show "take (length n) (drop (Suc off) body) = n" by simp
qed

lemma parse_v3_body:
  assumes "b64_correct E" and "card_fields_ok c onion relay nm"
  defines "body \<equiv> card_body c onion relay nm"
  shows "parse_v3 C E (Url_encode E (body @ card_checksum C body)) = Inr (canonical c onion relay nm)"
proof -
  let ?bs = "body @ card_checksum C body"
  have dec: "Url_decode E (Url_encode E ?bs) = Some ?bs" and len: "length (Url_encode E ?bs) = (4 * length ?bs + 2) div 3"
    using assms(1) by (simp_all only: b64_correct_def)
  have lb: "97 \<le> length body" "length body \<le> 226" using card_body_bounds [OF assms(2)] by (simp_all add: body_def)
  have "(4 * length ?bs + 2) div 3 \<le> (4 * 230 + 2) div 3" using lb(2) by (intro div_le_mono) simp
  then have fits: "\<not> length (Url_encode E ?bs) + length V3_PREFIX > MAX_V3_CHARS"
    unfolding len by (simp add: V3_PREFIX_def ascii_def MAX_V3_CHARS_def)
  note S = card_body_slices [OF assms(2), folded body_def]
  have relay: "take 32 (drop 97 body) = r" "129 \<le> length body" if "relay = Some r" for r
    using S(5) that assms(2) card_body_length [OF assms(2)] by (simp_all add: card_fields_ok_def body_def)
  have nolen: "length body = (if relay \<noteq> None then 129 else 97)" if "nm = None"
    using card_body_length [OF assms(2)] that by (simp add: body_def)
  have on: "length onion = 32" using assms(2) by (simp add: card_fields_ok_def)
  show ?thesis
  proof (cases nm)
    case None
    with S fits dec lb relay nolen on show ?thesis
      by (cases relay) (simp_all add: parse_v3_def Let_def flag_bits MAX_V3_BYTES_def canonical_def)
  next
    case (Some n)
    note N = card_body_name [OF assms(2) [unfolded Some]]
    have n: "n \<noteq> []" "length n \<le> MAX_NAME_BYTES" "utf8_valid n" using assms(2) Some by (simp_all add: card_fields_ok_def)
    with Some S fits dec lb relay N [folded Some, folded body_def] show ?thesis
      by (cases relay) (simp_all add: parse_v3_def Let_def flag_bits MAX_V3_BYTES_def canonical_def)
  qed
qed

lemma card_encode_cases:
  assumes "card_encode C E c = Inr s"
  obtains onion relay nm where "address_hash C E (cc_onion c) = Inr onion"
    and "(case cc_relay c of None \<Rightarrow> relay = None | Some a \<Rightarrow> \<exists>r. address_hash C E a = Inr r \<and> relay = Some r)"
    and "nm = (if cc_name c = Some [] then None else cc_name c)" and "\<forall>n. nm = Some n \<longrightarrow> length n \<le> MAX_NAME_BYTES"
    and "s = V3_PREFIX @ Url_encode E (card_body c onion relay nm @ card_checksum C (card_body c onion relay nm))"
proof -
  obtain onion where o: "address_hash C E (cc_onion c) = Inr onion" using assms by (auto simp: card_encode_def split: sum.splits)
  define nm where "nm = (if cc_name c = Some [] then None else cc_name c)"
  have nm: "(case cc_name c of Some [] \<Rightarrow> None | n \<Rightarrow> n) = nm" by (auto simp: nm_def split: option.split list.split)
  obtain relay where r: "(case cc_relay c of None \<Rightarrow> Inr None
      | Some r \<Rightarrow> (case address_hash C E r of Inl e \<Rightarrow> Inl e | Inr h \<Rightarrow> Inr (Some h))) = (Inr relay :: CardError + bytes option)"
    using assms o by (simp add: card_encode_def split: sum.splits option.splits)
  from assms have "\<forall>n. nm = Some n \<longrightarrow> length n \<le> MAX_NAME_BYTES"
    "s = V3_PREFIX @ Url_encode E (card_body c onion relay nm @ card_checksum C (card_body c onion relay nm))"
    unfolding card_encode_def o r sum.case Let_def nm by (auto split: if_splits option.splits)
  with o r nm_def that show thesis by (auto split: option.splits sum.splits)
qed

lemma v3_trim:
  assumes "b64_correct E" and "p = Url_encode E b" and "b \<noteq> []"
  shows "trim (V3_PREFIX @ p) = V3_PREFIX @ p"
proof (rule utf8_trim_id)
  have "length p = (4 * length b + 2) div 3" using assms(1,2) by (simp only: b64_correct_def)
  moreover have "3 \<le> 4 * length b + 2" using assms(3) by (cases b) auto
  ultimately have "length p > 0" by (simp add: div_greater_zero_iff)
  then have "last p \<in> set p" "last (V3_PREFIX @ p) = last p" by auto
  then show "0x20 < last (V3_PREFIX @ p)" "last (V3_PREFIX @ p) < 0x80" using assms by (auto simp: b64_correct_def)
qed (simp_all add: V3_PREFIX_def ascii_def)

text \<open>
  C17. A card that is written can be read: the reader gets the same keys and name (an empty name as
  none) and the destinations of the same addresses, in base32. What was read is written back as
  the same text, which is at most 316 characters long.
\<close>

theorem card_roundtrip:
  assumes "b64_correct E" and "sha_len C" and "card_encode C E c = Inr s"
    and "length (cc_sign_pk c) = 32" and "length (cc_dh_pk c) = 32" and "\<forall>n. cc_name c = Some n \<longrightarrow> utf8_valid n"
  shows "\<exists>d. card_parse C E s = Inr d \<and> card_identity d = card_identity c \<and>
           cc_name d = (if cc_name c = Some [] then None else cc_name c) \<and>
           same_destination C E (cc_onion d) (cc_onion c) \<and>
           (case cc_relay c of None \<Rightarrow> cc_relay d = None | Some a \<Rightarrow> \<exists>b. cc_relay d = Some b \<and> same_destination C E b a) \<and>
           card_encode C E d = Inr s \<and> length s \<le> MAX_V3_CHARS"
proof -
  from assms(3) obtain onion relay nm where o: "address_hash C E (cc_onion c) = Inr onion"
    and r: "case cc_relay c of None \<Rightarrow> relay = None | Some a \<Rightarrow> \<exists>r. address_hash C E a = Inr r \<and> relay = Some r"
    and nm: "nm = (if cc_name c = Some [] then None else cc_name c)" "\<forall>n. nm = Some n \<longrightarrow> length n \<le> MAX_NAME_BYTES"
    and s: "s = V3_PREFIX @ Url_encode E (card_body c onion relay nm @ card_checksum C (card_body c onion relay nm))"
    by (rule card_encode_cases)
  let ?body = "card_body c onion relay nm"
  let ?p = "Url_encode E (?body @ card_checksum C ?body)"
  let ?d = "canonical c onion relay nm"
  have lens: "length onion = 32" "\<forall>r. relay = Some r \<longrightarrow> length r = 32"
    using address_hash_len [OF assms(2)] o r by (auto split: option.splits)
  have ok: "card_fields_ok c onion relay nm"
    using assms(4-6) lens nm by (auto simp: card_fields_ok_def split: if_splits)
  have p: "parse_v3 C E ?p = Inr ?d" by (rule parse_v3_body [OF assms(1) ok])
  have "trim s = s" unfolding s by (rule v3_trim [OF assms(1) refl]) (simp add: card_body_def)
  then have parse: "card_parse C E s = Inr ?d" using p by (simp add: card_parse_def s strip_prefix_def starts_with_def)
  have ao: "address_hash C E (b32_address onion) = Inr onion" by (rule address_hash_b32 [OF lens(1)])
  have ar: "address_hash C E (b32_address x) = Inr x" if "relay = Some x" for x using lens(2) that by (simp add: address_hash_b32)
  have "card_body ?d onion relay nm = ?body" by (simp add: card_body_def canonical_def)
  moreover have "\<not> (case nm of Some n \<Rightarrow> length n > MAX_NAME_BYTES | None \<Rightarrow> False)" using nm(2) by (auto simp: not_less split: option.split)
  moreover have "nm \<noteq> Some []" by (simp add: nm(1))
  ultimately have enc: "card_encode C E ?d = Inr s"
    using ao ar by (auto simp: card_encode_def canonical_def s Let_def split: option.splits list.splits)
  have "length s \<le> MAX_V3_CHARS" using p unfolding s parse_v3_def by (auto split: if_splits)
  with parse enc o r ao ar nm show ?thesis
    by (intro exI [of _ ?d]) (auto simp: canonical_def card_identity_def same_destination_def split: option.splits)
qed

lemma name_kept:
  "(\<And>n. nm = Some n \<Longrightarrow> n \<noteq> [] \<and> length n \<le> MAX_NAME_BYTES) \<Longrightarrow>
     (case nm of Some [] \<Rightarrow> None | n \<Rightarrow> n) = nm \<and> \<not> (case nm of Some n \<Rightarrow> length n > MAX_NAME_BYTES | None \<Rightarrow> False)"
  by (auto simp: not_less split: option.split list.split)

lemma flag_cases:
  assumes "f AND NOT 3 = (0 :: u8)"
  shows "f = (if f AND 1 \<noteq> 0 then 1 else 0) OR push_bit 1 (if f AND 2 \<noteq> 0 then 1 else 0)"
proof -
  have "f = (f AND 3) OR (f AND NOT 3)" by (simp flip: bit.conj_disj_distrib)
  with assms have "f = f AND 3" by simp
  also have "\<dots> = take_bit 2 f" by (simp add: take_bit_eq_mask mask_numeral)
  finally have "unat f = unat (take_bit 2 f)" by (rule arg_cong)
  also have "\<dots> = unat f mod 4" unfolding unsigned_take_bit_eq by (simp add: take_bit_eq_mod)
  finally have "unat f = unat f mod 4" .
  then have "unat f < 4" by (metis mod_less_divisor zero_less_numeral)
  then have "unat f = 0 \<or> unat f = 1 \<or> unat f = 2 \<or> unat f = 3" by linarith
  then have "f = 0 \<or> f = 1 \<or> f = 2 \<or> f = 3" by (simp add: word_unat_eq_iff)
  then show ?thesis by (elim disjE) simp_all
qed

lemma body_split:
  assumes "97 \<le> length body"
  shows "body = [body ! 0] @ take 32 (drop 1 body) @ take 32 (drop 33 body) @ take 32 (drop 65 body) @ drop 97 body"
proof -
  have t: "drop k body = take 32 (drop k body) @ drop (32 + k) body" for k
    by (simp only: append_take_drop_id drop_drop [symmetric])
  have "body = take 1 body @ drop 1 body" by simp
  also have "take 1 body = [body ! 0]" using assms by (cases body) auto
  also have "drop 1 body = take 32 (drop 1 body) @ drop 33 body" using t [of 1] by simp
  also have "drop 33 body = take 32 (drop 33 body) @ drop 65 body" using t [of 33] by simp
  also have "drop 65 body = take 32 (drop 65 body) @ drop 97 body" using t [of 65] by simp
  finally show ?thesis by simp
qed

text \<open>The parts of a body that is read, named as \<open>parse_v3\<close> names them.\<close>

definition name_at :: "bytes \<Rightarrow> nat" where
  "name_at b = (if b ! 0 AND 1 \<noteq> 0 then 129 else 97)"

definition read_relay :: "bytes \<Rightarrow> bytes option" where
  "read_relay b = (if b ! 0 AND 1 \<noteq> 0 then Some (take 32 (drop 97 b)) else None)"

definition read_name :: "bytes \<Rightarrow> bytes option" where
  "read_name b = (if b ! 0 AND 2 \<noteq> 0 then Some (take (unat (b ! name_at b)) (drop (Suc (name_at b)) b)) else None)"

definition body_ok :: "bytes \<Rightarrow> bool" where
  "body_ok b \<longleftrightarrow> 97 \<le> length b \<and> b ! 0 AND NOT 3 = 0 \<and> (b ! 0 AND 1 \<noteq> 0 \<longrightarrow> 129 \<le> length b) \<and>
     (if b ! 0 AND 2 \<noteq> 0
      then unat (b ! name_at b) \<noteq> 0 \<and> unat (b ! name_at b) \<le> MAX_NAME_BYTES \<and> length b = Suc (name_at b) + unat (b ! name_at b)
      else length b = name_at b)"

lemma parse_v3_parts:
  assumes "b64_correct E" and "parse_v3 C E payload = Inr c"
  obtains b where "body_ok b" and "payload = Url_encode E (b @ card_checksum C b)"
    and "c = canonical c (take 32 (drop 65 b)) (read_relay b) (read_name b)"
    and "cc_sign_pk c = take 32 (drop 1 b)" and "cc_dh_pk c = take 32 (drop 33 b)"
proof -
  from assms(2) obtain bs where bs: "101 \<le> length bs" "Url_encode E bs = payload"
    by (auto simp: parse_v3_def split: if_splits option.splits)
  define b where "b = take (length bs - 4) bs"
  have dec: "Url_decode E payload = Some bs" using assms(1) bs(2) by (auto simp: b64_correct_def)
  note P = assms(2) [unfolded parse_v3_def dec, folded b_def]
  have sum: "card_checksum C b = drop (length bs - 4) bs" using P by (auto simp: Let_def b_def split: if_splits)
  then have "b @ card_checksum C b = bs" by (simp add: b_def)
  moreover have "body_ok b"
    using P bs(1) by (auto simp: body_ok_def name_at_def Let_def b_def split: if_splits)
  moreover have "c = canonical c (take 32 (drop 65 b)) (read_relay b) (read_name b)"
    "cc_sign_pk c = take 32 (drop 1 b)" "cc_dh_pk c = take 32 (drop 33 b)"
    using P by (auto simp: Let_def canonical_def read_relay_def read_name_def name_at_def b_def split: if_splits)
  ultimately show thesis using that bs(2) by simp
qed

lemma read_name_rest:
  assumes "body_ok b"
  shows "(case read_name b of Some n \<Rightarrow> of_nat (length n) # n | None \<Rightarrow> []) = drop (name_at b) b"
    and "read_name b = Some n \<Longrightarrow> n \<noteq> [] \<and> length n \<le> MAX_NAME_BYTES"
  using assms Cons_nth_drop_Suc [of "name_at b" b] by (auto simp: body_ok_def read_name_def split: if_splits)

lemma card_body_rebuild:
  assumes "body_ok b" and "cc_sign_pk c = take 32 (drop 1 b)" and "cc_dh_pk c = take 32 (drop 33 b)"
  shows "card_body c (take 32 (drop 65 b)) (read_relay b) (read_name b) = b"
proof -
  have rest: "(case read_relay b of Some r \<Rightarrow> r | None \<Rightarrow> []) @ (case read_name b of Some n \<Rightarrow> of_nat (length n) # n | None \<Rightarrow> []) = drop 97 b"
    unfolding read_name_rest(1) [OF assms(1)]
    using append_take_drop_id [of 32 "drop 97 b"] by (simp add: read_relay_def name_at_def drop_drop)
  have "read_relay b \<noteq> None \<longleftrightarrow> b ! 0 AND 1 \<noteq> 0" "read_name b \<noteq> None \<longleftrightarrow> b ! 0 AND 2 \<noteq> 0"
    by (simp_all add: read_relay_def read_name_def)
  then have flag: "(if read_relay b \<noteq> None then 1 else 0) OR push_bit 1 (if read_name b \<noteq> None then 1 else 0) = b ! 0"
    using flag_cases [of "b ! 0", symmetric] assms(1) by (simp only: body_ok_def)
  have "97 \<le> length b" using assms(1) by (simp add: body_ok_def)
  from body_split [OF this, symmetric] show ?thesis unfolding card_body_def flag rest assms(2,3) .
qed

text \<open>
  A card has one v3 spelling: any text that is read as a v3 card is, but for white space
  around it, the text the card is written as.
\<close>

theorem card_canonical:
  assumes "b64_correct E" and "parse_v3 C E payload = Inr c"
  shows "card_encode C E c = Inr (V3_PREFIX @ payload)"
proof -
  obtain b where b: "body_ok b" "payload = Url_encode E (b @ card_checksum C b)"
    "c = canonical c (take 32 (drop 65 b)) (read_relay b) (read_name b)"
    "cc_sign_pk c = take 32 (drop 1 b)" "cc_dh_pk c = take 32 (drop 33 b)"
    by (rule parse_v3_parts [OF assms])
  have f: "cc_onion c = b32_address (take 32 (drop 65 b))" "cc_relay c = map_option b32_address (read_relay b)" "cc_name c = read_name b"
    by (subst b(3), simp add: canonical_def)+
  have ho: "address_hash C E (cc_onion c) = Inr (take 32 (drop 65 b))"
    unfolding f(1) by (rule address_hash_b32) (use b(1) in \<open>auto simp: body_ok_def\<close>)
  have hr: "(case cc_relay c of None \<Rightarrow> Inr None
      | Some r \<Rightarrow> (case address_hash C E r of Inl e \<Rightarrow> Inl e | Inr h \<Rightarrow> Inr (Some h))) = Inr (read_relay b)"
    using b(1) by (auto simp: f(2) read_relay_def body_ok_def address_hash_b32)
  have nm: "(case read_name b of Some [] \<Rightarrow> None | n \<Rightarrow> n) = read_name b"
    "\<not> (case read_name b of Some n \<Rightarrow> length n > MAX_NAME_BYTES | None \<Rightarrow> False)"
    using name_kept [of "read_name b"] read_name_rest(2) [OF b(1)] by blast+
  show ?thesis
    unfolding card_encode_def ho hr sum.case Let_def f(3) nm(1) card_body_rebuild [OF b(1,4,5)] b(2) using nm(2) by (simp only: if_False)
qed

text \<open>
  The three readers of addresses agree on what the program writes: the base32 spelling of a
  destination hash is accepted as an address, and both \<open>address_hash\<close> (cards) and
  \<open>destination_hash\<close> (what a login to a relay signs) read that hash from it, in capitals too. So
  two different hashes never share a spelling.
\<close>

theorem b32_readers_agree:
  assumes "length h = 32"
  shows "address_hash C E (b32_address h) = Inr h \<and> destination_hash C (b32_address h) = Some h \<and>
         is_valid_i2p_address (b32_address h) \<and> length (b32_address h) = 60 \<and>
         (\<forall>h'. length h' = 32 \<longrightarrow> same_destination C E (b32_address h) (b32_address h') = (h = h'))"
proof -
  have v: "(0x61 \<le> c \<and> c \<le> 0x7A) \<or> (0x32 \<le> c \<and> c \<le> 0x37)" if "c \<in> set (b32_host h)" for c
  proof -
    obtain d where d: "c = ALPHABET ! d" "d < 32" using b32_host_mem [OF \<open>c \<in> set (b32_host h)\<close>] by blast
    then have "b32_digit c \<noteq> None" using alphabet(1) [OF d(2)] by simp
    then show ?thesis by (auto simp: b32_digit_def split: if_splits)
  qed
  have "is_valid_i2p_address (b32_address h)"
    unfolding is_valid_i2p_address_def Let_def b32_trim [OF assms]
    using v by (simp add: b32_address_host [OF assms] strip_suffix_append b32_host_props(1) list_all_iff) blast
  moreover have "length (b32_address h) = 60"
    by (simp add: b32_address_host [OF assms] b32_host_props(1) ascii_suffix)
  ultimately show ?thesis
    using address_hash_b32 destination_hash_b32 assms by (auto simp: same_destination_def)
qed

section \<open>Witnesses\<close>

text \<open>Base64 with other symbols: the digits of the padded number, at the characters from \<open>0\<close> on.\<close>

definition toy_b64 :: b64 where
  "toy_b64 =
     \<lparr>Url_encode = (\<lambda>b. let n = (4 * length b + 2) div 3
                        in map (\<lambda>d. of_nat (d + 48)) (dig 64 n (ofd 256 (map unat b) * 2 ^ (6 * n - 8 * length b)))),
      Url_decode = (\<lambda>s. let l = length s * 3 div 4
                        in Some (map of_nat (dig 256 l (ofd 64 (map (\<lambda>c. unat c - 48) s) div 2 ^ (6 * length s - 8 * l))))),
      Std_decode = (\<lambda>_. None)\<rparr>"

lemma quarters: "(4 * l + 2) div 3 * 3 div 4 = l" "8 * l \<le> 6 * ((4 * l + 2) div 3)" for l :: nat
  by presburger+

lemma toy_b64_correct: "b64_correct toy_b64"
  unfolding b64_correct_def
proof (intro allI conjI)
  fix b :: bytes
  let ?n = "(4 * length b + 2) div 3"
  let ?W = "ofd 256 (map unat b) * 2 ^ (6 * ?n - 8 * length b)"
  have enc: "Url_encode toy_b64 b = map (\<lambda>d. of_nat (d + 48)) (dig 64 ?n ?W)" by (simp add: toy_b64_def Let_def)
  have d: "d + 48 < 128" if "d \<in> set (dig 64 ?n ?W)" for d using dig_less [OF _ that] by simp
  have "ofd 256 (map unat b) < 256 ^ length b" using ofd_less [of "map unat b" 256] unat_u8_less by auto
  then have "?W < 256 ^ length b * 2 ^ (6 * ?n - 8 * length b)" by simp
  also have "\<dots> = 2 ^ (8 * length b + (6 * ?n - 8 * length b))" unfolding power_add power_mult by simp
  also have "\<dots> = 2 ^ (6 * ?n)" using quarters(2) [of "length b"] by simp
  also have "\<dots> = 64 ^ ?n" unfolding power_mult by simp
  finally have W: "?W mod 64 ^ ?n = ?W" by simp
  have "map (\<lambda>c. unat c - 48) (map (\<lambda>d. of_nat (d + 48) :: u8) (dig 64 ?n ?W)) = dig 64 ?n ?W"
  proof (unfold map_map, rule map_idI)
    fix x assume "x \<in> set (dig 64 ?n ?W)"
    then have "x + 48 < 256" using d by fastforce
    then show "((\<lambda>c. unat c - 48) \<circ> (\<lambda>d. of_nat (d + 48) :: u8)) x = x" by (simp only: comp_apply unat_of_nat_u8 add_diff_cancel_right')
  qed
  moreover have "dig 256 (length b) (ofd 256 (map unat b)) = map unat b"
    using dig_ofd [of "map unat b" 256] unat_u8_less by simp
  ultimately have "Url_decode toy_b64 (Url_encode toy_b64 b) = Some (map of_nat (map unat b))"
    unfolding enc using ofd_dig [of 64 ?n ?W] W quarters(1) [of "length b"] by (simp add: toy_b64_def Let_def)
  then show "Url_decode toy_b64 (Url_encode toy_b64 b) = Some b" by (simp add: map_idI)
  show "length (Url_encode toy_b64 b) = (4 * length b + 2) div 3" by (simp add: enc)
  show "\<forall>c \<in> set (Url_encode toy_b64 b). 0x20 < c \<and> c < 0x80"
  proof
    fix c assume "c \<in> set (Url_encode toy_b64 b)"
    then obtain x where x: "c = of_nat (x + 48)" "x \<in> set (dig 64 ?n ?W)" unfolding enc by auto
    have "x + 48 < 256" using d [OF x(2)] by simp
    then have "unat c = x + 48" unfolding x(1) by (rule unat_of_nat_u8)
    then show "0x20 < c \<and> c < 0x80" using d [OF x(2)] by (simp add: word_less_nat_alt)
  qed
qed

lemma toy_sha_len: "sha_len toy_crypto"
  by (simp add: sha_len_def toy_crypto_def)

definition toy_card :: ContactCard where
  "toy_card = \<lparr>cc_onion = b32_address (replicate 32 1), cc_sign_pk = replicate 32 2, cc_dh_pk = replicate 32 3,
     cc_relay = Some (b32_address (replicate 32 4)), cc_name = Some [65]\<rparr>"

definition toy_body :: bytes where
  "toy_body = card_body toy_card (replicate 32 1) (Some (replicate 32 4)) (Some [65])"

lemma toy_card_encode: "card_encode toy_crypto toy_b64 toy_card = Inr (V3_PREFIX @ Url_encode toy_b64 (toy_body @ card_checksum toy_crypto toy_body))"
  unfolding card_encode_def toy_body_def by (simp add: toy_card_def address_hash_b32 MAX_NAME_BYTES_def Let_def)

theorem card_roundtrip_witness:
  "\<exists>s d. card_encode toy_crypto toy_b64 toy_card = Inr s \<and> card_parse toy_crypto toy_b64 s = Inr d \<and> card_identity d = card_identity toy_card"
  using card_roundtrip [OF toy_b64_correct toy_sha_len toy_card_encode] toy_card_encode by (auto simp: toy_card_def)

theorem card_canonical_witness:
  "\<exists>c. parse_v3 toy_crypto toy_b64 (Url_encode toy_b64 (toy_body @ card_checksum toy_crypto toy_body)) = Inr c \<and>
     card_encode toy_crypto toy_b64 c = Inr (V3_PREFIX @ Url_encode toy_b64 (toy_body @ card_checksum toy_crypto toy_body))"
proof -
  have "card_fields_ok toy_card (replicate 32 1) (Some (replicate 32 4)) (Some [65])"
    by (simp add: card_fields_ok_def toy_card_def MAX_NAME_BYTES_def)
  from parse_v3_body [OF toy_b64_correct this, of toy_crypto, folded toy_body_def] card_canonical [OF toy_b64_correct]
  show ?thesis by blast
qed

theorem b32_readers_agree_witness:
  "destination_hash toy_crypto (b32_address (replicate 32 7)) = Some (replicate 32 7)"
  using b32_readers_agree [of "replicate 32 7" toy_crypto toy_b64] by simp

end
