(* ===== verification/Bincode.thy ===== *)
theory Bincode
  imports Prelude
begin

text \<open>
  What the wire formats rely on of the \<open>bincode\<close> crate, which is not part of this repository: a codec
  is a pair of functions, a value that fits the format is read back with what follows it untouched,
  and nothing can be read from no bytes at all (\<open>bc_ok\<close>). The values that fit (\<open>bc_dom\<close>) are those
  whose integers and lengths are within their width.

  The combinators below are an instance of these laws, in the fixed-width little-endian layout the
  crate documents: an \<open>Option\<close> is a tag byte, a \<open>Vec\<close> its length in eight bytes and then its
  elements, a tuple its components one after the other. They serve to show that the laws can hold.
\<close>

record 'a bc =
  bc_enc :: "'a \<Rightarrow> bytes"
  bc_dec :: "bytes \<Rightarrow> ('a \<times> bytes) option"
  bc_dom :: "'a \<Rightarrow> bool"

definition bc_ok :: "'a bc \<Rightarrow> bool" where
  "bc_ok b \<longleftrightarrow> (\<forall>x r. bc_dom b x \<longrightarrow> bc_dec b (bc_enc b x @ r) = Some (x, r)) \<and> bc_dec b [] = None"

lemma bc_okI:
  "(\<And>x r. bc_dom b x \<Longrightarrow> bc_dec b (bc_enc b x @ r) = Some (x, r)) \<Longrightarrow> bc_dec b [] = None \<Longrightarrow> bc_ok b"
  by (simp add: bc_ok_def)

lemma bc_ok_dec: "bc_ok b \<Longrightarrow> bc_dom b x \<Longrightarrow> bc_dec b (bc_enc b x @ r) = Some (x, r)"
  by (simp add: bc_ok_def)

lemma bc_ok_empty: "bc_ok b \<Longrightarrow> bc_dec b [] = None"
  by (simp add: bc_ok_def)

section \<open>An instance\<close>

definition bc_le :: "nat \<Rightarrow> nat bc" where
  "bc_le w =
     \<lparr>bc_enc = le_bytes w,
      bc_dec = (\<lambda>s. if length s < w then None else Some (of_le_bytes (take w s), drop w s)),
      bc_dom = (\<lambda>n. n < 256 ^ w)\<rparr>"

definition bc_conv :: "('a \<Rightarrow> 'b) \<Rightarrow> ('b \<Rightarrow> 'a) \<Rightarrow> 'b bc \<Rightarrow> 'a bc" where
  "bc_conv f g b =
     \<lparr>bc_enc = (\<lambda>x. bc_enc b (f x)),
      bc_dec = (\<lambda>s. map_option (\<lambda>(y, r). (g y, r)) (bc_dec b s)),
      bc_dom = (\<lambda>x. bc_dom b (f x) \<and> g (f x) = x)\<rparr>"

definition bc_pair :: "'a bc \<Rightarrow> 'b bc \<Rightarrow> ('a \<times> 'b) bc" where
  "bc_pair a b =
     \<lparr>bc_enc = (\<lambda>(x, y). bc_enc a x @ bc_enc b y),
      bc_dec = (\<lambda>s. case bc_dec a s of None \<Rightarrow> None
                    | Some (x, r) \<Rightarrow> map_option (\<lambda>(y, r'). ((x, y), r')) (bc_dec b r)),
      bc_dom = (\<lambda>(x, y). bc_dom a x \<and> bc_dom b y)\<rparr>"

definition bc_option :: "'a bc \<Rightarrow> 'a option bc" where
  "bc_option b =
     \<lparr>bc_enc = (\<lambda>x. case x of None \<Rightarrow> [0] | Some y \<Rightarrow> 1 # bc_enc b y),
      bc_dec = (\<lambda>s. case s of [] \<Rightarrow> None
                    | t # r \<Rightarrow> if t = 0 then Some (None, r)
                               else if t = 1 then map_option (\<lambda>(y, r'). (Some y, r')) (bc_dec b r)
                               else None),
      bc_dom = (\<lambda>x. case x of None \<Rightarrow> True | Some y \<Rightarrow> bc_dom b y)\<rparr>"

fun bc_items :: "'a bc \<Rightarrow> nat \<Rightarrow> bytes \<Rightarrow> ('a list \<times> bytes) option" where
  "bc_items b 0 s = Some ([], s)"
| "bc_items b (Suc n) s =
     (case bc_dec b s of None \<Rightarrow> None
      | Some (x, r) \<Rightarrow> map_option (\<lambda>(xs, r'). (x # xs, r')) (bc_items b n r))"

definition bc_list :: "'a bc \<Rightarrow> 'a list bc" where
  "bc_list b =
     \<lparr>bc_enc = (\<lambda>xs. le_bytes 8 (length xs) @ concat (map (bc_enc b) xs)),
      bc_dec = (\<lambda>s. case bc_dec (bc_le 8) s of None \<Rightarrow> None | Some (n, r) \<Rightarrow> bc_items b n r),
      bc_dom = (\<lambda>xs. length xs < 256 ^ 8 \<and> list_all (bc_dom b) xs)\<rparr>"

lemma bc_ok_le: "0 < w \<Longrightarrow> bc_ok (bc_le w)"
  by (rule bc_okI) (simp_all add: bc_le_def of_le_bytes_le_bytes)

lemma bc_ok_conv: "bc_ok b \<Longrightarrow> bc_ok (bc_conv f g b)"
  by (rule bc_okI) (simp_all add: bc_conv_def bc_ok_dec bc_ok_empty)

lemma bc_ok_pair: "bc_ok a \<Longrightarrow> bc_ok b \<Longrightarrow> bc_ok (bc_pair a b)"
  by (rule bc_okI) (auto simp: bc_pair_def bc_ok_dec bc_ok_empty)

lemma bc_ok_option: "bc_ok b \<Longrightarrow> bc_ok (bc_option b)"
  by (rule bc_okI) (auto simp: bc_option_def bc_ok_dec split: option.splits)

lemma bc_items_enc:
  assumes "bc_ok b"
  shows "list_all (bc_dom b) xs \<Longrightarrow> bc_items b (length xs) (concat (map (bc_enc b) xs) @ r) = Some (xs, r)"
  by (induction xs) (simp_all add: bc_ok_dec [OF assms])

lemma bc_ok_list:
  assumes "bc_ok b"
  shows "bc_ok (bc_list b)"
proof (rule bc_okI)
  fix xs r assume "bc_dom (bc_list b) xs"
  then show "bc_dec (bc_list b) (bc_enc (bc_list b) xs @ r) = Some (xs, r)"
    by (simp add: bc_list_def bc_le_def of_le_bytes_le_bytes bc_items_enc [OF assms])
qed (simp add: bc_list_def bc_le_def)

definition bc_word8 :: "u8 bc" where "bc_word8 = bc_conv unat of_nat (bc_le 1)"
definition bc_word64 :: "u64 bc" where "bc_word64 = bc_conv unat of_nat (bc_le 8)"
definition bc_bool :: "bool bc" where "bc_bool = bc_conv of_bool (\<lambda>n. n = 1) (bc_le 1)"
definition bc_bytes :: "bytes bc" where "bc_bytes = bc_list bc_word8"

definition bc_i64 :: "int bc" where
  "bc_i64 = bc_conv (\<lambda>i. nat (i mod 2 ^ 64)) (\<lambda>n. if n < 2 ^ 63 then int n else int n - 2 ^ 64) (bc_le 8)"

lemma bc_ok_basic: "bc_ok bc_word8" "bc_ok bc_word64" "bc_ok bc_bool" "bc_ok bc_bytes" "bc_ok bc_i64"
  by (simp_all add: bc_word8_def bc_word64_def bc_bool_def bc_bytes_def bc_i64_def bc_ok_conv bc_ok_le bc_ok_list)

lemmas bc_oks = bc_ok_basic bc_ok_le bc_ok_conv bc_ok_pair bc_ok_option bc_ok_list

lemmas bc_instance_defs = bc_le_def bc_conv_def bc_pair_def bc_option_def bc_list_def
  bc_word8_def bc_word64_def bc_bool_def bc_bytes_def bc_i64_def

end
