(* ===== verification/Message_Wire.thy ===== *)
theory Message_Wire
  imports Bincode
begin

text \<open>
  What two clients say to each other inside a session: \<open>libcore/src/message_wire.rs\<close>. A payload has
  grown field by field; each older layout is a prefix of the next, so the layouts are a chain of
  record extensions and \<open>From<&WirePayload> for WireVn\<close> is the truncation to a prefix.

  The encoding is \<open>bincode\<close>'s: a struct is the encodings of its fields one after the other with
  nothing in between, bytes that are left over after the last field are allowed, and bytes that end
  before the last field are an error. The codecs of the groups of fields a version added are
  parameters (\<open>wire_codec\<close>), with the laws of theory \<open>Bincode\<close> as hypotheses; strings are their
  UTF-8 bytes and an \<open>i64\<close> is an integer.
\<close>

section \<open>Data\<close>

record WireAttachment =
  at_name :: bytes
  at_data :: bytes

record WireButton =
  bt_text :: bytes
  bt_callback_data :: bytes

record WireMember =
  wm_sign_pk :: bytes
  wm_dh_pk :: bytes
  wm_onion :: bytes
  wm_name :: bytes

record WireGroupRef =
  wg_id :: bytes
  wg_name :: bytes
  wg_members :: "WireMember list"

record WirePin =
  wp_sender_sign_pk :: bytes
  wp_origin_msg_id :: u64
  wp_unpin :: bool

record WireReply =
  wr_sender_sign_pk :: bytes
  wr_origin_msg_id :: u64

record WireConsole =
  wc_kind :: u8
  wc_exit_code :: "int option"
  wc_duration_ms :: "u64 option"
  wc_truncated :: bool

definition CONSOLE_COMMAND :: u8 where "CONSOLE_COMMAND = 0"
definition CONSOLE_OUTPUT :: u8 where "CONSOLE_OUTPUT = 1"
definition CONSOLE_GRANT :: u8 where "CONSOLE_GRANT = 2"
definition CONSOLE_REVOKE :: u8 where "CONSOLE_REVOKE = 3"
definition CONSOLE_OFF :: u8 where "CONSOLE_OFF = 4"

definition new_console :: "u8 \<Rightarrow> WireConsole" where
  "new_console kind = \<lparr>wc_kind = kind, wc_exit_code = None, wc_duration_ms = None, wc_truncated = False\<rparr>"

record WireFileOffer =
  fo_file_id :: bytes
  fo_name :: bytes
  fo_size :: nat
  fo_sha256 :: bytes
  fo_chunk_size :: nat

record WireFileChunk =
  fc_file_id :: bytes
  fc_index :: nat
  fc_data :: bytes

record WireFileAck =
  fa_file_id :: bytes
  fa_received_up_to :: nat
  fa_missing :: "nat list"
  fa_seen_to :: nat
  fa_resumed :: bool
  fa_echo_index :: nat
  fa_echo_sent_at :: int

record DmReference =
  dr_author :: bytes
  dr_origin :: u64
  dr_sent_at :: int

record WireDm =
  dm_kind :: u8
  dm_reference :: DmReference

section \<open>The layouts\<close>

record WireV0 =
  w_origin_msg_id :: u64
  w_body :: bytes
  w_attachments :: "WireAttachment list"
  w_sent_at :: int
  w_ttl_ms :: "int option"
  w_group :: "WireGroupRef option"

record WireV1 = WireV0 +
  w_buttons :: "WireButton list list option"
  w_callback_data :: "bytes option"

record WireV2 = WireV1 +
  w_edit_of :: "u64 option"
  w_pin :: "WirePin option"

record WireV3 = WireV2 +
  w_ack_for :: "u64 option"

record WireV4 = WireV3 +
  w_sender_name :: "bytes option"

record WireV5 = WireV4 +
  w_reply_to :: "WireReply option"

record WireV6 = WireV5 +
  w_typing :: "bool option"

record WireV7 = WireV6 +
  w_notify_sound :: "bytes option"

record WireV8 = WireV7 +
  w_console :: "WireConsole option"
  w_relay_address :: "bytes option"

record WireV9 = WireV8 +
  w_wipe :: "bool option"

record WireV10 = WireV9 +
  w_files :: "WireFileOffer list"
  w_file_chunk :: "WireFileChunk option"
  w_file_ack :: "WireFileAck option"
  w_file_cancel :: "bytes option"

record WirePayload = WireV10 +
  w_dm :: "WireDm option"

text \<open>\<open>From<WireVn> for WirePayload\<close>: the fields a layout does not have are empty.\<close>

definition from_v10 :: "WireV10 \<Rightarrow> WirePayload" where
  "from_v10 v = WireV10.extend v (WirePayload.fields None)"

definition from_v9 :: "WireV9 \<Rightarrow> WirePayload" where
  "from_v9 v = from_v10 (WireV9.extend v (WireV10.fields [] None None None))"

definition from_v8 :: "WireV8 \<Rightarrow> WirePayload" where
  "from_v8 v = from_v9 (WireV8.extend v (WireV9.fields None))"

definition from_v7 :: "WireV7 \<Rightarrow> WirePayload" where
  "from_v7 v = from_v8 (WireV7.extend v (WireV8.fields None None))"

definition from_v6 :: "WireV6 \<Rightarrow> WirePayload" where
  "from_v6 v = from_v7 (WireV6.extend v (WireV7.fields None))"

definition from_v5 :: "WireV5 \<Rightarrow> WirePayload" where
  "from_v5 v = from_v6 (WireV5.extend v (WireV6.fields None))"

definition from_v4 :: "WireV4 \<Rightarrow> WirePayload" where
  "from_v4 v = from_v5 (WireV4.extend v (WireV5.fields None))"

definition from_v3 :: "WireV3 \<Rightarrow> WirePayload" where
  "from_v3 v = from_v4 (WireV3.extend v (WireV4.fields None))"

definition from_v2 :: "WireV2 \<Rightarrow> WirePayload" where
  "from_v2 v = from_v3 (WireV2.extend v (WireV3.fields None))"

definition from_v1 :: "WireV1 \<Rightarrow> WirePayload" where
  "from_v1 v = from_v2 (WireV1.extend v (WireV2.fields None None))"

definition from_v0 :: "WireV0 \<Rightarrow> WirePayload" where
  "from_v0 v = from_v1 (WireV0.extend v (WireV1.fields None None))"

text \<open>\<open>WirePayload::simple\<close>.\<close>

definition simple :: "u64 \<Rightarrow> bytes \<Rightarrow> WireAttachment list \<Rightarrow> int \<Rightarrow> int option \<Rightarrow> WirePayload" where
  "simple origin body attachments sent_at ttl_ms =
     from_v0 \<lparr>w_origin_msg_id = origin, w_body = body, w_attachments = attachments, w_sent_at = sent_at,
              w_ttl_ms = ttl_ms, w_group = None\<rparr>"

text \<open>\<open>From<&WirePayload> for WireVn\<close>.\<close>

definition v1_of :: "WirePayload \<Rightarrow> WireV1" where "v1_of p = WireV1.truncate p"
definition v2_of :: "WirePayload \<Rightarrow> WireV2" where "v2_of p = WireV2.truncate p"
definition v3_of :: "WirePayload \<Rightarrow> WireV3" where "v3_of p = WireV3.truncate p"
definition v4_of :: "WirePayload \<Rightarrow> WireV4" where "v4_of p = WireV4.truncate p"
definition v5_of :: "WirePayload \<Rightarrow> WireV5" where "v5_of p = WireV5.truncate p"
definition v6_of :: "WirePayload \<Rightarrow> WireV6" where "v6_of p = WireV6.truncate p"
definition v7_of :: "WirePayload \<Rightarrow> WireV7" where "v7_of p = WireV7.truncate p"
definition v8_of :: "WirePayload \<Rightarrow> WireV8" where "v8_of p = WireV8.truncate p"
definition v9_of :: "WirePayload \<Rightarrow> WireV9" where "v9_of p = WireV9.truncate p"
definition v10_of :: "WirePayload \<Rightarrow> WireV10" where "v10_of p = WireV10.truncate p"

text \<open>\<open>WireDm::is_control_payload\<close>.\<close>

definition is_control_payload :: "WireDm \<Rightarrow> WirePayload \<Rightarrow> bool" where
  "is_control_payload d p \<longleftrightarrow>
     1 \<le> dm_kind d \<and> dm_kind d \<le> 10 \<and> w_group p = None \<and> w_origin_msg_id p = 0 \<and>
     w_body p = [] \<and> w_attachments p = [] \<and> w_files p = [] \<and>
     w_file_chunk p = None \<and> w_file_ack p = None \<and> w_file_cancel p = None \<and>
     w_edit_of p = None \<and> w_wipe p = None \<and> w_console p = None \<and>
     w_callback_data p = None \<and> w_ack_for p = None \<and> w_typing p = None \<and>
     w_pin p = None \<and> w_reply_to p = None \<and> w_ttl_ms p = None \<and>
     w_buttons p = None \<and> w_notify_sound p = None"

section \<open>The encoding\<close>

record wire_codec =
  b0 :: "WireV0 bc"
  b1 :: "((WireButton list list option) \<times> (bytes option)) bc"
  b2 :: "((u64 option) \<times> (WirePin option)) bc"
  b3 :: "((u64 option)) bc"
  b4 :: "((bytes option)) bc"
  b5 :: "((WireReply option)) bc"
  b6 :: "((bool option)) bc"
  b7 :: "((bytes option)) bc"
  b8 :: "((WireConsole option) \<times> (bytes option)) bc"
  b9 :: "((bool option)) bc"
  b10 :: "((WireFileOffer list) \<times> (WireFileChunk option) \<times> (WireFileAck option) \<times> (bytes option)) bc"
  b11 :: "((WireDm option)) bc"

definition codec_ok :: "wire_codec \<Rightarrow> bool" where
  "codec_ok W \<longleftrightarrow>
     bc_ok (b0 W) \<and> bc_ok (b1 W) \<and> bc_ok (b2 W) \<and> bc_ok (b3 W) \<and> bc_ok (b4 W) \<and> bc_ok (b5 W) \<and>
     bc_ok (b6 W) \<and> bc_ok (b7 W) \<and> bc_ok (b8 W) \<and> bc_ok (b9 W) \<and> bc_ok (b10 W) \<and> bc_ok (b11 W)"

definition ser_v0 :: "wire_codec \<Rightarrow> WireV0 \<Rightarrow> bytes" where
  "ser_v0 W v = bc_enc (b0 W) v"

definition ser_v1 :: "wire_codec \<Rightarrow> WireV1 \<Rightarrow> bytes" where
  "ser_v1 W v = ser_v0 W (WireV0.truncate v) @ bc_enc (b1 W) (w_buttons v, w_callback_data v)"

definition ser_v2 :: "wire_codec \<Rightarrow> WireV2 \<Rightarrow> bytes" where
  "ser_v2 W v = ser_v1 W (WireV1.truncate v) @ bc_enc (b2 W) (w_edit_of v, w_pin v)"

definition ser_v3 :: "wire_codec \<Rightarrow> WireV3 \<Rightarrow> bytes" where
  "ser_v3 W v = ser_v2 W (WireV2.truncate v) @ bc_enc (b3 W) (w_ack_for v)"

definition ser_v4 :: "wire_codec \<Rightarrow> WireV4 \<Rightarrow> bytes" where
  "ser_v4 W v = ser_v3 W (WireV3.truncate v) @ bc_enc (b4 W) (w_sender_name v)"

definition ser_v5 :: "wire_codec \<Rightarrow> WireV5 \<Rightarrow> bytes" where
  "ser_v5 W v = ser_v4 W (WireV4.truncate v) @ bc_enc (b5 W) (w_reply_to v)"

definition ser_v6 :: "wire_codec \<Rightarrow> WireV6 \<Rightarrow> bytes" where
  "ser_v6 W v = ser_v5 W (WireV5.truncate v) @ bc_enc (b6 W) (w_typing v)"

definition ser_v7 :: "wire_codec \<Rightarrow> WireV7 \<Rightarrow> bytes" where
  "ser_v7 W v = ser_v6 W (WireV6.truncate v) @ bc_enc (b7 W) (w_notify_sound v)"

definition ser_v8 :: "wire_codec \<Rightarrow> WireV8 \<Rightarrow> bytes" where
  "ser_v8 W v = ser_v7 W (WireV7.truncate v) @ bc_enc (b8 W) (w_console v, w_relay_address v)"

definition ser_v9 :: "wire_codec \<Rightarrow> WireV9 \<Rightarrow> bytes" where
  "ser_v9 W v = ser_v8 W (WireV8.truncate v) @ bc_enc (b9 W) (w_wipe v)"

definition ser_v10 :: "wire_codec \<Rightarrow> WireV10 \<Rightarrow> bytes" where
  "ser_v10 W v = ser_v9 W (WireV9.truncate v) @ bc_enc (b10 W) (w_files v, w_file_chunk v, w_file_ack v, w_file_cancel v)"

definition ser_payload :: "wire_codec \<Rightarrow> WirePayload \<Rightarrow> bytes" where
  "ser_payload W v = ser_v10 W (WireV10.truncate v) @ bc_enc (b11 W) (w_dm v)"

text \<open>The payloads that fit the encoding: every group of fields is within its codec's domain.\<close>

definition dom_v0 :: "wire_codec \<Rightarrow> WireV0 \<Rightarrow> bool" where
  "dom_v0 W v \<longleftrightarrow> bc_dom (b0 W) v"

definition dom_v1 :: "wire_codec \<Rightarrow> WireV1 \<Rightarrow> bool" where
  "dom_v1 W v \<longleftrightarrow> dom_v0 W (WireV0.truncate v) \<and> bc_dom (b1 W) (w_buttons v, w_callback_data v)"

definition dom_v2 :: "wire_codec \<Rightarrow> WireV2 \<Rightarrow> bool" where
  "dom_v2 W v \<longleftrightarrow> dom_v1 W (WireV1.truncate v) \<and> bc_dom (b2 W) (w_edit_of v, w_pin v)"

definition dom_v3 :: "wire_codec \<Rightarrow> WireV3 \<Rightarrow> bool" where
  "dom_v3 W v \<longleftrightarrow> dom_v2 W (WireV2.truncate v) \<and> bc_dom (b3 W) (w_ack_for v)"

definition dom_v4 :: "wire_codec \<Rightarrow> WireV4 \<Rightarrow> bool" where
  "dom_v4 W v \<longleftrightarrow> dom_v3 W (WireV3.truncate v) \<and> bc_dom (b4 W) (w_sender_name v)"

definition dom_v5 :: "wire_codec \<Rightarrow> WireV5 \<Rightarrow> bool" where
  "dom_v5 W v \<longleftrightarrow> dom_v4 W (WireV4.truncate v) \<and> bc_dom (b5 W) (w_reply_to v)"

definition dom_v6 :: "wire_codec \<Rightarrow> WireV6 \<Rightarrow> bool" where
  "dom_v6 W v \<longleftrightarrow> dom_v5 W (WireV5.truncate v) \<and> bc_dom (b6 W) (w_typing v)"

definition dom_v7 :: "wire_codec \<Rightarrow> WireV7 \<Rightarrow> bool" where
  "dom_v7 W v \<longleftrightarrow> dom_v6 W (WireV6.truncate v) \<and> bc_dom (b7 W) (w_notify_sound v)"

definition dom_v8 :: "wire_codec \<Rightarrow> WireV8 \<Rightarrow> bool" where
  "dom_v8 W v \<longleftrightarrow> dom_v7 W (WireV7.truncate v) \<and> bc_dom (b8 W) (w_console v, w_relay_address v)"

definition dom_v9 :: "wire_codec \<Rightarrow> WireV9 \<Rightarrow> bool" where
  "dom_v9 W v \<longleftrightarrow> dom_v8 W (WireV8.truncate v) \<and> bc_dom (b9 W) (w_wipe v)"

definition dom_v10 :: "wire_codec \<Rightarrow> WireV10 \<Rightarrow> bool" where
  "dom_v10 W v \<longleftrightarrow> dom_v9 W (WireV9.truncate v) \<and> bc_dom (b10 W) (w_files v, w_file_chunk v, w_file_ack v, w_file_cancel v)"

definition dom_payload :: "wire_codec \<Rightarrow> WirePayload \<Rightarrow> bool" where
  "dom_payload W v \<longleftrightarrow> dom_v10 W (WireV10.truncate v) \<and> bc_dom (b11 W) (w_dm v)"

text \<open>Reading a further group of fields after a layout.\<close>

definition then_group :: "('v \<times> bytes) option \<Rightarrow> 'a bc \<Rightarrow> ('v \<Rightarrow> 'a \<Rightarrow> 'w) \<Rightarrow> ('w \<times> bytes) option" where
  "then_group d b mk =
     (case d of
        None \<Rightarrow> None
      | Some (v, r) \<Rightarrow> (case bc_dec b r of None \<Rightarrow> None | Some (x, r') \<Rightarrow> Some (mk v x, r')))"

definition dec_v0 :: "wire_codec \<Rightarrow> bytes \<Rightarrow> (WireV0 \<times> bytes) option" where
  "dec_v0 W s = bc_dec (b0 W) s"

definition dec_v1 :: "wire_codec \<Rightarrow> bytes \<Rightarrow> (WireV1 \<times> bytes) option" where
  "dec_v1 W s = then_group (dec_v0 W s) (b1 W) (\<lambda>v (x, y). WireV0.extend v (WireV1.fields x y))"

definition dec_v2 :: "wire_codec \<Rightarrow> bytes \<Rightarrow> (WireV2 \<times> bytes) option" where
  "dec_v2 W s = then_group (dec_v1 W s) (b2 W) (\<lambda>v (x, y). WireV1.extend v (WireV2.fields x y))"

definition dec_v3 :: "wire_codec \<Rightarrow> bytes \<Rightarrow> (WireV3 \<times> bytes) option" where
  "dec_v3 W s = then_group (dec_v2 W s) (b3 W) (\<lambda>v x. WireV2.extend v (WireV3.fields x))"

definition dec_v4 :: "wire_codec \<Rightarrow> bytes \<Rightarrow> (WireV4 \<times> bytes) option" where
  "dec_v4 W s = then_group (dec_v3 W s) (b4 W) (\<lambda>v x. WireV3.extend v (WireV4.fields x))"

definition dec_v5 :: "wire_codec \<Rightarrow> bytes \<Rightarrow> (WireV5 \<times> bytes) option" where
  "dec_v5 W s = then_group (dec_v4 W s) (b5 W) (\<lambda>v x. WireV4.extend v (WireV5.fields x))"

definition dec_v6 :: "wire_codec \<Rightarrow> bytes \<Rightarrow> (WireV6 \<times> bytes) option" where
  "dec_v6 W s = then_group (dec_v5 W s) (b6 W) (\<lambda>v x. WireV5.extend v (WireV6.fields x))"

definition dec_v7 :: "wire_codec \<Rightarrow> bytes \<Rightarrow> (WireV7 \<times> bytes) option" where
  "dec_v7 W s = then_group (dec_v6 W s) (b7 W) (\<lambda>v x. WireV6.extend v (WireV7.fields x))"

definition dec_v8 :: "wire_codec \<Rightarrow> bytes \<Rightarrow> (WireV8 \<times> bytes) option" where
  "dec_v8 W s = then_group (dec_v7 W s) (b8 W) (\<lambda>v (x, y). WireV7.extend v (WireV8.fields x y))"

definition dec_v9 :: "wire_codec \<Rightarrow> bytes \<Rightarrow> (WireV9 \<times> bytes) option" where
  "dec_v9 W s = then_group (dec_v8 W s) (b9 W) (\<lambda>v x. WireV8.extend v (WireV9.fields x))"

definition dec_v10 :: "wire_codec \<Rightarrow> bytes \<Rightarrow> (WireV10 \<times> bytes) option" where
  "dec_v10 W s = then_group (dec_v9 W s) (b10 W) (\<lambda>v (x, y, z, u). WireV9.extend v (WireV10.fields x y z u))"

definition dec_payload :: "wire_codec \<Rightarrow> bytes \<Rightarrow> (WirePayload \<times> bytes) option" where
  "dec_payload W s = then_group (dec_v10 W s) (b11 W) (\<lambda>v x. WireV10.extend v (WirePayload.fields x))"

definition encode_payload :: "wire_codec \<Rightarrow> WirePayload \<Rightarrow> bytes" where
  "encode_payload W p =
     (let has_files = (w_files p \<noteq> [] \<or> w_file_chunk p \<noteq> None \<or> w_file_ack p \<noteq> None \<or> w_file_cancel p \<noteq> None)
      in if w_dm p \<noteq> None then ser_payload W p
         else if has_files then ser_v10 W (v10_of p)
         else if w_wipe p \<noteq> None then ser_v9 W (v9_of p)
         else if w_console p \<noteq> None \<or> w_relay_address p \<noteq> None then ser_v8 W (v8_of p)
         else if w_notify_sound p \<noteq> None then ser_v7 W (v7_of p)
         else if w_typing p \<noteq> None then ser_v6 W (v6_of p)
         else if w_reply_to p \<noteq> None then ser_v5 W (v5_of p)
         else if w_sender_name p \<noteq> None then ser_v4 W (v4_of p)
         else if w_ack_for p \<noteq> None then ser_v3 W (v3_of p)
         else if w_edit_of p \<noteq> None \<or> w_pin p \<noteq> None then ser_v2 W (v2_of p)
         else ser_v1 W (v1_of p))"

text \<open>The layouts are tried from the longest on; what is left over after the last field is ignored.\<close>

definition decode_payload :: "wire_codec \<Rightarrow> bytes \<Rightarrow> WirePayload option" where
  "decode_payload W s =
     (case dec_payload W s of Some (v, _) \<Rightarrow> Some v
      | None \<Rightarrow> (case dec_v10 W s of Some (v, _) \<Rightarrow> Some (from_v10 v)
      | None \<Rightarrow> (case dec_v9 W s of Some (v, _) \<Rightarrow> Some (from_v9 v)
      | None \<Rightarrow> (case dec_v8 W s of Some (v, _) \<Rightarrow> Some (from_v8 v)
      | None \<Rightarrow> (case dec_v7 W s of Some (v, _) \<Rightarrow> Some (from_v7 v)
      | None \<Rightarrow> (case dec_v6 W s of Some (v, _) \<Rightarrow> Some (from_v6 v)
      | None \<Rightarrow> (case dec_v5 W s of Some (v, _) \<Rightarrow> Some (from_v5 v)
      | None \<Rightarrow> (case dec_v4 W s of Some (v, _) \<Rightarrow> Some (from_v4 v)
      | None \<Rightarrow> (case dec_v3 W s of Some (v, _) \<Rightarrow> Some (from_v3 v)
      | None \<Rightarrow> (case dec_v2 W s of Some (v, _) \<Rightarrow> Some (from_v2 v)
      | None \<Rightarrow> (case dec_v1 W s of Some (v, _) \<Rightarrow> Some (from_v1 v)
      | None \<Rightarrow> map_option (\<lambda>(v, _). from_v0 v) (dec_v0 W s))))))))))))"

section \<open>Padding and associated data\<close>

definition PADDING_BUCKETS :: "nat list" where
  "PADDING_BUCKETS = [256, 1024, 4096, 16384, 65536, 262144, 1048576, 4194304, 16777216]"

definition payload_bucket :: "nat \<Rightarrow> nat" where
  "payload_bucket with_header = (case filter (\<lambda>b. b \<ge> with_header) PADDING_BUCKETS of b # _ \<Rightarrow> b | [] \<Rightarrow> with_header)"

text \<open>\<open>fill\<close> is what the RNG draws.\<close>

definition pad_payload :: "bytes \<Rightarrow> bytes \<Rightarrow> bytes" where
  "pad_payload fill pt =
     (let with_header = 4 + length pt; bucket = payload_bucket with_header
      in u32_to_be_bytes (of_nat (length pt)) @ pt @
         (if bucket > with_header then take (bucket - with_header) (fill @ replicate (bucket - with_header) 0) else []))"

definition pack_payload :: "bytes \<Rightarrow> bytes \<Rightarrow> bool \<Rightarrow> bytes" where
  "pack_payload fill pt padded =
     (if padded then pad_payload fill pt else u32_to_be_bytes (of_nat (length pt)) @ pt)"

definition unpad_payload :: "bytes \<Rightarrow> bytes option" where
  "unpad_payload padded =
     (if length padded < 4 then None
      else (let len = of_be_bytes (take 4 padded)
            in if 4 + len > length padded then None else Some (take len (drop 4 padded))))"

definition build_ad :: "bytes \<Rightarrow> bytes \<Rightarrow> bytes" where
  "build_ad a b = (if a \<le> b then a @ b else b @ a)"

section \<open>Reading what was written\<close>

lemma then_group_None [simp]: "then_group None b mk = None"
  by (simp add: then_group_def)

lemma then_group_enc: "bc_ok b \<Longrightarrow> bc_dom b x \<Longrightarrow> then_group (Some (v, bc_enc b x @ r)) b mk = Some (mk v x, r)"
  by (simp add: then_group_def bc_ok_def)

lemma then_group_end: "bc_ok b \<Longrightarrow> then_group (Some (v, [])) b mk = None"
  by (simp add: then_group_def bc_ok_def)

lemma dec_v0_ser: "codec_ok W \<Longrightarrow> dom_v0 W v \<Longrightarrow> dec_v0 W (ser_v0 W v @ r) = Some (v, r)"
  by (simp add: dec_v0_def ser_v0_def dom_v0_def codec_ok_def bc_ok_def)

lemma dec_v1_ser: "codec_ok W \<Longrightarrow> dom_v1 W v \<Longrightarrow> dec_v1 W (ser_v1 W v @ r) = Some (v, r)"
  by (cases v) (simp add: dec_v1_def ser_v1_def dom_v1_def dec_v0_ser codec_ok_def then_group_enc WireV0.defs WireV1.defs)

lemma dec_v2_ser: "codec_ok W \<Longrightarrow> dom_v2 W v \<Longrightarrow> dec_v2 W (ser_v2 W v @ r) = Some (v, r)"
  by (cases v) (simp add: dec_v2_def ser_v2_def dom_v2_def dec_v1_ser codec_ok_def then_group_enc WireV1.defs WireV2.defs)

lemma dec_v3_ser: "codec_ok W \<Longrightarrow> dom_v3 W v \<Longrightarrow> dec_v3 W (ser_v3 W v @ r) = Some (v, r)"
  by (cases v) (simp add: dec_v3_def ser_v3_def dom_v3_def dec_v2_ser codec_ok_def then_group_enc WireV2.defs WireV3.defs)

lemma dec_v4_ser: "codec_ok W \<Longrightarrow> dom_v4 W v \<Longrightarrow> dec_v4 W (ser_v4 W v @ r) = Some (v, r)"
  by (cases v) (simp add: dec_v4_def ser_v4_def dom_v4_def dec_v3_ser codec_ok_def then_group_enc WireV3.defs WireV4.defs)

lemma dec_v5_ser: "codec_ok W \<Longrightarrow> dom_v5 W v \<Longrightarrow> dec_v5 W (ser_v5 W v @ r) = Some (v, r)"
  by (cases v) (simp add: dec_v5_def ser_v5_def dom_v5_def dec_v4_ser codec_ok_def then_group_enc WireV4.defs WireV5.defs)

lemma dec_v6_ser: "codec_ok W \<Longrightarrow> dom_v6 W v \<Longrightarrow> dec_v6 W (ser_v6 W v @ r) = Some (v, r)"
  by (cases v) (simp add: dec_v6_def ser_v6_def dom_v6_def dec_v5_ser codec_ok_def then_group_enc WireV5.defs WireV6.defs)

lemma dec_v7_ser: "codec_ok W \<Longrightarrow> dom_v7 W v \<Longrightarrow> dec_v7 W (ser_v7 W v @ r) = Some (v, r)"
  by (cases v) (simp add: dec_v7_def ser_v7_def dom_v7_def dec_v6_ser codec_ok_def then_group_enc WireV6.defs WireV7.defs)

lemma dec_v8_ser: "codec_ok W \<Longrightarrow> dom_v8 W v \<Longrightarrow> dec_v8 W (ser_v8 W v @ r) = Some (v, r)"
  by (cases v) (simp add: dec_v8_def ser_v8_def dom_v8_def dec_v7_ser codec_ok_def then_group_enc WireV7.defs WireV8.defs)

lemma dec_v9_ser: "codec_ok W \<Longrightarrow> dom_v9 W v \<Longrightarrow> dec_v9 W (ser_v9 W v @ r) = Some (v, r)"
  by (cases v) (simp add: dec_v9_def ser_v9_def dom_v9_def dec_v8_ser codec_ok_def then_group_enc WireV8.defs WireV9.defs)

lemma dec_v10_ser: "codec_ok W \<Longrightarrow> dom_v10 W v \<Longrightarrow> dec_v10 W (ser_v10 W v @ r) = Some (v, r)"
  by (cases v) (simp add: dec_v10_def ser_v10_def dom_v10_def dec_v9_ser codec_ok_def then_group_enc WireV9.defs WireV10.defs)

lemma dec_payload_ser: "codec_ok W \<Longrightarrow> dom_payload W v \<Longrightarrow> dec_payload W (ser_payload W v @ r) = Some (v, r)"
  by (cases v) (simp add: dec_payload_def ser_payload_def dom_payload_def dec_v10_ser codec_ok_def then_group_enc WireV10.defs WirePayload.defs)

lemmas dec_ser = dec_v0_ser dec_v1_ser dec_v2_ser dec_v3_ser dec_v4_ser dec_v5_ser dec_v6_ser dec_v7_ser dec_v8_ser dec_v9_ser dec_v10_ser dec_payload_ser

text \<open>A layout is not read from the text of the one before it: the text ends too early.\<close>

lemma dec_v1_short: "codec_ok W \<Longrightarrow> dom_v0 W v \<Longrightarrow> dec_v1 W (ser_v0 W v) = None"
  using dec_v0_ser [of W v "[]"] by (simp add: dec_v1_def then_group_end codec_ok_def)

lemma dec_v2_short: "codec_ok W \<Longrightarrow> dom_v1 W v \<Longrightarrow> dec_v2 W (ser_v1 W v) = None"
  using dec_v1_ser [of W v "[]"] by (simp add: dec_v2_def then_group_end codec_ok_def)

lemma dec_v3_short: "codec_ok W \<Longrightarrow> dom_v2 W v \<Longrightarrow> dec_v3 W (ser_v2 W v) = None"
  using dec_v2_ser [of W v "[]"] by (simp add: dec_v3_def then_group_end codec_ok_def)

lemma dec_v4_short: "codec_ok W \<Longrightarrow> dom_v3 W v \<Longrightarrow> dec_v4 W (ser_v3 W v) = None"
  using dec_v3_ser [of W v "[]"] by (simp add: dec_v4_def then_group_end codec_ok_def)

lemma dec_v5_short: "codec_ok W \<Longrightarrow> dom_v4 W v \<Longrightarrow> dec_v5 W (ser_v4 W v) = None"
  using dec_v4_ser [of W v "[]"] by (simp add: dec_v5_def then_group_end codec_ok_def)

lemma dec_v6_short: "codec_ok W \<Longrightarrow> dom_v5 W v \<Longrightarrow> dec_v6 W (ser_v5 W v) = None"
  using dec_v5_ser [of W v "[]"] by (simp add: dec_v6_def then_group_end codec_ok_def)

lemma dec_v7_short: "codec_ok W \<Longrightarrow> dom_v6 W v \<Longrightarrow> dec_v7 W (ser_v6 W v) = None"
  using dec_v6_ser [of W v "[]"] by (simp add: dec_v7_def then_group_end codec_ok_def)

lemma dec_v8_short: "codec_ok W \<Longrightarrow> dom_v7 W v \<Longrightarrow> dec_v8 W (ser_v7 W v) = None"
  using dec_v7_ser [of W v "[]"] by (simp add: dec_v8_def then_group_end codec_ok_def)

lemma dec_v9_short: "codec_ok W \<Longrightarrow> dom_v8 W v \<Longrightarrow> dec_v9 W (ser_v8 W v) = None"
  using dec_v8_ser [of W v "[]"] by (simp add: dec_v9_def then_group_end codec_ok_def)

lemma dec_v10_short: "codec_ok W \<Longrightarrow> dom_v9 W v \<Longrightarrow> dec_v10 W (ser_v9 W v) = None"
  using dec_v9_ser [of W v "[]"] by (simp add: dec_v10_def then_group_end codec_ok_def)

lemma dec_payload_short: "codec_ok W \<Longrightarrow> dom_v10 W v \<Longrightarrow> dec_payload W (ser_v10 W v) = None"
  using dec_v10_ser [of W v "[]"] by (simp add: dec_payload_def then_group_end codec_ok_def)

lemmas dec_short = dec_v1_short dec_v2_short dec_v3_short dec_v4_short dec_v5_short dec_v6_short dec_v7_short dec_v8_short dec_v9_short dec_v10_short dec_payload_short

lemma dec_None_up:
  "dec_v0 W s = None \<Longrightarrow> dec_v1 W s = None"
  "dec_v1 W s = None \<Longrightarrow> dec_v2 W s = None"
  "dec_v2 W s = None \<Longrightarrow> dec_v3 W s = None"
  "dec_v3 W s = None \<Longrightarrow> dec_v4 W s = None"
  "dec_v4 W s = None \<Longrightarrow> dec_v5 W s = None"
  "dec_v5 W s = None \<Longrightarrow> dec_v6 W s = None"
  "dec_v6 W s = None \<Longrightarrow> dec_v7 W s = None"
  "dec_v7 W s = None \<Longrightarrow> dec_v8 W s = None"
  "dec_v8 W s = None \<Longrightarrow> dec_v9 W s = None"
  "dec_v9 W s = None \<Longrightarrow> dec_v10 W s = None"
  "dec_v10 W s = None \<Longrightarrow> dec_payload W s = None"
  by (simp_all add: dec_v1_def dec_v2_def dec_v3_def dec_v4_def dec_v5_def dec_v6_def dec_v7_def dec_v8_def dec_v9_def dec_v10_def dec_payload_def)

lemmas from_defs = from_v0_def from_v1_def from_v2_def from_v3_def from_v4_def from_v5_def from_v6_def from_v7_def from_v8_def from_v9_def from_v10_def

lemmas wire_defs = WireV0.defs WireV1.defs WireV2.defs WireV3.defs WireV4.defs WireV5.defs WireV6.defs WireV7.defs WireV8.defs WireV9.defs WireV10.defs WirePayload.defs

lemma dec_ser_end:
  assumes "codec_ok W"
  shows "dom_v0 W x0 \<Longrightarrow> dec_v0 W (ser_v0 W x0) = Some (x0, [])"
    "dom_v1 W x1 \<Longrightarrow> dec_v1 W (ser_v1 W x1) = Some (x1, [])"
    "dom_v2 W x2 \<Longrightarrow> dec_v2 W (ser_v2 W x2) = Some (x2, [])"
    "dom_v3 W x3 \<Longrightarrow> dec_v3 W (ser_v3 W x3) = Some (x3, [])"
    "dom_v4 W x4 \<Longrightarrow> dec_v4 W (ser_v4 W x4) = Some (x4, [])"
    "dom_v5 W x5 \<Longrightarrow> dec_v5 W (ser_v5 W x5) = Some (x5, [])"
    "dom_v6 W x6 \<Longrightarrow> dec_v6 W (ser_v6 W x6) = Some (x6, [])"
    "dom_v7 W x7 \<Longrightarrow> dec_v7 W (ser_v7 W x7) = Some (x7, [])"
    "dom_v8 W x8 \<Longrightarrow> dec_v8 W (ser_v8 W x8) = Some (x8, [])"
    "dom_v9 W x9 \<Longrightarrow> dec_v9 W (ser_v9 W x9) = Some (x9, [])"
    "dom_v10 W x10 \<Longrightarrow> dec_v10 W (ser_v10 W x10) = Some (x10, [])"
    "dom_payload W x11 \<Longrightarrow> dec_payload W (ser_payload W x11) = Some (x11, [])"
  using dec_v0_ser [OF assms, of x0 "[]"]
    dec_v1_ser [OF assms, of x1 "[]"]
    dec_v2_ser [OF assms, of x2 "[]"]
    dec_v3_ser [OF assms, of x3 "[]"]
    dec_v4_ser [OF assms, of x4 "[]"]
    dec_v5_ser [OF assms, of x5 "[]"]
    dec_v6_ser [OF assms, of x6 "[]"]
    dec_v7_ser [OF assms, of x7 "[]"]
    dec_v8_ser [OF assms, of x8 "[]"]
    dec_v9_ser [OF assms, of x9 "[]"]
    dec_v10_ser [OF assms, of x10 "[]"]
    dec_payload_ser [OF assms, of x11 "[]"]
  by simp_all

text \<open>The text of layout \<open>n\<close> is read as layout \<open>n\<close>.\<close>

lemma decode_layout:
  assumes "codec_ok W"
  shows "dom_v1 W x1 \<Longrightarrow> decode_payload W (ser_v1 W x1) = Some (from_v1 x1)"
    "dom_v2 W x2 \<Longrightarrow> decode_payload W (ser_v2 W x2) = Some (from_v2 x2)"
    "dom_v3 W x3 \<Longrightarrow> decode_payload W (ser_v3 W x3) = Some (from_v3 x3)"
    "dom_v4 W x4 \<Longrightarrow> decode_payload W (ser_v4 W x4) = Some (from_v4 x4)"
    "dom_v5 W x5 \<Longrightarrow> decode_payload W (ser_v5 W x5) = Some (from_v5 x5)"
    "dom_v6 W x6 \<Longrightarrow> decode_payload W (ser_v6 W x6) = Some (from_v6 x6)"
    "dom_v7 W x7 \<Longrightarrow> decode_payload W (ser_v7 W x7) = Some (from_v7 x7)"
    "dom_v8 W x8 \<Longrightarrow> decode_payload W (ser_v8 W x8) = Some (from_v8 x8)"
    "dom_v9 W x9 \<Longrightarrow> decode_payload W (ser_v9 W x9) = Some (from_v9 x9)"
    "dom_v10 W x10 \<Longrightarrow> decode_payload W (ser_v10 W x10) = Some (from_v10 x10)"
  by (simp_all add: decode_payload_def dec_short [OF assms] dec_ser_end [OF assms] dec_None_up)

lemma decode_full: "codec_ok W \<Longrightarrow> dom_payload W p \<Longrightarrow> decode_payload W (ser_payload W p) = Some p"
  using dec_payload_ser [of W p "[]"] by (simp add: decode_payload_def)

text \<open>A payload that fits fits in every older layout.\<close>

lemma dom_prefixes:
  assumes "dom_payload W p"
  shows "dom_v10 W (v10_of p)" "dom_v9 W (v9_of p)" "dom_v8 W (v8_of p)" "dom_v7 W (v7_of p)" "dom_v6 W (v6_of p)"
    "dom_v5 W (v5_of p)" "dom_v4 W (v4_of p)" "dom_v3 W (v3_of p)" "dom_v2 W (v2_of p)" "dom_v1 W (v1_of p)"
  using assms
  by (simp_all add: dom_payload_def dom_v10_def dom_v9_def dom_v8_def dom_v7_def dom_v6_def dom_v5_def dom_v4_def
      dom_v3_def dom_v2_def dom_v1_def v1_of_def v2_of_def v3_of_def v4_of_def v5_of_def v6_of_def v7_of_def
      v8_of_def v9_of_def v10_of_def wire_defs)

section \<open>An instance of the codecs\<close>

text \<open>The layouts in the fixed-width instance of theory \<open>Bincode\<close>: the hypotheses above can hold.\<close>

definition bc_attachment :: "WireAttachment bc" where
  "bc_attachment = bc_conv (\<lambda>x. (at_name x, at_data x)) (\<lambda>(a, b). \<lparr>at_name = a, at_data = b\<rparr>) (bc_pair bc_bytes bc_bytes)"

definition bc_button :: "WireButton bc" where
  "bc_button = bc_conv (\<lambda>x. (bt_text x, bt_callback_data x)) (\<lambda>(a, b). \<lparr>bt_text = a, bt_callback_data = b\<rparr>) (bc_pair bc_bytes bc_bytes)"

definition bc_member :: "WireMember bc" where
  "bc_member = bc_conv (\<lambda>x. (wm_sign_pk x, wm_dh_pk x, wm_onion x, wm_name x))
     (\<lambda>(a, b, c, d). \<lparr>wm_sign_pk = a, wm_dh_pk = b, wm_onion = c, wm_name = d\<rparr>)
     (bc_pair bc_bytes (bc_pair bc_bytes (bc_pair bc_bytes bc_bytes)))"

definition bc_group :: "WireGroupRef bc" where
  "bc_group = bc_conv (\<lambda>x. (wg_id x, wg_name x, wg_members x)) (\<lambda>(a, b, c). \<lparr>wg_id = a, wg_name = b, wg_members = c\<rparr>)
     (bc_pair bc_bytes (bc_pair bc_bytes (bc_list bc_member)))"

definition bc_pin :: "WirePin bc" where
  "bc_pin = bc_conv (\<lambda>x. (wp_sender_sign_pk x, wp_origin_msg_id x, wp_unpin x))
     (\<lambda>(a, b, c). \<lparr>wp_sender_sign_pk = a, wp_origin_msg_id = b, wp_unpin = c\<rparr>) (bc_pair bc_bytes (bc_pair bc_word64 bc_bool))"

definition bc_reply :: "WireReply bc" where
  "bc_reply = bc_conv (\<lambda>x. (wr_sender_sign_pk x, wr_origin_msg_id x))
     (\<lambda>(a, b). \<lparr>wr_sender_sign_pk = a, wr_origin_msg_id = b\<rparr>) (bc_pair bc_bytes bc_word64)"

definition bc_console :: "WireConsole bc" where
  "bc_console = bc_conv (\<lambda>x. (wc_kind x, wc_exit_code x, wc_duration_ms x, wc_truncated x))
     (\<lambda>(a, b, c, d). \<lparr>wc_kind = a, wc_exit_code = b, wc_duration_ms = c, wc_truncated = d\<rparr>)
     (bc_pair bc_word8 (bc_pair (bc_option bc_i64) (bc_pair (bc_option bc_word64) bc_bool)))"

definition bc_offer :: "WireFileOffer bc" where
  "bc_offer = bc_conv (\<lambda>x. (fo_file_id x, fo_name x, fo_size x, fo_sha256 x, fo_chunk_size x))
     (\<lambda>(a, b, c, d, e). \<lparr>fo_file_id = a, fo_name = b, fo_size = c, fo_sha256 = d, fo_chunk_size = e\<rparr>)
     (bc_pair bc_bytes (bc_pair bc_bytes (bc_pair (bc_le 8) (bc_pair bc_bytes (bc_le 4)))))"

definition bc_chunk :: "WireFileChunk bc" where
  "bc_chunk = bc_conv (\<lambda>x. (fc_file_id x, fc_index x, fc_data x))
     (\<lambda>(a, b, c). \<lparr>fc_file_id = a, fc_index = b, fc_data = c\<rparr>) (bc_pair bc_bytes (bc_pair (bc_le 4) bc_bytes))"

definition bc_file_ack :: "WireFileAck bc" where
  "bc_file_ack = bc_conv
     (\<lambda>x. (fa_file_id x, fa_received_up_to x, fa_missing x, fa_seen_to x, fa_resumed x, fa_echo_index x, fa_echo_sent_at x))
     (\<lambda>(a, b, c, d, e, f, g). \<lparr>fa_file_id = a, fa_received_up_to = b, fa_missing = c, fa_seen_to = d, fa_resumed = e,
        fa_echo_index = f, fa_echo_sent_at = g\<rparr>)
     (bc_pair bc_bytes (bc_pair (bc_le 4) (bc_pair (bc_list (bc_le 4)) (bc_pair (bc_le 4) (bc_pair bc_bool (bc_pair (bc_le 4) bc_i64))))))"

definition bc_dm :: "WireDm bc" where
  "bc_dm = bc_conv (\<lambda>x. (dm_kind x, dr_author (dm_reference x), dr_origin (dm_reference x), dr_sent_at (dm_reference x)))
     (\<lambda>(a, b, c, d). \<lparr>dm_kind = a, dm_reference = \<lparr>dr_author = b, dr_origin = c, dr_sent_at = d\<rparr>\<rparr>)
     (bc_pair bc_word8 (bc_pair bc_bytes (bc_pair bc_word64 bc_i64)))"

definition bc_v0 :: "WireV0 bc" where
  "bc_v0 = bc_conv (\<lambda>x. (w_origin_msg_id x, w_body x, w_attachments x, w_sent_at x, w_ttl_ms x, w_group x))
     (\<lambda>(a, b, c, d, e, f). \<lparr>w_origin_msg_id = a, w_body = b, w_attachments = c, w_sent_at = d, w_ttl_ms = e, w_group = f\<rparr>)
     (bc_pair bc_word64 (bc_pair bc_bytes (bc_pair (bc_list bc_attachment) (bc_pair bc_i64 (bc_pair (bc_option bc_i64) (bc_option bc_group))))))"

definition fixed_codec :: wire_codec where
  "fixed_codec =
     \<lparr>b0 = bc_v0, b1 = bc_pair (bc_option (bc_list (bc_list bc_button))) (bc_option bc_bytes),
      b2 = bc_pair (bc_option bc_word64) (bc_option bc_pin), b3 = bc_option bc_word64, b4 = bc_option bc_bytes,
      b5 = bc_option bc_reply, b6 = bc_option bc_bool, b7 = bc_option bc_bytes,
      b8 = bc_pair (bc_option bc_console) (bc_option bc_bytes), b9 = bc_option bc_bool,
      b10 = bc_pair (bc_list bc_offer) (bc_pair (bc_option bc_chunk) (bc_pair (bc_option bc_file_ack) (bc_option bc_bytes))),
      b11 = bc_option bc_dm\<rparr>"

lemmas bc_record_defs = bc_attachment_def bc_button_def bc_member_def bc_group_def bc_pin_def bc_reply_def bc_console_def
  bc_offer_def bc_chunk_def bc_file_ack_def bc_dm_def bc_v0_def

lemma fixed_codec_ok: "codec_ok fixed_codec"
  by (simp add: codec_ok_def fixed_codec_def bc_record_defs bc_oks)

text \<open>A notice that a message was deleted, as a control payload.\<close>

definition sample_dm :: WireDm where
  "sample_dm = \<lparr>dm_kind = 1, dm_reference = \<lparr>dr_author = [7, 7], dr_origin = 9, dr_sent_at = - 3\<rparr>\<rparr>"

definition sample_control :: WirePayload where
  "sample_control = (simple 0 [] [] 5 None)\<lparr>w_dm := Some sample_dm\<rparr>"

lemma sample_control_dom: "dom_payload fixed_codec sample_control"
  by (simp add: dom_payload_def dom_v10_def dom_v9_def dom_v8_def dom_v7_def dom_v6_def dom_v5_def dom_v4_def
      dom_v3_def dom_v2_def dom_v1_def dom_v0_def fixed_codec_def bc_record_defs bc_instance_defs
      sample_control_def sample_dm_def simple_def from_defs wire_defs)

text \<open>
  The layouts a payload may be written in, from the second on (the first one is only ever read), each with what its
  reader makes of it.
\<close>

definition layouts :: "wire_codec \<Rightarrow> WirePayload \<Rightarrow> (WirePayload \<times> bytes) list" where
  "layouts W p =
     [(from_v1 (v1_of p), ser_v1 W (v1_of p)), (from_v2 (v2_of p), ser_v2 W (v2_of p)),
      (from_v3 (v3_of p), ser_v3 W (v3_of p)), (from_v4 (v4_of p), ser_v4 W (v4_of p)),
      (from_v5 (v5_of p), ser_v5 W (v5_of p)), (from_v6 (v6_of p), ser_v6 W (v6_of p)),
      (from_v7 (v7_of p), ser_v7 W (v7_of p)), (from_v8 (v8_of p), ser_v8 W (v8_of p)),
      (from_v9 (v9_of p), ser_v9 W (v9_of p)), (from_v10 (v10_of p), ser_v10 W (v10_of p)), (p, ser_payload W p)]"

text \<open>A layout holds a payload exactly when the fields it lacks are empty.\<close>

lemma from_v10_iff: "from_v10 (v10_of p) = p \<longleftrightarrow> w_dm p = None"
  by (cases p) (auto simp: v10_of_def from_defs wire_defs)

lemma from_v9_iff: "from_v9 (v9_of p) = p \<longleftrightarrow> from_v10 (v10_of p) = p \<and>
    w_files p = [] \<and> w_file_chunk p = None \<and> w_file_ack p = None \<and> w_file_cancel p = None"
  by (cases p) (auto simp: v9_of_def v10_of_def from_defs wire_defs)

lemma from_v8_iff: "from_v8 (v8_of p) = p \<longleftrightarrow> from_v9 (v9_of p) = p \<and> w_wipe p = None"
  by (cases p) (auto simp: v8_of_def v9_of_def from_defs wire_defs)

lemma from_v7_iff: "from_v7 (v7_of p) = p \<longleftrightarrow> from_v8 (v8_of p) = p \<and> w_console p = None \<and> w_relay_address p = None"
  by (cases p) (auto simp: v7_of_def v8_of_def from_defs wire_defs)

lemma from_v6_iff: "from_v6 (v6_of p) = p \<longleftrightarrow> from_v7 (v7_of p) = p \<and> w_notify_sound p = None"
  by (cases p) (auto simp: v6_of_def v7_of_def from_defs wire_defs)

lemma from_v5_iff: "from_v5 (v5_of p) = p \<longleftrightarrow> from_v6 (v6_of p) = p \<and> w_typing p = None"
  by (cases p) (auto simp: v5_of_def v6_of_def from_defs wire_defs)

lemma from_v4_iff: "from_v4 (v4_of p) = p \<longleftrightarrow> from_v5 (v5_of p) = p \<and> w_reply_to p = None"
  by (cases p) (auto simp: v4_of_def v5_of_def from_defs wire_defs)

lemma from_v3_iff: "from_v3 (v3_of p) = p \<longleftrightarrow> from_v4 (v4_of p) = p \<and> w_sender_name p = None"
  by (cases p) (auto simp: v3_of_def v4_of_def from_defs wire_defs)

lemma from_v2_iff: "from_v2 (v2_of p) = p \<longleftrightarrow> from_v3 (v3_of p) = p \<and> w_ack_for p = None"
  by (cases p) (auto simp: v2_of_def v3_of_def from_defs wire_defs)

lemma from_v1_iff: "from_v1 (v1_of p) = p \<longleftrightarrow> from_v2 (v2_of p) = p \<and> w_edit_of p = None \<and> w_pin p = None"
  by (cases p) (auto simp: v1_of_def v2_of_def from_defs wire_defs)

lemmas from_iffs = from_v1_iff from_v2_iff from_v3_iff from_v4_iff from_v5_iff from_v6_iff from_v7_iff from_v8_iff
  from_v9_iff from_v10_iff

lemma encode_first_layout: "find (\<lambda>(q, s). q = p) (layouts W p) = Some (p, encode_payload W p)"
  unfolding layouts_def encode_payload_def Let_def find.simps prod.case
  by (simp add: from_iffs)

lemma decode_layouts:
  assumes "codec_ok W" and "dom_payload W p" and "(q, s) \<in> set (layouts W p)"
  shows "decode_payload W s = Some q"
  using assms(3) unfolding layouts_def
  by (auto simp: decode_full [OF assms(1,2)] decode_layout [OF assms(1)] dom_prefixes [OF assms(2)])

text \<open>
  C8. Whatever is said is heard: every payload that fits the encoding, with whichever of its fields set, is read back
  exactly, although it is written in the first layout, from the second one (V1) on, that holds all of it, and the
  reader tries the layouts from the longest on.
\<close>

theorem payload_roundtrip:
  assumes "codec_ok W" and "dom_payload W p"
  shows "decode_payload W (encode_payload W p) = Some p \<and>
         find (\<lambda>(q, s). q = p) (layouts W p) = Some (p, encode_payload W p)"
proof -
  have "(p, encode_payload W p) \<in> set (layouts W p)"
    using encode_first_layout [of p W] by (metis find_Some_iff nth_mem)
  then show ?thesis using decode_layouts [OF assms] encode_first_layout by blast
qed

theorem payload_roundtrip_witness:
  "decode_payload fixed_codec (encode_payload fixed_codec sample_control) = Some sample_control \<and>
   find (\<lambda>(q, s). q = sample_control) (layouts fixed_codec sample_control) =
     Some (sample_control, encode_payload fixed_codec sample_control)"
  by (rule payload_roundtrip [OF fixed_codec_ok sample_control_dom])

lemma ser_prefixes:
  "\<exists>r. ser_payload W p = ser_v10 W (v10_of p) @ r" "\<exists>r. ser_v10 W (v10_of p) = ser_v9 W (v9_of p) @ r"
  "\<exists>r. ser_v9 W (v9_of p) = ser_v8 W (v8_of p) @ r" "\<exists>r. ser_v8 W (v8_of p) = ser_v7 W (v7_of p) @ r"
  "\<exists>r. ser_v7 W (v7_of p) = ser_v6 W (v6_of p) @ r" "\<exists>r. ser_v6 W (v6_of p) = ser_v5 W (v5_of p) @ r"
  "\<exists>r. ser_v5 W (v5_of p) = ser_v4 W (v4_of p) @ r" "\<exists>r. ser_v4 W (v4_of p) = ser_v3 W (v3_of p) @ r"
  "\<exists>r. ser_v3 W (v3_of p) = ser_v2 W (v2_of p) @ r" "\<exists>r. ser_v2 W (v2_of p) = ser_v1 W (v1_of p) @ r"
  by (simp_all add: ser_v2_def v2_of_def ser_v3_def v3_of_def ser_v4_def v4_of_def ser_v5_def v5_of_def ser_v6_def v6_of_def ser_v7_def v7_of_def ser_v8_def v8_of_def ser_v9_def v9_of_def ser_v10_def v10_of_def ser_payload_def v10_of_def v1_of_def wire_defs)

text \<open>
  Older clients: of a payload in the newest layout, a client that knows only an older one reads
  the fields it knows, with the same values. A deletion or notice for a message, sent as a control
  payload, shows it no message at all: no text, no attachment, no file, nothing to answer.
\<close>

theorem old_reader_prefix:
  assumes "codec_ok W" and "w_dm p = Some d" and "dom_payload W p"
  shows "(\<exists>r. dec_v10 W (encode_payload W p) = Some (v10_of p, r)) \<and>
         (\<exists>r. dec_v9 W (encode_payload W p) = Some (v9_of p, r)) \<and>
         (\<exists>r. dec_v8 W (encode_payload W p) = Some (v8_of p, r)) \<and>
         (\<exists>r. dec_v1 W (encode_payload W p) = Some (v1_of p, r)) \<and>
         (is_control_payload d p \<longrightarrow>
            w_origin_msg_id (v10_of p) = 0 \<and> w_body (v10_of p) = [] \<and> w_attachments (v10_of p) = [] \<and>
            w_files (v10_of p) = [] \<and> w_ack_for (v10_of p) = None)"
proof -
  have e: "encode_payload W p = ser_payload W p" using assms(2) by (simp add: encode_payload_def Let_def)
  from ser_prefixes [of W p] obtain r10 r9 r8 r7 r6 r5 r4 r3 r2 r1 where
    r: "ser_payload W p = ser_v10 W (v10_of p) @ r10" "ser_v10 W (v10_of p) = ser_v9 W (v9_of p) @ r9"
    "ser_v9 W (v9_of p) = ser_v8 W (v8_of p) @ r8" "ser_v8 W (v8_of p) = ser_v7 W (v7_of p) @ r7"
    "ser_v7 W (v7_of p) = ser_v6 W (v6_of p) @ r6" "ser_v6 W (v6_of p) = ser_v5 W (v5_of p) @ r5"
    "ser_v5 W (v5_of p) = ser_v4 W (v4_of p) @ r4" "ser_v4 W (v4_of p) = ser_v3 W (v3_of p) @ r3"
    "ser_v3 W (v3_of p) = ser_v2 W (v2_of p) @ r2" "ser_v2 W (v2_of p) = ser_v1 W (v1_of p) @ r1" by metis
  have "dec_v10 W (ser_payload W p) = Some (v10_of p, r10)" using r(1) dec_ser [OF assms(1)] dom_prefixes [OF assms(3)] by simp
  moreover have "dec_v9 W (ser_payload W p) = Some (v9_of p, r9 @ r10)" using r(1,2) dec_ser [OF assms(1)] dom_prefixes [OF assms(3)] by simp
  moreover have "dec_v8 W (ser_payload W p) = Some (v8_of p, r8 @ r9 @ r10)" using r(1-3) dec_ser [OF assms(1)] dom_prefixes [OF assms(3)] by simp
  moreover have "dec_v1 W (ser_payload W p) = Some (v1_of p, r1 @ r2 @ r3 @ r4 @ r5 @ r6 @ r7 @ r8 @ r9 @ r10)"
    unfolding r using dec_ser [OF assms(1)] dom_prefixes [OF assms(3)] by simp
  moreover have "w_origin_msg_id (v10_of p) = w_origin_msg_id p" "w_body (v10_of p) = w_body p" "w_attachments (v10_of p) = w_attachments p"
    "w_files (v10_of p) = w_files p" "w_ack_for (v10_of p) = w_ack_for p"
    by (simp_all add: v10_of_def WireV10.defs)
  ultimately show ?thesis unfolding e is_control_payload_def by auto
qed

theorem old_reader_prefix_witness:
  "is_control_payload sample_dm sample_control \<and>
   (\<exists>r. dec_v8 fixed_codec (encode_payload fixed_codec sample_control) = Some (v8_of sample_control, r)) \<and>
   w_body (v10_of sample_control) = []"
proof -
  have dm: "w_dm sample_control = Some sample_dm"
    by (simp add: sample_control_def)
  have "is_control_payload sample_dm sample_control"
    by (simp add: is_control_payload_def sample_control_def sample_dm_def simple_def from_defs wire_defs)
  then show ?thesis
    using old_reader_prefix [OF fixed_codec_ok dm sample_control_dom] by blast
qed

section \<open>Padding\<close>

lemma of_be_bytes_u32: "n < 2 ^ 32 \<Longrightarrow> of_be_bytes (u32_to_be_bytes (of_nat n)) = n"
  by (simp add: of_be_bytes_def u32_to_be_bytes_def of_le_bytes_le_bytes)

lemma payload_bucket_cases:
  obtains "payload_bucket n \<in> set PADDING_BUCKETS" "n \<le> payload_bucket n"
  | "payload_bucket n = n" "\<forall>b \<in> set PADDING_BUCKETS. \<not> n \<le> b"
proof (cases "filter (\<lambda>b. b \<ge> n) PADDING_BUCKETS")
  case Nil
  then show thesis using that(2) by (simp add: payload_bucket_def filter_empty_conv)
next
  case (Cons b bs)
  then have "b \<in> set (filter (\<lambda>b. b \<ge> n) PADDING_BUCKETS)" by (metis list.set_intros(1))
  moreover have "payload_bucket n = b" unfolding payload_bucket_def Cons by simp
  ultimately show thesis using that(1) by simp
qed

lemma payload_bucket_ge: "n \<le> payload_bucket n"
  by (cases n rule: payload_bucket_cases) simp_all

lemma payload_bucket_mem: "n \<le> 16777216 \<Longrightarrow> payload_bucket n \<in> set PADDING_BUCKETS"
  by (cases n rule: payload_bucket_cases) (auto simp: PADDING_BUCKETS_def)

text \<open>
  A payload is unpacked to what was packed, padded or not; padded, all that its length shows is
  which bucket it falls in, and the associated data of a pair is the same whoever computes it.
\<close>

theorem pack_roundtrip:
  assumes "length pt < 2 ^ 32"
  shows "unpad_payload (pack_payload fill pt padded) = Some pt \<and>
         length (pack_payload fill pt True) = payload_bucket (4 + length pt) \<and>
         (length pt \<le> 16777212 \<longrightarrow> length (pack_payload fill pt True) \<in> set PADDING_BUCKETS) \<and>
         build_ad a b = build_ad b a"
proof -
  have len: "length (pack_payload fill pt True) = payload_bucket (4 + length pt)"
    using payload_bucket_ge [of "4 + length pt"] by (auto simp: pack_payload_def pad_payload_def Let_def)
  moreover have un: "unpad_payload (u32_to_be_bytes (of_nat (length pt)) @ pt @ rest) = Some pt" for rest
    using of_be_bytes_u32 [OF assms] by (simp add: unpad_payload_def Let_def)
  have "unpad_payload (pack_payload fill pt padded) = Some pt"
    using un un [of "[]"] by (simp add: pack_payload_def pad_payload_def Let_def)
  moreover have "length pt \<le> 16777212 \<longrightarrow> payload_bucket (4 + length pt) \<in> set PADDING_BUCKETS"
    using payload_bucket_mem [of "4 + length pt"] by simp
  moreover have "build_ad a b = build_ad b a" by (auto simp: build_ad_def)
  ultimately show ?thesis by simp
qed

theorem pack_roundtrip_witness:
  "unpad_payload (pack_payload [9] [1, 2, 3] True) = Some [1, 2, 3] \<and> length (pack_payload [9] [1, 2, 3] True) = 256"
  using pack_roundtrip [of "[1, 2, 3]" "[9]" True "[]" "[]"] by (simp add: payload_bucket_def PADDING_BUCKETS_def)

end
