(* ===== verification/File_Parts.thy ===== *)
theory File_Parts
  imports Ratchet Message_Wire Str_Ops
begin

text \<open>
  Files in parts: the first half of \<open>libcore/src/files.rs\<close>. What a message may offer, how a file is
  cut into sealed parts and put back together, how the files of a message are staged before it is
  committed, and the map of the parts a receiver holds.

  \<^item> A file on disk is its bytes, and \<open>None\<close> when there is no such file. Writing past the end fills
    the gap with zeros. While the files of a message are staged and handed over, creating, writing,
    syncing and removing them may fail at any point (\<open>disk_io\<close>); a received part is written to a disk
    that works.
  \<^item> A source (\<open>impl Read\<close>) is the list of what its reads will yield: bytes, of which one read takes
    at most what it asked for, or an error. An empty piece, like the end of the list, reads as the
    end of the file.
  \<^item> The key of an attachment, the name of a new file and the id of an offer are random draws, given
    as arguments.
\<close>

section \<open>Bounds\<close>

definition INLINE_MAX :: nat where "INLINE_MAX = 128 * 1024"
definition INLINE_MESSAGE_MAX :: nat where "INLINE_MESSAGE_MAX = 1024 * 1024"
definition CHUNK_SIZE :: nat where "CHUNK_SIZE = 192 * 1024"
definition WINDOW :: nat where "WINDOW = 16"
definition MAX_FILE_BYTES :: nat where "MAX_FILE_BYTES = 2 * 2 ^ 30"
definition div_ceil :: "nat \<Rightarrow> nat \<Rightarrow> nat" where "div_ceil a b = (a + b - 1) div b"
definition MAX_PARTS :: nat where "MAX_PARTS = div_ceil MAX_FILE_BYTES CHUNK_SIZE mod 2 ^ 32"
definition MAX_MESSAGE_FILES :: nat where "MAX_MESSAGE_FILES = 16"
definition MAX_FILE_NAME_BYTES :: nat where "MAX_FILE_NAME_BYTES = 1024"
definition MAX_MISSING :: nat where "MAX_MISSING = 64"
definition TAG :: nat where "TAG = 16"

definition saturating_add :: "nat \<Rightarrow> nat \<Rightarrow> nat" where
  "saturating_add a b = min (a + b) (2 ^ 64 - 1)"

text \<open>A chunk size of 0 panics in \<open>div_ceil\<close>; every caller has excluded it.\<close>

definition chunk_count :: "nat \<Rightarrow> nat \<Rightarrow> nat" where
  "chunk_count sz chunk_size = max (div_ceil sz chunk_size) 1 mod 2 ^ 32"

definition chunk_len :: "nat \<Rightarrow> nat \<Rightarrow> nat \<Rightarrow> nat" where
  "chunk_len sz chunk_size index = (let start = index * chunk_size in min (sz - start) chunk_size)"

definition slot :: "nat \<Rightarrow> nat \<Rightarrow> nat" where
  "slot chunk_size index = index * (chunk_size + TAG)"

section \<open>What a message may offer\<close>

datatype DbError = TooLarge | StateError | DbOther

fun offers_ok :: "bytes set \<Rightarrow> WireFileOffer list \<Rightarrow> bool" where
  "offers_ok ids [] = True"
| "offers_ok ids (offer # rest) =
     (if fo_size offer > MAX_FILE_BYTES \<or> length (fo_name offer) > MAX_FILE_NAME_BYTES
         \<or> fo_chunk_size offer = 0 \<or> fo_chunk_size offer > CHUNK_SIZE
         \<or> chunk_count (fo_size offer) (fo_chunk_size offer) > MAX_PARTS \<or> fo_file_id offer \<in> ids
      then False
      else offers_ok (insert (fo_file_id offer) ids) rest)"

definition validate_message_files :: "WirePayload \<Rightarrow> DbError + unit" where
  "validate_message_files payload =
     (if saturating_add (length (w_files payload)) (length (w_attachments payload)) > MAX_MESSAGE_FILES then Inl TooLarge
      else if \<not> offers_ok {} (w_files payload) then Inl StateError
      else if \<exists>a \<in> set (w_attachments payload). length (at_name a) > MAX_FILE_NAME_BYTES then Inl TooLarge
      else if fold (\<lambda>a total. saturating_add total (length (at_data a))) (w_attachments payload) 0 > INLINE_MESSAGE_MAX
           then Inl TooLarge
      else Inr ())"

definition is_request_content :: "WirePayload \<Rightarrow> bool" where
  "is_request_content p \<longleftrightarrow>
     w_group p = None \<and> w_typing p = None \<and> w_edit_of p = None \<and>
     w_pin p = None \<and> w_ack_for p = None \<and> w_callback_data p = None \<and>
     w_console p = None \<and> w_file_ack p = None \<and> w_file_chunk p = None \<and>
     w_file_cancel p = None \<and> w_wipe p = None \<and> w_origin_msg_id p > 0 \<and>
     (case w_dm p of None \<Rightarrow> True | Some dm \<Rightarrow> dm_kind dm = 0) \<and>
     (w_body p \<noteq> [] \<or> w_attachments p \<noteq> [] \<or> w_files p \<noteq> [])"

section \<open>Sealing and opening\<close>

datatype io_error = InvalidInput | InvalidData | NotFound | AlreadyExists | UnexpectedEof | Other CryptoError | SourceFailed | DiskFailed

type_synonym reader = "(io_error + bytes) list"

definition read_some :: "nat \<Rightarrow> reader \<Rightarrow> (io_error + bytes) \<times> reader" where
  "read_some n src =
     (case src of
        [] \<Rightarrow> (Inr [], [])
      | Inl e # rest \<Rightarrow> (Inl e, rest)
      | Inr p # rest \<Rightarrow> (Inr (take n p), if length p \<le> n then rest else Inr (drop n p) # rest))"

fun read_full :: "nat \<Rightarrow> reader \<Rightarrow> (io_error + bytes) \<times> reader" where
  "read_full len src =
     (if len = 0 then (Inr [], src)
      else (case read_some len src of
              (Inl e, src') \<Rightarrow> (Inl e, src')
            | (Inr [], src') \<Rightarrow> (Inr [], src')
            | (Inr (b # k), src') \<Rightarrow>
                (case read_full (len - length (b # k)) src' of
                   (Inl e, src'') \<Rightarrow> (Inl e, src'')
                 | (Inr more_bytes, src'') \<Rightarrow> (Inr ((b # k) @ more_bytes), src''))))"

declare read_full.simps [simp del]

text \<open>
  What the disk does while one file is made: whether the file can be created, and opened again to be
  written, how many bytes are written before a write fails, and whether syncing it succeeds.
\<close>

record disk_io =
  dk_create :: bool
  dk_open :: bool
  dk_room :: "nat option"
  dk_sync :: bool

definition good_disk :: disk_io where
  "good_disk = \<lparr>dk_create = True, dk_open = True, dk_room = None, dk_sync = True\<rparr>"

text \<open>\<open>write_all\<close> at the end of the file \<open>out\<close>: what the file then is, and whether everything was written.\<close>

definition write_all :: "nat option \<Rightarrow> bytes \<Rightarrow> bytes \<Rightarrow> bytes \<times> bool" where
  "write_all room out data =
     (case room of
        None \<Rightarrow> (out @ data, True)
      | Some k \<Rightarrow> if length out + length data \<le> k then (out @ data, True) else (take k (out @ data), False))"

text \<open>The loop of \<open>seal_from\<close>; what it has written is kept when it fails.\<close>

function seal_loop :: "crypto \<Rightarrow> nat option \<Rightarrow> bytes \<Rightarrow> nat \<Rightarrow> reader \<Rightarrow> nat \<Rightarrow> nat \<Rightarrow> bytes \<Rightarrow> bytes \<Rightarrow> bytes \<times> (io_error + nat \<times> bytes)" where
  "seal_loop C disk_room key chunk_size src sz index hash out =
     (case read_full chunk_size src of
        (Inl e, _) \<Rightarrow> (out, Inl e)
      | (Inr buf, src') \<Rightarrow>
          (if length buf = 0 \<and> index > 0 then (out, Inr (sz, Sha256 C hash))
           else if sz + length buf > MAX_FILE_BYTES then (out, Inl InvalidInput)
           else (case encrypt_chunk C key (of_nat index) [] buf of
                   Inl e \<Rightarrow> (out, Inl (Other e))
                 | Inr sealed \<Rightarrow>
                     (case write_all disk_room out sealed of
                        (out', written) \<Rightarrow>
                          if \<not> written then (out', Inl DiskFailed)
                          else if length buf < chunk_size then (out', Inr (sz + length buf, Sha256 C (hash @ buf)))
                          else seal_loop C disk_room key chunk_size src' (sz + length buf) (index + 1) (hash @ buf) out'))))"
  by pat_completeness auto
termination
  by (relation "measure (\<lambda>(C, room, key, cs, src, sz, index, hash, out). 2 * (MAX_FILE_BYTES - sz) + (if index = 0 then 1 else 0))")
     (auto, metis add_le_cancel_left diff_less_mono2 length_greater_0_conv less_add_same_cancel1 linorder_not_le nat_less_le trans_less_add1)

declare seal_loop.simps [simp del]

text \<open>What becomes of the destination (\<open>None\<close>: untouched) and the sz and hash of the source.\<close>

definition seal_from :: "crypto \<Rightarrow> disk_io \<Rightarrow> bytes \<Rightarrow> reader \<Rightarrow> nat \<Rightarrow> bytes option \<times> (io_error + nat \<times> bytes)" where
  "seal_from C io key src chunk_size =
     (if chunk_size = 0 \<or> chunk_size > CHUNK_SIZE then (None, Inl InvalidInput)
      else if \<not> dk_open io then (None, Inl DiskFailed)
      else (case seal_loop C (dk_room io) key chunk_size src 0 0 [] [] of
              (out, Inl e) \<Rightarrow> (Some out, Inl e)
            | (out, Inr res) \<Rightarrow> (Some out, if dk_sync io then Inr res else Inl DiskFailed)))"

definition read_part :: "crypto \<Rightarrow> bytes \<Rightarrow> bytes option \<Rightarrow> nat \<Rightarrow> nat \<Rightarrow> nat \<Rightarrow> io_error + bytes" where
  "read_part C key file sz chunk_size index =
     (let len = chunk_len sz chunk_size index + TAG
      in case file of
           None \<Rightarrow> Inl NotFound
         | Some f \<Rightarrow>
             (let sealed = take len (drop (slot chunk_size index) f)
              in if length sealed < len then Inl UnexpectedEof
                 else (case decrypt_chunk C key (of_nat index) [] sealed of
                         Inl e \<Rightarrow> Inl (Other e) | Inr part \<Rightarrow> Inr part)))"

definition write_at :: "nat \<Rightarrow> bytes \<Rightarrow> bytes \<Rightarrow> bytes" where
  "write_at pos data f = take pos (f @ replicate (pos - length f) 0) @ data @ drop (pos + length data) f"

definition write_part :: "crypto \<Rightarrow> bytes \<Rightarrow> bytes option \<Rightarrow> nat \<Rightarrow> nat \<Rightarrow> nat \<Rightarrow> bytes \<Rightarrow> io_error + bytes" where
  "write_part C key file sz chunk_size index data =
     (if index \<ge> chunk_count sz chunk_size \<or> length data \<noteq> chunk_len sz chunk_size index then Inl InvalidData
      else (case encrypt_chunk C key (of_nat index) [] data of
              Inl e \<Rightarrow> Inl (Other e)
            | Inr sealed \<Rightarrow>
                Inr (write_at (slot chunk_size index) sealed (case file of None \<Rightarrow> [] | Some f \<Rightarrow> f))))"

text \<open>The loop of \<open>open_to\<close>: what was written to \<open>out\<close>, and whether every part was opened.\<close>

fun open_parts :: "crypto \<Rightarrow> bytes \<Rightarrow> bytes option \<Rightarrow> nat \<Rightarrow> nat \<Rightarrow> nat list \<Rightarrow> bytes \<Rightarrow> bytes \<times> (io_error + unit)" where
  "open_parts C key file sz chunk_size [] out = (out, Inr ())"
| "open_parts C key file sz chunk_size (index # rest) out =
     (case read_part C key file sz chunk_size index of
        Inl e \<Rightarrow> (out, Inl e)
      | Inr part \<Rightarrow> open_parts C key file sz chunk_size rest (out @ part))"

definition open_to :: "crypto \<Rightarrow> bytes \<Rightarrow> bytes option \<Rightarrow> nat \<Rightarrow> nat \<Rightarrow> bytes \<times> (io_error + bytes)" where
  "open_to C key file sz chunk_size =
     (case open_parts C key file sz chunk_size [0..<chunk_count sz chunk_size] [] of
        (out, Inl e) \<Rightarrow> (out, Inl e)
      | (out, Inr _) \<Rightarrow> (out, Inr (Sha256 C out)))"

definition read_attachment :: "crypto \<Rightarrow> bytes option \<Rightarrow> bytes \<Rightarrow> nat \<Rightarrow> int option \<Rightarrow> io_error + bytes" where
  "read_attachment C file key sz chunk_size =
     (case chunk_size of
        None \<Rightarrow>
          (case file of
             None \<Rightarrow> Inl NotFound
           | Some sealed \<Rightarrow> (case decrypt_chunk C key 0 [] sealed of Inl e \<Rightarrow> Inl (Other e) | Inr pt \<Rightarrow> Inr pt))
      | Some cs \<Rightarrow>
          (case open_to C key file sz (nat (cs mod 2 ^ 32)) of
             (out, Inl e) \<Rightarrow> Inl e | (out, Inr _) \<Rightarrow> Inr out))"

section \<open>Staging the files of a message\<close>

record NewAttachment =
  na_name :: bytes
  na_size :: int
  na_key :: bytes
  na_path :: bytes
  na_chunk_size :: "int option"

record NewGroupAttachment =
  ga_attachment :: NewAttachment
  ga_file_offer :: "(bytes \<times> bytes) option"

text \<open>The directory is the map from the names in it to the bytes of the files.\<close>

type_synonym disk = "bytes \<Rightarrow> bytes option"

record StagedAttachments =
  st_paths :: "bytes list"
  st_attachments :: "NewGroupAttachment list"
  st_published :: bool
  st_failed :: bool

definition new_staged :: StagedAttachments where
  "new_staged = \<lparr>st_paths = [], st_attachments = [], st_published = False, st_failed = False\<rparr>"

definition hex_name :: "bytes \<Rightarrow> bytes" where
  "hex_name random = concat (map hex_02 random)"

definition new_file :: "disk_io \<Rightarrow> bytes \<Rightarrow> disk \<Rightarrow> StagedAttachments \<Rightarrow> disk \<times> StagedAttachments \<times> (io_error + bytes)" where
  "new_file io random d st =
     (let name = hex_name random
      in if d name \<noteq> None then (d, st, Inl AlreadyExists)
         else if \<not> dk_create io then (d, st, Inl DiskFailed)
         else (d(name \<mapsto> []), st\<lparr>st_paths := st_paths st @ [name]\<rparr>, Inr name))"

definition inline_bytes :: "StagedAttachments \<Rightarrow> nat" where
  "inline_bytes st =
     sum_list (map (\<lambda>a. nat (na_size (ga_attachment a)))
       (filter (\<lambda>a. na_chunk_size (ga_attachment a) = None) (st_attachments st)))"

definition can_inline :: "StagedAttachments \<Rightarrow> nat \<Rightarrow> bool" where
  "can_inline st sz \<longleftrightarrow> sz \<le> INLINE_MAX \<and> saturating_add (inline_bytes st) sz \<le> INLINE_MESSAGE_MAX"

definition check_next :: "StagedAttachments \<Rightarrow> bytes \<Rightarrow> io_error + unit" where
  "check_next st name =
     (if length name > MAX_FILE_NAME_BYTES \<or> length (st_attachments st) \<ge> MAX_MESSAGE_FILES then Inl InvalidInput
      else Inr ())"

definition stage_inline ::
  "crypto \<Rightarrow> disk_io \<Rightarrow> bytes \<Rightarrow> bytes \<Rightarrow> bytes \<Rightarrow> bytes \<Rightarrow> disk \<Rightarrow> StagedAttachments \<Rightarrow> disk \<times> StagedAttachments \<times> (io_error + unit)" where
  "stage_inline C io key random name data d st =
     (case check_next st name of
        Inl e \<Rightarrow> (d, st, Inl e)
      | Inr _ \<Rightarrow>
          if saturating_add (inline_bytes st) (length data) > INLINE_MESSAGE_MAX then (d, st, Inl InvalidInput)
          else (case encrypt_chunk C key 0 [] data of
                  Inl e \<Rightarrow> (d, st, Inl (Other e))
                | Inr encrypted \<Rightarrow>
                    (case new_file io random d st of
                       (d', st', Inl e) \<Rightarrow> (d', st', Inl e)
                     | (d', st', Inr path) \<Rightarrow>
                         (case write_all (dk_room io) [] encrypted of
                            (out, written) \<Rightarrow>
                              if \<not> written \<or> \<not> dk_sync io then (d'(path \<mapsto> out), st', Inl DiskFailed)
                              else
                                (d'(path \<mapsto> out),
                                 st'\<lparr>st_attachments := st_attachments st' @
                                   [\<lparr>ga_attachment = \<lparr>na_name = name, na_size = int (length data), na_key = key, na_path = path, na_chunk_size = None\<rparr>,
                                     ga_file_offer = None\<rparr>]\<rparr>,
                                 Inr ())))))"

definition inline ::
  "crypto \<Rightarrow> disk_io \<Rightarrow> bytes \<Rightarrow> bytes \<Rightarrow> bytes \<Rightarrow> bytes \<Rightarrow> disk \<Rightarrow> StagedAttachments \<Rightarrow> disk \<times> StagedAttachments \<times> (io_error + unit)" where
  "inline C io key random name data d st =
     (case stage_inline C io key random name data d st of
        (d', st', Inl e) \<Rightarrow> (d', st'\<lparr>st_failed := True\<rparr>, Inl e) | r \<Rightarrow> r)"

definition stage_parts ::
  "crypto \<Rightarrow> disk_io \<Rightarrow> bytes \<Rightarrow> bytes \<Rightarrow> bytes \<Rightarrow> bytes \<Rightarrow> reader \<Rightarrow> disk \<Rightarrow> StagedAttachments \<Rightarrow> disk \<times> StagedAttachments \<times> (io_error + unit)" where
  "stage_parts C io key random file_id name source d st =
     (case check_next st name of
        Inl e \<Rightarrow> (d, st, Inl e)
      | Inr _ \<Rightarrow>
          (case new_file io random d st of
             (d', st', Inl e) \<Rightarrow> (d', st', Inl e)
           | (d', st', Inr path) \<Rightarrow>
               (case seal_from C io key source CHUNK_SIZE of
                  (out, res) \<Rightarrow>
                    (let d'' = (case out of None \<Rightarrow> d' | Some bs \<Rightarrow> d'(path \<mapsto> bs))
                     in case res of
                          Inl e \<Rightarrow> (d'', st', Inl e)
                        | Inr (sz, sha) \<Rightarrow>
                            (d'',
                             st'\<lparr>st_attachments := st_attachments st' @
                               [\<lparr>ga_attachment = \<lparr>na_name = name, na_size = int sz, na_key = key, na_path = path,
                                   na_chunk_size = Some (int CHUNK_SIZE)\<rparr>,
                                 ga_file_offer = Some (file_id, sha)\<rparr>]\<rparr>,
                             Inr ())))))"

definition parts ::
  "crypto \<Rightarrow> disk_io \<Rightarrow> bytes \<Rightarrow> bytes \<Rightarrow> bytes \<Rightarrow> bytes \<Rightarrow> reader \<Rightarrow> disk \<Rightarrow> StagedAttachments \<Rightarrow> disk \<times> StagedAttachments \<times> (io_error + unit)" where
  "parts C io key random file_id name source d st =
     (case stage_parts C io key random file_id name source d st of
        (d', st', Inl e) \<Rightarrow> (d', st'\<lparr>st_failed := True\<rparr>, Inl e) | r \<Rightarrow> r)"

definition offers :: "StagedAttachments \<Rightarrow> WireFileOffer list" where
  "offers st =
     List.map_filter (\<lambda>a. map_option (\<lambda>(file_id, sha).
       \<lparr>fo_file_id = file_id, fo_name = na_name (ga_attachment a), fo_size = nat (na_size (ga_attachment a)),
        fo_sha256 = sha, fo_chunk_size = CHUNK_SIZE\<rparr>) (ga_file_offer a)) (st_attachments st)"

text \<open>\<open>Drop\<close>: \<open>removable\<close> are the files that can be removed. Overwriting the keys in memory has no place in the model.\<close>

definition drop_staged :: "(bytes \<Rightarrow> bool) \<Rightarrow> disk \<Rightarrow> StagedAttachments \<Rightarrow> disk" where
  "drop_staged removable d st =
     (if st_published st then d else (\<lambda>name. if name \<in> set (st_paths st) \<and> removable name then None else d name))"

text \<open>
  The three ways to hand the files to the database take whether the directory can be synced and what the
  commit returned, and end with the drop of the staging.
\<close>

definition publish ::
  "bool \<Rightarrow> (bytes \<Rightarrow> bool) \<Rightarrow> (NewGroupAttachment list \<Rightarrow> DbError + int) \<Rightarrow> disk \<Rightarrow> StagedAttachments \<Rightarrow> disk \<times> (DbError + int)" where
  "publish dir_synced removable commit_outgoing_group d st =
     (if st_failed st then (drop_staged removable d st, Inl StateError)
      else if \<not> dir_synced then (drop_staged removable d st, Inl DbOther)
      else (case commit_outgoing_group (st_attachments st) of
              Inl e \<Rightarrow> (drop_staged removable d st, Inl e)
            | Inr msg_id \<Rightarrow> (drop_staged removable d (st\<lparr>st_published := True\<rparr>), Inr msg_id)))"

definition publish_dm ::
  "bool \<Rightarrow> (bytes \<Rightarrow> bool) \<Rightarrow> (NewGroupAttachment list \<Rightarrow> DbError + int) \<Rightarrow> disk \<Rightarrow> StagedAttachments \<Rightarrow> disk \<times> (DbError + int)" where
  "publish_dm dir_synced removable commit_outgoing_dm d st =
     (if st_failed st then (drop_staged removable d st, Inl StateError)
      else if \<not> dir_synced then (drop_staged removable d st, Inl DbOther)
      else (case commit_outgoing_dm (st_attachments st) of
              Inl e \<Rightarrow> (drop_staged removable d st, Inl e)
            | Inr msg_id \<Rightarrow> (drop_staged removable d (st\<lparr>st_published := True\<rparr>), Inr msg_id)))"

text \<open>\<open>IncomingCommit\<close> is given by its field \<open>inserted\<close>.\<close>

definition publish_incoming ::
  "bool \<Rightarrow> (bytes \<Rightarrow> bool) \<Rightarrow> (NewAttachment list \<Rightarrow> DbError + bool) \<Rightarrow> disk \<Rightarrow> StagedAttachments \<Rightarrow> disk \<times> (DbError + bool)" where
  "publish_incoming dir_synced removable commit_incoming_message d st =
     (if st_failed st \<or> (\<exists>a \<in> set (st_attachments st). ga_file_offer a \<noteq> None) then (drop_staged removable d st, Inl StateError)
      else if \<not> dir_synced then (drop_staged removable d st, Inl DbOther)
      else (case commit_incoming_message (map ga_attachment (st_attachments st)) of
              Inl e \<Rightarrow> (drop_staged removable d st, Inl e)
            | Inr inserted \<Rightarrow> (drop_staged removable d (st\<lparr>st_published := inserted\<rparr>), Inr inserted)))"

end
