(* ===== verification/File_Received.thy ===== *)
theory File_Received
  imports File_Parts
begin

text \<open>
  Which parts of a file a receiver holds: \<open>Received\<close> of \<open>libcore/src/files.rs\<close>, a bitmap with a
  counter. The locale \<open>part_map\<close> is what the transfer relies on of it: a set of parts below a total
  that only grows, the first part not in it, and an acknowledgement the sender can read back to the
  set itself as long as no held part is further than \<open>MAX_MISSING\<close> past the first hole.
\<close>

record Received =
  rv_bits :: bytes
  rv_total :: nat
  rv_count :: nat

definition completed :: "nat \<Rightarrow> Received" where
  "completed tot = \<lparr>rv_bits = replicate (div_ceil tot 8) 255, rv_total = tot, rv_count = tot\<rparr>"

definition new_received :: "nat \<Rightarrow> Received" where
  "new_received tot = \<lparr>rv_bits = replicate (div_ceil tot 8) 0, rv_total = tot, rv_count = 0\<rparr>"

definition has :: "Received \<Rightarrow> nat \<Rightarrow> bool" where
  "has r index \<longleftrightarrow> index < rv_total r \<and> (rv_bits r ! (index div 8)) AND push_bit (index mod 8) 1 \<noteq> 0"

definition from_bits :: "bytes \<Rightarrow> nat \<Rightarrow> Received" where
  "from_bits bits tot =
     (let n = div_ceil tot 8;
          r = \<lparr>rv_bits = take n (bits @ replicate n 0), rv_total = tot, rv_count = 0\<rparr>
      in r\<lparr>rv_count := length (filter (has r) [0..<tot])\<rparr>)"

definition mark :: "Received \<Rightarrow> nat \<Rightarrow> Received \<times> bool" where
  "mark r index =
     (if index \<ge> rv_total r \<or> has r index then (r, False)
      else (r\<lparr>rv_bits := (rv_bits r)[index div 8 := (rv_bits r ! (index div 8)) OR push_bit (index mod 8) 1],
              rv_count := rv_count r + 1\<rparr>, True))"

definition received_complete :: "Received \<Rightarrow> bool" where
  "received_complete r \<longleftrightarrow> rv_count r = rv_total r"

definition up_to :: "Received \<Rightarrow> nat" where
  "up_to r = (case find (\<lambda>i. \<not> has r i) [0..<rv_total r] of Some i \<Rightarrow> i | None \<Rightarrow> rv_total r)"

definition missing :: "Received \<Rightarrow> nat list" where
  "missing r =
     (case find (has r) (rev [0..<rv_total r]) of
        None \<Rightarrow> []
      | Some latest \<Rightarrow> take MAX_MISSING (filter (\<lambda>i. \<not> has r i) [up_to r..<latest]))"

definition ack :: "Received \<Rightarrow> bytes \<Rightarrow> WireFileAck" where
  "ack r file_id =
     (let seen_to = (case find (has r) (rev [0..<rv_total r]) of None \<Rightarrow> 0 | Some i \<Rightarrow> i + 1)
      in \<lparr>fa_file_id = file_id, fa_received_up_to = up_to r, fa_missing = missing r, fa_seen_to = seen_to,
          fa_resumed = False, fa_echo_index = 0, fa_echo_sent_at = 0\<rparr>)"

definition resume_ack :: "Received \<Rightarrow> bytes \<Rightarrow> WireFileAck" where
  "resume_ack r file_id = (ack r file_id)\<lparr>fa_resumed := True\<rparr>"

text \<open>What an acknowledgement says is held: the closure \<open>held\<close> of \<open>Sending::on_ack\<close>.\<close>

definition ack_held :: "WireFileAck \<Rightarrow> nat \<Rightarrow> bool" where
  "ack_held a i \<longleftrightarrow> i < fa_received_up_to a \<or> (i < fa_seen_to a \<and> i \<notin> set (fa_missing a))"

definition held :: "Received \<Rightarrow> nat set" where
  "held r = {i. has r i}"

definition received_ok :: "Received \<Rightarrow> bool" where
  "received_ok r \<longleftrightarrow> length (rv_bits r) = div_ceil (rv_total r) 8 \<and> rv_count r = card (held r)"

section \<open>The interface\<close>

locale part_map =
  fixes inv :: "'s \<Rightarrow> bool" and tot :: "'s \<Rightarrow> nat" and elems :: "'s \<Rightarrow> nat set"
    and mark_part :: "'s \<Rightarrow> nat \<Rightarrow> 's" and first_hole :: "'s \<Rightarrow> nat" and reply :: "'s \<Rightarrow> WireFileAck"
  assumes elems_below: "inv s \<Longrightarrow> elems s \<subseteq> {..<tot s}"
    and mark_inv: "inv s \<Longrightarrow> inv (mark_part s i)"
    and mark_total: "tot (mark_part s i) = tot s"
    and mark_elems: "inv s \<Longrightarrow> elems (mark_part s i) = (if i < tot s then insert i (elems s) else elems s)"
    and hole_prefix: "inv s \<Longrightarrow> i < first_hole s \<Longrightarrow> i \<in> elems s"
    and hole_not_held: "inv s \<Longrightarrow> first_hole s \<notin> elems s"
    and reply_up_to: "fa_received_up_to (reply s) = first_hole s"
    and reply_exact: "inv s \<Longrightarrow> \<forall>i \<in> elems s. i \<le> first_hole s + MAX_MISSING \<Longrightarrow> ack_held (reply s) i \<longleftrightarrow> i \<in> elems s"
begin

lemma first_hole_le: "inv s \<Longrightarrow> first_hole s \<le> tot s"
  using hole_prefix [of s "tot s"] elems_below [of s] by force

lemma mark_grows: "inv s \<Longrightarrow> elems s \<subseteq> elems (mark_part s i)"
  by (auto simp: mark_elems)

lemma first_hole_mono: "inv s \<Longrightarrow> inv s' \<Longrightarrow> elems s \<subseteq> elems s' \<Longrightarrow> first_hole s \<le> first_hole s'"
  using hole_prefix [of s] hole_not_held [of s'] by (meson linorder_not_le subsetD)

lemma fold_mark:
  "inv s \<Longrightarrow> inv (fold (\<lambda>i t. mark_part t i) js s) \<and> tot (fold (\<lambda>i t. mark_part t i) js s) = tot s \<and>
     elems (fold (\<lambda>i t. mark_part t i) js s) = elems s \<union> {i \<in> set js. i < tot s}"
proof (induction js arbitrary: s)
  case (Cons i js)
  then show ?case using mark_inv [of s i] Cons.IH [of "mark_part s i"]
    by (auto simp: mark_total mark_elems)
qed simp

lemma first_hole_total: "inv s \<Longrightarrow> first_hole s = tot s \<longleftrightarrow> elems s = {..<tot s}"
  using elems_below [of s] hole_prefix [of s] hole_not_held [of s] first_hole_le [of s]
  by (metis lessThan_iff order_le_less subsetI subset_antisym)

end

section \<open>The bitmap\<close>

lemma has_bit: "has r i \<longleftrightarrow> i < rv_total r \<and> bit (rv_bits r ! (i div 8)) (i mod 8)"
  by (simp add: has_def push_bit_of_1 and_exp_eq_0_iff_not_bit)

lemma bit_or_one: "k < 8 \<Longrightarrow> bit (w OR push_bit k 1) n \<longleftrightarrow> bit w n \<or> n = k" for w :: u8
  by (auto simp: bit_or_iff bit_push_bit_iff bit_1_iff push_bit_of_1 bit_exp_iff)

lemma held_below: "held r \<subseteq> {..<rv_total r}"
  by (auto simp: held_def has_def)

lemma finite_held [simp]: "finite (held r)"
  by (rule finite_subset [OF held_below]) simp

lemma div_8_less: "i < n \<Longrightarrow> i div 8 < div_ceil n 8"
  by (simp add: div_ceil_def)

lemma rv_total_mark [simp]: "rv_total (fst (mark r i)) = rv_total r"
  by (simp add: mark_def)

lemma has_mark:
  assumes "length (rv_bits r) = div_ceil (rv_total r) 8"
  shows "has (fst (mark r i)) j \<longleftrightarrow> has r j \<or> (j = i \<and> i < rv_total r)"
proof (cases "i \<ge> rv_total r \<or> has r i")
  case False
  have "i div 8 = j div 8 \<and> i mod 8 = j mod 8 \<longleftrightarrow> i = j" by (metis div_mult_mod_eq)
  moreover have "i div 8 < length (rv_bits r)" using False assms div_8_less by simp
  ultimately show ?thesis using False
    by (auto simp: mark_def has_bit nth_list_update bit_or_one simp del: push_bit_of_1)
qed (auto simp: mark_def)

lemma held_mark: "received_ok r \<Longrightarrow> held (fst (mark r i)) = (if i < rv_total r then insert i (held r) else held r)"
  by (auto simp: held_def has_mark received_ok_def)

lemma received_ok_mark:
  assumes "received_ok r"
  shows "received_ok (fst (mark r i))"
proof (cases "i \<ge> rv_total r \<or> has r i")
  case True
  then have "fst (mark r i) = r" by (auto simp: mark_def)
  with assms show ?thesis by simp
next
  case False
  then have "card (held (fst (mark r i))) = Suc (card (held r))"
    using held_mark [OF assms, of i] by (simp add: held_def [of r] card_insert_disjoint finite_held [unfolded held_def])
  moreover have "rv_count (fst (mark r i)) = Suc (rv_count r)" "length (rv_bits (fst (mark r i))) = length (rv_bits r)"
    using False by (simp_all add: mark_def)
  ultimately show ?thesis using assms by (simp add: received_ok_def)
qed

lemma snd_mark: "snd (mark r i) \<longleftrightarrow> i < rv_total r \<and> i \<notin> held r"
  by (auto simp: mark_def held_def)

lemma rv_total_new [simp]: "rv_total (new_received n) = n"
  by (simp add: new_received_def)

lemma received_ok_new: "received_ok (new_received n)" "held (new_received n) = {}"
proof -
  show *: "held (new_received n) = {}"
    using div_8_less [of _ n] by (auto simp: held_def has_bit new_received_def)
  show "received_ok (new_received n)" unfolding received_ok_def * by (simp add: new_received_def)
qed

lemma bit_255: "k < 8 \<Longrightarrow> bit (255 :: u8) k"
  using bit_mask_iff [of 8 k, where ?'a = u8] by (simp add: mask_eq_exp_minus_1)

lemma received_ok_completed: "received_ok (completed n)" "held (completed n) = {..<n}"
proof -
  show *: "held (completed n) = {..<n}"
    using div_8_less [of _ n] bit_255 [of "_ mod 8"] by (auto simp: held_def has_bit completed_def)
  show "received_ok (completed n)" unfolding received_ok_def * by (simp add: completed_def)
qed

lemma received_ok_from_bits: "received_ok (from_bits bits n)"
proof -
  let ?b = "take (div_ceil n 8) (bits @ replicate (div_ceil n 8) 0)"
  let ?r = "\<lparr>rv_bits = ?b, rv_total = n, rv_count = 0\<rparr>"
  have h: "has (from_bits bits n) i \<longleftrightarrow> has ?r i" for i by (simp add: from_bits_def has_def Let_def)
  have below: "has ?r i \<Longrightarrow> i < n" for i by (simp add: has_def)
  have "length (filter (has ?r) [0..<n]) = card (set (filter (has ?r) [0..<n]))"
    by (rule distinct_card [symmetric]) simp
  also have "set (filter (has ?r) [0..<n]) = held (from_bits bits n)"
    unfolding held_def h set_filter set_upt by (intro Collect_cong) (meson atLeastLessThan_iff below le0)
  finally have c: "length (filter (has ?r) [0..<n]) = card (held (from_bits bits n))" .
  have f: "rv_count (from_bits bits n) = length (filter (has ?r) [0..<n])" "rv_total (from_bits bits n) = n"
    "length (rv_bits (from_bits bits n)) = div_ceil n 8"
    by (simp_all only: from_bits_def Let_def Received.simps length_take length_append length_replicate)
  show ?thesis unfolding received_ok_def f using c by (rule conjI [OF refl])
qed

lemma complete_iff: "received_ok r \<Longrightarrow> received_complete r \<longleftrightarrow> held r = {..<rv_total r}"
proof
  assume ok: "received_ok r" and "received_complete r"
  then have "card (held r) = card {..<rv_total r}" by (simp add: received_complete_def received_ok_def)
  then show "held r = {..<rv_total r}" by (rule card_subset_eq [OF finite_lessThan held_below])
next
  assume "received_ok r" "held r = {..<rv_total r}"
  then show "received_complete r" by (simp add: received_complete_def received_ok_def)
qed

section \<open>Acknowledgements\<close>

lemma up_to_prefix: "i < up_to r \<Longrightarrow> has r i"
proof (cases "find (\<lambda>i. \<not> has r i) [0..<rv_total r]")
  case None
  assume i: "i < up_to r"
  have "up_to r = rv_total r" unfolding up_to_def None by simp
  with i None show ?thesis by (auto simp: find_None_iff)
next
  case (Some k)
  assume i: "i < up_to r"
  from Some obtain j where j: "j < length [0..<rv_total r]" "k = [0..<rv_total r] ! j" "\<forall>m<j. has r ([0..<rv_total r] ! m)"
    by (auto simp: find_Some_iff)
  have "up_to r = k" unfolding up_to_def Some by simp
  with i j show ?thesis by auto
qed

lemma up_to_hole: "\<not> has r (up_to r)"
proof (cases "find (\<lambda>i. \<not> has r i) [0..<rv_total r]")
  case None
  then show ?thesis by (simp add: up_to_def has_def)
next
  case (Some k)
  have "up_to r = k" unfolding up_to_def Some by simp
  with Some show ?thesis by (auto simp: find_Some_iff)
qed

lemma find_rev_Some:
  assumes "find P (rev [0..<n]) = Some k"
  shows "P k" and "k < n" and "\<And>i. i < n \<Longrightarrow> P i \<Longrightarrow> i \<le> k"
proof -
  from assms obtain j where j: "j < n" "k = rev [0..<n] ! j" "P k" "\<forall>m<j. \<not> P (rev [0..<n] ! m)"
    by (auto simp: find_Some_iff)
  have k: "k = n - 1 - j" using j(1,2) by (simp add: rev_nth)
  show "P k" "k < n" using j(3) k j(1) by auto
  fix i assume "i < n" "P i"
  show "i \<le> k"
  proof (rule ccontr)
    assume "\<not> i \<le> k"
    with k j(1) \<open>i < n\<close> have "n - 1 - i < j" and "rev [0..<n] ! (n - 1 - i) = i" by (auto simp: rev_nth)
    with j(4) \<open>P i\<close> show False by metis
  qed
qed

lemma length_filter_upt: "length (filter P [a..<b]) \<le> b - a"
  by (rule order_trans [OF length_filter_le]) simp

lemma ack_exact:
  assumes near: "\<forall>i \<in> held r. i \<le> up_to r + MAX_MISSING"
  shows "ack_held (ack r f) i \<longleftrightarrow> i \<in> held r"
proof (cases "find (has r) (rev [0..<rv_total r])")
  case None
  then have none: "\<not> has r j" for j by (auto simp: find_None_iff has_def)
  then have "up_to r = 0" using up_to_prefix [of 0 r] by (meson gr0I)
  then show ?thesis using None none by (simp add: ack_held_def ack_def held_def)
next
  case (Some l)
  note l = find_rev_Some [OF Some]
  then have "l \<le> up_to r + MAX_MISSING" using near by (auto simp: held_def)
  then have "length (filter (\<lambda>i. \<not> has r i) [up_to r..<l]) \<le> MAX_MISSING"
    using length_filter_upt [of "\<lambda>i. \<not> has r i" "up_to r" l] by linarith
  then have m: "missing r = filter (\<lambda>i. \<not> has r i) [up_to r..<l]" by (simp add: missing_def Some)
  have "has r i" if "i < up_to r" using up_to_prefix that by blast
  moreover have "i \<le> l" if "has r i" using l(3) that by (simp add: has_def)
  ultimately show ?thesis
    using l(1) by (cases "i = l") (auto simp: ack_held_def ack_def Some m held_def)
qed

interpretation rv: part_map received_ok rv_total held "\<lambda>r i. fst (mark r i)" up_to "\<lambda>r. ack r f"
proof unfold_locales
  show "received_ok s \<Longrightarrow> i < up_to s \<Longrightarrow> i \<in> held s" for s i
    using up_to_prefix by (simp add: held_def)
  show "received_ok s \<Longrightarrow> \<forall>i\<in>held s. i \<le> up_to s + MAX_MISSING \<Longrightarrow> ack_held (ack s f) i \<longleftrightarrow> i \<in> held s" for s i
    by (rule ack_exact)
  show "received_ok s \<Longrightarrow> up_to s \<notin> held s" for s
    using up_to_hole by (simp add: held_def)
qed (simp_all add: held_below received_ok_mark held_mark ack_def)

lemma resume_ack_held: "ack_held (resume_ack r f) i \<longleftrightarrow> ack_held (ack r f) i"
  by (simp add: ack_held_def resume_ack_def)

text \<open>The bitmap kept in the database is the whole state.\<close>

lemma from_bits_self:
  assumes "received_ok r"
  shows "from_bits (rv_bits r) (rv_total r) = r"
proof -
  let ?n = "div_ceil (rv_total r) 8"
  have bits: "take ?n (rv_bits r @ replicate ?n 0) = rv_bits r" using assms by (simp add: received_ok_def)
  have total: "rv_total (from_bits (rv_bits r) (rv_total r)) = rv_total r" and same: "rv_bits (from_bits (rv_bits r) (rv_total r)) = rv_bits r"
    by (simp_all only: from_bits_def Let_def Received.simps bits)
  then have "held (from_bits (rv_bits r) (rv_total r)) = held r" by (simp add: held_def has_def)
  then have "rv_count (from_bits (rv_bits r) (rv_total r)) = rv_count r"
    using assms received_ok_from_bits [of "rv_bits r" "rv_total r"] unfolding received_ok_def by metis
  with total same show ?thesis by (metis Received.equality old.unit.exhaust)
qed

text \<open>
  The bitmap is a set of parts. After any sequence of parts marked, in any order, with repeats and
  parts out of range among them: held is exactly what was marked and in range, the counter is its
  size, the file is complete exactly when every part was marked, marking says whether the part was
  new, \<open>up_to\<close> is the first part not held, and reading the bitmap back from the database gives the
  same state.
\<close>

theorem received_refines:
  "let r = fold (\<lambda>i t. fst (mark t i)) js (new_received n)
   in held r = {i \<in> set js. i < n} \<and> rv_count r = card {i \<in> set js. i < n} \<and>
      (received_complete r \<longleftrightarrow> {..<n} \<subseteq> set js) \<and>
      (snd (mark r i) \<longleftrightarrow> i < n \<and> i \<notin> set js) \<and>
      up_to r = Min ({..n} - {i \<in> set js. i < n}) \<and>
      from_bits (rv_bits r) n = r"
proof -
  let ?r = "fold (\<lambda>i t. fst (mark t i)) js (new_received n)"
  have f: "received_ok ?r" "rv_total ?r = n" "held ?r = {i \<in> set js. i < n}"
    using rv.fold_mark [OF received_ok_new(1) [of n], of js] by (simp_all add: received_ok_new(2))
  have le: "up_to ?r \<le> n" using rv.first_hole_le [OF f(1)] f(2) by simp
  have "{..<up_to ?r} \<subseteq> held ?r" "up_to ?r \<notin> held ?r"
    using rv.hole_prefix [OF f(1)] rv.hole_not_held [OF f(1)] by auto
  then have "up_to ?r = Min ({..n} - {i \<in> set js. i < n})"
    using le unfolding f(3) by (intro Min_eqI [symmetric]) (auto simp: not_less [symmetric])
  moreover have "rv_count ?r = card (held ?r)" using f(1) by (simp add: received_ok_def)
  moreover have "received_complete ?r \<longleftrightarrow> {..<n} \<subseteq> set js" using complete_iff [OF f(1)] f by auto
  moreover have "from_bits (rv_bits ?r) n = ?r" using from_bits_self [OF f(1)] f(2) by simp
  ultimately show ?thesis using f snd_mark [of ?r i] unfolding Let_def by (auto simp: f(2,3))
qed

end
