(* ===== verification/File_Flow.thy ===== *)
theory File_Flow
  imports File_Received Complex_Main
begin

text \<open>
  How parts go out: \<open>Sending\<close> (one file to one recipient) and \<open>Flow\<close> (the window of a recipient,
  across its files) of \<open>libcore/src/files.rs\<close>.

  Numbers. The \<open>f64\<close> fields are rationals and every operation rounds its result with a parameter
  \<open>rnd\<close>; what is used of it (\<open>rounding\<close>) is that it is monotone and leaves whole numbers up to
  \<open>2 ^ 53\<close> alone, as rounding to the nearest double does. The values stay finite, so there is no
  infinity or NaN. Times and their differences (\<open>i64\<close>) are integers: milliseconds are far from the
  width. The order of the map of parts in flight is the order of the list.
\<close>

section \<open>Data\<close>

definition MAX_SPAN :: nat where "MAX_SPAN = 4 * WINDOW"
definition FLOW_START :: rat where "FLOW_START = 4"
definition RTO_MIN_MS :: int where "RTO_MIN_MS = 10000"
definition RTO_MAX_MS :: int where "RTO_MAX_MS = 120000"
definition RTO_FIRST_MS :: int where "RTO_FIRST_MS = 30000"
definition OUTLIER :: rat where "OUTLIER = 4"

text \<open>\<open>i64::MIN / 2\<close>.\<close>

definition LONG_AGO :: int where "LONG_AGO = - (2 ^ 62)"

record Sending =
  sn_next :: nat
  sn_acked :: nat
  sn_resend :: "nat list"

record Flow =
  fl_cwnd :: rat
  fl_ssthresh :: rat
  fl_srtt :: "rat option"
  fl_rttvar :: rat
  fl_outliers :: nat
  fl_last_cut :: int
  fl_backoff :: int
  fl_undo :: "(rat \<times> rat \<times> int) option"
  fl_sent :: "((bytes \<times> nat) \<times> (int \<times> bool)) list"
  fl_known :: "bytes set"

definition default_flow :: Flow where
  "default_flow =
     \<lparr>fl_cwnd = FLOW_START, fl_ssthresh = of_nat WINDOW, fl_srtt = None, fl_rttvar = 0, fl_outliers = 0,
      fl_last_cut = LONG_AGO, fl_backoff = 1, fl_undo = None, fl_sent = [], fl_known = {}\<rparr>"

section \<open>Conversions of \<open>f64\<close>\<close>

definition trunc_rat :: "rat \<Rightarrow> int" where
  "trunc_rat x = (if x \<ge> 0 then \<lfloor>x\<rfloor> else \<lceil>x\<rceil>)"

definition as_i64 :: "rat \<Rightarrow> int" where
  "as_i64 x = min (max (trunc_rat x) (- (2 ^ 63))) (2 ^ 63 - 1)"

definition as_u32 :: "rat \<Rightarrow> nat" where
  "as_u32 x = nat (min (max (trunc_rat x) 0) (2 ^ 32 - 1))"

section \<open>The window\<close>

definition window :: "Flow \<Rightarrow> nat" where
  "window fl = min (max (as_u32 (of_int \<lfloor>fl_cwnd fl\<rfloor>)) 1) WINDOW"

definition in_flight :: "Flow \<Rightarrow> nat" where
  "in_flight fl = length (fl_sent fl)"

definition room :: "Flow \<Rightarrow> nat" where
  "room fl = window fl - in_flight fl"

definition rto_ms :: "(rat \<Rightarrow> rat) \<Rightarrow> Flow \<Rightarrow> int" where
  "rto_ms rnd fl =
     (case fl_srtt fl of
        None \<Rightarrow> RTO_FIRST_MS
      | Some s \<Rightarrow> min (max (as_i64 (rnd (s + rnd (4 * fl_rttvar fl))) * fl_backoff fl) RTO_MIN_MS) RTO_MAX_MS)"

definition srtt_ms :: "Flow \<Rightarrow> int option" where
  "srtt_ms fl = map_option as_i64 (fl_srtt fl)"

definition or_insert :: "int \<Rightarrow> bytes \<Rightarrow> nat \<Rightarrow> ((bytes \<times> nat) \<times> (int \<times> bool)) list \<Rightarrow> ((bytes \<times> nat) \<times> (int \<times> bool)) list" where
  "or_insert now file_id i sent = (if hm_get sent (file_id, i) = None then hm_insert (file_id, i) (now, True) sent else sent)"

definition adopt :: "bytes \<Rightarrow> nat list \<Rightarrow> int \<Rightarrow> Flow \<Rightarrow> Flow" where
  "adopt file_id outstanding now fl =
     (if file_id \<in> fl_known fl then fl
      else fl\<lparr>fl_known := insert file_id (fl_known fl), fl_sent := fold (or_insert now file_id) outstanding (fl_sent fl)\<rparr>)"

definition on_sent :: "bytes \<Rightarrow> nat \<Rightarrow> int \<Rightarrow> bool \<Rightarrow> Flow \<Rightarrow> Flow" where
  "on_sent file_id index now resend fl =
     fl\<lparr>fl_known := insert file_id (fl_known fl), fl_sent := hm_insert (file_id, index) (now, resend) (fl_sent fl)\<rparr>"

definition unsent :: "bytes \<Rightarrow> nat \<Rightarrow> Flow \<Rightarrow> Flow" where
  "unsent file_id index fl = fl\<lparr>fl_sent := hm_remove (file_id, index) (fl_sent fl)\<rparr>"

definition sample :: "(rat \<Rightarrow> rat) \<Rightarrow> rat \<Rightarrow> Flow \<Rightarrow> Flow" where
  "sample rnd rtt fl =
     (let (skip, fl) =
            (case fl_srtt fl of
               None \<Rightarrow> (False, fl)
             | Some s \<Rightarrow>
                 if rtt > rnd (OUTLIER * s)
                 then (let n = fl_outliers fl + 1 in (n \<le> max (window fl) 2, fl\<lparr>fl_outliers := n\<rparr>))
                 else (False, fl\<lparr>fl_outliers := 0\<rparr>))
      in if skip then fl
         else (let fl = fl\<lparr>fl_backoff := 1\<rparr>
               in case fl_srtt fl of
                    None \<Rightarrow> fl\<lparr>fl_srtt := Some rtt, fl_rttvar := rnd (rtt / 2)\<rparr>
                  | Some s \<Rightarrow>
                      fl\<lparr>fl_rttvar := rnd (rnd (3 / 4 * fl_rttvar fl) + rnd (1 / 4 * \<bar>rnd (s - rtt)\<bar>)),
                         fl_srtt := Some (rnd (rnd (7 / 8 * s) + rnd (1 / 8 * rtt)))\<rparr>))"

text \<open>One arrived part in the loop of \<open>on_held\<close>.\<close>

definition take_back :: "(rat \<Rightarrow> rat) \<Rightarrow> int \<Rightarrow> int \<Rightarrow> Flow \<Rightarrow> Flow" where
  "take_back rnd at_ms now fl =
     (case (fl_srtt fl, fl_undo fl) of
        (Some s, Some (cwnd, ssthresh, cut_at)) \<Rightarrow>
          if at_ms \<ge> cut_at \<and> rnd (of_int (now - at_ms)) < rnd (s / 2)
          then fl\<lparr>fl_cwnd := max (fl_cwnd fl) cwnd, fl_ssthresh := ssthresh, fl_undo := None\<rparr>
          else fl
      | _ \<Rightarrow> fl)"

definition open_window :: "(rat \<Rightarrow> rat) \<Rightarrow> Flow \<Rightarrow> Flow" where
  "open_window rnd fl =
     (let cwnd = (if fl_cwnd fl < fl_ssthresh fl then rnd (fl_cwnd fl + 1) else rnd (fl_cwnd fl + rnd (1 / fl_cwnd fl)))
      in fl\<lparr>fl_cwnd := min cwnd (of_nat WINDOW)\<rparr>)"

definition part_arrived :: "(rat \<Rightarrow> rat) \<Rightarrow> bytes \<Rightarrow> int \<Rightarrow> bool \<Rightarrow> nat \<times> int \<times> bool \<Rightarrow> Flow \<Rightarrow> Flow" where
  "part_arrived rnd file_id now echoed = (\<lambda>(i, at_ms, resend) fl.
     (let fl = unsent file_id i fl;
          fl = (if resend then take_back rnd at_ms now fl else fl);
          fl = (if \<not> resend \<and> \<not> echoed then sample rnd (rnd (of_int (max (now - at_ms) 0))) fl else fl)
      in open_window rnd fl))"

definition on_held :: "(rat \<Rightarrow> rat) \<Rightarrow> bytes \<Rightarrow> (nat \<Rightarrow> bool) \<Rightarrow> int \<Rightarrow> bool \<Rightarrow> Flow \<Rightarrow> Flow" where
  "on_held rnd file_id hld now echoed fl =
     (let arrived = map (\<lambda>((f, i), (t, r)). (i, t, r)) (filter (\<lambda>((f, i), _). f = file_id \<and> hld i) (fl_sent fl));
          fl = (if arrived \<noteq> [] then fl\<lparr>fl_backoff := 1\<rparr> else fl)
      in fold (part_arrived rnd file_id now echoed) arrived fl)"

definition in_flight_of :: "bytes \<Rightarrow> Flow \<Rightarrow> nat list" where
  "in_flight_of file_id fl = sort (map snd (filter (\<lambda>(f, _). f = file_id) (keys (fl_sent fl))))"

definition recovered :: "Flow \<Rightarrow> Flow" where
  "recovered fl = fl\<lparr>fl_backoff := 1\<rparr>"

definition sent_at :: "bytes \<Rightarrow> nat \<Rightarrow> Flow \<Rightarrow> int option" where
  "sent_at file_id index fl = map_option fst (hm_get (fl_sent fl) (file_id, index))"

definition overdue :: "(rat \<Rightarrow> rat) \<Rightarrow> bytes \<Rightarrow> nat \<Rightarrow> int \<Rightarrow> Flow \<Rightarrow> bool" where
  "overdue rnd file_id index now fl =
     (case hm_get (fl_sent fl) (file_id, index) of Some (at_ms, _) \<Rightarrow> now - at_ms \<ge> rto_ms rnd fl | None \<Rightarrow> True)"

definition overdue_parts :: "(rat \<Rightarrow> rat) \<Rightarrow> bytes \<Rightarrow> int \<Rightarrow> Flow \<Rightarrow> nat list" where
  "overdue_parts rnd file_id now fl =
     sort (map (\<lambda>((_, i), _). i)
       (filter (\<lambda>((f, _), (at_ms, _)). f = file_id \<and> now - at_ms \<ge> rto_ms rnd fl) (fl_sent fl)))"

definition on_loss :: "(rat \<Rightarrow> rat) \<Rightarrow> int \<Rightarrow> int \<Rightarrow> Flow \<Rightarrow> Flow" where
  "on_loss rnd at_ms now fl =
     (let rtt = (case fl_srtt fl of Some s \<Rightarrow> as_i64 s | None \<Rightarrow> RTO_FIRST_MS)
      in if at_ms \<le> fl_last_cut fl \<or> now - fl_last_cut fl < rtt then fl
         else (let half = max (rnd (fl_cwnd fl / 2)) 2
               in fl\<lparr>fl_last_cut := now, fl_undo := Some (fl_cwnd fl, fl_ssthresh fl, now),
                     fl_ssthresh := half, fl_cwnd := half, fl_backoff := 2\<rparr>))"

definition forget_file :: "bytes \<Rightarrow> Flow \<Rightarrow> Flow" where
  "forget_file file_id fl =
     fl\<lparr>fl_sent := filter (\<lambda>((f, _), _). f \<noteq> file_id) (fl_sent fl), fl_known := fl_known fl - {file_id}\<rparr>"

section \<open>One file to one recipient\<close>

text \<open>A part given up in either loop: taken out of flight and noted for sending again.\<close>

definition resume_part :: "WireFileAck \<Rightarrow> nat \<Rightarrow> Sending \<times> Flow \<Rightarrow> Sending \<times> Flow" where
  "resume_part a i = (\<lambda>(s, fl).
     if i \<ge> sn_acked s \<and> \<not> ack_held a i \<and> i \<notin> set (sn_resend s)
     then (s\<lparr>sn_resend := sn_resend s @ [i]\<rparr>, unsent (fa_file_id a) i fl)
     else (s, fl))"

text \<open>The latest of the send times of the lost parts so far.\<close>

definition later :: "int option \<Rightarrow> int \<Rightarrow> int option" where
  "later lost at_ms = Some (case lost of None \<Rightarrow> at_ms | Some l \<Rightarrow> max l at_ms)"

definition missing_part :: "(rat \<Rightarrow> rat) \<Rightarrow> WireFileAck \<Rightarrow> int \<Rightarrow> nat \<Rightarrow> Sending \<times> Flow \<times> int option \<Rightarrow> Sending \<times> Flow \<times> int option" where
  "missing_part rnd a now m = (\<lambda>(s, fl, lost).
     if m \<ge> sn_acked s \<and> m < sn_next s \<and> m \<notin> set (sn_resend s) \<and> overdue rnd (fa_file_id a) m now fl
     then (s\<lparr>sn_resend := sn_resend s @ [m]\<rparr>, unsent (fa_file_id a) m fl,
           later lost (case sent_at (fa_file_id a) m fl of Some at_ms \<Rightarrow> at_ms | None \<Rightarrow> LONG_AGO))
     else (s, fl, lost))"

definition keep_lost :: "WireFileAck \<Rightarrow> Sending \<Rightarrow> Sending" where
  "keep_lost a s = s\<lparr>sn_resend := sort (filter (\<lambda>m. m \<ge> sn_acked s \<and> \<not> ack_held a m) (sn_resend s))\<rparr>"

definition on_ack :: "(rat \<Rightarrow> rat) \<Rightarrow> WireFileAck \<Rightarrow> int \<Rightarrow> Sending \<times> Flow \<Rightarrow> Sending \<times> Flow" where
  "on_ack rnd a now = (\<lambda>(s, fl).
     (let fl = (if fa_echo_sent_at a > 0 \<and> fa_echo_sent_at a \<le> now
                then sample rnd (rnd (of_int (now - fa_echo_sent_at a))) fl else fl);
          fl = on_held rnd (fa_file_id a) (ack_held a) now (fa_echo_sent_at a > 0) fl;
          s = s\<lparr>sn_acked := max (sn_acked s) (min (fa_received_up_to a) (sn_next s))\<rparr>
      in if fa_resumed a
         then (let (s, fl) = fold (resume_part a) (in_flight_of (fa_file_id a) fl) (s, fl)
               in (keep_lost a s, recovered fl))
         else (let (s, fl, lost) = fold (missing_part rnd a now) (fa_missing a) (s, fl, None);
                   fl = (case lost of Some at_ms \<Rightarrow> on_loss rnd at_ms now fl | None \<Rightarrow> fl)
               in (keep_lost a s, fl))))"

definition tail_part :: "bytes \<Rightarrow> nat \<Rightarrow> Sending \<times> Flow \<times> int option \<Rightarrow> Sending \<times> Flow \<times> int option" where
  "tail_part file_id i = (\<lambda>(s, fl, lost).
     (let at_ms = (case sent_at file_id i fl of Some at_ms \<Rightarrow> at_ms | None \<Rightarrow> LONG_AGO);
          fl = unsent file_id i fl
      in if i \<ge> sn_acked s \<and> i < sn_next s \<and> i \<notin> set (sn_resend s)
         then (s\<lparr>sn_resend := sn_resend s @ [i]\<rparr>, fl, later lost at_ms)
         else (s, fl, lost)))"

text \<open>
  The \<open>while\<close> of \<open>due\<close> pushes \<open>next, next + 1, ..\<close> until the room is used up or \<open>limit\<close> is reached.
\<close>

definition due :: "(rat \<Rightarrow> rat) \<Rightarrow> bytes \<Rightarrow> nat \<Rightarrow> int \<Rightarrow> Sending \<times> Flow \<Rightarrow> nat list \<times> Sending \<times> Flow" where
  "due rnd file_id tot now = (\<lambda>(s, fl).
     (let fl = adopt file_id (filter (\<lambda>i. i \<notin> set (sn_resend s)) [sn_acked s..<sn_next s]) now fl;
          (s, fl, lost) = fold (tail_part file_id) (overdue_parts rnd file_id now fl) (s, fl, None);
          fl = (case lost of Some at_ms \<Rightarrow> on_loss rnd at_ms now fl | None \<Rightarrow> fl);
          again = sort (sn_resend s);
          rm = room fl;
          out = take rm again;
          limit = min (sn_acked s + MAX_SPAN) tot;
          stop = max (sn_next s) (min limit (sn_next s + (rm - length out)));
          fresh = [sn_next s..<stop];
          fl = fold (\<lambda>i. on_sent file_id i now True) out fl;
          fl = fold (\<lambda>i. on_sent file_id i now False) fresh fl
      in (out @ fresh, s\<lparr>sn_resend := drop rm again, sn_next := stop\<rparr>, fl)))"

definition rewind :: "bytes \<Rightarrow> Sending \<times> Flow \<Rightarrow> Sending \<times> Flow" where
  "rewind file_id = (\<lambda>(s, fl). (s\<lparr>sn_resend := [sn_acked s..<sn_next s]\<rparr>, forget_file file_id fl))"

definition sending_done :: "nat \<Rightarrow> Sending \<Rightarrow> bool" where
  "sending_done tot s \<longleftrightarrow> sn_acked s \<ge> tot"

definition rounding :: "(rat \<Rightarrow> rat) \<Rightarrow> bool" where
  "rounding rnd \<longleftrightarrow> (\<forall>x y. x \<le> y \<longrightarrow> rnd x \<le> rnd y) \<and> (\<forall>n. \<bar>n\<bar> \<le> 2 ^ 53 \<longrightarrow> rnd (of_int n) = of_int n)"

end
