(* ===== verification/File_Transfer.thy ===== *)
theory File_Transfer
  imports File_Flow
begin

text \<open>
  The transfer of a file: what the sender keeps of one recipient of a file in its database
  (\<open>libcore/src/db/file_transfer.rs\<close>) and what the receiver does with a part
  (\<open>apply_file_chunk\<close> of \<open>libcore/src/db/dm.rs\<close>), on top of \<open>files.rs\<close>.

  The tables are maps and sets; the query for a row is the lookup of its key, and \<open>with_tx\<close> keeps
  the tables as they were when an error is returned, while the disk keeps what was written.
\<close>

section \<open>The sender\<close>

record FilePeer =
  fp_file_id :: bytes
  fp_contact_id :: int
  fp_next :: nat
  fp_acked :: nat
  fp_resend :: "nat list"
  fp_last_sent_at :: "int option"
  fp_last_ack_at :: "int option"
  fp_failed :: bool

record FileBatch =
  fb_due :: "nat list"
  fb_next_before :: nat
  fb_gave_up :: bool

definition empty_batch :: FileBatch where
  "empty_batch = \<lparr>fb_due = [], fb_next_before = 0, fb_gave_up = False\<rparr>"

definition mutate_file_peer :: "FilePeer option \<Rightarrow> Flow \<Rightarrow> (FilePeer \<Rightarrow> Flow \<Rightarrow> FilePeer \<times> Flow \<times> 'a) \<Rightarrow> FilePeer option \<times> Flow \<times> 'a option" where
  "mutate_file_peer row fl upd =
     (case row of
        None \<Rightarrow> (None, fl, None)
      | Some peer \<Rightarrow> (case upd peer fl of (peer', fl', res) \<Rightarrow> (Some peer', fl', Some res)))"

definition reserve_update :: "(rat \<Rightarrow> rat) \<Rightarrow> bytes \<Rightarrow> nat \<Rightarrow> int \<Rightarrow> int option \<Rightarrow> FilePeer \<Rightarrow> Flow \<Rightarrow> FilePeer \<times> Flow \<times> FileBatch" where
  "reserve_update rnd file_id tot now heard peer fl =
     (if fp_failed peer \<or> fp_acked peer \<ge> tot then (peer, fl, empty_batch)
      else
        (let sending = \<lparr>sn_next = fp_next peer, sn_acked = fp_acked peer, sn_resend = fp_resend peer\<rparr>;
             alive = (\<lambda>sent. case heard of None \<Rightarrow> False | Some h \<Rightarrow> h > sent);
             gave_up = (case fp_last_sent_at peer of
                 None \<Rightarrow> False
               | Some sent \<Rightarrow> fp_last_ack_at peer = None \<and> alive sent \<and> now - sent > 24 * 3600 * 1000);
             again = (case fp_last_sent_at peer of
                 None \<Rightarrow> False
               | Some sent \<Rightarrow> sn_resend sending = [] \<and> sn_next sending > sn_acked sending \<and> alive sent
                   \<and> (case fp_last_ack_at peer of None \<Rightarrow> True | Some h \<Rightarrow> h < sent) \<and> now - sent > 30 * 60 * 1000)
         in if gave_up
            then (peer\<lparr>fp_failed := True\<rparr>, forget_file file_id fl, empty_batch\<lparr>fb_gave_up := True\<rparr>)
            else
              (let (sending, fl) = (if again then rewind file_id (sending, fl) else (sending, fl));
                   (out, sending', fl') = due rnd file_id tot now (sending, fl)
               in (peer\<lparr>fp_next := sn_next sending', fp_resend := sn_resend sending',
                        fp_last_sent_at := (if out \<noteq> [] then Some now else fp_last_sent_at peer)\<rparr>,
                   fl', \<lparr>fb_due = out, fb_next_before = sn_next sending, fb_gave_up = False\<rparr>))))"

definition reserve_file_batch :: "(rat \<Rightarrow> rat) \<Rightarrow> bytes \<Rightarrow> nat \<Rightarrow> int \<Rightarrow> int option \<Rightarrow> FilePeer option \<Rightarrow> Flow \<Rightarrow> FilePeer option \<times> Flow \<times> FileBatch option" where
  "reserve_file_batch rnd file_id tot now heard row fl = mutate_file_peer row fl (reserve_update rnd file_id tot now heard)"

definition ack_acceptable :: "nat \<Rightarrow> WireFileAck \<Rightarrow> bool" where
  "ack_acceptable tot a \<longleftrightarrow>
     \<not> (fa_received_up_to a > tot \<or> fa_seen_to a > tot \<or> fa_received_up_to a > fa_seen_to a
        \<or> length (fa_missing a) > 64
        \<or> (\<exists>index \<in> set (fa_missing a). index < fa_received_up_to a \<or> index \<ge> fa_seen_to a))"

definition ack_update :: "(rat \<Rightarrow> rat) \<Rightarrow> WireFileAck \<Rightarrow> nat \<Rightarrow> int \<Rightarrow> FilePeer \<Rightarrow> Flow \<Rightarrow> FilePeer \<times> Flow \<times> nat" where
  "ack_update rnd a tot now peer fl =
     (let (sending, fl) = on_ack rnd a now (\<lparr>sn_next = fp_next peer, sn_acked = fp_acked peer, sn_resend = fp_resend peer\<rparr>, fl);
          fl = (if sn_acked sending \<ge> tot then forget_file (fa_file_id a) fl else fl)
      in (peer\<lparr>fp_acked := sn_acked sending, fp_resend := sn_resend sending, fp_last_ack_at := Some now\<rparr>, fl, sn_acked sending))"

definition acknowledge_file_parts :: "(rat \<Rightarrow> rat) \<Rightarrow> WireFileAck \<Rightarrow> nat \<Rightarrow> int \<Rightarrow> FilePeer option \<Rightarrow> Flow \<Rightarrow> FilePeer option \<times> Flow \<times> (DbError + nat option)" where
  "acknowledge_file_parts rnd a tot now row fl =
     (if \<not> ack_acceptable tot a then (row, fl, Inl StateError)
      else (case mutate_file_peer row fl (ack_update rnd a tot now) of (row', fl', res) \<Rightarrow> (row', fl', Inr res)))"

definition retry_update :: "nat list \<Rightarrow> FilePeer \<Rightarrow> Flow \<Rightarrow> FilePeer \<times> Flow \<times> unit" where
  "retry_update indices peer fl =
     (peer\<lparr>fp_resend := remdups_adj (sort (fp_resend peer @
        filter (\<lambda>index. index \<ge> fp_acked peer \<and> index < fp_next peer) indices))\<rparr>, fl, ())"

definition retry_file_parts :: "bytes \<Rightarrow> nat list \<Rightarrow> FilePeer option \<Rightarrow> Flow \<Rightarrow> FilePeer option \<times> Flow" where
  "retry_file_parts file_id indices row fl =
     (let fl = fold (unsent file_id) indices fl
      in case mutate_file_peer row fl (retry_update indices) of (row', fl', _) \<Rightarrow> (row', fl'))"

definition fail_file_peer :: "FilePeer option \<Rightarrow> FilePeer option \<times> bool" where
  "fail_file_peer row = (map_option (fp_failed_update (\<lambda>_. True)) row, row \<noteq> None)"

section \<open>The receiver\<close>

record FileIn =
  fi_file_id :: bytes
  fi_contact_id :: int
  fi_message_id :: int
  fi_name :: bytes
  fi_size :: nat
  fi_sha256 :: bytes
  fi_chunk_size :: nat
  fi_path :: bytes
  fi_key :: bytes
  fi_bits :: bytes
  fi_received :: nat
  fi_created_at :: int

text \<open>
  The tables \<open>apply_file_chunk\<close> reads and writes: whether a contact may send files, the files deleted
  or failed, tombstones of messages, which messages are live and what they are references for
  (\<open>dm_reference_conn\<close>), files coming in, files complete, parts set aside before their offer, and the
  attachments by row number.
\<close>

record FileTables =
  ft_allowed :: "int \<Rightarrow> bool"
  ft_deleted :: "(int \<times> bytes) set"
  ft_tombstones :: "(int \<times> DmReference) set"
  ft_live :: "int \<Rightarrow> bool"
  ft_reference :: "int \<Rightarrow> DbError + DmReference"
  ft_in :: "(bytes \<times> int) \<Rightarrow> FileIn option"
  ft_completed :: "(bytes \<times> int) \<Rightarrow> (int \<times> int \<times> nat) option"
  ft_early :: "((int \<times> bytes \<times> nat) \<times> bytes) list"
  ft_dm_early :: "(int \<times> DmReference \<times> bytes) set"
  ft_failures :: "(bytes \<times> int) set"
  ft_cleanup :: "bytes set"
  ft_attachments :: "(int \<times> NewAttachment) list"
  ft_next_row :: int

record DmFileUpdate =
  du_message_id :: int
  du_fresh :: bool
  du_total :: nat
  du_received :: Received
  du_attachment_id :: "int option"
  du_broken :: bool

text \<open>A part of a file that is not coming in: complete already, or set aside for its offer.\<close>

definition chunk_unexpected :: "int \<Rightarrow> WireFileChunk \<Rightarrow> DmReference option \<Rightarrow> FileTables \<Rightarrow> FileTables \<times> (DbError + DmFileUpdate option)" where
  "chunk_unexpected contact_id chunk reference db =
     (case ft_completed db (fc_file_id chunk, contact_id) of
        Some (message_id, attachment_id, tot) \<Rightarrow>
          if \<not> ft_live db message_id then (db, Inr None)
          else if (case reference of None \<Rightarrow> False | Some ref \<Rightarrow> ft_reference db message_id \<noteq> Inr ref) then (db, Inl StateError)
          else if fc_index chunk \<ge> tot then (db, Inl StateError)
          else (db, Inr (Some \<lparr>du_message_id = message_id, du_fresh = False, du_total = tot, du_received = completed tot,
                               du_attachment_id = Some attachment_id, du_broken = False\<rparr>))
      | None \<Rightarrow> (db, Inr None))"

definition set_aside :: "int \<Rightarrow> WireFileChunk \<Rightarrow> DmReference option \<Rightarrow> FileTables \<Rightarrow> FileTables" where
  "set_aside contact_id chunk reference db =
     (if length (filter (\<lambda>((c, _, _), _). c = contact_id) (ft_early db)) \<ge> 64 \<or> fc_index chunk \<ge> MAX_PARTS then db
      else if length (fc_data chunk) \<le> CHUNK_SIZE
      then (let key = (contact_id, fc_file_id chunk, fc_index chunk)
            in db\<lparr>ft_dm_early := (case reference of None \<Rightarrow> ft_dm_early db
                                  | Some ref \<Rightarrow> insert (contact_id, ref, fc_file_id chunk) (ft_dm_early db)),
                  ft_early := (if map_of (ft_early db) key = None then ft_early db @ [(key, fc_data chunk)] else ft_early db)\<rparr>)
      else db)"

text \<open>The end of a file: every part is there.\<close>

definition file_finished :: "int \<Rightarrow> FileIn \<Rightarrow> nat \<Rightarrow> bool \<Rightarrow> FileTables \<Rightarrow> FileTables \<times> int option" where
  "file_finished contact_id fin tot broken db =
     (let key = (fi_file_id fin, contact_id); row = ft_next_row db;
          (db, att) =
            (if broken
             then (db\<lparr>ft_failures := insert key (ft_failures db), ft_deleted := insert (contact_id, fi_file_id fin) (ft_deleted db),
                      ft_cleanup := insert (fi_path fin) (ft_cleanup db)\<rparr>, None)
             else (db\<lparr>ft_attachments := ft_attachments db @
                        [(row, \<lparr>na_name = fi_name fin, na_size = int (fi_size fin), na_key = fi_key fin, na_path = fi_path fin,
                                na_chunk_size = Some (int (fi_chunk_size fin))\<rparr>)],
                      ft_next_row := row + 1,
                      ft_completed := (ft_completed db)(key \<mapsto> (fi_message_id fin, row, tot))\<rparr>, Some row))
      in (db\<lparr>ft_in := (ft_in db)(key := None)\<rparr>, att))"

text \<open>A part of a file that is coming in.\<close>

definition take_chunk :: "crypto \<Rightarrow> int \<Rightarrow> WireFileChunk \<Rightarrow> FileIn \<Rightarrow> FileTables \<Rightarrow> disk \<Rightarrow> FileTables \<times> disk \<times> (DbError + DmFileUpdate option)" where
  "take_chunk C contact_id chunk fin db d =
     (let tot = chunk_count (fi_size fin) (fi_chunk_size fin);
          received = from_bits (fi_bits fin) tot;
          index = fc_index chunk
      in if length (fi_key fin) \<noteq> 32 then (db, d, Inl StateError)
         else (let written =
                 (if has received index then Inr (received, db, d, False)
                  else (case write_part C (fi_key fin) (d (fi_path fin)) (fi_size fin) (fi_chunk_size fin) index (fc_data chunk) of
                          Inl e \<Rightarrow> Inl DbOther
                        | Inr f \<Rightarrow>
                            (let r = fst (mark received index)
                             in Inr (r, db\<lparr>ft_in := (ft_in db)((fi_file_id fin, contact_id) \<mapsto> fin\<lparr>fi_bits := rv_bits r, fi_received := rv_count r\<rparr>)\<rparr>,
                                     d(fi_path fin \<mapsto> f), True))))
               in case written of
                    Inl e \<Rightarrow> (db, d, Inl e)
                  | Inr (r, db', d', fresh) \<Rightarrow>
                      if received_complete r
                      then (case snd (open_to C (fi_key fin) (d' (fi_path fin)) (fi_size fin) (fi_chunk_size fin)) of
                              Inl e \<Rightarrow> (db, d', Inl DbOther)
                            | Inr sha \<Rightarrow>
                                (let broken = (sha \<noteq> fi_sha256 fin); (db'', att) = file_finished contact_id fin tot broken db'
                                 in (db'', d', Inr (Some \<lparr>du_message_id = fi_message_id fin, du_fresh = fresh, du_total = tot,
                                                          du_received = r, du_attachment_id = att, du_broken = broken\<rparr>))))
                      else (db', d', Inr (Some \<lparr>du_message_id = fi_message_id fin, du_fresh = fresh, du_total = tot,
                                                 du_received = r, du_attachment_id = None, du_broken = False\<rparr>))))"

definition apply_file_chunk :: "crypto \<Rightarrow> int \<Rightarrow> WireFileChunk \<Rightarrow> DmReference option \<Rightarrow> FileTables \<Rightarrow> disk \<Rightarrow> FileTables \<times> disk \<times> (DbError + DmFileUpdate option)" where
  "apply_file_chunk C contact_id chunk reference db d =
     (if \<not> ft_allowed db contact_id then (db, d, Inr None)
      else if (contact_id, fc_file_id chunk) \<in> ft_deleted db then (db, d, Inr None)
      else if (case reference of None \<Rightarrow> False | Some ref \<Rightarrow> (contact_id, ref) \<in> ft_tombstones db) then (db, d, Inr None)
      else
        (case ft_in db (fc_file_id chunk, contact_id) of
           Some fin \<Rightarrow>
             if ft_live db (fi_message_id fin)
             then if (case reference of None \<Rightarrow> False | Some ref \<Rightarrow> ft_reference db (fi_message_id fin) \<noteq> Inr ref)
                  then (db, d, Inl StateError)
                  else take_chunk C contact_id chunk fin db d
             else (case chunk_unexpected contact_id chunk reference db of
                     (db', Inr None) \<Rightarrow> (set_aside contact_id chunk reference db', d, Inr None)
                   | (db', res) \<Rightarrow> (db', d, res))
         | None \<Rightarrow> (case chunk_unexpected contact_id chunk reference db of
                     (db', Inr None) \<Rightarrow> (set_aside contact_id chunk reference db', d, Inr None)
                   | (db', res) \<Rightarrow> (db', d, res))))"

end
