(* ===== verification/File_Parts_Props.thy ===== *)
theory File_Parts_Props
  imports File_Parts
begin

text \<open>
  Sealing a file in parts and opening it again: what a source yields is cut into parts (\<open>cut_parts\<close>), part
  \<open>i\<close> lies sealed in slot \<open>i\<close> (\<open>slot_holds\<close>), and a file whose slots all hold their parts opens to
  the bytes it was made of. Then the staging of the files of a message.
\<close>

section \<open>Sources\<close>

text \<open>A source without errors, and all it will yield.\<close>

definition pieces_ok :: "reader \<Rightarrow> bool" where
  "pieces_ok src \<longleftrightarrow> (\<forall>x \<in> set src. \<exists>p. x = Inr p \<and> p \<noteq> [])"

fun content :: "reader \<Rightarrow> bytes" where
  "content [] = []"
| "content (Inl e # src) = []"
| "content (Inr p # src) = p @ content src"

lemma pieces_ok_Cons [simp]: "pieces_ok (x # src) \<longleftrightarrow> (\<exists>p. x = Inr p \<and> p \<noteq> []) \<and> pieces_ok src"
  by (auto simp: pieces_ok_def)

lemma pieces_ok_Nil [simp]: "pieces_ok []"
  by (simp add: pieces_ok_def)

lemma read_some_spec:
  assumes "pieces_ok src" "0 < n"
  obtains (ended) "src = []" "read_some n src = (Inr [], [])"
  | (piece) k src' where "read_some n src = (Inr k, src')" "k \<noteq> []" "length k \<le> n" "pieces_ok src'" "content src = k @ content src'"
proof (cases src)
  case Nil
  then show thesis using ended by (simp add: read_some_def)
next
  case (Cons x rest)
  then obtain p where p: "x = Inr p" "p \<noteq> []" and r: "pieces_ok rest" using assms(1) by auto
  let ?s = "if length p \<le> n then rest else Inr (drop n p) # rest"
  have "read_some n src = (Inr (take n p), ?s)" by (simp add: read_some_def Cons p)
  moreover have "take n p \<noteq> []" "length (take n p) \<le> n" using p(2) assms(2) by simp_all
  moreover have "pieces_ok ?s" using r p(2) by simp
  moreover have "content src = take n p @ content ?s" by (simp add: Cons p)
  ultimately show thesis by (rule piece)
qed

lemma read_full_spec:
  "pieces_ok src \<Longrightarrow> \<exists>src'. read_full n src = (Inr (take n (content src)), src') \<and> pieces_ok src' \<and> content src' = drop n (content src)"
proof (induction n src rule: read_full.induct)
  case (1 n src)
  show ?case
  proof (cases "n = 0")
    case False
    then have "0 < n" by simp
    from 1(2) this show ?thesis
    proof (cases rule: read_some_spec)
      case ended
      with False show ?thesis by (subst read_full.simps) simp
    next
      case (piece k src')
      then obtain b k' where k: "k = b # k'" by (cases k) auto
      with piece(1) have rs: "read_some n src = (Inr (b # k'), src')" by simp
      from 1(1) [OF False rs [symmetric] refl refl piece(4)]
      obtain s'' where s: "read_full (n - length k) src' = (Inr (take (n - length k) (content src')), s'')"
        "pieces_ok s''" "content s'' = drop (n - length k) (content src')" unfolding k by blast
      have "read_full n src = (Inr (k @ take (n - length k) (content src')), s'')"
        using False rs s(1) unfolding k by (subst read_full.simps) simp
      then show ?thesis using s piece(3,5) by auto
    qed
  qed (subst read_full.simps, simp add: 1(2))
qed

section \<open>Cutting\<close>

function cut_parts :: "nat \<Rightarrow> bytes \<Rightarrow> bytes list" where
  "cut_parts cs c = (if cs = 0 \<or> length c \<le> cs then [c] else take cs c # cut_parts cs (drop cs c))"
  by pat_completeness auto
termination by (relation "measure (\<lambda>(cs, c). length c)") auto

declare cut_parts.simps [simp del]

lemma cut_short: "length c \<le> cs \<Longrightarrow> cut_parts cs c = [c]"
  by (subst cut_parts.simps) simp

lemma cut_long: "0 < cs \<Longrightarrow> cs < length c \<Longrightarrow> cut_parts cs c = take cs c # cut_parts cs (drop cs c)"
  by (subst cut_parts.simps) simp

lemma concat_cut: "concat (cut_parts cs c) = c"
  by (induction cs c rule: cut_parts.induct) (subst cut_parts.simps, simp)

lemma div_ceil_step: "0 < cs \<Longrightarrow> cs < n \<Longrightarrow> div_ceil n cs = Suc (div_ceil (n - cs) cs)"
proof -
  assume "0 < cs" "cs < n"
  then have "n + cs - 1 = (n - cs + cs - 1) + cs" by simp
  then show ?thesis using \<open>0 < cs\<close> unfolding div_ceil_def by (metis div_add_self2 Suc_eq_plus1 neq0_conv)
qed

lemma div_ceil_small: "n \<le> cs \<Longrightarrow> max (div_ceil n cs) 1 = 1"
proof -
  assume "n \<le> cs"
  then have "n + cs - 1 < 2 * cs \<or> cs = 0" by linarith
  then have "(n + cs - 1) div cs < 2" by (auto simp: less_mult_imp_div_less)
  then show ?thesis by (simp add: div_ceil_def)
qed

lemma length_cut: "0 < cs \<Longrightarrow> length (cut_parts cs c) = max (div_ceil (length c) cs) 1"
proof (induction cs c rule: cut_parts.induct)
  case (1 cs c)
  show ?case
  proof (cases "length c \<le> cs")
    case True
    then show ?thesis using div_ceil_small [OF True] by (simp add: cut_short)
  next
    case False
    have "div_ceil (length c - cs) cs \<ge> 1" using False 1(2) by (simp add: div_ceil_def div_greater_zero_iff Suc_le_eq)
    then show ?thesis using False 1 by (simp add: cut_long div_ceil_step)
  qed
qed

lemma nth_cut: "0 < cs \<Longrightarrow> i < length (cut_parts cs c) \<Longrightarrow> cut_parts cs c ! i = take cs (drop (i * cs) c)"
proof (induction cs c arbitrary: i rule: cut_parts.induct)
  case (1 cs c)
  show ?case
  proof (cases "length c \<le> cs")
    case True
    with 1 show ?thesis by (simp add: cut_short)
  next
    case False
    with 1 show ?thesis by (cases i) (simp_all add: cut_long add.commute)
  qed
qed

text \<open>A file within the bounds has as many parts as \<open>chunk_count\<close> says.\<close>

lemma chunk_count_cut:
  assumes "0 < cs" "length c \<le> MAX_FILE_BYTES"
  shows "chunk_count (length c) cs = length (cut_parts cs c)"
proof -
  have "div_ceil (length c) cs \<le> length c + cs - 1" unfolding div_ceil_def by (rule div_le_dividend)
  moreover have "div_ceil (length c) cs \<le> max (length c) 1"
  proof (cases "length c")
    case (Suc n)
    have "(length c + cs - 1) div cs \<le> (length c * cs) div cs"
      using assms(1) Suc by (intro div_le_mono) (simp add: Suc)
    then show ?thesis using assms(1) by (simp add: div_ceil_def)
  qed (use assms(1) in \<open>simp add: div_ceil_def\<close>)
  ultimately have "max (div_ceil (length c) cs) 1 < 2 ^ 32"
    using assms(2) by (simp add: MAX_FILE_BYTES_def)
  then show ?thesis by (simp add: chunk_count_def length_cut [OF assms(1)])
qed

lemma length_nth_cut:
  assumes "0 < cs" "i < length (cut_parts cs c)"
  shows "length (cut_parts cs c ! i) = chunk_len (length c) cs i"
  using assms by (simp add: nth_cut chunk_len_def Let_def min.commute)

lemma cut_full: "0 < cs \<Longrightarrow> Suc i < length (cut_parts cs c) \<Longrightarrow> length (cut_parts cs c ! i) = cs"
proof (induction cs c arbitrary: i rule: cut_parts.induct)
  case (1 cs c)
  show ?case
  proof (cases "length c \<le> cs")
    case True
    with 1 show ?thesis by (simp add: cut_short)
  next
    case False
    with 1 show ?thesis by (cases i) (auto simp: cut_long)
  qed
qed

section \<open>Sealing\<close>

text \<open>
  The documented limit of the cipher is far above the size of a part: sealing a part succeeds.
\<close>

definition seals_parts :: "crypto \<Rightarrow> bool" where
  "seals_parts C \<longleftrightarrow> (\<forall>k n ad m. length m \<le> CHUNK_SIZE \<longrightarrow> Aead_encrypt C k n ad m \<noteq> None)"

definition sealed_part :: "crypto \<Rightarrow> bytes \<Rightarrow> nat \<Rightarrow> bytes \<Rightarrow> bytes" where
  "sealed_part C key i p = (case encrypt_chunk C key (of_nat i) [] p of Inr ct \<Rightarrow> ct | Inl _ \<Rightarrow> [])"

lemma seals_partsE:
  assumes "seals_parts C" "length p \<le> CHUNK_SIZE"
  obtains ct where "Aead_encrypt C k n ad p = Some ct"
  using assms unfolding seals_parts_def by (metis option.exhaust)

lemma encrypt_part:
  assumes "seals_parts C" "length p \<le> CHUNK_SIZE"
  shows "encrypt_chunk C key (of_nat i) [] p = Inr (sealed_part C key i p)"
  using assms by (auto simp: seals_parts_def sealed_part_def encrypt_chunk_def split: option.split)

lemma length_sealed_part:
  assumes "seals_parts C" "aead_overhead C" "length p \<le> CHUNK_SIZE"
  shows "length (sealed_part C key i p) = length p + TAG"
proof -
  obtain ct where "Aead_encrypt C key (chunk_nonce (of_nat i)) [] p = Some ct" by (rule seals_partsE [OF assms(1,3)])
  with assms(2) show ?thesis by (simp add: sealed_part_def encrypt_chunk_def aead_overheadD TAG_def)
qed

lemma decrypt_part:
  assumes "seals_parts C" "aead_correct C" "length p \<le> CHUNK_SIZE"
  shows "decrypt_chunk C key (of_nat i) [] (sealed_part C key i p) = Inr p"
proof -
  obtain ct where "Aead_encrypt C key (chunk_nonce (of_nat i)) [] p = Some ct" by (rule seals_partsE [OF assms(1,3)])
  with assms(2) show ?thesis by (simp add: sealed_part_def encrypt_chunk_def decrypt_chunk_def aead_correctD)
qed

definition sealed_from :: "crypto \<Rightarrow> bytes \<Rightarrow> nat \<Rightarrow> bytes list \<Rightarrow> bytes list" where
  "sealed_from C key i ps = map (\<lambda>(j, p). sealed_part C key j p) (enumerate i ps)"

lemma sealed_from_Cons [simp]: "sealed_from C key i (p # ps) = sealed_part C key i p # sealed_from C key (Suc i) ps"
  by (simp add: sealed_from_def)

lemma sealed_from_Nil [simp]: "sealed_from C key i [] = []"
  by (simp add: sealed_from_def)

lemma length_sealed_from [simp]: "length (sealed_from C key i ps) = length ps"
  by (simp add: sealed_from_def)

lemma nth_sealed_from: "j < length ps \<Longrightarrow> sealed_from C key i ps ! j = sealed_part C key (i + j) (ps ! j)"
  by (simp add: sealed_from_def nth_enumerate_eq)

lemma write_all_None [simp]: "write_all None out data = (out @ data, True)"
  by (simp add: write_all_def)

lemma seal_loop_spec:
  assumes "seals_parts C" "0 < cs" "cs \<le> CHUNK_SIZE"
  shows "pieces_ok src \<Longrightarrow> sz + length (content src) \<le> MAX_FILE_BYTES \<Longrightarrow> index = 0 \<or> content src \<noteq> [] \<Longrightarrow>
    seal_loop C None key cs src sz index hash out =
      (out @ concat (sealed_from C key index (cut_parts cs (content src))), Inr (sz + length (content src), Sha256 C (hash @ content src)))"
proof (induction "length (content src)" arbitrary: src sz index hash out rule: less_induct)
  case less
  let ?c = "content src"
  obtain src' where rf: "read_full cs src = (Inr (take cs ?c), src')" "pieces_ok src'" "content src' = drop cs ?c"
    using read_full_spec [OF less(2)] by blast
  have enc: "encrypt_chunk C key (of_nat index) [] (take cs ?c) = Inr (sealed_part C key index (take cs ?c))"
    using assms by (intro encrypt_part) auto
  have nz: "\<not> (length (take cs ?c) = 0 \<and> index > 0)" using less(4) assms(2) by auto
  have sm: "\<not> sz + length (take cs ?c) > MAX_FILE_BYTES" using less(3) by auto
  show ?case
  proof (cases "length ?c < cs")
    case True
    then show ?thesis using nz sm enc rf by (subst seal_loop.simps) (auto simp: cut_short)
  next
    case False
    let ?sz = "sz + cs" and ?h = "hash @ take cs ?c" and ?o = "out @ sealed_part C key index (take cs ?c)"
    have step: "seal_loop C None key cs src sz index hash out = seal_loop C None key cs src' ?sz (index + 1) ?h ?o"
      using False nz sm enc rf assms(2) by (subst seal_loop.simps) simp
    show ?thesis
    proof (cases "content src' = []")
      case True
      obtain s'' where "read_full cs src' = (Inr [], s'')" using read_full_spec [OF rf(2), of cs] True by auto
      then have "seal_loop C None key cs src' ?sz (index + 1) ?h ?o = (?o, Inr (?sz, Sha256 C ?h))" by (subst seal_loop.simps) simp
      moreover have "length ?c = cs" using True rf(3) False by simp
      ultimately show ?thesis using step by (simp add: cut_short)
    next
      case nonempty: False
      have "cs < length ?c" using nonempty rf(3) by (simp add: not_le)
      moreover have "length (content src') < length ?c" using rf(3) assms(2) False by simp
      moreover have "?sz + length (content src') \<le> MAX_FILE_BYTES" using less(3) rf(3) \<open>cs < length ?c\<close> by simp
      ultimately show ?thesis
        using less(1) [of src' ?sz "index + 1" ?h ?o] rf nonempty step assms(2) by (simp add: cut_long)
    qed
  qed
qed

lemma seal_loop_big:
  assumes "seals_parts C" "0 < cs" "cs \<le> CHUNK_SIZE"
  shows "pieces_ok src \<Longrightarrow> sz + length (content src) > MAX_FILE_BYTES \<Longrightarrow> sz \<le> MAX_FILE_BYTES \<Longrightarrow>
    snd (seal_loop C None key cs src sz index hash out) = Inl InvalidInput"
proof (induction "length (content src)" arbitrary: src sz index hash out rule: less_induct)
  case less
  let ?c = "content src"
  obtain src' where rf: "read_full cs src = (Inr (take cs ?c), src')" "pieces_ok src'" "content src' = drop cs ?c"
    using read_full_spec [OF less(2)] by blast
  have enc: "encrypt_chunk C key (of_nat index) [] (take cs ?c) = Inr (sealed_part C key index (take cs ?c))"
    using assms by (intro encrypt_part) auto
  have nz: "length (take cs ?c) \<noteq> 0" using less(3,4) assms(2) by auto
  show ?case
  proof (cases "sz + length (take cs ?c) > MAX_FILE_BYTES")
    case True
    then show ?thesis using nz rf by (subst seal_loop.simps) simp
  next
    case False
    then have "cs < length ?c" using less(3) by (simp add: min_def split: if_splits)
    then have "seal_loop C None key cs src sz index hash out =
        seal_loop C None key cs src' (sz + cs) (index + 1) (hash @ take cs ?c) (out @ sealed_part C key index (take cs ?c))"
      using False nz enc rf by (subst seal_loop.simps) simp
    moreover have "length (content src') < length ?c" "sz + cs + length (content src') > MAX_FILE_BYTES" "sz + cs \<le> MAX_FILE_BYTES"
      using rf(3) assms(2) \<open>cs < length ?c\<close> less(3) False by simp_all
    ultimately show ?thesis using less(1) rf(2) by simp
  qed
qed

section \<open>Slots\<close>

text \<open>Slot \<open>i\<close> of the file holds part \<open>i\<close> of \<open>c\<close>, sealed.\<close>

definition slot_holds :: "crypto \<Rightarrow> bytes \<Rightarrow> nat \<Rightarrow> bytes \<Rightarrow> bytes \<Rightarrow> nat \<Rightarrow> bool" where
  "slot_holds C key cs c f i \<longleftrightarrow>
     take (chunk_len (length c) cs i + TAG) (drop (slot cs i) f) = sealed_part C key i (cut_parts cs c ! i)"

lemma part_fits: "0 < cs \<Longrightarrow> cs \<le> CHUNK_SIZE \<Longrightarrow> i < length (cut_parts cs c) \<Longrightarrow> length (cut_parts cs c ! i) \<le> CHUNK_SIZE"
  by (simp add: nth_cut)

lemma read_part_slot:
  assumes "seals_parts C" "aead_correct C" "aead_overhead C" "0 < cs" "cs \<le> CHUNK_SIZE" "i < length (cut_parts cs c)"
    and "slot_holds C key cs c f i"
  shows "read_part C key (Some f) (length c) cs i = Inr (cut_parts cs c ! i)"
proof -
  let ?sealed = "take (chunk_len (length c) cs i + TAG) (drop (slot cs i) f)"
  note fits = part_fits [OF assms(4-6)]
  have "length ?sealed = chunk_len (length c) cs i + TAG"
    using assms(7) length_sealed_part [OF assms(1,3) fits] length_nth_cut [OF assms(4,6)] unfolding slot_holds_def by simp
  moreover have "decrypt_chunk C key (of_nat i) [] ?sealed = Inr (cut_parts cs c ! i)"
    using assms(7) decrypt_part [OF assms(1,2) fits] unfolding slot_holds_def by simp
  ultimately show ?thesis by (simp add: read_part_def Let_def)
qed

lemma open_parts_append:
  assumes "\<forall>i \<in> set is'. read_part C key file sz cs i = Inr (g i)"
  shows "open_parts C key file sz cs is' out = (out @ concat (map g is'), Inr ())"
  using assms by (induction is' arbitrary: out) simp_all

lemma open_to_slots:
  assumes C: "seals_parts C" "aead_correct C" "aead_overhead C" and cs: "0 < cs" "cs \<le> CHUNK_SIZE"
    and c: "length c \<le> MAX_FILE_BYTES" and "\<forall>i < length (cut_parts cs c). slot_holds C key cs c f i"
  shows "open_to C key (Some f) (length c) cs = (c, Inr (Sha256 C c))"
proof -
  have "\<forall>i \<in> set [0..<length (cut_parts cs c)]. read_part C key (Some f) (length c) cs i = Inr (cut_parts cs c ! i)"
    using read_part_slot [OF C cs] assms(7) by simp
  from open_parts_append [OF this, of "[]"]
  have "open_parts C key (Some f) (length c) cs [0..<length (cut_parts cs c)] [] = (c, Inr ())" by (simp add: map_nth concat_cut)
  then show ?thesis by (simp add: open_to_def chunk_count_cut [OF cs(1) c])
qed

lemma drop_concat_blocks:
  "\<forall>j. Suc j < length xs \<longrightarrow> length (xs ! j) = L \<Longrightarrow> i < length xs \<Longrightarrow> drop (i * L) (concat xs) = concat (drop i xs)"
proof (induction xs arbitrary: i)
  case (Cons x xs)
  show ?case
  proof (cases i)
    case (Suc k)
    have "length x = L" using Cons.prems Suc by (cases xs) auto
    moreover have "drop (k * L) (concat xs) = concat (drop k xs)"
      by (rule Cons.IH) (use Cons.prems Suc in auto)
    ultimately show ?thesis using Suc by (simp add: add.commute)
  qed simp
qed simp

lemma sealed_file_slots:
  assumes C: "seals_parts C" "aead_overhead C" and cs: "0 < cs" "cs \<le> CHUNK_SIZE" and i: "i < length (cut_parts cs c)"
  shows "slot_holds C key cs c (concat (sealed_from C key 0 (cut_parts cs c))) i"
proof -
  let ?xs = "sealed_from C key 0 (cut_parts cs c)"
  have len: "length (?xs ! j) = length (cut_parts cs c ! j) + TAG" if "j < length (cut_parts cs c)" for j
    using that length_sealed_part [OF C part_fits [OF cs that]] by (simp add: nth_sealed_from)
  have "drop (i * (cs + TAG)) (concat ?xs) = concat (drop i ?xs)"
    by (rule drop_concat_blocks) (use len cut_full [OF cs(1)] i in auto)
  also have "\<dots> = ?xs ! i @ concat (drop (Suc i) ?xs)" using i by (simp add: Cons_nth_drop_Suc [symmetric])
  finally show ?thesis using i len [OF i] by (simp add: slot_holds_def slot_def nth_sealed_from length_nth_cut [OF cs(1)])
qed

lemma sealed_then_opened:
  assumes "seals_parts C" and "aead_correct C" and "aead_overhead C" and "0 < cs" and "cs \<le> CHUNK_SIZE"
    and "pieces_ok src" and "length (content src) \<le> MAX_FILE_BYTES"
  shows "\<exists>f. seal_from C good_disk key src cs = (Some f, Inr (length (content src), Sha256 C (content src))) \<and>
      (\<forall>i < chunk_count (length (content src)) cs.
         read_part C key (Some f) (length (content src)) cs i = Inr (take cs (drop (i * cs) (content src)))) \<and>
      open_to C key (Some f) (length (content src)) cs = (content src, Inr (Sha256 C (content src)))"
proof -
  let ?c = "content src"
  let ?f = "concat (sealed_from C key 0 (cut_parts cs ?c))"
  have "seal_from C good_disk key src cs = (Some ?f, Inr (length ?c, Sha256 C ?c))"
    using seal_loop_spec [OF assms(1,4,5,6), of 0 0 key "[]" "[]"] assms(4,5,7) by (simp add: seal_from_def good_disk_def)
  moreover have slots: "slot_holds C key cs ?c ?f i" if "i < length (cut_parts cs ?c)" for i
    using sealed_file_slots [OF assms(1,3,4,5) that] .
  have "read_part C key (Some ?f) (length ?c) cs i = Inr (take cs (drop (i * cs) ?c))" if "i < chunk_count (length ?c) cs" for i
    using read_part_slot [OF assms(1-5) _ slots] that nth_cut [OF assms(4)] by (simp add: chunk_count_cut [OF assms(4,7)])
  moreover have "open_to C key (Some ?f) (length ?c) cs = (?c, Inr (Sha256 C ?c))"
    using open_to_slots [OF assms(1-5,7)] slots by blast
  ultimately show ?thesis by blast
qed

text \<open>
  C38. A file sealed in parts opens to what it was: however the reads of the source split it, the
  sealed file has the size and hash of the source, every part is read back from its slot, and the
  whole is opened to the same bytes with the same hash. A source larger than the bound is refused.
\<close>

theorem seal_open_file:
  assumes "seals_parts C" and "aead_correct C" and "aead_overhead C" and "0 < cs" and "cs \<le> CHUNK_SIZE" and "pieces_ok src"
  shows "if length (content src) \<le> MAX_FILE_BYTES
    then \<exists>f. seal_from C good_disk key src cs = (Some f, Inr (length (content src), Sha256 C (content src))) \<and>
      (\<forall>i < chunk_count (length (content src)) cs.
         read_part C key (Some f) (length (content src)) cs i = Inr (take cs (drop (i * cs) (content src)))) \<and>
      open_to C key (Some f) (length (content src)) cs = (content src, Inr (Sha256 C (content src)))
    else snd (seal_from C good_disk key src cs) = Inl InvalidInput"
proof (cases "length (content src) \<le> MAX_FILE_BYTES")
  case True
  with sealed_then_opened [OF assms(1-6) True, of key] show ?thesis by simp
next
  case False
  then have "snd (seal_loop C None key cs src 0 0 [] []) = Inl InvalidInput"
    using seal_loop_big [OF assms(1,4,5,6), of 0] by simp
  with False assms(4,5) show ?thesis by (cases "seal_loop C None key cs src 0 0 [] []") (simp add: seal_from_def good_disk_def)
qed

text \<open>Three reads of uneven length, in parts of two bytes.\<close>

lemma toy_seals_parts: "seals_parts toy_crypto"
  by (simp add: seals_parts_def toy_crypto_def)

theorem seal_open_file_witness:
  "\<exists>f. seal_from toy_crypto good_disk [3] [Inr [1], Inr [2, 3, 4], Inr [5]] 2 = (Some f, Inr (5, Sha256 toy_crypto [1, 2, 3, 4, 5])) \<and>
     open_to toy_crypto [3] (Some f) 5 2 = ([1, 2, 3, 4, 5], Inr (Sha256 toy_crypto [1, 2, 3, 4, 5]))"
proof -
  let ?src = "[Inr [1], Inr [2, 3, 4], Inr [5]] :: reader"
  have c: "content ?src = [1, 2, 3, 4, 5]" and l: "length [1, 2, 3, 4, 5 :: u8] = 5" by simp_all
  have "pieces_ok ?src" "length (content ?src) \<le> MAX_FILE_BYTES" "(0 :: nat) < 2" "2 \<le> CHUNK_SIZE"
    unfolding c l by (simp_all add: CHUNK_SIZE_def MAX_FILE_BYTES_def)
  with seal_open_file [OF toy_seals_parts toy_aead_correct toy_aead_overhead this(3,4,1), of "[3]"]
  show ?thesis unfolding c l by auto
qed

section \<open>Writing parts in any order\<close>

lemma length_write_at [simp]: "length (write_at pos data f) = max (length f) (pos + length data)"
  by (simp add: write_at_def)

lemma nth_write_at:
  assumes "k < max (length f) (pos + length data)"
  shows "write_at pos data f ! k =
    (if k < pos then (if k < length f then f ! k else 0) else if k < pos + length data then data ! (k - pos) else f ! k)"
  using assms by (auto simp: write_at_def nth_append min_def)

lemma take_drop_write_same: "take (length data) (drop pos (write_at pos data f)) = data"
  by (rule nth_equalityI) (simp_all add: nth_write_at)

lemma take_drop_write_other:
  assumes "a + n \<le> pos \<or> pos + length data \<le> a" and "a + n \<le> length f"
  shows "take n (drop a (write_at pos data f)) = take n (drop a f)"
  using assms by (intro nth_equalityI) (auto simp: nth_write_at)

lemma slots_apart: "i < j \<Longrightarrow> l \<le> cs + TAG \<Longrightarrow> slot cs i + l \<le> slot cs j"
proof -
  assume "i < j" "l \<le> cs + TAG"
  then have "i * (cs + TAG) + (cs + TAG) \<le> j * (cs + TAG)" using mult_le_mono1 [of "Suc i" j "cs + TAG"] by simp
  then show ?thesis using \<open>l \<le> cs + TAG\<close> by (simp add: slot_def)
qed

text \<open>A slot that holds its part lies within the file.\<close>

lemma slot_holds_within:
  assumes "seals_parts C" "aead_overhead C" "0 < cs" "cs \<le> CHUNK_SIZE" "i < length (cut_parts cs c)" "slot_holds C key cs c f i"
  shows "slot cs i + (chunk_len (length c) cs i + TAG) \<le> length f"
proof -
  have "length (take (chunk_len (length c) cs i + TAG) (drop (slot cs i) f)) = chunk_len (length c) cs i + TAG"
    using assms(6) length_sealed_part [OF assms(1,2) part_fits [OF assms(3-5)]] length_nth_cut [OF assms(3,5)]
    unfolding slot_holds_def by simp
  then have "min (length f - slot cs i) (chunk_len (length c) cs i + TAG) = chunk_len (length c) cs i + TAG" by simp
  moreover have "0 < chunk_len (length c) cs i + TAG" by (simp add: TAG_def)
  ultimately show ?thesis by linarith
qed

lemma write_part_slots:
  assumes C: "seals_parts C" "aead_overhead C" and cs: "0 < cs" "cs \<le> CHUNK_SIZE" and c: "length c \<le> MAX_FILE_BYTES"
    and i: "i < length (cut_parts cs c)" and old: "\<forall>j \<in> S. j < length (cut_parts cs c) \<and> slot_holds C key cs c (case file of None \<Rightarrow> [] | Some f \<Rightarrow> f) j"
  shows "\<exists>f. write_part C key file (length c) cs i (cut_parts cs c ! i) = Inr f \<and> (\<forall>j \<in> insert i S. slot_holds C key cs c f j)"
proof -
  let ?f = "case file of None \<Rightarrow> [] | Some f \<Rightarrow> f"
  let ?d = "sealed_part C key i (cut_parts cs c ! i)"
  let ?g = "write_at (slot cs i) ?d ?f"
  have ld: "length ?d = chunk_len (length c) cs i + TAG"
    using length_sealed_part [OF C part_fits [OF cs i]] length_nth_cut [OF cs(1) i] by simp
  have w: "write_part C key file (length c) cs i (cut_parts cs c ! i) = Inr ?g"
    using i length_nth_cut [OF cs(1) i] encrypt_part [OF C(1) part_fits [OF cs i]]
    by (simp add: write_part_def chunk_count_cut [OF cs(1) c])
  have cl: "chunk_len (length c) cs j + TAG \<le> cs + TAG" for j by (simp add: chunk_len_def Let_def)
  have "slot_holds C key cs c ?g i" using take_drop_write_same [of ?d] by (simp add: slot_holds_def ld [symmetric])
  moreover have "slot_holds C key cs c ?g j" if "j \<in> S" "j \<noteq> i" for j
  proof -
    have j: "j < length (cut_parts cs c)" "slot_holds C key cs c ?f j" using old that(1) by auto
    have "slot cs j + (chunk_len (length c) cs j + TAG) \<le> slot cs i \<or> slot cs i + length ?d \<le> slot cs j"
      using that(2) slots_apart [of j i, OF _ cl] slots_apart [of i j, OF _ cl] ld by (metis linorder_neq_iff)
    then show ?thesis
      using take_drop_write_other [OF _ slot_holds_within [OF C cs j], of "slot cs i" ?d] j(2) by (simp add: slot_holds_def)
  qed
  ultimately show ?thesis using w by blast
qed

section \<open>Staging\<close>

text \<open>
  A file that was sealed without an error: no read of its source failed, and the disk did all that was
  asked of it. (A read that yields nothing is the end of the source, so no piece is empty.)
\<close>

lemma read_some_rest:
  assumes "read_some n src = (Inr k, src')" "Inr [] \<notin> set src" "0 < n"
  shows "Inr [] \<notin> set src'" and "Inl e \<in> set src' \<longleftrightarrow> Inl e \<in> set src" and "k = [] \<Longrightarrow> src' = []"
  using assms by (auto simp: read_some_def split: list.splits sum.splits if_splits)

lemma read_full_rest:
  "read_full n src = (Inr buf, src') \<Longrightarrow> Inr [] \<notin> set src \<Longrightarrow>
     Inr [] \<notin> set src' \<and> (\<forall>e. Inl e \<in> set src' \<longleftrightarrow> Inl e \<in> set src) \<and> (length buf < n \<longrightarrow> src' = [])"
proof (induction n src arbitrary: buf rule: read_full.induct)
  case (1 n src)
  show ?case
  proof (cases "n = 0")
    case True
    with 1(2,3) show ?thesis by (simp add: read_full.simps)
  next
    case False
    then obtain k src1 where rs: "read_some n src = (Inr k, src1)"
      using 1(2) by (subst (asm) read_full.simps) (auto split: prod.splits sum.splits)
    note rest = read_some_rest [OF rs 1(3)]
    show ?thesis
    proof (cases k)
      case Nil
      with False rs 1(2) have "buf = []" "src' = src1" by (simp_all add: read_full.simps)
      with False Nil rest show ?thesis by simp
    next
      case (Cons b k')
      note rs' = rs [unfolded Cons]
      from False rs' 1(2) obtain tl where tl: "read_full (n - length (b # k')) src1 = (Inr tl, src')" "buf = (b # k') @ tl"
        by (subst (asm) read_full.simps) (auto split: prod.splits sum.splits)
      from 1(1) [OF False rs' [symmetric] refl refl tl(1) rest(1)] False tl(2) rest(2) show ?thesis by auto
    qed
  qed
qed

lemma write_all_done: "write_all room out data = (out', True) \<Longrightarrow> out' = out @ data"
  by (auto simp: write_all_def split: option.splits if_splits)

lemma seal_loop_done:
  "seal_loop C room key cs src sz index hash out = (out', Inr res) \<Longrightarrow> Inr [] \<notin> set src \<Longrightarrow> 0 < cs \<Longrightarrow>
     seal_loop C None key cs src sz index hash out = (out', Inr res) \<and> (\<forall>e. Inl e \<notin> set src)"
proof (induction C room key cs src sz index hash out rule: seal_loop.induct)
  case (1 C room key cs src sz index hash out)
  from 1(2) obtain buf src' where rf: "read_full cs src = (Inr buf, src')"
    by (subst (asm) seal_loop.simps) (auto split: prod.splits sum.splits)
  note rest = read_full_rest [OF rf 1(3)]
  show ?case
  proof (cases "length buf = 0 \<and> index > 0")
    case True
    then have "\<forall>e. Inl e \<notin> set src" using rest 1(4) by auto
    moreover have "seal_loop C None key cs src sz index hash out = (out', Inr res)"
      using 1(2) rf True by (simp add: seal_loop.simps)
    ultimately show ?thesis by blast
  next
    case False
    with 1(2) rf obtain sealed where w: "\<not> sz + length buf > MAX_FILE_BYTES" "encrypt_chunk C key (of_nat index) [] buf = Inr sealed"
      "write_all room out sealed = (out @ sealed, True)"
      by (subst (asm) seal_loop.simps) (auto split: if_splits sum.splits prod.splits dest: write_all_done)
    show ?thesis
    proof (cases "length buf < cs")
      case True
      then have "\<forall>e. Inl e \<notin> set src" using rest by auto
      moreover have "seal_loop C None key cs src sz index hash out = (out', Inr res)"
        using 1(2) rf False w True by (auto simp: seal_loop.simps)
      ultimately show ?thesis by blast
    next
      case long: False
      have step: "seal_loop C r key cs src sz index hash out =
          seal_loop C r key cs src' (sz + length buf) (index + 1) (hash @ buf) (out @ sealed)" if "r = room \<or> r = None" for r
        using that rf False w long by (auto simp: seal_loop.simps [of C _ key cs src])
      have "seal_loop C None key cs src' (sz + length buf) (index + 1) (hash @ buf) (out @ sealed) = (out', Inr res) \<and> (\<forall>e. Inl e \<notin> set src')"
        using 1(1) [OF rf [symmetric] refl False w(1,2) w(3) [symmetric] _ long] 1(2) rest 1(4) step by simp
      with step rest show ?thesis by simp
    qed
  qed
qed

lemma seal_from_done:
  assumes "seal_from C io key src cs = (Some bs, Inr res)" "Inr [] \<notin> set src"
  shows "seal_from C good_disk key src cs = (Some bs, Inr res)" and "pieces_ok src"
proof -
  have cs: "0 < cs" "cs \<le> CHUNK_SIZE" and "seal_loop C (dk_room io) key cs src 0 0 [] [] = (bs, Inr res)"
    using assms(1) by (auto simp: seal_from_def split: if_splits prod.splits sum.splits)
  note ran = seal_loop_done [OF this(3) assms(2) cs(1)]
  from ran cs show "seal_from C good_disk key src cs = (Some bs, Inr res)" by (simp add: seal_from_def good_disk_def)
  from ran assms(2) show "pieces_ok src" unfolding pieces_ok_def by (metis sum.exhaust)
qed

text \<open>A file staged, and what the disk did meanwhile.\<close>

datatype stage_op = Inline disk_io bytes bytes bytes bytes | Parts disk_io bytes bytes bytes bytes reader

fun stage :: "crypto \<Rightarrow> stage_op \<Rightarrow> disk \<times> StagedAttachments \<Rightarrow> disk \<times> StagedAttachments" where
  "stage C (Inline io key random name data) (d, st) = (case inline C io key random name data d st of (d', st', _) \<Rightarrow> (d', st'))"
| "stage C (Parts io key random file_id name src) (d, st) = (case parts C io key random file_id name src d st of (d', st', _) \<Rightarrow> (d', st'))"

fun op_data :: "stage_op \<Rightarrow> bytes" where
  "op_data (Inline io key random name data) = data"
| "op_data (Parts io key random file_id name src) = content src"

fun op_source :: "stage_op \<Rightarrow> reader" where
  "op_source (Inline io key random name data) = []"
| "op_source (Parts io key random file_id name src) = src"

text \<open>The staged file of an attachment reads as its data.\<close>

definition staged_as :: "crypto \<Rightarrow> disk \<Rightarrow> NewGroupAttachment \<Rightarrow> bytes \<Rightarrow> bool" where
  "staged_as C d a data \<longleftrightarrow>
     (let at = ga_attachment a
      in na_size at = int (length data) \<and>
         read_attachment C (d (na_path at)) (na_key at) (nat (na_size at)) (na_chunk_size at) = Inr data \<and>
         (case ga_file_offer a of None \<Rightarrow> True | Some (_, sha) \<Rightarrow> sha = Sha256 C data))"

definition staging :: "crypto \<Rightarrow> disk \<Rightarrow> bytes list \<Rightarrow> disk \<times> StagedAttachments \<Rightarrow> bool" where
  "staging C d0 datas = (\<lambda>(d, st).
     \<not> st_published st \<and>
     (\<forall>name. name \<notin> set (st_paths st) \<longrightarrow> d name = d0 name) \<and>
     (\<forall>name \<in> set (st_paths st). d0 name = None \<and> d name \<noteq> None) \<and>
     (\<not> st_failed st \<longrightarrow> list_all2 (staged_as C d) (st_attachments st) datas) \<and>
     (\<forall>a \<in> set (st_attachments st). na_path (ga_attachment a) \<in> set (st_paths st)))"

lemma new_file_spec:
  assumes "new_file io random d st = (d', st', res)"
  shows "(\<exists>e. res = Inl e) \<and> d' = d \<and> st' = st \<or>
    (\<exists>path. res = Inr path \<and> d path = None \<and> d' = d(path \<mapsto> []) \<and> st' = st\<lparr>st_paths := st_paths st @ [path]\<rparr>)"
  using assms by (auto simp: new_file_def Let_def split: if_splits)

text \<open>What either way to stage a file does: refuse it, or write one new file and note it.\<close>

definition staged_one :: "crypto \<Rightarrow> bytes \<Rightarrow> disk \<times> StagedAttachments \<Rightarrow> disk \<times> StagedAttachments \<Rightarrow> bool" where
  "staged_one C data = (\<lambda>(d, st) (d', st').
     (d' = d \<and> st' = st\<lparr>st_failed := True\<rparr>) \<or>
     (\<exists>path bs. d path = None \<and> d' = d(path \<mapsto> bs) \<and>
        (st' = st\<lparr>st_paths := st_paths st @ [path], st_failed := True\<rparr> \<or>
         (\<exists>a. st' = st\<lparr>st_paths := st_paths st @ [path], st_attachments := st_attachments st @ [a]\<rparr> \<and>
              na_path (ga_attachment a) = path \<and> staged_as C d' a data))))"

lemma staged_oneI:
  assumes "d path = None" "na_path (ga_attachment a) = path" "staged_as C (d(path \<mapsto> bs)) a data"
  shows "staged_one C data (d, st)
    (d(path \<mapsto> bs), st\<lparr>st_paths := st_paths st @ [path], st_attachments := st_attachments st @ [a]\<rparr>)"
  unfolding staged_one_def using assms by blast

lemma staged_one_failed:
  "staged_one C data (d, st) (d, st\<lparr>st_failed := True\<rparr>)"
  "d path = None \<Longrightarrow> staged_one C data (d, st) (d(path \<mapsto> bs), st\<lparr>st_paths := st_paths st @ [path], st_failed := True\<rparr>)"
  unfolding staged_one_def by blast+

lemma stage_inline_cases:
  assumes "stage_inline C io key random name data d st = (d', st', res)"
  obtains (refused) e where "res = Inl e" "d' = d" "st' = st"
  | (partial) e path bs where "res = Inl e" "d path = None" "d' = d(path \<mapsto> bs)" "st' = st\<lparr>st_paths := st_paths st @ [path]\<rparr>"
  | (added) path ct where "res = Inr ()" "encrypt_chunk C key 0 [] data = Inr ct" "d path = None" "d' = d(path \<mapsto> ct)"
      "st' = st\<lparr>st_paths := st_paths st @ [path], st_attachments := st_attachments st @
        [\<lparr>ga_attachment = \<lparr>na_name = name, na_size = int (length data), na_key = key, na_path = path, na_chunk_size = None\<rparr>, ga_file_offer = None\<rparr>]\<rparr>"
proof (cases "(\<exists>e. check_next st name = Inl e) \<or> saturating_add (inline_bytes st) (length data) > INLINE_MESSAGE_MAX")
  case True
  then have "\<exists>e. res = Inl e \<and> d' = d \<and> st' = st" using assms
    by (cases "check_next st name") (auto simp: stage_inline_def intro: sym)
  with refused show thesis by blast
next
  case False
  then have ok: "check_next st name = Inr ()" "\<not> saturating_add (inline_bytes st) (length data) > INLINE_MESSAGE_MAX"
    by (cases "check_next st name"; simp)+
  show thesis
  proof (cases "encrypt_chunk C key 0 [] data")
    case (Inl e)
    then have "res = Inl (Other e)" "d' = d" "st' = st" using ok assms by (simp_all add: stage_inline_def)
    with refused show thesis by blast
  next
    case ct: (Inr ct)
    obtain d1 st1 r where nf: "new_file io random d st = (d1, st1, r)" by (metis surj_pair)
    obtain out w where wa: "write_all (dk_room io) [] ct = (out, w)" by (metis surj_pair)
    from new_file_spec [OF nf] show thesis
    proof (elim disjE exE conjE)
      fix e assume "r = Inl e" "d1 = d" "st1 = st"
      then have "res = Inl e" "d' = d" "st' = st" using ok ct nf assms by (simp_all add: stage_inline_def)
      with refused show thesis by blast
    next
      fix path assume p: "r = Inr path" "d path = None" "d1 = d(path \<mapsto> [])" "st1 = st\<lparr>st_paths := st_paths st @ [path]\<rparr>"
      show thesis
      proof (cases "w \<and> dk_sync io")
        case True
        with wa have "out = ct" using write_all_done by fastforce
        with True ok ct nf wa p assms added show thesis by (simp add: stage_inline_def)
      next
        case False
        then have "res = Inl DiskFailed" "d' = d(path \<mapsto> out)" "st' = st1"
          using ok ct nf wa p assms by (auto simp: stage_inline_def)
        with p partial show thesis by blast
      qed
    qed
  qed
qed

lemma inline_one:
  assumes "aead_correct C"
  shows "staged_one C data (d, st) (stage C (Inline io key random name data) (d, st))"
proof (cases "stage_inline C io key random name data d st")
  case (fields d' st' res)
  then show ?thesis
  proof (cases rule: stage_inline_cases)
    case (added path ct)
    have "decrypt_chunk C key 0 [] ct = Inr data"
      using added(2) assms by (auto simp: encrypt_chunk_def decrypt_chunk_def aead_correctD split: option.splits)
    then have "staged_as C (d(path \<mapsto> ct)) \<lparr>ga_attachment = \<lparr>na_name = name, na_size = int (length data), na_key = key, na_path = path,
        na_chunk_size = None\<rparr>, ga_file_offer = None\<rparr> data"
      by (simp add: staged_as_def read_attachment_def Let_def)
    with staged_oneI [OF added(3) _ this] added fields show ?thesis by (simp add: inline_def)
  qed (use fields staged_one_failed in \<open>simp_all add: inline_def\<close>)
qed

lemma stage_parts_cases:
  assumes "stage_parts C io key random file_id name src d st = (d', st', res)"
  obtains (refused) e where "res = Inl e" "d' = d" "st' = st"
  | (partial) e path bs where "res = Inl e" "d path = None" "d' = d(path \<mapsto> bs)" "st' = st\<lparr>st_paths := st_paths st @ [path]\<rparr>"
  | (added) path bs sz sha where "res = Inr ()" "seal_from C io key src CHUNK_SIZE = (Some bs, Inr (sz, sha))" "d path = None" "d' = d(path \<mapsto> bs)"
      "st' = st\<lparr>st_paths := st_paths st @ [path], st_attachments := st_attachments st @
        [\<lparr>ga_attachment = \<lparr>na_name = name, na_size = int sz, na_key = key, na_path = path, na_chunk_size = Some (int CHUNK_SIZE)\<rparr>,
          ga_file_offer = Some (file_id, sha)\<rparr>]\<rparr>"
proof (cases "check_next st name")
  case (Inl e)
  then have "res = Inl e" "d' = d" "st' = st" using assms by (simp_all add: stage_parts_def)
  with refused show thesis by blast
next
  case ok: (Inr u)
  obtain d1 st1 r where nf: "new_file io random d st = (d1, st1, r)" by (metis surj_pair)
  obtain out sr where sf: "seal_from C io key src CHUNK_SIZE = (out, sr)" by (metis surj_pair)
  from new_file_spec [OF nf] show thesis
  proof (elim disjE exE conjE)
    fix e assume "r = Inl e" "d1 = d" "st1 = st"
    then have "res = Inl e" "d' = d" "st' = st" using ok nf assms by (simp_all add: stage_parts_def)
    with refused show thesis by blast
  next
    fix path assume p: "r = Inr path" "d path = None" "d1 = d(path \<mapsto> [])" "st1 = st\<lparr>st_paths := st_paths st @ [path]\<rparr>"
    show thesis
    proof (cases sr)
      case (Inl e)
      then have "res = Inl e" "d' = d(path \<mapsto> case out of None \<Rightarrow> [] | Some bs \<Rightarrow> bs)" "st' = st1"
        using ok nf sf p assms by (auto simp: stage_parts_def Let_def split: option.splits)
      with p partial show thesis by blast
    next
      case (Inr y)
      then obtain bs sz sha where y: "y = (sz, sha)" "out = Some bs"
        using sf by (cases y) (auto simp: seal_from_def split: if_splits prod.splits sum.splits)
      with Inr ok nf sf p assms added show thesis by (simp add: stage_parts_def)
    qed
  qed
qed

lemma parts_one:
  assumes C: "seals_parts C" "aead_correct C" "aead_overhead C" and ne: "Inr [] \<notin> set src"
  shows "staged_one C (content src) (d, st) (stage C (Parts io key random file_id name src) (d, st))"
proof (cases "stage_parts C io key random file_id name src d st")
  case (fields d' st' res)
  have cs: "0 < CHUNK_SIZE" "CHUNK_SIZE \<le> CHUNK_SIZE" by (simp_all add: CHUNK_SIZE_def)
  from fields show ?thesis
  proof (cases rule: stage_parts_cases)
    case (added path bs sz sha)
    note good = seal_from_done(1) [OF added(2) ne] and src = seal_from_done(2) [OF added(2) ne]
    have small: "length (content src) \<le> MAX_FILE_BYTES"
    proof (rule ccontr)
      assume "\<not> ?thesis"
      then have "snd (seal_loop C None key CHUNK_SIZE src 0 0 [] []) = Inl InvalidInput"
        using seal_loop_big [OF C(1) cs src, of 0] by simp
      with good cs show False by (cases "seal_loop C None key CHUNK_SIZE src 0 0 [] []") (simp add: seal_from_def good_disk_def)
    qed
    from sealed_then_opened [OF C cs src small, of key] good
    have "sz = length (content src)" "sha = Sha256 C (content src)" "open_to C key (Some bs) sz CHUNK_SIZE = (content src, Inr sha)"
      by auto
    moreover have "nat (int CHUNK_SIZE mod 2 ^ 32) = CHUNK_SIZE" by (simp add: CHUNK_SIZE_def)
    ultimately have "staged_as C (d(path \<mapsto> bs)) \<lparr>ga_attachment = \<lparr>na_name = name, na_size = int sz, na_key = key, na_path = path,
        na_chunk_size = Some (int CHUNK_SIZE)\<rparr>, ga_file_offer = Some (file_id, sha)\<rparr> (content src)"
      by (simp add: staged_as_def read_attachment_def Let_def)
    with staged_oneI [OF added(3) _ this] added fields show ?thesis by (simp add: parts_def)
  qed (use fields staged_one_failed in \<open>simp_all add: parts_def\<close>)
qed

lemma staging_step:
  assumes "staging C d0 datas (d, st)" "staged_one C data (d, st) (d', st')"
  shows "staging C d0 (datas @ [data]) (d', st')"
proof -
  have other: "staged_as C (d(path \<mapsto> bs)) a x" if "staged_as C d a x" "d path = None" "na_path (ga_attachment a) \<in> set (st_paths st)"
    for path bs a x using that assms(1) by (auto simp: staged_as_def staging_def Let_def)
  have keep: "list_all2 (staged_as C (d(path \<mapsto> bs))) (st_attachments st) datas"
    if "d path = None" "\<not> st_failed st" for path bs
    using assms(1) that other by (auto simp: staging_def list_all2_conv_all_nth)
  have free: "d0 path = None" if "d path = None" for path
    using that assms(1) by (auto simp: staging_def) (metis option.distinct(1))
  have more: "list_all2 (staged_as C (d(path \<mapsto> bs))) (st_attachments st @ [a]) (datas @ [data])"
    if "d path = None" "\<not> st_failed st" "staged_as C (d(path \<mapsto> bs)) a data" for path bs a
    using list_all2_appendI [OF keep [OF that(1,2)]] that(3) by simp
  from assms(2) consider
      (refused) "d' = d" "st' = st\<lparr>st_failed := True\<rparr>"
    | (partial) path bs where "d path = None" "d' = d(path \<mapsto> bs)" "st' = st\<lparr>st_paths := st_paths st @ [path], st_failed := True\<rparr>"
    | (added) path bs a where "d path = None" "d' = d(path \<mapsto> bs)"
        "st' = st\<lparr>st_paths := st_paths st @ [path], st_attachments := st_attachments st @ [a]\<rparr>"
        "na_path (ga_attachment a) = path" "staged_as C d' a data"
    unfolding staged_one_def by auto
  then show ?thesis
  proof cases
    case added
    with assms(1) more [of path bs a] free [of path] show ?thesis by (auto simp: staging_def)
  next
    case partial
    with assms(1) free [of path] show ?thesis by (auto simp: staging_def)
  next
    case refused
    with assms(1) show ?thesis by (auto simp: staging_def)
  qed
qed

lemma staging_run:
  assumes C: "seals_parts C" "aead_correct C" "aead_overhead C"
  shows "staging C d0 datas ds \<Longrightarrow> \<forall>op \<in> set ops. Inr [] \<notin> set (op_source op) \<Longrightarrow>
    staging C d0 (datas @ map op_data ops) (fold (stage C) ops ds)"
proof (induction ops arbitrary: datas ds)
  case (Cons op ops)
  obtain d st where ds: "ds = (d, st)" by (cases ds)
  have "staged_one C (op_data op) (d, st) (stage C op (d, st))"
    using Cons.prems(2) inline_one [OF C(2)] parts_one [OF C] by (cases op) simp_all
  then have "staging C d0 (datas @ [op_data op]) (stage C op ds)"
    using staging_step Cons.prems(1) unfolding ds by (metis surj_pair)
  from Cons.IH [OF this] Cons.prems(2) show ?case by simp
qed simp

text \<open>
  What the drop of a staging leaves: the directory as it was, but for files of the staging that could
  not be removed.
\<close>

definition left_as :: "disk \<Rightarrow> (bytes \<Rightarrow> bool) \<Rightarrow> StagedAttachments \<Rightarrow> disk \<Rightarrow> bool" where
  "left_as d0 removable st d' \<longleftrightarrow>
     (\<forall>name. d' name = d0 name \<or> name \<in> set (st_paths st) \<and> \<not> removable name \<and> d0 name = None)"

lemma left_as_all: "left_as d0 (\<lambda>_. True) st d' \<longleftrightarrow> d' = d0"
  by (auto simp: left_as_def)

lemma staging_dropped:
  assumes "staging C d0 datas (d, st)"
  shows "left_as d0 removable st (drop_staged removable d st)"
    and "drop_staged removable d (st\<lparr>st_published := True\<rparr>) = d"
    and "st\<lparr>st_published := False\<rparr> = st"
  using assms by (auto simp: left_as_def drop_staged_def staging_def)

text \<open>
  C35. The files of a message are handed over all or none. After any sequence of files staged, inline
  or in parts, where any may be refused or fail on a read of its source or on the disk (creating the
  file, a write that stops anywhere, the sync): if the staging is dropped, or a file was refused or
  failed, or the directory cannot be synced, or the commit fails, the directory is what it was before,
  but for new files that cannot be removed; if the commit succeeds, every file was staged, in order,
  and each reads back as its data.
\<close>

theorem staged_all_or_nothing:
  assumes "seals_parts C" and "aead_correct C" and "aead_overhead C" and "\<forall>op \<in> set ops. Inr [] \<notin> set (op_source op)"
    and "fold (stage C) ops (d0, new_staged) = (d, st)"
  shows "left_as d0 removable st (drop_staged removable d st) \<and>
    (case publish synced removable commit d st of
       (d', Inl e) \<Rightarrow> left_as d0 removable st d'
     | (d', Inr msg) \<Rightarrow> commit (st_attachments st) = Inr msg \<and> list_all2 (staged_as C d') (st_attachments st) (map op_data ops)) \<and>
    (case publish_dm synced removable commit d st of
       (d', Inl e) \<Rightarrow> left_as d0 removable st d'
     | (d', Inr msg) \<Rightarrow> commit (st_attachments st) = Inr msg \<and> list_all2 (staged_as C d') (st_attachments st) (map op_data ops)) \<and>
    (case publish_incoming synced removable commit_in d st of
       (d', Inr True) \<Rightarrow> list_all2 (staged_as C d') (st_attachments st) (map op_data ops)
     | (d', _) \<Rightarrow> left_as d0 removable st d')"
proof -
  have "staging C d0 [] (d0, new_staged)" by (simp add: staging_def new_staged_def)
  from staging_run [OF assms(1-3) this assms(4)] have inv: "staging C d0 (map op_data ops) (d, st)" by (simp add: assms(5))
  note left = staging_dropped(1,2) [OF inv, of removable] staging_dropped(3) [OF inv]
  have "list_all2 (staged_as C d) (st_attachments st) (map op_data ops)" if "\<not> st_failed st" using inv that by (simp add: staging_def)
  then show ?thesis
    using left by (auto simp: publish_def publish_dm_def publish_incoming_def split: sum.splits bool.splits)
qed

text \<open>
  One file inline and one in parts, then a commit that fails; and a file on a disk that takes only ten
  bytes, which leaves a piece of it behind until the staging is dropped.
\<close>

lemmas stage_simps =
  inline_def stage_inline_def check_next_def new_staged_def MAX_FILE_NAME_BYTES_def MAX_MESSAGE_FILES_def
  inline_bytes_def saturating_add_def INLINE_MESSAGE_MAX_def encrypt_chunk_def toy_crypto_def new_file_def hex_name_def
  hex_02_def hex_digit_def parts_def stage_parts_def seal_from_def CHUNK_SIZE_def seal_loop.simps read_full.simps
  read_some_def MAX_FILE_BYTES_def Let_def good_disk_def write_all_def

theorem staged_all_or_nothing_witness:
  "(case fold (stage toy_crypto) [Inline good_disk [1] [10] [7] [5, 6], Parts good_disk [2] [11] [0] [8] [Inr [9]]] (Map.empty, new_staged) of
      (d, st) \<Rightarrow> length (st_attachments st) = 2 \<and> fst (publish True (\<lambda>_. True) (\<lambda>_. Inl DbOther) d st) = Map.empty) \<and>
   (case fold (stage toy_crypto) [Inline (good_disk\<lparr>dk_room := Some 10\<rparr>) [1] [10] [7] [5, 6]] (Map.empty, new_staged) of
      (d, st) \<Rightarrow> d \<noteq> Map.empty \<and> publish True (\<lambda>_. True) (\<lambda>_. Inr 1) d st = (Map.empty, Inl StateError))"
proof -
  let ?ops = "[Inline good_disk [1] [10] [7] [5, 6], Parts good_disk [2] [11] [0] [8] [Inr [9]]]"
  obtain d st where ds: "fold (stage toy_crypto) ?ops (Map.empty, new_staged) = (d, st)" by (metis surj_pair)
  have src: "\<forall>op \<in> set ?ops. Inr [] \<notin> set (op_source op)" by simp
  note all = staged_all_or_nothing [OF toy_seals_parts toy_aead_correct toy_aead_overhead src ds, where removable = "\<lambda>_. True" and synced = True]
  have "fst (publish True (\<lambda>_. True) (\<lambda>_. Inl DbOther) d st) = Map.empty"
    using all [of "\<lambda>_. Inl DbOther" "\<lambda>_. Inl DbOther"] by (auto simp: publish_def left_as_all split: if_splits)
  moreover have "\<not> st_failed st" using ds by (auto simp: stage_simps split: if_splits)
  then have "length (st_attachments st) = 2"
    using all [of "\<lambda>_. Inr 1" "\<lambda>_. Inr True"] by (auto simp: publish_def dest: list_all2_lengthD)
  moreover
  let ?full = "[Inline (good_disk\<lparr>dk_room := Some 10\<rparr>) [1] [10] [7] [5, 6]]"
  obtain d2 st2 where ds2: "fold (stage toy_crypto) ?full (Map.empty, new_staged) = (d2, st2)" by (metis surj_pair)
  then have "d2 \<noteq> Map.empty" "st_failed st2" by (auto simp: stage_simps toy_tag_def split: if_splits)
  moreover from this(2) have "publish True (\<lambda>_. True) (\<lambda>_. Inr 1) d2 st2 = (Map.empty, Inl StateError)"
    using staged_all_or_nothing [OF toy_seals_parts toy_aead_correct toy_aead_overhead _ ds2, where removable = "\<lambda>_. True" and synced = True] by (auto simp: publish_def left_as_all)
  ultimately show ?thesis unfolding ds ds2 by auto
qed

end
