(* ===== verification/File_Receive_Props.thy ===== *)
theory File_Receive_Props
  imports File_Transfer File_Parts_Props
begin

text \<open>
  The receiving end of a file, from its first part to the attachment: \<open>apply_file_chunk\<close> on the parts
  of a file in any order, and what an attachment it records is worth when the parts come from
  anybody.
\<close>

section \<open>The parts of an honest sender\<close>

definition chunk_of :: "bytes \<Rightarrow> nat \<Rightarrow> bytes \<Rightarrow> nat \<Rightarrow> WireFileChunk" where
  "chunk_of file_id cs c i = \<lparr>fc_file_id = file_id, fc_index = i, fc_data = cut_parts cs c ! i\<rparr>"

definition deliver :: "crypto \<Rightarrow> int \<Rightarrow> bytes \<Rightarrow> nat \<Rightarrow> bytes \<Rightarrow> nat \<Rightarrow> FileTables \<times> disk \<Rightarrow> FileTables \<times> disk" where
  "deliver C contact file_id cs c i = (\<lambda>(db, d).
     (case apply_file_chunk C contact (chunk_of file_id cs c i) None db d of (db', d', _) \<Rightarrow> (db', d')))"

text \<open>An offer of \<open>c\<close> under way, as the row of \<open>file_in\<close> was when the offer came.\<close>

definition offer_of :: "crypto \<Rightarrow> bytes \<Rightarrow> FileIn \<Rightarrow> bool" where
  "offer_of C c fin \<longleftrightarrow>
     fi_size fin = length c \<and> fi_sha256 fin = Sha256 C c \<and> 0 < fi_chunk_size fin \<and> fi_chunk_size fin \<le> CHUNK_SIZE \<and>
     length c \<le> MAX_FILE_BYTES \<and> length (fi_key fin) = 32"

definition file_attachment :: "FileIn \<Rightarrow> NewAttachment" where
  "file_attachment fin =
     \<lparr>na_name = fi_name fin, na_size = int (fi_size fin), na_key = fi_key fin, na_path = fi_path fin, na_chunk_size = Some (int (fi_chunk_size fin))\<rparr>"

text \<open>The parts \<open>S\<close> are in: on the disk and in the bitmap, or the file is complete.\<close>

definition coming_in :: "crypto \<Rightarrow> int \<Rightarrow> bytes \<Rightarrow> FileIn \<Rightarrow> nat set \<Rightarrow> FileTables \<times> disk \<Rightarrow> bool" where
  "coming_in C contact c fin S = (\<lambda>(db, d).
     (let cs = fi_chunk_size fin; n = length (cut_parts cs c); key = (fi_file_id fin, contact)
      in ft_allowed db contact \<and> (contact, fi_file_id fin) \<notin> ft_deleted db \<and> ft_live db (fi_message_id fin) \<and> S \<subseteq> {..<n} \<and>
         (\<forall>i \<in> S. slot_holds C (fi_key fin) cs c (case d (fi_path fin) of None \<Rightarrow> [] | Some f \<Rightarrow> f) i) \<and>
         (if S = {..<n}
          then ft_in db key = None \<and> (\<exists>row. ft_completed db key = Some (fi_message_id fin, row, n) \<and>
                 (row, file_attachment fin) \<in> set (ft_attachments db)) \<and> d (fi_path fin) \<noteq> None
          else \<exists>b m. ft_in db key = Some (fin\<lparr>fi_bits := b, fi_received := m\<rparr>) \<and> held (from_bits b n) = S)))"

lemma rv_total_from_bits [simp]: "rv_total (from_bits b n) = n"
  by (simp add: from_bits_def Let_def)

lemma take_chunk_new:
  assumes C: "seals_parts C" "aead_correct C" "aead_overhead C" and off: "offer_of C c fin"
    and n: "n = length (cut_parts (fi_chunk_size fin) c)" and i: "i < n" "i \<notin> S"
    and st: "coming_in C contact c fin S (db, d)"
    and row: "ft_in db (fi_file_id fin, contact) = Some (fin\<lparr>fi_bits := b, fi_received := m\<rparr>)" "held (from_bits b n) = S"
    and res: "take_chunk C contact (chunk_of (fi_file_id fin) (fi_chunk_size fin) c i) (fin\<lparr>fi_bits := b, fi_received := m\<rparr>) db d = (db', d', r)"
  shows "coming_in C contact c fin (insert i S) (db', d')"
proof -
  let ?cs = "fi_chunk_size fin" and ?r = "from_bits b n"
  have cs: "0 < ?cs" "?cs \<le> CHUNK_SIZE" and c: "length c \<le> MAX_FILE_BYTES" "fi_size fin = length c" "length (fi_key fin) = 32" "fi_sha256 fin = Sha256 C c"
    using off by (auto simp: offer_of_def)
  have cnt: "chunk_count (length c) ?cs = n" using chunk_count_cut [OF cs(1) c(1)] n by simp
  have S: "S \<subseteq> {..<n}" and slots: "\<forall>j \<in> S. j < length (cut_parts ?cs c) \<and> slot_holds C (fi_key fin) ?cs c (case d (fi_path fin) of None \<Rightarrow> [] | Some f \<Rightarrow> f) j"
    using st n by (auto simp: coming_in_def Let_def)
  from write_part_slots [OF C(1,3) cs c(1) _ slots, of i] i(1) n obtain f where
    f: "write_part C (fi_key fin) (d (fi_path fin)) (length c) ?cs i (cut_parts ?cs c ! i) = Inr f"
       "\<forall>j \<in> insert i S. slot_holds C (fi_key fin) ?cs c f j" by auto
  let ?r' = "fst (mark ?r i)"
  have ok: "received_ok ?r'" by (rule received_ok_mark [OF received_ok_from_bits])
  have h: "held ?r' = insert i S" using held_mark [OF received_ok_from_bits, of b n i] row(2) i(1) by simp
  have new: "\<not> has ?r i" using row(2) i(2) by (auto simp: held_def)
  have fb: "from_bits (rv_bits ?r') n = ?r'" using from_bits_self [OF ok] by simp
  have done_iff: "received_complete ?r' \<longleftrightarrow> insert i S = {..<n}" using complete_iff [OF ok] h by simp
  have open': "open_to C (fi_key fin) (Some f) (length c) ?cs = (c, Inr (Sha256 C c))" if "insert i S = {..<n}"
    using open_to_slots [OF C cs c(1), of "fi_key fin" f] f(2) that n by auto
  have d: "ft_allowed db contact" "(contact, fi_file_id fin) \<notin> ft_deleted db" "ft_live db (fi_message_id fin)"
    using st by (auto simp: coming_in_def Let_def)
  show ?thesis
  proof (cases "insert i S = {..<n}")
    case True
    with done_iff have dn: "received_complete ?r'" by simp
    have eq: "db' = fst (file_finished contact (fin\<lparr>fi_bits := b, fi_received := m\<rparr>) n False
        (db\<lparr>ft_in := (ft_in db)((fi_file_id fin, contact) \<mapsto> fin\<lparr>fi_bits := rv_bits ?r', fi_received := rv_count ?r'\<rparr>)\<rparr>))"
      "d' = d(fi_path fin \<mapsto> f)"
      using res new f(1) dn open' [OF True] c by (auto simp: take_chunk_def Let_def chunk_of_def cnt split: prod.splits)
    show ?thesis using True f(2) d i(1) S
      unfolding coming_in_def Let_def eq n [symmetric]
      by (auto simp: file_finished_def Let_def file_attachment_def)
  next
    case False
    with done_iff have dn: "\<not> received_complete ?r'" by simp
    have eq: "db' = db\<lparr>ft_in := (ft_in db)((fi_file_id fin, contact) \<mapsto> fin\<lparr>fi_bits := rv_bits ?r', fi_received := rv_count ?r'\<rparr>)\<rparr>"
      "d' = d(fi_path fin \<mapsto> f)"
      using res new f(1) dn c by (auto simp: take_chunk_def Let_def chunk_of_def cnt)
    show ?thesis using False f(2) d i(1) S h fb
      unfolding coming_in_def Let_def eq n [symmetric] by auto
  qed
qed

lemma deliver_step:
  assumes C: "seals_parts C" "aead_correct C" "aead_overhead C" and off: "offer_of C c fin"
    and i: "i < length (cut_parts (fi_chunk_size fin) c)" and st: "coming_in C contact c fin S s"
  shows "coming_in C contact c fin (insert i S) (deliver C contact (fi_file_id fin) (fi_chunk_size fin) c i s)"
proof -
  obtain db d where s: "s = (db, d)" by (cases s)
  let ?cs = "fi_chunk_size fin" and ?key = "(fi_file_id fin, contact)"
  let ?n = "length (cut_parts ?cs c)"
  let ?chunk = "chunk_of (fi_file_id fin) ?cs c i"
  have allowed: "ft_allowed db contact" "(contact, fi_file_id fin) \<notin> ft_deleted db" "ft_live db (fi_message_id fin)"
    using st by (auto simp: s coming_in_def Let_def)
  show ?thesis
  proof (cases "S = {..<?n}")
    case True
    then obtain row where "ft_in db ?key = None" "ft_completed db ?key = Some (fi_message_id fin, row, ?n)"
      using st by (auto simp: s coming_in_def Let_def)
    then have "deliver C contact (fi_file_id fin) ?cs c i s = s"
      using allowed i by (simp add: s deliver_def apply_file_chunk_def chunk_of_def chunk_unexpected_def)
    moreover have "insert i S = S" using True i by auto
    ultimately show ?thesis using st by simp
  next
    case False
    then obtain b m where row: "ft_in db ?key = Some (fin\<lparr>fi_bits := b, fi_received := m\<rparr>)" "held (from_bits b ?n) = S"
      using st by (auto simp: s coming_in_def Let_def)
    obtain db' d' r where tc: "take_chunk C contact ?chunk (fin\<lparr>fi_bits := b, fi_received := m\<rparr>) db d = (db', d', r)"
      by (metis prod_cases3)
    then have del: "deliver C contact (fi_file_id fin) ?cs c i s = (db', d')"
      using allowed row(1) by (simp add: s deliver_def apply_file_chunk_def chunk_of_def)
    show ?thesis
    proof (cases "i \<in> S")
      case True
      have cnt: "chunk_count (fi_size fin) ?cs = ?n" "length (fi_key fin) = 32" using off chunk_count_cut by (auto simp: offer_of_def)
      have "has (from_bits b ?n) i" using True row(2) by (auto simp: held_def)
      moreover have "\<not> received_complete (from_bits b ?n)"
        using complete_iff [OF received_ok_from_bits, of b ?n] row(2) False by simp
      ultimately have "db' = db" "d' = d" using tc cnt by (auto simp: take_chunk_def Let_def chunk_of_def)
      then show ?thesis using del st True by (simp add: s insert_absorb)
    next
      case new: False
      show ?thesis unfolding del by (rule take_chunk_new [OF C off refl i new st [unfolded s] row tc])
    qed
  qed
qed

lemma deliver_all:
  assumes C: "seals_parts C" "aead_correct C" "aead_overhead C" and off: "offer_of C c fin"
  shows "\<forall>i \<in> set js. i < length (cut_parts (fi_chunk_size fin) c) \<Longrightarrow> coming_in C contact c fin S s \<Longrightarrow>
    coming_in C contact c fin (set js \<union> S) (fold (deliver C contact (fi_file_id fin) (fi_chunk_size fin) c) js s)"
proof (induction js arbitrary: S s)
  case (Cons j js)
  from deliver_step [OF C off _ Cons.prems(2), of j] Cons.prems(1) Cons.IH [of "insert j S"] show ?case by simp
qed simp

text \<open>
  C7. A file arrives whatever the order of its parts. Once each part of an offered file has come at
  least once, in any order and with any repeats, the file is no longer coming in, it is recorded as
  complete, and the attachment recorded for it reads as exactly the bytes the sender offered.
\<close>

theorem file_arrives_any_order:
  assumes "seals_parts C" and "aead_correct C" and "aead_overhead C" and "offer_of C c fin"
    and "ft_allowed db contact" and "(contact, fi_file_id fin) \<notin> ft_deleted db" and "ft_live db (fi_message_id fin)"
    and "ft_in db (fi_file_id fin, contact) = Some fin"
    and "held (from_bits (fi_bits fin) (chunk_count (length c) (fi_chunk_size fin))) = {}"
    and "set js = {..<chunk_count (length c) (fi_chunk_size fin)}"
    and "fold (deliver C contact (fi_file_id fin) (fi_chunk_size fin) c) js (db, d) = (db', d')"
  shows "ft_in db' (fi_file_id fin, contact) = None \<and>
    (\<exists>row. ft_completed db' (fi_file_id fin, contact) = Some (fi_message_id fin, row, chunk_count (length c) (fi_chunk_size fin)) \<and>
       (row, file_attachment fin) \<in> set (ft_attachments db')) \<and>
    read_attachment C (d' (fi_path fin)) (fi_key fin) (length c) (Some (int (fi_chunk_size fin))) = Inr c"
proof -
  let ?cs = "fi_chunk_size fin"
  have cs: "0 < ?cs" "?cs \<le> CHUNK_SIZE" "length c \<le> MAX_FILE_BYTES" using assms(4) by (auto simp: offer_of_def)
  note cnt = chunk_count_cut [OF cs(1,3)]
  have ne: "{} \<noteq> {..<length (cut_parts ?cs c)}" using length_cut [OF cs(1), of c] by (metis One_nat_def Suc_le_eq emptyE lessThan_iff max.cobounded2)
  have "\<exists>b m. fin = fin\<lparr>fi_bits := b, fi_received := m\<rparr> \<and> held (from_bits b (length (cut_parts ?cs c))) = {}"
    using assms(9) cnt by (intro exI [of _ "fi_bits fin"] exI [of _ "fi_received fin"]) simp
  then have "coming_in C contact c fin {} (db, d)" using assms(5-8) ne by (simp add: coming_in_def Let_def)
  from deliver_all [OF assms(1-4) _ this, of js] assms(10,11) cnt
  have fin: "coming_in C contact c fin {..<length (cut_parts ?cs c)} (db', d')" by simp
  then obtain f where "d' (fi_path fin) = Some f" "\<forall>i < length (cut_parts ?cs c). slot_holds C (fi_key fin) ?cs c f i"
    by (auto simp: coming_in_def Let_def)
  with open_to_slots [OF assms(1-3) cs] have "open_to C (fi_key fin) (d' (fi_path fin)) (length c) ?cs = (c, Inr (Sha256 C c))" by simp
  moreover have "nat (int ?cs mod 2 ^ 32) = ?cs" using cs(2) by (simp add: CHUNK_SIZE_def nat_mod_as_int flip: of_nat_mod)
  ultimately show ?thesis using fin cnt by (auto simp: coming_in_def Let_def read_attachment_def)
qed

section \<open>Parts from anybody\<close>

lemma open_to_hash: "open_to C key file sz cs = (out, Inr h) \<Longrightarrow> h = Sha256 C out"
  by (auto simp: open_to_def split: prod.splits sum.splits)

lemma finished_attachments:
  "ft_attachments (fst (file_finished contact fin tot broken db)) =
     ft_attachments db @ (if broken then [] else [(ft_next_row db, file_attachment fin)])"
  by (simp add: file_finished_def Let_def file_attachment_def)

lemma take_chunk_sound:
  assumes "take_chunk C contact chunk fin db d = (db', d', res)"
  shows "(ft_attachments db' = ft_attachments db \<or>
       (\<exists>data. ft_attachments db' = ft_attachments db @ [(ft_next_row db, file_attachment fin)] \<and>
         open_to C (fi_key fin) (d' (fi_path fin)) (fi_size fin) (fi_chunk_size fin) = (data, Inr (Sha256 C data)) \<and>
         Sha256 C data = fi_sha256 fin)) \<and> ((\<exists>e. res = Inl e) \<longrightarrow> db' = db)"
proof -
  have fin': "(ft_attachments db2 = ft_attachments db \<or>
       (\<exists>data. ft_attachments db2 = ft_attachments db @ [(ft_next_row db, file_attachment fin)] \<and>
         open_to C (fi_key fin) fopt (fi_size fin) (fi_chunk_size fin) = (data, Inr (Sha256 C data)) \<and>
         Sha256 C data = fi_sha256 fin))"
    if "file_finished contact fin tot (sha \<noteq> fi_sha256 fin) db1 = (db2, att)" "ft_attachments db1 = ft_attachments db" "ft_next_row db1 = ft_next_row db"
      "snd (open_to C (fi_key fin) fopt (fi_size fin) (fi_chunk_size fin)) = Inr sha" for tot sha db1 db2 att fopt
    using finished_attachments [of contact fin tot "sha \<noteq> fi_sha256 fin" db1] that
      open_to_hash [of C "fi_key fin" fopt "fi_size fin" "fi_chunk_size fin"]
    by (cases "open_to C (fi_key fin) fopt (fi_size fin) (fi_chunk_size fin)") (auto split: if_splits)
  show ?thesis
    using assms unfolding take_chunk_def Let_def
    by (auto split: if_splits sum.splits prod.splits dest!: fin')
qed

lemma unexpected_keeps: "fst (chunk_unexpected contact chunk reference db) = db"
  by (simp add: chunk_unexpected_def split: option.split prod.split)

text \<open>
  C34. Whatever is sent as a part, and by whomever: a call that records an attachment records one, for a
  file this contact offered for a live message, and its bytes have the hash that was offered, as
  the reader of attachments will read them. A call that returns an error changes no table, and a
  contact not allowed to send files, or a file already refused or deleted, changes nothing at all.
\<close>

theorem attachment_sound:
  assumes "apply_file_chunk C contact chunk reference db d = (db', d', res)"
  shows "(ft_attachments db' = ft_attachments db \<or>
      (\<exists>fin data. ft_in db (fc_file_id chunk, contact) = Some fin \<and> ft_live db (fi_message_id fin) \<and>
         ft_attachments db' = ft_attachments db @ [(ft_next_row db, file_attachment fin)] \<and>
         open_to C (fi_key fin) (d' (fi_path fin)) (fi_size fin) (fi_chunk_size fin) = (data, Inr (Sha256 C data)) \<and>
         Sha256 C data = fi_sha256 fin)) \<and>
    ((\<exists>e. res = Inl e) \<longrightarrow> db' = db) \<and>
    (\<not> ft_allowed db contact \<or> (contact, fc_file_id chunk) \<in> ft_deleted db \<longrightarrow> db' = db \<and> d' = d \<and> res = Inr None)"
proof -
  have taken: "(ft_attachments db' = ft_attachments db \<or>
       (\<exists>data. ft_attachments db' = ft_attachments db @ [(ft_next_row db, file_attachment fin)] \<and>
         open_to C (fi_key fin) (d' (fi_path fin)) (fi_size fin) (fi_chunk_size fin) = (data, Inr (Sha256 C data)) \<and>
         Sha256 C data = fi_sha256 fin)) \<and> ((\<exists>e. res = Inl e) \<longrightarrow> db' = db)"
    if "take_chunk C contact chunk fin db d = (db', d', res)" for fin
    using take_chunk_sound [OF that] .
  have other: "ft_attachments (set_aside contact chunk reference db) = ft_attachments db" by (simp add: set_aside_def Let_def)
  show ?thesis
  proof (cases "\<exists>fin. ft_allowed db contact \<and> (contact, fc_file_id chunk) \<notin> ft_deleted db \<and>
      ft_in db (fc_file_id chunk, contact) = Some fin \<and> ft_live db (fi_message_id fin) \<and>
      take_chunk C contact chunk fin db d = (db', d', res)")
    case True
    then show ?thesis using taken by blast
  next
    case False
    then show ?thesis using assms other unexpected_keeps [of contact chunk reference db]
      by (auto simp: apply_file_chunk_def split: if_splits option.splits prod.splits sum.splits)
  qed
qed

section \<open>A file of five bytes in parts of two\<close>

definition sample_in :: FileIn where
  "sample_in =
     \<lparr>fi_file_id = [9], fi_contact_id = 1, fi_message_id = 4, fi_name = [102], fi_size = 5, fi_sha256 = Sha256 toy_crypto [1, 2, 3, 4, 5],
      fi_chunk_size = 2, fi_path = [70], fi_key = replicate 32 3, fi_bits = [], fi_received = 0, fi_created_at = 0\<rparr>"

definition sample_tables :: FileTables where
  "sample_tables =
     \<lparr>ft_allowed = (\<lambda>c. c = 1), ft_deleted = {}, ft_tombstones = {}, ft_live = (\<lambda>m. m = 4), ft_reference = (\<lambda>_. Inl StateError),
      ft_in = [([9], 1) \<mapsto> sample_in], ft_completed = Map.empty, ft_early = [], ft_dm_early = {}, ft_failures = {}, ft_cleanup = {},
      ft_attachments = [], ft_next_row = 1\<rparr>"

lemma sample_offer: "offer_of toy_crypto [1, 2, 3, 4, 5] sample_in"
  by (simp add: offer_of_def sample_in_def CHUNK_SIZE_def MAX_FILE_BYTES_def)

lemma sample_empty: "held (from_bits (fi_bits sample_in) 3) = {}"
proof -
  have n: "div_ceil 3 8 = 1" by (simp add: div_ceil_def)
  have "\<not> has (from_bits [] 3) i" for i
  proof (cases "i < 3")
    case True
    then have "i div 8 = 0" by simp
    then show ?thesis by (simp add: has_bit from_bits_def Let_def n)
  qed (simp add: has_def)
  then show ?thesis by (simp add: held_def sample_in_def)
qed

theorem file_arrives_any_order_witness:
  "case fold (deliver toy_crypto 1 [9] 2 [1, 2, 3, 4, 5]) [2, 0, 2, 1] (sample_tables, Map.empty) of
     (db', d') \<Rightarrow> ft_in db' ([9], 1) = None \<and> read_attachment toy_crypto (d' [70]) (replicate 32 3) 5 (Some 2) = Inr [1, 2, 3, 4, 5]"
proof -
  let ?c = "[1, 2, 3, 4, 5] :: bytes"
  obtain db' d' where run: "fold (deliver toy_crypto 1 (fi_file_id sample_in) (fi_chunk_size sample_in) ?c) [2, 0, 2, 1] (sample_tables, Map.empty) = (db', d')"
    by (metis surj_pair)
  have n: "chunk_count (length ?c) (fi_chunk_size sample_in) = 3" by (simp add: chunk_count_def div_ceil_def sample_in_def)
  have js: "set [2, 0, 2, 1] = {..<3 :: nat}" by (auto simp: numeral_3_eq_3 less_Suc_eq)
  from file_arrives_any_order [OF toy_seals_parts toy_aead_correct toy_aead_overhead sample_offer _ _ _ _ _ _ run]
  have "ft_in db' (fi_file_id sample_in, 1) = None \<and>
    read_attachment toy_crypto (d' (fi_path sample_in)) (fi_key sample_in) (length ?c) (Some (int (fi_chunk_size sample_in))) = Inr ?c"
    using sample_empty js unfolding n by (simp add: sample_tables_def) (simp add: sample_in_def)
  moreover have l: "length ?c = 5" by simp
  ultimately have "ft_in db' (fi_file_id sample_in, 1) = None \<and>
    read_attachment toy_crypto (d' (fi_path sample_in)) (fi_key sample_in) 5 (Some (int (fi_chunk_size sample_in))) = Inr ?c"
    unfolding l by blast
  with run show ?thesis by (simp add: sample_in_def)
qed

theorem attachment_sound_witness:
  "\<exists>db' d' res. apply_file_chunk toy_crypto 1 (chunk_of [9] 2 [1, 2, 3, 4, 5] 0) None sample_tables Map.empty = (db', d', res) \<and>
     (ft_attachments db' = [] \<or> (\<exists>fin. sample_tables = sample_tables\<lparr>ft_in := (ft_in sample_tables)(([9], 1) \<mapsto> fin)\<rparr> \<and>
        ft_attachments db' = [(1, file_attachment fin)]))"
proof -
  obtain db' d' res where a: "apply_file_chunk toy_crypto 1 (chunk_of [9] 2 [1, 2, 3, 4, 5] 0) None sample_tables Map.empty = (db', d', res)"
    by (metis prod_cases3)
  from attachment_sound [OF a] show ?thesis using a by (auto simp: sample_tables_def chunk_of_def)
qed

end
