(* ===== verification/File_Flow_Props.thy ===== *)
theory File_Flow_Props
  imports File_Transfer
begin

text \<open>
  The window of a recipient stays within its bounds whatever happens, and what each operation of
  \<open>Sending\<close> and \<open>Flow\<close> does to the parts in flight and to the parts noted for sending again.
\<close>

section \<open>Rounding\<close>

lemma rounding_mono: "rounding rnd \<Longrightarrow> x \<le> y \<Longrightarrow> rnd x \<le> rnd y"
  by (simp add: rounding_def)

lemma rounding_int: "rounding rnd \<Longrightarrow> \<bar>n\<bar> \<le> 2 ^ 53 \<Longrightarrow> rnd (of_int n) = of_int n"
  by (simp add: rounding_def)

lemma rounding_ge: "rounding rnd \<Longrightarrow> of_int n \<le> x \<Longrightarrow> \<bar>n\<bar> \<le> 2 ^ 53 \<Longrightarrow> of_int n \<le> rnd x"
  using rounding_mono rounding_int by metis

lemma rounding_le: "rounding rnd \<Longrightarrow> x \<le> of_int n \<Longrightarrow> \<bar>n\<bar> \<le> 2 ^ 53 \<Longrightarrow> rnd x \<le> of_int n"
  using rounding_mono rounding_int by metis

lemma rounding_id: "rounding (\<lambda>x. x)"
  by (simp add: rounding_def)

section \<open>The window\<close>

definition flow_ok :: "Flow \<Rightarrow> bool" where
  "flow_ok fl \<longleftrightarrow> 2 \<le> fl_cwnd fl \<and> fl_cwnd fl \<le> 16 \<and>
     (case fl_undo fl of None \<Rightarrow> True | Some (c, _, _) \<Rightarrow> 2 \<le> c \<and> c \<le> 16)"

lemma flow_ok_default: "flow_ok default_flow"
  by (simp add: flow_ok_def default_flow_def FLOW_START_def)

lemma flow_ok_cong: "fl_cwnd fl' = fl_cwnd fl \<Longrightarrow> fl_undo fl' = fl_undo fl \<Longrightarrow> flow_ok fl' \<longleftrightarrow> flow_ok fl"
  by (simp add: flow_ok_def)

lemma sample_keeps [simp]:
  "fl_cwnd (sample rnd rtt fl) = fl_cwnd fl" "fl_undo (sample rnd rtt fl) = fl_undo fl"
  "fl_sent (sample rnd rtt fl) = fl_sent fl" "fl_known (sample rnd rtt fl) = fl_known fl"
  by (auto simp: sample_def Let_def split: option.split)

lemma small_keeps [simp]:
  "fl_sent (take_back rnd t now fl) = fl_sent fl" "fl_known (take_back rnd t now fl) = fl_known fl"
  "fl_sent (open_window rnd fl) = fl_sent fl" "fl_known (open_window rnd fl) = fl_known fl"
  "fl_sent (on_loss rnd t now fl) = fl_sent fl" "fl_known (on_loss rnd t now fl) = fl_known fl"
  "fl_sent (recovered fl) = fl_sent fl" "fl_known (recovered fl) = fl_known fl"
  "fl_known (unsent f i fl) = fl_known fl"
  by (auto simp: take_back_def open_window_def on_loss_def recovered_def unsent_def Let_def split: option.split)

lemma flow_ok_frame [simp]:
  "flow_ok (unsent f i fl) \<longleftrightarrow> flow_ok fl" "flow_ok (recovered fl) \<longleftrightarrow> flow_ok fl" "flow_ok (forget_file f fl) \<longleftrightarrow> flow_ok fl"
  "flow_ok (on_sent f i now b fl) \<longleftrightarrow> flow_ok fl" "flow_ok (adopt f os now fl) \<longleftrightarrow> flow_ok fl" "flow_ok (sample rnd rtt fl) \<longleftrightarrow> flow_ok fl"
  "flow_ok (fl\<lparr>fl_backoff := b'\<rparr>) \<longleftrightarrow> flow_ok fl"
  by (simp_all add: flow_ok_def unsent_def recovered_def forget_file_def on_sent_def adopt_def)

lemma flow_ok_open_window:
  assumes "rounding rnd" "flow_ok fl"
  shows "flow_ok (open_window rnd fl)"
proof -
  have c: "2 \<le> fl_cwnd fl" "fl_cwnd fl \<le> 16" using assms(2) by (auto simp: flow_ok_def)
  have "0 \<le> rnd (1 / fl_cwnd fl)" using rounding_ge [OF assms(1), of 0 "1 / fl_cwnd fl"] c by simp
  then have "2 \<le> rnd (fl_cwnd fl + rnd (1 / fl_cwnd fl))" "2 \<le> rnd (fl_cwnd fl + 1)"
    using rounding_ge [OF assms(1), of 2] c by simp_all
  then show ?thesis using assms(2) by (simp add: flow_ok_def open_window_def Let_def WINDOW_def)
qed

lemma flow_ok_on_loss:
  assumes "rounding rnd" "flow_ok fl"
  shows "flow_ok (on_loss rnd t now fl)"
proof -
  have "rnd (fl_cwnd fl / 2) \<le> 8" using rounding_le [OF assms(1), of _ 8] assms(2) by (simp add: flow_ok_def)
  then show ?thesis using assms(2) by (simp add: flow_ok_def on_loss_def Let_def)
qed

lemma flow_ok_take_back: "flow_ok fl \<Longrightarrow> flow_ok (take_back rnd t now fl)"
  by (auto simp: flow_ok_def take_back_def split: option.splits)

lemma flow_ok_part_arrived: "rounding rnd \<Longrightarrow> flow_ok fl \<Longrightarrow> flow_ok (part_arrived rnd f now e x fl)"
  by (cases x) (simp add: part_arrived_def Let_def flow_ok_open_window flow_ok_take_back)

lemma fold_invariant: "P s \<Longrightarrow> (\<And>x s. P s \<Longrightarrow> P (g x s)) \<Longrightarrow> P (fold g xs s)"
  by (induction xs arbitrary: s) simp_all

lemma flow_ok_on_held: "rounding rnd \<Longrightarrow> flow_ok fl \<Longrightarrow> flow_ok (on_held rnd f h now e fl)"
  unfolding on_held_def Let_def by (rule fold_invariant) (auto simp: flow_ok_part_arrived)

lemma flow_ok_on_ack:
  assumes "rounding rnd" "flow_ok fl"
  shows "flow_ok (snd (on_ack rnd a now (s, fl)))"
proof -
  let ?fl = "on_held rnd (fa_file_id a) (ack_held a) now (fa_echo_sent_at a > 0)
    (if fa_echo_sent_at a > 0 \<and> fa_echo_sent_at a \<le> now then sample rnd (rnd (of_int (now - fa_echo_sent_at a))) fl else fl)"
  have h: "flow_ok ?fl" using assms by (intro flow_ok_on_held) auto
  have r: "flow_ok (snd (fold (resume_part a) xs (s', ?fl)))" for xs s'
    by (rule fold_invariant [where P = "\<lambda>x. flow_ok (snd x)"]) (use h in \<open>auto simp: resume_part_def\<close>)
  have m: "flow_ok (fst (snd (fold (missing_part rnd a now) xs (s', ?fl, None))))" for xs s'
    by (rule fold_invariant [where P = "\<lambda>x. flow_ok (fst (snd x))"]) (use h in \<open>auto simp: missing_part_def\<close>)
  show ?thesis unfolding on_ack_def Let_def
    using r m flow_ok_on_loss [OF assms(1)] by (auto split: prod.splits option.splits) (metis fst_conv snd_conv)+
qed

section \<open>What is sent\<close>

text \<open>The stages of \<open>due\<close>.\<close>

definition adopted :: "bytes \<Rightarrow> int \<Rightarrow> Sending \<Rightarrow> Flow \<Rightarrow> Flow" where
  "adopted f now s fl = adopt f (filter (\<lambda>i. i \<notin> set (sn_resend s)) [sn_acked s..<sn_next s]) now fl"

definition given_up :: "(rat \<Rightarrow> rat) \<Rightarrow> bytes \<Rightarrow> int \<Rightarrow> Sending \<Rightarrow> Flow \<Rightarrow> Sending \<times> Flow \<times> int option" where
  "given_up rnd f now s fl = fold (tail_part f) (overdue_parts rnd f now (adopted f now s fl)) (s, adopted f now s fl, None)"

lemma due_stages:
  assumes "due rnd f tot now (s, fl) = (out, s', fl')"
  obtains s2 fl2 lost fl3 fresh stop where
    "given_up rnd f now s fl = (s2, fl2, lost)" and "fl3 = (case lost of Some t \<Rightarrow> on_loss rnd t now fl2 | None \<Rightarrow> fl2)"
    and "out = take (room fl3) (sort (sn_resend s2)) @ fresh" and "fresh = [sn_next s2..<stop]"
    and "stop = max (sn_next s2) (min (min (sn_acked s2 + MAX_SPAN) tot) (sn_next s2 + (room fl3 - length (take (room fl3) (sort (sn_resend s2))))))"
    and "s' = s2\<lparr>sn_resend := drop (room fl3) (sort (sn_resend s2)), sn_next := stop\<rparr>"
    and "fl' = fold (\<lambda>i. on_sent f i now False) fresh (fold (\<lambda>i. on_sent f i now True) (take (room fl3) (sort (sn_resend s2))) fl3)"
proof -
  obtain s2 fl2 lost where g: "given_up rnd f now s fl = (s2, fl2, lost)" by (metis prod_cases3)
  define fl3 where "fl3 = (case lost of Some t \<Rightarrow> on_loss rnd t now fl2 | None \<Rightarrow> fl2)"
  show thesis
    by (rule that [OF g fl3_def _ refl refl])
       (use assms g in \<open>auto simp: due_def Let_def given_up_def adopted_def fl3_def\<close>)
qed

lemma flow_ok_adopted [simp]: "flow_ok (adopted f now s fl) \<longleftrightarrow> flow_ok fl"
  by (simp add: adopted_def)

lemma flow_ok_given_up: "flow_ok fl \<Longrightarrow> given_up rnd f now s fl = (s2, fl2, lost) \<Longrightarrow> flow_ok fl2"
proof -
  assume "flow_ok fl" "given_up rnd f now s fl = (s2, fl2, lost)"
  moreover have "flow_ok (fst (snd (fold (tail_part f) xs (s, adopted f now s fl, None))))" if "flow_ok fl" for xs
    by (rule fold_invariant [where P = "\<lambda>x. flow_ok (fst (snd x))"]) (use that in \<open>auto simp: tail_part_def Let_def\<close>)
  ultimately show ?thesis unfolding given_up_def by (metis fst_conv snd_conv)
qed

lemma flow_ok_due:
  assumes "rounding rnd" "flow_ok fl" "due rnd f tot now (s, fl) = (out, s', fl')"
  shows "flow_ok fl'"
proof (rule due_stages [OF assms(3)])
  fix s2 fl2 lost fl3 fresh stop
  assume g: "given_up rnd f now s fl = (s2, fl2, lost)" and fl3: "fl3 = (case lost of Some t \<Rightarrow> on_loss rnd t now fl2 | None \<Rightarrow> fl2)"
    and fl': "fl' = fold (\<lambda>i. on_sent f i now False) fresh (fold (\<lambda>i. on_sent f i now True) (take (room fl3) (sort (sn_resend s2))) fl3)"
  have "flow_ok fl3" using flow_ok_given_up [OF assms(2) g] flow_ok_on_loss [OF assms(1)] by (simp add: fl3 split: option.split)
  then show ?thesis unfolding fl'
    by (intro fold_invariant [where P = flow_ok]) simp_all
qed

text \<open>Every flow a run of the program can have, with any letters, clocks and files.\<close>

inductive flow_reach :: "(rat \<Rightarrow> rat) \<Rightarrow> Flow \<Rightarrow> bool" for rnd where
  start: "flow_reach rnd default_flow"
| acks: "flow_reach rnd fl \<Longrightarrow> flow_reach rnd (snd (on_ack rnd a now (s, fl)))"
| sends: "flow_reach rnd fl \<Longrightarrow> due rnd f tot now (s, fl) = (out, s', fl') \<Longrightarrow> flow_reach rnd fl'"
| forgets: "flow_reach rnd fl \<Longrightarrow> flow_reach rnd (forget_file f fl)"
| fails: "flow_reach rnd fl \<Longrightarrow> flow_reach rnd (unsent f i fl)"

lemma flow_reach_ok: "flow_reach rnd fl \<Longrightarrow> rounding rnd \<Longrightarrow> flow_ok fl"
  by (induction rule: flow_reach.induct) (auto simp: flow_ok_default flow_ok_on_ack intro: flow_ok_due)

lemma window_bounds: "1 \<le> window fl" "window fl \<le> WINDOW"
  by (simp_all add: window_def WINDOW_def)

lemma window_ok: "flow_ok fl \<Longrightarrow> 2 \<le> window fl"
proof -
  assume "flow_ok fl"
  then have "2 \<le> \<lfloor>fl_cwnd fl\<rfloor>" "\<lfloor>fl_cwnd fl\<rfloor> \<le> 16" by (auto simp: flow_ok_def le_floor_iff floor_le_iff)
  then have "as_u32 (of_int \<lfloor>fl_cwnd fl\<rfloor>) \<ge> 2" by (simp add: as_u32_def trunc_rat_def le_nat_iff)
  then show ?thesis by (simp add: window_def WINDOW_def)
qed

lemma rto_bounds: "RTO_MIN_MS \<le> rto_ms rnd fl" "rto_ms rnd fl \<le> RTO_MAX_MS"
  by (auto simp: rto_ms_def RTO_FIRST_MS_def RTO_MIN_MS_def RTO_MAX_MS_def split: option.split)

lemma on_sent_length: "in_flight (on_sent f i now b fl) \<le> Suc (in_flight fl)"
proof -
  have "length (hm_insert k v al) \<le> Suc (length al)" for k :: "bytes \<times> nat" and v :: "int \<times> bool" and al
    by (induction al) auto
  then show ?thesis by (simp add: in_flight_def on_sent_def)
qed

lemma fold_on_sent_length: "in_flight (fold (\<lambda>i. on_sent f i now b) is' fl) \<le> in_flight fl + length is'"
proof (induction is' arbitrary: fl)
  case (Cons i is')
  from Cons.IH [of "on_sent f i now b fl"] on_sent_length [of f i now b fl] show ?case by simp
qed simp

lemma window_on_sent [simp]: "window (on_sent f i now b fl) = window fl"
  by (simp add: window_def on_sent_def)

lemma window_fold_on_sent [simp]: "window (fold (\<lambda>i. on_sent f i now b) is' fl) = window fl"
  by (induction is' arbitrary: fl) simp_all

lemma due_fits:
  assumes "due rnd f tot now (s, fl) = (out, s', fl')" "out \<noteq> []"
  shows "length out \<le> window fl' \<and> in_flight fl' \<le> window fl'"
proof (rule due_stages [OF assms(1)])
  fix s2 fl2 lost fl3 fresh stop
  assume out: "out = take (room fl3) (sort (sn_resend s2)) @ fresh" and fresh: "fresh = [sn_next s2..<stop]"
    and stop: "stop = max (sn_next s2) (min (min (sn_acked s2 + MAX_SPAN) tot) (sn_next s2 + (room fl3 - length (take (room fl3) (sort (sn_resend s2))))))"
    and fl': "fl' = fold (\<lambda>i. on_sent f i now False) fresh (fold (\<lambda>i. on_sent f i now True) (take (room fl3) (sort (sn_resend s2))) fl3)"
  have "stop - sn_next s2 \<le> room fl3 - length (take (room fl3) (sort (sn_resend s2)))" unfolding stop by linarith
  then have l: "length out \<le> room fl3" by (simp add: out fresh)
  moreover have "in_flight fl' \<le> in_flight fl3 + length out"
    unfolding fl' out length_append using fold_on_sent_length [of f now False fresh] fold_on_sent_length [of f now True _ fl3]
    by (metis (no_types, lifting) add.assoc add_le_mono1 order_trans)
  moreover have "window fl' = window fl3" by (simp add: fl')
  moreover have "0 < length out" using assms(2) by simp
  ultimately show ?thesis unfolding room_def by linarith
qed

text \<open>What counts as lost, by the time since it was sent.\<close>

lemma overdue_parts_times:
  shows "i \<in> set (overdue_parts rnd f now fl) \<Longrightarrow> \<exists>t r. ((f, i), (t, r)) \<in> set (fl_sent fl) \<and> RTO_MIN_MS \<le> now - t"
    and "((f, i), (t, r)) \<in> set (fl_sent fl) \<Longrightarrow> RTO_MAX_MS \<le> now - t \<Longrightarrow> i \<in> set (overdue_parts rnd f now fl)"
  using rto_bounds [of rnd fl] by (force simp: overdue_parts_def)+



end
