(* ===== verification/File_Transfer_Props.thy ===== *)
theory File_Transfer_Props
  imports File_Flow_Props
begin

text \<open>
  One file on its way to one recipient, as a system: the sender's row and flow, the receiver's map of
  parts, and a network that may lose, repeat, delay and reorder parts and acknowledgements. What is
  on the network is kept as the set of all that was ever put there.
\<close>

section \<open>Parts in flight\<close>

definition parts_of :: "bytes \<Rightarrow> Flow \<Rightarrow> nat set" where
  "parts_of f fl = {i. (f, i) \<in> set (keys (fl_sent fl))}"

lemma keys_hm_insert: "fst ` set (hm_insert k v al) = insert k (fst ` set al)"
  by (induction al) auto

lemma parts_of_frame [simp]:
  "parts_of f (sample rnd rtt fl) = parts_of f fl" "parts_of f (take_back rnd t now fl) = parts_of f fl"
  "parts_of f (open_window rnd fl) = parts_of f fl" "parts_of f (on_loss rnd t now fl) = parts_of f fl"
  "parts_of f (recovered fl) = parts_of f fl" "parts_of f (fl\<lparr>fl_backoff := b\<rparr>) = parts_of f fl"
  by (simp_all add: parts_of_def)

lemma parts_of_unsent [simp]: "parts_of f (unsent f i fl) = parts_of f fl - {i}"
  by (auto simp: parts_of_def unsent_def keys_hm_remove)

lemma parts_of_on_sent [simp]: "parts_of f (on_sent f i now b fl) = insert i (parts_of f fl)"
  by (rule set_eqI) (simp add: parts_of_def on_sent_def keys_hm_insert)

lemma parts_of_forget [simp]: "parts_of f (forget_file f fl) = {}"
  by (auto simp: parts_of_def forget_file_def)

lemma known_frame [simp]:
  "f \<in> fl_known (on_sent f i now b fl)" "f \<notin> fl_known (forget_file f fl)"
  by (simp_all add: on_sent_def forget_file_def)

lemma parts_of_fold_on_sent: "parts_of f (fold (\<lambda>i. on_sent f i now b) js fl) = set js \<union> parts_of f fl"
  by (induction js arbitrary: fl) auto

lemma known_fold_on_sent: "f \<in> fl_known fl \<Longrightarrow> f \<in> fl_known (fold (\<lambda>i. on_sent f i now b) js fl)"
  by (induction js arbitrary: fl) simp_all

lemma parts_of_fold_unsent: "parts_of f (fold (unsent f) js fl) = parts_of f fl - set js"
  by (induction js arbitrary: fl) auto

lemma known_fold_unsent [simp]: "fl_known (fold (unsent f) js fl) = fl_known fl"
  by (induction js arbitrary: fl) simp_all

lemma fold_or_insert: "fst ` set (fold (or_insert now f) js al) = fst ` set al \<union> Pair f ` set js"
proof (induction js arbitrary: al)
  case (Cons j js)
  have "fst ` set (or_insert now f j al) = insert (f, j) (fst ` set al)"
    by (simp add: or_insert_def keys_hm_insert map_of_eq_None_iff insert_absorb)
  with Cons show ?case by simp
qed simp

lemma parts_of_adopt:
  "parts_of f (adopt f js now fl) = (if f \<in> fl_known fl then parts_of f fl else parts_of f fl \<union> set js)"
  "f \<in> fl_known (adopt f js now fl)"
  by (rule set_eqI, simp add: adopt_def parts_of_def fold_or_insert inj_image_mem_iff inj_def) (simp add: adopt_def)

lemma part_arrived_parts:
  "parts_of f (part_arrived rnd f now e x fl) = parts_of f fl - {fst x}" "fl_known (part_arrived rnd f now e x fl) = fl_known fl"
  by (cases x, simp add: part_arrived_def Let_def)+

lemma parts_of_on_held: "parts_of f (on_held rnd f h now e fl) = {i \<in> parts_of f fl. \<not> h i}"
proof -
  have fold: "parts_of f (fold (part_arrived rnd f now e) xs g) = parts_of f g - fst ` set xs" for xs g
    by (induction xs arbitrary: g) (auto simp: part_arrived_parts)
  have "fst ` set (map (\<lambda>((f, i), (t, r)). (i, t, r)) (filter (\<lambda>((f', i), _). f' = f \<and> h i) al)) = {i. (f, i) \<in> set (keys al) \<and> h i}"
    for al :: "((bytes \<times> nat) \<times> (int \<times> bool)) list" by (induction al) auto
  then show ?thesis unfolding on_held_def Let_def fold by (auto simp: parts_of_def)
qed

lemma known_on_held [simp]: "fl_known (on_held rnd f h now e fl) = fl_known fl"
proof -
  have "fl_known (fold (part_arrived rnd f now e) xs g) = fl_known g" for xs g
    by (induction xs arbitrary: g) (auto simp: part_arrived_parts)
  then show ?thesis by (simp add: on_held_def Let_def)
qed

lemma set_in_flight_of [simp]: "set (in_flight_of f fl) = parts_of f fl"
  by (force simp: in_flight_of_def parts_of_def)

lemma set_overdue_parts: "set (overdue_parts rnd f now fl) \<subseteq> parts_of f fl"
  by (force simp: overdue_parts_def parts_of_def)

section \<open>The sender keeps track of every part\<close>

text \<open>
  The parts the sender has yet to hear of, \<open>H\<close> being those the receiver holds: each is noted for
  sending again or is in flight. Nothing beyond what was sent is in either.
\<close>

definition tracked :: "bytes \<Rightarrow> nat set \<Rightarrow> Sending \<Rightarrow> Flow \<Rightarrow> bool" where
  "tracked f H s fl \<longleftrightarrow> {sn_acked s..<sn_next s} \<subseteq> H \<union> set (sn_resend s) \<union> parts_of f fl"

definition in_range :: "bytes \<Rightarrow> Sending \<Rightarrow> Flow \<Rightarrow> bool" where
  "in_range f s fl \<longleftrightarrow> set (sn_resend s) \<subseteq> {..<sn_next s} \<and> parts_of f fl \<subseteq> {..<sn_next s}"

text \<open>What the three loops over lost parts have in common.\<close>

definition moves_lost :: "bytes \<Rightarrow> Sending \<Rightarrow> Flow \<Rightarrow> Sending \<Rightarrow> Flow \<Rightarrow> bool" where
  "moves_lost f s fl s' fl' \<longleftrightarrow>
     sn_acked s' = sn_acked s \<and> sn_next s' = sn_next s \<and> fl_known fl' = fl_known fl \<and> parts_of f fl' \<subseteq> parts_of f fl \<and>
     set (sn_resend s) \<subseteq> set (sn_resend s') \<and>
     set (sn_resend s') \<subseteq> set (sn_resend s) \<union> {..<sn_next s} \<and>
     parts_of f fl \<inter> {sn_acked s..<sn_next s} \<subseteq> set (sn_resend s') \<union> parts_of f fl'"

lemma moves_lost_refl: "moves_lost f s fl s fl"
  by (auto simp: moves_lost_def)

lemma moves_lost_trans: "moves_lost f s fl s1 fl1 \<Longrightarrow> moves_lost f s1 fl1 s2 fl2 \<Longrightarrow> moves_lost f s fl s2 fl2"
  by (simp add: moves_lost_def) blast

lemma moves_lost_kept:
  assumes "moves_lost f s fl s' fl'"
  shows "tracked f H s fl \<Longrightarrow> tracked f H s' fl'" "in_range f s fl \<Longrightarrow> in_range f s' fl'"
  using assms by (auto simp: moves_lost_def tracked_def in_range_def)

lemma resume_part_moves:
  assumes "i < sn_next s" "resume_part a i (s, fl) = (s', fl')"
  shows "moves_lost (fa_file_id a) s fl s' fl'"
  using assms by (auto simp: resume_part_def moves_lost_def split: if_splits)

lemma resume_fold:
  "\<forall>i \<in> set xs. i < sn_next s \<Longrightarrow> fold (resume_part a) xs (s, fl) = (s', fl') \<Longrightarrow> moves_lost (fa_file_id a) s fl s' fl'"
proof (induction xs arbitrary: s fl)
  case (Cons i xs)
  obtain s1 fl1 where r: "resume_part a i (s, fl) = (s1, fl1)" by (metis surj_pair)
  from resume_part_moves [OF _ r] Cons.prems(1) have m: "moves_lost (fa_file_id a) s fl s1 fl1" by simp
  have "sn_next s1 = sn_next s" using m by (simp add: moves_lost_def)
  then have "moves_lost (fa_file_id a) s1 fl1 s' fl'" using Cons.IH [of s1 fl1] Cons.prems r by simp
  with m show ?case by (rule moves_lost_trans)
qed (simp add: moves_lost_refl)

lemma missing_fold:
  "fold (missing_part rnd a now) xs (s, fl, lost) = (s', fl', lost') \<Longrightarrow> moves_lost (fa_file_id a) s fl s' fl'"
proof (induction xs arbitrary: s fl lost)
  case (Cons i xs)
  obtain s1 fl1 l1 where r: "missing_part rnd a now i (s, fl, lost) = (s1, fl1, l1)" by (metis prod_cases3)
  then have m: "moves_lost (fa_file_id a) s fl s1 fl1"
    by (auto simp: missing_part_def moves_lost_def split: if_splits)
  from Cons r have "moves_lost (fa_file_id a) s1 fl1 s' fl'" by simp
  with m show ?case by (rule moves_lost_trans)
qed (simp add: moves_lost_refl)

lemma tail_fold:
  "fold (tail_part f) xs (s, fl, lost) = (s', fl', lost') \<Longrightarrow>
     moves_lost f s fl s' fl' \<and> parts_of f fl' = parts_of f fl - set xs"
proof (induction xs arbitrary: s fl lost)
  case (Cons i xs)
  obtain s1 fl1 l1 where r: "tail_part f i (s, fl, lost) = (s1, fl1, l1)" by (metis prod_cases3)
  then have m: "moves_lost f s fl s1 fl1" "parts_of f fl1 = parts_of f fl - {i}"
    by (auto simp: tail_part_def moves_lost_def Let_def split: if_splits)
  from Cons r have "moves_lost f s1 fl1 s' fl' \<and> parts_of f fl' = parts_of f fl1 - set xs" by simp
  with m moves_lost_trans show ?case by auto
qed (simp add: moves_lost_refl)

lemma on_ack_stages:
  assumes "on_ack rnd a now (s, fl) = (s', fl')"
  obtains fl1 s1 s2 fl2 lost where
    "fl1 = on_held rnd (fa_file_id a) (ack_held a) now (fa_echo_sent_at a > 0)
       (if fa_echo_sent_at a > 0 \<and> fa_echo_sent_at a \<le> now then sample rnd (rnd (of_int (now - fa_echo_sent_at a))) fl else fl)"
    and "s1 = s\<lparr>sn_acked := max (sn_acked s) (min (fa_received_up_to a) (sn_next s))\<rparr>"
    and "s' = keep_lost a s2"
    and "if fa_resumed a then fold (resume_part a) (in_flight_of (fa_file_id a) fl1) (s1, fl1) = (s2, fl2) \<and> fl' = recovered fl2
         else fold (missing_part rnd a now) (fa_missing a) (s1, fl1, None) = (s2, fl2, lost) \<and>
              fl' = (case lost of Some t \<Rightarrow> on_loss rnd t now fl2 | None \<Rightarrow> fl2)"
proof -
  define fl1 where "fl1 = on_held rnd (fa_file_id a) (ack_held a) now (fa_echo_sent_at a > 0)
       (if fa_echo_sent_at a > 0 \<and> fa_echo_sent_at a \<le> now then sample rnd (rnd (of_int (now - fa_echo_sent_at a))) fl else fl)"
  define s1 where "s1 = s\<lparr>sn_acked := max (sn_acked s) (min (fa_received_up_to a) (sn_next s))\<rparr>"
  obtain s2 fl2 where r: "fold (resume_part a) (in_flight_of (fa_file_id a) fl1) (s1, fl1) = (s2, fl2)" by (metis surj_pair)
  obtain s3 fl3 lost where m: "fold (missing_part rnd a now) (fa_missing a) (s1, fl1, None) = (s3, fl3, lost)" by (metis prod_cases3)
  have e: "on_ack rnd a now (s, fl) =
      (if fa_resumed a then (keep_lost a s2, recovered fl2)
       else (keep_lost a s3, case lost of Some t \<Rightarrow> on_loss rnd t now fl3 | None \<Rightarrow> fl3))"
    using r m unfolding on_ack_def Let_def by (simp add: fl1_def [symmetric] s1_def [symmetric])
  show thesis
  proof (cases "fa_resumed a")
    case True
    show thesis by (rule that [OF fl1_def s1_def]) (use True e r assms in auto)
  next
    case False
    show thesis by (rule that [OF fl1_def s1_def]) (use False e m assms in auto)
  qed
qed

lemma keep_lost_spec [simp]:
  "sn_acked (keep_lost a s) = sn_acked s" "sn_next (keep_lost a s) = sn_next s"
  "set (sn_resend (keep_lost a s)) = {m \<in> set (sn_resend s). m \<ge> sn_acked s \<and> \<not> ack_held a m}"
  by (auto simp: keep_lost_def)

lemma on_ack_spec:
  assumes a: "fa_file_id a = f" "\<forall>i. ack_held a i \<longrightarrow> i \<in> H" and rng: "in_range f s fl" and on: "on_ack rnd a now (s, fl) = (s', fl')"
  shows "sn_acked s' = max (sn_acked s) (min (fa_received_up_to a) (sn_next s)) \<and> sn_next s' = sn_next s \<and> fl_known fl' = fl_known fl \<and>
    in_range f s' fl' \<and> (tracked f H s fl \<longrightarrow> tracked f H s' fl')"
proof (rule on_ack_stages [OF on])
  fix fl1 s1 s2 fl2 lost
  assume fl1: "fl1 = on_held rnd (fa_file_id a) (ack_held a) now (fa_echo_sent_at a > 0)
       (if fa_echo_sent_at a > 0 \<and> fa_echo_sent_at a \<le> now then sample rnd (rnd (of_int (now - fa_echo_sent_at a))) fl else fl)"
    and s1: "s1 = s\<lparr>sn_acked := max (sn_acked s) (min (fa_received_up_to a) (sn_next s))\<rparr>" and s': "s' = keep_lost a s2"
    and lp: "if fa_resumed a then fold (resume_part a) (in_flight_of (fa_file_id a) fl1) (s1, fl1) = (s2, fl2) \<and> fl' = recovered fl2
         else fold (missing_part rnd a now) (fa_missing a) (s1, fl1, None) = (s2, fl2, lost) \<and>
              fl' = (case lost of Some t \<Rightarrow> on_loss rnd t now fl2 | None \<Rightarrow> fl2)"
  have p1: "parts_of f fl1 = {i \<in> parts_of f fl. \<not> ack_held a i}" "fl_known fl1 = fl_known fl"
    unfolding fl1 a(1) by (simp_all add: parts_of_on_held)
  have r1: "in_range f s1 fl1" using rng p1 by (auto simp: in_range_def s1)
  then have fin: "\<forall>i \<in> set (in_flight_of (fa_file_id a) fl1). i < sn_next s1" by (auto simp: in_range_def a(1))
  have m: "moves_lost f s1 fl1 s2 fl2" and same: "parts_of f fl' = parts_of f fl2" "fl_known fl' = fl_known fl2"
    using lp resume_fold [OF fin, of a fl1 s2 fl2] missing_fold [of rnd a now "fa_missing a" s1 fl1 None s2 fl2 lost]
    by (auto simp: a(1) split: if_splits option.splits)
  have t1: "tracked f H s1 fl1" if "tracked f H s fl" using that p1 a(2) by (auto simp: tracked_def s1)
  have "tracked f H s' fl'" if "tracked f H s fl"
    using moves_lost_kept(1) [OF m t1 [OF that]] a(2) same m unfolding tracked_def s' by (auto simp: moves_lost_def)
  moreover have "in_range f s' fl'" using moves_lost_kept(2) [OF m r1] same unfolding in_range_def s' by auto
  ultimately show ?thesis using m same p1 by (simp add: s' moves_lost_def s1)
qed

lemma adopted_spec:
  assumes "f \<in> fl_known fl \<longrightarrow> tracked f H s fl" "in_range f s fl"
  shows "tracked f H s (adopted f now s fl)" "in_range f s (adopted f now s fl)" "f \<in> fl_known (adopted f now s fl)"
  using assms by (auto simp: adopted_def parts_of_adopt tracked_def in_range_def)

lemma due_spec:
  assumes trk: "f \<in> fl_known fl \<longrightarrow> tracked f H s fl" and rng: "in_range f s fl" and d: "due rnd f tot now (s, fl) = (out, s', fl')"
  shows "sn_acked s' = sn_acked s \<and> sn_next s \<le> sn_next s' \<and> sn_next s' \<le> max (sn_next s) (min (sn_acked s + MAX_SPAN) tot) \<and>
    f \<in> fl_known fl' \<and> set out \<subseteq> {..<sn_next s'} \<and> in_range f s' fl' \<and> tracked f H s' fl'"
proof (rule due_stages [OF d])
  fix s2 fl2 lost fl3 fresh stop
  assume g: "given_up rnd f now s fl = (s2, fl2, lost)" and fl3: "fl3 = (case lost of Some t \<Rightarrow> on_loss rnd t now fl2 | None \<Rightarrow> fl2)"
    and out: "out = take (room fl3) (sort (sn_resend s2)) @ fresh" and fresh: "fresh = [sn_next s2..<stop]"
    and stop: "stop = max (sn_next s2) (min (min (sn_acked s2 + MAX_SPAN) tot) (sn_next s2 + (room fl3 - length (take (room fl3) (sort (sn_resend s2))))))"
    and s': "s' = s2\<lparr>sn_resend := drop (room fl3) (sort (sn_resend s2)), sn_next := stop\<rparr>"
    and fl': "fl' = fold (\<lambda>i. on_sent f i now False) fresh (fold (\<lambda>i. on_sent f i now True) (take (room fl3) (sort (sn_resend s2))) fl3)"
  note ad = adopted_spec [OF trk rng, of now]
  have m: "moves_lost f s (adopted f now s fl) s2 fl2" using tail_fold g unfolding given_up_def by blast
  have same: "parts_of f fl3 = parts_of f fl2" "fl_known fl3 = fl_known fl2" by (auto simp: fl3 split: option.split)
  have t2: "tracked f H s2 fl2" and r2: "in_range f s2 fl2" using moves_lost_kept [OF m] ad by auto
  have split: "set (take (room fl3) (sort (sn_resend s2))) \<union> set (drop (room fl3) (sort (sn_resend s2))) = set (sn_resend s2)"
    by (metis append_take_drop_id set_append set_sort)
  have le: "sn_next s2 \<le> stop" by (simp add: stop)
  have p': "parts_of f fl' = set out \<union> parts_of f fl2"
    by (auto simp: fl' out parts_of_fold_on_sent same)
  have "set out \<subseteq> {..<stop}" using r2 split le by (auto simp: out fresh in_range_def)
  moreover have "in_range f s' fl'" using r2 split le calculation unfolding in_range_def p' by (auto simp: s')
  moreover have "tracked f H s' fl'"
  proof (unfold tracked_def p', rule subsetI)
    fix x assume x: "x \<in> {sn_acked s'..<sn_next s'}"
    show "x \<in> H \<union> set (sn_resend s') \<union> (set out \<union> parts_of f fl2)"
    proof (cases "x < sn_next s2")
      case True
      then have "x \<in> H \<union> set (sn_resend s2) \<union> parts_of f fl2" using t2 x by (auto simp: tracked_def s')
      then show ?thesis using split by (auto simp: s' out)
    next
      case False
      then show ?thesis using x by (auto simp: s' out fresh)
    qed
  qed
  moreover have "f \<in> fl_known fl'" using m ad(3) same unfolding fl' by (intro known_fold_on_sent) (simp add: moves_lost_def)
  moreover have "stop \<le> max (sn_next s) (min (sn_acked s + MAX_SPAN) tot)" using m by (simp add: stop moves_lost_def)
  ultimately show ?thesis using m le by (simp add: s' moves_lost_def)
qed

section \<open>The sender's row\<close>

definition sending_of :: "FilePeer \<Rightarrow> Sending" where
  "sending_of p = \<lparr>sn_next = fp_next p, sn_acked = fp_acked p, sn_resend = fp_resend p\<rparr>"

text \<open>The row and the flow agree, \<open>H\<close> being the parts the receiver holds.\<close>

definition in_step :: "bytes \<Rightarrow> nat set \<Rightarrow> FilePeer \<Rightarrow> Flow \<Rightarrow> bool" where
  "in_step f H p fl \<longleftrightarrow> in_range f (sending_of p) fl \<and> (f \<in> fl_known fl \<longrightarrow> tracked f H (sending_of p) fl)"

lemma in_step_forget: "in_range f (sending_of p) fl \<Longrightarrow> in_step f H p (forget_file f fl)"
  by (auto simp: in_step_def in_range_def)

lemma in_step_mono: "in_step f H p fl \<Longrightarrow> H \<subseteq> H' \<Longrightarrow> in_step f H' p fl"
  by (auto simp: in_step_def tracked_def)

lemma rewind_step:
  assumes "rewind f (s, fl) = (s', fl')"
  shows "sn_acked s' = sn_acked s" "sn_next s' = sn_next s" "in_range f s' fl'" "f \<notin> fl_known fl'"
  using assms by (auto simp: rewind_def in_range_def)

lemma reserve_cases:
  assumes "reserve_update rnd f tot now heard p fl = (p', fl', b)"
  obtains (quiet) "p' = p" "fl' = fl" "fb_due b = []" "fp_failed p \<or> fp_acked p \<ge> tot"
  | (gave_up) "p' = p\<lparr>fp_failed := True\<rparr>" "fl' = forget_file f fl" "fb_due b = []" "fb_gave_up b"
  | (sent) s g out s' t where "(s, g) = (sending_of p, fl) \<or> (s, g) = rewind f (sending_of p, fl) \<and> fp_acked p < fp_next p"
      "due rnd f tot now (s, g) = (out, s', fl')"
      "p' = p\<lparr>fp_next := sn_next s', fp_resend := sn_resend s', fp_last_sent_at := t\<rparr>" "fb_due b = out"
proof (cases "fp_failed p \<or> fp_acked p \<ge> tot")
  case True
  with assms show thesis by (intro quiet) (auto simp: reserve_update_def empty_batch_def)
next
  case False
  let ?alive = "\<lambda>sent. case heard of None \<Rightarrow> False | Some h \<Rightarrow> h > sent"
  define G where "G = (case fp_last_sent_at p of None \<Rightarrow> False
    | Some sent \<Rightarrow> fp_last_ack_at p = None \<and> ?alive sent \<and> now - sent > 24 * 3600 * 1000)"
  define A where "A = (case fp_last_sent_at p of None \<Rightarrow> False
    | Some sent \<Rightarrow> fp_resend p = [] \<and> fp_next p > fp_acked p \<and> ?alive sent
        \<and> (case fp_last_ack_at p of None \<Rightarrow> True | Some h \<Rightarrow> h < sent) \<and> now - sent > 30 * 60 * 1000)"
  obtain s g where sg: "(if A then rewind f (sending_of p, fl) else (sending_of p, fl)) = (s, g)" by (metis surj_pair)
  obtain out s' g' where d: "due rnd f tot now (s, g) = (out, s', g')" by (metis prod_cases3)
  have e: "reserve_update rnd f tot now heard p fl =
      (if G then (p\<lparr>fp_failed := True\<rparr>, forget_file f fl, empty_batch\<lparr>fb_gave_up := True\<rparr>)
       else (p\<lparr>fp_next := sn_next s', fp_resend := sn_resend s', fp_last_sent_at := (if out \<noteq> [] then Some now else fp_last_sent_at p)\<rparr>,
             g', \<lparr>fb_due = out, fb_next_before = sn_next s, fb_gave_up = False\<rparr>))"
    using False sg d unfolding reserve_update_def Let_def sending_of_def G_def A_def Sending.simps by simp
  show thesis
  proof (cases G)
    case True
    with e assms show thesis by (intro gave_up) (auto simp: empty_batch_def)
  next
    case no: False
    have "(s, g) = (sending_of p, fl) \<or> (s, g) = rewind f (sending_of p, fl) \<and> fp_acked p < fp_next p"
      using sg by (auto simp: A_def split: if_splits option.splits)
    with e assms no d show thesis by (intro sent [of s g out s']) auto
  qed
qed

lemma reserve_spec:
  assumes st: "in_step f H p fl" and r: "reserve_update rnd f tot now heard p fl = (p', fl', b)"
  shows "fp_acked p' = fp_acked p \<and> fp_next p \<le> fp_next p' \<and> fp_next p' \<le> max (fp_next p) (min (fp_acked p + MAX_SPAN) tot) \<and>
    set (fb_due b) \<subseteq> {..<fp_next p'} \<and> in_step f H p' fl'"
proof -
  have quiet: ?thesis if "p' = p" "fl' = fl" "fb_due b = []" using that st by simp
  have gave: ?thesis if "p' = p\<lparr>fp_failed := True\<rparr>" "fl' = forget_file f fl" "fb_due b = []"
    using that st in_step_forget [of f p' fl H] by (simp add: in_step_def sending_of_def)
  have sends: ?thesis
    if s: "in_range f s g" "f \<in> fl_known g \<longrightarrow> tracked f H s g" "sn_acked s = fp_acked p" "sn_next s = fp_next p"
      and d: "due rnd f tot now (s, g) = (out, s', fl')"
      and p': "p' = p\<lparr>fp_next := sn_next s', fp_resend := sn_resend s', fp_last_sent_at := t\<rparr>" "fb_due b = out" for s g out s' t
  proof -
    note ds = due_spec [OF s(2,1) d]
    have "sending_of p' = s'" using ds s(3) by (cases s') (simp add: sending_of_def p'(1))
    then show ?thesis using ds s(3,4) p' by (simp add: in_step_def)
  qed
  let ?s = "sending_of p"
  have base: "in_range f ?s fl" "f \<in> fl_known fl \<longrightarrow> tracked f H ?s fl" "sn_acked ?s = fp_acked p" "sn_next ?s = fp_next p"
    using st by (simp_all add: in_step_def) (simp_all add: sending_of_def)
  from r show ?thesis
  proof (cases rule: reserve_cases)
    case (sent s g out s' t)
    from sent(1) show ?thesis
    proof
      assume "(s, g) = (?s, fl)"
      then have "s = ?s" "g = fl" by auto
      with base sent(2-4) show ?thesis by (intro sends [of s g]) (simp_all only:)
    next
      assume "(s, g) = rewind f (?s, fl) \<and> fp_acked p < fp_next p"
      then have "rewind f (?s, fl) = (s, g)" by simp
      note rw = rewind_step [OF this, unfolded base]
      show ?thesis by (rule sends [OF rw(3) _ rw(1,2) sent(2-4)]) (simp add: rw(4))
    qed
  qed (rule quiet gave; assumption)+
qed

lemma ack_spec:
  assumes a: "fa_file_id a = f" "\<forall>i. ack_held a i \<longrightarrow> i \<in> H" and st: "in_step f H p fl" and r: "ack_update rnd a tot now p fl = (p', fl', n)"
  shows "fp_acked p' = max (fp_acked p) (min (fa_received_up_to a) (fp_next p)) \<and> fp_next p' = fp_next p \<and> in_step f H p' fl'"
proof -
  obtain s' g where on: "on_ack rnd a now (sending_of p, fl) = (s', g)" by (metis surj_pair)
  have rng: "in_range f (sending_of p) fl" using st by (simp add: in_step_def)
  note os = on_ack_spec [OF a rng on]
  have p': "p' = p\<lparr>fp_acked := sn_acked s', fp_resend := sn_resend s', fp_last_ack_at := Some now\<rparr>"
    and fl': "fl' = (if sn_acked s' \<ge> tot then forget_file f g else g)"
    using r on a(1) by (auto simp: ack_update_def sending_of_def Let_def)
  have "sending_of p' = s'" using os by (cases s') (simp add: sending_of_def p')
  then have "in_step f H p' g" using os st by (simp add: in_step_def)
  then have "in_step f H p' fl'" using in_step_forget [of f p' g H] by (simp add: fl' in_step_def)
  then show ?thesis using os p' by (simp add: sending_of_def)
qed

lemma retry_spec:
  assumes st: "in_step f H p fl" and r: "retry_file_parts f is' (Some p) fl = (Some p', fl')"
  shows "fp_acked p' = fp_acked p \<and> fp_next p' = fp_next p \<and> in_step f H p' fl'"
proof -
  have e: "fp_acked p' = fp_acked p" "fp_next p' = fp_next p" "fl' = fold (unsent f) is' fl"
    "set (fp_resend p') = set (fp_resend p) \<union> {i \<in> set is'. fp_acked p \<le> i \<and> i < fp_next p}"
    using r by (auto simp: retry_file_parts_def mutate_file_peer_def retry_update_def Let_def)
  have "in_range f (sending_of p') fl'" using st e(2-4) by (auto simp: in_step_def in_range_def sending_of_def parts_of_fold_unsent)
  moreover have "tracked f H (sending_of p') fl'" if "f \<in> fl_known fl'"
    using st that e by (auto simp: in_step_def tracked_def sending_of_def parts_of_fold_unsent)
  ultimately show ?thesis using e(1,2) by (simp add: in_step_def)
qed

section \<open>The transfer\<close>

record Transfer =
  tr_peer :: FilePeer
  tr_flow :: Flow
  tr_received :: Received
  tr_parts :: "nat set"
  tr_acks :: "WireFileAck set"

text \<open>
  A step is a call of the sender or of the receiver, a letter that arrives (any that was ever sent, so
  letters may be lost, repeated and reordered), a restart of the sender, which keeps its row and
  loses its flow, or anything else that happens to the flow on behalf of other files.
\<close>

inductive transfer :: "(rat \<Rightarrow> rat) \<Rightarrow> bytes \<Rightarrow> nat \<Rightarrow> Transfer \<Rightarrow> bool" for rnd f tot where
  starts: "fp_next p = 0 \<Longrightarrow> fp_acked p = 0 \<Longrightarrow> fp_resend p = [] \<Longrightarrow> parts_of f fl = {} \<Longrightarrow>
    transfer rnd f tot \<lparr>tr_peer = p, tr_flow = fl, tr_received = new_received tot, tr_parts = {}, tr_acks = {}\<rparr>"
| reserve: "transfer rnd f tot T \<Longrightarrow>
    reserve_file_batch rnd f tot now heard (Some (tr_peer T)) (tr_flow T) = (Some p', fl', Some b) \<Longrightarrow>
    transfer rnd f tot (T\<lparr>tr_peer := p', tr_flow := fl', tr_parts := tr_parts T \<union> set (fb_due b)\<rparr>)"
| retry: "transfer rnd f tot T \<Longrightarrow> retry_file_parts f js (Some (tr_peer T)) (tr_flow T) = (Some p', fl') \<Longrightarrow>
    transfer rnd f tot (T\<lparr>tr_peer := p', tr_flow := fl'\<rparr>)"
| arrives: "transfer rnd f tot T \<Longrightarrow> i \<in> tr_parts T \<Longrightarrow>
    transfer rnd f tot (T\<lparr>tr_received := fst (mark (tr_received T) i)\<rparr>)"
| answers: "transfer rnd f tot T \<Longrightarrow>
    transfer rnd f tot (T\<lparr>tr_acks := insert ((ack (tr_received T) f)\<lparr>fa_echo_index := i, fa_echo_sent_at := t\<rparr>) (tr_acks T)\<rparr>)"
| resumes: "transfer rnd f tot T \<Longrightarrow> transfer rnd f tot (T\<lparr>tr_acks := insert (resume_ack (tr_received T) f) (tr_acks T)\<rparr>)"
| acked: "transfer rnd f tot T \<Longrightarrow> a \<in> tr_acks T \<Longrightarrow>
    acknowledge_file_parts rnd a tot now (Some (tr_peer T)) (tr_flow T) = (Some p', fl', res) \<Longrightarrow>
    transfer rnd f tot (T\<lparr>tr_peer := p', tr_flow := fl'\<rparr>)"
| fails: "transfer rnd f tot T \<Longrightarrow> transfer rnd f tot (T\<lparr>tr_peer := (tr_peer T)\<lparr>fp_failed := True\<rparr>, tr_flow := forget_file f (tr_flow T)\<rparr>)"
| restarts: "transfer rnd f tot T \<Longrightarrow> transfer rnd f tot (T\<lparr>tr_flow := default_flow\<rparr>)"
| others: "transfer rnd f tot T \<Longrightarrow> parts_of f fl' = parts_of f (tr_flow T) \<Longrightarrow> (f \<in> fl_known fl' \<longleftrightarrow> f \<in> fl_known (tr_flow T)) \<Longrightarrow>
    transfer rnd f tot (T\<lparr>tr_flow := fl'\<rparr>)"

definition transfer_inv :: "bytes \<Rightarrow> nat \<Rightarrow> Transfer \<Rightarrow> bool" where
  "transfer_inv f tot T \<longleftrightarrow>
     received_ok (tr_received T) \<and> rv_total (tr_received T) = tot \<and>
     fp_acked (tr_peer T) \<le> up_to (tr_received T) \<and> fp_acked (tr_peer T) \<le> fp_next (tr_peer T) \<and>
     fp_next (tr_peer T) \<le> tot \<and> fp_next (tr_peer T) \<le> fp_acked (tr_peer T) + MAX_SPAN \<and>
     tr_parts T \<subseteq> {..<fp_next (tr_peer T)} \<and> held (tr_received T) \<subseteq> {..<fp_next (tr_peer T)} \<and>
     (\<forall>a \<in> tr_acks T. fa_file_id a = f \<and> fa_received_up_to a \<le> up_to (tr_received T) \<and> (\<forall>i. ack_held a i \<longrightarrow> i \<in> held (tr_received T))) \<and>
     in_step f (held (tr_received T)) (tr_peer T) (tr_flow T)"

lemma ack_held_cong:
  "ack_held (a\<lparr>fa_echo_index := i, fa_echo_sent_at := t\<rparr>) k \<longleftrightarrow> ack_held a k" "fa_received_up_to (ack r f) = up_to r" "fa_file_id (ack r f) = f"
  by (simp_all add: ack_held_def ack_def)

text \<open>No part is held further ahead than an acknowledgement can tell.\<close>

lemma inv_near:
  assumes "transfer_inv f tot T"
  shows "ack_held (ack (tr_received T) f) i \<longleftrightarrow> i \<in> held (tr_received T)"
proof (rule ack_exact, rule ballI)
  fix j assume "j \<in> held (tr_received T)"
  then have "j < fp_next (tr_peer T)" using assms by (auto simp: transfer_inv_def)
  then show "j \<le> up_to (tr_received T) + MAX_MISSING" using assms by (simp add: transfer_inv_def MAX_SPAN_def WINDOW_def MAX_MISSING_def)
qed

lemma mark_mono:
  assumes "received_ok r"
  shows "held r \<subseteq> held (fst (mark r i))" "up_to r \<le> up_to (fst (mark r i))"
  using rv.mark_grows [OF assms] rv.first_hole_mono [OF assms received_ok_mark [OF assms]] by auto

lemma inv_arrives:
  assumes inv: "transfer_inv f tot T" and i: "i \<in> tr_parts T"
  shows "transfer_inv f tot (T\<lparr>tr_received := fst (mark (tr_received T) i)\<rparr>)"
proof -
  have ok: "received_ok (tr_received T)" using inv by (simp add: transfer_inv_def)
  have "i < fp_next (tr_peer T)" using inv i by (auto simp: transfer_inv_def)
  then show ?thesis
    using inv mark_mono [OF ok, of i] received_ok_mark [OF ok, of i] held_mark [OF ok, of i]
      in_step_mono [OF _ mark_mono(1) [OF ok, of i], of f "tr_peer T" "tr_flow T"]
    by (auto simp: transfer_inv_def split: if_splits)
qed

lemma inv_acked:
  assumes inv: "transfer_inv f tot T" and a: "a \<in> tr_acks T"
    and r: "acknowledge_file_parts rnd a tot now (Some (tr_peer T)) (tr_flow T) = (Some p', fl', res)"
  shows "transfer_inv f tot (T\<lparr>tr_peer := p', tr_flow := fl'\<rparr>)"
proof (cases "ack_acceptable tot a")
  case True
  have st: "in_step f (held (tr_received T)) (tr_peer T) (tr_flow T)" and fa: "fa_file_id a = f" "fa_received_up_to a \<le> up_to (tr_received T)"
    "\<forall>i. ack_held a i \<longrightarrow> i \<in> held (tr_received T)" using inv a by (auto simp: transfer_inv_def)
  obtain n where u: "ack_update rnd a tot now (tr_peer T) (tr_flow T) = (p', fl', n)"
    using r True by (auto simp: acknowledge_file_parts_def mutate_file_peer_def split: prod.splits)
  from ack_spec [OF fa(1,3) st u] inv fa(2) show ?thesis by (auto simp: transfer_inv_def)
next
  case False
  with r inv show ?thesis by (auto simp: acknowledge_file_parts_def)
qed

lemma transfer_invariant: "transfer rnd f tot T \<Longrightarrow> transfer_inv f tot T"
proof (induction rule: transfer.induct)
  case (starts p fl)
  have "in_step f {} p fl" using starts by (auto simp: in_step_def in_range_def tracked_def sending_of_def)
  then show ?case using starts received_ok_new [of tot] by (simp add: transfer_inv_def)
next
  case (reserve T now heard p' fl' b)
  have st: "in_step f (held (tr_received T)) (tr_peer T) (tr_flow T)" using reserve by (simp add: transfer_inv_def)
  have u: "reserve_update rnd f tot now heard (tr_peer T) (tr_flow T) = (p', fl', b)"
    using reserve by (auto simp: reserve_file_batch_def mutate_file_peer_def split: prod.splits)
  from reserve_spec [OF st u] reserve(3) show ?case by (auto simp: transfer_inv_def)
next
  case (retry T js p' fl')
  have st: "in_step f (held (tr_received T)) (tr_peer T) (tr_flow T)" using retry by (simp add: transfer_inv_def)
  from retry_spec [OF st retry(2)] retry(3) show ?case by (auto simp: transfer_inv_def)
next
  case (arrives T i)
  then show ?case using inv_arrives by blast
next
  case (answers T i t)
  then show ?case using inv_near [OF answers(2)] by (simp add: transfer_inv_def ack_held_cong)
next
  case (resumes T)
  have "fa_file_id (resume_ack (tr_received T) f) = f" "fa_received_up_to (resume_ack (tr_received T) f) = up_to (tr_received T)"
    by (simp_all add: resume_ack_def ack_def)
  then show ?case using resumes inv_near [OF resumes(2)] by (simp add: transfer_inv_def resume_ack_held)
next
  case (acked T a now p' fl' res)
  then show ?case using inv_acked by blast
next
  case (fails T)
  have "in_step f (held (tr_received T)) ((tr_peer T)\<lparr>fp_failed := True\<rparr>) (forget_file f (tr_flow T))"
    using fails in_step_forget by (simp add: transfer_inv_def in_step_def sending_of_def)
  with fails show ?case by (simp add: transfer_inv_def)
next
  case (restarts T)
  then show ?case by (auto simp: transfer_inv_def in_step_def in_range_def parts_of_def default_flow_def)
next
  case (others T fl')
  then show ?case by (auto simp: transfer_inv_def in_step_def in_range_def tracked_def)
qed

lemma ack_is_acceptable: "ack_acceptable (rv_total r) (ack r f)"
proof (cases "find (has r) (rev [0..<rv_total r])")
  case None
  then have "\<not> has r i" for i by (auto simp: find_None_iff has_def)
  then have "up_to r = 0" using up_to_prefix [of 0 r] by (meson gr0I)
  then show ?thesis by (simp add: ack_acceptable_def ack_def missing_def None)
next
  case (Some l)
  note l = find_rev_Some [OF Some]
  have "up_to r \<le> Suc l"
  proof (rule ccontr)
    assume "\<not> ?thesis"
    then have "has r (Suc l)" by (intro up_to_prefix) simp
    with l(3) [of "Suc l"] show False by (simp add: has_def)
  qed
  moreover have "Suc l \<le> rv_total r" using l(2) by simp
  ultimately show ?thesis by (auto simp: ack_acceptable_def ack_def missing_def Some MAX_MISSING_def dest!: in_set_takeD)
qed

lemma inv_low: "transfer_inv f tot T \<Longrightarrow> {..<fp_acked (tr_peer T)} \<subseteq> held (tr_received T)"
  using rv.hole_prefix [of "tr_received T"] by (auto simp: transfer_inv_def)

text \<open>
  C3. The sender never believes a part to be there that is not. In every reachable state of a
  transfer, over a network that loses, repeats and reorders letters, with restarts and failed
  sends: the parts below the sender's mark are held by the receiver, so a file the sender is done
  with is complete at the other end; an acknowledgement the receiver would send is accepted, and
  says of every part whether it is held, although it names at most 64 holes, because the sender
  never runs further ahead than that.
\<close>

theorem transfer_sound:
  assumes "transfer rnd f tot T"
  shows "{..<fp_acked (tr_peer T)} \<subseteq> held (tr_received T) \<and>
    (sending_done tot (sending_of (tr_peer T)) \<longrightarrow> received_complete (tr_received T)) \<and>
    ack_acceptable tot (ack (tr_received T) f) \<and>
    (\<forall>i. ack_held (ack (tr_received T) f) i \<longleftrightarrow> i \<in> held (tr_received T)) \<and>
    fp_next (tr_peer T) \<le> fp_acked (tr_peer T) + MAX_SPAN"
proof -
  let ?r = "tr_received T"
  have inv: "transfer_inv f tot T" by (rule transfer_invariant [OF assms])
  then have ok: "received_ok ?r" "rv_total ?r = tot" "fp_acked (tr_peer T) \<le> up_to ?r" by (auto simp: transfer_inv_def)
  note low = inv_low [OF inv]
  have "received_complete ?r" if "sending_done tot (sending_of (tr_peer T))"
    using that low held_below [of ?r] complete_iff [OF ok(1)] ok(2)
    by (auto simp: sending_done_def sending_of_def)
  then show ?thesis using low inv_near [OF inv] inv ack_is_acceptable [of ?r f] ok(2) by (auto simp: transfer_inv_def)
qed

section \<open>Nothing is forgotten\<close>

lemma overdue_all:
  assumes "\<forall>x \<in> set (fl_sent fl). fst (fst x) = f \<longrightarrow> now - fst (snd x) \<ge> RTO_MAX_MS"
  shows "set (overdue_parts rnd f now fl) = parts_of f fl"
  using assms rto_bounds(2) [of rnd fl] by (force simp: overdue_parts_def parts_of_def)

text \<open>The parts of other files to the same recipient that are in flight.\<close>

definition others_in_flight :: "bytes \<Rightarrow> Flow \<Rightarrow> nat" where
  "others_in_flight f fl = length (filter (\<lambda>x. fst (fst x) \<noteq> f) (fl_sent fl))"

lemma only_others: "parts_of f fl = {} \<Longrightarrow> others_in_flight f fl = in_flight fl"
proof -
  assume "parts_of f fl = {}"
  then have "\<forall>x \<in> set (fl_sent fl). fst (fst x) \<noteq> f" by (force simp: parts_of_def)
  then have "filter (\<lambda>x. fst (fst x) \<noteq> f) (fl_sent fl) = fl_sent fl" by (simp add: filter_id_conv)
  then show ?thesis by (simp add: others_in_flight_def in_flight_def)
qed

lemma due_progress:
  assumes old: "\<forall>x \<in> set (fl_sent (adopted f now s fl)). fst (fst x) = f \<longrightarrow> now - fst (snd x) \<ge> RTO_MAX_MS"
    and trk: "tracked f H s (adopted f now s fl)" and d: "due rnd f tot now (s, fl) = ([], s', fl')"
  shows "{sn_acked s..<sn_next s} \<subseteq> H \<or> window fl' \<le> others_in_flight f fl'"
proof (rule due_stages [OF d])
  fix s2 fl2 lost fl3 fresh stop
  assume g: "given_up rnd f now s fl = (s2, fl2, lost)" and fl3: "fl3 = (case lost of Some t \<Rightarrow> on_loss rnd t now fl2 | None \<Rightarrow> fl2)"
    and out: "[] = take (room fl3) (sort (sn_resend s2)) @ fresh"
    and fl': "fl' = fold (\<lambda>i. on_sent f i now False) fresh (fold (\<lambda>i. on_sent f i now True) (take (room fl3) (sort (sn_resend s2))) fl3)"
  let ?a = "adopted f now s fl"
  have run: "fold (tail_part f) (overdue_parts rnd f now ?a) (s, ?a, None) = (s2, fl2, lost)" using g by (simp add: given_up_def)
  have t: "moves_lost f s ?a s2 fl2" "parts_of f fl2 = {}" using tail_fold [OF run] overdue_all [OF old, of rnd] by auto
  have e: "fresh = []" "take (room fl3) (sort (sn_resend s2)) = []" using out by simp_all
  have "fl' = fl3" unfolding fl' e by simp
  moreover have "parts_of f fl3 = {}" using t(2) by (simp add: fl3 parts_of_def split: option.split)
  ultimately have others: "others_in_flight f fl' = in_flight fl3" "window fl' = window fl3" using only_others by simp_all
  show ?thesis
  proof (cases "room fl3 = 0")
    case True
    then show ?thesis using others by (simp add: room_def)
  next
    case False
    then have "sn_resend s2 = []" using e(2) by (metis length_0_conv length_sort take_eq_Nil)
    then show ?thesis using moves_lost_kept(1) [OF t(1) trk] t(1,2) by (simp add: tracked_def moves_lost_def)
  qed
qed

lemma below_split: "{..<a} \<subseteq> X \<Longrightarrow> {a..<b} \<subseteq> X \<Longrightarrow> {..<b} \<subseteq> X" for a b :: nat
proof
  fix x assume "{..<a} \<subseteq> X" "{a..<b} \<subseteq> X" "x \<in> {..<b}"
  then show "x \<in> X" by (cases "x < a") auto
qed

lemma adopted_known: "f \<in> fl_known fl \<Longrightarrow> adopted f now s fl = fl"
  by (simp add: adopted_def adopt_def)

lemma adopted_rewound:
  assumes "rewind f (s, fl) = (s', g)"
  shows "tracked f H s' (adopted f now s' g) \<and> sn_acked s' = sn_acked s \<and> sn_next s' = sn_next s \<and>
    (\<forall>x \<in> set (fl_sent (adopted f now s' g)). fst (fst x) \<noteq> f)"
proof -
  have e: "s' = s\<lparr>sn_resend := [sn_acked s..<sn_next s]\<rparr>" "g = forget_file f fl" using assms by (auto simp: rewind_def)
  have "fl_sent (adopted f now s' g) = fl_sent g"
    by (auto simp: adopted_def adopt_def e filter_empty_conv)
  moreover have "\<forall>x \<in> set (fl_sent g). fst (fst x) \<noteq> f" by (auto simp: e forget_file_def)
  ultimately show ?thesis by (auto simp: e tracked_def)
qed

text \<open>
  C20. No part is forgotten. In every reachable state of a transfer whose file the flow knows, each
  part that was sent and is not at the receiver is either in flight or noted for sending again. So
  once every part of the file that is in flight has timed out, the next round either sends something,
  or gives the recipient up, or every part sent so far has arrived, or other files sent to the same
  recipient take up the whole window.
\<close>

theorem transfer_nothing_forgotten:
  assumes "transfer rnd f tot T" and "f \<in> fl_known (tr_flow T)"
  shows "{..<fp_next (tr_peer T)} \<subseteq> held (tr_received T) \<union> set (fp_resend (tr_peer T)) \<union> parts_of f (tr_flow T) \<and>
    ((\<forall>x \<in> set (fl_sent (tr_flow T)). fst (fst x) = f \<longrightarrow> now - fst (snd x) \<ge> RTO_MAX_MS) \<and> \<not> fp_failed (tr_peer T) \<and>
     fp_acked (tr_peer T) < tot \<longrightarrow>
       (case reserve_file_batch rnd f tot now heard (Some (tr_peer T)) (tr_flow T) of
          (_, fl', Some b) \<Rightarrow> fb_due b \<noteq> [] \<or> fb_gave_up b \<or> {..<fp_next (tr_peer T)} \<subseteq> held (tr_received T) \<or>
            window fl' \<le> others_in_flight f fl'
        | _ \<Rightarrow> False))"
proof -
  let ?p = "tr_peer T" and ?fl = "tr_flow T" and ?H = "held (tr_received T)"
  have inv: "transfer_inv f tot T" by (rule transfer_invariant [OF assms(1)])
  then have trk: "tracked f ?H (sending_of ?p) ?fl" and low: "{..<fp_acked ?p} \<subseteq> ?H"
    using assms(2) inv_low [OF inv] by (auto simp: transfer_inv_def in_step_def)
  have all: "{..<fp_next ?p} \<subseteq> ?H" if "{fp_acked ?p..<fp_next ?p} \<subseteq> ?H"
    using below_split [OF low that] .
  have "{..<fp_next ?p} \<subseteq> ?H \<union> set (fp_resend ?p) \<union> parts_of f ?fl"
  proof (rule below_split [of "fp_acked ?p"])
    show "{..<fp_acked ?p} \<subseteq> ?H \<union> set (fp_resend ?p) \<union> parts_of f ?fl" using low by blast
    show "{fp_acked ?p..<fp_next ?p} \<subseteq> ?H \<union> set (fp_resend ?p) \<union> parts_of f ?fl"
      using trk by (simp only: tracked_def sending_of_def Sending.simps)
  qed
  moreover have "fb_due b \<noteq> [] \<or> fb_gave_up b \<or> {..<fp_next ?p} \<subseteq> ?H \<or> window fl' \<le> others_in_flight f fl'"
    if old: "\<forall>x \<in> set (fl_sent ?fl). fst (fst x) = f \<longrightarrow> now - fst (snd x) \<ge> RTO_MAX_MS" and act: "\<not> fp_failed ?p" "fp_acked ?p < tot"
      and r: "reserve_update rnd f tot now heard ?p ?fl = (p', fl', b)" for p' fl' b
    using r
  proof (cases rule: reserve_cases)
    case (sent s g out s' t)
    have "(s, g) = (sending_of ?p, ?fl) \<or> rewind f (sending_of ?p, ?fl) = (s, g)" using sent(1) by auto
    then have "tracked f ?H s (adopted f now s g) \<and> sn_acked s = fp_acked ?p \<and> sn_next s = fp_next ?p \<and>
      (\<forall>x \<in> set (fl_sent (adopted f now s g)). fst (fst x) = f \<longrightarrow> now - fst (snd x) \<ge> RTO_MAX_MS)"
      using adopted_known [OF assms(2)] adopted_rewound [of f "sending_of ?p" ?fl s g ?H now] trk old by (auto simp: sending_of_def)
    then show ?thesis using due_progress [of f now s g ?H rnd tot s' fl'] sent(2,4) all by (cases "out = []") auto
  qed (use act in auto)
  ultimately show ?thesis
    by (auto simp: reserve_file_batch_def mutate_file_peer_def split: prod.splits)
qed

section \<open>A file of one part\<close>

definition sample_peer :: FilePeer where
  "sample_peer = \<lparr>fp_file_id = [1], fp_contact_id = 2, fp_next = 0, fp_acked = 0, fp_resend = [], fp_last_sent_at = None, fp_last_ack_at = None, fp_failed = False\<rparr>"

definition sample_start :: Transfer where
  "sample_start = \<lparr>tr_peer = sample_peer, tr_flow = default_flow, tr_received = new_received 1, tr_parts = {}, tr_acks = {}\<rparr>"

lemma sample_starts: "transfer rnd [1] 1 sample_start"
  unfolding sample_start_def by (rule transfer.starts) (simp_all add: sample_peer_def parts_of_def default_flow_def)

lemma sample_reserve:
  obtains p' fl' b where "reserve_file_batch (\<lambda>x. x) [1] 1 0 None (Some (tr_peer sample_start)) (tr_flow sample_start) = (Some p', fl', Some b)"
    and "fb_due b = [0]" and "[1] \<in> fl_known fl'" and "fp_next p' = 1" and "fp_acked p' = 0" and "\<not> fp_failed p'"
    and "fl_sent fl' = [(([1], 0), (0, False))]"
proof -
  have w: "window default_flow = 4" by (simp add: window_def default_flow_def FLOW_START_def as_u32_def trunc_rat_def WINDOW_def)
  have u: "[0..<Suc 0] = [0]" by simp
  have "due (\<lambda>x. x) [1] 1 0 (sending_of sample_peer, default_flow) =
      ([0], \<lparr>sn_next = 1, sn_acked = 0, sn_resend = []\<rparr>, on_sent [1] 0 0 False (adopt [1] [] 0 default_flow))"
    by (simp add: due_def Let_def sending_of_def sample_peer_def overdue_parts_def adopt_def room_def in_flight_def w u MAX_SPAN_def WINDOW_def
        default_flow_def [THEN arg_cong [of _ _ fl_sent]] default_flow_def [THEN arg_cong [of _ _ fl_known]] window_def [symmetric])
       (simp add: window_def default_flow_def FLOW_START_def as_u32_def trunc_rat_def WINDOW_def)
  then show thesis
    by (intro that) (auto simp: reserve_file_batch_def mutate_file_peer_def reserve_update_def sample_start_def Let_def sample_peer_def sending_of_def
        on_sent_def adopt_def default_flow_def)
qed

theorem transfer_sound_witness:
  "\<exists>T. transfer (\<lambda>x. x) [1] 1 T \<and> 0 \<in> held (tr_received T) \<and> ack_held (ack (tr_received T) [1]) 0 \<and> ack_acceptable 1 (ack (tr_received T) [1])"
proof (rule sample_reserve)
  fix p' fl' b
  assume r: "reserve_file_batch (\<lambda>x. x) [1] 1 0 None (Some (tr_peer sample_start)) (tr_flow sample_start) = (Some p', fl', Some b)"
    and b: "fb_due b = [0]"
  let ?T = "sample_start\<lparr>tr_peer := p', tr_flow := fl', tr_parts := tr_parts sample_start \<union> set (fb_due b)\<rparr>"
  let ?U = "?T\<lparr>tr_received := fst (mark (tr_received ?T) 0)\<rparr>"
  have t: "transfer (\<lambda>x. x) [1] 1 ?U"
    by (rule transfer.arrives [OF transfer.reserve [OF sample_starts r]]) (simp add: b)
  have "0 \<in> held (tr_received ?U)"
    using held_mark [OF received_ok_new(1), of 1 0] by (simp add: sample_start_def)
  with transfer_sound [OF t] t show ?thesis by blast
qed

text \<open>The first part is lost: two minutes and more later something happens.\<close>

theorem transfer_nothing_forgotten_witness:
  "\<exists>T. transfer (\<lambda>x. x) [1] 1 T \<and> fp_next (tr_peer T) = 1 \<and>
     {..<1} \<subseteq> held (tr_received T) \<union> set (fp_resend (tr_peer T)) \<union> parts_of [1] (tr_flow T) \<and>
     (case reserve_file_batch (\<lambda>x. x) [1] 1 200000 None (Some (tr_peer T)) (tr_flow T) of
        (_, fl', Some b) \<Rightarrow> fb_due b \<noteq> [] \<or> fb_gave_up b \<or> {..<1} \<subseteq> held (tr_received T) \<or> window fl' \<le> others_in_flight [1] fl'
      | _ \<Rightarrow> False)"
proof (rule sample_reserve)
  fix p' fl' b
  assume r: "reserve_file_batch (\<lambda>x. x) [1] 1 0 None (Some (tr_peer sample_start)) (tr_flow sample_start) = (Some p', fl', Some b)"
    and k: "[1] \<in> fl_known fl'" and n: "fp_next p' = 1" "fp_acked p' = 0" "\<not> fp_failed p'" "fl_sent fl' = [(([1], 0), (0, False))]"
  let ?T = "sample_start\<lparr>tr_peer := p', tr_flow := fl', tr_parts := tr_parts sample_start \<union> set (fb_due b)\<rparr>"
  have t: "transfer (\<lambda>x. x) [1] 1 ?T" by (rule transfer.reserve [OF sample_starts r])
  have T: "[1] \<in> fl_known (tr_flow ?T)" "fp_next (tr_peer ?T) = 1" "fp_acked (tr_peer ?T) < 1" "\<not> fp_failed (tr_peer ?T)"
    "\<forall>x \<in> set (fl_sent (tr_flow ?T)). fst (fst x) = [1] \<longrightarrow> 200000 - fst (snd x) \<ge> RTO_MAX_MS"
    using k n by (simp_all add: RTO_MAX_MS_def)
  note c = transfer_nothing_forgotten [OF t T(1), where now = 200000 and heard = None, unfolded T(2)]
  show ?thesis
    by (rule exI [of _ ?T], intro conjI) (fact t T(2) conjunct1 [OF c] mp [OF conjunct2 [OF c] conjI [OF T(5) conjI [OF T(4,3)]]])+
qed

end
