(* ===== verification/Dht_Sql.thy ===== *)
theory Dht_Sql
  imports Dht_Store
begin

text \<open>
  The two database backends of the trait \<open>Storage\<close>: \<open>DbStorage\<close> of the app
  (\<open>libcore/src/dht_client.rs\<close>, whose statements are in \<open>libcore/src/db.rs\<close>) and
  \<open>SqliteStorage\<close> of the standalone relay (\<open>core/relay/src/dht_store.rs\<close>). A table is its
  rows and the last id \<open>AUTOINCREMENT\<close> gave out; a statement is the list function its SQL
  denotes. SQL integers are \<open>int\<close>; a \<open>u64\<close> or \<open>usize\<close> bound as \<open>i64\<close> is reinterpreted as
  Rust's \<open>as\<close> does it. The engine runs every statement but, where the argument \<open>engine\<close> says
  so, the one whose failure the code reports; a failed transaction leaves the table as it was.
\<close>

definition as_i64 :: "nat \<Rightarrow> int" where
  "as_i64 n = sint (of_nat n :: u64)"

record DhtRow =
  row_id :: int
  row_key :: bytes
  row_value :: bytes
  row_hash :: bytes
  row_delete :: "bytes option"
  row_expires :: int

record DhtTable =
  rows :: "DhtRow list"
  last_rowid :: int

definition empty_table :: DhtTable where
  "empty_table = \<lparr>rows = [], last_rowid = 0\<rparr>"

section \<open>The statements\<close>

abbreviation under_key :: "bytes \<Rightarrow> DhtRow list \<Rightarrow> DhtRow list" where
  "under_key k rs \<equiv> filter (\<lambda>r. row_key r = k) rs"

abbreviation count_rows :: "DhtRow list \<Rightarrow> int" where
  "count_rows rs \<equiv> int (length rs)"

abbreviation sum_length :: "DhtRow list \<Rightarrow> int" where
  "sum_length rs \<equiv> sum_list (map (\<lambda>r. int (length (row_value r))) rs)"

abbreviation order_by_id :: "DhtRow list \<Rightarrow> DhtRow list" where
  "order_by_id rs \<equiv> sort_key row_id rs"

definition min_id :: "DhtRow list \<Rightarrow> int option" where
  "min_id rs = (if rs = [] then None else Some (Min (row_id ` set rs)))"

definition delete_id :: "int option \<Rightarrow> DhtRow list \<Rightarrow> DhtRow list" where
  "delete_id i rs = filter (\<lambda>r. Some (row_id r) \<noteq> i) rs"

definition insert_row :: "crypto \<Rightarrow> StoredItem \<Rightarrow> DhtTable \<Rightarrow> DhtTable" where
  "insert_row C item t =
     t\<lparr>rows := rows t @ [\<lparr>row_id = last_rowid t + 1, row_key = item_key item, row_value = item_value item,
         row_hash = sha256 C [item_value item], row_delete = item_delete_hash item,
         row_expires = sint (item_expires_at_ms item)\<rparr>],
       last_rowid := last_rowid t + 1\<rparr>"

lemma min_id_mem: "rs \<noteq> [] \<Longrightarrow> \<exists>r \<in> set rs. min_id rs = Some (row_id r)"
  using Min_in [of "row_id ` set rs"] by (auto simp: min_id_def image_iff)

lemma delete_id_shrinks:
  assumes "set qs \<subseteq> set rs" and "qs \<noteq> []"
  shows "length (delete_id (min_id qs) rs) < length rs"
  using min_id_mem [OF assms(2)] assms(1) by (auto simp: delete_id_def intro: length_filter_less)

section \<open>\<open>DbStorage\<close>\<close>

text \<open>The two eviction loops of \<open>dht_item_put\<close>; each turn reads the table again.\<close>

function evict_key_rows :: "StoreLimits \<Rightarrow> int \<Rightarrow> bytes \<Rightarrow> DhtRow list \<Rightarrow> DhtRow list" where
  "evict_key_rows lim len k rs =
     (let n = count_rows (under_key k rs); held_bytes = sum_length (under_key k rs) in
      if n = 0 \<or> n < as_i64 (max_items_per_key lim) \<and> held_bytes + len \<le> as_i64 (max_bytes_per_key lim) then rs
      else evict_key_rows lim len k (delete_id (min_id (under_key k rs)) rs))"
  by pat_completeness auto
termination
  by (relation "measure (\<lambda>(lim, len, k, rs). length rs)") (auto intro: delete_id_shrinks)

function evict_rows :: "StoreLimits \<Rightarrow> int \<Rightarrow> DhtRow list \<Rightarrow> DhtRow list" where
  "evict_rows lim len rs =
     (if sum_length rs = 0 \<or> sum_length rs + len \<le> as_i64 (max_total_bytes lim) then rs
      else evict_rows lim len (delete_id (min_id rs) rs))"
  by pat_completeness auto
termination
  by (relation "measure (\<lambda>(lim, len, rs). length rs)") (auto intro!: delete_id_shrinks)

declare evict_key_rows.simps [simp del] evict_rows.simps [simp del]

definition dht_item_put :: "crypto \<Rightarrow> StoreLimits \<Rightarrow> StoredItem \<Rightarrow> DhtTable \<Rightarrow> DhtTable" where
  "dht_item_put C lim item t =
     (let hash = sha256 C [item_value item]; len = as_i64 (item_len item) in
      if count_rows (filter (\<lambda>r. row_key r = item_key item \<and> row_hash r = hash) (rows t)) > 0 then t
      else insert_row C item (t\<lparr>rows := evict_rows lim len (evict_key_rows lim len (item_key item) (rows t))\<rparr>))"

definition to_32 :: "bytes \<Rightarrow> bytes option" where
  "to_32 b = (if length b = 32 then Some b else None)"

definition dht_row :: "DhtRow \<Rightarrow> StoredItem option" where
  "dht_row r =
     (case to_32 (row_key r) of
        None \<Rightarrow> None
      | Some key \<Rightarrow> Some \<lparr>item_key = key, item_value = row_value r,
          item_delete_hash = Option.bind (row_delete r) to_32,
          item_expires_at_ms = word_of_int (max (row_expires r) 0)\<rparr>)"

definition dht_items_get :: "DhtTable \<Rightarrow> bytes \<Rightarrow> int \<Rightarrow> StoredItem list" where
  "dht_items_get t key now =
     List.map_filter dht_row (order_by_id (filter (\<lambda>r. row_key r = key \<and> row_expires r > now) (rows t)))"

definition dht_items_all :: "DhtTable \<Rightarrow> int \<Rightarrow> StoredItem list" where
  "dht_items_all t now = List.map_filter dht_row (order_by_id (filter (\<lambda>r. row_expires r > now) (rows t)))"

definition dht_item_delete :: "DhtTable \<Rightarrow> bytes \<Rightarrow> bytes \<Rightarrow> DhtTable \<times> nat" where
  "dht_item_delete t key dh =
     (let gone = (\<lambda>r. row_key r = key \<and> row_delete r = Some dh) in
      (t\<lparr>rows := filter (\<lambda>r. \<not> gone r) (rows t)\<rparr>, length (filter gone (rows t))))"

definition dht_items_gc :: "DhtTable \<Rightarrow> int \<Rightarrow> DhtTable" where
  "dht_items_gc t now = t\<lparr>rows := filter (\<lambda>r. \<not> row_expires r \<le> now) (rows t)\<rparr>"

definition dht_items_stats :: "DhtTable \<Rightarrow> nat \<times> nat" where
  "dht_items_stats t = (nat (count_rows (rows t)), nat (sum_length (rows t)))"

definition db_put ::
  "crypto \<Rightarrow> StoreLimits \<Rightarrow> string option \<Rightarrow> DhtTable \<Rightarrow> StoredItem \<Rightarrow> u64 \<Rightarrow> StoreError + DhtTable" where
  "db_put C lim engine t item0 now_ms =
     (case admit item0 lim now_ms of
        Inl e \<Rightarrow> Inl e
      | Inr item \<Rightarrow> (case engine of Some e \<Rightarrow> Inl (Backend e) | None \<Rightarrow> Inr (dht_item_put C lim item t)))"

definition db_get :: "DhtTable \<Rightarrow> DhtKey \<Rightarrow> u64 \<Rightarrow> StoredItem list" where
  "db_get t key now_ms = dht_items_get t key (sint now_ms)"

definition db_delete :: "crypto \<Rightarrow> DhtTable \<Rightarrow> DhtKey \<Rightarrow> bytes \<Rightarrow> DhtTable \<times> nat" where
  "db_delete C t key token = dht_item_delete t key (delete_hash C token)"

definition db_gc :: "DhtTable \<Rightarrow> u64 \<Rightarrow> DhtTable" where
  "db_gc t now_ms = dht_items_gc t (sint now_ms)"

definition db_all :: "DhtTable \<Rightarrow> u64 \<Rightarrow> StoredItem list" where
  "db_all t now_ms = dht_items_all t (sint now_ms)"

definition db_stats :: "DhtTable \<Rightarrow> StoreStats" where
  "db_stats t = (case dht_items_stats t of (n, b) \<Rightarrow> \<lparr>st_items = n, st_bytes = b\<rparr>)"

definition db_storage :: "crypto \<Rightarrow> StoreLimits \<Rightarrow> DhtTable storage" where
  "db_storage C lim = \<lparr>s_put = db_put C lim None, s_get = db_get, s_delete = db_delete C,
     s_gc = db_gc, s_all = db_all, s_stats = db_stats\<rparr>"

section \<open>\<open>SqliteStorage\<close>\<close>

text \<open>The loop drops the oldest row until what it dropped covers what is over the budget.\<close>

function drop_oldest :: "int \<Rightarrow> DhtRow list \<Rightarrow> DhtRow list" where
  "drop_oldest remaining rs =
     (if remaining > 0 then
        (case order_by_id rs of
           [] \<Rightarrow> rs
         | r # _ \<Rightarrow> drop_oldest (remaining - int (length (row_value r))) (delete_id (Some (row_id r)) rs))
      else rs)"
  by pat_completeness auto

lemma order_by_id_hd: "order_by_id rs = r # qs \<Longrightarrow> r \<in> set rs"
  using set_sort [of row_id rs] by auto

termination drop_oldest
  by (relation "measure (\<lambda>(n, rs). length rs)")
     (auto simp: delete_id_def dest!: order_by_id_hd intro: length_filter_less)

declare drop_oldest.simps [simp del]

definition sqlite_put ::
  "crypto \<Rightarrow> StoreLimits \<Rightarrow> string option \<Rightarrow> DhtTable \<Rightarrow> StoredItem \<Rightarrow> u64 \<Rightarrow> (StoreError + unit) \<times> DhtTable" where
  "sqlite_put C lim engine t item0 now_ms =
     (case admit item0 lim now_ms of
        Inl e \<Rightarrow> (Inl e, t)
      | Inr item \<Rightarrow>
          if item_len item > MAX_VALUE_BYTES then (Inl TooLarge, t)
          else
            (let value_hash = sha256 C [item_value item];
                 k = item_key item
             in if count_rows (filter (\<lambda>r. row_key r = k \<and> row_hash r = value_hash) (rows t)) > 0 then (Inr (), t)
                else
                  (let key_count = count_rows (under_key k (rows t));
                       max_n = as_i64 (max_items_per_key lim);
                       rs1 = (if key_count \<ge> max_n
                              then (let gone = row_id ` set (take (nat (key_count - max_n + 1)) (order_by_id (under_key k (rows t))))
                                    in filter (\<lambda>r. row_id r \<notin> gone) (rows t))
                              else rows t);
                       total_bytes = sum_length rs1;
                       budget = as_i64 (max_total_bytes lim);
                       len = as_i64 (item_len item);
                       rs2 = (if total_bytes + len > budget then drop_oldest (total_bytes + len - budget) rs1 else rs1)
                   in case engine of
                        Some e \<Rightarrow> (Inl (Backend e), t\<lparr>rows := rs2\<rparr>)
                      | None \<Rightarrow> (Inr (), insert_row C item (t\<lparr>rows := rs2\<rparr>)))))"

definition sqlite_get :: "DhtTable \<Rightarrow> DhtKey \<Rightarrow> u64 \<Rightarrow> StoredItem list" where
  "sqlite_get t key now_ms =
     map (\<lambda>r. \<lparr>item_key = key, item_value = row_value r, item_delete_hash = Option.bind (row_delete r) to_32,
               item_expires_at_ms = word_of_int (row_expires r)\<rparr>)
       (order_by_id (filter (\<lambda>r. row_key r = key \<and> row_expires r > sint now_ms) (rows t)))"

definition sqlite_delete :: "crypto \<Rightarrow> DhtTable \<Rightarrow> DhtKey \<Rightarrow> bytes \<Rightarrow> DhtTable \<times> nat" where
  "sqlite_delete C t key token =
     (let wanted = delete_hash C token;
          gone = (\<lambda>r. row_key r = key \<and> row_delete r = Some wanted)
      in (t\<lparr>rows := filter (\<lambda>r. \<not> gone r) (rows t)\<rparr>, length (filter gone (rows t))))"

definition sqlite_gc :: "DhtTable \<Rightarrow> u64 \<Rightarrow> DhtTable" where
  "sqlite_gc t now_ms = t\<lparr>rows := filter (\<lambda>r. \<not> row_expires r \<le> sint now_ms) (rows t)\<rparr>"

definition sqlite_all :: "DhtTable \<Rightarrow> u64 \<Rightarrow> StoredItem list" where
  "sqlite_all t now_ms =
     List.map_filter (\<lambda>r. case to_32 (row_key r) of
         None \<Rightarrow> None
       | Some key \<Rightarrow> Some \<lparr>item_key = key, item_value = row_value r,
           item_delete_hash = Option.bind (row_delete r) to_32, item_expires_at_ms = word_of_int (row_expires r)\<rparr>)
       (order_by_id (filter (\<lambda>r. row_expires r > sint now_ms) (rows t)))"

definition sqlite_stats :: "DhtTable \<Rightarrow> StoreStats" where
  "sqlite_stats t = \<lparr>st_items = nat (count_rows (rows t)), st_bytes = nat (sum_length (rows t))\<rparr>"

definition sqlite_storage :: "crypto \<Rightarrow> StoreLimits \<Rightarrow> DhtTable storage" where
  "sqlite_storage C lim =
     \<lparr>s_put = (\<lambda>t it now. case sqlite_put C lim None t it now of (Inl e, _) \<Rightarrow> Inl e | (Inr _, t') \<Rightarrow> Inr t'),
      s_get = sqlite_get, s_delete = sqlite_delete C, s_gc = sqlite_gc, s_all = sqlite_all, s_stats = sqlite_stats\<rparr>"

end
