(* ===== verification/Dht_Sql_Props.thy ===== *)
theory Dht_Sql_Props
  imports Dht_Sql
begin

text \<open>
  The three backends of \<open>Storage\<close> against the contract of \<open>Dht_Store\<close>. The locale
  \<open>exact_storage\<close> is the contract with every answer fixed, for the items and times the Rust types
  and a clock before the year 292 million admit; \<open>MemStorage\<close> and \<open>DbStorage\<close> interpret it, so
  they answer every sequence of calls alike. \<open>SqliteStorage\<close> does not bound the bytes under one
  key: it interprets it only for limits under which that bound cannot be reached.
\<close>

section \<open>Histories of calls\<close>

datatype StoreCall =
    CallPut StoredItem u64 | CallGet DhtKey u64 | CallDelete DhtKey bytes | CallGc u64 | CallAll u64 | CallStats

datatype StoreAnswer =
    AnsPut "StoreError option" | AnsItems "StoredItem list" | AnsCount nat | AnsUnit | AnsStats StoreStats

fun call :: "'s storage \<Rightarrow> StoreCall \<Rightarrow> 's \<Rightarrow> 's \<times> StoreAnswer" where
  "call S (CallPut it now) s = (case s_put S s it now of Inl e \<Rightarrow> (s, AnsPut (Some e)) | Inr s' \<Rightarrow> (s', AnsPut None))"
| "call S (CallGet k now) s = (s, AnsItems (s_get S s k now))"
| "call S (CallDelete k t) s = (case s_delete S s k t of (s', n) \<Rightarrow> (s', AnsCount n))"
| "call S (CallGc now) s = (s_gc S s now, AnsUnit)"
| "call S (CallAll now) s = (s, AnsItems (s_all S s now))"
| "call S CallStats s = (s, AnsStats (s_stats S s))"

fun answers :: "'s storage \<Rightarrow> StoreCall list \<Rightarrow> 's \<Rightarrow> StoreAnswer list" where
  "answers S [] s = []"
| "answers S (c # cs) s = (case call S c s of (s', a) \<Rightarrow> a # answers S cs s')"

definition list_storage :: "crypto \<Rightarrow> StoreLimits \<Rightarrow> StoredItem list storage" where
  "list_storage C lim =
     \<lparr>s_put = spec_put C lim, s_get = spec_get,
      s_delete = (\<lambda>xs k t. (filter (\<lambda>it. \<not> deletable C k t it) xs, length (filter (deletable C k t) xs))),
      s_gc = (\<lambda>xs now. filter (\<lambda>it. item_expires_at_ms it > now) xs),
      s_all = (\<lambda>xs now. filter (\<lambda>it. item_expires_at_ms it > now) xs),
      s_stats = (\<lambda>xs. \<lparr>st_items = length xs, st_bytes = total_len xs\<rparr>)\<rparr>"

text \<open>What the Rust types give (a key and a delete hash are 32 bytes), and a time whose expiry fits an \<open>i64\<close>.\<close>

definition item_ok :: "StoredItem \<Rightarrow> bool" where
  "item_ok it \<longleftrightarrow> length (item_key it) = 32 \<and> (\<forall>d \<in> set_option (item_delete_hash it). length d = 32)"

definition time_ok :: "StoreLimits \<Rightarrow> u64 \<Rightarrow> bool" where
  "time_ok lim now \<longleftrightarrow> unat now + unat (max_ttl_ms lim) < 2 ^ 63"

fun call_ok :: "StoreLimits \<Rightarrow> StoreCall \<Rightarrow> bool" where
  "call_ok lim (CallPut it now) \<longleftrightarrow> item_ok it \<and> time_ok lim now"
| "call_ok lim (CallGet k now) \<longleftrightarrow> time_ok lim now"
| "call_ok lim (CallGc now) \<longleftrightarrow> time_ok lim now"
| "call_ok lim (CallAll now) \<longleftrightarrow> time_ok lim now"
| "call_ok lim (CallDelete k t) \<longleftrightarrow> True"
| "call_ok lim CallStats \<longleftrightarrow> True"

locale exact_storage =
  fixes C :: crypto and lim :: StoreLimits and S :: "'s storage"
    and ok :: "'s \<Rightarrow> bool" and items :: "'s \<Rightarrow> StoredItem list"
  assumes put_spec: "ok s \<Longrightarrow> item_ok it \<Longrightarrow> time_ok lim now \<Longrightarrow>
      (case s_put S s it now of
         Inl e \<Rightarrow> spec_put C lim (items s) it now = Inl e
       | Inr s' \<Rightarrow> ok s' \<and> spec_put C lim (items s) it now = Inr (items s'))"
    and get_spec: "ok s \<Longrightarrow> time_ok lim now \<Longrightarrow> s_get S s k now = spec_get (items s) k now"
    and delete_spec: "ok s \<Longrightarrow> ok (fst (s_delete S s k t)) \<and>
      items (fst (s_delete S s k t)) = filter (\<lambda>it. \<not> deletable C k t it) (items s) \<and>
      snd (s_delete S s k t) = length (filter (deletable C k t) (items s))"
    and gc_spec: "ok s \<Longrightarrow> time_ok lim now \<Longrightarrow>
      ok (s_gc S s now) \<and> items (s_gc S s now) = filter (\<lambda>it. item_expires_at_ms it > now) (items s)"
    and all_spec: "ok s \<Longrightarrow> time_ok lim now \<Longrightarrow> s_all S s now = filter (\<lambda>it. item_expires_at_ms it > now) (items s)"
    and stats_spec: "ok s \<Longrightarrow> s_stats S s = \<lparr>st_items = length (items s), st_bytes = total_len (items s)\<rparr>"
begin

lemma call_refines:
  assumes "ok s" and "call_ok lim c"
  shows "ok (fst (call S c s))"
    and "call (list_storage C lim) c (items s) = map_prod items id (call S c s)"
proof -
  show "ok (fst (call S c s))" using assms
    by (cases c) (auto simp: delete_spec gc_spec case_prod_beta split: sum.splits dest: put_spec)
  show "call (list_storage C lim) c (items s) = map_prod items id (call S c s)" using assms
    by (cases c) (auto simp: list_storage_def get_spec all_spec stats_spec delete_spec gc_spec
        case_prod_beta split: sum.splits dest: put_spec)
qed

lemma answers_refine:
  "ok s \<Longrightarrow> \<forall>c \<in> set cs. call_ok lim c \<Longrightarrow> answers S cs s = answers (list_storage C lim) cs (items s)"
proof (induction cs arbitrary: s)
  case (Cons c cs)
  from Cons.prems have "call_ok lim c" by simp
  from call_refines [OF Cons.prems(1) this] Cons.IH [of "fst (call S c s)"] Cons.prems(2)
  show ?case by (cases "call S c s") simp
qed simp

end

interpretation xmem: exact_storage C lim "mem_storage C lim" inner_inv held
  by unfold_locales
     (use mem_put_refines in \<open>simp_all add: mem_storage_def mem_get_refines mem_delete_refines mem_gc_refines
        mem_all_refines mem_stats_refines\<close>)

section \<open>Rows and items\<close>

definition row_item :: "DhtRow \<Rightarrow> StoredItem" where
  "row_item r = \<lparr>item_key = row_key r, item_value = row_value r, item_delete_hash = row_delete r,
     item_expires_at_ms = word_of_int (row_expires r)\<rparr>"

lemma row_item_simps [simp]:
  "item_key (row_item r) = row_key r" "item_value (row_item r) = row_value r"
  "item_delete_hash (row_item r) = row_delete r" "item_expires_at_ms (row_item r) = word_of_int (row_expires r)"
  by (simp_all add: row_item_def)

definition row_ok :: "crypto \<Rightarrow> DhtRow \<Rightarrow> bool" where
  "row_ok C r \<longleftrightarrow> row_hash r = sha256 C [row_value r] \<and> 0 \<le> row_expires r \<and> row_expires r < 2 ^ 63 \<and>
     length (row_key r) = 32 \<and> (\<forall>d \<in> set_option (row_delete r). length d = 32)"

definition rows_ok :: "crypto \<Rightarrow> int \<Rightarrow> DhtRow list \<Rightarrow> bool" where
  "rows_ok C m rs \<longleftrightarrow> sorted_wrt (<) (map row_id rs) \<and> (\<forall>r \<in> set rs. row_ok C r \<and> row_id r \<le> m)"

definition table_ok :: "crypto \<Rightarrow> DhtTable \<Rightarrow> bool" where
  "table_ok C t \<longleftrightarrow> rows_ok C (last_rowid t) (rows t)"

definition table_items :: "DhtTable \<Rightarrow> StoredItem list" where
  "table_items t = map row_item (rows t)"

definition limits_ok :: "StoreLimits \<Rightarrow> bool" where
  "limits_ok lim \<longleftrightarrow> max_items_per_key lim < 2 ^ 63 \<and> max_total_bytes lim < 2 ^ 63 \<and>
     max_bytes_per_key lim \<le> max_total_bytes lim"

lemma as_i64_small: "n < 2 ^ 63 \<Longrightarrow> as_i64 n = int n"
  unfolding as_i64_def by (subst signed_of_nat) (simp add: signed_take_bit_int_eq_self)

lemma limits_as_i64:
  assumes "limits_ok lim"
  shows "as_i64 (max_items_per_key lim) = int (max_items_per_key lim)"
    and "as_i64 (max_total_bytes lim) = int (max_total_bytes lim)"
    and "as_i64 (max_bytes_per_key lim) = int (max_bytes_per_key lim)"
  using assms by (simp_all add: limits_ok_def as_i64_small)

lemma sint_small: "unat w < 2 ^ 63 \<Longrightarrow> sint w = int (unat w)" for w :: u64
  using as_i64_small [of "unat w"] by (simp add: as_i64_def)

lemma rows_ok_filter [intro]: "rows_ok C m rs \<Longrightarrow> rows_ok C m (filter P rs)"
  by (auto simp: rows_ok_def sorted_wrt_map sorted_wrt_filter)

lemma order_by_id_filter: "rows_ok C m rs \<Longrightarrow> order_by_id (filter P rs) = filter P rs"
  by (rule sort_key_id_if_sorted)
     (auto simp: rows_ok_def sorted_wrt_map sorted_map intro!: sorted_wrt_filter elim!: sorted_wrt_mono_rel [rotated])

lemma rows_ok_split:
  assumes "rows_ok C m (pre @ r # post)"
  shows "delete_id (Some (row_id r)) (pre @ r # post) = pre @ post"
    and "min_id (r # filter P post) = Some (row_id r)"
proof -
  have lt: "\<forall>x \<in> set pre. row_id x < row_id r" "\<forall>x \<in> set post. row_id r < row_id x"
    using assms by (auto simp: rows_ok_def sorted_wrt_append)
  then show "delete_id (Some (row_id r)) (pre @ r # post) = pre @ post"
    by (simp add: delete_id_def less_imp_neq less_imp_neq [THEN not_sym])
  show "min_id (r # filter P post) = Some (row_id r)"
    using lt by (auto simp: min_id_def intro!: Min_eqI)
qed

lemma sum_length_items: "sum_length rs = int (total_len (map row_item rs))"
  by (induction rs) auto

lemma of_key_items: "of_key k (map row_item rs) = map row_item (under_key k rs)"
  by (simp add: filter_map comp_def)

section \<open>\<open>DbStorage\<close> evicts as the contract does\<close>

lemma first_under_key:
  assumes "under_key k rs \<noteq> []"
  obtains pre r post where "rs = pre @ r # post" and "row_key r = k" and "\<forall>x \<in> set pre. row_key x \<noteq> k"
proof -
  from assms have "\<exists>r \<in> set rs. row_key r = k" by (simp add: filter_empty_conv)
  from split_list_first_prop [OF this] that show thesis by blast
qed

lemma evict_key_rows_refines:
  assumes lim: "limits_ok lim"
  shows "rows_ok C m rs \<Longrightarrow> rows_ok C m (evict_key_rows lim (int len) k rs) \<and>
     map row_item (evict_key_rows lim (int len) k rs) = spec_evict_key lim len k (map row_item rs)"
proof (induction "length rs" arbitrary: rs rule: less_induct)
  case less
  note step = evict_key_rows.simps [of lim "int len" k rs] limits_as_i64 [OF lim]
  show ?case
  proof (cases "under_key k rs = []")
    case True
    then have "\<forall>x \<in> set (map row_item rs). item_key x \<noteq> k" by (auto simp: filter_empty_conv)
    from spec_evict_key_skip [OF this, of lim len "[]"] less.prems True show ?thesis by (simp add: step)
  next
    case False
    then obtain pre r post where rs: "rs = pre @ r # post" and k: "row_key r = k"
      and pre: "\<forall>x \<in> set pre. row_key x \<noteq> k" by (rule first_under_key)
    have uk: "under_key k rs = r # under_key k post" using rs k pre by auto
    have skip: "spec_evict_key lim len k (map row_item pre @ ys) = map row_item pre @ spec_evict_key lim len k ys" for ys
      by (rule spec_evict_key_skip) (use pre in auto)
    have full: "key_full lim len k (map row_item (r # post)) \<longleftrightarrow>
        \<not> (count_rows (under_key k rs) < int (max_items_per_key lim) \<and>
           sum_length (under_key k rs) + int len \<le> int (max_bytes_per_key lim))"
      by (auto simp: key_full_def of_key_items uk k sum_length_items simp del: list.map)
    have gone: "delete_id (min_id (under_key k rs)) rs = pre @ post"
      using rows_ok_split(1) [of C m pre r post] rows_ok_split(2) [of C m pre r post "\<lambda>x. row_key x = k"] less.prems
      by (simp only: uk) (simp only: rs)
    have ok: "rows_ok C m (pre @ post)" using rows_ok_filter [OF less.prems] gone unfolding delete_id_def by metis
    show ?thesis
    proof (cases "key_full lim len k (map row_item (r # post))")
      case True
      then have "evict_key_rows lim (int len) k rs = evict_key_rows lim (int len) k (pre @ post)"
        using full False gone by (auto simp: step)
      with less.hyps [OF _ ok] True k show ?thesis by (simp add: rs skip)
    next
      case notfull: False
      then have "evict_key_rows lim (int len) k rs = rs" using full by (auto simp: step)
      with notfull k less.prems show ?thesis by (simp add: rs skip)
    qed
  qed
qed

lemma rows_ok_Cons: "rows_ok C m (r # rs) \<Longrightarrow> rows_ok C m rs"
  by (simp add: rows_ok_def)

lemma evict_rows_refines:
  assumes lim: "limits_ok lim" and len: "len \<le> max_bytes_per_key lim"
  shows "rows_ok C m rs \<Longrightarrow> rows_ok C m (evict_rows lim (int len) rs) \<and>
     map row_item (evict_rows lim (int len) rs) = spec_evict_oldest lim len (map row_item rs)"
proof (induction rs)
  case Nil
  then show ?case by (simp add: evict_rows.simps)
next
  case (Cons r rs)
  have del: "delete_id (min_id (r # rs)) (r # rs) = rs"
    using rows_ok_split(1) [of C m "[]" r rs] rows_ok_split(2) [of C m "[]" r rs "\<lambda>_. True"] Cons.prems by simp
  have fits: "(sum_length (r # rs) = 0 \<or> sum_length (r # rs) + int len \<le> int (max_total_bytes lim)) \<longleftrightarrow>
      total_len (map row_item (r # rs)) + len \<le> max_total_bytes lim"
    by (simp only: sum_length_items) (use lim len in \<open>unfold limits_ok_def, linarith\<close>)
  show ?case
  proof (cases "total_len (map row_item (r # rs)) + len \<le> max_total_bytes lim")
    case True
    with fits have "evict_rows lim (int len) (r # rs) = r # rs"
      by (simp only: evict_rows.simps [of lim "int len" "r # rs"] limits_as_i64 [OF lim] if_True)
    with True Cons.prems show ?thesis by simp
  next
    case False
    with fits have "evict_rows lim (int len) (r # rs) = evict_rows lim (int len) rs"
      by (simp only: evict_rows.simps [of lim "int len" "r # rs"] limits_as_i64 [OF lim] if_False del)
    with False Cons.IH [OF rows_ok_Cons [OF Cons.prems]] show ?thesis by simp
  qed
qed

section \<open>\<open>DbStorage\<close> implements the contract\<close>

lemma admitted_expiry:
  assumes "admit it lim now = Inr it'" and "time_ok lim now"
  shows "unat (item_expires_at_ms it') < 2 ^ 63"
proof -
  have "unat (now + max_ttl_ms lim) = unat now + unat (max_ttl_ms lim)"
    using assms(2) by (subst unat_add_lem [symmetric]) (simp add: time_ok_def)
  moreover have "item_expires_at_ms it' \<le> now + max_ttl_ms lim" using admit_Inr [OF assms(1)] by simp
  ultimately show ?thesis using assms(2) by (simp add: time_ok_def word_le_nat_alt)
qed

lemma insert_row_refines:
  assumes "rows_ok C (last_rowid t) rs" and "item_ok it" and "unat (item_expires_at_ms it) < 2 ^ 63"
  shows "table_ok C (insert_row C it (t\<lparr>rows := rs\<rparr>))"
    and "table_items (insert_row C it (t\<lparr>rows := rs\<rparr>)) = map row_item rs @ [it]"
proof -
  have "sint (item_expires_at_ms it) < 2 ^ 63" "0 \<le> sint (item_expires_at_ms it)"
    using assms(3) by (simp_all add: sint_small del: of_nat_unat)
  then show "table_ok C (insert_row C it (t\<lparr>rows := rs\<rparr>))" using assms(1,2)
    by (auto simp: table_ok_def insert_row_def rows_ok_def row_ok_def item_ok_def sorted_wrt_append zless_add1_eq)
  show "table_items (insert_row C it (t\<lparr>rows := rs\<rparr>)) = map row_item rs @ [it]"
    by (simp add: table_items_def insert_row_def row_item_def)
qed

lemma duplicate_rows:
  "table_ok C t \<Longrightarrow>
     count_rows (filter (\<lambda>r. row_key r = k \<and> row_hash r = h) (rows t)) > 0 \<longleftrightarrow>
     (\<exists>x \<in> set (table_items t). item_key x = k \<and> sha256 C [item_value x] = h)"
  by (auto simp: table_ok_def rows_ok_def row_ok_def table_items_def filter_empty_conv)

lemma live_row:
  assumes "row_ok C r" and "time_ok lim now"
  shows "row_expires r > sint now \<longleftrightarrow> item_expires_at_ms (row_item r) > now"
    and "word_of_int (max (row_expires r) 0) = item_expires_at_ms (row_item r)"
proof -
  define e where "e = nat (row_expires r)"
  have "row_expires r = int e" "e < 2 ^ 63" using assms(1) by (auto simp: e_def row_ok_def)
  then show "row_expires r > sint now \<longleftrightarrow> item_expires_at_ms (row_item r) > now"
    using assms(2) by (simp add: time_ok_def sint_small word_less_nat_alt unat_of_nat del: of_nat_unat)
  show "word_of_int (max (row_expires r) 0) = item_expires_at_ms (row_item r)"
    using assms(1) by (simp add: row_ok_def max_absorb1)
qed

lemma row_ok_32:
  assumes "row_ok C r"
  shows "to_32 (row_key r) = Some (row_key r)" and "Option.bind (row_delete r) to_32 = row_delete r"
  using assms by (cases "row_delete r"; simp add: row_ok_def to_32_def)+

lemma live_rows:
  assumes "table_ok C t" and "time_ok lim now"
    and "\<And>r. row_ok C r \<Longrightarrow> f r = Some (row_item r)"
  shows "List.map_filter f (order_by_id (filter (\<lambda>r. P r \<and> row_expires r > sint now) (rows t))) =
    map row_item (filter (\<lambda>r. P r \<and> item_expires_at_ms (row_item r) > now) (rows t))"
proof -
  have ok: "\<forall>r \<in> set (rows t). row_ok C r" using assms(1) by (simp add: table_ok_def rows_ok_def)
  have "filter (\<lambda>r. P r \<and> row_expires r > sint now) (rows t) =
      filter (\<lambda>r. P r \<and> item_expires_at_ms (row_item r) > now) (rows t)"
    using ok live_row(1) [OF _ assms(2)] by (intro filter_cong) auto
  moreover have "List.map_filter f qs = map row_item qs" if "set qs \<subseteq> set (rows t)" for qs
    using that ok assms(3) by (induction qs) (auto simp: List.map_filter_def)
  ultimately show ?thesis
    using order_by_id_filter assms(1) unfolding table_ok_def by (metis filter_is_subset)
qed

lemma dht_row_item: "row_ok C r \<Longrightarrow> dht_row r = Some (row_item r)"
  by (simp add: dht_row_def row_ok_32 row_item_def) (simp add: row_ok_def max_absorb1)

lemma spec_get_rows:
  "spec_get (table_items t) k now =
     map row_item (filter (\<lambda>r. row_key r = k \<and> item_expires_at_ms (row_item r) > now) (rows t))"
  by (simp add: spec_get_def table_items_def filter_map comp_def)

lemma table_ok_filter: "table_ok C t \<Longrightarrow> table_ok C (t\<lparr>rows := filter P (rows t)\<rparr>)"
  by (auto simp: table_ok_def)

lemma table_items_filter:
  assumes "\<And>r. r \<in> set (rows t) \<Longrightarrow> P r \<longleftrightarrow> Q (row_item r)"
  shows "table_items (t\<lparr>rows := filter P (rows t)\<rparr>) = filter Q (table_items t)"
    and "length (filter P (rows t)) = length (filter Q (table_items t))"
  using assms by (auto simp: table_items_def filter_map comp_def cong: filter_cong)

lemma table_row_ok: "table_ok C t \<Longrightarrow> r \<in> set (rows t) \<Longrightarrow> row_ok C r"
  by (simp add: table_ok_def rows_ok_def)

lemma dht_item_put_refines:
  assumes lim: "limits_ok lim" and t: "table_ok C t" and it: "item_ok it" and "time_ok lim now"
    and a: "admit it lim now = Inr it'"
  shows "table_ok C (dht_item_put C lim it' t) \<and>
     spec_put C lim (table_items t) it now = Inr (table_items (dht_item_put C lim it' t))"
proof -
  let ?rs = "evict_rows lim (int (item_len it')) (evict_key_rows lim (int (item_len it')) (item_key it') (rows t))"
  have len: "item_len it' \<le> max_bytes_per_key lim" and it': "item_ok it'"
    using admit_Inr [OF a] it unfolding item_ok_def by metis+
  have l: "as_i64 (item_len it') = int (item_len it')"
    using len lim by (intro as_i64_small) (simp add: limits_ok_def)
  have rs: "rows_ok C (last_rowid t) ?rs"
    "map row_item ?rs = spec_evict_oldest lim (item_len it') (spec_evict_key lim (item_len it') (item_key it') (table_items t))"
    using evict_key_rows_refines [OF lim, of C "last_rowid t" "rows t"] evict_rows_refines [OF lim len] t
    unfolding table_ok_def table_items_def by metis+
  have put: "dht_item_put C lim it' t =
      (if \<exists>x \<in> set (table_items t). item_key x = item_key it' \<and> sha256 C [item_value x] = sha256 C [item_value it']
       then t else insert_row C it' (t\<lparr>rows := ?rs\<rparr>))"
    by (simp only: dht_item_put_def Let_def duplicate_rows [OF t] l)
  show ?thesis
    using insert_row_refines [OF rs(1) it' admitted_expiry [OF a assms(4)]] t rs(2)
    by (auto simp: put spec_put_def a)
qed

interpretation xdb: exact_storage C lim "db_storage C lim" "\<lambda>t. table_ok C t \<and> limits_ok lim" table_items
proof unfold_locales
  fix s :: DhtTable and it now k t
  assume s: "table_ok C s \<and> limits_ok lim"
  show "item_ok it \<Longrightarrow> time_ok lim now \<Longrightarrow> case s_put (db_storage C lim) s it now of
      Inl e \<Rightarrow> spec_put C lim (table_items s) it now = Inl e
    | Inr s' \<Rightarrow> (table_ok C s' \<and> limits_ok lim) \<and> spec_put C lim (table_items s) it now = Inr (table_items s')"
    using dht_item_put_refines [of lim C s it now] s
    by (auto simp: db_storage_def db_put_def spec_put_def split: sum.splits)
  show "s_stats (db_storage C lim) s = \<lparr>st_items = length (table_items s), st_bytes = total_len (table_items s)\<rparr>"
    by (simp add: db_storage_def db_stats_def dht_items_stats_def table_items_def sum_length_items)
  show "time_ok lim now \<Longrightarrow> s_get (db_storage C lim) s k now = spec_get (table_items s) k now"
    using live_rows [OF conjunct1 [OF s] _ dht_row_item, where lim = lim and now = now and P = "\<lambda>r. row_key r = k"]
    by (simp add: db_storage_def db_get_def dht_items_get_def spec_get_rows)
  show "time_ok lim now \<Longrightarrow> s_all (db_storage C lim) s now = filter (\<lambda>it. now < item_expires_at_ms it) (table_items s)"
    using live_rows [OF conjunct1 [OF s] _ dht_row_item, where lim = lim and now = now and P = "\<lambda>_. True"]
    by (simp add: db_storage_def db_all_def dht_items_all_def table_items_def filter_map comp_def)
  show "(table_ok C (fst (s_delete (db_storage C lim) s k t)) \<and> limits_ok lim) \<and>
      table_items (fst (s_delete (db_storage C lim) s k t)) = filter (\<lambda>it. \<not> deletable C k t it) (table_items s) \<and>
      snd (s_delete (db_storage C lim) s k t) = length (filter (deletable C k t) (table_items s))"
    using s table_ok_filter
    by (auto simp: db_storage_def db_delete_def dht_item_delete_def Let_def deletable_def intro!: table_items_filter)
  show "time_ok lim now \<Longrightarrow> (table_ok C (s_gc (db_storage C lim) s now) \<and> limits_ok lim) \<and>
      table_items (s_gc (db_storage C lim) s now) = filter (\<lambda>it. now < item_expires_at_ms it) (table_items s)"
    using s table_ok_filter live_row(1) [OF table_row_ok, of C s]
    by (auto simp: db_storage_def db_gc_def dht_items_gc_def not_le intro!: table_items_filter)
qed

section \<open>What \<open>SqliteStorage\<close> evicts\<close>

text \<open>
  The relay's store drops from a full key by count alone. Wherever the bound on the bytes of a key
  does not decide, that is the eviction of the contract.
\<close>

definition count_decides :: "StoreLimits \<Rightarrow> nat \<Rightarrow> DhtKey \<Rightarrow> StoredItem list \<Rightarrow> bool" where
  "count_decides lim len k xs \<longleftrightarrow>
     (\<forall>n. key_full lim len k (drop n xs) \<longleftrightarrow> length (of_key k (drop n xs)) \<ge> max_items_per_key lim)"

lemma count_decides_Cons: "count_decides lim len k (x # xs) \<Longrightarrow> count_decides lim len k xs"
  unfolding count_decides_def by (metis drop_Suc_Cons)

lemma count_decidesD:
  "count_decides lim len k xs \<Longrightarrow> key_full lim len k xs \<longleftrightarrow> length (of_key k xs) \<ge> max_items_per_key lim"
  unfolding count_decides_def by (metis drop0)

definition over_count :: "StoreLimits \<Rightarrow> bytes \<Rightarrow> DhtRow list \<Rightarrow> DhtRow list" where
  "over_count lim k rs = take (Suc (length (under_key k rs)) - max_items_per_key lim) (under_key k rs)"

lemma over_count_set: "set (over_count lim k rs) \<subseteq> set rs"
  unfolding over_count_def using set_take_subset [of _ "under_key k rs"] by fastforce

lemma drop_over_count:
  assumes "sorted_wrt (<) (map row_id rs)" and "count_decides lim len k (map row_item rs)"
  shows "map row_item (filter (\<lambda>r. row_id r \<notin> row_id ` set (over_count lim k rs)) rs) =
         spec_evict_key lim len k (map row_item rs)"
  using assms
proof (induction rs)
  case (Cons r rs)
  have new: "row_id r \<notin> row_id ` set (over_count lim k rs)" and new': "\<forall>x \<in> set rs. row_id x \<noteq> row_id r"
    using Cons.prems(1) over_count_set [of lim k rs] by force+
  note IH = Cons.IH [OF _ count_decides_Cons]
  note full = count_decidesD [OF Cons.prems(2)]
  show ?case
  proof (cases "row_key r = k")
    case False
    then have "over_count lim k (r # rs) = over_count lim k rs" by (simp add: over_count_def)
    with False new IH Cons.prems show ?thesis by simp
  next
    case True
    show ?thesis
    proof (cases "length (under_key k (r # rs)) \<ge> max_items_per_key lim")
      case over: True
      then have "over_count lim k (r # rs) = r # over_count lim k rs"
        using True by (simp add: over_count_def Suc_diff_le)
      moreover have "filter (\<lambda>x. row_id x \<noteq> row_id r \<and> row_id x \<notin> row_id ` set (over_count lim k rs)) rs =
          filter (\<lambda>x. row_id x \<notin> row_id ` set (over_count lim k rs)) rs"
        using new' by (intro filter_cong) auto
      ultimately show ?thesis using True over full IH Cons.prems by (simp add: of_key_items)
    next
      case under: False
      then have "over_count lim k (r # rs) = []" by (simp add: over_count_def)
      with True under full show ?thesis by (simp add: of_key_items)
    qed
  qed
qed (simp add: over_count_def)

lemma drop_oldest_refines:
  assumes "rows_ok C m rs"
  shows "rows_ok C m (drop_oldest (sum_length rs + int len - int (max_total_bytes lim)) rs) \<and>
    map row_item (drop_oldest (sum_length rs + int len - int (max_total_bytes lim)) rs) =
      spec_evict_oldest lim len (map row_item rs)"
  using assms
proof (induction rs)
  case Nil
  then show ?case by (simp add: drop_oldest.simps)
next
  case (Cons r rs)
  let ?n = "sum_length (r # rs) + int len - int (max_total_bytes lim)"
  have ord: "order_by_id (r # rs) = r # rs"
    using order_by_id_filter [OF Cons.prems, of "\<lambda>_. True"] by simp
  have del: "delete_id (Some (row_id r)) (r # rs) = rs" using rows_ok_split(1) [of C m "[]" r rs] Cons.prems by simp
  have n: "?n > 0 \<longleftrightarrow> total_len (map row_item (r # rs)) + len > max_total_bytes lim"
    by (simp only: sum_length_items) linarith
  have rest: "?n - int (length (row_value r)) = sum_length rs + int len - int (max_total_bytes lim)" by simp
  show ?case
  proof (cases "?n > 0")
    case True
    then have "drop_oldest ?n (r # rs) = drop_oldest (sum_length rs + int len - int (max_total_bytes lim)) rs"
      by (simp only: drop_oldest.simps [of ?n] if_True ord list.case del rest)
    with Cons.IH [OF rows_ok_Cons [OF Cons.prems]] True n show ?thesis by simp
  next
    case False
    then have "drop_oldest ?n (r # rs) = r # rs" by (simp only: drop_oldest.simps [of ?n] if_False)
    with Cons.prems False n show ?thesis by simp
  qed
qed

definition holds_value :: "crypto \<Rightarrow> StoredItem list \<Rightarrow> StoredItem \<Rightarrow> bool" where
  "holds_value C xs it \<longleftrightarrow> (\<exists>x \<in> set xs. item_key x = item_key it \<and> sha256 C [item_value x] = sha256 C [item_value it])"

lemma spec_put_admitted:
  "admit it lim now = Inr it' \<Longrightarrow> spec_put C lim xs it now =
     Inr (if holds_value C xs it' then xs
          else spec_evict_oldest lim (item_len it') (spec_evict_key lim (item_len it') (item_key it') xs) @ [it'])"
  by (auto simp: spec_put_def holds_value_def)

lemma sqlite_put_spec:
  assumes lim: "limits_ok lim" and t: "table_ok C t" and it: "item_ok it" and "time_ok lim now"
    and a: "admit it lim now = Inr it'"
    and L: "count_decides L (item_len it') (item_key it') (table_items t)"
    and LL: "max_items_per_key L = max_items_per_key lim"
  shows "\<exists>t'. sqlite_put C lim None t it now = (Inr (), t') \<and> table_ok C t' \<and>
    table_items t' =
      (if holds_value C (table_items t) it'
       then table_items t
       else spec_evict_oldest lim (item_len it') (spec_evict_key L (item_len it') (item_key it') (table_items t)) @ [it'])"
proof -
  let ?len = "item_len it'" and ?k = "item_key it'"
  have len: "?len \<le> max_bytes_per_key lim" "?len \<le> MAX_VALUE_BYTES" and it': "item_ok it'"
    using admit_Inr [OF a] it unfolding item_ok_def by metis+
  have l: "as_i64 ?len = int ?len" using len lim by (intro as_i64_small) (simp add: limits_ok_def)
  have ok: "rows_ok C (last_rowid t) (rows t)" using t by (simp add: table_ok_def)
  have sorted: "sorted_wrt (<) (map row_id (rows t))" using ok by (simp add: rows_ok_def)
  define rs1 where "rs1 = filter (\<lambda>r. row_id r \<notin> row_id ` set (over_count L ?k (rows t))) (rows t)"
  define rs2 where "rs2 = drop_oldest (sum_length rs1 + int ?len - int (max_total_bytes lim)) rs1"
  have rs1: "rows_ok C (last_rowid t) rs1" "map row_item rs1 = spec_evict_key L ?len ?k (table_items t)"
    using ok drop_over_count [OF sorted L [unfolded table_items_def]] by (auto simp: rs1_def table_items_def)
  have rs2: "rows_ok C (last_rowid t) rs2" "map row_item rs2 = spec_evict_oldest lim ?len (map row_item rs1)"
    using drop_oldest_refines [OF rs1(1), of ?len lim] by (simp_all add: rs2_def)
  have n: "nat (count_rows (under_key ?k (rows t)) - int (max_items_per_key lim) + 1) =
      Suc (length (under_key ?k (rows t))) - max_items_per_key L" unfolding LL by linarith
  have under: "rs1 = (if count_rows (under_key ?k (rows t)) \<ge> int (max_items_per_key lim)
      then filter (\<lambda>r. row_id r \<notin> row_id ` set (over_count L ?k (rows t))) (rows t) else rows t)"
    by (simp add: rs1_def over_count_def LL)
  have idle: "rs2 = (if sum_length rs1 + int ?len > int (max_total_bytes lim)
      then drop_oldest (sum_length rs1 + int ?len - int (max_total_bytes lim)) rs1 else rs1)"
    by (simp add: rs2_def drop_oldest.simps [of _ rs1])
  have "sqlite_put C lim None t it now =
     (Inr (), if holds_value C (table_items t) it' then t else insert_row C it' (t\<lparr>rows := rs2\<rparr>))"
    using len(2) unfolding sqlite_put_def a Let_def sum.case option.case duplicate_rows [OF t] l limits_as_i64 [OF lim]
      order_by_id_filter [OF ok] n over_count_def [symmetric] under [symmetric] idle [symmetric]
      holds_value_def [symmetric] by simp
  then show ?thesis
    using insert_row_refines [OF rs2(1) it' admitted_expiry [OF a assms(4)]] t rs1(2) rs2(2) by simp
qed

section \<open>\<open>SqliteStorage\<close> where the bytes of a key cannot decide\<close>

definition small_values :: "StoredItem list \<Rightarrow> bool" where
  "small_values xs \<longleftrightarrow> (\<forall>x \<in> set xs. item_len x \<le> MAX_VALUE_BYTES)"

definition key_room :: "StoreLimits \<Rightarrow> bool" where
  "key_room lim \<longleftrightarrow> max_items_per_key lim * MAX_VALUE_BYTES \<le> max_bytes_per_key lim"

lemma total_len_small: "small_values xs \<Longrightarrow> total_len xs \<le> length xs * MAX_VALUE_BYTES"
  unfolding small_values_def by (induction xs) auto

lemma small_values_sub: "small_values xs \<Longrightarrow> set ys \<subseteq> set xs \<Longrightarrow> small_values ys"
  by (auto simp: small_values_def)

lemma count_decides_small:
  assumes "small_values xs" and "len \<le> MAX_VALUE_BYTES" and "key_room lim"
  shows "count_decides lim len k xs"
proof -
  have "key_full lim len k ys \<longleftrightarrow> length (of_key k ys) \<ge> max_items_per_key lim" if "set ys \<subseteq> set xs" for ys
  proof (cases "length (of_key k ys) \<ge> max_items_per_key lim")
    case False
    have "total_len (of_key k ys) \<le> length (of_key k ys) * MAX_VALUE_BYTES"
      using small_values_sub [OF assms(1), of "of_key k ys"] that by (intro total_len_small) auto
    moreover have "(length (of_key k ys) + 1) * MAX_VALUE_BYTES \<le> max_items_per_key lim * MAX_VALUE_BYTES"
      using False by (intro mult_le_mono1) simp
    ultimately have "total_len (of_key k ys) + len \<le> max_bytes_per_key lim"
      using assms(2,3) by (simp add: key_room_def)
    with False show ?thesis by (simp add: key_full_def)
  qed (simp add: key_full_def)
  then show ?thesis by (simp add: count_decides_def set_drop_subset)
qed

lemma spec_put_small:
  assumes "small_values xs" and "spec_put C lim xs it now = Inr ys"
  shows "small_values ys"
  using assms(2)
proof (rule spec_put_Inr)
  fix it'
  assume a: "admit it lim now = Inr it'" and ys: "ys = xs \<and> (\<exists>x \<in> set xs. item_key x = item_key it \<and>
      sha256 C [item_value x] = sha256 C [item_value it])
    \<or> ys = spec_evict_oldest lim (item_len it') (spec_evict_key lim (item_len it') (item_key it') xs) @ [it']"
  obtain n where "spec_evict_oldest lim (item_len it') (spec_evict_key lim (item_len it') (item_key it') xs) =
      drop n (spec_evict_key lim (item_len it') (item_key it') xs)" using spec_evict_oldest_suffix by blast
  with ys spec_evict_key_set [of lim "item_len it'" "item_key it'" xs] have "set ys \<subseteq> insert it' (set xs)"
    by (auto dest!: in_set_dropD)
  with assms(1) admit_Inr [OF a] show ?thesis unfolding small_values_def by fastforce
qed

definition seed_ok :: "crypto \<Rightarrow> StoreLimits \<Rightarrow> DhtTable \<Rightarrow> bool" where
  "seed_ok C lim t \<longleftrightarrow> table_ok C t \<and> limits_ok lim \<and> key_room lim \<and> small_values (table_items t)"

lemma sqlite_put_refines:
  assumes "seed_ok C lim s" and "item_ok it" and "time_ok lim now"
  shows "case s_put (sqlite_storage C lim) s it now of
      Inl e \<Rightarrow> spec_put C lim (table_items s) it now = Inl e
    | Inr s' \<Rightarrow> seed_ok C lim s' \<and> spec_put C lim (table_items s) it now = Inr (table_items s')"
proof (cases "admit it lim now")
  case (Inl e)
  then show ?thesis by (simp add: sqlite_storage_def sqlite_put_def spec_put_def)
next
  case (Inr it')
  have s: "table_ok C s" "limits_ok lim" "key_room lim" "small_values (table_items s)"
    using assms(1) by (simp_all add: seed_ok_def)
  have "item_len it' \<le> MAX_VALUE_BYTES" using admit_Inr [OF Inr] by metis
  from sqlite_put_spec [OF s(2,1) assms(2,3) Inr count_decides_small [OF s(4) this s(3)] refl]
  obtain t' where put: "sqlite_put C lim None s it now = (Inr (), t')" "table_ok C t'"
    and "spec_put C lim (table_items s) it now = Inr (table_items t')"
    unfolding spec_put_admitted [OF Inr] by metis
  with spec_put_small [OF s(4)] s show ?thesis by (auto simp: sqlite_storage_def seed_ok_def)
qed

lemma seed_ok_filter: "seed_ok C lim t \<Longrightarrow> seed_ok C lim (t\<lparr>rows := filter P (rows t)\<rparr>)"
  by (auto simp: seed_ok_def table_ok_filter small_values_def table_items_def)

lemma sqlite_rows:
  assumes "row_ok C r"
  shows "\<lparr>item_key = row_key r, item_value = row_value r, item_delete_hash = Option.bind (row_delete r) to_32,
      item_expires_at_ms = word_of_int (row_expires r)\<rparr> = row_item r"
  using row_ok_32 [OF assms] by (simp add: row_item_def)

interpretation xsq: exact_storage C lim "sqlite_storage C lim" "seed_ok C lim" table_items
proof unfold_locales
  fix s :: DhtTable and it now k t
  assume s: "seed_ok C lim s"
  then have t: "table_ok C s" by (simp add: seed_ok_def)
  show "item_ok it \<Longrightarrow> time_ok lim now \<Longrightarrow> case s_put (sqlite_storage C lim) s it now of
      Inl e \<Rightarrow> spec_put C lim (table_items s) it now = Inl e
    | Inr s' \<Rightarrow> seed_ok C lim s' \<and> spec_put C lim (table_items s) it now = Inr (table_items s')"
    by (rule sqlite_put_refines [OF s])
  show "s_stats (sqlite_storage C lim) s = \<lparr>st_items = length (table_items s), st_bytes = total_len (table_items s)\<rparr>"
    by (simp add: sqlite_storage_def sqlite_stats_def table_items_def sum_length_items)
  show "s_get (sqlite_storage C lim) s k now = spec_get (table_items s) k now" if time: "time_ok lim now"
  proof -
    have "sqlite_get s k now = List.map_filter (\<lambda>r. Some (row_item r))
        (order_by_id (filter (\<lambda>r. row_key r = k \<and> row_expires r > sint now) (rows s)))"
      using sqlite_rows [OF table_row_ok [OF t]] by (auto simp: sqlite_get_def List.map_filter_def)
    with live_rows [OF t time, where f = "\<lambda>r. Some (row_item r)" and P = "\<lambda>r. row_key r = k"] show ?thesis
      by (simp add: sqlite_storage_def spec_get_rows)
  qed
  show "s_all (sqlite_storage C lim) s now = filter (\<lambda>it. now < item_expires_at_ms it) (table_items s)"
    if time: "time_ok lim now"
    using live_rows [OF t time, where P = "\<lambda>_. True" and f = "\<lambda>r. case to_32 (row_key r) of None \<Rightarrow> None
        | Some key \<Rightarrow> Some \<lparr>item_key = key, item_value = row_value r,
          item_delete_hash = Option.bind (row_delete r) to_32, item_expires_at_ms = word_of_int (row_expires r)\<rparr>"]
    by (simp add: sqlite_storage_def sqlite_all_def table_items_def filter_map comp_def row_ok_32 sqlite_rows)
  show "seed_ok C lim (fst (s_delete (sqlite_storage C lim) s k t)) \<and>
      table_items (fst (s_delete (sqlite_storage C lim) s k t)) = filter (\<lambda>it. \<not> deletable C k t it) (table_items s) \<and>
      snd (s_delete (sqlite_storage C lim) s k t) = length (filter (deletable C k t) (table_items s))"
    using s seed_ok_filter
    by (auto simp: sqlite_storage_def sqlite_delete_def Let_def deletable_def intro!: table_items_filter)
  show "time_ok lim now \<Longrightarrow> seed_ok C lim (s_gc (sqlite_storage C lim) s now) \<and>
      table_items (s_gc (sqlite_storage C lim) s now) = filter (\<lambda>it. now < item_expires_at_ms it) (table_items s)"
    using s seed_ok_filter live_row(1) [OF table_row_ok [OF t]]
    by (auto simp: sqlite_storage_def sqlite_gc_def not_le intro!: table_items_filter)
qed

section \<open>Properties\<close>

lemma empty_table_ok: "table_ok C empty_table" "table_items empty_table = []" "held new_inner = []"
  by (simp_all add: table_ok_def rows_ok_def empty_table_def table_items_def held_def new_inner_def)

text \<open>
  C13. The database backends answer like the memory one. Started empty and given the same calls, the app's
  \<open>DbStorage\<close> gives the same answer as \<open>MemStorage\<close> to every put, get, delete, gc, all and stats
  (same errors, same items in the same order, same counts), and so does the relay's
  \<open>SqliteStorage\<close> when the limit on the items of a key keeps its bytes below their limit. For keys
  and delete hashes of 32 bytes, times whose expiry fits an \<open>i64\<close>, and limits that do, with the bytes
  of one key limited to at most the bytes of all.
\<close>

theorem backends_agree:
  assumes "limits_ok lim" and "\<forall>c \<in> set cs. call_ok lim c"
  shows "answers (db_storage C lim) cs empty_table = answers (mem_storage C lim) cs new_inner \<and>
    (key_room lim \<longrightarrow> answers (sqlite_storage C lim) cs empty_table = answers (mem_storage C lim) cs new_inner)"
proof -
  have m: "answers (mem_storage C lim) cs new_inner = answers (list_storage C lim) cs []"
    using xmem.answers_refine [OF inner_inv_new assms(2)] by (simp add: empty_table_ok)
  then have "answers (db_storage C lim) cs empty_table = answers (mem_storage C lim) cs new_inner"
    using xdb.answers_refine [of C empty_table lim cs] assms by (simp add: empty_table_ok)
  moreover have "answers (sqlite_storage C lim) cs empty_table = answers (mem_storage C lim) cs new_inner"
    if "key_room lim"
    using xsq.answers_refine [of C lim empty_table cs] assms that m
    by (simp add: empty_table_ok seed_ok_def small_values_def)
  ultimately show ?thesis by blast
qed

definition seed_limits :: StoreLimits where
  "seed_limits = \<lparr>max_total_bytes = 8388608, max_bytes_per_key = 8388608, max_items_per_key = 2, max_ttl_ms = 1000\<rparr>"

definition seed_item :: "bytes \<Rightarrow> StoredItem" where
  "seed_item v = \<lparr>item_key = replicate 32 1, item_value = v, item_delete_hash = None, item_expires_at_ms = 600\<rparr>"

lemma backends_agree_witness:
  "limits_ok seed_limits \<and> key_room seed_limits \<and>
   answers (db_storage toy_crypto seed_limits)
     [CallPut (seed_item [1]) 100, CallPut (seed_item [2]) 100, CallPut (seed_item [3]) 100, CallGet (replicate 32 1) 200] empty_table =
   answers (mem_storage toy_crypto seed_limits)
     [CallPut (seed_item [1]) 100, CallPut (seed_item [2]) 100, CallPut (seed_item [3]) 100, CallGet (replicate 32 1) 200] new_inner \<and>
   answers (sqlite_storage toy_crypto seed_limits)
     [CallPut (seed_item [1]) 100, CallPut (seed_item [2]) 100, CallPut (seed_item [3]) 100, CallGet (replicate 32 1) 200] empty_table =
   answers (mem_storage toy_crypto seed_limits)
     [CallPut (seed_item [1]) 100, CallPut (seed_item [2]) 100, CallPut (seed_item [3]) 100, CallGet (replicate 32 1) 200] new_inner"
proof -
  let ?cs = "[CallPut (seed_item [1]) 100, CallPut (seed_item [2]) 100, CallPut (seed_item [3]) 100, CallGet (replicate 32 1) 200]"
  have l: "limits_ok seed_limits" "key_room seed_limits"
    by (simp_all add: limits_ok_def key_room_def seed_limits_def MAX_VALUE_BYTES_def)
  have "\<forall>c \<in> set ?cs. call_ok seed_limits c"
    by (simp add: item_ok_def time_ok_def seed_item_def seed_limits_def)
  from backends_agree [OF l(1) this, of toy_crypto] l show ?thesis by blast
qed

text \<open>
  \<open>SqliteStorage\<close> does not enforce \<open>max_bytes_per_key\<close>: an admitted new value goes in and nothing
  leaves, whatever the bytes already held under its key, as long as the key holds fewer than
  \<open>max_items_per_key\<close> items and the whole store has room. With the default limits, which the relay
  runs with, a key that holds four values of 4 MiB takes a fifth and holds 20 MiB, 4 MiB over
  the limit that \<open>MemStorage\<close> and \<open>DbStorage\<close> keep.
\<close>

theorem seed_key_bytes_unchecked:
  assumes "limits_ok lim" and "table_ok C t" and "item_ok it" and "time_ok lim now"
    and "admit it lim now = Inr it'" and "\<not> holds_value C (table_items t) it'"
    and "length (of_key (item_key it') (table_items t)) < max_items_per_key lim"
    and "total_len (table_items t) + item_len it' \<le> max_total_bytes lim"
  shows "\<exists>t'. sqlite_put C lim None t it now = (Inr (), t') \<and> table_ok C t' \<and> table_items t' = table_items t @ [it']"
proof -
  define L where "L = lim\<lparr>max_bytes_per_key := total_len (table_items t) + item_len it'\<rparr>"
  have "\<not> total_len (table_items t) < total_len (of_key k (drop n (table_items t)))" for k n
    using of_key_total_drop [of k n "table_items t"] sum_list_filter_le [of item_len "\<lambda>it. item_key it = k" "table_items t"]
    by linarith
  then have L: "count_decides L (item_len it') (item_key it') (table_items t)"
    by (simp add: count_decides_def key_full_def L_def)
  have "spec_evict_key L (item_len it') (item_key it') xs = xs"
    if "\<not> key_full L (item_len it') (item_key it') xs" for xs
    using that by (induction xs) (auto simp: key_full_def split: if_splits)
  moreover have "spec_evict_oldest lim (item_len it') (table_items t) = table_items t"
    using assms(8) by (cases "table_items t") auto
  moreover have "max_items_per_key L = max_items_per_key lim" by (simp add: L_def)
  ultimately show ?thesis
    using sqlite_put_spec [OF assms(1-5) L] assms(6,7) count_decidesD [OF L] by (simp add: not_le)
qed

definition big_value :: "u8 \<Rightarrow> bytes" where
  "big_value b = replicate MAX_VALUE_BYTES b"

definition big_row :: "int \<Rightarrow> u8 \<Rightarrow> DhtRow" where
  "big_row i b = \<lparr>row_id = i, row_key = replicate 32 1, row_value = big_value b,
     row_hash = sha256 toy_crypto [big_value b], row_delete = None, row_expires = 600\<rparr>"

definition big_table :: DhtTable where
  "big_table = \<lparr>rows = [big_row 1 1, big_row 2 2, big_row 3 3, big_row 4 4], last_rowid = 4\<rparr>"

lemma big_hash: "sha256 toy_crypto [big_value a] = sha256 toy_crypto [big_value b] \<longleftrightarrow> a = b"
proof -
  have "sha256 toy_crypto [big_value c] ! 0 = c" for c
    by (simp add: sha256_def toy_crypto_def fit_def big_value_def nth_append MAX_VALUE_BYTES_def)
  then show ?thesis by metis
qed

lemma seed_key_bytes_unchecked_witness:
  "\<exists>t'. sqlite_put toy_crypto default_limits None big_table (seed_item (big_value 5)) 100 = (Inr (), t') \<and>
     total_len (of_key (replicate 32 1) (table_items t')) > max_bytes_per_key default_limits"
proof -
  have lens: "length (big_value b) = 4194304" for b by (simp add: big_value_def MAX_VALUE_BYTES_def)
  have lim: "limits_ok default_limits" by (simp add: limits_ok_def default_limits_def)
  have t: "table_ok toy_crypto big_table"
    by (simp add: table_ok_def rows_ok_def row_ok_def big_table_def big_row_def)
  have time: "time_ok default_limits 100"
    by (simp add: time_ok_def default_limits_def MAIL_TTL_MS_def DAY_MS_def)
  have a: "admit (seed_item (big_value 5)) default_limits 100 = Inr (seed_item (big_value 5))"
    by (simp add: admit_def seed_item_def lens default_limits_def MAX_VALUE_BYTES_def MAIL_TTL_MS_def DAY_MS_def min_def)
  have "\<not> holds_value toy_crypto (table_items big_table) (seed_item (big_value 5))"
    by (simp add: holds_value_def table_items_def big_table_def big_row_def seed_item_def big_hash)
  from seed_key_bytes_unchecked [OF lim t _ time a this]
  show ?thesis
    by (auto simp: item_ok_def seed_item_def table_items_def big_table_def big_row_def lens default_limits_def)
qed

end
