(* ===== verification/Relay_Sql.thy ===== *)
theory Relay_Sql
  imports Relay_Store
begin

text \<open>
  \<open>core/relay/src/storage.rs\<close>: the mail store of the standalone relay, two tables of a SQLite
  database. As in \<open>Dht_Sql\<close>, a table is its rows and a statement is the list function its SQL
  denotes; ids and times are SQL integers, the clock is an argument. The store promises its
  connections what the built-in relay's does: it interprets the same locale \<open>mailbox\<close>.
\<close>

record BundleRow =
  br_pk :: bytes
  br_bundle :: bytes
  br_updated :: int

record MailRow =
  mr_id :: int
  mr_to :: bytes
  mr_blob :: bytes
  mr_at :: int

record RelayDb =
  db_bundles :: "BundleRow list"
  db_messages :: "MailRow list"
  db_last_id :: int

definition SQL_BUNDLE_TTL_MS :: int where
  "SQL_BUNDLE_TTL_MS = 30 * 24 * 3600 * 1000"

definition SQL_MESSAGE_TTL_MS :: int where
  "SQL_MESSAGE_TTL_MS = 14 * 24 * 3600 * 1000"

definition SQL_PENDING_LIMIT :: int where
  "SQL_PENDING_LIMIT = 200"

definition MAX_PER_RECIPIENT :: int where
  "MAX_PER_RECIPIENT = 50000"

definition relay_db_new :: RelayDb where
  "relay_db_new = \<lparr>db_bundles = [], db_messages = [], db_last_id = 0\<rparr>"

definition sql_store_bundle :: "RelayDb \<Rightarrow> bytes \<Rightarrow> bytes \<Rightarrow> int \<Rightarrow> RelayDb" where
  "sql_store_bundle d pk bundle_bytes now =
     (let row = \<lparr>br_pk = pk, br_bundle = bundle_bytes, br_updated = now\<rparr> in
      if list_ex (\<lambda>b. br_pk b = pk) (db_bundles d)
      then d\<lparr>db_bundles := map (\<lambda>b. if br_pk b = pk then row else b) (db_bundles d)\<rparr>
      else d\<lparr>db_bundles := db_bundles d @ [row]\<rparr>)"

definition sql_get_bundle :: "RelayDb \<Rightarrow> bytes \<Rightarrow> bytes option" where
  "sql_get_bundle d pk = map_option br_bundle (find (\<lambda>b. br_pk b = pk) (db_bundles d))"

abbreviation mail_to :: "bytes \<Rightarrow> MailRow list \<Rightarrow> MailRow list" where
  "mail_to pk ms \<equiv> filter (\<lambda>m. mr_to m = pk) ms"

definition sql_deposit :: "RelayDb \<Rightarrow> bytes \<Rightarrow> bytes \<Rightarrow> int \<Rightarrow> RelayDb \<times> int" where
  "sql_deposit d to bl now =
     (let i = db_last_id d + 1;
          ms = db_messages d @ [\<lparr>mr_id = i, mr_to = to, mr_blob = bl, mr_at = now\<rparr>];
          n = int (length (mail_to to ms));
          ms' = (if n > MAX_PER_RECIPIENT
                 then (let gone = mr_id ` set (take (nat (n - MAX_PER_RECIPIENT)) (sort_key mr_id (mail_to to ms)))
                       in filter (\<lambda>m. mr_id m \<notin> gone) ms)
                 else ms)
      in (d\<lparr>db_messages := ms', db_last_id := i\<rparr>, i))"

definition sql_pending_above :: "RelayDb \<Rightarrow> bytes \<Rightarrow> int \<Rightarrow> (int \<times> bytes) list" where
  "sql_pending_above d pk cursor =
     map (\<lambda>m. (mr_id m, mr_blob m))
       (take (nat SQL_PENDING_LIMIT)
          (sort_key mr_id (filter (\<lambda>m. mr_to m = pk \<and> mr_id m > cursor) (db_messages d))))"

definition sql_pending_for :: "RelayDb \<Rightarrow> bytes \<Rightarrow> (int \<times> bytes) list" where
  "sql_pending_for d pk = sql_pending_above d pk 0"

definition sql_ack :: "RelayDb \<Rightarrow> bytes \<Rightarrow> int \<Rightarrow> RelayDb" where
  "sql_ack d pk i = d\<lparr>db_messages := filter (\<lambda>m. \<not> (mr_id m = i \<and> mr_to m = pk)) (db_messages d)\<rparr>"

definition sql_gc :: "RelayDb \<Rightarrow> int \<Rightarrow> RelayDb" where
  "sql_gc d now =
     d\<lparr>db_messages := filter (\<lambda>m. \<not> mr_at m < now - SQL_MESSAGE_TTL_MS) (db_messages d),
       db_bundles := filter (\<lambda>b. \<not> br_updated b < now - SQL_BUNDLE_TTL_MS) (db_bundles d)\<rparr>"

definition sql_stats :: "RelayDb \<Rightarrow> int \<times> int" where
  "sql_stats d = (int (length (db_bundles d)), int (length (db_messages d)))"

section \<open>The invariant\<close>

definition rows_sorted :: "MailRow list \<Rightarrow> bool" where
  "rows_sorted ms \<longleftrightarrow> sorted_wrt (<) (map mr_id ms)"

definition relay_db_ok :: "RelayDb \<Rightarrow> bool" where
  "relay_db_ok d \<longleftrightarrow> rows_sorted (db_messages d) \<and>
     (\<forall>m \<in> set (db_messages d). 0 < mr_id m \<and> mr_id m \<le> db_last_id d) \<and> 0 \<le> db_last_id d \<and>
     (\<forall>pk. int (length (mail_to pk (db_messages d))) \<le> MAX_PER_RECIPIENT) \<and> distinct (map br_pk (db_bundles d))"

definition sql_box :: "RelayDb \<Rightarrow> bytes \<Rightarrow> (nat \<times> bytes) list" where
  "sql_box d pk = map (\<lambda>m. (nat (mr_id m), mr_blob m)) (mail_to pk (db_messages d))"

lemma rows_sorted_filter [intro]: "rows_sorted ms \<Longrightarrow> rows_sorted (filter P ms)"
  by (simp add: rows_sorted_def sorted_wrt_map sorted_wrt_filter)

lemma rows_sorted_id: "rows_sorted ms \<Longrightarrow> sort_key mr_id ms = ms"
  by (rule sort_key_id_if_sorted) (simp add: rows_sorted_def strict_sorted_iff)

lemma relay_db_ok_filter:
  "relay_db_ok d \<Longrightarrow> relay_db_ok (d\<lparr>db_messages := filter P (db_messages d)\<rparr>)"
proof -
  assume ok: "relay_db_ok d"
  have less: "length (mail_to pk (filter P ms)) \<le> length (mail_to pk ms)" for pk ms
    by (induction ms) auto
  have "int (length (mail_to pk (filter P (db_messages d)))) \<le> MAX_PER_RECIPIENT" for pk
    using ok less [of pk "db_messages d"] unfolding relay_db_ok_def by (meson of_nat_mono order_trans)
  with ok show ?thesis by (auto simp: relay_db_ok_def simp del: filter_filter)
qed

lemma filter_not_taken:
  assumes "distinct xs"
  shows "filter (\<lambda>x. x \<notin> set (take n xs)) xs = drop n xs"
proof -
  have "filter (\<lambda>x. x \<notin> set (take n xs)) (take n xs) = []" by (simp add: filter_empty_conv)
  moreover have "filter (\<lambda>x. x \<notin> set (take n xs)) (drop n xs) = drop n xs"
    using set_take_disj_set_drop_if_distinct [OF assms, of n n] by (auto simp: filter_id_conv)
  ultimately show ?thesis by (metis append_Nil append_take_drop_id filter_append)
qed

text \<open>Dropping the first \<open>n\<close> rows of a recipient takes nothing from anyone else.\<close>

lemma drop_first_rows:
  assumes "rows_sorted ms"
  shows "mail_to r (filter (\<lambda>m. mr_id m \<notin> mr_id ` set (take n (mail_to pk ms))) ms) =
    (if r = pk then drop n (mail_to pk ms) else mail_to r ms)"
proof -
  have inj: "inj_on mr_id (set ms)" using assms by (auto simp: rows_sorted_def strict_sorted_iff distinct_map)
  have gone: "mr_id m \<in> mr_id ` set (take n (mail_to pk ms)) \<longleftrightarrow> m \<in> set (take n (mail_to pk ms))" if "m \<in> set ms" for m
    using that inj set_take_subset [of n "mail_to pk ms"] by (fastforce dest: inj_onD)
  have "distinct (mail_to pk ms)" using assms by (auto simp: rows_sorted_def strict_sorted_iff distinct_map)
  then have "filter (\<lambda>m. m \<notin> set (take n (mail_to pk ms))) (mail_to pk ms) = drop n (mail_to pk ms)"
    by (rule filter_not_taken)
  moreover have "filter (\<lambda>m. m \<notin> set (take n (mail_to pk ms))) (mail_to r ms) = mail_to r ms" if "r \<noteq> pk"
    using that by (subst filter_id_conv) (auto dest: in_set_takeD)
  moreover have "mail_to r (filter (\<lambda>m. mr_id m \<notin> mr_id ` set (take n (mail_to pk ms))) ms) =
      filter (\<lambda>m. m \<notin> set (take n (mail_to pk ms))) (mail_to r ms)"
    unfolding filter_filter using gone by (intro filter_cong) auto
  ultimately show ?thesis by auto
qed

section \<open>What the operations do\<close>

definition deposited_rows :: "RelayDb \<Rightarrow> bytes \<Rightarrow> bytes \<Rightarrow> int \<Rightarrow> MailRow list" where
  "deposited_rows d to bl now =
     db_messages d @ [\<lparr>mr_id = db_last_id d + 1, mr_to = to, mr_blob = bl, mr_at = now\<rparr>]"

lemma deposited_rows_sorted: "relay_db_ok d \<Longrightarrow> rows_sorted (deposited_rows d to bl now)"
  by (auto simp: relay_db_ok_def rows_sorted_def deposited_rows_def sorted_wrt_append zless_add1_eq)

lemma sql_deposit_rows:
  assumes "relay_db_ok d"
  shows "mail_to r (db_messages (fst (sql_deposit d to bl now))) =
     (if r = to then drop (length (mail_to to (deposited_rows d to bl now)) - nat MAX_PER_RECIPIENT)
                       (mail_to to (deposited_rows d to bl now))
      else mail_to r (db_messages d))"
    and "set (db_messages (fst (sql_deposit d to bl now))) \<subseteq> set (deposited_rows d to bl now)"
    and "rows_sorted (db_messages (fst (sql_deposit d to bl now)))"
proof -
  let ?ms = "deposited_rows d to bl now"
  let ?n = "length (mail_to to ?ms) - nat MAX_PER_RECIPIENT"
  have sorted: "rows_sorted ?ms" by (rule deposited_rows_sorted [OF assms])
  have n: "nat (int (length (mail_to to ?ms)) - MAX_PER_RECIPIENT) = ?n" by (simp add: MAX_PER_RECIPIENT_def)
  have none: "int (length (mail_to to ?ms)) \<le> MAX_PER_RECIPIENT \<Longrightarrow> ?n = 0" by (simp add: MAX_PER_RECIPIENT_def)
  have ms: "db_messages (fst (sql_deposit d to bl now)) =
      filter (\<lambda>m. mr_id m \<notin> mr_id ` set (take ?n (mail_to to ?ms))) ?ms"
    using none unfolding sql_deposit_def Let_def deposited_rows_def [symmetric] n
      rows_sorted_id [OF rows_sorted_filter [OF sorted]] by simp
  have other: "mail_to r ?ms = mail_to r (db_messages d)" if "r \<noteq> to" using that by (simp add: deposited_rows_def)
  show "mail_to r (db_messages (fst (sql_deposit d to bl now))) =
     (if r = to then drop ?n (mail_to to ?ms) else mail_to r (db_messages d))"
    unfolding ms drop_first_rows [OF sorted] using other by simp
  show "set (db_messages (fst (sql_deposit d to bl now))) \<subseteq> set ?ms" unfolding ms by auto
  show "rows_sorted (db_messages (fst (sql_deposit d to bl now)))" unfolding ms using sorted by auto
qed

lemma sql_deposit_ok:
  assumes "relay_db_ok d"
  shows "relay_db_ok (fst (sql_deposit d to bl now))"
proof -
  let ?d = "fst (sql_deposit d to bl now)"
  have same: "db_last_id ?d = db_last_id d + 1" "db_bundles ?d = db_bundles d"
    by (simp_all add: sql_deposit_def Let_def)
  have "\<forall>m \<in> set (deposited_rows d to bl now). 0 < mr_id m \<and> mr_id m \<le> db_last_id d + 1" "0 \<le> db_last_id d"
    using assms by (auto simp: relay_db_ok_def deposited_rows_def)
  moreover have "int (length (mail_to r (db_messages ?d))) \<le> MAX_PER_RECIPIENT" for r
    unfolding sql_deposit_rows(1) [OF assms] using assms by (auto simp: relay_db_ok_def MAX_PER_RECIPIENT_def)
  ultimately show ?thesis
    using sql_deposit_rows(2,3) [OF assms, of to bl now] assms unfolding relay_db_ok_def same by auto
qed

lemma sql_deposit_id: "snd (sql_deposit d to bl now) = db_last_id d + 1"
  by (simp add: sql_deposit_def Let_def)

lemma sql_deposit_box:
  assumes "relay_db_ok d"
  shows "sql_box (fst (sql_deposit d to bl now)) r =
     (if r = to then drop (Suc (length (sql_box d to)) - nat MAX_PER_RECIPIENT)
                       (sql_box d to @ [(nat (snd (sql_deposit d to bl now)), bl)])
      else sql_box d r)"
  by (simp add: sql_box_def sql_deposit_rows(1) [OF assms] sql_deposit_id deposited_rows_def drop_map [symmetric])

lemma sql_pending_box:
  assumes "relay_db_ok d"
  shows "map (map_prod nat id) (sql_pending_above d pk (int c)) =
    take PENDING_LIMIT (filter (\<lambda>p. c < fst p) (sql_box d pk))"
proof -
  have "filter (\<lambda>m. mr_to m = pk \<and> mr_id m > int c) (db_messages d) =
      filter (\<lambda>m. mr_to m = pk \<and> c < nat (mr_id m)) (db_messages d)"
    by (intro filter_cong) auto
  then show ?thesis
    using rows_sorted_id [OF rows_sorted_filter] assms
    by (simp add: sql_pending_above_def sql_box_def relay_db_ok_def filter_map comp_def take_map
        SQL_PENDING_LIMIT_def PENDING_LIMIT_def)
qed

lemma sql_ack_box:
  assumes "relay_db_ok d"
  shows "sql_box (sql_ack d pk j) r = (if r = pk then filter (\<lambda>p. int (fst p) \<noteq> j) (sql_box d r) else sql_box d r)"
proof -
  have "filter (\<lambda>m. \<not> (mr_id m = j \<and> mr_to m = pk)) (mail_to r (db_messages d)) =
      filter (\<lambda>m. \<not> (int (nat (mr_id m)) = j \<and> r = pk)) (mail_to r (db_messages d))"
    using assms by (intro filter_cong) (auto simp: relay_db_ok_def)
  then show ?thesis
    by (auto simp: sql_box_def sql_ack_def filter_map comp_def conj_commute intro!: arg_cong [where f = "map _"])
qed

lemma sql_box_sorted: "relay_db_ok d \<Longrightarrow> sorted_wrt (<) (map fst (sql_box d pk))"
  unfolding sql_box_def relay_db_ok_def rows_sorted_def sorted_wrt_map map_map comp_def fst_conv
  by (auto intro!: sorted_wrt_filter elim!: sorted_wrt_mono_rel [rotated])

interpretation sql_mail: mailbox relay_db_ok sql_box
  "\<lambda>d pk c. map (map_prod nat id) (sql_pending_above d pk (int c))" "\<lambda>d pk i. sql_ack d pk (int i)"
  "\<lambda>d to bl now. case sql_deposit d to bl (int now) of (d', i) \<Rightarrow> Some (Inr (nat i, d'))"
proof unfold_locales
  fix d :: RelayDb and pk r to bl :: bytes and c i now and d'
  assume ok: "relay_db_ok d"
  show "sorted_wrt (<) (map fst (sql_box d pk))" by (rule sql_box_sorted [OF ok])
  show "map (map_prod nat id) (sql_pending_above d pk (int c)) =
      take PENDING_LIMIT (filter (\<lambda>p. c < fst p) (sql_box d pk))" by (rule sql_pending_box [OF ok])
  show "relay_db_ok (sql_ack d pk (int i))" unfolding sql_ack_def by (rule relay_db_ok_filter [OF ok])
  show "sql_box (sql_ack d pk (int i)) r =
      (if r = pk then filter (\<lambda>p. fst p \<noteq> i) (sql_box d r) else sql_box d r)" using sql_ack_box [OF ok, of pk "int i"] by simp
  show "(case sql_deposit d to bl (int now) of (d', i) \<Rightarrow> Some (Inr (nat i, d'))) \<noteq> None"
    by (simp add: case_prod_beta)
  assume "(case sql_deposit d to bl (int now) of (d', i) \<Rightarrow> Some (Inr (nat i, d'))) = Some (Inr (i, d'))"
  then have d': "d' = fst (sql_deposit d to bl (int now))" and i: "i = nat (db_last_id d + 1)"
    by (auto simp: case_prod_beta sql_deposit_id)
  have "\<exists>kept. sql_box d' to = kept @ [(i, bl)] \<and> set kept \<subseteq> set (sql_box d to)"
    unfolding d' sql_deposit_box [OF ok] sql_deposit_id i
    by (auto simp: MAX_PER_RECIPIENT_def dest: in_set_dropD)
  moreover have "\<forall>r. \<forall>p \<in> set (sql_box d r). fst p < i"
    using ok by (auto simp: i sql_box_def relay_db_ok_def)
  ultimately show "relay_db_ok d' \<and> (\<exists>kept. sql_box d' to = kept @ [(i, bl)] \<and> set kept \<subseteq> set (sql_box d to)) \<and>
      (\<forall>r. \<forall>p \<in> set (sql_box d r). fst p < i)"
    using sql_deposit_ok [OF ok] d' by blast
qed

section \<open>Properties\<close>

datatype MailCall = McBundle bytes bytes int | McDeposit bytes bytes int | McAck bytes int | McGc int

fun mail_call :: "RelayDb \<Rightarrow> MailCall \<Rightarrow> RelayDb" where
  "mail_call d (McBundle pk b now) = sql_store_bundle d pk b now"
| "mail_call d (McDeposit to bl now) = fst (sql_deposit d to bl now)"
| "mail_call d (McAck pk i) = sql_ack d pk i"
| "mail_call d (McGc now) = sql_gc d now"

lemma sql_store_bundle_ok: "relay_db_ok d \<Longrightarrow> relay_db_ok (sql_store_bundle d pk b now)"
proof -
  assume ok: "relay_db_ok d"
  have "map br_pk (map (\<lambda>x. if br_pk x = pk then \<lparr>br_pk = pk, br_bundle = b, br_updated = now\<rparr> else x) bs) = map br_pk bs" for bs
    by simp
  with ok show ?thesis
    by (auto simp: relay_db_ok_def sql_store_bundle_def Let_def list_ex_iff simp del: map_map)
qed

lemma mail_call_ok: "relay_db_ok d \<Longrightarrow> relay_db_ok (mail_call d c)"
proof (cases c)
  case (McGc now)
  assume "relay_db_ok d"
  from relay_db_ok_filter [OF this, of "\<lambda>m. \<not> mr_at m < now - SQL_MESSAGE_TTL_MS"] show ?thesis
    by (auto simp: McGc sql_gc_def relay_db_ok_def distinct_map_filter)
qed (auto simp: sql_store_bundle_ok sql_deposit_ok sql_ack_def intro: relay_db_ok_filter)

lemma mail_call_last: "db_last_id (mail_call d c) \<le> db_last_id d + 1"
  by (cases c) (simp_all add: sql_store_bundle_def sql_deposit_def sql_ack_def sql_gc_def Let_def)

lemma relay_db_run:
  "relay_db_ok d \<Longrightarrow> relay_db_ok (foldl mail_call d cs) \<and> db_last_id (foldl mail_call d cs) \<le> db_last_id d + int (length cs)"
proof (induction cs arbitrary: d)
  case (Cons c cs)
  from Cons.IH [OF mail_call_ok [OF Cons.prems], of c] mail_call_last [of d c] show ?case by simp
qed simp

lemma relay_db_new_ok: "relay_db_ok relay_db_new"
  by (simp add: relay_db_ok_def relay_db_new_def rows_sorted_def MAX_PER_RECIPIENT_def)

text \<open>
  C29. The standalone relay's mail, after any sequence of calls from an empty database. A deposit puts its
  message last in the recipient's mail under a number above every earlier one, drops the oldest of that
  recipient only when there are more than 50000, and changes no one else's mail; an acknowledgement
  takes away that one message of that one recipient, so no one can delete another's mail; and paging with
  \<open>pending_above\<close> from the last number seen returns the whole of a recipient's mail, in
  order and once, within 250 pages. For histories shorter than the ids SQLite can give out.
\<close>

theorem seed_mail_contract:
  assumes "length cs < 2 ^ 63 - 1"
  defines "d \<equiv> foldl mail_call relay_db_new cs"
  shows "sql_box (fst (sql_deposit d to bl now)) r =
      (if r = to then drop (Suc (length (sql_box d to)) - 50000) (sql_box d to @ [(nat (snd (sql_deposit d to bl now)), bl)])
       else sql_box d r) \<and>
    (\<forall>k. \<forall>p \<in> set (sql_box d k). int (fst p) < snd (sql_deposit d to bl now)) \<and>
    sql_box (sql_ack d pk j) r = (if r = pk then filter (\<lambda>p. int (fst p) \<noteq> j) (sql_box d r) else sql_box d r) \<and>
    batches (\<lambda>c. map (map_prod nat id) (sql_pending_above d pk (int c))) 250 0 = sql_box d pk"
proof -
  have ok: "relay_db_ok d" and l: "db_last_id d \<le> int (length cs)"
    using relay_db_run [OF relay_db_new_ok, of cs] by (simp_all add: d_def relay_db_new_def)
  have ids: "0 < fst p \<and> int (fst p) \<le> db_last_id d" if "p \<in> set (sql_box d k)" for k p
    using that ok by (auto simp: sql_box_def relay_db_ok_def)
  have "length (sql_box d pk) \<le> 50000"
    using ok by (simp add: relay_db_ok_def sql_box_def MAX_PER_RECIPIENT_def)
  moreover have "filter (\<lambda>p. 0 < fst p) (sql_box d pk) = sql_box d pk" using ids by (auto simp: filter_id_conv)
  moreover have "fst p < 2 ^ 64 - 1" if "p \<in> set (sql_box d pk)" for p using ids [OF that] l assms(1) by simp
  ultimately have "batches (\<lambda>c. map (map_prod nat id) (sql_pending_above d pk (int c))) 250 0 = sql_box d pk"
    using sql_mail.batches_complete [OF ok, of pk 0 250] by (simp add: PENDING_LIMIT_def)
  then show ?thesis
    using sql_deposit_box [OF ok, of to bl now r] sql_ack_box [OF ok] ids
    by (auto simp: MAX_PER_RECIPIENT_def sql_deposit_id intro: le_less_trans)
qed

lemma seed_mail_contract_witness:
  "let d = foldl mail_call relay_db_new [McDeposit [1] [7] 5, McDeposit [2] [8] 6, McAck [2] 1]
   in batches (\<lambda>c. map (map_prod nat id) (sql_pending_above d [1] (int c))) 250 0 = [(1, [7])] \<and>
      sql_box (fst (sql_deposit d [1] [9] 7)) [1] = [(1, [7]), (3, [9])]"
proof -
  let ?cs = "[McDeposit [1] [7] 5, McDeposit [2] [8] 6, McAck [2] 1]"
  have box: "sql_box (foldl mail_call relay_db_new ?cs) [1] = [(1, [7])]" "db_last_id (foldl mail_call relay_db_new ?cs) = 2"
    by (simp_all add: relay_db_new_def sql_deposit_def sql_ack_def sql_box_def MAX_PER_RECIPIENT_def)
  have "length ?cs < 2 ^ 63 - 1" by simp
  from seed_mail_contract [OF this, of "[1]" "[9]" 7 "[1]" "[1]" 0] show ?thesis
    unfolding Let_def by (simp only: box sql_deposit_id) simp
qed

end
