(* ===== verification/Sanitizer.thy ===== *)
theory Sanitizer
  imports Crypto_Prims Str_Ops File_Parts
begin

text \<open>
  \<open>core/src/sanitizer.rs\<close>: what an attachment says about its author and device is taken out before
  it is sent. A file and a name are their bytes. The loops of the source advance an index into the
  file; here the position is the rest of the file from there. A message to the user is a
  constructor of \<open>SanitizeError\<close> and the reason in it one of \<open>Reason\<close>. Not under \<open>src/\<close> and so arguments:
  Unicode's case mappings and the PDF library (reading, pruning and writing a document; what
  \<open>clean_pdf\<close> does to the document in between is modelled). Names are split as \<open>std::path\<close> does on Unix. \<open>read_one_attachment\<close> and \<open>prepare_attachment\<close> of
  \<open>core/src/lib.rs\<close> decide which files go through the filter.
\<close>

datatype Reason =
    NoStart | ExpectedMarker | UnexpectedMarker | TruncatedSegment | SegmentPastEnd | NoEnd
  | TruncatedChunk | ChunkPastEnd | NotIhdr | RiffTooLarge | PdfProblem bytes | Encrypted | WrongContent

datatype SanitizeError = Malformed bytes Reason | CannotClean bytes | TooBig

datatype Format = Jpeg | Png | Webp | Pdf | Unsupported bytes

record unicode_case =
  to_lowercase :: "bytes \<Rightarrow> bytes"
  to_uppercase :: "bytes \<Rightarrow> bytes"

section \<open>What is it\<close>

definition CLEANABLE_EXT :: "bytes list" where
  "CLEANABLE_EXT = map ascii [''jpg'', ''jpeg'', ''jpe'', ''jfif'', ''png'', ''webp'', ''pdf'']"

definition UNSUPPORTED_EXT :: "bytes list" where
  "UNSUPPORTED_EXT = map ascii
     [''heic'', ''heif'', ''avif'', ''tif'', ''tiff'', ''dng'', ''cr2'', ''cr3'', ''nef'', ''arw'', ''raf'',
      ''orf'', ''rw2'', ''mp4'', ''m4v'', ''mov'', ''3gp'', ''mkv'', ''webm'', ''avi'']"

definition PNG_SIG :: bytes where
  "PNG_SIG = [0x89, 0x50, 0x4E, 0x47, 0x0D, 0x0A, 0x1A, 0x0A]"

definition sniff :: "bytes \<Rightarrow> Format option" where
  "sniff d =
     (if starts_with d [0xFF, 0xD8, 0xFF] then Some Jpeg
      else if starts_with d PNG_SIG then Some Png
      else if length d \<ge> 12 \<and> take 4 d = ascii ''RIFF'' then
        (if take 4 (drop 8 d) = ascii ''WEBP'' then Some Webp
         else if take 4 (drop 8 d) = ascii ''AVI '' then Some (Unsupported (ascii ''AVI''))
         else None)
      else if length d \<ge> 12 \<and> take 4 (drop 4 d) = ascii ''ftyp'' then Some (Unsupported (ascii ''HEIC/AVIF/MP4/MOV''))
      else if starts_with d (ascii ''II*'' @ [0]) \<or> starts_with d (ascii ''MM'' @ [0, 0x2A])
        then Some (Unsupported (ascii ''TIFF/RAW''))
      else if starts_with d [0x1A, 0x45, 0xDF, 0xA3] then Some (Unsupported (ascii ''MKV/WebM''))
      else if has_window (ascii ''%PDF-'') (take 1024 d) then Some Pdf
      else None)"

section \<open>Names\<close>

text \<open>\<open>Path::file_name\<close>, and the split of a file name at its last dot.\<close>

definition file_name :: "bytes \<Rightarrow> bytes option" where
  "file_name path =
     (case rev (filter (\<lambda>c. c \<noteq> [] \<and> c \<noteq> ascii ''.'') (split_on 0x2F path)) of
        [] \<Rightarrow> None
      | c # _ \<Rightarrow> if c = ascii ''..'' then None else Some c)"

definition rsplit_dot :: "bytes \<Rightarrow> bytes option \<times> bytes option" where
  "rsplit_dot f =
     (let after = rev (takeWhile (\<lambda>c. c \<noteq> 0x2E) (rev f));
          front = dropWhile (\<lambda>c. c \<noteq> 0x2E) (rev f)
      in case front of
           [] \<Rightarrow> (None, Some f)
         | _ # before \<Rightarrow> if before = [] then (Some f, None) else (Some (rev before), Some after))"

definition file_stem :: "bytes \<Rightarrow> bytes option" where
  "file_stem path =
     (case file_name path of
        None \<Rightarrow> None
      | Some f \<Rightarrow> (case rsplit_dot f of (Some b, _) \<Rightarrow> Some b | (None, a) \<Rightarrow> a))"

definition path_extension :: "bytes \<Rightarrow> bytes option" where
  "path_extension path =
     (case file_name path of
        None \<Rightarrow> None
      | Some f \<Rightarrow> (case rsplit_dot f of (Some _, a) \<Rightarrow> a | (None, _) \<Rightarrow> None))"

definition extension :: "unicode_case \<Rightarrow> bytes \<Rightarrow> bytes" where
  "extension U name = (case path_extension name of None \<Rightarrow> [] | Some e \<Rightarrow> to_lowercase U e)"

definition strip_paste_prefix :: "bytes \<Rightarrow> bytes" where
  "strip_paste_prefix name =
     (let head = takeWhile (\<lambda>c. c \<noteq> 0x2D) name in
      case dropWhile (\<lambda>c. c \<noteq> 0x2D) name of
        [] \<Rightarrow> name
      | _ # rest \<Rightarrow> if length head \<ge> 10 \<and> list_all is_digit head \<and> rest \<noteq> [] then rest else name)"

definition digits_after :: "bytes \<Rightarrow> bytes \<Rightarrow> bool" where
  "digits_after s prefix =
     (case strip_prefix prefix s of
        None \<Rightarrow> False
      | Some rest \<Rightarrow>
          (case dropWhile (\<lambda>c. c = 0x5F \<or> c = 0x2D \<or> c = 0x20) rest of
             [] \<Rightarrow> False
           | c # _ \<Rightarrow> is_digit c))"

text \<open>The two Cyrillic prefixes are "\<open>snimok ekrana\<close>" and "\<open>skrinshot\<close>" in UTF-8.\<close>

definition MACHINE_PREFIXES :: "bytes list" where
  "MACHINE_PREFIXES = [ascii ''screenshot'', ascii ''screen shot'',
     [0xD1, 0x81, 0xD0, 0xBD, 0xD0, 0xB8, 0xD0, 0xBC, 0xD0, 0xBE, 0xD0, 0xBA, 0x20,
      0xD1, 0x8D, 0xD0, 0xBA, 0xD1, 0x80, 0xD0, 0xB0, 0xD0, 0xBD, 0xD0, 0xB0],
     [0xD1, 0x81, 0xD0, 0xBA, 0xD1, 0x80, 0xD0, 0xB8, 0xD0, 0xBD, 0xD1, 0x88, 0xD0, 0xBE, 0xD1, 0x82],
     ascii ''whatsapp image'', ascii ''clipboard'']"

definition looks_machine_made :: "unicode_case \<Rightarrow> bytes \<Rightarrow> bool" where
  "looks_machine_made U stem =
     (let s = to_lowercase U stem in
      list_ex (digits_after s) (map ascii
        [''img'', ''dsc'', ''dscn'', ''dscf'', ''pxl'', ''vid'', ''mvimg'', ''photo'', ''image'', ''signal'', ''viber_image'']) \<or>
      list_ex (starts_with s) MACHINE_PREFIXES \<or>
      (length (filter is_digit s) \<ge> 8 \<and>
       list_all (\<lambda>c. is_digit c \<or> c = 0x5F \<or> c = 0x2D \<or> c = 0x20 \<or> c = 0x2E) s))"

definition neutral_name :: "crypto \<Rightarrow> unicode_case \<Rightarrow> bytes \<Rightarrow> bytes \<Rightarrow> bytes \<Rightarrow> bytes \<Rightarrow> bytes" where
  "neutral_name C U original clean ext noun =
     (let name = strip_paste_prefix original;
          stem = (case file_stem name of None \<Rightarrow> [] | Some s \<Rightarrow> s)
      in if \<not> looks_machine_made U stem then name
         else (let digest = Sha256 C clean
               in noun @ ascii ''_'' @ hex_02 (digest ! 0) @ hex_02 (digest ! 1) @ hex_02 (digest ! 2) @ ascii ''.'' @ ext))"

section \<open>JPEG\<close>

definition u16_at :: "bool \<Rightarrow> bytes \<Rightarrow> nat \<Rightarrow> nat option" where
  "u16_at big tiff at_o =
     (if at_o + 2 \<le> length tiff
      then Some ((if big then of_be_bytes else of_le_bytes) (take 2 (drop at_o tiff))) else None)"

definition u32_at :: "bool \<Rightarrow> bytes \<Rightarrow> nat \<Rightarrow> nat option" where
  "u32_at big tiff at_o =
     (if at_o + 4 \<le> length tiff
      then Some ((if big then of_be_bytes else of_le_bytes) (take 4 (drop at_o tiff))) else None)"

text \<open>The entries of IFD0 from number \<open>k\<close>, \<open>n\<close> of them left.\<close>

fun ifd_orientation :: "bool \<Rightarrow> bytes \<Rightarrow> nat \<Rightarrow> nat \<Rightarrow> nat \<Rightarrow> nat option" where
  "ifd_orientation big tiff ifd k 0 = None"
| "ifd_orientation big tiff ifd k (Suc n) =
     (let entry = ifd + (2 + k * 12) in
      case u16_at big tiff entry of
        None \<Rightarrow> None
      | Some tag \<Rightarrow>
          if tag = 0x0112 then
            (case u16_at big tiff (entry + 2) of
               None \<Rightarrow> None
             | Some typ \<Rightarrow>
                 if typ = 3 then
                   (case u32_at big tiff (entry + 4) of
                      None \<Rightarrow> None
                    | Some cnt \<Rightarrow> if cnt = 1 then u16_at big tiff (entry + 8) else None)
                 else None)
          else ifd_orientation big tiff ifd (Suc k) n)"

definition exif_orientation :: "bytes \<Rightarrow> nat option" where
  "exif_orientation tiff =
     (if length tiff < 2 then None
      else if take 2 tiff \<noteq> ascii ''MM'' \<and> take 2 tiff \<noteq> ascii ''II'' then None
      else
        (let big = (take 2 tiff = ascii ''MM'') in
         case u16_at big tiff 2 of
           None \<Rightarrow> None
         | Some magic \<Rightarrow>
             if magic \<noteq> 42 then None
             else (case u32_at big tiff 4 of
                None \<Rightarrow> None
              | Some ifd \<Rightarrow>
                  (case u16_at big tiff ifd of
                     None \<Rightarrow> None
                   | Some cnt \<Rightarrow> ifd_orientation big tiff ifd 0 cnt))))"

definition u16_to_be_bytes :: "nat \<Rightarrow> bytes" where
  "u16_to_be_bytes n = rev (le_bytes 2 n)"

definition orientation_segment :: "nat \<Rightarrow> bytes" where
  "orientation_segment ori =
     [0xFF, 0xE1, 0x00, 0x22] @ (ascii ''Exif'' @ [0, 0]) @ (ascii ''MM'' @ [0, 0x2A, 0, 0, 0, 0x08]) @ [0x00, 0x01] @
     [0x01, 0x12, 0x00, 0x03, 0x00, 0x00, 0x00, 0x01] @ u16_to_be_bytes ori @ [0x00, 0x00] @ [0x00, 0x00, 0x00, 0x00]"

definition is_rst :: "u8 \<Rightarrow> bool" where
  "is_rst m \<longleftrightarrow> 0xD0 \<le> m \<and> m \<le> 0xD7"

text \<open>The entropy-coded data after a start-of-scan segment, and what follows it.\<close>

fun scan_data :: "bytes \<Rightarrow> (bytes \<times> bytes) option" where
  "scan_data [] = None"
| "scan_data [b] = None"
| "scan_data (b # c # xs) =
     (if b = 0xFF then
        (if c = 0x00 \<or> is_rst c then map_option (\<lambda>(s, r). (b # c # s, r)) (scan_data xs)
         else if c = 0xFF then map_option (\<lambda>(s, r). (b # s, r)) (scan_data (c # xs))
         else Some ([], b # c # xs))
      else map_option (\<lambda>(s, r). (b # s, r)) (scan_data (c # xs)))"

definition jpeg_keep :: "u8 \<Rightarrow> bytes \<Rightarrow> bool" where
  "jpeg_keep marker payload =
     (if marker = 0xE0 then starts_with payload (ascii ''JFIF'' @ [0])
      else if marker = 0xE1 then False
      else if marker = 0xE2 then starts_with payload (ascii ''ICC_PROFILE'' @ [0])
      else if marker = 0xEE then starts_with payload (ascii ''Adobe'')
      else if (0xE3 \<le> marker \<and> marker \<le> 0xEF) \<or> marker = 0xFE then False
      else True)"

definition read_orientation :: "u8 \<Rightarrow> bytes \<Rightarrow> nat option \<Rightarrow> nat option" where
  "read_orientation marker payload orientation =
     (if marker = 0xE1 \<and> orientation = None
      then (case strip_prefix (ascii ''Exif'' @ [0, 0]) payload of
              None \<Rightarrow> None
            | Some tiff \<Rightarrow> exif_orientation tiff)
      else orientation)"

lemma scan_data_shrinks: "scan_data s = Some (x, r) \<Longrightarrow> length r \<le> length s"
  by (induction s arbitrary: x rule: scan_data.induct) (auto split: if_splits)

lemma dropWhile_shrinks: "dropWhile P xs = y # ys \<Longrightarrow> length ys < length xs"
  using length_dropWhile_le [of P xs] by simp

text \<open>The segments up to end of image: \<open>body\<close>, the orientation, and where a leading JFIF header ends.\<close>

function jpeg_loop :: "bytes \<Rightarrow> bytes \<Rightarrow> nat option \<Rightarrow> nat \<Rightarrow> Reason + bytes \<times> nat option \<times> nat" where
  "jpeg_loop rest body orientation jfif_end =
     (if rest = [] then Inl NoEnd
      else if hd rest \<noteq> 0xFF then Inl ExpectedMarker
      else case dropWhile (\<lambda>x. x = 0xFF) rest of
        [] \<Rightarrow> Inl NoEnd
      | marker # rest1 \<Rightarrow>
          if marker = 0xD9 then Inr (body @ [0xFF, 0xD9], orientation, jfif_end)
          else if marker = 0x01 \<or> is_rst marker then jpeg_loop rest1 (body @ [0xFF, marker]) orientation jfif_end
          else if marker = 0x00 \<or> marker = 0xD8 then Inl UnexpectedMarker
          else if length rest1 < 2 then Inl TruncatedSegment
          else
            (let len = of_be_bytes (take 2 rest1) in
             if len < 2 \<or> len > length rest1 then Inl SegmentPastEnd
             else
               (let payload = drop 2 (take len rest1);
                    orientation' = read_orientation marker payload orientation;
                    keep = jpeg_keep marker payload;
                    body' = (if keep then body @ [0xFF, marker] @ take len rest1 else body);
                    jfif_end' = (if keep \<and> body = [] \<and> marker = 0xE0 then length body' else jfif_end);
                    rest2 = drop len rest1
                in if marker = 0xDA then
                     (case scan_data rest2 of
                        None \<Rightarrow> Inl NoEnd
                      | Some (entropy, rest3) \<Rightarrow> jpeg_loop rest3 (body' @ entropy) orientation' jfif_end')
                   else jpeg_loop rest2 body' orientation' jfif_end')))"
  by pat_completeness auto
termination
  by (relation "measure (\<lambda>(rest, body, orientation, jfif_end). length rest)")
     (auto dest!: dropWhile_shrinks scan_data_shrinks)

declare jpeg_loop.simps [simp del]

definition clean_jpeg :: "bytes \<Rightarrow> Reason + bytes" where
  "clean_jpeg d =
     (if length d < 4 \<or> d ! 0 \<noteq> 0xFF \<or> d ! 1 \<noteq> 0xD8 then Inl NoStart
      else case jpeg_loop (drop 2 d) [] None 0 of
        Inl e \<Rightarrow> Inl e
      | Inr (body, orientation, jfif_end) \<Rightarrow>
          Inr ([0xFF, 0xD8] @ take jfif_end body @
               (case orientation of
                  None \<Rightarrow> []
                | Some ori \<Rightarrow> if 2 \<le> ori \<and> ori \<le> 8 then orientation_segment ori else []) @
               drop jfif_end body))"

section \<open>PNG\<close>

definition PNG_KEEP :: "bytes list" where
  "PNG_KEEP = map ascii [''gAMA'', ''cHRM'', ''sRGB'', ''iCCP'', ''sBIT'', ''bKGD'', ''hIST'', ''tRNS'', ''pHYs'',
     ''sPLT'', ''acTL'', ''fcTL'', ''fdAT'', ''cICP'', ''mDCv'', ''cLLi'']"

definition png_keep :: "bytes \<Rightarrow> bool" where
  "png_keep kind \<longleftrightarrow> (kind ! 0) AND 0x20 = 0 \<or> kind \<in> set PNG_KEEP"

function png_loop :: "bytes \<Rightarrow> bytes \<Rightarrow> bool \<Rightarrow> Reason + bytes" where
  "png_loop rest out first =
     (if length rest < 8 then Inl TruncatedChunk
      else
        (let len = of_be_bytes (take 4 rest); kind = take 4 (drop 4 rest) in
         if 12 + len > length rest then Inl ChunkPastEnd
         else if first \<and> kind \<noteq> ascii ''IHDR'' then Inl NotIhdr
         else
           (let out' = (if png_keep kind then out @ take (12 + len) rest else out) in
            if kind = ascii ''IEND'' then Inr out' else png_loop (drop (12 + len) rest) out' False)))"
  by pat_completeness auto
termination
  by (relation "measure (\<lambda>(rest, out, first). length rest)") auto

declare png_loop.simps [simp del]

definition clean_png :: "bytes \<Rightarrow> Reason + bytes" where
  "clean_png d = png_loop (drop (length PNG_SIG) d) PNG_SIG True"

section \<open>WebP\<close>

definition WEBP_KEEP :: "bytes list" where
  "WEBP_KEEP = map ascii [''VP8 '', ''VP8L'', ''VP8X'', ''ALPH'', ''ANIM'', ''ANMF'', ''ICCP'']"

definition clear_flags :: "bytes \<Rightarrow> bytes \<Rightarrow> bytes" where
  "clear_flags kind content =
     (case content of
        [] \<Rightarrow> []
      | b # bs \<Rightarrow> if kind = ascii ''VP8X'' then (b AND NOT (0x08 OR 0x04)) # bs else content)"

text \<open>\<open>rest\<close> is what is left of the file up to the end the RIFF header gives.\<close>

function webp_loop :: "bytes \<Rightarrow> bytes \<Rightarrow> Reason + bytes" where
  "webp_loop rest out =
     (if rest = [] then Inr out
      else if length rest < 8 then Inl TruncatedChunk
      else
        (let kind = take 4 rest; len = of_le_bytes (take 4 (drop 4 rest)) in
         if 8 + len > length rest then Inl ChunkPastEnd
         else
           (let out' = (if kind \<in> set WEBP_KEEP
                        then out @ take 8 rest @ clear_flags kind (take len (drop 8 rest)) @ (if odd len then [0] else [])
                        else out)
            in webp_loop (drop (8 + len + len mod 2) rest) out')))"
  by pat_completeness auto
termination
  by (relation "measure (\<lambda>(rest, out). length rest)") auto

declare webp_loop.simps [simp del]

definition clean_webp :: "bytes \<Rightarrow> Reason + bytes" where
  "clean_webp d =
     (let riff = of_le_bytes (take 4 (drop 4 d)) in
      if \<not> (riff + 8 \<le> length d \<and> riff \<ge> 4) then Inl RiffTooLarge
      else case webp_loop (drop 12 (take (riff + 8) d)) (ascii ''RIFF'' @ [0, 0, 0, 0] @ ascii ''WEBP'') of
        Inl e \<Rightarrow> Inl e
      | Inr out \<Rightarrow> Inr (take 4 out @ u32_to_le_bytes (of_nat (length out - 8)) @ drop 8 out))"

section \<open>PDF\<close>

text \<open>
  A document as the PDF library represents it: its objects by number, and the trailer. A dictionary is
  the list of its entries, no key twice; the order of the entries, which the library does not keep when it
  removes one, has no meaning.
\<close>

type_synonym ObjectId = "u32 \<times> 16 word"

datatype Object =
    Null
  | Boolean bool
  | Integer int
  | Real "32 word"
  | Name bytes
  | String bytes
  | Array "Object list"
  | Dictionary "(bytes \<times> Object) list"
  | Stream "(bytes \<times> Object) list" bytes
  | Reference ObjectId

record Document =
  trailer :: "(bytes \<times> Object) list"
  objects :: "(ObjectId \<times> Object) list"

record lopdf =
  load_mem :: "bytes \<Rightarrow> bytes + Document"
  is_encrypted :: "Document \<Rightarrow> bool"
  prune_objects :: "Document \<Rightarrow> Document"
  save_to :: "Document \<Rightarrow> bytes + bytes"

text \<open>Removing an entry, and the object it points at.\<close>

definition remove_key :: "bytes \<Rightarrow> (bytes \<times> Object) list \<Rightarrow> (bytes \<times> Object) list \<times> ObjectId list" where
  "remove_key key dict =
     (filter (\<lambda>(k, _). k \<noteq> key) dict, case map_of dict key of Some (Reference i) \<Rightarrow> [i] | _ \<Rightarrow> [])"

fun remove_keys :: "bytes list \<Rightarrow> (bytes \<times> Object) list \<Rightarrow> (bytes \<times> Object) list \<times> ObjectId list" where
  "remove_keys [] dict = (dict, [])"
| "remove_keys (key # ks) dict =
     (let (dict1, dead1) = remove_key key dict; (dict2, dead2) = remove_keys ks dict1 in (dict2, dead1 @ dead2))"

definition METADATA_KEYS :: "bytes list" where
  "METADATA_KEYS = map ascii [''Metadata'', ''PieceInfo'', ''LastModified'']"

lemma set_remove_keys: "set (fst (remove_keys ks dict)) \<subseteq> set dict"
proof (induction ks arbitrary: dict)
  case (Cons key ks)
  have "set (fst (remove_keys ks (filter (\<lambda>(k, _). k \<noteq> key) dict))) \<subseteq> set dict"
    using Cons [of "filter (\<lambda>(k, _). k \<noteq> key) dict"] by auto
  then show ?case by (simp add: remove_key_def split_beta Let_def)
qed simp

lemma size_entry: "(k, x) \<in> set dict \<Longrightarrow> size x < Suc (size_list (size_prod (\<lambda>_. 0) size) dict)"
  by (induction dict) auto

lemma size_kept: "(k, x) \<in> set (fst (remove_keys ks dict)) \<Longrightarrow> size x < Suc (size_list (size_prod (\<lambda>_. 0) size) dict)"
  by (rule size_entry [OF subsetD [OF set_remove_keys]])

text \<open>\<open>strip\<close>: the metadata entries of a dictionary and of all that is nested in it, and what they pointed at.\<close>

function strip :: "Object \<Rightarrow> Object \<times> ObjectId list" where
  "strip (Dictionary dict) =
     (let kept = fst (remove_keys METADATA_KEYS dict); done_entries = map (\<lambda>(k, x). (k, strip x)) kept
      in (Dictionary (map (\<lambda>(k, r). (k, fst r)) done_entries),
          snd (remove_keys METADATA_KEYS dict) @ concat (map (\<lambda>(k, r). snd r) done_entries)))"
| "strip (Stream dict content) =
     (let kept = fst (remove_keys METADATA_KEYS dict); done_entries = map (\<lambda>(k, x). (k, strip x)) kept
      in (Stream (map (\<lambda>(k, r). (k, fst r)) done_entries) content,
          snd (remove_keys METADATA_KEYS dict) @ concat (map (\<lambda>(k, r). snd r) done_entries)))"
| "strip (Array items) = (let done_items = map strip items in (Array (map fst done_items), concat (map snd done_items)))"
| "strip Null = (Null, [])"
| "strip (Boolean b) = (Boolean b, [])"
| "strip (Integer i) = (Integer i, [])"
| "strip (Real r) = (Real r, [])"
| "strip (Name n) = (Name n, [])"
| "strip (String t) = (String t, [])"
| "strip (Reference i) = (Reference i, [])"
  by pat_completeness auto
termination
  by (relation "measure size") (auto dest: size_kept simp: size_list_estimation' less_Suc_eq_le)

text \<open>What happens to a document between loading and pruning.\<close>

definition strip_document :: "Document \<Rightarrow> Document" where
  "strip_document doc =
     (let (trailer1, dead_info) = remove_key (ascii ''Info'') (trailer doc);
          (trailer2, _) = remove_key (ascii ''ID'') trailer1;
          done_objects = map (\<lambda>(i, x). (i, strip x)) (objects doc);
          dead = dead_info @ concat (map (\<lambda>(i, r). snd r) done_objects)
      in \<lparr>trailer = trailer2, objects = filter (\<lambda>(i, _). i \<notin> set dead) (map (\<lambda>(i, r). (i, fst r)) done_objects)\<rparr>)"

definition clean_pdf :: "lopdf \<Rightarrow> bytes \<Rightarrow> Reason + bytes" where
  "clean_pdf L d =
     (case load_mem L d of
        Inl e \<Rightarrow> Inl (PdfProblem e)
      | Inr doc \<Rightarrow>
          if is_encrypted L doc then Inl Encrypted
          else (case save_to L (prune_objects L (strip_document doc)) of
                  Inl e \<Rightarrow> Inl (PdfProblem e)
                | Inr out \<Rightarrow> Inr out))"

section \<open>The filter\<close>

definition named :: "bytes \<Rightarrow> Reason + bytes \<Rightarrow> SanitizeError + bytes" where
  "named fmt r = (case r of Inl e \<Rightarrow> Inl (Malformed fmt e) | Inr c \<Rightarrow> Inr c)"

definition sanitize_attachment_data ::
  "crypto \<Rightarrow> unicode_case \<Rightarrow> lopdf \<Rightarrow> bytes \<Rightarrow> bytes \<Rightarrow> SanitizeError + bytes \<times> bytes" where
  "sanitize_attachment_data C U L filename data =
     (let ext = extension U filename;
          finish = (\<lambda>r canonical_ext noun. case r of
             Inl e \<Rightarrow> Inl e
           | Inr clean \<Rightarrow> Inr (neutral_name C U filename clean (ascii canonical_ext) (ascii noun), clean))
      in case sniff data of
           Some Jpeg \<Rightarrow> finish (named (ascii ''JPEG'') (clean_jpeg data)) ''jpg'' ''photo''
         | Some Png \<Rightarrow> finish (named (ascii ''PNG'') (clean_png data)) ''png'' ''photo''
         | Some Webp \<Rightarrow> finish (named (ascii ''WebP'') (clean_webp data)) ''webp'' ''photo''
         | Some Pdf \<Rightarrow> finish (named (ascii ''PDF'') (clean_pdf L data)) ''pdf'' ''document''
         | Some (Unsupported what) \<Rightarrow> Inl (CannotClean what)
         | None \<Rightarrow>
             if ext \<in> set CLEANABLE_EXT then Inl (Malformed (to_uppercase U ext) WrongContent)
             else if ext \<in> set UNSUPPORTED_EXT then Inl (CannotClean (to_uppercase U ext))
             else Inr (strip_paste_prefix filename, data))"

definition passes_through :: "unicode_case \<Rightarrow> bytes \<Rightarrow> bytes \<Rightarrow> bool" where
  "passes_through U filename head =
     (let ext = extension U filename in
      sniff head = None \<and> ext \<notin> set CLEANABLE_EXT \<and> ext \<notin> set UNSUPPORTED_EXT)"

definition passed_name :: "bytes \<Rightarrow> bytes" where
  "passed_name filename = strip_paste_prefix filename"

section \<open>Which files go through it\<close>

record PendingAttachment =
  pa_name :: bytes
  pa_data :: bytes
  pa_from :: "bytes option"

definition MAX_ATTACHMENT_BYTES :: nat where
  "MAX_ATTACHMENT_BYTES = 512 * 1024 * 1024"

definition prepare_attachment ::
  "crypto \<Rightarrow> unicode_case \<Rightarrow> lopdf \<Rightarrow> bytes \<Rightarrow> bytes \<Rightarrow> bool \<Rightarrow> SanitizeError + PendingAttachment" where
  "prepare_attachment C U L name data sanitize =
     (if sanitize then
        (case sanitize_attachment_data C U L name data of
           Inl e \<Rightarrow> Inl e
         | Inr (name', data') \<Rightarrow> Inr \<lparr>pa_name = name', pa_data = data', pa_from = None\<rparr>)
      else Inr \<lparr>pa_name = name, pa_data = data, pa_from = None\<rparr>)"

text \<open>
  The file at \<open>path\<close> can be read and has the bytes \<open>content\<close>; \<open>pasted\<close> says the path is in the directory of pasted
  copies, and the one \<open>read\<close> into the 64-byte buffer returned \<open>n\<close> bytes. Beside the attachment: is
  the pasted copy removed.
\<close>

definition read_one_attachment ::
  "crypto \<Rightarrow> unicode_case \<Rightarrow> lopdf \<Rightarrow> bytes \<Rightarrow> bytes \<Rightarrow> bool \<Rightarrow> nat \<Rightarrow> bool \<Rightarrow>
   SanitizeError + PendingAttachment \<times> bool" where
  "read_one_attachment C U L path content pasted n sanitize =
     (let name = (case file_name path of None \<Rightarrow> ascii ''file'' | Some f \<Rightarrow> f);
          in_memory = (if length content > MAX_ATTACHMENT_BYTES then Inl TooBig
             else case prepare_attachment C U L name content sanitize of
                    Inl e \<Rightarrow> Inl e
                  | Inr a \<Rightarrow> Inr (a, pasted))
      in if length content > INLINE_MAX \<and> \<not> pasted \<and>
            (\<not> sanitize \<or> passes_through U name (take (min n 64) content))
         then (if length content > MAX_FILE_BYTES then Inl TooBig
               else Inr (\<lparr>pa_name = (if sanitize then passed_name name else name), pa_data = [], pa_from = Some path\<rparr>, False))
         else in_memory)"

end
