(* ===== verification/Sanitizer_Props.thy ===== *)
theory Sanitizer_Props
  imports Sanitizer
begin

text \<open>
  What the filter leaves in a file. Each cleanable format has a reader that splits a file into its pieces
  and a policy that says which pieces stay; the locale \<open>cleaner\<close> states that a cleaning routine is
  reading, applying the policy and writing, and concludes that cleaning what was cleaned changes
  nothing. JPEG, PNG and WebP interpret it on their routines. The last part is about which files are
  put through the filter at all.
\<close>

locale cleaner =
  fixes clean :: "bytes \<Rightarrow> Reason + bytes"
    and parse :: "bytes \<Rightarrow> 's list option"
    and print :: "'s list \<Rightarrow> bytes"
    and policy :: "'s list \<Rightarrow> 's list"
    and fits :: "bytes \<Rightarrow> bool"
  assumes clean_Inl: "clean d = Inl e \<Longrightarrow> parse d = None"
    and clean_Inr: "clean d = Inr c \<Longrightarrow> \<exists>xs. parse d = Some xs \<and> c = print (policy xs)"
    and parse_print: "fits d \<Longrightarrow> parse d = Some xs \<Longrightarrow> parse (print (policy xs)) = Some (policy xs)"
    and policy_again: "parse d = Some xs \<Longrightarrow> policy (policy xs) = policy xs"
begin

lemma cleaned: "fits d \<Longrightarrow> clean d = Inr c \<Longrightarrow> \<exists>xs. parse d = Some xs \<and> parse c = Some (policy xs) \<and> c = print (policy xs)"
  using clean_Inr parse_print by metis

lemma clean_again:
  assumes "fits d" and "clean d = Inr c"
  shows "clean c = Inr c"
proof -
  from cleaned [OF assms] obtain xs where xs: "parse d = Some xs" "parse c = Some (policy xs)" "c = print (policy xs)"
    by blast
  then have "clean c \<noteq> Inl e" for e using clean_Inl [of c e] by auto
  then obtain c' where c': "clean c = Inr c'" by (cases "clean c") auto
  with clean_Inr [OF c'] xs policy_again [OF xs(1)] show ?thesis by auto
qed

end

section \<open>JPEG\<close>

text \<open>
  A picture is a list of segments: a marker alone, a marker with its length-prefixed part, or the start
  of a scan with the entropy-coded data after it.
\<close>

datatype Seg = Mark u8 | Part u8 bytes | Sos bytes bytes

fun seg_bytes :: "Seg \<Rightarrow> bytes" where
  "seg_bytes (Mark m) = [0xFF, m]"
| "seg_bytes (Part m raw) = [0xFF, m] @ raw"
| "seg_bytes (Sos raw entropy) = [0xFF, 0xDA] @ raw @ entropy"

abbreviation segs_bytes :: "Seg list \<Rightarrow> bytes" where
  "segs_bytes xs \<equiv> concat (map seg_bytes xs)"

text \<open>The next segment and the rest of the file, or \<open>None\<close> at end of image.\<close>

definition next_seg :: "bytes \<Rightarrow> Reason + Seg option \<times> bytes" where
  "next_seg rest =
     (if rest = [] then Inl NoEnd
      else if hd rest \<noteq> 0xFF then Inl ExpectedMarker
      else case dropWhile (\<lambda>x. x = 0xFF) rest of
        [] \<Rightarrow> Inl NoEnd
      | m # rest1 \<Rightarrow>
          if m = 0xD9 then Inr (None, rest1)
          else if m = 0x01 \<or> is_rst m then Inr (Some (Mark m), rest1)
          else if m = 0x00 \<or> m = 0xD8 then Inl UnexpectedMarker
          else if length rest1 < 2 then Inl TruncatedSegment
          else
            (let len = of_be_bytes (take 2 rest1) in
             if len < 2 \<or> len > length rest1 then Inl SegmentPastEnd
             else if m = 0xDA then
               (case scan_data (drop len rest1) of
                  None \<Rightarrow> Inl NoEnd
                | Some (entropy, rest3) \<Rightarrow> Inr (Some (Sos (take len rest1) entropy), rest3))
             else Inr (Some (Part m (take len rest1)), drop len rest1)))"

lemma next_seg_shrinks: "next_seg rest = Inr (s, r) \<Longrightarrow> length r < length rest"
  by (auto simp: next_seg_def Let_def split: if_splits list.splits option.splits
      dest!: dropWhile_shrinks scan_data_shrinks)

function jpeg_segs :: "bytes \<Rightarrow> Seg list option" where
  "jpeg_segs rest =
     (case next_seg rest of
        Inl _ \<Rightarrow> None
      | Inr (None, _) \<Rightarrow> Some []
      | Inr (Some s, r) \<Rightarrow> map_option ((#) s) (jpeg_segs r))"
  by pat_completeness auto
termination
  by (relation "measure length") (auto dest: next_seg_shrinks)

declare jpeg_segs.simps [simp del]

definition jpeg_parse :: "bytes \<Rightarrow> Seg list option" where
  "jpeg_parse d = (if length d < 4 \<or> d ! 0 \<noteq> 0xFF \<or> d ! 1 \<noteq> 0xD8 then None else jpeg_segs (drop 2 d))"

definition jpeg_print :: "Seg list \<Rightarrow> bytes" where
  "jpeg_print xs = [0xFF, 0xD8] @ segs_bytes xs @ [0xFF, 0xD9]"

text \<open>
  The segments that stay: everything that is neither an application segment (\<open>APP0\<close> to \<open>APP15\<close>) nor a
  comment, and of the application segments the JFIF header, the colour profile and Adobe's colour transform.
\<close>

definition APP_KEPT :: "(u8 \<times> bytes) list" where
  "APP_KEPT = [(0xE0, ascii ''JFIF'' @ [0]), (0xE2, ascii ''ICC_PROFILE'' @ [0]), (0xEE, ascii ''Adobe'')]"

fun seg_keep :: "Seg \<Rightarrow> bool" where
  "seg_keep (Mark m) = True"
| "seg_keep (Part m raw) =
     (if 0xE0 \<le> m \<and> m \<le> 0xEF then (\<exists>(k, tag) \<in> set APP_KEPT. k = m \<and> take (length tag) (drop 2 raw) = tag) else m \<noteq> 0xFE)"
| "seg_keep (Sos raw entropy) = True"

lemma app_markers:
  fixes m :: u8
  assumes "0xE0 \<le> m" and "m \<le> 0xEF"
  shows "m = 0xE0 \<or> m = 0xE1 \<or> m = 0xE2 \<or> 0xE3 \<le> m"
proof -
  have "unat m = 0xE0 \<or> unat m = 0xE1 \<or> unat m = 0xE2 \<or> 0xE3 \<le> unat m"
    using assms(1) by (auto simp: word_le_nat_alt)
  then show ?thesis by (auto simp: word_le_nat_alt word_unat_eq_iff)
qed

lemma seg_keep_Part [simp]: "seg_keep (Part m raw) = jpeg_keep m (drop 2 raw)"
proof (cases "0xE0 \<le> m \<and> m \<le> 0xEF")
  case True
  with app_markers [of m] consider "m = 0xE0" | "m = 0xE1" | "m = 0xE2" | "m = 0xEE" | "0xE3 \<le> m" "m \<noteq> 0xEE" by blast
  then show ?thesis
    by cases (use True in \<open>auto simp: APP_KEPT_def jpeg_keep_def starts_with_def\<close>)
next
  case False
  then have "m \<noteq> 0xE0" "m \<noteq> 0xE1" "m \<noteq> 0xE2" "m \<noteq> 0xEE" "\<not> (0xE3 \<le> m \<and> m \<le> 0xEF)"
    by (auto simp: word_le_nat_alt)
  with False show ?thesis by (auto simp: jpeg_keep_def)
qed

declare seg_keep.simps(2) [simp del]

fun seg_orientation :: "nat option \<Rightarrow> Seg \<Rightarrow> nat option" where
  "seg_orientation ori (Part m raw) = read_orientation m (drop 2 raw) ori"
| "seg_orientation ori _ = ori"

definition orientation_part :: "nat option \<Rightarrow> Seg list" where
  "orientation_part ori =
     (case ori of
        None \<Rightarrow> []
      | Some n \<Rightarrow> if 2 \<le> n \<and> n \<le> 8 then [Part 0xE1 (drop 2 (orientation_segment n))] else [])"

fun jfif_first :: "Seg list \<Rightarrow> Seg list \<times> Seg list" where
  "jfif_first (Part m raw # xs) = (if m = 0xE0 then ([Part m raw], xs) else ([], Part m raw # xs))"
| "jfif_first xs = ([], xs)"

text \<open>A restart marker right after entropy-coded data reads as part of it.\<close>

fun cons_seg :: "Seg \<Rightarrow> Seg list \<Rightarrow> Seg list" where
  "cons_seg (Sos raw entropy) (Mark m # xs) =
     (if is_rst m then cons_seg (Sos raw (entropy @ [0xFF, m])) xs else Sos raw entropy # Mark m # xs)"
| "cons_seg x xs = x # xs"

definition merge_rst :: "Seg list \<Rightarrow> Seg list" where
  "merge_rst xs = foldr cons_seg xs []"

definition jpeg_policy :: "Seg list \<Rightarrow> Seg list" where
  "jpeg_policy xs =
     (case jfif_first (filter seg_keep xs) of
        (front, others) \<Rightarrow> front @ orientation_part (foldl seg_orientation None xs) @ merge_rst others)"

fun jfif_len :: "Seg list \<Rightarrow> nat \<Rightarrow> nat" where
  "jfif_len (Part m raw # xs) je = (if m = 0xE0 then 2 + length raw else je)"
| "jfif_len _ je = je"

definition kept_bytes :: "Seg \<Rightarrow> bytes" where
  "kept_bytes s = (if seg_keep s then seg_bytes s else [])"

lemma jpeg_loop_next:
  "jpeg_loop rest body ori je =
     (case next_seg rest of
        Inl e \<Rightarrow> Inl e
      | Inr (None, _) \<Rightarrow> Inr (body @ [0xFF, 0xD9], ori, je)
      | Inr (Some s, r) \<Rightarrow>
          jpeg_loop r (body @ kept_bytes s) (seg_orientation ori s)
            (if body = [] \<and> seg_keep s then jfif_len [s] je else je))"
proof (cases "rest = [] \<or> hd rest \<noteq> 0xFF")
  case True
  then show ?thesis by (auto simp: jpeg_loop.simps [of rest] next_seg_def)
next
  case False
  show ?thesis
  proof (cases "dropWhile (\<lambda>x. x = 0xFF) rest")
    case Nil
    with False show ?thesis by (simp only: jpeg_loop.simps [of rest] next_seg_def list.case) simp
  next
    case (Cons m rest1)
    have da: "jpeg_keep 0xDA p" "read_orientation 0xDA p ori = ori" for p
      by (simp_all add: jpeg_keep_def read_orientation_def)
    let ?len = "of_be_bytes (take 2 rest1)"
    consider (mark) "m = 0xD9 \<or> m = 0x01 \<or> is_rst m \<or> m = 0x00 \<or> m = 0xD8 \<or> length rest1 < 2 \<or> ?len < 2 \<or> ?len > length rest1"
      | (scan) "m = 0xDA" "\<not> length rest1 < 2" "\<not> (?len < 2 \<or> ?len > length rest1)"
      | (part) "m \<noteq> 0xDA" "m \<noteq> 0xD9" "\<not> (m = 0x01 \<or> is_rst m)" "\<not> (m = 0x00 \<or> m = 0xD8)"
          "\<not> length rest1 < 2" "\<not> (?len < 2 \<or> ?len > length rest1)" by blast
    then show ?thesis
    proof cases
      case mark
      with False Cons show ?thesis
        by (simp only: jpeg_loop.simps [of rest] next_seg_def list.case) (auto simp: Let_def kept_bytes_def)
    next
      case scan
      then have "\<not> is_rst m" by (simp add: is_rst_def)
      with scan False Cons show ?thesis
        by (simp only: jpeg_loop.simps [of rest] next_seg_def list.case)
           (simp add: Let_def kept_bytes_def da split: option.split)
    next
      case part
      with False Cons show ?thesis
        by (simp only: jpeg_loop.simps [of rest] next_seg_def list.case if_False Let_def sum.case prod.case option.case)
           (auto simp: kept_bytes_def)
    qed
  qed
qed

lemma jpeg_loop_segs:
  "case jpeg_loop rest body ori je of
     Inl e \<Rightarrow> jpeg_segs rest = None
   | Inr (b, ori', je') \<Rightarrow> (\<exists>xs. jpeg_segs rest = Some xs \<and>
       b = body @ segs_bytes (filter seg_keep xs) @ [0xFF, 0xD9] \<and> ori' = foldl seg_orientation ori xs \<and>
       je' = (if body = [] then jfif_len (filter seg_keep xs) je else je))"
proof (induction "length rest" arbitrary: rest body ori je rule: less_induct)
  case less
  show ?case
  proof (cases "next_seg rest")
    case (Inl e)
    then show ?thesis by (simp add: jpeg_loop_next [of rest] jpeg_segs.simps [of rest])
  next
    case (Inr p)
    obtain s r where p: "p = (s, r)" by fastforce
    show ?thesis
    proof (cases s)
      case None
      with Inr p show ?thesis by (simp add: jpeg_loop_next [of rest] jpeg_segs.simps [of rest])
    next
      case (Some x)
      have nonempty: "seg_keep x \<Longrightarrow> kept_bytes x \<noteq> []" by (cases x) (simp_all add: kept_bytes_def)
      have jl: "jfif_len (x # ys) je = jfif_len [x] je" for ys by (cases x) simp_all
      let ?l = "jpeg_loop r (body @ kept_bytes x) (seg_orientation ori x)
          (if body = [] \<and> seg_keep x then jfif_len [x] je else je)"
      note IH = less [OF next_seg_shrinks [OF Inr [unfolded p]], of "body @ kept_bytes x" "seg_orientation ori x"
          "if body = [] \<and> seg_keep x then jfif_len [x] je else je"]
      have loop: "jpeg_loop rest body ori je = ?l" and segs: "jpeg_segs rest = map_option ((#) x) (jpeg_segs r)"
        unfolding jpeg_loop_next [of rest] jpeg_segs.simps [of rest] Inr p Some by simp_all
      show ?thesis
      proof (cases ?l)
        case (Inl e)
        with IH show ?thesis unfolding loop segs by simp
      next
        case (Inr q)
        obtain b o' j where q: "q = (b, o', j)" by (cases q)
        from IH obtain xs where "jpeg_segs r = Some xs"
          "b = (body @ kept_bytes x) @ segs_bytes (filter seg_keep xs) @ [0xFF, 0xD9]"
          "o' = foldl seg_orientation (seg_orientation ori x) xs"
          "j = (if body @ kept_bytes x = [] then jfif_len (filter seg_keep xs) (if body = [] \<and> seg_keep x then jfif_len [x] je else je)
                else if body = [] \<and> seg_keep x then jfif_len [x] je else je)"
          unfolding Inr q by auto
        with nonempty jl [of "filter seg_keep xs"] show ?thesis
          unfolding loop segs Inr q by (cases "seg_keep x") (auto simp: kept_bytes_def)
      qed
    qed
  qed
qed

subsection \<open>Reading what was written\<close>

definition ends_scan :: "u8 \<Rightarrow> bool" where
  "ends_scan m \<longleftrightarrow> m \<noteq> 0x00 \<and> m \<noteq> 0xFF \<and> \<not> is_rst m"

fun scan_ok :: "bytes \<Rightarrow> bool" where
  "scan_ok [] = True"
| "scan_ok [b] = True"
| "scan_ok (b # c # xs) =
     (if b = 0xFF then (if c = 0x00 \<or> is_rst c then scan_ok xs else c = 0xFF \<and> scan_ok (c # xs)) else scan_ok (c # xs))"

lemma is_rst_not_ff: "is_rst 0xFF \<longleftrightarrow> False"
  by (simp add: is_rst_def)

lemma scan_data_sound:
  "scan_data s = Some (x, r) \<Longrightarrow> s = x @ r \<and> scan_ok x \<and> (\<exists>m r'. r = 0xFF # m # r' \<and> ends_scan m)"
proof (induction s arbitrary: x rule: scan_data.induct)
  case (3 b c xs)
  show ?case
  proof (cases "b = 0xFF \<and> (c = 0x00 \<or> is_rst c)")
    case True
    with 3 show ?thesis by (auto simp: is_rst_not_ff)
  next
    case False
    show ?thesis
    proof (cases "b = 0xFF \<and> c \<noteq> 0xFF")
      case True
      with False 3 show ?thesis by (auto simp: ends_scan_def)
    next
      case other: False
      then obtain y where y: "scan_data (c # xs) = Some (y, r)" and x: "x = b # y"
        using False "3.prems" by (auto split: if_splits)
      have IH: "c # xs = y @ r \<and> scan_ok y \<and> (\<exists>m r'. r = 0xFF # m # r' \<and> ends_scan m)"
        using False other y "3.IH"(2,3) [of y] by (cases "b = 0xFF") auto
      then have "scan_ok x"
        using False other x by (cases y rule: scan_ok.cases) (auto simp: is_rst_not_ff)
      with IH x show ?thesis by simp
    qed
  qed
qed simp_all

lemma scan_data_complete: "scan_ok x \<Longrightarrow> ends_scan m \<Longrightarrow> scan_data (x @ 0xFF # m # r) = Some (x, 0xFF # m # r)"
proof (induction x rule: scan_ok.induct)
  case 1
  then show ?case by (simp add: ends_scan_def)
next
  case (2 b)
  then show ?case by (auto simp: ends_scan_def is_rst_not_ff)
next
  case (3 b c xs)
  then show ?case by (auto simp: is_rst_not_ff split: if_splits)
qed

lemma scan_ok_append: "scan_ok x \<Longrightarrow> is_rst m \<Longrightarrow> scan_ok (x @ [0xFF, m])"
  by (induction x rule: scan_ok.induct) (auto simp: is_rst_not_ff split: if_splits)

definition raw_ok :: "bytes \<Rightarrow> bool" where
  "raw_ok raw \<longleftrightarrow> 2 \<le> length raw \<and> of_be_bytes (take 2 raw) = length raw"

fun seg_ok :: "Seg \<Rightarrow> bool" where
  "seg_ok (Mark m) \<longleftrightarrow> m = 0x01 \<or> is_rst m"
| "seg_ok (Part m raw) \<longleftrightarrow> m \<notin> {0x00, 0x01, 0xD8, 0xD9, 0xDA, 0xFF} \<and> \<not> is_rst m \<and> raw_ok raw"
| "seg_ok (Sos raw entropy) \<longleftrightarrow> raw_ok raw \<and> scan_ok entropy"

lemma next_seg_ok: "next_seg rest = Inr (Some s, r) \<Longrightarrow> seg_ok s"
proof -
  assume n: "next_seg rest = Inr (Some s, r)"
  obtain m rest1 where m: "dropWhile (\<lambda>x. x = 0xFF) rest = m # rest1"
    using n by (auto simp: next_seg_def split: if_splits list.splits)
  have "m \<noteq> 0xFF" using hd_dropWhile [of "\<lambda>x. x = 0xFF" rest] m by simp
  moreover have "scan_data x = Some (e, r') \<Longrightarrow> scan_ok e" for x e r' using scan_data_sound by blast
  moreover have "raw_ok (take k rest1)" if "k = of_be_bytes (take 2 rest1)" "\<not> (k < 2 \<or> k > length rest1)" for k
    using that by (simp add: raw_ok_def min_def)
  ultimately show ?thesis
    using n unfolding next_seg_def m list.case Let_def
    by (auto simp del: take_Suc split: if_split_asm option.split_asm prod.split_asm)
qed

lemma jpeg_segs_ok: "jpeg_segs rest = Some xs \<Longrightarrow> \<forall>s \<in> set xs. seg_ok s"
proof (induction "length rest" arbitrary: rest xs rule: less_induct)
  case less
  show ?case
  proof (cases "\<exists>s r. next_seg rest = Inr (Some s, r)")
    case True
    then obtain s r where n: "next_seg rest = Inr (Some s, r)" by blast
    have "map_option ((#) s) (jpeg_segs r) = Some xs" using less.prems unfolding jpeg_segs.simps [of rest] n by simp
    then obtain ys where "jpeg_segs r = Some ys" "xs = s # ys" by auto
    with less.hyps [OF next_seg_shrinks [OF n]] next_seg_ok [OF n] show ?thesis by simp
  next
    case False
    have "xs = []" using less.prems False unfolding jpeg_segs.simps [of rest]
      by (cases "next_seg rest") (auto split: option.splits)
    then show ?thesis by simp
  qed
qed

text \<open>What comes after a segment: the marker of the next one, or end of image.\<close>

fun next_marker :: "Seg list \<Rightarrow> u8" where
  "next_marker [] = 0xD9"
| "next_marker (Mark m # xs) = m"
| "next_marker (Part m raw # xs) = m"
| "next_marker (Sos raw entropy # xs) = 0xDA"

fun merged :: "Seg list \<Rightarrow> bool" where
  "merged (Sos raw entropy # xs) \<longleftrightarrow> ends_scan (next_marker xs) \<and> merged xs"
| "merged (x # xs) \<longleftrightarrow> merged xs"
| "merged [] \<longleftrightarrow> True"

lemma segs_bytes_marker: "\<exists>r. segs_bytes xs @ [0xFF, 0xD9] @ junk = 0xFF # next_marker xs # r"
  by (cases xs rule: next_marker.cases) auto

lemma next_seg_bytes:
  assumes "seg_ok s" and "\<And>raw entropy. s = Sos raw entropy \<Longrightarrow> \<exists>m r. rest = 0xFF # m # r \<and> ends_scan m"
  shows "next_seg (seg_bytes s @ rest) = Inr (Some s, rest)"
proof (cases s)
  case (Mark m)
  with assms show ?thesis by (auto simp: next_seg_def is_rst_def)
next
  case (Part m raw)
  with assms show ?thesis by (auto simp: next_seg_def raw_ok_def)
next
  case (Sos raw entropy)
  with assms scan_data_complete [of entropy] show ?thesis by (auto simp: next_seg_def raw_ok_def is_rst_def)
qed

lemma jpeg_segs_bytes:
  "\<forall>s \<in> set xs. seg_ok s \<Longrightarrow> merged xs \<Longrightarrow> jpeg_segs (segs_bytes xs @ [0xFF, 0xD9] @ junk) = Some xs"
proof (induction xs)
  case Nil
  then show ?case by (simp add: jpeg_segs.simps next_seg_def)
next
  case (Cons s xs)
  have "merged xs" using Cons.prems(2) by (cases s) auto
  moreover have "next_seg (seg_bytes s @ segs_bytes xs @ [0xFF, 0xD9] @ junk) =
      Inr (Some s, segs_bytes xs @ [0xFF, 0xD9] @ junk)"
    using Cons.prems segs_bytes_marker [of xs junk] by (intro next_seg_bytes) auto
  ultimately show ?case
    using Cons by (simp add: jpeg_segs.simps [of "seg_bytes s @ _"])
qed

subsection \<open>What a picture is\<close>

text \<open>
  The file after its first marker, as a grammar: segments, each after any number of fill bytes, then end of image and
  anything at all. The data of a scan runs up to the next marker.
\<close>

inductive segments :: "bytes \<Rightarrow> Seg list \<Rightarrow> bool" where
  over: "segments (replicate n 0xFF @ 0xFF # 0xD9 # junk) []"
| one: "seg_ok s \<Longrightarrow> \<forall>raw entropy. s = Sos raw entropy \<longrightarrow> (\<exists>m r'. r = 0xFF # m # r' \<and> ends_scan m) \<Longrightarrow>
    segments r xs \<Longrightarrow> segments (replicate n 0xFF @ seg_bytes s @ r) (s # xs)"

definition jpeg_picture :: "bytes \<Rightarrow> Seg list \<Rightarrow> bool" where
  "jpeg_picture d xs \<longleftrightarrow> (\<exists>r. d = 0xFF # 0xD8 # r \<and> segments r xs)"

lemma next_seg_fill: "next_seg (replicate n 0xFF @ 0xFF # r) = next_seg (0xFF # r)"
proof -
  have "hd (replicate n 0xFF @ 0xFF # r) = 0xFF" by (cases n) simp_all
  moreover have "dropWhile (\<lambda>x. x = 0xFF) (replicate n 0xFF @ 0xFF # r) = dropWhile (\<lambda>x. x = 0xFF) (0xFF # r)"
    by (induction n) simp_all
  ultimately show ?thesis unfolding next_seg_def by simp
qed

lemma fill_run:
  assumes "rest \<noteq> []" and "hd rest = 0xFF" and "dropWhile (\<lambda>x. x = 0xFF) rest = m # r"
  shows "\<exists>n. rest = replicate n 0xFF @ 0xFF # (m :: u8) # r"
proof -
  have "takeWhile (\<lambda>x. x = 0xFF) rest = replicate (length (takeWhile (\<lambda>x. x = 0xFF) rest)) (0xFF :: u8)"
    by (rule replicate_length_same [symmetric]) (auto dest: set_takeWhileD)
  moreover obtain k where "length (takeWhile (\<lambda>x. x = 0xFF) rest) = Suc k"
    using assms(1,2) by (cases rest) auto
  ultimately show ?thesis
    using takeWhile_dropWhile_id [of "\<lambda>x. x = 0xFF" rest] assms(3) replicate_append_same [of k "0xFF :: u8"]
    by (metis append.assoc append_Cons append_Nil replicate_Suc)
qed

lemma next_seg_split:
  assumes "next_seg rest = Inr (x, r)"
  shows "\<exists>n. rest = replicate n 0xFF @ (case x of None \<Rightarrow> [0xFF, 0xD9] | Some s \<Rightarrow> seg_bytes s) @ r \<and>
    (\<forall>raw entropy. x = Some (Sos raw entropy) \<longrightarrow> (\<exists>m r'. r = 0xFF # m # r' \<and> ends_scan m))"
proof -
  obtain m rest1 where m: "dropWhile (\<lambda>x. x = 0xFF) rest = m # rest1" and ne: "rest \<noteq> []" "hd rest = 0xFF"
    using assms by (auto simp: next_seg_def split: if_splits list.splits)
  from fill_run [OF ne m] obtain n where n: "rest = replicate n 0xFF @ 0xFF # m # rest1" by blast
  have "0xFF # m # rest1 = (case x of None \<Rightarrow> [0xFF, 0xD9] | Some s \<Rightarrow> seg_bytes s) @ r \<and>
    (\<forall>raw entropy. x = Some (Sos raw entropy) \<longrightarrow> (\<exists>m r'. r = 0xFF # m # r' \<and> ends_scan m))"
    using assms ne scan_data_sound unfolding next_seg_def m list.case Let_def
    by (auto simp del: take_Suc split: if_split_asm option.split_asm prod.split_asm)
  with n show ?thesis by auto
qed

lemma jpeg_segs_segments: "jpeg_segs rest = Some xs \<Longrightarrow> segments rest xs"
proof (induction "length rest" arbitrary: rest xs rule: less_induct)
  case less
  obtain x r where n: "next_seg rest = Inr (x, r)"
    using less.prems by (cases "next_seg rest") (auto simp: jpeg_segs.simps [of rest])
  from next_seg_split [OF n] obtain k where
    rest: "rest = replicate k 0xFF @ (case x of None \<Rightarrow> [0xFF, 0xD9] | Some s \<Rightarrow> seg_bytes s) @ r"
    and sos: "\<forall>raw entropy. x = Some (Sos raw entropy) \<longrightarrow> (\<exists>m r'. r = 0xFF # m # r' \<and> ends_scan m)" by blast
  show ?case
  proof (cases x)
    case None
    with less.prems n have "xs = []" by (simp add: jpeg_segs.simps [of rest])
    with rest None segments.over [of k r] show ?thesis by simp
  next
    case (Some s)
    have "map_option ((#) s) (jpeg_segs r) = Some xs" using less.prems n Some by (simp add: jpeg_segs.simps [of rest])
    then obtain ys where "jpeg_segs r = Some ys" and xs: "xs = s # ys" by auto
    with less.hyps [OF next_seg_shrinks [OF n]] have "segments r ys" by blast
    with segments.one [of s r ys k] next_seg_ok [OF n [unfolded Some]] sos rest Some xs show ?thesis by simp
  qed
qed

lemma segments_jpeg_segs: "segments rest xs \<Longrightarrow> jpeg_segs rest = Some xs"
proof (induction rule: segments.induct)
  case (over n junk)
  then show ?case by (simp add: jpeg_segs.simps next_seg_fill) (simp add: next_seg_def)
next
  case (one s r xs n)
  obtain b where b: "seg_bytes s @ r = 0xFF # b" by (cases s) auto
  have "next_seg (seg_bytes s @ r) = Inr (Some s, r)" using one by (intro next_seg_bytes) auto
  then have "next_seg (replicate n 0xFF @ seg_bytes s @ r) = Inr (Some s, r)" unfolding b next_seg_fill .
  then show ?case using one.IH by (simp add: jpeg_segs.simps [of "replicate n 0xFF @ seg_bytes s @ r"])
qed

lemma jpeg_parse_picture: "jpeg_parse d = Some xs \<longleftrightarrow> jpeg_picture d xs"
proof
  assume p: "jpeg_parse d = Some xs"
  then have "jpeg_segs (drop 2 d) = Some xs" and d: "\<not> length d < 4" "d ! 0 = 0xFF" "d ! 1 = 0xD8"
    by (auto simp: jpeg_parse_def split: if_splits)
  moreover have "d = 0xFF # 0xD8 # drop 2 d" using d by (cases d; cases "tl d") auto
  ultimately show "jpeg_picture d xs" unfolding jpeg_picture_def using jpeg_segs_segments by blast
next
  assume "jpeg_picture d xs"
  then obtain r where d: "d = 0xFF # 0xD8 # r" and r: "segments r xs" by (auto simp: jpeg_picture_def)
  have "\<not> length r < 2" using r
  proof cases
    case (one s r' ys n)
    then show ?thesis by (cases s) auto
  qed auto
  with d segments_jpeg_segs [OF r] show "jpeg_parse d = Some xs" by (simp add: jpeg_parse_def)
qed

subsection \<open>The policy\<close>

lemma cons_seg_facts:
  "segs_bytes (cons_seg x xs) = seg_bytes x @ segs_bytes xs"
  "next_marker (cons_seg x xs) = next_marker (x # xs)"
  "seg_keep x \<Longrightarrow> \<forall>s \<in> set xs. seg_keep s \<Longrightarrow> \<forall>s \<in> set (cons_seg x xs). seg_keep s"
  "seg_ok x \<Longrightarrow> \<forall>s \<in> set xs. seg_ok s \<Longrightarrow> \<forall>s \<in> set (cons_seg x xs). seg_ok s"
  by (induction x xs rule: cons_seg.induct) (auto simp: scan_ok_append)

lemma merged_cons_seg: "seg_ok x \<Longrightarrow> \<forall>s \<in> set xs. seg_ok s \<Longrightarrow> merged xs \<Longrightarrow> merged (cons_seg x xs)"
proof (induction xs arbitrary: x)
  case Nil
  then show ?case by (cases x) (simp_all add: ends_scan_def is_rst_def)
next
  case (Cons y ys)
  show ?case
  proof (cases x)
    case (Sos raw entropy)
    show ?thesis
    proof (cases y)
      case (Mark m)
      with Cons Sos show ?thesis
        by (cases "is_rst m") (auto simp: scan_ok_append ends_scan_def)
    next
      case (Part m r)
      with Cons Sos show ?thesis by (simp add: ends_scan_def)
    next
      case y: (Sos r e)
      with Cons Sos show ?thesis by (simp add: ends_scan_def is_rst_def)
    qed
  qed (use Cons in simp_all)
qed

lemma cons_seg_merged: "merged (x # xs) \<Longrightarrow> cons_seg x xs = x # xs"
  by (induction x xs rule: cons_seg.induct) (auto simp: ends_scan_def)

lemma merge_rst_facts:
  "segs_bytes (merge_rst xs) = segs_bytes xs" "next_marker (merge_rst xs) = next_marker xs"
  "\<forall>s \<in> set xs. seg_keep s \<Longrightarrow> \<forall>s \<in> set (merge_rst xs). seg_keep s"
  "\<forall>s \<in> set xs. seg_ok s \<Longrightarrow> \<forall>s \<in> set (merge_rst xs). seg_ok s"
proof -
  show "segs_bytes (merge_rst xs) = segs_bytes xs"
    by (induction xs) (simp_all add: merge_rst_def cons_seg_facts(1))
  show "next_marker (merge_rst xs) = next_marker xs"
    by (cases xs rule: next_marker.cases) (simp_all add: merge_rst_def cons_seg_facts(2))
  show "\<forall>s \<in> set xs. seg_keep s \<Longrightarrow> \<forall>s \<in> set (merge_rst xs). seg_keep s"
    by (induction xs) (auto simp: merge_rst_def dest: cons_seg_facts(3))
  show "\<forall>s \<in> set xs. seg_ok s \<Longrightarrow> \<forall>s \<in> set (merge_rst xs). seg_ok s"
    by (induction xs) (auto simp: merge_rst_def dest: cons_seg_facts(4))
qed

lemma merged_merge_rst: "\<forall>s \<in> set xs. seg_ok s \<Longrightarrow> merged (merge_rst xs)"
proof (induction xs)
  case (Cons x xs)
  with merged_cons_seg [of x "merge_rst xs"] merge_rst_facts(4) [of xs] show ?case by (simp add: merge_rst_def)
qed (simp add: merge_rst_def)

lemma merge_rst_merged: "merged xs \<Longrightarrow> merge_rst xs = xs"
proof (induction xs)
  case (Cons x xs)
  then have "merged xs" by (cases x) auto
  with Cons cons_seg_merged [OF Cons.prems] show ?case by (simp add: merge_rst_def)
qed (simp add: merge_rst_def)

subsection \<open>The orientation block\<close>

lemma orientation_bytes:
  assumes "n < 256"
  shows "orientation_segment n =
    [0xFF, 0xE1, 0x00, 0x22, 0x45, 0x78, 0x69, 0x66, 0, 0, 0x4D, 0x4D, 0, 0x2A, 0, 0, 0, 8, 0, 1,
     1, 0x12, 0, 3, 0, 0, 0, 1, 0, of_nat n, 0, 0, 0, 0, 0, 0]"
  using assms by (simp add: orientation_segment_def ascii_def u16_to_be_bytes_def numeral_2_eq_2)

lemma orientation_read:
  assumes "n < 256"
  shows "read_orientation 0xE1 (drop 2 (drop 2 (orientation_segment n))) None = Some n"
proof -
  have "unat (of_nat n :: u8) = n" using assms by (simp add: unat_of_nat)
  then show ?thesis
    by (simp add: orientation_bytes [OF assms] read_orientation_def strip_prefix_def starts_with_def ascii_def
        exif_orientation_def u16_at_def u32_at_def of_be_bytes_def Let_def)
qed

lemma orientation_part_bytes:
  "segs_bytes (orientation_part ori) =
     (case ori of None \<Rightarrow> [] | Some n \<Rightarrow> if 2 \<le> n \<and> n \<le> 8 then orientation_segment n else [])"
  by (auto simp: orientation_part_def orientation_segment_def split: option.split)

lemma orientation_part_ok: "\<forall>s \<in> set (orientation_part ori). seg_ok s \<and> \<not> seg_keep s"
proof (cases "orientation_part ori")
  case (Cons s ss)
  then obtain n where n: "ori = Some n" "2 \<le> n" "n \<le> 8" by (auto simp: orientation_part_def split: option.splits if_splits)
  with orientation_bytes [of n] show ?thesis
    by (simp add: orientation_part_def raw_ok_def of_be_bytes_def is_rst_def jpeg_keep_def)
qed simp

lemma seg_keep_orientation: "seg_keep s \<Longrightarrow> seg_orientation ori s = ori"
  by (cases s) (auto simp: read_orientation_def jpeg_keep_def)

lemma foldl_keep_orientation: "\<forall>s \<in> set xs. seg_keep s \<Longrightarrow> foldl seg_orientation ori xs = ori"
  by (induction xs) (simp_all add: seg_keep_orientation)

lemma orientation_part_again:
  "foldl seg_orientation None (orientation_part ori) = (if orientation_part ori = [] then None else ori)"
  using orientation_read by (auto simp: orientation_part_def split: option.splits)

lemma jfif_first_facts:
  assumes "\<forall>s \<in> set xs. seg_ok s" and "jfif_first xs = (front, others)"
  shows "xs = front @ others" and "segs_bytes front = take (jfif_len xs 0) (segs_bytes xs @ r)"
    and "segs_bytes others @ r = drop (jfif_len xs 0) (segs_bytes xs @ r)"
    and "(\<exists>raw. front = [Part 0xE0 raw]) \<or> front = [] \<and> next_marker others \<noteq> 0xE0"
  using assms by (cases xs rule: jfif_first.cases; auto simp: is_rst_def split: if_splits)+

lemma jfif_first_id: "next_marker xs \<noteq> 0xE0 \<Longrightarrow> jfif_first xs = ([], xs)"
  by (cases xs rule: jfif_first.cases) auto

lemma jpeg_policy_shape:
  assumes "\<forall>s \<in> set xs. seg_ok s"
  obtains front others where "jfif_first (filter seg_keep xs) = (front, others)"
    and "jpeg_policy xs = front @ orientation_part (foldl seg_orientation None xs) @ merge_rst others"
    and "filter seg_keep xs = front @ others" and "\<forall>s \<in> set (front @ merge_rst others). seg_ok s \<and> seg_keep s"
    and "merged (merge_rst others)"
proof -
  obtain front others where f: "jfif_first (filter seg_keep xs) = (front, others)" by fastforce
  have ok: "\<forall>s \<in> set (filter seg_keep xs). seg_ok s" using assms by auto
  have split: "filter seg_keep xs = front @ others" by (rule jfif_first_facts(1) [OF ok f])
  have "set (front @ others) = {s \<in> set xs. seg_keep s}" by (simp only: split [symmetric] set_filter)
  with assms have all: "\<forall>s \<in> set (front @ others). seg_ok s \<and> seg_keep s" by blast
  show thesis
    by (rule that [OF f _ split])
       (use all merge_rst_facts(3,4) [of others] merged_merge_rst [of others] in \<open>auto simp: jpeg_policy_def f\<close>)
qed

lemma merged_parts: "\<forall>s \<in> set ps. \<exists>m raw. s = Part m raw \<Longrightarrow> merged (ps @ xs) = merged xs"
  by (induction ps) auto

lemma jpeg_policy_again:
  assumes "\<forall>s \<in> set xs. seg_ok s"
  shows "jpeg_policy (jpeg_policy xs) = jpeg_policy xs"
    and "merged (jpeg_policy xs)" and "\<forall>s \<in> set (jpeg_policy xs). seg_ok s"
proof -
  let ?op = "orientation_part (foldl seg_orientation None xs)"
  obtain front others where f: "jfif_first (filter seg_keep xs) = (front, others)"
    and pol: "jpeg_policy xs = front @ ?op @ merge_rst others"
    and kept: "\<forall>s \<in> set (front @ merge_rst others). seg_ok s \<and> seg_keep s" and m: "merged (merge_rst others)"
    using assms by (rule jpeg_policy_shape)
  have shape: "(\<exists>raw. front = [Part 0xE0 raw]) \<or> front = [] \<and> next_marker others \<noteq> 0xE0"
    using jfif_first_facts(4) [OF _ f] assms by auto
  have op: "\<forall>s \<in> set ?op. \<exists>m raw. s = Part m raw" by (auto simp: orientation_part_def split: option.splits)
  show ok: "\<forall>s \<in> set (jpeg_policy xs). seg_ok s" using kept orientation_part_ok by (auto simp: pol)
  show "merged (jpeg_policy xs)" using shape merged_parts [OF op, of "merge_rst others"] m by (auto simp: pol)
  have filt: "filter seg_keep (jpeg_policy xs) = front @ merge_rst others"
    using kept orientation_part_ok [of "foldl seg_orientation None xs"] by (auto simp: pol filter_empty_conv filter_id_conv)
  have again: "jfif_first (front @ merge_rst others) = (front, merge_rst others)"
    using shape jfif_first_id [of "merge_rst others"] merge_rst_facts(2) [of others] by auto
  have "foldl seg_orientation None (jpeg_policy xs) = (if ?op = [] then None else foldl seg_orientation None xs)"
    using kept foldl_keep_orientation orientation_part_again by (simp add: pol)
  then have "orientation_part (foldl seg_orientation None (jpeg_policy xs)) = ?op"
    by (auto simp: orientation_part_def)
  then show "jpeg_policy (jpeg_policy xs) = jpeg_policy xs"
    unfolding jpeg_policy_def [of "jpeg_policy xs"] filt again prod.case merge_rst_merged [OF m] by (simp add: pol)
qed

interpretation jpeg: cleaner clean_jpeg jpeg_parse jpeg_print jpeg_policy "\<lambda>_. True"
proof unfold_locales
  fix d :: bytes and e c xs
  have loop: "case jpeg_loop (drop 2 d) [] None 0 of
      Inl e \<Rightarrow> jpeg_segs (drop 2 d) = None
    | Inr (b, ori, je) \<Rightarrow> (\<exists>xs. jpeg_segs (drop 2 d) = Some xs \<and> b = segs_bytes (filter seg_keep xs) @ [0xFF, 0xD9] \<and>
        ori = foldl seg_orientation None xs \<and> je = jfif_len (filter seg_keep xs) 0)"
    using jpeg_loop_segs [of "drop 2 d" "[]" None 0] by (auto split: sum.splits)
  show "clean_jpeg d = Inl e \<Longrightarrow> jpeg_parse d = None"
    using loop by (auto simp: clean_jpeg_def jpeg_parse_def split: sum.splits if_splits)
  show "\<exists>xs. jpeg_parse d = Some xs \<and> c = jpeg_print (jpeg_policy xs)" if "clean_jpeg d = Inr c"
  proof -
    from that loop obtain xs where xs: "jpeg_parse d = Some xs" "jpeg_segs (drop 2 d) = Some xs"
      and c: "c = [0xFF, 0xD8] @ take (jfif_len (filter seg_keep xs) 0) (segs_bytes (filter seg_keep xs) @ [0xFF, 0xD9]) @
        segs_bytes (orientation_part (foldl seg_orientation None xs)) @
        drop (jfif_len (filter seg_keep xs) 0) (segs_bytes (filter seg_keep xs) @ [0xFF, 0xD9])"
      unfolding orientation_part_bytes by (auto simp: clean_jpeg_def jpeg_parse_def split: sum.splits if_splits)
    have ok: "\<forall>s \<in> set (filter seg_keep xs). seg_ok s" using jpeg_segs_ok [OF xs(2)] by auto
    obtain front others where f: "jfif_first (filter seg_keep xs) = (front, others)" by fastforce
    have "c = jpeg_print (jpeg_policy xs)"
      unfolding c jfif_first_facts(2,3) [OF ok f, symmetric]
      by (simp add: jpeg_print_def jpeg_policy_def f merge_rst_facts(1))
    with xs show ?thesis by blast
  qed
  assume "jpeg_parse d = Some xs"
  then have "\<forall>s \<in> set xs. seg_ok s" by (auto simp: jpeg_parse_def dest: jpeg_segs_ok split: if_splits)
  note policy = jpeg_policy_again [OF this]
  show "jpeg_policy (jpeg_policy xs) = jpeg_policy xs" by (rule policy(1))
  show "jpeg_parse (jpeg_print (jpeg_policy xs)) = Some (jpeg_policy xs)"
    using jpeg_segs_bytes [OF policy(3,2), of "[]"] by (simp add: jpeg_parse_def jpeg_print_def)
qed

section \<open>PNG\<close>

text \<open>A picture is a list of chunks, each its bytes with length and checksum.\<close>

definition png_kind :: "bytes \<Rightarrow> bytes" where
  "png_kind chunk = take 4 (drop 4 chunk)"

function png_chunks :: "bytes \<Rightarrow> bool \<Rightarrow> bytes list option" where
  "png_chunks rest first =
     (if length rest < 8 then None
      else
        (let len = of_be_bytes (take 4 rest); kind = take 4 (drop 4 rest); chunk = take (12 + len) rest in
         if 12 + len > length rest \<or> first \<and> kind \<noteq> ascii ''IHDR'' then None
         else if kind = ascii ''IEND'' then Some [chunk]
         else map_option ((#) chunk) (png_chunks (drop (12 + len) rest) False)))"
  by pat_completeness auto
termination
  by (relation "measure (\<lambda>(rest, first). length rest)") auto

declare png_chunks.simps [simp del]

definition png_parse :: "bytes \<Rightarrow> bytes list option" where
  "png_parse d = png_chunks (drop 8 d) True"

definition png_print :: "bytes list \<Rightarrow> bytes" where
  "png_print cs = PNG_SIG @ concat cs"

definition png_policy :: "bytes list \<Rightarrow> bytes list" where
  "png_policy cs = filter (\<lambda>c. png_keep (png_kind c)) cs"

definition png_chunk_ok :: "bytes \<Rightarrow> bool" where
  "png_chunk_ok c \<longleftrightarrow> 12 + of_be_bytes (take 4 c) = length c"

fun png_ok :: "bool \<Rightarrow> bytes list \<Rightarrow> bool" where
  "png_ok first [] \<longleftrightarrow> False"
| "png_ok first (c # cs) \<longleftrightarrow> png_chunk_ok c \<and> (first \<longrightarrow> png_kind c = ascii ''IHDR'') \<and>
     (if png_kind c = ascii ''IEND'' then cs = [] else png_ok False cs)"

lemma png_loop_chunks:
  "case png_loop rest out first of
     Inl e \<Rightarrow> png_chunks rest first = None
   | Inr c \<Rightarrow> (\<exists>cs. png_chunks rest first = Some cs \<and> png_ok first cs \<and> c = out @ concat (png_policy cs))"
proof (induction rest out first rule: png_loop.induct)
  case (1 rest out first)
  let ?len = "of_be_bytes (take 4 rest)" and ?kind = "take 4 (drop 4 rest)"
  show ?case
  proof (cases "length rest < 8 \<or> 12 + ?len > length rest \<or> first \<and> ?kind \<noteq> ascii ''IHDR''")
    case True
    then show ?thesis by (auto simp: png_loop.simps [of rest] png_chunks.simps [of rest] Let_def)
  next
    case False
    let ?c = "take (12 + ?len) rest"
    have c: "png_kind ?c = ?kind" "png_chunk_ok ?c"
      using False by (simp_all add: png_kind_def png_chunk_ok_def drop_take min_def)
    define out' where "out' = (if png_keep ?kind then out @ ?c else out)"
    have loop: "png_loop rest out first =
        (if ?kind = ascii ''IEND'' then Inr out' else png_loop (drop (12 + ?len) rest) out' False)"
      using False by (auto simp: png_loop.simps [of rest] Let_def out'_def)
    have chunks: "png_chunks rest first = (if ?kind = ascii ''IEND'' then Some [?c]
        else map_option ((#) ?c) (png_chunks (drop (12 + ?len) rest) False))"
      using False by (auto simp: png_chunks.simps [of rest] Let_def)
    have bytes: "out' @ concat (png_policy cs) = out @ concat (png_policy (?c # cs))" for cs
      by (simp add: out'_def png_policy_def c(1))
    show ?thesis
    proof (cases "?kind = ascii ''IEND''")
      case True
      with c False show ?thesis unfolding loop chunks by (auto simp: png_policy_def out'_def)
    next
      case more: False
      have "case png_loop (drop (12 + ?len) rest) out' False of
          Inl e \<Rightarrow> png_chunks (drop (12 + ?len) rest) False = None
        | Inr c \<Rightarrow> (\<exists>cs. png_chunks (drop (12 + ?len) rest) False = Some cs \<and> png_ok False cs \<and> c = out' @ concat (png_policy cs))"
        using 1 [OF _ refl refl _ _ out'_def more] False by blast
      with c False more show ?thesis
        unfolding loop chunks bytes by (auto split: sum.splits)
    qed
  qed
qed

lemma png_chunks_concat: "png_ok first cs \<Longrightarrow> png_chunks (concat cs) first = Some cs"
proof (induction cs arbitrary: first)
  case (Cons c cs)
  have c: "png_chunk_ok c" "first \<longrightarrow> png_kind c = ascii ''IHDR''"
    and rest: "if png_kind c = ascii ''IEND'' then cs = [] else png_ok False cs" using Cons.prems by simp_all
  have l: "12 \<le> length c" using c(1) unfolding png_chunk_ok_def by linarith
  then have t: "take 4 (c @ concat cs) = take 4 c" "take 4 (drop 4 (c @ concat cs)) = png_kind c"
    by (simp_all add: png_kind_def)
  have len: "12 + of_be_bytes (take 4 c) = length c" using c(1) by (simp only: png_chunk_ok_def)
  have "png_chunks (c @ concat cs) first =
      (if png_kind c = ascii ''IEND'' then Some [c] else map_option ((#) c) (png_chunks (concat cs) False))"
    unfolding png_chunks.simps [of "c @ concat cs"] Let_def t len using l c(2) by auto
  with rest Cons.IH [of False] show ?case by auto
qed simp

lemma png_keep_ends: "png_keep (ascii ''IHDR'')" "png_keep (ascii ''IEND'')"
  by (simp_all add: png_keep_def ascii_def)

lemma png_ok_policy: "png_ok first cs \<Longrightarrow> png_ok first (png_policy cs)"
proof (induction cs arbitrary: first)
  case (Cons c cs)
  have "first \<Longrightarrow> png_keep (png_kind c)" "png_kind c = ascii ''IEND'' \<Longrightarrow> png_keep (png_kind c)"
    using Cons.prems png_keep_ends by auto
  with Cons show ?case by (cases first) (auto simp: png_policy_def split: if_splits)
qed simp

interpretation png: cleaner clean_png png_parse png_print png_policy "\<lambda>_. True"
proof unfold_locales
  fix d :: bytes and e c cs
  have sig: "length PNG_SIG = 8" by (simp add: PNG_SIG_def)
  note loop = png_loop_chunks [where rest = "drop 8 d" and out = PNG_SIG and first = True]
  show "clean_png d = Inl e \<Longrightarrow> png_parse d = None"
    using loop by (simp add: clean_png_def png_parse_def sig)
  show "clean_png d = Inr c \<Longrightarrow> \<exists>cs. png_parse d = Some cs \<and> c = png_print (png_policy cs)"
    using loop by (auto simp: clean_png_def png_parse_def png_print_def sig)
  show "png_policy (png_policy cs) = png_policy cs" by (simp add: png_policy_def)
  assume "png_parse d = Some cs"
  with loop have "png_ok True cs" by (auto simp: png_parse_def split: sum.splits)
  from png_chunks_concat [OF png_ok_policy [OF this]] show "png_parse (png_print (png_policy cs)) = Some (png_policy cs)"
    by (simp add: png_parse_def png_print_def sig)
qed

section \<open>WebP\<close>

text \<open>A picture is a list of chunks, each its eight bytes of header and its content.\<close>

type_synonym webp_chunk = "bytes \<times> bytes"

function webp_chunks :: "bytes \<Rightarrow> webp_chunk list option" where
  "webp_chunks rest =
     (if rest = [] then Some []
      else if length rest < 8 then None
      else
        (let len = of_le_bytes (take 4 (drop 4 rest)) in
         if 8 + len > length rest then None
         else map_option ((#) (take 8 rest, take len (drop 8 rest))) (webp_chunks (drop (8 + len + len mod 2) rest))))"
  by pat_completeness auto
termination
  by (relation "measure length") auto

declare webp_chunks.simps [simp del]

definition chunk_bytes :: "webp_chunk \<Rightarrow> bytes" where
  "chunk_bytes c = fst c @ snd c @ (if odd (length (snd c)) then [0] else [])"

abbreviation chunks_bytes :: "webp_chunk list \<Rightarrow> bytes" where
  "chunks_bytes cs \<equiv> concat (map chunk_bytes cs)"

definition webp_parse :: "bytes \<Rightarrow> webp_chunk list option" where
  "webp_parse d =
     (let riff = of_le_bytes (take 4 (drop 4 d)) in
      if riff + 8 \<le> length d \<and> riff \<ge> 4 then webp_chunks (drop 12 (take (riff + 8) d)) else None)"

definition webp_print :: "webp_chunk list \<Rightarrow> bytes" where
  "webp_print cs = ascii ''RIFF'' @ u32_to_le_bytes (of_nat (4 + length (chunks_bytes cs))) @ ascii ''WEBP'' @ chunks_bytes cs"

definition webp_policy :: "webp_chunk list \<Rightarrow> webp_chunk list" where
  "webp_policy cs = map (\<lambda>c. (fst c, clear_flags (take 4 (fst c)) (snd c))) (filter (\<lambda>c. take 4 (fst c) \<in> set WEBP_KEEP) cs)"

definition webp_chunk_ok :: "webp_chunk \<Rightarrow> bool" where
  "webp_chunk_ok c \<longleftrightarrow> length (fst c) = 8 \<and> of_le_bytes (drop 4 (fst c)) = length (snd c)"

lemma clear_flags_facts:
  "length (clear_flags k x) = length x" "clear_flags k (clear_flags k x) = clear_flags k x"
  by (auto simp: clear_flags_def ac_simps split: list.split)

lemma webp_loop_chunks:
  "case webp_loop rest out of
     Inl e \<Rightarrow> webp_chunks rest = None
   | Inr c \<Rightarrow> (\<exists>cs. webp_chunks rest = Some cs \<and> (\<forall>x \<in> set cs. webp_chunk_ok x) \<and>
       length (chunks_bytes cs) \<le> length rest + 1 \<and> c = out @ chunks_bytes (webp_policy cs))"
proof (induction rest out rule: webp_loop.induct)
  case (1 rest out)
  let ?len = "of_le_bytes (take 4 (drop 4 rest))"
  show ?case
  proof (cases "rest = [] \<or> length rest < 8 \<or> 8 + ?len > length rest")
    case True
    then show ?thesis
      by (cases "rest = []")
         (auto simp: webp_loop.simps [of "[]"] webp_chunks.simps [of "[]"] webp_loop.simps [of rest] webp_chunks.simps [of rest]
            webp_policy_def Let_def)
  next
    case False
    let ?c = "(take 8 rest, take ?len (drop 8 rest))" and ?rest = "drop (8 + ?len + ?len mod 2) rest"
    define out' where "out' = (if take 4 rest \<in> set WEBP_KEEP
      then out @ take 8 rest @ clear_flags (take 4 rest) (take ?len (drop 8 rest)) @ (if odd ?len then [0] else []) else out)"
    have ok: "webp_chunk_ok ?c" using False by (auto simp: webp_chunk_ok_def drop_take min_def)
    have loop: "webp_loop rest out = webp_loop ?rest out'" and chunks: "webp_chunks rest = map_option ((#) ?c) (webp_chunks ?rest)"
      using False by (auto simp: webp_loop.simps [of rest] webp_chunks.simps [of rest] Let_def out'_def)
    have IH: "case webp_loop ?rest out' of
        Inl e \<Rightarrow> webp_chunks ?rest = None
      | Inr c \<Rightarrow> (\<exists>cs. webp_chunks ?rest = Some cs \<and> (\<forall>x \<in> set cs. webp_chunk_ok x) \<and>
          length (chunks_bytes cs) \<le> length ?rest + 1 \<and> c = out' @ chunks_bytes (webp_policy cs))"
      using 1 [of "take 4 rest" ?len out'] False by (auto simp: out'_def)
    have bytes: "out' = out @ chunks_bytes (webp_policy [?c])"
      using False by (auto simp: out'_def webp_policy_def chunk_bytes_def clear_flags_facts)
    have short: "length (chunk_bytes ?c) = 8 + ?len + ?len mod 2" using False by (auto simp: chunk_bytes_def odd_iff_mod_2_eq_one)
    have "webp_chunks ?rest = Some cs \<Longrightarrow> ?rest = [] \<Longrightarrow> cs = []" for cs by (simp add: webp_chunks.simps)
    then have len: "length (chunks_bytes (?c # cs)) \<le> length rest + 1"
      if "webp_chunks ?rest = Some cs" "length (chunks_bytes cs) \<le> length ?rest + 1" for cs
      using that short False by (cases "?rest = []") (auto simp: mod_2_eq_odd)
    show ?thesis
    proof (cases "webp_loop ?rest out'")
      case (Inl e)
      with IH show ?thesis unfolding loop chunks by simp
    next
      case (Inr c)
      with IH obtain cs where cs: "webp_chunks ?rest = Some cs" "\<forall>x \<in> set cs. webp_chunk_ok x"
        "length (chunks_bytes cs) \<le> length ?rest + 1" "c = out' @ chunks_bytes (webp_policy cs)" by auto
      have "c = out @ chunks_bytes (webp_policy (?c # cs))" using cs(4) bytes by (simp add: webp_policy_def)
      with cs(1,2) ok len [OF cs(1,3)] show ?thesis unfolding loop chunks Inr by auto
    qed
  qed
qed

lemma webp_chunks_bytes: "\<forall>c \<in> set cs. webp_chunk_ok c \<Longrightarrow> webp_chunks (chunks_bytes cs) = Some cs"
proof (induction cs)
  case (Cons c cs)
  obtain h x where c: "c = (h, x)" by fastforce
  have h: "length h = 8" "of_le_bytes (drop 4 h) = length x" using Cons.prems by (simp_all add: c webp_chunk_ok_def)
  let ?pad = "if odd (length x) then [0] else []"
  let ?bs = "h @ x @ ?pad @ chunks_bytes cs"
  have t: "take 4 (drop 4 ?bs) = drop 4 h" "take 8 ?bs = h" "take (length x) (drop 8 ?bs) = x" using h(1) by simp_all
  have d: "drop (8 + length x + length x mod 2) ?bs = chunks_bytes cs" using h(1) by (auto simp: odd_iff_mod_2_eq_one)
  have "webp_chunks ?bs = map_option ((#) (h, x)) (webp_chunks (chunks_bytes cs))"
    unfolding webp_chunks.simps [of ?bs] Let_def t h(2) d using h(1) by auto
  moreover have "chunks_bytes (c # cs) = ?bs" by (simp add: c chunk_bytes_def)
  ultimately show ?case using Cons c by (simp del: concat.simps)
qed (simp add: webp_chunks.simps)

lemma webp_policy_ok: "\<forall>c \<in> set cs. webp_chunk_ok c \<Longrightarrow> \<forall>c \<in> set (webp_policy cs). webp_chunk_ok c"
  by (auto simp: webp_policy_def webp_chunk_ok_def clear_flags_facts)

lemma webp_policy_length: "length (chunks_bytes (webp_policy cs)) \<le> length (chunks_bytes cs)"
proof (induction cs)
  case (Cons c cs)
  have "length (chunk_bytes (fst c, clear_flags (take 4 (fst c)) (snd c))) = length (chunk_bytes c)"
    by (simp add: chunk_bytes_def clear_flags_facts)
  with Cons show ?case by (auto simp: webp_policy_def)
qed (simp add: webp_policy_def)

lemma webp_policy_again: "webp_policy (webp_policy cs) = webp_policy cs"
  by (auto simp: webp_policy_def filter_map comp_def clear_flags_facts filter_empty_conv filter_id_conv)

lemma webp_print_parse:
  assumes "\<forall>c \<in> set cs. webp_chunk_ok c" and "4 + length (chunks_bytes cs) < 2 ^ 32"
  shows "webp_parse (webp_print cs) = Some cs"
proof -
  have four: "length (ascii ''RIFF'') = 4" "length (ascii ''WEBP'') = 4" by (simp_all add: ascii_def)
  let ?n = "4 + length (chunks_bytes cs)"
  have "of_le_bytes (u32_to_le_bytes (of_nat ?n)) = ?n"
    using assms(2) unfolding u32_to_le_bytes_def of_le_bytes_le_bytes unat_of_nat_u32 [OF assms(2)] by simp
  then have n: "of_le_bytes (take 4 (drop 4 (webp_print cs))) = ?n" by (simp add: webp_print_def four)
  have "drop 12 (webp_print cs) = chunks_bytes cs" "length (webp_print cs) = ?n + 8" by (simp_all add: webp_print_def four)
  then show ?thesis unfolding webp_parse_def Let_def n using webp_chunks_bytes [OF assms(1)] by simp
qed

interpretation webp: cleaner clean_webp webp_parse webp_print webp_policy "\<lambda>d. length d < 2 ^ 32"
proof unfold_locales
  fix d :: bytes and e c cs
  have four: "length (ascii ''RIFF'') = 4" "length (ascii ''WEBP'') = 4" by (simp_all add: ascii_def)
  let ?riff = "of_le_bytes (take 4 (drop 4 d))" and ?head = "ascii ''RIFF'' @ [0, 0, 0, 0] @ ascii ''WEBP''"
  note loop = webp_loop_chunks [where rest = "drop 12 (take (?riff + 8) d)" and out = ?head]
  show "clean_webp d = Inl e \<Longrightarrow> webp_parse d = None"
    using loop by (auto simp: clean_webp_def webp_parse_def Let_def split: sum.splits if_splits)
  show "\<exists>cs. webp_parse d = Some cs \<and> c = webp_print (webp_policy cs)" if "clean_webp d = Inr c"
  proof -
    from that loop obtain cs where cs: "webp_parse d = Some cs"
      and c: "c = take 4 (?head @ chunks_bytes (webp_policy cs)) @
        u32_to_le_bytes (of_nat (length (?head @ chunks_bytes (webp_policy cs)) - 8)) @ drop 8 (?head @ chunks_bytes (webp_policy cs))"
      by (auto simp: clean_webp_def webp_parse_def Let_def split: sum.splits if_splits)
    have "c = webp_print (webp_policy cs)" unfolding c webp_print_def by (simp add: four)
    with cs show ?thesis by blast
  qed
  show "webp_policy (webp_policy cs) = webp_policy cs" by (rule webp_policy_again)
  assume d: "length d < 2 ^ 32" and p: "webp_parse d = Some cs"
  from p have riff: "?riff + 8 \<le> length d" "webp_chunks (drop 12 (take (?riff + 8) d)) = Some cs"
    by (auto simp: webp_parse_def Let_def split: if_splits)
  with loop have ok: "\<forall>x \<in> set cs. webp_chunk_ok x" and "length (chunks_bytes cs) \<le> length (drop 12 (take (?riff + 8) d)) + 1"
    by (auto split: sum.splits)
  with riff(1) d webp_policy_length [of cs] have "4 + length (chunks_bytes (webp_policy cs)) < 2 ^ 32" by simp
  then show "webp_parse (webp_print (webp_policy cs)) = Some (webp_policy cs)"
    by (rule webp_print_parse [OF webp_policy_ok [OF ok]])
qed

end
