(* ===== verification/Attachment_Props.thy ===== *)
theory Attachment_Props
  imports Sanitizer_Props
begin

text \<open>
  The properties of the attachment filter: what is left in a cleaned file, that cleaning again changes
  nothing, and when the first bytes of a file are enough to know that the filter would not touch it.
\<close>

section \<open>What is left\<close>

text \<open>
  C16. A cleaned JPEG. When cleaning fails the file is not a picture at all: start of image, well-formed
  segments, end of image. Otherwise the result is a picture, to the last byte, whose segments are those
  of the original that stay (in their order and byte for byte, with a stray restart marker after a scan
  counted to the scan) and at most one block with the orientation alone, which is what the original's
  first readable Exif block said. No other APPn segment than the JFIF header, the ICC profile and
  Adobe's colour transform, no comment and nothing after the end of the picture survives.
\<close>

theorem cleaned_jpeg:
  "case clean_jpeg d of
     Inl e \<Rightarrow> \<not> (\<exists>xs. jpeg_picture d xs)
   | Inr c \<Rightarrow> (\<exists>xs ys. jpeg_picture d xs \<and> jpeg_picture c ys \<and> c = jpeg_print ys \<and>
       segs_bytes (filter seg_keep ys) = segs_bytes (filter seg_keep xs) \<and>
       filter (\<lambda>s. \<not> seg_keep s) ys = orientation_part (foldl seg_orientation None xs))"
proof (cases "clean_jpeg d")
  case (Inl e)
  then show ?thesis using jpeg.clean_Inl by (auto simp: jpeg_parse_picture [symmetric])
next
  case (Inr c)
  with jpeg.cleaned obtain xs where xs: "jpeg_parse d = Some xs" "jpeg_parse c = Some (jpeg_policy xs)"
    "c = jpeg_print (jpeg_policy xs)" by blast
  have "\<forall>s \<in> set xs. seg_ok s" using xs(1) by (auto simp: jpeg_parse_def dest: jpeg_segs_ok split: if_splits)
  then obtain front others where
    pol: "jpeg_policy xs = front @ orientation_part (foldl seg_orientation None xs) @ merge_rst others"
    and split: "filter seg_keep xs = front @ others"
    and keep: "\<forall>s \<in> set (front @ merge_rst others). seg_ok s \<and> seg_keep s"
    by (rule jpeg_policy_shape)
  note op = orientation_part_ok [of "foldl seg_orientation None xs"]
  have "filter seg_keep (jpeg_policy xs) = front @ merge_rst others"
    using keep op by (auto simp: pol filter_empty_conv filter_id_conv)
  then have "segs_bytes (filter seg_keep (jpeg_policy xs)) = segs_bytes (filter seg_keep xs)"
    by (simp add: split merge_rst_facts(1))
  moreover have "filter (\<lambda>s. \<not> seg_keep s) (jpeg_policy xs) = orientation_part (foldl seg_orientation None xs)"
    using keep op by (auto simp: pol filter_empty_conv filter_id_conv)
  ultimately show ?thesis using Inr xs by (auto simp: jpeg_parse_picture)
qed

text \<open>
  A cleaned PNG and a cleaned WebP. When cleaning fails the file cannot be read as chunks; otherwise the
  result reads as exactly the chunks of the original that stay, in their order: for PNG byte for byte,
  the critical ones and those that change how the picture is drawn; for WebP the picture's own,
  with the two flags in the VP8X header that announce Exif and XMP cleared. For WebP files of less
  than 4 GiB.
\<close>

theorem cleaned_chunks:
  assumes "length w < 2 ^ 32"
  shows "(case clean_png d of
      Inl e \<Rightarrow> png_parse d = None
    | Inr c \<Rightarrow> (\<exists>cs. png_parse d = Some cs \<and> png_parse c = Some (filter (\<lambda>x. png_keep (png_kind x)) cs) \<and>
        c = PNG_SIG @ concat (filter (\<lambda>x. png_keep (png_kind x)) cs))) \<and>
    (case clean_webp w of
      Inl e \<Rightarrow> webp_parse w = None
    | Inr c \<Rightarrow> (\<exists>cs. webp_parse w = Some cs \<and> webp_parse c = Some (webp_policy cs) \<and> c = webp_print (webp_policy cs)))"
proof -
  have "case clean_png d of
      Inl e \<Rightarrow> png_parse d = None
    | Inr c \<Rightarrow> (\<exists>cs. png_parse d = Some cs \<and> png_parse c = Some (png_policy cs) \<and> c = png_print (png_policy cs))"
    using png.cleaned [of d] png.clean_Inl [of d] by (cases "clean_png d") auto
  moreover have "case clean_webp w of
      Inl e \<Rightarrow> webp_parse w = None
    | Inr c \<Rightarrow> (\<exists>cs. webp_parse w = Some cs \<and> webp_parse c = Some (webp_policy cs) \<and> c = webp_print (webp_policy cs))"
    using webp.cleaned [OF assms] webp.clean_Inl [of w] by (cases "clean_webp w") auto
  ultimately show ?thesis by (simp add: png_policy_def png_print_def split: sum.splits)
qed

definition png_chunk :: "string \<Rightarrow> bytes \<Rightarrow> bytes" where
  "png_chunk kind content = rev (le_bytes 4 (length content)) @ ascii kind @ content @ [9, 9, 9, 9]"

definition sample_png :: bytes where
  "sample_png = PNG_SIG @ png_chunk ''IHDR'' [1] @ png_chunk ''tEXt'' [65, 66] @ png_chunk ''IEND'' [] @ [7, 7]"

lemma sample_png_cleaned: "clean_png sample_png = Inr (PNG_SIG @ png_chunk ''IHDR'' [1] @ png_chunk ''IEND'' [])"
  by code_simp

lemma cleaned_chunks_witness:
  "length ([] :: bytes) < 2 ^ 32 \<and>
   png_parse (PNG_SIG @ png_chunk ''IHDR'' [1] @ png_chunk ''IEND'' []) = Some [png_chunk ''IHDR'' [1], png_chunk ''IEND'' []]"
proof -
  have l: "length ([] :: bytes) < 2 ^ 32" by simp
  have "png_parse sample_png = Some [png_chunk ''IHDR'' [1], png_chunk ''tEXt'' [65, 66], png_chunk ''IEND'' []]" by code_simp
  moreover have "filter (\<lambda>x. png_keep (png_kind x)) [png_chunk ''IHDR'' [1], png_chunk ''tEXt'' [65, 66], png_chunk ''IEND'' []] =
      [png_chunk ''IHDR'' [1], png_chunk ''IEND'' []]" by code_simp
  ultimately show ?thesis using cleaned_chunks [OF l, of sample_png] l by (simp add: sample_png_cleaned)
qed

section \<open>Cleaning again\<close>

lemma sniff_jpeg_print: "sniff (jpeg_print xs) = Some Jpeg"
proof -
  obtain r where "segs_bytes xs @ [0xFF, 0xD9] = 0xFF # next_marker xs # r"
    using segs_bytes_marker [of xs "[]"] by auto
  then have "jpeg_print xs = 0xFF # 0xD8 # 0xFF # next_marker xs # r" by (simp add: jpeg_print_def)
  then show ?thesis by (simp add: sniff_def starts_with_def)
qed

lemma sniff_png_print: "sniff (png_print cs) = Some Png"
  by (simp add: sniff_def starts_with_def png_print_def PNG_SIG_def)

lemma sniff_webp_print: "sniff (webp_print cs) = Some Webp"
  by (simp add: sniff_def starts_with_def webp_print_def PNG_SIG_def ascii_def)

lemma sanitize_cleaned:
  assumes "sanitize_attachment_data C U L f d = Inr (f', c)" and "sniff d \<in> {Some Jpeg, Some Png, Some Webp}"
  shows "sniff d = Some Jpeg \<and> clean_jpeg d = Inr c \<or> sniff d = Some Png \<and> clean_png d = Inr c \<or>
    sniff d = Some Webp \<and> clean_webp d = Inr c"
  using assms by (auto simp: sanitize_attachment_data_def Let_def named_def split: sum.splits)

lemma sniff_cleaned:
  "clean_jpeg d = Inr c \<Longrightarrow> sniff c = Some Jpeg" "clean_png d = Inr c \<Longrightarrow> sniff c = Some Png"
  "clean_webp d = Inr c \<Longrightarrow> sniff c = Some Webp"
  using jpeg.clean_Inr png.clean_Inr webp.clean_Inr sniff_jpeg_print sniff_png_print sniff_webp_print by metis+

subsection \<open>PDF\<close>

text \<open>No metadata entry in a dictionary, at any depth; and none in a document or its trailer.\<close>

fun bare :: "Object \<Rightarrow> bool" where
  "bare (Dictionary dict) \<longleftrightarrow>
     list_all (\<lambda>e. fst e \<notin> {ascii ''Metadata'', ascii ''PieceInfo'', ascii ''LastModified''} \<and> bare (snd e)) dict"
| "bare (Stream dict content) \<longleftrightarrow>
     list_all (\<lambda>e. fst e \<notin> {ascii ''Metadata'', ascii ''PieceInfo'', ascii ''LastModified''} \<and> bare (snd e)) dict"
| "bare (Array items) \<longleftrightarrow> list_all bare items"
| "bare _ \<longleftrightarrow> True"

definition bare_document :: "Document \<Rightarrow> bool" where
  "bare_document doc \<longleftrightarrow>
     map_of (trailer doc) (ascii ''Info'') = None \<and> map_of (trailer doc) (ascii ''ID'') = None \<and>
     list_all (bare \<circ> snd) (objects doc)"

text \<open>An object that a metadata entry, at any depth of another or in the trailer, points at.\<close>

fun points_at :: "Object \<Rightarrow> ObjectId \<Rightarrow> bool" where
  "points_at (Dictionary dict) i \<longleftrightarrow>
     list_ex (\<lambda>k. map_of dict k = Some (Reference i)) [ascii ''Metadata'', ascii ''PieceInfo'', ascii ''LastModified''] \<or>
     list_ex (\<lambda>e. fst e \<notin> {ascii ''Metadata'', ascii ''PieceInfo'', ascii ''LastModified''} \<and> points_at (snd e) i) dict"
| "points_at (Stream dict content) i \<longleftrightarrow>
     list_ex (\<lambda>k. map_of dict k = Some (Reference i)) [ascii ''Metadata'', ascii ''PieceInfo'', ascii ''LastModified''] \<or>
     list_ex (\<lambda>e. fst e \<notin> {ascii ''Metadata'', ascii ''PieceInfo'', ascii ''LastModified''} \<and> points_at (snd e) i) dict"
| "points_at (Array items) i \<longleftrightarrow> list_ex (\<lambda>x. points_at x i) items"
| "points_at _ i \<longleftrightarrow> False"

definition metadata_object :: "Document \<Rightarrow> ObjectId \<Rightarrow> bool" where
  "metadata_object doc i \<longleftrightarrow>
     map_of (trailer doc) (ascii ''Info'') = Some (Reference i) \<or> list_ex (\<lambda>e. points_at (snd e) i) (objects doc)"

lemma metadata_names: "{ascii ''Metadata'', ascii ''PieceInfo'', ascii ''LastModified''} = set METADATA_KEYS"
  by (auto simp: METADATA_KEYS_def)

lemma remove_keys_kept: "fst (remove_keys ks dict) = filter (\<lambda>e. fst e \<notin> set ks) dict"
  by (induction ks arbitrary: dict) (auto simp: remove_key_def Let_def split_beta intro: filter_cong)

lemma remove_keys_absent: "\<forall>e \<in> set dict. fst e \<notin> set ks \<Longrightarrow> remove_keys ks dict = (dict, [])"
proof (induction ks arbitrary: dict)
  case (Cons key ks)
  have "map_of dict key = None" using Cons.prems by (auto simp: map_of_eq_None_iff)
  moreover have "filter (\<lambda>(k, _). k \<noteq> key) dict = dict" using Cons.prems by (auto simp: filter_id_conv)
  ultimately show ?case using Cons by (simp add: remove_key_def)
qed simp

lemma strip_bare: "bare (fst (strip x))"
  by (induction x rule: strip.induct)
     (auto simp: Let_def list_all_iff metadata_names remove_keys_kept split_beta simp del: insert_iff)

lemma bare_strip: "bare x \<Longrightarrow> strip x = (x, [])"
proof (induction x rule: strip.induct)
  case (1 dict)
  then have r: "remove_keys METADATA_KEYS dict = (dict, [])"
    by (intro remove_keys_absent) (simp add: list_all_iff metadata_names del: insert_iff)
  have "strip (snd e) = (snd e, [])" if "e \<in> set dict" for e
    using "1.IH" [OF refl, of e "fst e" "snd e"] "1.prems" that by (auto simp: r list_all_iff)
  then show ?case using r by (auto simp: Let_def split_beta intro: map_idI)
next
  case (2 dict content)
  then have r: "remove_keys METADATA_KEYS dict = (dict, [])"
    by (intro remove_keys_absent) (simp add: list_all_iff metadata_names del: insert_iff)
  have "strip (snd e) = (snd e, [])" if "e \<in> set dict" for e
    using "2.IH" [OF refl, of e "fst e" "snd e"] "2.prems" that by (auto simp: r list_all_iff)
  then show ?case using r by (auto simp: Let_def split_beta intro: map_idI)
next
  case (3 items)
  then show ?case by (auto simp: Let_def list_all_iff intro: map_idI)
qed simp_all

lemma map_of_without: "map_of (filter (\<lambda>(k, _). k \<noteq> key) dict) k = (if k = key then None else map_of dict k)"
  by (induction dict) auto

lemma removed_ref: "i \<in> set (snd (remove_key key dict)) \<longleftrightarrow> map_of dict key = Some (Reference i)"
  by (cases i) (auto simp: remove_key_def split: option.splits Object.splits)

lemma removed_refs: "i \<in> set (snd (remove_keys ks dict)) \<longleftrightarrow> (\<exists>k \<in> set ks. map_of dict k = Some (Reference i))"
proof (induction ks arbitrary: dict)
  case (Cons key ks)
  have "i \<in> set (snd (remove_keys (key # ks) dict)) \<longleftrightarrow>
      i \<in> set (snd (remove_key key dict)) \<or> i \<in> set (snd (remove_keys ks (filter (\<lambda>(k, _). k \<noteq> key) dict)))"
    by (simp add: Let_def split_beta remove_key_def)
  then show ?case by (auto simp: removed_ref Cons.IH map_of_without)
qed simp

lemma points_at_dict:
  "points_at (Dictionary dict) i \<longleftrightarrow>
     (\<exists>k \<in> set METADATA_KEYS. map_of dict k = Some (Reference i)) \<or> (\<exists>e \<in> set dict. fst e \<notin> set METADATA_KEYS \<and> points_at (snd e) i)"
  "points_at (Stream dict content) i \<longleftrightarrow> points_at (Dictionary dict) i"
  by (simp_all add: METADATA_KEYS_def list_ex_iff)

lemma strip_dict_dead:
  "i \<in> set (snd (strip (Dictionary dict))) \<longleftrightarrow>
     (\<exists>k \<in> set METADATA_KEYS. map_of dict k = Some (Reference i)) \<or>
     (\<exists>e \<in> set dict. fst e \<notin> set METADATA_KEYS \<and> i \<in> set (snd (strip (snd e))))"
  "i \<in> set (snd (strip (Stream dict content))) \<longleftrightarrow> i \<in> set (snd (strip (Dictionary dict)))"
  by (fastforce simp: Let_def split_beta removed_refs remove_keys_kept)+

declare points_at.simps(1,2) [simp del]

lemma strip_dead: "i \<in> set (snd (strip x)) \<longleftrightarrow> points_at x i"
proof (induction x rule: strip.induct)
  case (1 dict)
  have "i \<in> set (snd (strip (snd e))) \<longleftrightarrow> points_at (snd e) i" if "e \<in> set dict" "fst e \<notin> set METADATA_KEYS" for e
    using "1.IH" [OF refl, of e "fst e" "snd e"] that by (simp add: remove_keys_kept)
  then show ?case unfolding strip_dict_dead points_at_dict by blast
next
  case (2 dict content)
  have "i \<in> set (snd (strip (snd e))) \<longleftrightarrow> points_at (snd e) i" if "e \<in> set dict" "fst e \<notin> set METADATA_KEYS" for e
    using "2.IH" [OF refl, of e "fst e" "snd e"] that by (simp add: remove_keys_kept)
  then show ?case unfolding strip_dict_dead points_at_dict by blast
qed (auto simp: Let_def list_ex_iff)

lemma strip_document_objects:
  "map fst (objects (strip_document doc)) = filter (\<lambda>i. \<not> metadata_object doc i) (map fst (objects doc))"
  unfolding strip_document_def
  by (simp add: Let_def split_beta filter_map comp_def metadata_object_def list_ex_iff strip_dead removed_ref)

lemma strip_document_bare: "bare_document (strip_document doc)"
  by (auto simp: bare_document_def strip_document_def remove_key_def Let_def split_beta list_all_iff strip_bare
      map_of_eq_None_iff)

lemma bare_document_strip:
  assumes "bare_document doc"
  shows "strip_document doc = doc"
proof -
  have o: "map (\<lambda>(i, x). (i, strip x)) (objects doc) = map (\<lambda>(i, x). (i, x, [])) (objects doc)"
    using assms by (auto simp: bare_document_def list_all_iff bare_strip)
  have t: "filter (\<lambda>(k, _). k \<noteq> ascii ''Info'') (trailer doc) = trailer doc"
    "filter (\<lambda>(k, _). k \<noteq> ascii ''ID'') (trailer doc) = trailer doc"
    using assms by (force simp: bare_document_def map_of_eq_None_iff filter_id_conv)+
  have "concat (map (\<lambda>(i, r). snd r) (map (\<lambda>(i, x). (i, x, [])) (objects doc))) = ([] :: ObjectId list)"
    by (simp add: split_beta)
  with assms show ?thesis
    unfolding strip_document_def remove_key_def o
    by (simp add: t bare_document_def split_beta comp_def)
qed


definition plain_case :: unicode_case where
  "plain_case = \<lparr>to_lowercase = id, to_uppercase = id\<rparr>"

text \<open>A library that reads one document, a page whose metadata stream is object 2, whatever the bytes.\<close>

definition sample_document :: Document where
  "sample_document =
     \<lparr>trailer = [(ascii ''Root'', Reference (1, 0)), (ascii ''Info'', Reference (3, 0)), (ascii ''ID'', Array [])],
      objects = [((1, 0), Dictionary [(ascii ''Type'', Name (ascii ''Catalog'')), (ascii ''Metadata'', Reference (2, 0))]),
                 ((2, 0), Stream [] [65]), ((3, 0), Dictionary [(ascii ''Author'', String [66])])]\<rparr>"

definition sample_lopdf :: lopdf where
  "sample_lopdf = \<lparr>load_mem = \<lambda>_. Inr sample_document, is_encrypted = \<lambda>_. False, prune_objects = id,
     save_to = \<lambda>doc. Inr (concat (map (\<lambda>(i, x). [ucast (fst i)]) (objects doc)))\<rparr>"


section \<open>Knowing from the first bytes\<close>

lemma sniff_take:
  assumes "1024 \<le> n"
  shows "sniff (take n d) = sniff d"
proof -
  have sw: "starts_with (take n d) p \<longleftrightarrow> starts_with d p" if "length p \<le> 1024" for p
    using assms that by (simp add: starts_with_def min_def)
  have "take 4 (take n d) = take 4 d" "take 4 (drop 8 (take n d)) = take 4 (drop 8 d)"
    "take 4 (drop 4 (take n d)) = take 4 (drop 4 d)" "take 1024 (take n d) = take 1024 d"
    "(12 \<le> length (take n d)) = (12 \<le> length d)"
    using assms by (simp_all add: drop_take min_def)
  moreover have "length (ascii ''II*'' @ [0]) \<le> 1024" "length (ascii ''MM'' @ [0, 0x2A]) \<le> 1024" "length PNG_SIG \<le> 1024"
    "length ([0x1A, 0x45, 0xDF, 0xA3] :: bytes) \<le> 1024" "length ([0xFF, 0xD8, 0xFF] :: bytes) \<le> 1024"
    by (simp_all add: ascii_def PNG_SIG_def)
  ultimately show ?thesis unfolding sniff_def by (simp only: sw)
qed

text \<open>
  \<open>passes_through\<close> given the first kilobyte is right: whatever the length of the file, when it says
  the file passes, the filter gives it back unchanged under the name \<open>passed_name\<close>, and a file the filter
  recognises, or whose name claims a format it knows, never passes.
\<close>

theorem first_kilobyte_decides:
  assumes "1024 \<le> n"
  shows "passes_through U f (take n d) = (sniff d = None \<and> extension U f \<notin> set (CLEANABLE_EXT @ UNSUPPORTED_EXT)) \<and>
    (passes_through U f (take n d) \<longrightarrow> sanitize_attachment_data C U L f d = Inr (passed_name f, d))"
  by (auto simp: passes_through_def sniff_take [OF assms] sanitize_attachment_data_def passed_name_def Let_def)

lemma first_kilobyte_decides_witness:
  "passes_through plain_case (ascii ''notes.bin'') (take 1024 [1, 2, 3]) \<and>
   sanitize_attachment_data toy_crypto plain_case sample_lopdf (ascii ''notes.bin'') [1, 2, 3] = Inr (ascii ''notes.bin'', [1, 2, 3])"
proof -
  have p: "passes_through plain_case (ascii ''notes.bin'') (take 1024 [1, 2, 3])" by code_simp
  have "passed_name (ascii ''notes.bin'') = ascii ''notes.bin''" by code_simp
  with p first_kilobyte_decides [of 1024 plain_case "ascii ''notes.bin''" "[1, 2, 3]" toy_crypto sample_lopdf] show ?thesis by simp
qed

text \<open>
  C39. \<open>read_one_attachment\<close> looks at 64 bytes only. A large PDF whose header comes after them (readers, and
  the filter, accept it anywhere in the first kilobyte) and whose name does not end in a known
  extension is sent from disk as it is, metadata included, with the filter switched on; the filter
  itself would have rewritten it, as it does when the file comes by any other way.
\<close>

theorem late_pdf_header_escapes:
  assumes "sniff (take 64 content) = None" and "sniff content = Some Pdf"
    and "file_name path = Some name" and "extension U name \<notin> set (CLEANABLE_EXT @ UNSUPPORTED_EXT)"
    and "INLINE_MAX < length content" and "length content \<le> MAX_FILE_BYTES"
  shows "read_one_attachment C U L path content False 64 True =
      Inr (\<lparr>pa_name = passed_name name, pa_data = [], pa_from = Some path\<rparr>, False) \<and>
    map_sum id snd (sanitize_attachment_data C U L name content) = named (ascii ''PDF'') (clean_pdf L content)"
proof -
  have "passes_through U name (take 64 content)" using assms(1,4) by (simp add: passes_through_def Let_def)
  then have "read_one_attachment C U L path content False 64 True =
      Inr (\<lparr>pa_name = passed_name name, pa_data = [], pa_from = Some path\<rparr>, False)"
    using assms by (simp add: read_one_attachment_def)
  moreover have "map_sum id snd (sanitize_attachment_data C U L name content) =
      named (ascii ''PDF'') (clean_pdf L content)"
    by (simp add: sanitize_attachment_data_def assms(2) named_def split: sum.split)
  ultimately show ?thesis by blast
qed

definition late_pdf :: bytes where
  "late_pdf = replicate 100 0 @ ascii ''%PDF-1.7'' @ replicate 200000 0"

lemma late_pdf_sniffed: "sniff (take 64 late_pdf) = None" "sniff late_pdf = Some Pdf"
proof -
  have "sniff (replicate 64 0) = None" by code_simp
  then show "sniff (take 64 late_pdf) = None" by (simp add: late_pdf_def)
  have "take 5 (drop 100 (take 1024 late_pdf)) = ascii ''%PDF-''" by (simp add: late_pdf_def ascii_def)
  moreover have "length (take 1024 late_pdf) = 1024" "length (ascii ''%PDF-'') = 5" by (simp_all add: late_pdf_def ascii_def)
  ultimately have "has_window (ascii ''%PDF-'') (take 1024 late_pdf)"
    unfolding has_window_def list_ex_iff by (intro bexI [of _ 100]) simp_all
  moreover have "take k late_pdf = replicate k 0" "take k (drop k late_pdf) = replicate k 0" if "k \<le> 8" for k
    using that by (simp_all add: late_pdf_def)
  moreover have "replicate 4 (0 :: u8) = [0, 0, 0, 0]" by (simp add: eval_nat_numeral)
  ultimately show "sniff late_pdf = Some Pdf"
    by (simp add: sniff_def starts_with_def PNG_SIG_def ascii_def)
qed

lemma late_pdf_header_escapes_witness:
  "read_one_attachment toy_crypto plain_case sample_lopdf (ascii ''/home/u/report.bin'') late_pdf False 64 True =
     Inr (\<lparr>pa_name = ascii ''report.bin'', pa_data = [], pa_from = Some (ascii ''/home/u/report.bin'')\<rparr>, False)"
proof -
  have "file_name (ascii ''/home/u/report.bin'') = Some (ascii ''report.bin'')"
    "extension plain_case (ascii ''report.bin'') \<notin> set (CLEANABLE_EXT @ UNSUPPORTED_EXT)"
    "passed_name (ascii ''report.bin'') = ascii ''report.bin''"
    by code_simp+
  moreover have "INLINE_MAX < length late_pdf" "length late_pdf \<le> MAX_FILE_BYTES"
    by (simp_all add: late_pdf_def INLINE_MAX_def MAX_FILE_BYTES_def ascii_def)
  ultimately show ?thesis
    using late_pdf_header_escapes [OF late_pdf_sniffed, of "ascii ''/home/u/report.bin''"] by simp
qed

end
