(* ===== verification/Update.thy ===== *)
theory Update
  imports Crypto_Prims Str_Ops
begin

text \<open>
  \<open>libcore/src/update.rs\<close> and \<open>libcore/src/i2p_http.rs\<close>: finding, checking and fetching a release. A
  string is its UTF-8 bytes; a message inside an error keeps its text where it is written in
  ASCII. Arguments, as they come from outside: the answers of the network (\<open>exchange\<close>), the crates
  \<open>url\<close> and \<open>serde_json\<close>, the hash, and which operations on the disk fail. Sizes are naturals: a
  \<open>u64\<close> that is read is checked against its range, and sums stay below \<open>2 ^ 64\<close> by the limits.
\<close>

section \<open>Errors and data\<close>

datatype HttpError =
  Url bytes | Outproxy bytes | Tls bytes | Http bytes | Status nat | Redirects | BodyTooLarge nat

datatype UpdateError =
    I2pHttp HttpError | IoError | Json bytes | BadSha256 | MissingChecksumManifest
  | AmbiguousChecksumManifest | AmbiguousAsset bytes | MissingChecksum bytes
  | InvalidChecksumManifest nat | AmbiguousChecksum bytes | BadSize nat nat | TooLarge
  | UnsupportedUpdate bytes | NotConfigured

datatype Component = App | Agent

record ReleaseAsset =
  asset_name :: bytes
  download_url :: bytes
  asset_size :: nat

record ReleaseInfo =
  rel_version :: bytes
  rel_notes :: bytes
  rel_assets :: "ReleaseAsset list"

datatype Sha256Digest = Sha256Digest bytes

record UpdateInfo =
  upd_version :: bytes
  upd_notes :: bytes
  upd_asset :: ReleaseAsset
  upd_sha256 :: Sha256Digest

record GhAsset =
  gh_name :: bytes
  browser_download_url :: bytes
  gh_size :: nat

record GhRelease =
  tag_name :: bytes
  gh_body :: "bytes option"
  gh_assets :: "GhAsset list"

datatype CheckOutcome =
    Update UpdateInfo | CheckNotConfigured | UpToDate bytes | Dismissed bytes
  | UnsupportedInstall bytes | NoAsset bytes bytes

definition MAX_ARTIFACT_BYTES :: nat where "MAX_ARTIFACT_BYTES = 1024 * 1024 * 1024"
definition MAX_RELEASE_BYTES :: nat where "MAX_RELEASE_BYTES = 4 * 1024 * 1024"
definition MAX_MANIFEST_BYTES :: nat where "MAX_MANIFEST_BYTES = 1024 * 1024"
definition CHECKSUM_MANIFEST :: bytes where "CHECKSUM_MANIFEST = ascii ''SHA256SUMS.txt''"
definition GITHUB_REPO :: bytes where "GITHUB_REPO = ascii ''gluckdev/gipny-i2p''"

section \<open>Digests\<close>

definition nibble :: "u8 \<Rightarrow> u8" where
  "nibble b =
     (if is_digit b then b - 0x30
      else if 0x61 \<le> b \<and> b \<le> 0x66 then b - 0x61 + 10
      else b - 0x41 + 10)"

fun digest_bytes :: "bytes \<Rightarrow> bytes" where
  "digest_bytes (a # b # rest) = or (push_bit 4 (nibble a)) (nibble b) # digest_bytes rest"
| "digest_bytes _ = []"

definition digest_parse :: "bytes \<Rightarrow> Sha256Digest option" where
  "digest_parse hex =
     (if length hex \<noteq> 64 \<or> \<not> list_all is_ascii_hexdigit hex then None
      else Some (Sha256Digest (digest_bytes hex)))"

fun digest_display :: "Sha256Digest \<Rightarrow> bytes" where
  "digest_display (Sha256Digest bs) = concat (map hex_02 bs)"

section \<open>Versions\<close>

definition version_part :: "bytes \<Rightarrow> nat option" where
  "version_part part =
     (if part = [] \<or> \<not> list_all is_digit part \<or> (length part > 1 \<and> starts_with part [0x30]) then None
      else parse_u64 part)"

fun version_numbers :: "nat \<Rightarrow> bytes list \<Rightarrow> (nat list \<times> bytes list) option" where
  "version_numbers 0 parts = Some ([], parts)"
| "version_numbers (Suc n) [] = None"
| "version_numbers (Suc n) (part # parts) =
     (case version_part part of
        None \<Rightarrow> None
      | Some v \<Rightarrow> map_option (\<lambda>(vs, rest). (v # vs, rest)) (version_numbers n parts))"

definition strip_v :: "bytes \<Rightarrow> bytes" where
  "strip_v s = (case strip_prefix (ascii ''v'') s of None \<Rightarrow> s | Some r \<Rightarrow> r)"

definition release_version :: "bytes \<Rightarrow> nat list option" where
  "release_version s =
     (case version_numbers 3 (split_on 0x2E (strip_v s)) of
        Some (v, []) \<Rightarrow> Some v
      | _ \<Rightarrow> None)"

definition installed_version :: "bytes \<Rightarrow> (nat list \<times> bool) option" where
  "installed_version s =
     (case split_once 0x2D s of
        None \<Rightarrow> map_option (\<lambda>v. (v, False)) (release_version s)
      | Some (base, prerelease) \<Rightarrow>
          if list_all (\<lambda>part. part \<noteq> [] \<and> list_all (\<lambda>b. is_ascii_alphanumeric b \<or> b = 0x2D) part)
               (split_on 0x2E prerelease)
          then map_option (\<lambda>v. (v, True)) (release_version base)
          else None)"

text \<open>Arrays of numbers are compared from the left (\<open>lexordp\<close>).\<close>

definition version_newer :: "bytes \<Rightarrow> bytes \<Rightarrow> bool" where
  "version_newer candidate current =
     (case (release_version candidate, installed_version current) of
        (Some cand, Some (cur, prerelease)) \<Rightarrow> ord_class.lexordp cur cand \<or> (prerelease \<and> cand = cur)
      | _ \<Rightarrow> False)"

section \<open>Which file of a release\<close>

definition assoc_suffix :: "bytes \<Rightarrow> (string \<times> string) list \<Rightarrow> bytes \<Rightarrow> (bytes \<times> bytes) option" where
  "assoc_suffix prefix table key =
     map_option (\<lambda>suffix. (prefix, ascii suffix)) (map_of (map (\<lambda>(k, v). (ascii k, v)) table) key)"

definition target_suffix_for ::
  "Component \<Rightarrow> bytes \<Rightarrow> bytes \<Rightarrow> bytes \<Rightarrow> bool \<Rightarrow> bool \<Rightarrow> (bytes \<times> bytes) option" where
  "target_suffix_for component os arch triple appimage deb =
     (let app = assoc_suffix (ascii ''gipny-i2p_''); agent = assoc_suffix (ascii ''gipny-agent_'') in
      case component of
        App \<Rightarrow>
          if os = ascii ''linux'' \<and> appimage then
            app [(''aarch64'', ''_aarch64.AppImage''), (''x86_64'', ''_amd64.AppImage'')] arch
          else if os = ascii ''windows'' \<and> arch = ascii ''x86_64'' then
            Some (ascii ''gipny-i2p_'', ascii ''_x64-setup.exe'')
          else if os = ascii ''linux'' \<and> deb then
            app [(''aarch64'', ''_arm64.deb''), (''x86_64'', ''_amd64.deb'')] arch
          else if os = ascii ''macos'' then
            app [(''aarch64'', ''_aarch64.dmg''), (''x86_64'', ''_x64.dmg'')] arch
          else if os = ascii ''android'' then
            app [(''aarch64'', ''_android-arm64.apk''), (''arm'', ''_android-armv7.apk'')] arch
          else None
      | Agent \<Rightarrow>
          if os = ascii ''linux'' \<and> has_window (ascii ''-musl'') triple then
            agent [(''aarch64-unknown-linux-musl'', ''_aarch64-unknown-linux-musl.tar.gz''),
                   (''x86_64-unknown-linux-musl'', ''_x86_64-unknown-linux-musl.tar.gz''),
                   (''i686-unknown-linux-musl'', ''_i686-unknown-linux-musl.tar.gz''),
                   (''armv7-unknown-linux-musleabi'', ''_armv7-unknown-linux-musleabi.tar.gz'')] triple
          else if os = ascii ''linux'' \<and> ends_with triple (ascii ''-gnu'') then
            agent [(''aarch64'', ''_linux-arm64.tar.gz''), (''x86_64'', ''_linux-amd64.tar.gz'')] arch
          else if os = ascii ''macos'' then
            agent [(''aarch64'', ''_darwin-arm64.tar.gz''), (''x86_64'', ''_darwin-amd64.tar.gz'')] arch
          else if os = ascii ''windows'' \<and> arch = ascii ''x86_64'' then
            Some (ascii ''gipny-agent_'', ascii ''_windows-amd64.tar.gz'')
          else None)"

definition unique_asset :: "ReleaseAsset list \<Rightarrow> bytes \<Rightarrow> UpdateError + ReleaseAsset option" where
  "unique_asset assets name =
     (case filter (\<lambda>a. asset_name a = name) assets of
        [] \<Rightarrow> Inr None
      | [a] \<Rightarrow> Inr (Some a)
      | _ \<Rightarrow> Inl (AmbiguousAsset name))"

definition auto_update_allowed :: "bytes option \<Rightarrow> bytes option \<Rightarrow> bool" where
  "auto_update_allowed setting disabled \<longleftrightarrow>
     setting \<noteq> Some (ascii ''0'') \<and>
     \<not> (case disabled of
          None \<Rightarrow> False
        | Some s \<Rightarrow> map to_ascii_lowercase s \<in> set (map ascii [''1'', ''true'', ''yes'', ''on'']))"

section \<open>The checksum manifest\<close>

fun manifest_rows ::
  "bytes \<Rightarrow> nat \<Rightarrow> Sha256Digest option \<Rightarrow> bytes list \<Rightarrow> bytes list \<Rightarrow> UpdateError + Sha256Digest option" where
  "manifest_rows wanted line_index found names [] = Inr found"
| "manifest_rows wanted line_index found names (line # rest) =
     (if trim line = [] then manifest_rows wanted (Suc line_index) found names rest
      else if length line < 67 \<or> line ! 64 \<noteq> 0x20 \<or> \<not> (line ! 65 = 0x20 \<or> line ! 65 = 0x2A)
        then Inl (InvalidChecksumManifest (line_index + 1))
      else case digest_parse (take 64 line) of
        None \<Rightarrow> Inl (InvalidChecksumManifest (line_index + 1))
      | Some digest \<Rightarrow>
          let name = drop 66 line in
          if 0 \<in> set name \<or> 0x0D \<in> set name \<or> 0x0A \<in> set name
            then Inl (InvalidChecksumManifest (line_index + 1))
          else if name \<in> set names then Inl (AmbiguousChecksum name)
          else manifest_rows wanted (Suc line_index) (if name = wanted then Some digest else found) (name # names) rest)"

definition parse_sha256_manifest :: "bytes \<Rightarrow> bytes \<Rightarrow> UpdateError + Sha256Digest" where
  "parse_sha256_manifest txt wanted =
     (if length txt > MAX_MANIFEST_BYTES then Inl TooLarge
      else case manifest_rows wanted 0 None [] (str_lines txt) of
        Inl e \<Rightarrow> Inl e
      | Inr None \<Rightarrow> Inl (MissingChecksum wanted)
      | Inr (Some d) \<Rightarrow> Inr d)"

definition find_sha256 ::
  "ReleaseAsset list \<Rightarrow> bytes \<Rightarrow> (bytes \<Rightarrow> UpdateError + bytes) \<Rightarrow> UpdateError + Sha256Digest" where
  "find_sha256 assets wanted fetch =
     (case filter (\<lambda>a. asset_name a = CHECKSUM_MANIFEST) assets of
        [] \<Rightarrow> Inl MissingChecksumManifest
      | [sums] \<Rightarrow>
          if asset_size sums > MAX_MANIFEST_BYTES then Inl TooLarge
          else (case fetch (download_url sums) of
                  Inl e \<Rightarrow> Inl e
                | Inr txt \<Rightarrow> parse_sha256_manifest txt wanted)
      | _ \<Rightarrow> Inl AmbiguousChecksumManifest)"

section \<open>HTTP through the outproxy\<close>

text \<open>
  A body arrives as frames: data, trailers, or an error of the connection. \<open>body_chunks\<close> is what the
  calls of \<open>Body::chunk\<close> give until the first error or the end.
\<close>

datatype frame = Data bytes | Trailers | FrameError bytes

fun body_chunk :: "frame list \<Rightarrow> HttpError + (bytes option \<times> frame list)" where
  "body_chunk [] = Inr (None, [])"
| "body_chunk (FrameError e # rest) = Inl (Http e)"
| "body_chunk (Data d # rest) = Inr (Some d, rest)"
| "body_chunk (Trailers # rest) = body_chunk rest"

lemma body_chunk_shorter: "body_chunk fs = Inr (Some c, rest) \<Longrightarrow> length rest < length fs"
  by (induction fs rule: body_chunk.induct) auto

function text_loop :: "nat \<Rightarrow> bytes \<Rightarrow> frame list \<Rightarrow> HttpError + bytes" where
  "text_loop max_bytes out fs =
     (case body_chunk fs of
        Inl e \<Rightarrow> Inl e
      | Inr (None, _) \<Rightarrow> Inr out
      | Inr (Some c, rest) \<Rightarrow>
          if length c > max_bytes - length out then Inl (BodyTooLarge max_bytes)
          else text_loop max_bytes (out @ c) rest)"
  by pat_completeness auto
termination
  by (relation "measure (\<lambda>(m, out, fs). length fs)") (auto dest: body_chunk_shorter)

declare text_loop.simps [simp del]

definition body_text :: "bytes \<Rightarrow> nat \<Rightarrow> frame list \<Rightarrow> HttpError + bytes" where
  "body_text utf8_error max_bytes fs =
     (case text_loop max_bytes [] fs of
        Inl e \<Rightarrow> Inl e
      | Inr out \<Rightarrow> if utf8_valid out then Inr out else Inl (Http utf8_error))"

text \<open>
  \<open>get\<close>: \<open>'u\<close> is a parsed URL and \<open>once\<close> the request of \<open>get_once\<close> over the connection it makes once the
  scheme is found to be \<open>https\<close>.
\<close>

record response =
  resp_status :: nat
  location :: "bytes option"
  frames :: "frame list"

record 'u url_lib =
  url_parse :: "bytes \<Rightarrow> bytes + 'u"
  url_join :: "'u \<Rightarrow> bytes \<Rightarrow> bytes + 'u"
  scheme :: "'u \<Rightarrow> bytes"

definition MAX_REDIRECTS :: nat where "MAX_REDIRECTS = 5"

definition get_once :: "'u url_lib \<Rightarrow> ('u \<Rightarrow> HttpError + response) \<Rightarrow> 'u \<Rightarrow> HttpError + response" where
  "get_once L exchange url =
     (if scheme L url \<noteq> ascii ''https'' then Inl (Url (ascii ''only https, not '' @ scheme L url))
      else exchange url)"

fun get_redirects :: "'u url_lib \<Rightarrow> ('u \<Rightarrow> HttpError + response) \<Rightarrow> nat \<Rightarrow> 'u \<Rightarrow> HttpError + frame list" where
  "get_redirects L exchange 0 url = Inl Redirects"
| "get_redirects L exchange (Suc n) url =
     (case get_once L exchange url of
        Inl e \<Rightarrow> Inl e
      | Inr resp \<Rightarrow>
          if 300 \<le> resp_status resp \<and> resp_status resp < 400 then
            (case location resp of
               None \<Rightarrow> Inl (Http (ascii ''redirect without Location''))
             | Some loc \<Rightarrow>
                 (case url_join L url loc of
                    Inl e \<Rightarrow> Inl (Url e)
                  | Inr url' \<Rightarrow> get_redirects L exchange n url'))
          else if \<not> (200 \<le> resp_status resp \<and> resp_status resp < 300) then Inl (Status (resp_status resp))
          else Inr (frames resp))"

definition http_get :: "'u url_lib \<Rightarrow> ('u \<Rightarrow> HttpError + response) \<Rightarrow> bytes \<Rightarrow> HttpError + frame list" where
  "http_get L exchange url =
     (case url_parse L url of
        Inl e \<Rightarrow> Inl (Url e)
      | Inr u \<Rightarrow> get_redirects L exchange (Suc MAX_REDIRECTS) u)"

section \<open>Checking for an update\<close>

text \<open>
  \<open>Transport\<close>: the URL library, the requests over TLS with their \<open>Accept\<close> header, and the text of the
  error \<open>String::from_utf8\<close> gives.
\<close>

record 'u Transport =
  tr_lib :: "'u url_lib"
  tr_exchange :: "bytes option \<Rightarrow> 'u \<Rightarrow> HttpError + response"
  tr_utf8_error :: bytes

record 'u Updater =
  client :: "'u Transport option"
  component :: Component

definition transport_body :: "'u Transport \<Rightarrow> bytes \<Rightarrow> UpdateError + frame list" where
  "transport_body T url =
     (case http_get (tr_lib T) (tr_exchange T None) url of Inl e \<Rightarrow> Inl (I2pHttp e) | Inr b \<Rightarrow> Inr b)"

definition transport_text :: "'u Transport \<Rightarrow> bytes \<Rightarrow> bytes option \<Rightarrow> nat \<Rightarrow> UpdateError + bytes" where
  "transport_text T url accept max_bytes =
     (case http_get (tr_lib T) (tr_exchange T accept) url of
        Inl e \<Rightarrow> Inl (I2pHttp e)
      | Inr b \<Rightarrow>
          (case body_text (tr_utf8_error T) max_bytes b of Inl e \<Rightarrow> Inl (I2pHttp e) | Inr txt \<Rightarrow> Inr txt))"

definition is_configured :: "'u Updater \<Rightarrow> bool" where
  "is_configured U \<longleftrightarrow> client U \<noteq> None"

definition latest_url :: bytes where
  "latest_url = ascii ''https://api.github.com/repos/'' @ GITHUB_REPO @ ascii ''/releases/latest''"

definition latest_release :: "(bytes \<Rightarrow> bytes + GhRelease) \<Rightarrow> 'u Updater \<Rightarrow> UpdateError + ReleaseInfo" where
  "latest_release from_json U =
     (case client U of
        None \<Rightarrow> Inl NotConfigured
      | Some T \<Rightarrow>
          (case transport_text T latest_url (Some (ascii ''application/vnd.github+json'')) MAX_RELEASE_BYTES of
             Inl e \<Rightarrow> Inl e
           | Inr txt \<Rightarrow>
               (case from_json txt of
                  Inl e \<Rightarrow> Inl (Json e)
                | Inr release \<Rightarrow>
                    let version = strip_v (tag_name release) in
                    if release_version version = None
                    then Inl (Json (ascii ''latest release must have a stable major.minor.patch version''))
                    else Inr \<lparr> rel_version = version,
                               rel_notes = (case gh_body release of None \<Rightarrow> [] | Some b \<Rightarrow> b),
                               rel_assets = map (\<lambda>a. \<lparr> asset_name = gh_name a, download_url = browser_download_url a,
                                                        asset_size = gh_size a \<rparr>) (gh_assets release) \<rparr>)))"

definition asset_sha256 :: "'u Updater \<Rightarrow> ReleaseInfo \<Rightarrow> bytes \<Rightarrow> UpdateError + Sha256Digest" where
  "asset_sha256 U release name =
     (case client U of
        None \<Rightarrow> Inl NotConfigured
      | Some T \<Rightarrow> find_sha256 (rel_assets release) name (\<lambda>url. transport_text T url None MAX_MANIFEST_BYTES))"

text \<open>\<open>target_suffix\<close> reads the platform; here its answer for each component is an argument.\<close>

definition check_detailed ::
  "(bytes \<Rightarrow> bytes + GhRelease) \<Rightarrow> (Component \<Rightarrow> (bytes \<times> bytes) option) \<Rightarrow> 'u Updater \<Rightarrow> bytes \<Rightarrow> UpdateError + CheckOutcome" where
  "check_detailed from_json target_suffix U current =
     (if \<not> is_configured U then Inr CheckNotConfigured
      else case latest_release from_json U of
        Inl e \<Rightarrow> Inl e
      | Inr release \<Rightarrow>
          if \<not> version_newer (rel_version release) current then Inr (UpToDate (rel_version release))
          else (case target_suffix (component U) of
            None \<Rightarrow> Inr (UnsupportedInstall (rel_version release))
          | Some (prefix, suffix) \<Rightarrow>
              let wanted = prefix @ rel_version release @ suffix in
              (case unique_asset (rel_assets release) wanted of
                 Inl e \<Rightarrow> Inl e
               | Inr None \<Rightarrow> Inr (NoAsset (rel_version release) wanted)
               | Inr (Some asset) \<Rightarrow>
                   (case asset_sha256 U release (asset_name asset) of
                      Inl e \<Rightarrow> Inl e
                    | Inr sha256 \<Rightarrow>
                        Inr (Update \<lparr> upd_version = rel_version release, upd_notes = rel_notes release,
                                      upd_asset = asset, upd_sha256 = sha256 \<rparr>)))))"

definition check ::
  "(bytes \<Rightarrow> bytes + GhRelease) \<Rightarrow> (Component \<Rightarrow> (bytes \<times> bytes) option) \<Rightarrow> 'u Updater \<Rightarrow> bytes \<Rightarrow> UpdateError + UpdateInfo option" where
  "check from_json target_suffix U current =
     (case check_detailed from_json target_suffix U current of
        Inl e \<Rightarrow> Inl e
      | Inr (Update info) \<Rightarrow> Inr (Some info)
      | Inr _ \<Rightarrow> Inr None)"

end
