(* ===== verification/Update_Install.thy ===== *)
theory Update_Install
  imports Update
begin

text \<open>
  The second half of \<open>libcore/src/update.rs\<close>: saving a download, taking the agent out of its archive,
  replacing executables, and staging an update on Windows. A directory is a map from names to
  contents. Which operations on the disk succeed is the argument \<open>io\<close>, a flag for each of the places
  where the code calls the system; the names of temporary files, the crates \<open>tar\<close> and \<open>serde_json\<close>
  and the programs that are started are arguments too. Messages of \<open>Unsupported\<close> keep their fixed
  text. Where the code promises atomicity the model lists every state of the directory on the way.
\<close>

type_synonym files = "bytes \<rightharpoonup> bytes"

datatype io_point =
    CreateDir | CreateTemp | SetMode | SyncTemp | PersistTemp | KeepTemp
  | OpenSource | CopyInstaller | SyncInstaller | ReadInstaller | WriteSha256 | SyncSha256
  | WriteVersion | SyncVersion | RenameDir
  | ReadVersion | ClaimInstaller | ReadSha256 | ReadClaimed | RestoreInstaller
  | ReadReady | ReadQueued | ReadStaged | CreateReady | WriteReady | SyncReady | PersistReady | RemoveStaged

type_synonym disk_ok = "io_point \<Rightarrow> bool"

section \<open>Paths\<close>

datatype path_component = RootDir | CurDir | ParentDir | Normal bytes

definition path_components :: "bytes \<Rightarrow> path_component list" where
  "path_components p =
     (let pieces = split_on 0x2F p in
      (if starts_with p (ascii ''/'') then [RootDir] else if hd pieces = ascii ''.'' then [CurDir] else []) @
      map (\<lambda>c. if c = ascii ''..'' then ParentDir else Normal c)
        (filter (\<lambda>c. c \<noteq> [] \<and> c \<noteq> ascii ''.'') pieces))"

definition path_file_name :: "bytes \<Rightarrow> bytes option" where
  "path_file_name p = (case rev (path_components p) of Normal c # _ \<Rightarrow> Some c | _ \<Rightarrow> None)"

definition has_parent :: "bytes \<Rightarrow> bool" where
  "has_parent p \<longleftrightarrow> path_components p \<noteq> [] \<and> path_components p \<noteq> [RootDir]"

definition path_join :: "bytes \<Rightarrow> bytes \<Rightarrow> bytes" where
  "path_join dir p =
     (if starts_with p (ascii ''/'') then p
      else if dir = [] \<or> ends_with dir (ascii ''/'') then dir @ p
      else dir @ ascii ''/'' @ p)"

section \<open>Saving a download\<close>

text \<open>
  \<open>sv_seen\<close> holds every state of the files so far, the newest last. A write of a chunk may stop after
  some of its bytes: \<open>stops i = Some k\<close> says the \<open>i\<close>-th does after \<open>k\<close>.
\<close>

record saving =
  sv_files :: files
  sv_seen :: "files list"
  sv_progress :: "(nat \<times> nat) list"

definition set_files :: "files \<Rightarrow> saving \<Rightarrow> saving" where
  "set_files fs s = s\<lparr>sv_files := fs, sv_seen := sv_seen s @ [fs]\<rparr>"

definition append_file :: "bytes \<Rightarrow> bytes \<Rightarrow> saving \<Rightarrow> saving" where
  "append_file tmp d s =
     set_files ((sv_files s)(tmp := map_option (\<lambda>c. c @ d) (sv_files s tmp))) s"

definition drop_temp :: "bytes \<Rightarrow> saving \<Rightarrow> saving" where
  "drop_temp tmp s = set_files ((sv_files s)(tmp := None)) s"

function save_chunks ::
  "(nat \<Rightarrow> nat option) \<Rightarrow> bytes \<Rightarrow> nat \<Rightarrow> nat \<Rightarrow> nat \<Rightarrow> bytes \<Rightarrow> frame list \<Rightarrow> saving
   \<Rightarrow> saving \<times> (UpdateError + nat \<times> bytes)" where
  "save_chunks stops tmp sz i got hashed fs s =
     (case body_chunk fs of
        Inl e \<Rightarrow> (s, Inl (I2pHttp e))
      | Inr (None, _) \<Rightarrow> (s, Inr (got, hashed))
      | Inr (Some chunk, rest) \<Rightarrow>
          let got = got + length chunk in
          if got > MAX_ARTIFACT_BYTES then (s, Inl TooLarge)
          else if got > sz then (s, Inl (BadSize sz got))
          else (case stops i of
                  Some k \<Rightarrow> (append_file tmp (take k chunk) s, Inl IoError)
                | None \<Rightarrow>
                    let s = append_file tmp chunk s in
                    save_chunks stops tmp sz (Suc i) got (hashed @ chunk) rest
                      (s\<lparr>sv_progress := sv_progress s @ [(got, sz)]\<rparr>)))"
  by pat_completeness auto
termination
  by (relation "measure (\<lambda>(stops, tmp, sz, i, got, hashed, fs, s). length fs)") (auto dest: body_chunk_shorter)

declare save_chunks.simps [simp del]

fun digest_value :: "Sha256Digest \<Rightarrow> bytes" where
  "digest_value (Sha256Digest bs) = bs"

definition save_verified_asset ::
  "crypto \<Rightarrow> disk_ok \<Rightarrow> (nat \<Rightarrow> nat option) \<Rightarrow> bytes \<Rightarrow> frame list \<Rightarrow> ReleaseAsset \<Rightarrow> Sha256Digest \<Rightarrow> bytes \<Rightarrow> saving
   \<Rightarrow> saving \<times> (UpdateError + unit)" where
  "save_verified_asset C io stops tmp body asset expected dest s =
     (if asset_size asset > MAX_ARTIFACT_BYTES then (s, Inl TooLarge)
      else if \<not> io CreateDir \<or> \<not> io CreateTemp then (s, Inl IoError)
      else
        case save_chunks stops tmp (asset_size asset) 0 0 [] body (set_files ((sv_files s)(tmp \<mapsto> [])) s) of
          (s, Inl e) \<Rightarrow> (drop_temp tmp s, Inl e)
        | (s, Inr (got, hashed)) \<Rightarrow>
            if got \<noteq> asset_size asset then (drop_temp tmp s, Inl (BadSize (asset_size asset) got))
            else if Sha256 C hashed \<noteq> digest_value expected then (drop_temp tmp s, Inl BadSha256)
            else if \<not> io SyncTemp \<or> \<not> io PersistTemp then (drop_temp tmp s, Inl IoError)
            else (set_files ((sv_files s)(tmp := None, dest := sv_files s tmp)) s, Inr ()))"

definition download_asset_to ::
  "crypto \<Rightarrow> disk_ok \<Rightarrow> (nat \<Rightarrow> nat option) \<Rightarrow> bytes \<Rightarrow> 'u Updater \<Rightarrow> ReleaseAsset \<Rightarrow> Sha256Digest \<Rightarrow> bytes \<Rightarrow> saving
   \<Rightarrow> saving \<times> (UpdateError + unit)" where
  "download_asset_to C io stops tmp U asset expected dest s =
     (if asset_size asset > MAX_ARTIFACT_BYTES then (s, Inl TooLarge)
      else case client U of
        None \<Rightarrow> (s, Inl NotConfigured)
      | Some T \<Rightarrow>
          (case transport_body T (download_url asset) of
             Inl e \<Rightarrow> (s, Inl e)
           | Inr body \<Rightarrow> save_verified_asset C io stops tmp body asset expected dest s))"

definition download_asset ::
  "crypto \<Rightarrow> disk_ok \<Rightarrow> (nat \<Rightarrow> nat option) \<Rightarrow> bytes \<Rightarrow> 'u Updater \<Rightarrow> ReleaseAsset \<Rightarrow> Sha256Digest \<Rightarrow> bytes \<Rightarrow> saving
   \<Rightarrow> saving \<times> (UpdateError + bytes)" where
  "download_asset C io stops tmp U asset expected dest_dir s =
     (let dest = path_join dest_dir (asset_name asset) in
      case download_asset_to C io stops tmp U asset expected dest s of
        (s, Inl e) \<Rightarrow> (s, Inl e)
      | (s, Inr _) \<Rightarrow> (s, Inr dest))"

definition download ::
  "crypto \<Rightarrow> disk_ok \<Rightarrow> (nat \<Rightarrow> nat option) \<Rightarrow> bytes \<Rightarrow> 'u Updater \<Rightarrow> UpdateInfo \<Rightarrow> bytes \<Rightarrow> saving
   \<Rightarrow> saving \<times> (UpdateError + bytes)" where
  "download C io stops tmp U info dest_dir s =
     download_asset C io stops tmp U (upd_asset info) (upd_sha256 info) dest_dir s"

section \<open>The agent's archive\<close>

text \<open>
  What the crate \<open>tar\<close> gives for each entry: size, path, type and contents, each of the last where
  reading may fail an option. The whole is \<open>None\<close> when the archive cannot be opened.
\<close>

record tar_entry =
  te_size :: nat
  te_path :: "bytes option"
  te_is_file :: bool
  te_data :: "bytes option"

fun extract_loop ::
  "bytes \<Rightarrow> nat \<Rightarrow> nat \<Rightarrow> bool \<Rightarrow> bytes \<Rightarrow> tar_entry option list \<Rightarrow> UpdateError + (bool \<times> bytes)" where
  "extract_loop executable count got found output [] = Inr (found, output)"
| "extract_loop executable count got found output (e # rest) =
     (if count \<ge> 128 then Inl TooLarge
      else case e of
        None \<Rightarrow> Inl IoError
      | Some entry \<Rightarrow>
          let got = got + te_size entry in
          if got \<ge> 2 ^ 64 then Inl TooLarge
          else if got > MAX_ARTIFACT_BYTES then Inl TooLarge
          else (case te_path entry of
            None \<Rightarrow> Inl IoError
          | Some path \<Rightarrow>
              if list_ex (\<lambda>c. case c of Normal _ \<Rightarrow> False | _ \<Rightarrow> True) (path_components path)
                then Inl (UnsupportedUpdate (ascii ''unsafe path in agent archive''))
              else if path_file_name path \<noteq> Some executable
                then extract_loop executable (Suc count) got found output rest
              else if found \<or> \<not> te_is_file entry \<or> te_size entry = 0
                then Inl (UnsupportedUpdate (ascii ''agent archive must contain one regular executable''))
              else (case te_data entry of
                None \<Rightarrow> Inl IoError
              | Some data \<Rightarrow>
                  let copied = take (MAX_ARTIFACT_BYTES + 1) data in
                  if length copied > MAX_ARTIFACT_BYTES then Inl TooLarge
                  else extract_loop executable (Suc count) got True (output @ copied) rest)))"

definition extract_agent_binary :: "tar_entry option list option \<Rightarrow> bytes \<Rightarrow> UpdateError + bytes" where
  "extract_agent_binary archive executable =
     (case archive of
        None \<Rightarrow> Inl IoError
      | Some entries \<Rightarrow>
          (case extract_loop executable 0 0 False [] entries of
             Inl e \<Rightarrow> Inl e
           | Inr (found, output) \<Rightarrow>
               if found then Inr output
               else Inl (UnsupportedUpdate (ascii ''no '' @ executable @ ascii '' binary in the downloaded archive''))))"

section \<open>Replacing an executable\<close>

definition atomic_executable_copy :: "disk_ok \<Rightarrow> bytes \<Rightarrow> bytes \<Rightarrow> files \<Rightarrow> files \<times> (UpdateError + unit)" where
  "atomic_executable_copy io source current fs =
     (if \<not> has_parent current then (fs, Inl (UnsupportedUpdate (ascii ''executable has no parent directory'')))
      else if \<not> io CreateTemp then (fs, Inl IoError)
      else case fs source of
        None \<Rightarrow> (fs, Inl IoError)
      | Some data \<Rightarrow>
          if \<not> io OpenSource \<or> \<not> io SetMode \<or> \<not> io SyncTemp \<or> \<not> io PersistTemp then (fs, Inl IoError)
          else (fs(current \<mapsto> data), Inr ()))"

definition install_appimage_now :: "disk_ok \<Rightarrow> bytes option \<Rightarrow> bytes \<Rightarrow> files \<Rightarrow> files \<times> (UpdateError + unit)" where
  "install_appimage_now io appimage downloaded fs =
     (case appimage of
        None \<Rightarrow> (fs, Inl (UnsupportedUpdate (ascii ''this process is not an AppImage'')))
      | Some current \<Rightarrow> atomic_executable_copy io downloaded current fs)"

definition install_agent_binary_now ::
  "(bytes \<Rightarrow> tar_entry option list option) \<Rightarrow> disk_ok \<Rightarrow> bytes \<Rightarrow> bytes \<Rightarrow> files \<Rightarrow> files \<times> (UpdateError + unit)" where
  "install_agent_binary_now untar io downloaded current fs =
     (if \<not> has_parent current then (fs, Inl (UnsupportedUpdate (ascii ''agent executable has no parent'')))
      else if \<not> io CreateTemp then (fs, Inl IoError)
      else case extract_agent_binary (if io OpenSource then Option.bind (fs downloaded) untar else None) (ascii ''gipny-agent'') of
        Inl e \<Rightarrow> (fs, Inl e)
      | Inr data \<Rightarrow>
          if \<not> io SetMode \<or> \<not> io SyncTemp \<or> \<not> io PersistTemp then (fs, Inl IoError)
          else (fs(current \<mapsto> data), Inr ()))"

text \<open>A file is hashed in pieces of any size; the digest is that of the whole.\<close>

definition file_digest :: "crypto \<Rightarrow> bytes \<Rightarrow> Sha256Digest" where
  "file_digest C data = Sha256Digest (Sha256 C data)"

section \<open>The installer on Windows\<close>

text \<open>The directory \<open>pending_update\<close>, where there is one.\<close>

record pending_dir =
  pd_version :: "bytes option"
  pd_sha256 :: "bytes option"
  pd_installer :: "bytes option"
  pd_claimed :: "bytes option"

definition empty_pending :: pending_dir where
  "empty_pending = \<lparr>pd_version = None, pd_sha256 = None, pd_installer = None, pd_claimed = None\<rparr>"

definition version_between :: "string \<Rightarrow> string \<Rightarrow> bytes \<Rightarrow> bytes option" where
  "version_between prefix suffix downloaded =
     (case Option.bind (Option.bind (path_file_name downloaded) (strip_prefix (ascii prefix))) (strip_suffix (ascii suffix)) of
        None \<Rightarrow> None
      | Some version \<Rightarrow> if release_version version = None then None else Some version)"

definition stage_windows_installer ::
  "crypto \<Rightarrow> disk_ok \<Rightarrow> bytes \<Rightarrow> bytes option \<Rightarrow> pending_dir option \<Rightarrow> pending_dir option \<times> (UpdateError + unit)" where
  "stage_windows_installer C io downloaded content pending =
     (if \<not> io CreateDir \<or> \<not> io CreateTemp then (pending, Inl IoError)
      else case content of
        None \<Rightarrow> (pending, Inl IoError)
      | Some data \<Rightarrow>
          if \<not> io CopyInstaller \<or> \<not> io SyncInstaller \<or> \<not> io ReadInstaller \<or> \<not> io WriteSha256 \<or> \<not> io SyncSha256
            then (pending, Inl IoError)
          else (case version_between ''gipny-i2p_'' ''_x64-setup.exe'' downloaded of
            None \<Rightarrow> (pending, Inl (UnsupportedUpdate (ascii ''unexpected Windows installer filename'')))
          | Some version \<Rightarrow>
              if \<not> io WriteVersion \<or> \<not> io SyncVersion then (pending, Inl IoError)
              else if \<not> (pending = None \<or> pending = Some empty_pending) \<or> \<not> io RenameDir then (pending, Inl IoError)
              else (Some \<lparr>pd_version = Some version, pd_sha256 = Some (digest_display (file_digest C data)),
                          pd_installer = Some data, pd_claimed = None\<rparr>, Inr ())))"

text \<open>\<open>read_to_string\<close>; \<open>removed\<close> is what \<open>remove_dir_all\<close> leaves, whatever it fails on.\<close>

definition read_string :: "bool \<Rightarrow> bytes option \<Rightarrow> bytes option" where
  "read_string ok content =
     (case content of None \<Rightarrow> None | Some s \<Rightarrow> if ok \<and> utf8_valid s then Some s else None)"

definition launch_attempt :: "crypto \<Rightarrow> disk_ok \<Rightarrow> bool \<Rightarrow> bytes option \<Rightarrow> bytes \<Rightarrow> UpdateError + bool" where
  "launch_attempt C io launch_ok sha256 data =
     (case read_string (io ReadSha256) sha256 of
        None \<Rightarrow> Inl IoError
      | Some txt \<Rightarrow>
          (case digest_parse (trim txt) of
             None \<Rightarrow> Inl BadSha256
           | Some expected \<Rightarrow>
               if \<not> io ReadClaimed then Inl IoError
               else if file_digest C data \<noteq> expected then Inl BadSha256
               else if \<not> launch_ok then Inl IoError
               else Inr True))"

definition launch_pending_windows_installer ::
  "crypto \<Rightarrow> disk_ok \<Rightarrow> (pending_dir \<Rightarrow> pending_dir option) \<Rightarrow> bool \<Rightarrow> bytes \<Rightarrow> pending_dir option
   \<Rightarrow> pending_dir option \<times> bytes option \<times> (UpdateError + bool)" where
  "launch_pending_windows_installer C io removed launch_ok current pending =
     (case pending of
        None \<Rightarrow> (None, None, Inr False)
      | Some d \<Rightarrow>
          (case read_string (io ReadVersion) (pd_version d) of
             None \<Rightarrow> (pending, None, Inl IoError)
           | Some version \<Rightarrow>
               if release_version (trim version) = None \<or> installed_version current = None
                 then (pending, None, Inl (UnsupportedUpdate (ascii ''invalid staged/current Windows update version'')))
               else if \<not> version_newer (trim version) current then (removed d, None, Inr False)
               else if pd_claimed d \<noteq> None
                 then (pending, None, Inl (UnsupportedUpdate (ascii ''previous Windows update did not finish'')))
               else (case pd_installer d of
                 None \<Rightarrow> (pending, None, Inr False)
               | Some data \<Rightarrow>
                   if \<not> io ClaimInstaller then (pending, None, Inl IoError)
                   else
                     let claimed = d\<lparr>pd_installer := None, pd_claimed := Some data\<rparr> in
                     (case launch_attempt C io launch_ok (pd_sha256 d) data of
                        Inr b \<Rightarrow> (Some claimed, Some data, Inr b)
                      | Inl e \<Rightarrow> (Some (if io RestoreInstaller then d else claimed), None, Inl e)))))"

section \<open>The agent on Windows\<close>

text \<open>
  The directory \<open>pending_agent\<close>. The record in \<open>ready.json\<close> is read and written by \<open>serde_json\<close>: the
  three fields as strings, where they are there and strings. The result is every state of the
  directory in turn, the last one last.
\<close>

record ready =
  rd_version :: "bytes option"
  rd_file :: "bytes option"
  rd_sha256 :: "bytes option"

record json_lib =
  ready_parse :: "bytes \<Rightarrow> bytes + ready"
  ready_print :: "bytes \<Rightarrow> bytes \<Rightarrow> bytes \<Rightarrow> bytes"

record temp_names =
  tn_exe :: bytes
  tn_ready :: bytes

definition READY_JSON :: bytes where "READY_JSON = ascii ''ready.json''"

definition queued_file_ok :: "bytes \<Rightarrow> bool" where
  "queued_file_ok f \<longleftrightarrow>
     starts_with f (ascii ''agent-'') \<and> ends_with f (ascii ''.exe'') \<and> length (path_components f) = 1 \<and>
     \<not> (0x2F \<in> set f \<or> 0x5C \<in> set f)"

text \<open>
  The answer when an update is queued: \<open>None\<close> to go on, because the queued version is older.
\<close>

definition queued_agent :: "crypto \<Rightarrow> json_lib \<Rightarrow> disk_ok \<Rightarrow> bytes \<Rightarrow> files \<Rightarrow> bytes \<Rightarrow> (UpdateError + unit) option" where
  "queued_agent C J io version dir content =
     (if \<not> io ReadReady then Some (Inl IoError)
      else case ready_parse J content of
        Inl e \<Rightarrow> Some (Inl (Json e))
      | Inr ready \<Rightarrow>
          (case rd_version ready of
             None \<Rightarrow> Some (Inl (Json (ascii ''pending agent has no version'')))
           | Some queued \<Rightarrow>
               if release_version queued = None then Some (Inl (Json (ascii ''invalid queued agent version'')))
               else if queued = version \<or> version_newer queued version then
                 Some (case rd_file ready of
                   None \<Rightarrow> Inl (Json (ascii ''invalid queued agent file''))
                 | Some f \<Rightarrow>
                     if \<not> queued_file_ok f then Inl (Json (ascii ''invalid queued agent file''))
                     else (case Option.bind (rd_sha256 ready) digest_parse of
                       None \<Rightarrow> Inl BadSha256
                     | Some expected \<Rightarrow>
                         (case dir f of
                            None \<Rightarrow> Inl IoError
                          | Some data \<Rightarrow>
                              if \<not> io ReadQueued then Inl IoError
                              else if file_digest C data \<noteq> expected then Inl BadSha256
                              else Inr ())))
               else None))"

definition publish_agent ::
  "json_lib \<Rightarrow> disk_ok \<Rightarrow> temp_names \<Rightarrow> bytes \<Rightarrow> Sha256Digest \<Rightarrow> files \<Rightarrow> files list \<times> (UpdateError + unit)" where
  "publish_agent J io names version digest dir =
     (let record_text = ready_print J (tn_exe names) (digest_display digest) version;
          abandon = (\<lambda>d. if io RemoveStaged then [d(tn_exe names := None)] else []);
          with_temp = dir(tn_ready names \<mapsto> []);
          with_text = dir(tn_ready names \<mapsto> record_text)
      in if \<not> io CreateReady then (abandon dir, Inl IoError)
         else if \<not> io WriteReady then ([with_temp, dir] @ abandon dir, Inl IoError)
         else if \<not> io SyncReady \<or> \<not> io PersistReady then ([with_temp, with_text, dir] @ abandon dir, Inl IoError)
         else ([with_temp, with_text, dir(READY_JSON \<mapsto> record_text)], Inr ()))"

definition stage_windows_agent ::
  "crypto \<Rightarrow> json_lib \<Rightarrow> (bytes \<Rightarrow> tar_entry option list option) \<Rightarrow> disk_ok \<Rightarrow> temp_names \<Rightarrow> bytes \<Rightarrow> bytes option \<Rightarrow> files
   \<Rightarrow> files list \<times> (UpdateError + unit)" where
  "stage_windows_agent C J untar io names downloaded content dir =
     (if path_file_name downloaded = None
        then ([dir], Inl (UnsupportedUpdate (ascii ''agent package has no release filename'')))
      else case version_between ''gipny-agent_'' ''_windows-amd64.tar.gz'' downloaded of
        None \<Rightarrow> ([dir], Inl (UnsupportedUpdate (ascii ''unexpected Windows agent package name'')))
      | Some version \<Rightarrow>
          if \<not> io CreateDir then ([dir], Inl IoError)
          else (case Option.bind (dir READY_JSON) (queued_agent C J io version dir) of
            Some r \<Rightarrow> ([dir], r)
          | None \<Rightarrow>
              if \<not> io CreateTemp then ([dir], Inl IoError)
              else
                let exe = dir(tn_exe names \<mapsto> []) in
                (case extract_agent_binary (if io OpenSource then Option.bind content untar else None) (ascii ''gipny-agent.exe'') of
                   Inl e \<Rightarrow> ([dir, exe, dir], Inl e)
                 | Inr data \<Rightarrow>
                     let full = dir(tn_exe names \<mapsto> data) in
                     if \<not> io SyncTemp \<or> \<not> io ReadStaged \<or> \<not> io KeepTemp then ([dir, exe, full, dir], Inl IoError)
                     else
                       (case publish_agent J io names version (file_digest C data) full of
                          (states, r) \<Rightarrow> ([dir, exe, full] @ states, r)))))"

section \<open>Installing\<close>

datatype target_os = Linux | Windows | MacOs | OtherOs

datatype InstallOutcome = InstalledNow | StagedForNextLaunch | InstallerOpened bytes | UnsupportedInstallOf bytes

text \<open>
  What \<open>install\<close> finds of the machine: the platform, \<open>$APPIMAGE\<close>, whether dpkg owns the program, whether
  the agent's bootstrap lies beside it, and how \<open>pkexec\<close> and \<open>open\<close> end.
\<close>

record machine =
  target :: target_os
  appimage :: "bytes option"
  deb_install :: bool
  bootstrap :: bool
  run_pkexec :: "UpdateError + unit"
  run_open :: "UpdateError + unit"

record install_state =
  is_files :: files
  is_pending :: "pending_dir option"
  is_agent :: files

definition is_deb_install :: "machine \<Rightarrow> bool" where
  "is_deb_install M \<longleftrightarrow> target M = Linux \<and> appimage M = None \<and> deb_install M"

definition outcome_of :: "UpdateError + unit \<Rightarrow> InstallOutcome \<Rightarrow> UpdateError + InstallOutcome" where
  "outcome_of r out = (case r of Inl e \<Rightarrow> Inl e | Inr _ \<Rightarrow> Inr out)"

definition install ::
  "crypto \<Rightarrow> json_lib \<Rightarrow> (bytes \<Rightarrow> tar_entry option list option) \<Rightarrow> disk_ok \<Rightarrow> temp_names \<Rightarrow> machine \<Rightarrow> Component
   \<Rightarrow> bytes \<Rightarrow> bytes option \<Rightarrow> install_state \<Rightarrow> install_state \<times> (UpdateError + InstallOutcome)" where
  "install C J untar io names M which downloaded agent_exe st =
     (let unsupported = UnsupportedInstallOf (ascii ''downloaded to '' @ downloaded);
          no_exe = UnsupportedUpdate (ascii ''no resolved agent binary path given'') in
      case which of
        App \<Rightarrow>
          if target M = Linux \<and> appimage M \<noteq> None then
            (case install_appimage_now io (appimage M) downloaded (is_files st) of
               (fs, r) \<Rightarrow> (st\<lparr>is_files := fs\<rparr>, outcome_of r InstalledNow))
          else if is_deb_install M then (st, outcome_of (run_pkexec M) StagedForNextLaunch)
          else if target M = Windows then
            (case stage_windows_installer C io downloaded (is_files st downloaded) (is_pending st) of
               (p, r) \<Rightarrow> (st\<lparr>is_pending := p\<rparr>, outcome_of r StagedForNextLaunch))
          else if target M = MacOs then (st, outcome_of (run_open M) (InstallerOpened downloaded))
          else (st, Inr unsupported)
      | Agent \<Rightarrow>
          if target M = Linux \<or> target M = MacOs then
            (case agent_exe of
               None \<Rightarrow> (st, Inl no_exe)
             | Some exe \<Rightarrow>
                 (case install_agent_binary_now untar io downloaded exe (is_files st) of
                    (fs, r) \<Rightarrow> (st\<lparr>is_files := fs\<rparr>, outcome_of r InstalledNow)))
          else if target M = Windows then
            (case agent_exe of
               None \<Rightarrow> (st, Inl no_exe)
             | Some exe \<Rightarrow>
                 if \<not> (has_parent exe \<and> bootstrap M)
                 then (st, Inl (UnsupportedUpdate (ascii ''Windows agent bootstrap is missing'')))
                 else (case stage_windows_agent C J untar io names downloaded (is_files st downloaded) (is_agent st) of
                         (states, r) \<Rightarrow> (st\<lparr>is_agent := last states\<rparr>, outcome_of r StagedForNextLaunch)))
          else (st, Inr unsupported))"

end
