(* ===== verification/Update_Props.thy ===== *)
theory Update_Props
  imports Update_Install
begin

unbundle bit_operations_syntax

text \<open>
  Digests, versions, the checksum manifest and the choice of an update: what the readers of
  \<open>update.rs\<close> accept, as equivalences with the texts that are written, and that an update which is
  offered comes out of one release that is newer than the running build.
\<close>

section \<open>Digests\<close>

lemma nibble_hex_digit: "n < 16 \<Longrightarrow> nibble (hex_digit n) = of_nat n"
proof -
  have "list_all (\<lambda>n. nibble (hex_digit n) = of_nat n) [0..<16]" by code_simp
  then show "n < 16 \<Longrightarrow> ?thesis" by (simp add: list_all_iff)
qed

lemma hex_digit_offset:
  assumes "48 \<le> k" "k \<le> unat b" "unat b - k < 16" and "hex_digit (unat b - k) = of_nat (unat b + j)"
  shows "unat (b - of_nat k) < 16" "hex_digit (unat (b - of_nat k)) = b + of_nat j"
proof -
  have "b - of_nat k = of_nat (unat b - k)" using assms(2) by (simp add: of_nat_diff)
  then have "unat (b - of_nat k) = unat b - k" using assms(3) by (simp add: unat_of_nat)
  then show "unat (b - of_nat k) < 16" "hex_digit (unat (b - of_nat k)) = b + of_nat j" using assms(3,4) by simp_all
qed

lemma hex_digit_nibble:
  assumes "is_ascii_hexdigit b"
  shows "unat (nibble b) < 16" "hex_digit (unat (nibble b)) = to_ascii_lowercase b"
proof -
  have u: "x \<le> b \<longleftrightarrow> unat x \<le> unat b" "b \<le> x \<longleftrightarrow> unat b \<le> unat x" for x by (simp_all add: word_le_nat_alt)
  consider (digit) "48 \<le> unat b" "unat b \<le> 57" | (upper) "65 \<le> unat b" "unat b \<le> 70" | (lower) "97 \<le> unat b" "unat b \<le> 102"
    using assms by (auto simp: is_ascii_hexdigit_def is_digit_def u)
  then have "unat (nibble b) < 16 \<and> hex_digit (unat (nibble b)) = to_ascii_lowercase b"
  proof cases
    case digit
    then have "nibble b = b - of_nat 48" "to_ascii_lowercase b = b + of_nat 0"
      by (simp_all add: nibble_def is_digit_def to_ascii_lowercase_def u)
    moreover have "hex_digit (unat b - 48) = of_nat (unat b + 0)" using digit by (simp add: hex_digit_def) arith
    ultimately show ?thesis using hex_digit_offset [of 48 b 0] digit by simp
  next
    case upper
    then have "nibble b = b - of_nat 55" "to_ascii_lowercase b = b + of_nat 32"
      by (simp_all add: nibble_def is_digit_def to_ascii_lowercase_def u)
    moreover have "hex_digit (unat b - 55) = of_nat (unat b + 32)" using upper by (simp add: hex_digit_def) arith
    ultimately show ?thesis using hex_digit_offset [of 55 b 32] upper by simp
  next
    case lower
    then have "nibble b = b - of_nat 87" "to_ascii_lowercase b = b + of_nat 0"
      by (simp_all add: nibble_def is_digit_def to_ascii_lowercase_def u)
    moreover have "hex_digit (unat b - 87) = of_nat (unat b + 0)" using lower by (simp add: hex_digit_def) arith
    ultimately show ?thesis using hex_digit_offset [of 87 b 0] lower by simp
  qed
  then show "unat (nibble b) < 16" "hex_digit (unat (nibble b)) = to_ascii_lowercase b" by simp_all
qed

lemma nibbles_join: "or (push_bit 4 (of_nat (unat b div 16))) (of_nat (unat b mod 16)) = (b :: u8)"
proof -
  have "unat (drop_bit 4 b) = unat b div 16" unfolding unat_drop_bit_eq by (simp add: drop_bit_eq_div)
  moreover have "of_nat (unat (drop_bit 4 b)) = (drop_bit 4 b :: u8)" by simp
  ultimately have "(of_nat (unat b div 16) :: u8) = drop_bit 4 b" by simp
  moreover have "unat (take_bit 4 b) = unat b mod 16" unfolding unsigned_take_bit_eq by (simp add: take_bit_eq_mod)
  then have "(of_nat (unat b mod 16) :: u8) = take_bit 4 b" by (metis of_nat_unat ucast_id)
  moreover have "or (push_bit 4 (drop_bit 4 b)) (take_bit 4 b) = b"
    by (rule bit_eqI) (auto simp: bit_simps)
  ultimately show ?thesis by simp
qed

lemma nibbles_split:
  assumes "unat x < 16" "unat y < 16"
  shows "unat (or (push_bit 4 x) y :: u8) = 16 * unat x + unat y"
proof -
  have "unat (or (push_bit 4 x) y) = or (unat (push_bit 4 x)) (unat y)" by (simp add: unsigned_or_eq)
  also have "unat (push_bit 4 x) = push_bit 4 (unat x)"
    unfolding unsigned_push_bit_eq using assms by (simp add: push_bit_eq_mult take_bit_eq_mod)
  also have "or (push_bit 4 (unat x)) (unat y) = push_bit 4 (unat x) + unat y"
  proof (rule disjunctive_add [symmetric])
    fix n
    have "take_bit 4 (unat y) = unat y" using assms(2) by (simp add: take_bit_eq_mod)
    then have "bit (unat y) n \<Longrightarrow> n < 4" by (metis bit_take_bit_iff)
    then show "\<not> bit (push_bit 4 (unat x)) n \<or> \<not> bit (unat y) n" by (auto simp: bit_push_bit_iff)
  qed
  finally show ?thesis by (simp add: push_bit_eq_mult)
qed

lemma digest_bytes_display: "digest_bytes (concat (map hex_02 bs)) = bs"
  by (induction bs) (simp_all add: hex_02_def nibble_hex_digit nibbles_join unat_u8 less_mult_imp_div_less)

lemma digest_display_bytes:
  "list_all is_ascii_hexdigit h \<Longrightarrow> even (length h) \<Longrightarrow> concat (map hex_02 (digest_bytes h)) = map to_ascii_lowercase h"
  by (induction h rule: digest_bytes.induct) (auto simp: hex_02_def nibbles_split hex_digit_nibble)

lemma length_hex [simp]: "length (concat (map hex_02 bs)) = 2 * length bs"
  by (induction bs) (simp_all add: hex_02_def)

lemma length_digest_bytes: "length (digest_bytes h) = length h div 2"
  by (induction h rule: digest_bytes.induct) auto

lemma digest_parse_display: "length bs = 32 \<Longrightarrow> digest_parse (digest_display (Sha256Digest bs)) = Some (Sha256Digest bs)"
  by (auto simp: digest_parse_def digest_bytes_display list_all_iff hex_02_digits [unfolded list_all_iff])

text \<open>
  C36. A digest that is read has 32 bytes and writes back as the text in lower case; exactly the
  texts of 64 hexadecimal digits are read, and every 32 bytes are the digest of the text they
  write.\<close>

theorem digest_type:
  "(case digest_parse h of
      None \<Rightarrow> \<not> (length h = 64 \<and> list_all is_ascii_hexdigit h)
    | Some d \<Rightarrow> length h = 64 \<and> length (digest_value d) = 32 \<and> digest_display d = map to_ascii_lowercase h) \<and>
   digest_parse (digest_display (Sha256Digest bs)) = (if length bs = 32 then Some (Sha256Digest bs) else None)"
proof -
  have "digest_parse (digest_display (Sha256Digest bs)) = None" if "length bs \<noteq> 32"
    using that by (simp add: digest_parse_def)
  then show ?thesis
    using digest_parse_display [of bs] digest_display_bytes [of h]
    by (auto simp: digest_parse_def length_digest_bytes list_all_iff list_ex_iff)
qed

section \<open>Versions\<close>

definition version_text :: "nat list \<Rightarrow> bytes" where
  "version_text v = join_on 0x2E (map decimal v)"

definition is_release :: "nat list \<Rightarrow> bool" where
  "is_release v \<longleftrightarrow> length v = 3 \<and> list_all (\<lambda>n. n < 2 ^ 64) v"

lemma version_part_iff: "version_part p = Some n \<longleftrightarrow> p = decimal n \<and> n < 2 ^ 64"
proof
  assume a: "version_part p = Some n"
  then have c: "p \<noteq> []" "list_all is_digit p" "length p = 1 \<or> hd p \<noteq> 0x30"
    by (auto simp: version_part_def starts_with_def neq_Nil_conv split: if_splits)
  have "of_decimal p = n" "n < 2 ^ 64" using a by (auto simp: version_part_def parse_u64_def split: if_splits)
  then show "p = decimal n \<and> n < 2 ^ 64" using decimal_of_decimal [OF c(2,1,3)] by simp
next
  assume a: "p = decimal n \<and> n < 2 ^ 64"
  have "length (decimal 0) = 1" by (subst decimal.simps) simp
  moreover obtain c cs where "decimal n = c # cs" by (cases "decimal n") auto
  ultimately have "\<not> (length (decimal n) > 1 \<and> starts_with (decimal n) [0x30])"
    using hd_decimal [of n] by (cases "n = 0") (auto simp: starts_with_def)
  then show "version_part p = Some n" using a by (simp add: version_part_def parse_u64_def decimal_digits)
qed

lemma version_numbers_iff:
  "version_numbers n parts = Some (v, rest) \<longleftrightarrow>
     length v = n \<and> list_all (\<lambda>x. x < 2 ^ 64) v \<and> parts = map decimal v @ rest"
proof (induction n parts arbitrary: v rule: version_numbers.induct)
  case (2 n)
  then show ?case by auto
next
  case (3 n part parts)
  show ?case
  proof (cases v)
    case (Cons a v')
    show ?thesis
    proof (cases "version_part part")
      case None
      then have "\<not> (part = decimal a \<and> a < 2 ^ 64)" using version_part_iff [of part a] by simp
      then show ?thesis using None Cons by auto
    next
      case (Some b)
      then have "part = decimal b" "b < 2 ^ 64" using version_part_iff by blast+
      moreover have "decimal b = decimal a \<longleftrightarrow> b = a" by (metis of_decimal_decimal)
      ultimately show ?thesis using 3 Some Cons by auto
    qed
  qed (auto split: option.split)
qed auto

lemma dot_not_decimal: "0x2E \<notin> set (decimal n)"
  using decimal_digits [of n] by (auto simp: list_all_iff is_digit_def)

lemma split_version: "v \<noteq> [] \<Longrightarrow> split_on 0x2E (version_text v) = map decimal v"
  unfolding version_text_def by (rule split_join) (auto simp: dot_not_decimal)

lemma strip_v_iff: "hd t \<noteq> 0x76 \<Longrightarrow> strip_v s = t \<longleftrightarrow> s = t \<or> s = ascii ''v'' @ t"
  by (cases s) (auto simp: strip_v_def strip_prefix_def starts_with_def ascii_def)

lemma hd_version: "is_release v \<Longrightarrow> is_digit (hd (version_text v)) \<and> version_text v \<noteq> []"
proof -
  assume "is_release v"
  then obtain a b c where v: "v = [a, b, c]" by (auto simp: is_release_def length_Suc_conv numeral_3_eq_3)
  have "hd (decimal a) \<in> set (decimal a)" by simp
  then show ?thesis using decimal_digits [of a] by (auto simp: v version_text_def list_all_iff hd_append)
qed

lemma release_version_iff:
  "release_version s = Some v \<longleftrightarrow> is_release v \<and> (s = version_text v \<or> s = ascii ''v'' @ version_text v)"
proof -
  have "release_version s = Some v \<longleftrightarrow> version_numbers 3 (split_on 0x2E (strip_v s)) = Some (v, [])"
    by (auto simp: release_version_def split: option.splits prod.splits list.splits)
  also have "\<dots> \<longleftrightarrow> is_release v \<and> split_on 0x2E (strip_v s) = map decimal v"
    unfolding version_numbers_iff is_release_def by auto
  also have "\<dots> \<longleftrightarrow> is_release v \<and> strip_v s = version_text v"
  proof -
    have "v \<noteq> []" if "is_release v" using that by (auto simp: is_release_def)
    then have "is_release v \<Longrightarrow> map decimal v = split_on 0x2E (version_text v)" using split_version by simp
    then show ?thesis by (metis join_split)
  qed
  also have "\<dots> \<longleftrightarrow> is_release v \<and> (s = version_text v \<or> s = ascii ''v'' @ version_text v)"
  proof -
    have "hd (version_text v) \<noteq> 0x76" if "is_release v" using hd_version [OF that] by (auto simp: is_digit_def)
    then show ?thesis using strip_v_iff by blast
  qed
  finally show ?thesis .
qed

lemma version_bytes:
  assumes "is_release v" and "x \<in> set (version_text v)"
  shows "is_digit x \<or> x = 0x2E"
proof -
  obtain a b c where "v = [a, b, c]" using assms(1) by (auto simp: is_release_def length_Suc_conv numeral_3_eq_3)
  then have "x \<in> set (decimal a) \<union> set (decimal b) \<union> set (decimal c) \<or> x = 0x2E"
    using assms(2) by (auto simp: version_text_def)
  then show ?thesis using decimal_digits by (auto simp: list_all_iff)
qed

lemma no_hyphen: "is_release v \<Longrightarrow> 0x2D \<notin> set (version_text v)"
  using version_bytes [of v "0x2D"] by (auto simp: is_digit_def)

lemma installed_release: "is_release w \<Longrightarrow> installed_version (version_text w) = Some (w, False)"
proof -
  assume w: "is_release w"
  then have d: "dropWhile (\<lambda>x. x \<noteq> 0x2D) (version_text w) = []" using no_hyphen by auto
  have "split_once 0x2D (version_text w) = None" unfolding split_once_def d by simp
  moreover have "release_version (version_text w) = Some w" using w release_version_iff by simp
  ultimately show ?thesis by (simp add: installed_version_def)
qed

definition prerelease_ok :: "bytes \<Rightarrow> bool" where
  "prerelease_ok pre \<longleftrightarrow>
     list_all (\<lambda>part. part \<noteq> [] \<and> list_all (\<lambda>b. is_ascii_alphanumeric b \<or> b = 0x2D) part) (split_on 0x2E pre)"

lemma installed_prerelease:
  assumes "is_release w"
  shows "installed_version (version_text w @ 0x2D # pre) = (if prerelease_ok pre then Some (w, True) else None)"
proof -
  have "\<forall>x \<in> set (version_text w). x \<noteq> 0x2D" using no_hyphen [OF assms] by auto
  then have "split_once 0x2D (version_text w @ 0x2D # pre) = Some (version_text w, pre)"
    by (simp add: split_once_def)
  moreover have "release_version (version_text w) = Some w" using assms release_version_iff by simp
  ultimately show ?thesis by (simp add: installed_version_def prerelease_ok_def)
qed

text \<open>
  C30. A text is read as a release exactly when it is three numbers below \<open>2 ^ 64\<close> in decimal without
  leading zeros and with dots between, perhaps after a \<open>v\<close>; a release is offered to a running
  release exactly when its numbers are greater from the left, and to a prerelease exactly when they
  are not smaller; nothing is offered to a build whose prerelease part is malformed.\<close>

theorem version_offers:
  assumes "is_release v" and "is_release w"
  shows "(release_version s = Some u \<longleftrightarrow> is_release u \<and> (s = version_text u \<or> s = ascii ''v'' @ version_text u)) \<and>
     (version_newer (version_text v) (version_text w) \<longleftrightarrow> ord_class.lexordp w v) \<and>
     (version_newer (version_text v) (version_text w @ 0x2D # pre) \<longleftrightarrow>
        prerelease_ok pre \<and> (ord_class.lexordp w v \<or> w = v))"
proof -
  have "release_version (version_text v) = Some v" using assms release_version_iff by simp
  then show ?thesis
    using installed_release [OF assms(2)] installed_prerelease [OF assms(2)] release_version_iff [of s u]
    by (auto simp: version_newer_def)
qed

theorem version_offers_witness:
  "release_version (ascii ''v0.5.0'') = Some [0, 5, 0] \<and>
   version_newer (version_text [0, 5, 0]) (version_text [0, 4, 20]) \<and>
   version_newer (version_text [0, 5, 0]) (version_text [0, 5, 0] @ 0x2D # ascii ''rc1'') \<and>
   \<not> version_newer (version_text [0, 5, 0]) (version_text [0, 5, 0])"
proof -
  have r: "is_release [0, 5, 0]" "is_release [0, 4, 20]" by (simp_all add: is_release_def)
  have "ascii ''v0.5.0'' = ascii ''v'' @ version_text [0, 5, 0]" by code_simp
  moreover have "ord_class.lexordp [0, 4, 20 :: nat] [0, 5, 0]" "\<not> ord_class.lexordp [0, 5, 0 :: nat] [0, 5, 0]" by simp_all
  moreover have "prerelease_ok (ascii ''rc1'')" by code_simp
  ultimately show ?thesis
    using version_offers [OF r(1) r(2), of "ascii ''v0.5.0''" "[0, 5, 0]" "[]"]
      version_offers [OF r(1) r(1), of "[]" "[]" "ascii ''rc1''"] r by blast
qed

section \<open>The manifest\<close>

text \<open>What a row says, and which rows there are.\<close>

definition row_of :: "bytes \<Rightarrow> (Sha256Digest \<times> bytes) option" where
  "row_of line =
     (if length line < 67 \<or> line ! 64 \<noteq> 0x20 \<or> line ! 65 \<notin> {0x20, 0x2A} \<or> set (drop 66 line) \<inter> {0, 0x0D, 0x0A} \<noteq> {}
      then None
      else map_option (\<lambda>d. (d, drop 66 line)) (digest_parse (take 64 line)))"

definition manifest_lines :: "bytes list \<Rightarrow> bytes list" where
  "manifest_lines ls = filter (\<lambda>l. trim l \<noteq> []) ls"

lemma manifest_rows_step:
  "trim line \<noteq> [] \<Longrightarrow> manifest_rows wanted i found names (line # rest) =
     (case row_of line of
        None \<Rightarrow> Inl (InvalidChecksumManifest (i + 1))
      | Some (d, name) \<Rightarrow>
          if name \<in> set names then Inl (AmbiguousChecksum name)
          else manifest_rows wanted (Suc i) (if name = wanted then Some d else found) (name # names) rest)"
  by (auto simp: row_of_def Let_def split: option.split)

declare manifest_rows.simps(2) [simp del]

lemma find_absent: "m \<notin> snd ` set rows \<Longrightarrow> find (\<lambda>row. snd row = m) rows = None"
  by (auto simp: find_None_iff image_iff)

lemma manifest_rows_Inr:
  "manifest_rows wanted i found names ls = Inr r \<longleftrightarrow>
     (\<exists>rows. map row_of (manifest_lines ls) = map Some rows \<and> distinct (map snd rows) \<and>
        set names \<inter> snd ` set rows = {} \<and>
        r = (case find (\<lambda>row. snd row = wanted) rows of None \<Rightarrow> found | Some row \<Rightarrow> Some (fst row)))"
proof (induction ls arbitrary: i found names)
  case (Cons line rest)
  show ?case
  proof (cases "trim line = []")
    case True
    then show ?thesis using Cons by (simp add: manifest_rows.simps(2) manifest_lines_def)
  next
    case False
    have ex: "(\<exists>rows. row_of line # map row_of (manifest_lines rest) = map Some rows \<and> P rows) \<longleftrightarrow>
        (\<exists>d n rows. row_of line = Some (d, n) \<and> map row_of (manifest_lines rest) = map Some rows \<and> P ((d, n) # rows))" for P
      by (auto simp: Cons_eq_map_conv)
    show ?thesis
    proof (cases "row_of line")
      case (Some dn)
      obtain d n where dn: "dn = (d, n)" by (cases dn)
      show ?thesis
        using False Some dn ex by (auto simp: manifest_rows_step manifest_lines_def Cons.IH [unfolded manifest_lines_def] find_absent)
    qed (use False in \<open>auto simp: manifest_rows_step manifest_lines_def\<close>)
  qed
qed (auto simp: manifest_lines_def)

lemma manifest_Inr:
  "parse_sha256_manifest txt wanted = Inr d \<longleftrightarrow>
     length txt \<le> MAX_MANIFEST_BYTES \<and>
     (\<exists>rows. map row_of (manifest_lines (str_lines txt)) = map Some rows \<and> distinct (map snd rows) \<and>
        (d, wanted) \<in> set rows)"
proof -
  have g: "Some d = (case find (\<lambda>row. snd row = wanted) rows of None \<Rightarrow> None | Some row \<Rightarrow> Some (fst row)) \<longleftrightarrow>
      (d, wanted) \<in> set rows"
    if "distinct (map snd rows)" for rows :: "(Sha256Digest \<times> bytes) list"
    using that by (induction rows) (auto simp: image_iff)
  have "parse_sha256_manifest txt wanted = Inr d \<longleftrightarrow>
      length txt \<le> MAX_MANIFEST_BYTES \<and> manifest_rows wanted 0 None [] (str_lines txt) = Inr (Some d)"
    by (auto simp: parse_sha256_manifest_def split: sum.splits option.splits)
  then show ?thesis
    unfolding manifest_rows_Inr by (simp add: g cong: conj_cong)
qed

text \<open>
  C26. The manifest gives a digest for a name exactly when it is within its size, every line that is
  not blank is a row of 64 hexadecimal digits, a mode and a name, no name has two rows, and one of
  the rows has the digest for that name.\<close>

theorem manifest_accepts_iff:
  "parse_sha256_manifest txt wanted = Inr d \<longleftrightarrow>
     length txt \<le> MAX_MANIFEST_BYTES \<and>
     (\<exists>rows. map row_of (manifest_lines (str_lines txt)) = map Some rows \<and> distinct (map snd rows) \<and>
        (d, wanted) \<in> set rows)"
  by (rule manifest_Inr)

section \<open>What is offered\<close>

lemma unique_asset_Some:
  "unique_asset assets name = Inr (Some a) \<longleftrightarrow> filter (\<lambda>a. asset_name a = name) assets = [a]"
  by (auto simp: unique_asset_def split: list.splits)

lemma find_sha256_Inr:
  "find_sha256 assets name fetch = Inr d \<longleftrightarrow>
     (\<exists>sums txt. filter (\<lambda>a. asset_name a = CHECKSUM_MANIFEST) assets = [sums] \<and> asset_size sums \<le> MAX_MANIFEST_BYTES \<and>
        fetch (download_url sums) = Inr txt \<and> parse_sha256_manifest txt name = Inr d)"
  by (auto simp: find_sha256_def split: list.splits sum.splits)

lemma latest_release_version:
  assumes "latest_release from_json U = Inr release"
  shows "\<exists>v. is_release v \<and> (rel_version release = version_text v \<or> rel_version release = ascii ''v'' @ version_text v)"
proof -
  have "release_version (rel_version release) \<noteq> None"
    using assms by (auto simp: latest_release_def Let_def split: option.splits sum.splits if_splits)
  then show ?thesis using release_version_iff by blast
qed

lemma version_no_slash:
  "is_release v \<Longrightarrow> s = version_text v \<or> s = ascii ''v'' @ version_text v \<Longrightarrow> 0x2F \<notin> set s"
  using version_bytes [of v "0x2F"] by (auto simp: is_digit_def ascii_def)

lemma target_suffix_plain:
  assumes "target_suffix_for c os arch triple ai deb = Some (prefix, suffix)"
  shows "0x2F \<notin> set prefix \<union> set suffix"
  using assms
  by (auto simp: target_suffix_for_def assoc_suffix_def ascii_def Let_def split: Component.splits if_splits)

lemma check_detailed_Update:
  assumes "check_detailed from_json ts U current = Inr (Update info)"
  shows "\<exists>release T prefix suffix. latest_release from_json U = Inr release \<and> client U = Some T \<and>
     upd_version info = rel_version release \<and> version_newer (rel_version release) current \<and>
     ts (component U) = Some (prefix, suffix) \<and> asset_name (upd_asset info) = prefix @ rel_version release @ suffix \<and>
     filter (\<lambda>a. asset_name a = asset_name (upd_asset info)) (rel_assets release) = [upd_asset info] \<and>
     find_sha256 (rel_assets release) (asset_name (upd_asset info)) (\<lambda>url. transport_text T url None MAX_MANIFEST_BYTES)
       = Inr (upd_sha256 info)"
proof -
  have n: "filter (\<lambda>a. asset_name a = n) as = [a] \<Longrightarrow> asset_name a = n" for n as a
    by (drule arg_cong [where f = set]) auto
  show ?thesis
    using assms
    by (auto simp: check_detailed_def asset_sha256_def is_configured_def Let_def unique_asset_Some
        split: sum.splits option.splits if_splits prod.splits dest: n) (frule n, simp)
qed

end
