(* ===== verification/Update_Install_Props.thy ===== *)
theory Update_Install_Props
  imports Update_Props
begin

text \<open>
  Nothing unverified reaches the disk, and nothing half done: saving a download, replacing an
  executable, and staging on Windows. The locale \<open>replacement\<close> is what the steps that put a file in
  place share, with what follows for any number of attempts; it is interpreted on each of them.
\<close>

section \<open>The contents of a body\<close>

text \<open>What the chunks of a body are together; an error of the connection takes them all away.\<close>

fun body_data :: "frame list \<Rightarrow> HttpError + bytes" where
  "body_data [] = Inr []"
| "body_data (FrameError e # rest) = Inl (Http e)"
| "body_data (Data d # rest) = (case body_data rest of Inl e \<Rightarrow> Inl e | Inr r \<Rightarrow> Inr (d @ r))"
| "body_data (Trailers # rest) = body_data rest"

lemma body_data_step:
  "body_data fs =
     (case body_chunk fs of
        Inl e \<Rightarrow> Inl e
      | Inr (None, _) \<Rightarrow> Inr []
      | Inr (Some c, rest) \<Rightarrow> (case body_data rest of Inl e \<Rightarrow> Inl e | Inr r \<Rightarrow> Inr (c @ r)))"
  by (induction fs rule: body_data.induct) auto

section \<open>Saving\<close>

definition saved_part :: "bytes \<Rightarrow> saving \<Rightarrow> saving \<Rightarrow> bool" where
  "saved_part tmp s s' \<longleftrightarrow>
     (\<forall>p. p \<noteq> tmp \<longrightarrow> sv_files s' p = sv_files s p) \<and>
     (\<exists>new. sv_seen s' = sv_seen s @ new \<and> (\<forall>f \<in> set new. \<forall>p. p \<noteq> tmp \<longrightarrow> f p = sv_files s p))"

lemma saved_part_refl [simp]: "saved_part tmp s s"
  by (simp add: saved_part_def)

lemma saved_part_trans: "saved_part tmp s s' \<Longrightarrow> saved_part tmp s' s'' \<Longrightarrow> saved_part tmp s s''"
  unfolding saved_part_def by (metis (no_types, lifting) Un_iff append.assoc set_append)

lemma saved_part_append: "saved_part tmp s (append_file tmp d s)"
  by (auto simp: saved_part_def append_file_def set_files_def)

lemma saved_part_progress: "saved_part tmp s s' \<Longrightarrow> saved_part tmp s (s'\<lparr>sv_progress := p\<rparr>)"
  by (simp add: saved_part_def)

definition next_saving :: "bytes \<Rightarrow> nat \<Rightarrow> nat \<Rightarrow> bytes \<Rightarrow> saving \<Rightarrow> saving" where
  "next_saving tmp sz got c s =
     (append_file tmp c s)\<lparr>sv_progress := sv_progress (append_file tmp c s) @ [(got + length c, sz)]\<rparr>"

text \<open>One turn of the loop; \<open>save_chunks\<close> is proved about by it.\<close>

lemma save_chunks_cases:
  assumes "save_chunks stops tmp sz i got hashed fs s = (s', r)"
  obtains (failed) e where "body_chunk fs = Inl e" "s' = s" "r = Inl (I2pHttp e)"
    | (ended) rest where "body_chunk fs = Inr (None, rest)" "s' = s" "r = Inr (got, hashed)"
    | (large) c rest e where "body_chunk fs = Inr (Some c, rest)" "s' = s" "r = Inl e"
        "got + length c > MAX_ARTIFACT_BYTES \<or> got + length c > sz"
    | (stopped) c rest k where "body_chunk fs = Inr (Some c, rest)" "stops i = Some k"
        "s' = append_file tmp (take k c) s" "r = Inl IoError"
    | (more) c rest where "body_chunk fs = Inr (Some c, rest)" "got + length c \<le> sz" "got + length c \<le> MAX_ARTIFACT_BYTES"
        "stops i = None"
        "save_chunks stops tmp sz (Suc i) (got + length c) (hashed @ c) rest (next_saving tmp sz got c s) = (s', r)"
  using assms unfolding save_chunks.simps [of stops tmp sz i got hashed fs s] next_saving_def
  by (auto simp: Let_def not_less split: sum.splits prod.splits option.splits if_splits)

lemma save_chunks_part:
  "save_chunks stops tmp sz i got hashed fs s = (s', r) \<Longrightarrow> saved_part tmp s s'"
proof (induction "length fs" arbitrary: i got hashed fs s rule: less_induct)
  case less
  from less.prems show ?case
  proof (cases rule: save_chunks_cases)
    case (more c rest)
    have "saved_part tmp s (next_saving tmp sz got c s)"
      unfolding next_saving_def by (rule saved_part_progress [OF saved_part_append])
    then show ?thesis using less.hyps [OF body_chunk_shorter [OF more(1)] more(5)] by (rule saved_part_trans)
  qed (simp_all add: saved_part_append)
qed

lemma next_saving_tmp: "sv_files s tmp = Some h \<Longrightarrow> sv_files (next_saving tmp sz got c s) tmp = Some (h @ c)"
  by (simp add: next_saving_def append_file_def set_files_def)

lemma save_chunks_sound:
  assumes "save_chunks stops tmp sz i got hashed fs s = (s', Inr (t, h))"
    and "sv_files s tmp = Some hashed" and "got = length hashed" and "got \<le> sz" and "got \<le> MAX_ARTIFACT_BYTES"
  shows "\<exists>d. body_data fs = Inr d \<and> h = hashed @ d \<and> t = length h \<and> t \<le> sz \<and> t \<le> MAX_ARTIFACT_BYTES \<and> sv_files s' tmp = Some h"
  using assms
proof (induction "length fs" arbitrary: i got hashed fs s rule: less_induct)
  case less
  from less.prems(1) show ?case
  proof (cases rule: save_chunks_cases)
    case (ended rest)
    then show ?thesis using less.prems by (simp add: body_data_step [of fs])
  next
    case (more c rest)
    then show ?thesis
      using less.hyps [OF body_chunk_shorter [OF more(1)] more(5) next_saving_tmp [OF less.prems(2)]] less.prems
      by (auto simp: body_data_step [of fs])
  qed auto
qed

lemma save_chunks_complete:
  assumes "body_data fs = Inr d" and "got + length d \<le> sz" and "sz \<le> MAX_ARTIFACT_BYTES" and "\<forall>i. stops i = None"
  shows "snd (save_chunks stops tmp sz i got hashed fs s) = Inr (got + length d, hashed @ d)"
  using assms
proof (induction "length fs" arbitrary: i got hashed fs s d rule: less_induct)
  case less
  obtain s' r where e: "save_chunks stops tmp sz i got hashed fs s = (s', r)" by fastforce
  then show ?case
  proof (cases rule: save_chunks_cases)
    case (more c rest)
    obtain d' where "body_data rest = Inr d'" "d = c @ d'"
      using less.prems(1) more(1) by (auto simp: body_data_step [of fs] split: sum.splits)
    then show ?thesis
      using less.hyps [OF body_chunk_shorter [OF more(1)], of d' "got + length c" "Suc i" "hashed @ c" "next_saving tmp sz got c s"]
        less.prems more(5) e by simp
  qed (use e less.prems in \<open>auto simp: body_data_step [of fs] split: sum.splits\<close>)
qed

lemma save_verified_seen:
  assumes "sv_files s tmp = None" and "tmp \<noteq> dest"
    and "save_verified_asset C io stops tmp body asset expected dest s = (s', r)"
  shows "\<exists>new. sv_seen s' = sv_seen s @ new \<and>
     (\<forall>f \<in> set new. (\<forall>p. p \<noteq> tmp \<and> p \<noteq> dest \<longrightarrow> f p = sv_files s p) \<and> (f dest = sv_files s dest \<or> r = Inr () \<and> f = sv_files s'))"
proof -
  let ?s1 = "set_files ((sv_files s)(tmp \<mapsto> [])) s"
  obtain s2 r2 where c: "save_chunks stops tmp (asset_size asset) 0 0 [] body ?s1 = (s2, r2)" by fastforce
  obtain new where n: "sv_seen s2 = sv_seen ?s1 @ new" "\<forall>f \<in> set new. \<forall>p. p \<noteq> tmp \<longrightarrow> f p = sv_files ?s1 p"
      "\<forall>p. p \<noteq> tmp \<longrightarrow> sv_files s2 p = sv_files ?s1 p"
    using save_chunks_part [OF c] by (auto simp: saved_part_def)
  have "sv_seen s' = sv_seen s \<or> sv_seen s' = sv_seen s @ ((sv_files s)(tmp \<mapsto> [])) # new @ [sv_files s']"
    using assms(3) c n(1)
    by (auto simp: save_verified_asset_def set_files_def drop_temp_def split: if_splits sum.splits prod.splits)
  moreover have "\<forall>p. p \<noteq> tmp \<and> p \<noteq> dest \<longrightarrow> sv_files s' p = sv_files s p"
    using assms(3) c n(3)
    by (auto simp: save_verified_asset_def set_files_def drop_temp_def split: if_splits sum.splits prod.splits)
  moreover have "sv_files s' dest = sv_files s dest \<or> r = Inr ()" by (cases r) (use assms(2,3) c n(3) in
    \<open>auto simp: save_verified_asset_def set_files_def drop_temp_def split: if_splits sum.splits prod.splits\<close>)
  ultimately show ?thesis using n(2) assms(2) by (auto simp: set_files_def)
qed

lemma save_verified_failed:
  assumes "sv_files s tmp = None"
    and "save_verified_asset C io stops tmp body asset expected dest s = (s', Inl e)"
  shows "sv_files s' = sv_files s"
proof -
  let ?s1 = "set_files ((sv_files s)(tmp \<mapsto> [])) s"
  obtain s2 r2 where c: "save_chunks stops tmp (asset_size asset) 0 0 [] body ?s1 = (s2, r2)" by fastforce
  have "(sv_files s2)(tmp := None) = sv_files s"
    using save_chunks_part [OF c] assms(1) by (auto simp: saved_part_def set_files_def)
  then show ?thesis
    using assms(2) c
    by (auto simp: save_verified_asset_def set_files_def drop_temp_def split: if_splits sum.splits prod.splits)
qed

lemma save_verified_ok:
  assumes "sv_files s tmp = None" and "tmp \<noteq> dest"
    and "save_verified_asset C io stops tmp body asset expected dest s = (s', Inr ())"
  shows "\<exists>data. body_data body = Inr data \<and> length data = asset_size asset \<and> length data \<le> MAX_ARTIFACT_BYTES \<and>
     Sha256 C data = digest_value expected \<and> sv_files s' = (sv_files s)(dest \<mapsto> data)"
proof -
  let ?s1 = "set_files ((sv_files s)(tmp \<mapsto> [])) s"
  obtain s2 r2 where c: "save_chunks stops tmp (asset_size asset) 0 0 [] body ?s1 = (s2, r2)" by fastforce
  then obtain h where r: "r2 = Inr (asset_size asset, h)" "Sha256 C h = digest_value expected"
      "s' = set_files ((sv_files s2)(tmp := None, dest := sv_files s2 tmp)) s2"
    using assms(3) by (auto simp: save_verified_asset_def split: if_splits sum.splits prod.splits)
  then obtain d where "body_data body = Inr d" "h = d" "asset_size asset = length h" "asset_size asset \<le> MAX_ARTIFACT_BYTES"
      "sv_files s2 tmp = Some h"
    using save_chunks_sound [of stops tmp "asset_size asset" 0 0 "[]" body ?s1 s2] c by (auto simp: set_files_def)
  moreover have "(sv_files s2)(tmp := None) = sv_files s"
    using save_chunks_part [OF c] assms(1) by (auto simp: saved_part_def set_files_def)
  ultimately show ?thesis using r assms(2) by (simp add: set_files_def)
qed

lemma save_verified_complete:
  assumes "body_data body = Inr data" and "length data = asset_size asset" and "length data \<le> MAX_ARTIFACT_BYTES"
    and "Sha256 C data = digest_value expected" and "\<forall>i. stops i = None" and "\<forall>p. io p"
  shows "snd (save_verified_asset C io stops tmp body asset expected dest s) = Inr ()"
  using save_chunks_complete [OF assms(1), of 0 "asset_size asset" stops tmp 0 "[]" "set_files ((sv_files s)(tmp \<mapsto> [])) s"] assms
  by (auto simp: save_verified_asset_def split: prod.splits)

text \<open>
  C15. A download is saved all or not at all: on any error every file is as it was; on success the
  destination holds the whole body, with the size of the release and the expected digest, and
  nothing else changed; in every state on the way the destination is the old file or that one. When
  the disk and the connection work and the body is the right one, it is saved.\<close>

theorem saved_only_verified:
  assumes "sv_files s tmp = None" and "tmp \<noteq> dest"
    and "save_verified_asset C io stops tmp body asset expected dest s = (s', r)"
  shows "(case r of
       Inl e \<Rightarrow> sv_files s' = sv_files s
     | Inr _ \<Rightarrow> \<exists>data. body_data body = Inr data \<and> length data = asset_size asset \<and> length data \<le> MAX_ARTIFACT_BYTES \<and>
         Sha256 C data = digest_value expected \<and> sv_files s' = (sv_files s)(dest \<mapsto> data)) \<and>
     (\<exists>new. sv_seen s' = sv_seen s @ new \<and>
       (\<forall>f \<in> set new. (\<forall>p. p \<noteq> tmp \<and> p \<noteq> dest \<longrightarrow> f p = sv_files s p) \<and> (f dest = sv_files s dest \<or> r = Inr () \<and> f = sv_files s'))) \<and>
     ((\<exists>data. body_data body = Inr data \<and> length data = asset_size asset \<and> length data \<le> MAX_ARTIFACT_BYTES \<and>
         Sha256 C data = digest_value expected) \<and> (\<forall>i. stops i = None) \<and> (\<forall>p. io p) \<longrightarrow> r = Inr ())"
proof (intro conjI)
  show "case r of
       Inl e \<Rightarrow> sv_files s' = sv_files s
     | Inr _ \<Rightarrow> \<exists>data. body_data body = Inr data \<and> length data = asset_size asset \<and> length data \<le> MAX_ARTIFACT_BYTES \<and>
         Sha256 C data = digest_value expected \<and> sv_files s' = (sv_files s)(dest \<mapsto> data)"
    using save_verified_failed [OF assms(1)] save_verified_ok [OF assms(1,2)] assms(3) by (cases r) auto
next
  show "(\<exists>data. body_data body = Inr data \<and> length data = asset_size asset \<and> length data \<le> MAX_ARTIFACT_BYTES \<and>
      Sha256 C data = digest_value expected) \<and> (\<forall>i. stops i = None) \<and> (\<forall>p. io p) \<longrightarrow> r = Inr ()"
    using save_verified_complete [where s = s and tmp = tmp and dest = dest] assms(3) by (metis snd_conv)
qed (rule save_verified_seen [OF assms])

theorem saved_only_verified_witness:
  "\<exists>data s' r. data = ascii ''new'' \<and>
     save_verified_asset toy_crypto (\<lambda>_. True) (\<lambda>_. None) (ascii ''t'') [Data (ascii ''n''), Trailers, Data (ascii ''ew'')]
       \<lparr>asset_name = ascii ''a'', download_url = [], asset_size = 3\<rparr> (Sha256Digest (Sha256 toy_crypto data)) (ascii ''a'')
       \<lparr>sv_files = [ascii ''a'' \<mapsto> ascii ''old''], sv_seen = [], sv_progress = []\<rparr> = (s', r) \<and>
     r = Inr () \<and> sv_files s' = [ascii ''a'' \<mapsto> data]"
proof -
  let ?data = "ascii ''new''"
  let ?s = "\<lparr>sv_files = [ascii ''a'' \<mapsto> ascii ''old''], sv_seen = [], sv_progress = []\<rparr>"
  let ?b = "[Data (ascii ''n''), Trailers, Data (ascii ''ew'')]"
  let ?a = "\<lparr>asset_name = ascii ''a'', download_url = [], asset_size = 3\<rparr>"
  obtain s' r where e: "save_verified_asset toy_crypto (\<lambda>_. True) (\<lambda>_. None) (ascii ''t'') ?b ?a
      (Sha256Digest (Sha256 toy_crypto ?data)) (ascii ''a'') ?s = (s', r)" by fastforce
  have b: "body_data ?b = Inr ?data" by (simp add: ascii_def)
  have h: "sv_files ?s (ascii ''t'') = None" "ascii ''t'' \<noteq> ascii ''a''" by (simp_all add: ascii_def)
  have l: "length ?data = 3" "length ?data \<le> MAX_ARTIFACT_BYTES" by (simp_all add: ascii_def MAX_ARTIFACT_BYTES_def)
  note t = saved_only_verified [OF h e]
  have d: "Sha256 toy_crypto ?data = digest_value (Sha256Digest (Sha256 toy_crypto ?data))" by simp
  have r: "r = Inr ()" by (rule mp [OF conjunct2 [OF conjunct2 [OF t]]]) (use b l d in simp)
  have "sv_files s' = (sv_files ?s)(ascii ''a'' \<mapsto> ?data)" using conjunct1 [OF t] b unfolding r by simp
  then show ?thesis using e r by simp
qed

section \<open>The agent's archive\<close>

text \<open>The entries under the executable's name, and what the archive has to be.\<close>

definition plain_path :: "bytes \<Rightarrow> bool" where
  "plain_path path \<longleftrightarrow> list_all (\<lambda>c. case c of Normal _ \<Rightarrow> True | _ \<Rightarrow> False) (path_components path)"

definition named_entries :: "bytes \<Rightarrow> tar_entry list \<Rightarrow> tar_entry list" where
  "named_entries executable es = filter (\<lambda>e. Option.bind (te_path e) path_file_name = Some executable) es"

definition entries_ok :: "nat \<Rightarrow> nat \<Rightarrow> tar_entry list \<Rightarrow> bool" where
  "entries_ok count got es \<longleftrightarrow>
     count + length es \<le> 128 \<and> got + sum_list (map te_size es) \<le> MAX_ARTIFACT_BYTES \<and>
     list_all (\<lambda>e. case te_path e of None \<Rightarrow> False | Some p \<Rightarrow> plain_path p) es"

definition regular_entry :: "tar_entry \<Rightarrow> bytes \<Rightarrow> bool" where
  "regular_entry e data \<longleftrightarrow> te_is_file e \<and> te_size e \<noteq> 0 \<and> te_data e = Some data \<and> length data \<le> MAX_ARTIFACT_BYTES"

lemma plain_path_alt:
  "list_ex (\<lambda>c. case c of Normal _ \<Rightarrow> False | _ \<Rightarrow> True) (path_components path) \<longleftrightarrow> \<not> plain_path path"
  by (auto simp: plain_path_def list_ex_iff list_all_iff split: path_component.splits)

lemma extract_loop_step:
  assumes "got \<le> MAX_ARTIFACT_BYTES"
  shows "extract_loop executable count got found acc (e # rest) = Inr r \<longleftrightarrow>
     (\<exists>entry path. e = Some entry \<and> count < 128 \<and> got + te_size entry \<le> MAX_ARTIFACT_BYTES \<and>
        te_path entry = Some path \<and> plain_path path \<and>
        (if path_file_name path = Some executable
         then \<not> found \<and> (\<exists>data. regular_entry entry data \<and>
                extract_loop executable (Suc count) (got + te_size entry) True (acc @ data) rest = Inr r)
         else extract_loop executable (Suc count) (got + te_size entry) found acc rest = Inr r))"
proof -
  have "\<not> MAX_ARTIFACT_BYTES < n \<Longrightarrow> \<not> 18446744073709551616 \<le> n" for n
    by (simp add: MAX_ARTIFACT_BYTES_def)
  moreover have "length (take (MAX_ARTIFACT_BYTES + 1) d) > MAX_ARTIFACT_BYTES \<longleftrightarrow> length d > MAX_ARTIFACT_BYTES" for d :: bytes
    by auto
  ultimately show ?thesis
    by (auto simp: Let_def plain_path_alt regular_entry_def split: option.splits if_splits)
qed

declare extract_loop.simps(2) [simp del]

definition loop_result :: "bytes \<Rightarrow> bool \<Rightarrow> bytes \<Rightarrow> tar_entry list \<Rightarrow> bool \<Rightarrow> bytes \<Rightarrow> bool" where
  "loop_result executable found acc es f out \<longleftrightarrow>
     (if found then named_entries executable es = [] \<and> f \<and> out = acc
      else named_entries executable es = [] \<and> \<not> f \<and> out = acc \<or>
        (\<exists>e data. named_entries executable es = [e] \<and> regular_entry e data \<and> f \<and> out = acc @ data))"

lemma loop_result_Cons:
  assumes "te_path entry = Some path"
  shows "loop_result executable found acc (entry # es) f out \<longleftrightarrow>
     (if path_file_name path = Some executable
      then \<not> found \<and> (\<exists>data. regular_entry entry data \<and> loop_result executable True (acc @ data) es f out)
      else loop_result executable found acc es f out)"
  using assms by (auto simp: loop_result_def named_entries_def)

lemma extract_loop_Inr:
  assumes "got \<le> MAX_ARTIFACT_BYTES" and "count \<le> 128"
  shows "extract_loop executable count got found acc ls = Inr (f, out) \<longleftrightarrow>
     (\<exists>es. ls = map Some es \<and> entries_ok count got es \<and> loop_result executable found acc es f out)"
  using assms
proof (induction ls arbitrary: count got found acc)
  case (Cons l rest)
  show ?case
  proof (cases "\<exists>entry path. l = Some entry \<and> count < 128 \<and> got + te_size entry \<le> MAX_ARTIFACT_BYTES \<and> te_path entry = Some path \<and> plain_path path")
    case False
    then have "\<not> (\<exists>es. l # rest = map Some es \<and> entries_ok count got es \<and> Q es)" for Q
      by (auto simp: Cons_eq_map_conv entries_ok_def split: option.splits)
    moreover have "extract_loop executable count got found acc (l # rest) \<noteq> Inr (f, out)"
      unfolding extract_loop_step [OF Cons.prems(1)] using False by blast
    ultimately show ?thesis by (simp only:)
  next
    case True
    then obtain entry path where e: "l = Some entry" "count < 128" "got + te_size entry \<le> MAX_ARTIFACT_BYTES"
        "te_path entry = Some path" "plain_path path" by blast
    have ok: "entries_ok count got (entry # es) \<longleftrightarrow> entries_ok (Suc count) (got + te_size entry) es" for es
      using e by (auto simp: entries_ok_def add.assoc)
    have ex: "(\<exists>es. l # rest = map Some es \<and> Q es) \<longleftrightarrow> (\<exists>es. rest = map Some es \<and> Q (entry # es))" for Q
      using e(1) by (auto simp: Cons_eq_map_conv)
    have st: "extract_loop executable count got found acc (l # rest) = Inr (f, out) \<longleftrightarrow>
      (if path_file_name path = Some executable
       then \<not> found \<and> (\<exists>data. regular_entry entry data \<and>
              extract_loop executable (Suc count) (got + te_size entry) True (acc @ data) rest = Inr (f, out))
       else extract_loop executable (Suc count) (got + te_size entry) found acc rest = Inr (f, out))"
      unfolding extract_loop_step [OF Cons.prems(1)] using e by auto
    have c: "Suc count \<le> 128" using e by simp
    show ?thesis unfolding st ex ok loop_result_Cons [OF e(4)] Cons.IH [OF e(3) c] by auto
  qed
qed (auto simp: entries_ok_def loop_result_def named_entries_def)

lemma extract_accepts_iff:
  "extract_agent_binary archive executable = Inr out \<longleftrightarrow>
     (\<exists>es e. archive = Some (map Some es) \<and> entries_ok 0 0 es \<and> named_entries executable es = [e] \<and> regular_entry e out)"
proof -
  have "extract_agent_binary archive executable = Inr out \<longleftrightarrow>
      (\<exists>ls. archive = Some ls \<and> extract_loop executable 0 0 False [] ls = Inr (True, out))"
    by (auto simp: extract_agent_binary_def split: option.splits sum.splits if_splits)
  then show ?thesis by (auto simp: extract_loop_Inr loop_result_def)
qed

section \<open>Putting a file in place\<close>

text \<open>
  \<open>run i\<close> is an attempt with what it found of the world in \<open>i\<close>; \<open>usable\<close> says that these match the
  directory, whatever is at the destination, and \<open>good\<close> which contents it may put there.
\<close>

locale replacement =
  fixes run :: "'i \<Rightarrow> files \<Rightarrow> files \<times> (UpdateError + unit)"
    and dest :: bytes
    and usable :: "'i \<Rightarrow> files \<Rightarrow> bool"
    and good :: "'i \<Rightarrow> bytes \<Rightarrow> bool"
  assumes usable_any: "usable i (fs(dest \<mapsto> d)) \<longleftrightarrow> usable i fs"
    and failed: "usable i fs \<Longrightarrow> run i fs = (fs', Inl e) \<Longrightarrow> fs' = fs"
    and placed: "usable i fs \<Longrightarrow> run i fs = (fs', Inr u) \<Longrightarrow> \<exists>data. good i data \<and> fs' = fs(dest \<mapsto> data)"
begin

lemma attempt:
  assumes "usable i fs"
  shows "fst (run i fs) = fs \<or> (\<exists>data. good i data \<and> fst (run i fs) = fs(dest \<mapsto> data))"
  using failed [OF assms] placed [OF assms] by (cases "run i fs"; cases "snd (run i fs)") auto

lemma attempts:
  assumes "list_all (\<lambda>i. usable i fs) is"
  shows "fold (\<lambda>i fs. fst (run i fs)) is fs = fs \<or>
     (\<exists>i \<in> set is. \<exists>data. good i data \<and> fold (\<lambda>i fs. fst (run i fs)) is fs = fs(dest \<mapsto> data))"
  using assms
proof (induction "is" arbitrary: fs)
  case (Cons i "is")
  have u: "usable i fs" "list_all (\<lambda>i. usable i fs) is" using Cons.prems by simp_all
  consider "fst (run i fs) = fs" | data where "good i data" "fst (run i fs) = fs(dest \<mapsto> data)"
    using attempt [OF u(1)] by blast
  then show ?case
  proof cases
    case 2
    have l: "list_all (\<lambda>i. usable i (fs(dest \<mapsto> data))) is" using u(2) by (simp add: usable_any)
    show ?thesis using Cons.IH [OF l] 2(1) unfolding fold_Cons comp_apply 2(2) fun_upd_upd list.set by blast
  qed (use Cons.IH u in auto)
qed simp

end

definition save_run ::
  "crypto \<Rightarrow> bytes \<Rightarrow> disk_ok \<times> (nat \<Rightarrow> nat option) \<times> bytes \<times> frame list \<times> ReleaseAsset \<times> Sha256Digest \<Rightarrow> files
   \<Rightarrow> files \<times> (UpdateError + unit)" where
  "save_run C dest =
     (\<lambda>(io, stops, tmp, body, asset, expected) fs.
        case save_verified_asset C io stops tmp body asset expected dest \<lparr>sv_files = fs, sv_seen = [], sv_progress = []\<rparr> of
          (s, r) \<Rightarrow> (sv_files s, r))"

definition save_usable ::
  "bytes \<Rightarrow> disk_ok \<times> (nat \<Rightarrow> nat option) \<times> bytes \<times> frame list \<times> ReleaseAsset \<times> Sha256Digest \<Rightarrow> files \<Rightarrow> bool" where
  "save_usable dest = (\<lambda>(io, stops, tmp, body, asset, expected) fs. fs tmp = None \<and> tmp \<noteq> dest)"

definition save_good ::
  "crypto \<Rightarrow> disk_ok \<times> (nat \<Rightarrow> nat option) \<times> bytes \<times> frame list \<times> ReleaseAsset \<times> Sha256Digest \<Rightarrow> bytes \<Rightarrow> bool" where
  "save_good C =
     (\<lambda>(io, stops, tmp, body, asset, expected) data. length data = asset_size asset \<and> Sha256 C data = digest_value expected)"

interpretation saving: replacement "save_run C dest" dest "save_usable dest" "save_good C" for C dest
proof (unfold_locales, goal_cases)
  case (2 i fs fs' e)
  obtain io stops tmp body asset expected where i: "i = (io, stops, tmp, body, asset, expected)" by (cases i) auto
  obtain s where s: "save_verified_asset C io stops tmp body asset expected dest \<lparr>sv_files = fs, sv_seen = [], sv_progress = []\<rparr> = (s, Inl e)"
      "fs' = sv_files s" using 2(2) by (auto simp: save_run_def i split: prod.splits)
  then show ?case using save_verified_failed [OF _ s(1)] 2(1) by (simp add: i save_usable_def)
next
  case (3 i fs fs' u)
  obtain io stops tmp body asset expected where i: "i = (io, stops, tmp, body, asset, expected)" by (cases i) auto
  obtain s where s: "save_verified_asset C io stops tmp body asset expected dest \<lparr>sv_files = fs, sv_seen = [], sv_progress = []\<rparr> = (s, Inr ())"
      "fs' = sv_files s" using 3(2) by (auto simp: save_run_def i split: prod.splits)
  then show ?case using save_verified_ok [OF _ _ s(1)] 3(1) by (auto simp: i save_usable_def save_good_def)
qed (auto simp: save_usable_def)

text \<open>An attempt to copy a file over the executable, and to take it out of an archive.\<close>

record copy_attempt =
  ca_io :: disk_ok
  ca_source :: bytes
  ca_data :: bytes

record agent_attempt =
  aa_io :: disk_ok
  aa_archive :: bytes
  aa_entries :: "tar_entry option list"

interpretation executable: replacement
  "\<lambda>i. atomic_executable_copy (ca_io i) (ca_source i) current" current
  "\<lambda>i fs. fs (ca_source i) = Some (ca_data i) \<and> ca_source i \<noteq> current" "\<lambda>i d. d = ca_data i"
  for current
  by unfold_locales (auto simp: atomic_executable_copy_def split: if_splits option.splits)

interpretation agent: replacement
  "\<lambda>i. install_agent_binary_now untar (aa_io i) (aa_archive i) current" current
  "\<lambda>i fs. Option.bind (fs (aa_archive i)) untar = Some (aa_entries i) \<and> aa_archive i \<noteq> current"
  "\<lambda>i d. extract_agent_binary (Some (aa_entries i)) (ascii ''gipny-agent'') = Inr d"
  for untar current
  by unfold_locales
    (auto simp: install_agent_binary_now_def extract_agent_binary_def [of None] split: if_splits sum.splits)

text \<open>
  However often the program is replaced and wherever each attempt fails, the executable is the
  one there was or, whole, the one of an attempt: the downloaded file for the application, and for
  the agent the one regular file of that name in an archive with nothing but plain paths; no other
  file changes.\<close>

theorem executables_whole:
  assumes "list_all (\<lambda>i. fs (ca_source i) = Some (ca_data i) \<and> ca_source i \<noteq> current) copies"
    and "list_all (\<lambda>i. Option.bind (fs (aa_archive i)) untar = Some (aa_entries i) \<and> aa_archive i \<noteq> current) archives"
  shows "(fold (\<lambda>i fs. fst (atomic_executable_copy (ca_io i) (ca_source i) current fs)) copies fs = fs \<or>
       (\<exists>i \<in> set copies.
          fold (\<lambda>i fs. fst (atomic_executable_copy (ca_io i) (ca_source i) current fs)) copies fs = fs(current \<mapsto> ca_data i))) \<and>
     (fold (\<lambda>i fs. fst (install_agent_binary_now untar (aa_io i) (aa_archive i) current fs)) archives fs = fs \<or>
       (\<exists>i \<in> set archives. \<exists>es e data. aa_entries i = map Some es \<and> entries_ok 0 0 es \<and>
          named_entries (ascii ''gipny-agent'') es = [e] \<and> regular_entry e data \<and>
          fold (\<lambda>i fs. fst (install_agent_binary_now untar (aa_io i) (aa_archive i) current fs)) archives fs = fs(current \<mapsto> data)))"
  using executable.attempts [OF assms(1)] agent.attempts [OF assms(2)] by (fastforce simp: extract_accepts_iff)

theorem executables_whole_witness:
  "let fs = [ascii ''/tmp/new'' \<mapsto> ascii ''new'', ascii ''/opt/app'' \<mapsto> ascii ''old''];
       run = (\<lambda>io fs. fst (atomic_executable_copy io (ascii ''/tmp/new'') (ascii ''/opt/app'') fs))
   in run (\<lambda>p. p \<noteq> SyncTemp) fs = fs \<and> run (\<lambda>_. True) (run (\<lambda>p. p \<noteq> SyncTemp) fs) = fs(ascii ''/opt/app'' \<mapsto> ascii ''new'')"
proof -
  let ?fs = "[ascii ''/tmp/new'' \<mapsto> ascii ''new'', ascii ''/opt/app'' \<mapsto> ascii ''old'']"
  let ?i = "\<lambda>io. \<lparr>ca_io = io, ca_source = ascii ''/tmp/new'', ca_data = ascii ''new''\<rparr>"
  have h: "list_all (\<lambda>i. ?fs (ca_source i) = Some (ca_data i) \<and> ca_source i \<noteq> ascii ''/opt/app'') [?i (\<lambda>p. p \<noteq> SyncTemp)]"
    by (simp add: ascii_def)
  have p: "has_parent (ascii ''/opt/app'')" by code_simp
  have n: "list_all (\<lambda>i. Option.bind (?fs (aa_archive i)) Map.empty = Some (aa_entries i) \<and> aa_archive i \<noteq> ascii ''/opt/app'') ([] :: agent_attempt list)"
    by simp
  note conjunct1 [OF executables_whole [OF h n]]
  moreover have "fst (atomic_executable_copy (\<lambda>p. p \<noteq> SyncTemp) (ascii ''/tmp/new'') (ascii ''/opt/app'') ?fs) \<noteq> ?fs(ascii ''/opt/app'' \<mapsto> ascii ''new'')"
    by (simp add: atomic_executable_copy_def p fun_eq_iff ascii_def)
  ultimately have a: "fst (atomic_executable_copy (\<lambda>p. p \<noteq> SyncTemp) (ascii ''/tmp/new'') (ascii ''/opt/app'') ?fs) = ?fs"
    by (simp only: fold_simps list.set copy_attempt.simps bex_simps fun_upd_upd) blast
  have b: "fst (atomic_executable_copy (\<lambda>_. True) (ascii ''/tmp/new'') (ascii ''/opt/app'') ?fs) = ?fs(ascii ''/opt/app'' \<mapsto> ascii ''new'')"
    by (simp add: atomic_executable_copy_def p) (simp add: ascii_def)
  show ?thesis unfolding Let_def a b by blast
qed

section \<open>From the release to the disk\<close>

lemma download_ok:
  assumes "download C io stops tmp U info dir s = (s', Inr dest)"
    and "sv_files s tmp = None" and "tmp \<noteq> path_join dir (asset_name (upd_asset info))"
  shows "dest = path_join dir (asset_name (upd_asset info)) \<and>
     (\<exists>data. length data = asset_size (upd_asset info) \<and> Sha256 C data = digest_value (upd_sha256 info) \<and>
        sv_files s' = (sv_files s)(dest \<mapsto> data))"
proof -
  let ?dest = "path_join dir (asset_name (upd_asset info))"
  obtain r where r: "download_asset_to C io stops tmp U (upd_asset info) (upd_sha256 info) ?dest s = (s', r)" "r = Inr ()" "dest = ?dest"
    using assms(1) by (auto simp: download_def download_asset_def Let_def split: prod.splits sum.splits)
  then obtain body where "save_verified_asset C io stops tmp body (upd_asset info) (upd_sha256 info) ?dest s = (s', Inr ())"
    by (auto simp: download_asset_to_def split: sum.splits if_splits option.splits)
  then show ?thesis using save_verified_ok [OF assms(2,3)] unfolding r(3) by blast
qed

text \<open>
  C12. When a check offers an update and its download ends well, the file that was written holds bytes
  whose digest the release's own manifest lists, in exactly one row, for the one asset of that name
  and size in the release; the release is newer than the running build; the file lies in the
  directory asked for under the asset's name, which has no slash; and no other file changed.\<close>

theorem update_end_to_end:
  assumes "check_detailed from_json (\<lambda>c. target_suffix_for c os arch triple ai deb) U current = Inr (Update info)"
    and "download C io stops tmp U info dir s = (s', Inr dest)"
    and "sv_files s tmp = None" and "tmp \<noteq> path_join dir (asset_name (upd_asset info))"
  shows "\<exists>T release sums listing rows data.
     client U = Some T \<and> latest_release from_json U = Inr release \<and> version_newer (rel_version release) current \<and>
     filter (\<lambda>a. asset_name a = asset_name (upd_asset info)) (rel_assets release) = [upd_asset info] \<and>
     filter (\<lambda>a. asset_name a = CHECKSUM_MANIFEST) (rel_assets release) = [sums] \<and>
     transport_text T (download_url sums) None MAX_MANIFEST_BYTES = Inr listing \<and>
     map row_of (manifest_lines (str_lines listing)) = map Some rows \<and> distinct (map snd rows) \<and>
     (Sha256Digest (Sha256 C data), asset_name (upd_asset info)) \<in> set rows \<and>
     length data = asset_size (upd_asset info) \<and> 0x2F \<notin> set (asset_name (upd_asset info)) \<and>
     dest = path_join dir (asset_name (upd_asset info)) \<and> sv_files s' = (sv_files s)(dest \<mapsto> data)"
proof -
  obtain release T pre suf where r: "latest_release from_json U = Inr release" "client U = Some T"
      "version_newer (rel_version release) current" "target_suffix_for (component U) os arch triple ai deb = Some (pre, suf)"
      "asset_name (upd_asset info) = pre @ rel_version release @ suf"
      "filter (\<lambda>a. asset_name a = asset_name (upd_asset info)) (rel_assets release) = [upd_asset info]"
      "find_sha256 (rel_assets release) (asset_name (upd_asset info)) (\<lambda>url. transport_text T url None MAX_MANIFEST_BYTES) = Inr (upd_sha256 info)"
    using check_detailed_Update [OF assms(1)] by blast
  obtain sums listing rows where m: "filter (\<lambda>a. asset_name a = CHECKSUM_MANIFEST) (rel_assets release) = [sums]"
      "transport_text T (download_url sums) None MAX_MANIFEST_BYTES = Inr listing"
      "map row_of (manifest_lines (str_lines listing)) = map Some rows" "distinct (map snd rows)"
      "(upd_sha256 info, asset_name (upd_asset info)) \<in> set rows"
    using r(7) unfolding find_sha256_Inr manifest_Inr by blast
  obtain data where d: "length data = asset_size (upd_asset info)" "Sha256Digest (Sha256 C data) = upd_sha256 info"
      "sv_files s' = (sv_files s)(dest \<mapsto> data)" "dest = path_join dir (asset_name (upd_asset info))"
    using download_ok [OF assms(2,3,4)] by (cases "upd_sha256 info") auto
  have "0x2F \<notin> set (asset_name (upd_asset info))"
    using target_suffix_plain [OF r(4)] latest_release_version [OF r(1)] version_no_slash unfolding r(5) by auto
  then show ?thesis using r m d by metis
qed

text \<open>A release with one file and its manifest, for the instance below.\<close>

definition toy_name :: bytes where
  "toy_name = ascii ''gipny-i2p_0.5.0_amd64.AppImage''"

definition toy_manifest :: bytes where
  "toy_manifest = digest_display (Sha256Digest (Sha256 toy_crypto [1, 2])) @ ascii ''  '' @ toy_name @ [0x0A]"

definition toy_release :: GhRelease where
  "toy_release = \<lparr>tag_name = ascii ''v0.5.0'', gh_body = None,
     gh_assets = [\<lparr>gh_name = CHECKSUM_MANIFEST, browser_download_url = ascii ''m'', gh_size = 0\<rparr>,
                  \<lparr>gh_name = toy_name, browser_download_url = ascii ''a'', gh_size = 2\<rparr>]\<rparr>"

definition toy_updater :: "bytes Updater" where
  "toy_updater = \<lparr>client = Some
     \<lparr>tr_lib = \<lparr>url_parse = Inr, url_join = (\<lambda>_. Inr), scheme = (\<lambda>_. ascii ''https'')\<rparr>,
      tr_exchange = (\<lambda>_ u. Inr \<lparr>resp_status = 200, location = None,
         frames = [Data (if u = ascii ''m'' then toy_manifest else if u = ascii ''a'' then [1, 2] else [])]\<rparr>),
      tr_utf8_error = []\<rparr>, component = App\<rparr>"

definition toy_asset :: ReleaseAsset where
  "toy_asset = \<lparr>asset_name = toy_name, download_url = ascii ''a'', asset_size = 2\<rparr>"

definition toy_info :: UpdateInfo where
  "toy_info = \<lparr>upd_version = version_text [0, 5, 0], upd_notes = [], upd_asset = toy_asset,
     upd_sha256 = Sha256Digest (Sha256 toy_crypto [1, 2])\<rparr>"

lemma toy_manifest_parse: "parse_sha256_manifest toy_manifest toy_name = Inr (Sha256Digest (Sha256 toy_crypto [1, 2]))"
proof -
  have "manifest_rows toy_name 0 None [] (str_lines toy_manifest) = Inr (Some (Sha256Digest (Sha256 toy_crypto [1, 2])))"
    by code_simp
  moreover have "length toy_manifest = 97" by code_simp
  ultimately show ?thesis by (simp add: parse_sha256_manifest_def MAX_MANIFEST_BYTES_def)
qed

lemma text_one:
  "length d \<le> m \<Longrightarrow> utf8_valid d \<Longrightarrow> body_text e m [Data d] = Inr d"
  by (simp add: body_text_def text_loop.simps [of m "[]" "[Data d]"] text_loop.simps [of m d "[]"])

lemma toy_transport:
  assumes "client toy_updater = Some T"
  shows "transport_text T (ascii ''m'') None MAX_MANIFEST_BYTES = Inr toy_manifest"
    and "transport_text T latest_url accept MAX_RELEASE_BYTES = Inr []"
    and "transport_body T (ascii ''a'') = Inr [Data [1, 2]]"
proof -
  have m: "length toy_manifest = 97" "utf8_valid toy_manifest" by code_simp+
  have u: "latest_url \<noteq> ascii ''m''" "latest_url \<noteq> ascii ''a''" "ascii ''a'' \<noteq> ascii ''m''" by code_simp+
  have T: "T = the (client toy_updater)" using assms by simp
  have g: "http_get (tr_lib T) (tr_exchange T acc) url =
      Inr [Data (if url = ascii ''m'' then toy_manifest else if url = ascii ''a'' then [1, 2] else [])]" for acc url
    unfolding T by (simp add: toy_updater_def http_get_def get_once_def)
  show "transport_text T (ascii ''m'') None MAX_MANIFEST_BYTES = Inr toy_manifest"
    using m text_one [of toy_manifest MAX_MANIFEST_BYTES] by (simp add: transport_text_def g MAX_MANIFEST_BYTES_def)
  show "transport_text T latest_url accept MAX_RELEASE_BYTES = Inr []"
    using u text_one [of "[]"] by (simp add: transport_text_def g)
  show "transport_body T (ascii ''a'') = Inr [Data [1, 2]]" using u(3) by (simp add: transport_body_def g)
qed

lemma toy_check:
  "check_detailed (\<lambda>_. Inr toy_release) (\<lambda>c. target_suffix_for c (ascii ''linux'') (ascii ''x86_64'') [] True False) toy_updater
     (version_text [0, 4, 20]) = Inr (Update toy_info)"
proof -
  obtain T where T: "client toy_updater = Some T" by (simp add: toy_updater_def)
  have r: "is_release [0, 5, 0]" "is_release [0, 4, 20]" by (simp_all add: is_release_def)
  then have v: "release_version (version_text [0, 5, 0]) = Some [0, 5, 0]" using release_version_iff by simp
  have s: "strip_v (ascii ''v0.5.0'') = version_text [0, 5, 0]" by code_simp
  have l: "latest_release (\<lambda>_. Inr toy_release) toy_updater =
      Inr \<lparr>rel_version = version_text [0, 5, 0], rel_notes = [],
           rel_assets = [\<lparr>asset_name = CHECKSUM_MANIFEST, download_url = ascii ''m'', asset_size = 0\<rparr>, toy_asset]\<rparr>"
    by (simp add: latest_release_def T toy_transport(2) [OF T] toy_release_def s v toy_asset_def)
  have n: "version_newer (version_text [0, 5, 0]) (version_text [0, 4, 20])"
    using v installed_release [OF r(2)] by (simp add: version_newer_def)
  have c: "component toy_updater = App" "is_configured toy_updater" by (simp_all add: toy_updater_def is_configured_def)
  have t: "target_suffix_for App (ascii ''linux'') (ascii ''x86_64'') [] True False = Some (ascii ''gipny-i2p_'', ascii ''_amd64.AppImage'')"
      "ascii ''gipny-i2p_'' @ version_text [0, 5, 0] @ ascii ''_amd64.AppImage'' = toy_name" "CHECKSUM_MANIFEST \<noteq> toy_name"
      "toy_name \<noteq> CHECKSUM_MANIFEST"
    by code_simp+
  show ?thesis
    by (simp add: check_detailed_def c l n t asset_sha256_def T unique_asset_def find_sha256_def toy_transport(1) [OF T]
        toy_manifest_parse toy_info_def toy_asset_def)
qed

lemma toy_download:
  "snd (download toy_crypto (\<lambda>_. True) (\<lambda>_. None) (ascii ''t'') toy_updater toy_info (ascii ''d'')
     \<lparr>sv_files = Map.empty, sv_seen = [], sv_progress = []\<rparr>) = Inr (path_join (ascii ''d'') toy_name)"
proof -
  obtain T where T: "client toy_updater = Some T" by (simp add: toy_updater_def)
  have "snd (save_verified_asset toy_crypto (\<lambda>_. True) (\<lambda>_. None) (ascii ''t'') [Data [1, 2]] toy_asset
      (Sha256Digest (Sha256 toy_crypto [1, 2])) (path_join (ascii ''d'') toy_name) \<lparr>sv_files = Map.empty, sv_seen = [], sv_progress = []\<rparr>) = Inr ()"
    by (rule save_verified_complete [of _ "[1, 2]"]) (simp_all add: toy_asset_def MAX_ARTIFACT_BYTES_def)
  then show ?thesis
    using toy_transport(3) [OF T]
    by (auto simp: download_def download_asset_def download_asset_to_def T toy_info_def toy_asset_def MAX_ARTIFACT_BYTES_def Let_def
        split: prod.split sum.split)
qed

theorem update_end_to_end_witness:
  "\<exists>s' data. download toy_crypto (\<lambda>_. True) (\<lambda>_. None) (ascii ''t'') toy_updater toy_info (ascii ''d'')
       \<lparr>sv_files = Map.empty, sv_seen = [], sv_progress = []\<rparr> = (s', Inr (ascii ''d/'' @ toy_name)) \<and>
     length data = 2 \<and> sv_files s' = [ascii ''d/'' @ toy_name \<mapsto> data]"
proof -
  let ?s = "\<lparr>sv_files = Map.empty, sv_seen = [], sv_progress = []\<rparr>"
  have j: "path_join (ascii ''d'') toy_name = ascii ''d/'' @ toy_name" "ascii ''t'' \<noteq> ascii ''d/'' @ toy_name" by code_simp+
  obtain s' where d: "download toy_crypto (\<lambda>_. True) (\<lambda>_. None) (ascii ''t'') toy_updater toy_info (ascii ''d'') ?s
      = (s', Inr (ascii ''d/'' @ toy_name))" using toy_download j(1) by (metis prod.collapse)
  have a: "upd_asset toy_info = toy_asset" "asset_name toy_asset = toy_name" "asset_size toy_asset = 2"
    by (simp_all add: toy_info_def toy_asset_def)
  show ?thesis using update_end_to_end [OF toy_check d] j a d by auto
qed

end
