(* ===== verification/Update_Windows_Props.thy ===== *)
theory Update_Windows_Props
  imports Update_Install_Props
begin

text \<open>
  Staging on Windows. The installer: any sequence of stagings and starts of the program, whatever
  fails, as a step relation with the events so far. The agent: every state of its directory
  while an update is staged.
\<close>

section \<open>The installer\<close>

datatype win_event = Staged bytes bytes | Launched bytes bytes

text \<open>\<open>remove_dir_all\<close> may stop anywhere: what it leaves was there before.\<close>

definition kept :: "'a option \<Rightarrow> 'a option \<Rightarrow> bool" where
  "kept old new \<longleftrightarrow> new = None \<or> new = old"

lemma kept_trans: "kept a b \<Longrightarrow> kept b c \<Longrightarrow> kept a c"
  by (auto simp: kept_def)

definition removes :: "(pending_dir \<Rightarrow> pending_dir option) \<Rightarrow> bool" where
  "removes removed \<longleftrightarrow> (\<forall>d d'. removed d = Some d' \<longrightarrow>
     kept (pd_version d) (pd_version d') \<and> kept (pd_sha256 d) (pd_sha256 d') \<and>
     kept (pd_installer d) (pd_installer d') \<and> kept (pd_claimed d) (pd_claimed d'))"

text \<open>
  \<open>Staged version data\<close>: \<open>stage_windows_installer\<close> ended well. \<open>Launched version data\<close>: the installer
  with these contents was started, from a build of that version. The newest event is first.
\<close>

inductive win_run :: "crypto \<Rightarrow> win_event list \<Rightarrow> pending_dir option \<Rightarrow> bool" for C where
  start: "win_run C [] None"
| stage: "win_run C evs p \<Longrightarrow> stage_windows_installer C io downloaded content p = (p', r) \<Longrightarrow>
    evs' = (if r = Inr () then Staged (the (version_between ''gipny-i2p_'' ''_x64-setup.exe'' downloaded)) (the content) # evs else evs) \<Longrightarrow>
    win_run C evs' p'"
| launch: "win_run C evs p \<Longrightarrow> removes removed \<Longrightarrow>
    launch_pending_windows_installer C io removed launch_ok current p = (p', launched, r) \<Longrightarrow>
    evs' = (case launched of None \<Rightarrow> evs | Some data \<Rightarrow> Launched current data # evs) \<Longrightarrow>
    win_run C evs' p'"

fun history_ok :: "win_event list \<Rightarrow> bool" where
  "history_ok [] = True"
| "history_ok (Staged _ _ # evs) = history_ok evs"
| "history_ok (Launched current data # evs) =
     (list_ex (\<lambda>e. case e of Staged version d \<Rightarrow> d = data \<and> version_newer version current | _ \<Rightarrow> False) evs \<and> history_ok evs)"

definition is_launch :: "win_event \<Rightarrow> bool" where
  "is_launch e \<longleftrightarrow> (case e of Launched _ _ \<Rightarrow> True | _ \<Rightarrow> False)"

definition pending_ok :: "crypto \<Rightarrow> win_event list \<Rightarrow> pending_dir option \<Rightarrow> bool" where
  "pending_ok C evs p \<longleftrightarrow>
     (case p of
        None \<Rightarrow> True
      | Some d \<Rightarrow>
          (pd_installer d = None \<or> pd_claimed d = None) \<and>
          (\<forall>data. pd_installer d = Some data \<or> pd_claimed d = Some data \<longrightarrow>
             (\<exists>version. Staged version data \<in> set evs \<and> kept (Some version) (pd_version d) \<and>
                kept (Some (digest_display (file_digest C data))) (pd_sha256 d))))"

definition waiting :: "pending_dir option \<Rightarrow> nat" where
  "waiting p = (case p of None \<Rightarrow> 0 | Some d \<Rightarrow> if pd_installer d = None then 0 else 1)"

lemma stage_windows_installer_cases:
  assumes "stage_windows_installer C io downloaded content p = (p', r)"
  obtains (failed) e where "p' = p" "r = Inl e"
    | (staged) data version where "content = Some data" "version_between ''gipny-i2p_'' ''_x64-setup.exe'' downloaded = Some version"
        "p = None \<or> p = Some empty_pending" "r = Inr ()"
        "p' = Some \<lparr>pd_version = Some version, pd_sha256 = Some (digest_display (file_digest C data)),
                      pd_installer = Some data, pd_claimed = None\<rparr>"
  using assms by (auto simp: stage_windows_installer_def split: if_splits option.splits)

lemma launch_attempt_digest:
  assumes "launch_attempt C io launch_ok sha data = Inr b"
  shows "b \<and> (\<exists>txt. sha = Some txt \<and> digest_parse (trim txt) = Some (file_digest C data))"
  using assms by (auto simp: launch_attempt_def read_string_def split: option.splits if_splits)

definition claimable :: "disk_ok \<Rightarrow> bytes \<Rightarrow> pending_dir \<Rightarrow> bytes \<Rightarrow> bytes \<Rightarrow> bool" where
  "claimable io current d version data \<longleftrightarrow>
     read_string (io ReadVersion) (pd_version d) = Some version \<and> release_version (trim version) \<noteq> None \<and>
     installed_version current \<noteq> None \<and> version_newer (trim version) current \<and>
     pd_claimed d = None \<and> pd_installer d = Some data \<and> io ClaimInstaller"

abbreviation claimed_dir :: "pending_dir \<Rightarrow> bytes \<Rightarrow> pending_dir" where
  "claimed_dir d data \<equiv> d\<lparr>pd_installer := None, pd_claimed := Some data\<rparr>"

lemma launch_claimable:
  "claimable io current d version data \<Longrightarrow>
   launch_pending_windows_installer C io removed launch_ok current (Some d) =
     (case launch_attempt C io launch_ok (pd_sha256 d) data of
        Inr b \<Rightarrow> (Some (claimed_dir d data), Some data, Inr b)
      | Inl e \<Rightarrow> (Some (if io RestoreInstaller then d else claimed_dir d data), None, Inl e))"
  by (auto simp: launch_pending_windows_installer_def claimable_def split: sum.split)

lemma launch_unclaimable:
  assumes "launch_pending_windows_installer C io removed launch_ok current (Some d) = (p', launched, r)"
    and "\<nexists>version data. claimable io current d version data"
  shows "launched = None \<and> r \<noteq> Inr True \<and> (p' = Some d \<or> p' = removed d \<and> r = Inr False)"
  using assms by (auto simp: launch_pending_windows_installer_def claimable_def split: option.splits if_splits)

lemma launch_cases:
  assumes "launch_pending_windows_installer C io removed launch_ok current p = (p', launched, r)"
  obtains (same) "p' = p" "launched = None" "r \<noteq> Inr True"
    | (removed) d where "p = Some d" "p' = removed d" "launched = None" "r = Inr False"
    | (stuck) d data where "p = Some d" "pd_installer d = Some data" "launched = None" "r \<noteq> Inr True"
        "p' = Some (claimed_dir d data)"
    | (launched) d data version where "p = Some d" "pd_installer d = Some data" "launched = Some data" "r = Inr True"
        "pd_version d = Some version" "version_newer (trim version) current" "p' = Some (claimed_dir d data)"
        "\<exists>txt. pd_sha256 d = Some txt \<and> digest_parse (trim txt) = Some (file_digest C data)"
proof (cases "\<exists>d version data. p = Some d \<and> claimable io current d version data")
  case False
  then show thesis
  proof (cases p)
    case None
    then show thesis using assms same by (auto simp: launch_pending_windows_installer_def)
  next
    case (Some d)
    have "\<nexists>version data. claimable io current d version data" using False Some by blast
    note u = launch_unclaimable [OF assms [unfolded Some] this]
    show thesis
    proof (cases "p' = Some d")
      case True
      then show thesis using u Some by (intro same) auto
    next
      case False
      then show thesis using u Some by (intro removed [of d]) auto
    qed
  qed
next
  case True
  then obtain d version data where d: "p = Some d" and c: "claimable io current d version data" by blast
  then have v: "pd_version d = Some version" "version_newer (trim version) current" "pd_installer d = Some data"
    by (auto simp: claimable_def read_string_def split: option.splits if_splits)
  note l = assms [unfolded d launch_claimable [OF c]]
  show thesis
  proof (cases "launch_attempt C io launch_ok (pd_sha256 d) data")
    case (Inl e)
    show thesis
    proof (cases "io RestoreInstaller")
      case True
      then show thesis using l d Inl by (intro same) auto
    next
      case False
      then show thesis using l d Inl v(3) by (intro stuck [of d data]) auto
    qed
  next
    case (Inr b)
    then show thesis using l d v launch_attempt_digest [OF Inr] by (intro launched [of d data version]) auto
  qed
qed

lemma version_between_release:
  assumes "version_between pre suf path = Some version"
  obtains v where "is_release v" "version = version_text v \<or> version = ascii ''v'' @ version_text v"
  using assms release_version_iff by (auto simp: version_between_def split: option.splits if_splits)

lemma last_version: "is_release v \<Longrightarrow> is_digit (last (version_text v))"
proof -
  assume "is_release v"
  then obtain a b c where v: "v = [a, b, c]" by (auto simp: is_release_def length_Suc_conv numeral_3_eq_3)
  have "last (decimal c) \<in> set (decimal c)" by simp
  then show ?thesis using decimal_digits [of c] by (auto simp: v version_text_def list_all_iff)
qed

lemma is_digit_bounds: "is_digit b \<Longrightarrow> 0x20 < b \<and> b < 0x80"
  by (auto simp: is_digit_def word_le_nat_alt word_less_nat_alt)

lemma trim_version:
  assumes "is_release v" and "s = version_text v \<or> s = ascii ''v'' @ version_text v"
  shows "trim s = s" "utf8_valid s"
proof -
  have v: "version_text v \<noteq> []" "is_digit (hd (version_text v))" "is_digit (last (version_text v))"
    using hd_version [OF assms(1)] last_version [OF assms(1)] by auto
  then have "0x20 < hd s" "hd s < 0x80" "0x20 < last s" "last s < 0x80" "s \<noteq> []"
    using assms(2) is_digit_bounds by (auto simp: ascii_def)
  then show "trim s = s" by (intro utf8_trim_id)
  have "b < 0x80" if "b \<in> set (version_text v)" for b
    using version_bytes [OF assms(1) that] is_digit_bounds by auto
  then have "\<forall>b \<in> set s. b < 0x80" using assms(2) by (auto simp: ascii_def)
  then show "utf8_valid s" by (rule utf8_valid_ascii)
qed

definition run_ok :: "crypto \<Rightarrow> win_event list \<Rightarrow> pending_dir option \<Rightarrow> bool" where
  "run_ok C evs p \<longleftrightarrow>
     pending_ok C evs p \<and> history_ok evs \<and>
     (\<forall>version data. Staged version data \<in> set evs \<longrightarrow> trim version = version) \<and>
     length (filter is_launch evs) + waiting p \<le> length (filter (\<lambda>e. \<not> is_launch e) evs)"

lemma pending_ok_more: "pending_ok C evs p \<Longrightarrow> pending_ok C (e # evs) p"
  by (auto simp: pending_ok_def split: option.splits)

lemma run_ok_claim:
  assumes "run_ok C evs (Some d)" and "pd_installer d = Some data"
  shows "run_ok C evs (Some (d\<lparr>pd_installer := None, pd_claimed := Some data\<rparr>))"
    and "length (filter is_launch evs) < length (filter (\<lambda>e. \<not> is_launch e) evs)"
  using assms by (auto simp: run_ok_def pending_ok_def waiting_def)

lemma run_ok_removed:
  assumes "run_ok C evs (Some d)" and "removes removed"
  shows "run_ok C evs (removed d)"
proof (cases "removed d")
  case (Some d')
  have k: "kept (pd_version d) (pd_version d')" "kept (pd_sha256 d) (pd_sha256 d')"
      "kept (pd_installer d) (pd_installer d')" "kept (pd_claimed d) (pd_claimed d')"
    using assms(2) Some by (auto simp: removes_def)
  have "pending_ok C evs (Some d')"
    unfolding pending_ok_def option.case
  proof (intro conjI allI impI)
    show "pd_installer d' = None \<or> pd_claimed d' = None"
      using assms(1) k(3,4) by (auto simp: run_ok_def pending_ok_def kept_def)
    fix data assume "pd_installer d' = Some data \<or> pd_claimed d' = Some data"
    then have "pd_installer d = Some data \<or> pd_claimed d = Some data" using k(3,4) by (auto simp: kept_def)
    then obtain version where "Staged version data \<in> set evs" "kept (Some version) (pd_version d)"
        "kept (Some (digest_display (file_digest C data))) (pd_sha256 d)"
      using assms(1) unfolding run_ok_def pending_ok_def option.case by blast
    then show "\<exists>version. Staged version data \<in> set evs \<and> kept (Some version) (pd_version d') \<and>
        kept (Some (digest_display (file_digest C data))) (pd_sha256 d')"
      using kept_trans k(1,2) by blast
  qed
  moreover have "waiting (Some d') \<le> waiting (Some d)" using k(3) by (auto simp: waiting_def kept_def)
  ultimately show ?thesis using assms(1) Some by (simp add: run_ok_def)
qed (use assms in \<open>auto simp: run_ok_def pending_ok_def waiting_def\<close>)

lemma run_ok_launched:
  assumes "run_ok C evs (Some d)" and "pd_installer d = Some data" and "pd_version d = Some version"
    and "version_newer (trim version) current"
  shows "run_ok C (Launched current data # evs) (Some (d\<lparr>pd_installer := None, pd_claimed := Some data\<rparr>))"
proof -
  obtain version' where "Staged version' data \<in> set evs" "kept (Some version') (pd_version d)"
    using assms(1,2) by (auto simp: run_ok_def pending_ok_def)
  then have "Staged version data \<in> set evs" using assms(3) by (simp add: kept_def)
  moreover from this have "trim version = version" using assms(1) unfolding run_ok_def by blast
  ultimately have "history_ok (Launched current data # evs)"
    using assms by (auto simp: run_ok_def list_ex_iff intro!: bexI [of _ "Staged version data"])
  then show ?thesis
    using run_ok_claim [OF assms(1,2)] by (simp add: run_ok_def pending_ok_more is_launch_def waiting_def)
qed

lemma win_run_ok: "win_run C evs p \<Longrightarrow> run_ok C evs p"
proof (induction rule: win_run.induct)
  case start
  then show ?case by (simp add: run_ok_def pending_ok_def waiting_def)
next
  case (stage evs p io downloaded content p' r evs')
  from stage.hyps(2) show ?case
  proof (cases rule: stage_windows_installer_cases)
    case (staged data version)
    have "trim version = version" using version_between_release [OF staged(2)] trim_version by metis
    moreover have "waiting p = 0" using staged(3) by (auto simp: waiting_def empty_pending_def)
    ultimately show ?thesis
      using stage staged by (auto simp: run_ok_def pending_ok_def waiting_def is_launch_def kept_def)
  qed (use stage in simp)
next
  case (launch evs p removed io launch_ok current p' launched r evs')
  from launch.hyps(3) show ?case
    by (cases rule: launch_cases) (use launch run_ok_claim run_ok_removed run_ok_launched in auto)
qed

text \<open>
  C22. Through any sequence of stagings and starts of the program, with failures anywhere, an installer
  that is started was staged before, byte for byte, as an update newer than the build that starts
  it, and no more are started than were staged: an installer that did not finish is never started
  again.\<close>

theorem windows_launches_staged:
  assumes "win_run C evs p"
  shows "history_ok evs \<and> length (filter is_launch evs) + waiting p \<le> length (filter (\<lambda>e. \<not> is_launch e) evs)"
  using win_run_ok [OF assms] by (simp add: run_ok_def)

lemma setup_version:
  "version_between ''gipny-i2p_'' ''_x64-setup.exe'' (ascii ''gipny-i2p_0.5.0_x64-setup.exe'') = Some (version_text [0, 5, 0])"
proof -
  have "Option.bind (Option.bind (path_file_name (ascii ''gipny-i2p_0.5.0_x64-setup.exe'')) (strip_prefix (ascii ''gipny-i2p_'')))
      (strip_suffix (ascii ''_x64-setup.exe'')) = Some (version_text [0, 5, 0])" by code_simp
  moreover have "release_version (version_text [0, 5, 0]) = Some [0, 5, 0]"
    using release_version_iff by (simp add: is_release_def)
  ultimately show ?thesis by (simp add: version_between_def)
qed

theorem windows_launches_staged_witness:
  "\<exists>evs p. win_run toy_crypto evs p \<and> length evs = 1 \<and> waiting p = 1 \<and> history_ok evs \<and>
     length (filter is_launch evs) + waiting p \<le> length (filter (\<lambda>e. \<not> is_launch e) evs)"
proof -
  let ?name = "ascii ''gipny-i2p_0.5.0_x64-setup.exe''"
  obtain p r where s: "stage_windows_installer toy_crypto (\<lambda>_. True) ?name (Some []) None = (p, r)" by fastforce
  have r: "r = Inr ()" "waiting p = 1" using s setup_version by (auto simp: stage_windows_installer_def waiting_def split: option.splits)
  define evs where "evs = [Staged (the (version_between ''gipny-i2p_'' ''_x64-setup.exe'' ?name)) (the (Some []))]"
  have "win_run toy_crypto evs p"
    using win_run.stage [OF win_run.start s, of evs] r by (simp add: evs_def)
  then show ?thesis using windows_launches_staged [of toy_crypto evs p] r by (intro exI [of _ evs] exI [of _ p]) (simp add: evs_def)
qed

text \<open>The digest that is written is read back from the file.\<close>

definition sha_len :: "crypto \<Rightarrow> bool" where
  "sha_len C \<longleftrightarrow> (\<forall>m. length (Sha256 C m) = 32)"

lemma trim_digest:
  assumes "length bs = 32"
  shows "trim (digest_display (Sha256Digest bs)) = digest_display (Sha256Digest bs)" "utf8_valid (digest_display (Sha256Digest bs))"
proof -
  let ?s = "concat (map hex_02 bs)"
  have b: "0x20 < c \<and> c < 0x80" if "c \<in> set ?s" for c
  proof -
    have "is_ascii_hexdigit c" using that hex_02_digits by (auto simp: list_all_iff)
    then show ?thesis by (auto simp: is_ascii_hexdigit_def is_digit_def word_le_nat_alt word_less_nat_alt)
  qed
  have n: "?s \<noteq> []" using assms by (cases bs) (auto simp: hex_02_def)
  have "trim ?s = ?s"
    using b [OF hd_in_set [OF n]] b [OF last_in_set [OF n]] n by (intro utf8_trim_id) auto
  moreover have "utf8_valid ?s" using b by (intro utf8_valid_ascii) auto
  ultimately show "trim (digest_display (Sha256Digest bs)) = digest_display (Sha256Digest bs)"
      "utf8_valid (digest_display (Sha256Digest bs))" by simp_all
qed

text \<open>
  An installer that is staged is applied: at the next start of an older build the bytes that were
  downloaded are launched and the update is claimed; when the launch fails instead, everything is as
  staged and the next start tries again; and once the new build runs the directory is removed.\<close>

theorem windows_update_applied:
  assumes "stage_windows_installer C io0 downloaded (Some data) None = (p, Inr ())" and "sha_len C"
    and "installed_version current \<noteq> None" and "\<forall>point. io point"
    and "version_between ''gipny-i2p_'' ''_x64-setup.exe'' downloaded = Some version"
  shows "launch_pending_windows_installer C io removed launch_ok current p =
     (if \<not> version_newer version current then (Option.bind p removed, None, Inr False)
      else if launch_ok then (map_option (\<lambda>d. claimed_dir d data) p, Some data, Inr True)
      else (p, None, Inl IoError))"
proof -
  let ?d = "\<lparr>pd_version = Some version, pd_sha256 = Some (digest_display (file_digest C data)),
             pd_installer = Some data, pd_claimed = None\<rparr>"
  have p: "p = Some ?d"
    using assms(1,5) by (auto simp: stage_windows_installer_def split: if_splits)
  obtain v where "is_release v" "version = version_text v \<or> version = ascii ''v'' @ version_text v"
    using version_between_release [OF assms(5)] .
  then have v: "trim version = version" "utf8_valid version" "release_version version \<noteq> None"
    using trim_version [of v version] release_version_iff by auto
  have l: "length (Sha256 C data) = 32" using assms(2) by (simp add: sha_len_def)
  have a: "launch_attempt C io launch_ok (pd_sha256 ?d) data = (if launch_ok then Inr True else Inl IoError)"
    using assms(4) trim_digest [OF l] digest_parse_display [OF l] by (simp add: launch_attempt_def read_string_def file_digest_def)
  show ?thesis
  proof (cases "version_newer version current")
    case True
    then have "claimable io current ?d version data"
      using v assms(3,4) by (simp add: claimable_def read_string_def)
    then show ?thesis using launch_claimable [of io current ?d version data C removed launch_ok] a p True assms(4) by simp
  next
    case False
    then show ?thesis using v assms(3,4) p by (simp add: launch_pending_windows_installer_def read_string_def)
  qed
qed

theorem windows_update_applied_witness:
  "let C = toy_crypto\<lparr>Sha256 := (\<lambda>_. replicate 32 0)\<rparr>;
       p = fst (stage_windows_installer C (\<lambda>_. True) (ascii ''gipny-i2p_0.5.0_x64-setup.exe'') (Some [1, 2]) None)
   in launch_pending_windows_installer C (\<lambda>_. True) (\<lambda>_. None) True (version_text [0, 4, 20]) p =
        (map_option (\<lambda>d. claimed_dir d [1, 2]) p, Some [1, 2], Inr True) \<and>
      launch_pending_windows_installer C (\<lambda>_. True) (\<lambda>_. None) False (version_text [0, 4, 20]) p = (p, None, Inl IoError) \<and>
      launch_pending_windows_installer C (\<lambda>_. True) (\<lambda>_. None) True (version_text [0, 5, 0]) p = (None, None, Inr False)"
proof -
  let ?C = "toy_crypto\<lparr>Sha256 := (\<lambda>_. replicate 32 0)\<rparr>"
  obtain p r where s: "stage_windows_installer ?C (\<lambda>_. True) (ascii ''gipny-i2p_0.5.0_x64-setup.exe'') (Some [1, 2]) None = (p, r)"
    by fastforce
  then have s': "stage_windows_installer ?C (\<lambda>_. True) (ascii ''gipny-i2p_0.5.0_x64-setup.exe'') (Some [1, 2]) None = (p, Inr ())"
    using setup_version by (simp add: stage_windows_installer_def)
  have r: "is_release [0, 5, 0]" "is_release [0, 4, 20]" by (simp_all add: is_release_def)
  then have n: "installed_version (version_text [0, 5, 0]) \<noteq> None" "installed_version (version_text [0, 4, 20]) \<noteq> None"
    using installed_release by simp_all
  have "release_version (version_text [0, 5, 0]) = Some [0, 5, 0]" using r release_version_iff by simp
  then have w: "version_newer (version_text [0, 5, 0]) (version_text [0, 4, 20])" "\<not> version_newer (version_text [0, 5, 0]) (version_text [0, 5, 0])"
    using r by (simp_all add: version_newer_def installed_release)
  have c: "sha_len ?C" by (simp add: sha_len_def)
  note t = windows_update_applied [OF s' c _ _ setup_version]
  show ?thesis
    unfolding Let_def s' fst_conv using t [OF n(2), of "\<lambda>_. True"] t [OF n(1), of "\<lambda>_. True"] w by (cases p) simp_all
qed

section \<open>The agent\<close>

text \<open>
  What the bootstrap finds in \<open>pending_agent\<close>: no record, or one whose file is there with the digest
  the record has. \<open>serde_json\<close> reads a record of strings back as it was written.
\<close>

definition agent_record :: "crypto \<Rightarrow> json_lib \<Rightarrow> files \<Rightarrow> bytes \<Rightarrow> bytes \<Rightarrow> bytes \<Rightarrow> bool" where
  "agent_record C J dir content version data \<longleftrightarrow>
     (\<exists>f sha. ready_parse J content = Inr \<lparr>rd_version = Some version, rd_file = Some f, rd_sha256 = Some sha\<rparr> \<and>
        dir f = Some data \<and> digest_parse sha = Some (file_digest C data))"

definition agent_ok :: "crypto \<Rightarrow> json_lib \<Rightarrow> files \<Rightarrow> bool" where
  "agent_ok C J dir \<longleftrightarrow>
     (case dir READY_JSON of None \<Rightarrow> True | Some content \<Rightarrow> \<exists>version data. agent_record C J dir content version data)"

definition json_reads_back :: "json_lib \<Rightarrow> bool" where
  "json_reads_back J \<longleftrightarrow>
     (\<forall>f sha version. ready_parse J (ready_print J f sha version) =
        Inr \<lparr>rd_version = Some version, rd_file = Some f, rd_sha256 = Some sha\<rparr>)"

definition fresh_names :: "temp_names \<Rightarrow> files \<Rightarrow> bool" where
  "fresh_names names dir \<longleftrightarrow>
     dir (tn_exe names) = None \<and> dir (tn_ready names) = None \<and> tn_exe names \<noteq> tn_ready names \<and>
     tn_exe names \<noteq> READY_JSON \<and> tn_ready names \<noteq> READY_JSON"

lemma agent_record_add: "agent_record C J dir content version data \<Longrightarrow> dir n = None \<Longrightarrow> agent_record C J (dir(n \<mapsto> x)) content version data"
  unfolding agent_record_def by (metis fun_upd_other option.distinct(1))

lemma agent_ok_add:
  assumes "agent_ok C J dir" and "dir n = None" and "n \<noteq> READY_JSON"
  shows "agent_ok C J (dir(n \<mapsto> x))"
proof (cases "dir READY_JSON")
  case (Some content)
  then obtain version data where "agent_record C J dir content version data" using assms(1) by (auto simp: agent_ok_def)
  then have "agent_record C J (dir(n \<mapsto> x)) content version data" using assms(2) by (rule agent_record_add)
  then show ?thesis using Some assms(3) by (auto simp: agent_ok_def simp del: fun_upd_apply simp: fun_upd_other)
qed (use assms in \<open>simp add: agent_ok_def\<close>)

lemma published_record:
  assumes "json_reads_back J" and "sha_len C" and "n \<noteq> READY_JSON"
  shows "agent_record C J ((dir(n \<mapsto> data))(READY_JSON \<mapsto> ready_print J n (digest_display (file_digest C data)) version))
    (ready_print J n (digest_display (file_digest C data)) version) version data"
  using assms digest_parse_display [of "Sha256 C data"]
  by (auto simp: agent_record_def json_reads_back_def sha_len_def file_digest_def)

lemma publish_agent_states:
  assumes "publish_agent J io names version (file_digest C data) (dir(tn_exe names \<mapsto> data)) = (states, r)"
    and "agent_ok C J dir" "fresh_names names dir" "json_reads_back J" "sha_len C"
  shows "(\<forall>d \<in> set states. agent_ok C J d) \<and>
     (case r of
        Inl e \<Rightarrow> states = [] \<and> \<not> io RemoveStaged \<or> states \<noteq> [] \<and> (last states = dir(tn_exe names \<mapsto> data) \<and> \<not> io RemoveStaged \<or> last states = dir)
      | Inr _ \<Rightarrow> states \<noteq> [] \<and> (\<exists>content. last states = (dir(tn_exe names \<mapsto> data))(READY_JSON \<mapsto> content) \<and>
          agent_record C J (last states) content version data))"
proof -
  let ?full = "dir(tn_exe names \<mapsto> data)"
  let ?text = "ready_print J (tn_exe names) (digest_display (file_digest C data)) version"
  have f: "dir (tn_exe names) = None" "?full (tn_ready names) = None" "tn_ready names \<noteq> READY_JSON" "tn_exe names \<noteq> READY_JSON"
    using assms(3) by (auto simp: fresh_names_def)
  have full: "agent_ok C J ?full" using agent_ok_add [OF assms(2) f(1) f(4)] .
  have temp: "agent_ok C J (?full(tn_ready names \<mapsto> x))" for x using agent_ok_add [OF full f(2) f(3)] .
  have drop: "?full(tn_exe names := None) = dir" using f(1) by auto
  have rec: "agent_record C J (?full(READY_JSON \<mapsto> ?text)) ?text version data" using published_record [OF assms(4,5) f(4)] .
  then have "agent_ok C J (?full(READY_JSON \<mapsto> ?text))" by (auto simp: agent_ok_def)
  then show ?thesis
    using assms(1,2) full temp rec unfolding publish_agent_def Let_def drop
    by (auto simp del: fun_upd_apply split: if_splits)
qed

lemma queued_agent_ok:
  assumes "queued_agent C J io version dir content = Some (Inr u)"
  shows "\<exists>queued data. agent_record C J dir content queued data \<and> (queued = version \<or> version_newer queued version)"
proof -
  obtain ready queued f sha data where r: "ready_parse J content = Inr ready" "rd_version ready = Some queued"
      "queued = version \<or> version_newer queued version" "rd_file ready = Some f" "rd_sha256 ready = Some sha"
      "dir f = Some data" "digest_parse sha = Some (file_digest C data)"
    using assms by (auto simp: queued_agent_def bind_eq_Some_conv split: if_splits sum.splits option.splits)
  then have "ready_parse J content = Inr \<lparr>rd_version = Some queued, rd_file = Some f, rd_sha256 = Some sha\<rparr>"
    by (cases ready) simp
  then have "agent_record C J dir content queued data" unfolding agent_record_def using r(6,7) by blast
  then show ?thesis using r(3) by blast
qed

lemma stage_agent_cases:
  assumes "stage_windows_agent C J untar io names downloaded content dir = (states, r)"
  obtains (refused) e where "states = [dir]" "r = Inl e"
    | (queued) version rec where "version_between ''gipny-agent_'' ''_windows-amd64.tar.gz'' downloaded = Some version"
        "dir READY_JSON = Some rec" "queued_agent C J io version dir rec = Some (Inr ())" "states = [dir]" "r = Inr ()"
    | (failed) e x where "states = [dir, dir(tn_exe names \<mapsto> []), dir] \<or> states = [dir, dir(tn_exe names \<mapsto> []), dir(tn_exe names \<mapsto> x), dir]"
        "r = Inl e"
    | (published) version data ps where "version_between ''gipny-agent_'' ''_windows-amd64.tar.gz'' downloaded = Some version"
        "extract_agent_binary (Option.bind content untar) (ascii ''gipny-agent.exe'') = Inr data"
        "publish_agent J io names version (file_digest C data) (dir(tn_exe names \<mapsto> data)) = (ps, r)"
        "states = [dir, dir(tn_exe names \<mapsto> []), dir(tn_exe names \<mapsto> data)] @ ps"
proof -
  have n: "extract_agent_binary None exe = Inl IoError" for exe by (simp add: extract_agent_binary_def)
  have b: "Option.bind x g = Some y \<Longrightarrow> \<exists>z. x = Some z \<and> g z = Some y" for x g and y :: "UpdateError + unit"
    by (cases x) auto
  have q: thesis
    if "version_between ''gipny-agent_'' ''_windows-amd64.tar.gz'' downloaded = Some v" "dir READY_JSON = Some z"
      "queued_agent C J io v dir z = Some r" "states = [dir]" for v z
    using that by (cases r) (auto intro: refused queued)
  show thesis
    using assms n unfolding stage_windows_agent_def Let_def
    by (auto split: if_splits option.splits sum.splits prod.splits dest!: b
        intro: refused q failed published)
qed

lemma queued_stays:
  assumes "stage_windows_agent C J untar io names downloaded content dir = (states, r)"
    and "version_between ''gipny-agent_'' ''_windows-amd64.tar.gz'' downloaded = Some version"
    and "dir READY_JSON = Some rec" "agent_record C J dir rec queued data" "queued = version \<or> version_newer queued version"
  shows "states = [dir]"
proof -
  have "\<exists>a. queued_agent C J io version dir rec = Some a"
    using assms(4,5) by (auto simp: queued_agent_def agent_record_def)
  then show ?thesis using assms(1-3) by (auto simp: stage_windows_agent_def split: if_splits)
qed

text \<open>
  C25. While an agent's update is staged, in every state of the directory the record names a file that
  is there with the digest in the record; on an error the record is the one there was, and nothing
  is left behind unless removing the staged file fails too; on success the record is for this
  version, with the one executable of the downloaded archive, or for one already queued that is not
  older. When the record that is there is for this version or a newer one, nothing in the directory is
  touched at all.\<close>

theorem agent_staging_safe:
  assumes "stage_windows_agent C J untar io names downloaded content dir = (states, r)"
    and "agent_ok C J dir" "fresh_names names dir" "json_reads_back J" "sha_len C"
  shows "(\<forall>d \<in> set states. agent_ok C J d) \<and>
     (case r of
        Inl e \<Rightarrow> last states READY_JSON = dir READY_JSON \<and> (io RemoveStaged \<longrightarrow> last states = dir)
      | Inr _ \<Rightarrow> \<exists>version queued rec data.
          version_between ''gipny-agent_'' ''_windows-amd64.tar.gz'' downloaded = Some version \<and>
          last states READY_JSON = Some rec \<and> agent_record C J (last states) rec queued data \<and>
          (last states = dir \<and> (queued = version \<or> version_newer queued version) \<or>
           queued = version \<and> extract_agent_binary (Option.bind content untar) (ascii ''gipny-agent.exe'') = Inr data)) \<and>
     (\<forall>version queued rec data.
        version_between ''gipny-agent_'' ''_windows-amd64.tar.gz'' downloaded = Some version \<and>
        dir READY_JSON = Some rec \<and> agent_record C J dir rec queued data \<and> (queued = version \<or> version_newer queued version) \<longrightarrow>
        states = [dir])"
    (is "?ok \<and> ?ends \<and> ?kept")
proof -
  have n: "dir (tn_exe names) = None" "tn_exe names \<noteq> READY_JSON" using assms(3) by (auto simp: fresh_names_def)
  note add = agent_ok_add [OF assms(2) n]
  from assms(1) have "?ok \<and> ?ends"
  proof (cases rule: stage_agent_cases)
    case (queued version rec)
    then show ?thesis using queued_agent_ok [OF queued(3)] assms(2) by auto
  next
    case (failed e x)
    then show ?thesis using add assms(2) by (elim disjE) (auto simp del: fun_upd_apply)
  next
    case (published version data ps)
    note q = publish_agent_states [OF published(3) assms(2-)]
    have "\<forall>d \<in> set states. agent_ok C J d" using q published(4) add assms(2) by (auto simp del: fun_upd_apply)
    then show ?thesis using q published n by (cases r) (auto simp: last_append, blast)
  qed (use assms(2) in auto)
  moreover have ?kept using queued_stays [OF assms(1)] by blast
  ultimately show ?thesis by blast
qed

text \<open>A record format that is read back, and an archive, for the instance below.\<close>

definition toy_enc :: "bytes \<Rightarrow> bytes" where
  "toy_enc s = concat (map (\<lambda>b. [1, b]) s) @ [0]"

fun toy_dec :: "bytes \<Rightarrow> bytes \<times> bytes" where
  "toy_dec (x # b # r) = (if x = 1 then (case toy_dec r of (s, t) \<Rightarrow> (b # s, t)) else ([], b # r))"
| "toy_dec _ = ([], [])"

lemma toy_dec_enc: "toy_dec (toy_enc s @ t) = (s, t)"
proof (induction s)
  case Nil
  then show ?case by (cases t) (auto simp: toy_enc_def)
qed (simp add: toy_enc_def)

definition toy_json :: json_lib where
  "toy_json = \<lparr>ready_parse = (\<lambda>s. case toy_dec s of (f, s1) \<Rightarrow> case toy_dec s1 of (h, s2) \<Rightarrow>
       Inr \<lparr>rd_version = Some (fst (toy_dec s2)), rd_file = Some f, rd_sha256 = Some h\<rparr>),
     ready_print = (\<lambda>f h v. toy_enc f @ toy_enc h @ toy_enc v)\<rparr>"

lemma toy_json_reads_back: "json_reads_back toy_json"
  using toy_dec_enc [of _ "[]"] by (simp add: json_reads_back_def toy_json_def toy_dec_enc)

definition toy_entry :: tar_entry where
  "toy_entry = \<lparr>te_size = 1, te_path = Some (ascii ''bin/gipny-agent.exe''), te_is_file = True, te_data = Some [7]\<rparr>"

lemma toy_extract: "extract_agent_binary (Some [Some toy_entry]) (ascii ''gipny-agent.exe'') = Inr [7]"
proof -
  have "plain_path (ascii ''bin/gipny-agent.exe'')" "path_file_name (ascii ''bin/gipny-agent.exe'') = Some (ascii ''gipny-agent.exe'')"
    by code_simp+
  then show ?thesis
    by (simp add: extract_accepts_iff entries_ok_def named_entries_def regular_entry_def toy_entry_def MAX_ARTIFACT_BYTES_def
        exI [of _ "[toy_entry]"])
qed

lemma agent_version:
  "path_file_name (ascii ''gipny-agent_0.5.0_windows-amd64.tar.gz'') \<noteq> None"
  "version_between ''gipny-agent_'' ''_windows-amd64.tar.gz'' (ascii ''gipny-agent_0.5.0_windows-amd64.tar.gz'') = Some (version_text [0, 5, 0])"
proof -
  have "Option.bind (Option.bind (path_file_name (ascii ''gipny-agent_0.5.0_windows-amd64.tar.gz'')) (strip_prefix (ascii ''gipny-agent_'')))
      (strip_suffix (ascii ''_windows-amd64.tar.gz'')) = Some (version_text [0, 5, 0])" by code_simp
  moreover have "release_version (version_text [0, 5, 0]) = Some [0, 5, 0]"
    using release_version_iff by (simp add: is_release_def)
  ultimately show "version_between ''gipny-agent_'' ''_windows-amd64.tar.gz'' (ascii ''gipny-agent_0.5.0_windows-amd64.tar.gz'') = Some (version_text [0, 5, 0])"
    by (simp add: version_between_def)
  show "path_file_name (ascii ''gipny-agent_0.5.0_windows-amd64.tar.gz'') \<noteq> None" by code_simp
qed

text \<open>A newer agent that is queued already.\<close>

definition queued_dir :: files where
  "queued_dir = (Map.empty(ascii ''agent-9.exe'' \<mapsto> [9]))(READY_JSON \<mapsto>
     ready_print toy_json (ascii ''agent-9.exe'') (digest_display (file_digest toy_crypto [9])) (version_text [0, 6, 0]))"

lemma queued_dir_record:
  "agent_record toy_crypto toy_json queued_dir
     (ready_print toy_json (ascii ''agent-9.exe'') (digest_display (file_digest toy_crypto [9])) (version_text [0, 6, 0]))
     (version_text [0, 6, 0]) [9]"
  unfolding queued_dir_def
  by (rule published_record [OF toy_json_reads_back]) (simp_all add: READY_JSON_def ascii_def sha_len_def toy_crypto_def)

lemma queued_is_newer: "version_newer (version_text [0, 6, 0]) (version_text [0, 5, 0])"
proof -
  have "release_version (version_text [0, 6, 0]) = Some [0, 6, 0]" "installed_version (version_text [0, 5, 0]) = Some ([0, 5, 0], False)"
    using release_version_iff installed_release by (simp_all add: is_release_def)
  then show ?thesis by (simp add: version_newer_def)
qed

theorem agent_staging_safe_witness:
  "(\<exists>states rec. stage_windows_agent toy_crypto toy_json (\<lambda>_. Some [Some toy_entry]) (\<lambda>_. True)
       \<lparr>tn_exe = ascii ''agent-1.exe'', tn_ready = ascii ''.ready-1''\<rparr> (ascii ''gipny-agent_0.5.0_windows-amd64.tar.gz'') (Some []) Map.empty
       = (states, Inr ()) \<and>
     list_all (agent_ok toy_crypto toy_json) states \<and> agent_record toy_crypto toy_json (last states) rec (version_text [0, 5, 0]) [7]) \<and>
   fst (stage_windows_agent toy_crypto toy_json (\<lambda>_. Some [Some toy_entry]) (\<lambda>_. True)
       \<lparr>tn_exe = ascii ''agent-1.exe'', tn_ready = ascii ''.ready-1''\<rparr> (ascii ''gipny-agent_0.5.0_windows-amd64.tar.gz'') (Some []) queued_dir)
     = [queued_dir]"
proof
  let ?names = "\<lparr>tn_exe = ascii ''agent-1.exe'', tn_ready = ascii ''.ready-1''\<rparr>"
  let ?file = "ascii ''gipny-agent_0.5.0_windows-amd64.tar.gz''"
  let ?stage = "stage_windows_agent toy_crypto toy_json (\<lambda>_. Some [Some toy_entry]) (\<lambda>_. True) ?names ?file (Some [])"
  obtain states r where s: "?stage Map.empty = (states, r)" by fastforce
  have r: "r = Inr ()" "states \<noteq> [] \<and> last states \<noteq> Map.empty"
    using s agent_version toy_extract by (auto simp: stage_windows_agent_def publish_agent_def Let_def)
  have h: "agent_ok toy_crypto toy_json Map.empty" "fresh_names ?names Map.empty" "sha_len toy_crypto"
    by (simp_all add: agent_ok_def fresh_names_def READY_JSON_def ascii_def sha_len_def toy_crypto_def)
  note t = agent_staging_safe [OF s h(1,2) toy_json_reads_back h(3)]
  have "\<exists>rec. agent_record toy_crypto toy_json (last states) rec (version_text [0, 5, 0]) [7]"
    using conjunct1 [OF conjunct2 [OF t]] r agent_version(2) toy_extract by (auto simp del: fun_upd_apply)
  then show "\<exists>states rec. ?stage Map.empty = (states, Inr ()) \<and> list_all (agent_ok toy_crypto toy_json) states \<and>
      agent_record toy_crypto toy_json (last states) rec (version_text [0, 5, 0]) [7]"
    using s r(1) conjunct1 [OF t] by (auto simp: list_all_iff)
  have q: "agent_ok toy_crypto toy_json queued_dir"
    unfolding agent_ok_def using queued_dir_record by (force simp: queued_dir_def)
  have "fresh_names ?names queued_dir"
    by (simp add: fresh_names_def queued_dir_def READY_JSON_def ascii_def)
  note q = q this
  obtain states' r' where s': "?stage queued_dir = (states', r')" by fastforce
  have "queued_dir READY_JSON =
      Some (ready_print toy_json (ascii ''agent-9.exe'') (digest_display (file_digest toy_crypto [9])) (version_text [0, 6, 0]))"
    by (simp add: queued_dir_def)
  with agent_version(2) queued_dir_record queued_is_newer have "states' = [queued_dir]"
    using conjunct2 [OF conjunct2 [OF agent_staging_safe [OF s' q toy_json_reads_back h(3)]]] by blast
  with s' show "fst (?stage queued_dir) = [queued_dir]" by simp
qed

end
