(* ===== verification/Vault.thy ===== *)
theory Vault
  imports Crypto_Prims Bincode Str_Ops Utf8
begin

text \<open>
  \<open>libcore/src/security.rs\<close>: the vault that keeps the master key under a passphrase, the second
  passphrase for duress, the count of failed attempts, the wipe, and sealed backups. Arguments: the
  crypto crates, Argon2 (\<open>None\<close> where its parameters or its memory are refused), the serializer, the
  bytes that are drawn, and how each write to the disk and each step of a wipe ends. The operations
  hold a lock per vault, so that they run one after the other; the pause of \<open>throttle\<close> has no other
  effect and is left out, as are the failures of locked memory. The directory exists and a file in it
  can be read; every failure of the key store of the device is \<open>DeviceLost\<close>.
\<close>

section \<open>The header\<close>

datatype SecurityError =
    SecIo | SecCodec | SecCrypto | InvalidPassphrase | Integrity | Keystore | SecState | LegacyUnbound | LegacyPlaintextDatabase | DeviceLost

record ArgonParams =
  ap_m :: nat
  ap_t :: nat
  ap_p :: nat

datatype DuressMode = WipeMode | DecoyMode

record Header =
  magic :: bytes
  hd_version :: nat
  argon :: ArgonParams
  salt_primary :: bytes
  salt_duress :: bytes
  nonce_primary :: bytes
  nonce_duress :: bytes
  ct_primary :: bytes
  ct_duress :: bytes
  attempts :: nat
  max_attempts :: nat
  duress_mode :: DuressMode

datatype UnlockOutcome = Primary bytes | Decoy bytes | Wiped

definition MAGIC :: bytes where "MAGIC = ascii ''GIPNY002''"
definition VERSION :: nat where "VERSION = 2"
definition MK_LEN :: nat where "MK_LEN = 32"
definition VAULT_FILE :: bytes where "VAULT_FILE = ascii ''vault.bin''"
definition INFO_KEK :: bytes where "INFO_KEK = ascii ''gipny/kek/v2''"

text \<open>What the vault is given: the crypto crates, Argon2, and \<open>bincode\<close> for a header and for a file.\<close>

record vault_libs =
  vl_crypto :: crypto
  vl_argon :: "ArgonParams \<Rightarrow> bytes \<Rightarrow> bytes \<Rightarrow> bytes option"
  vl_header :: "Header bc"
  vl_file :: "(Header \<times> bytes) bc"

definition derive_kek :: "vault_libs \<Rightarrow> bytes \<Rightarrow> bytes \<Rightarrow> ArgonParams \<Rightarrow> bytes \<Rightarrow> SecurityError + bytes" where
  "derive_kek L pass salt p device =
     (case vl_argon L p pass salt of
        None \<Rightarrow> Inl SecCrypto
      | Some raw \<Rightarrow> Inr (Hkdf (vl_crypto L) device raw INFO_KEK 32))"

definition seal :: "crypto \<Rightarrow> bytes \<Rightarrow> bytes \<Rightarrow> bytes \<Rightarrow> SecurityError + bytes" where
  "seal C key nonce plain =
     (case Aead_encrypt C key nonce [] plain of None \<Rightarrow> Inl SecCrypto | Some ct \<Rightarrow> Inr ct)"

definition open_seal :: "crypto \<Rightarrow> bytes \<Rightarrow> bytes \<Rightarrow> bytes \<Rightarrow> SecurityError + bytes" where
  "open_seal C key nonce ct =
     (case Aead_decrypt C key nonce [] ct of None \<Rightarrow> Inl SecCrypto | Some plain \<Rightarrow> Inr plain)"

definition master_from_slice :: "bytes \<Rightarrow> SecurityError + bytes" where
  "master_from_slice s = (if length s \<noteq> MK_LEN then Inl SecCrypto else Inr s)"

section \<open>The profile on disk\<close>

text \<open>
  A profile is a directory, whose files and directories are a tree, and the secret the operating
  system keeps for it.
\<close>

datatype entry = FileEntry bytes | DirEntry "(bytes \<times> entry) list" | OtherEntry

record profile =
  pf_dir :: "(bytes \<times> entry) list"
  pf_device :: "bytes option"

datatype write_fate = Written | NotWritten | Unsynced

definition device_load :: "profile \<Rightarrow> SecurityError + bytes" where
  "device_load pf = (case pf_device pf of None \<Rightarrow> Inl DeviceLost | Some d \<Rightarrow> Inr d)"

definition hmac_of :: "vault_libs \<Rightarrow> Header \<Rightarrow> bytes \<Rightarrow> bytes" where
  "hmac_of L header device = Hmac (vl_crypto L) device (bc_enc (vl_header L) header)"

definition write_vault_impl ::
  "vault_libs \<Rightarrow> write_fate \<Rightarrow> bool \<Rightarrow> Header \<Rightarrow> bytes \<Rightarrow> profile \<Rightarrow> profile \<times> (SecurityError + unit)" where
  "write_vault_impl L fate create header device pf =
     (let content = bc_enc (vl_file L) (header, hmac_of L header device) in
      if fate = NotWritten \<or> (create \<and> map_of (pf_dir pf) VAULT_FILE \<noteq> None) then (pf, Inl SecIo)
      else (pf\<lparr>pf_dir := AList.update VAULT_FILE (FileEntry content) (pf_dir pf)\<rparr>,
            if fate = Unsynced then Inl SecIo else Inr ()))"

definition write_vault :: "vault_libs \<Rightarrow> write_fate \<Rightarrow> Header \<Rightarrow> bytes \<Rightarrow> profile \<Rightarrow> profile \<times> (SecurityError + unit)" where
  "write_vault L fate header device pf = write_vault_impl L fate False header device pf"

fun constant_loop :: "u8 \<Rightarrow> bytes \<Rightarrow> bytes \<Rightarrow> u8" where
  "constant_loop r (x # xs) (y # ys) = constant_loop (or r (xor x y)) xs ys"
| "constant_loop r _ _ = r"

definition constant_eq :: "bytes \<Rightarrow> bytes \<Rightarrow> bool" where
  "constant_eq a b = (if length a \<noteq> length b then False else constant_loop 0 a b = 0)"

definition read_vault :: "vault_libs \<Rightarrow> bytes \<Rightarrow> profile \<Rightarrow> SecurityError + Header" where
  "read_vault L device pf =
     (case map_of (pf_dir pf) VAULT_FILE of
        Some (FileEntry content) \<Rightarrow>
          let buf = take 65537 content in
          if length buf > 65536 then Inl Integrity
          else (case bc_dec (vl_file L) buf of
            Some ((header, mac), []) \<Rightarrow>
              if magic header = ascii ''GIPNY001'' \<or> hd_version header = 1 then Inl LegacyUnbound
              else if magic header \<noteq> MAGIC \<or> hd_version header \<noteq> VERSION then Inl Integrity
              else if \<not> constant_eq (hmac_of L header device) mac then Inl Integrity
              else Inr header
          | _ \<Rightarrow> Inl SecCodec)
      | _ \<Rightarrow> Inl SecIo)"

section \<open>Wiping\<close>

text \<open>
  How the steps of a wipe end, by path: how many entries a directory lists before listing fails, how
  many bytes of a file are overwritten before that fails (all of them: syncing it fails), and whether removing succeeds.
\<close>

record wipe_fate =
  wf_listed :: "bytes list \<Rightarrow> nat option"
  wf_overwritten :: "bytes list \<Rightarrow> nat option"
  wf_removed :: "bytes list \<Rightarrow> bool"
  wf_destroyed :: bool

text \<open>Writing at the position the file is at.\<close>

definition write_at :: "nat \<Rightarrow> bytes \<Rightarrow> bytes \<Rightarrow> bytes" where
  "write_at pos b content = take pos content @ b @ drop (pos + length b) content"

text \<open>
  The loop of \<open>overwrite_file\<close>: zeros, at most a mebibyte at a time. When writing stops after \<open>k\<close> bytes, the
  write that reaches beyond them fails.
\<close>

function overwrite_loop :: "nat option \<Rightarrow> nat \<Rightarrow> nat \<Rightarrow> bytes \<Rightarrow> bytes \<times> (SecurityError + unit)" where
  "overwrite_loop stopped len written content =
     (if written < len then
        (let n = min (len - written) (min len (2 ^ 20)) in
         case stopped of
           None \<Rightarrow> overwrite_loop stopped len (written + n) (write_at written (replicate n 0) content)
         | Some k \<Rightarrow>
             if k < written + n then (write_at written (replicate (k - written) 0) content, Inl SecIo)
             else overwrite_loop stopped len (written + n) (write_at written (replicate n 0) content))
      else (content, case stopped of None \<Rightarrow> Inr () | Some _ \<Rightarrow> Inl SecIo))"
  by pat_completeness auto
termination
  by (relation "measure (\<lambda>(stopped, len, written, content). len - written)") auto

declare overwrite_loop.simps [simp del]

definition overwrite_file :: "nat option \<Rightarrow> bytes \<Rightarrow> bytes \<times> (SecurityError + unit)" where
  "overwrite_file stopped content =
     (let len = length content in if len = 0 then (content, Inr ()) else overwrite_loop stopped len 0 content)"

fun wipe_entry :: "wipe_fate \<Rightarrow> bytes list \<Rightarrow> entry \<Rightarrow> entry option"
  and wipe_entries :: "wipe_fate \<Rightarrow> bytes list \<Rightarrow> nat \<Rightarrow> (bytes \<times> entry) list \<Rightarrow> (bytes \<times> entry) list" where
  "wipe_entry F path (FileEntry content) =
     (if wf_removed F path then None else Some (FileEntry (fst (overwrite_file (wf_overwritten F path) content))))"
| "wipe_entry F path (DirEntry es) =
     (let es' = wipe_entries F path 0 es in
      if wf_removed F path \<and> es' = [] then None else Some (DirEntry es'))"
| "wipe_entry F path OtherEntry = Some OtherEntry"
| "wipe_entries F path i [] = []"
| "wipe_entries F path i ((name, e) # es) =
     (if wf_listed F path = Some i then (name, e) # es
      else (case wipe_entry F (path @ [name]) e of
              None \<Rightarrow> wipe_entries F path (Suc i) es
            | Some e' \<Rightarrow> (name, e') # wipe_entries F path (Suc i) es))"

definition secure_wipe_dir :: "wipe_fate \<Rightarrow> (bytes \<times> entry) list \<Rightarrow> (bytes \<times> entry) list \<times> (SecurityError + unit)" where
  "secure_wipe_dir F es =
     (wipe_entries F [] 0 es,
      case wf_listed F [] of None \<Rightarrow> Inr () | Some k \<Rightarrow> if k < length es \<or> k = 0 then Inl SecIo else Inr ())"

definition wipe_locked :: "wipe_fate \<Rightarrow> profile \<Rightarrow> profile \<times> (SecurityError + unit)" where
  "wipe_locked F pf =
     (if \<not> wf_destroyed F then (pf, Inl DeviceLost)
      else case secure_wipe_dir F (pf_dir pf) of
        (es, r) \<Rightarrow> (pf\<lparr>pf_dir := es, pf_device := None\<rparr>, r))"

section \<open>Operations\<close>

record fates =
  ft_write :: "nat \<Rightarrow> write_fate"
  ft_wipe :: wipe_fate

definition vault_open :: "vault_libs \<Rightarrow> profile \<Rightarrow> SecurityError + Header" where
  "vault_open L pf = (case device_load pf of Inl e \<Rightarrow> Inl e | Inr device \<Rightarrow> read_vault L device pf)"

text \<open>What was drawn: salts, nonces, the keys, and the secret of the device where enrolling succeeds.\<close>

record vault_draws =
  dr_salt :: bytes
  dr_nonce :: bytes
  dr_key :: bytes
  dr_salt2 :: bytes
  dr_nonce2 :: bytes
  dr_key2 :: bytes
  dr_device :: "bytes option"

definition seal_key :: "vault_libs \<Rightarrow> bytes \<Rightarrow> bytes \<Rightarrow> bytes \<Rightarrow> ArgonParams \<Rightarrow> bytes \<Rightarrow> bytes \<Rightarrow> SecurityError + bytes" where
  "seal_key L pass salt nonce p device key =
     (case derive_kek L pass salt p device of Inl e \<Rightarrow> Inl e | Inr kek \<Rightarrow> seal (vl_crypto L) kek nonce key)"

definition create_with_params ::
  "vault_libs \<Rightarrow> fates \<Rightarrow> vault_draws \<Rightarrow> bytes \<Rightarrow> bytes option \<Rightarrow> DuressMode \<Rightarrow> nat \<Rightarrow> ArgonParams \<Rightarrow> profile
   \<Rightarrow> profile \<times> (SecurityError + Header)" where
  "create_with_params L F dr pass duress_pass mode max_att p pf =
     (if pass = [] then (pf, Inl InvalidPassphrase)
      else if map_of (pf_dir pf) VAULT_FILE \<noteq> None then (pf, Inl SecState)
      else case dr_device dr of
        None \<Rightarrow> (pf, Inl DeviceLost)
      | Some device \<Rightarrow>
        let pf = pf\<lparr>pf_device := Some device\<rparr> in
        case seal_key L pass (dr_salt dr) (dr_nonce dr) p device (dr_key dr) of
          Inl e \<Rightarrow> (pf, Inl e)
        | Inr ct_p \<Rightarrow>
            (case (case duress_pass of
                     Some dp \<Rightarrow>
                       if dp \<noteq> [] \<and> dp \<noteq> pass
                       then seal_key L dp (dr_salt2 dr) (dr_nonce2 dr) p device (dr_key2 dr)
                       else Inr []
                   | None \<Rightarrow> Inr []) of
               Inl e \<Rightarrow> (pf, Inl e)
             | Inr ct_d \<Rightarrow>
                 let header = \<lparr>magic = MAGIC, hd_version = VERSION, argon = p,
                               salt_primary = dr_salt dr, salt_duress = dr_salt2 dr,
                               nonce_primary = dr_nonce dr, nonce_duress = dr_nonce2 dr,
                               ct_primary = ct_p, ct_duress = ct_d,
                               attempts = 0, max_attempts = max_att, duress_mode = mode\<rparr> in
                 (case write_vault_impl L (ft_write F 0) True header device pf of
                    (pf, Inl e) \<Rightarrow> (pf, Inl e)
                  | (pf, Inr _) \<Rightarrow> (pf, Inr header))))"

definition finish_key :: "(bytes \<Rightarrow> UnlockOutcome) \<Rightarrow> Header \<Rightarrow> bytes \<Rightarrow> SecurityError + UnlockOutcome \<times> Header" where
  "finish_key out header mk =
     (case master_from_slice mk of Inl e \<Rightarrow> Inl e | Inr k \<Rightarrow> Inr (out k, header))"

definition unlock_failed ::
  "vault_libs \<Rightarrow> fates \<Rightarrow> bytes \<Rightarrow> Header \<Rightarrow> profile \<Rightarrow> profile \<times> (SecurityError + UnlockOutcome \<times> Header)" where
  "unlock_failed L F device h pf =
     (let h = h\<lparr>attempts := min (attempts h + 1) (2 ^ 32 - 1)\<rparr>;
          over = max_attempts h > 0 \<and> attempts h \<ge> max_attempts h in
      case write_vault L (ft_write F 0) h device pf of
        (pf, Inl e) \<Rightarrow> (pf, Inl e)
      | (pf, Inr _) \<Rightarrow>
          if over then
            (case wipe_locked (ft_wipe F) pf of (pf, Inl e) \<Rightarrow> (pf, Inl e) | (pf, Inr _) \<Rightarrow> (pf, Inr (Wiped, h)))
          else (pf, Inl InvalidPassphrase))"

definition unlock_duress ::
  "vault_libs \<Rightarrow> fates \<Rightarrow> bytes \<Rightarrow> Header \<Rightarrow> bytes \<Rightarrow> profile \<Rightarrow> profile \<times> (SecurityError + UnlockOutcome \<times> Header)" where
  "unlock_duress L F device h mk pf =
     (let h = h\<lparr>attempts := 0\<rparr> in
      case write_vault L (ft_write F 0) h device pf of
        (pf, Inl e) \<Rightarrow> (pf, Inl e)
      | (pf, Inr _) \<Rightarrow>
          (case duress_mode h of
             DecoyMode \<Rightarrow> (pf, finish_key Decoy h mk)
           | WipeMode \<Rightarrow>
               (case wipe_locked (ft_wipe F) pf of (pf, Inl e) \<Rightarrow> (pf, Inl e) | (pf, Inr _) \<Rightarrow> (pf, Inr (Wiped, h)))))"

definition unlock_locked ::
  "vault_libs \<Rightarrow> fates \<Rightarrow> bytes \<Rightarrow> profile \<Rightarrow> profile \<times> (SecurityError + UnlockOutcome \<times> Header)" where
  "unlock_locked L F pass pf =
     (case device_load pf of
        Inl e \<Rightarrow> (pf, Inl e)
      | Inr device \<Rightarrow>
          (case read_vault L device pf of
             Inl e \<Rightarrow> (pf, Inl e)
           | Inr h \<Rightarrow>
               (case derive_kek L pass (salt_primary h) (argon h) device of
                  Inl e \<Rightarrow> (pf, Inl e)
                | Inr kek \<Rightarrow>
                    (case open_seal (vl_crypto L) kek (nonce_primary h) (ct_primary h) of
                       Inr mk \<Rightarrow>
                         let h = h\<lparr>attempts := 0\<rparr> in
                         (case write_vault L (ft_write F 0) h device pf of
                            (pf, Inl e) \<Rightarrow> (pf, Inl e)
                          | (pf, Inr _) \<Rightarrow> (pf, finish_key Primary h mk))
                     | Inl _ \<Rightarrow>
                         if ct_duress h = [] then unlock_failed L F device h pf
                         else (case derive_kek L pass (salt_duress h) (argon h) device of
                           Inl e \<Rightarrow> (pf, Inl e)
                         | Inr kek \<Rightarrow>
                             (case open_seal (vl_crypto L) kek (nonce_duress h) (ct_duress h) of
                                Inr mk \<Rightarrow> unlock_duress L F device h mk pf
                              | Inl _ \<Rightarrow> unlock_failed L F device h pf))))))"

definition unlock :: "vault_libs \<Rightarrow> fates \<Rightarrow> bytes \<Rightarrow> profile \<Rightarrow> profile \<times> (SecurityError + UnlockOutcome)" where
  "unlock L F pass pf =
     (case unlock_locked L F pass pf of (pf, Inl e) \<Rightarrow> (pf, Inl e) | (pf, Inr (out, _)) \<Rightarrow> (pf, Inr out))"

text \<open>The operations that begin with the passphrase go on only from the primary key.\<close>

definition with_primary ::
  "vault_libs \<Rightarrow> fates \<Rightarrow> bytes \<Rightarrow> (bytes \<Rightarrow> Header \<Rightarrow> bytes \<Rightarrow> profile \<Rightarrow> profile \<times> (SecurityError + unit)) \<Rightarrow> profile
   \<Rightarrow> profile \<times> (SecurityError + unit)" where
  "with_primary L F pass body pf =
     (case unlock_locked L F pass pf of
        (pf, Inl e) \<Rightarrow> (pf, Inl e)
      | (pf, Inr (Primary mk, h)) \<Rightarrow>
          (case device_load pf of Inl e \<Rightarrow> (pf, Inl e) | Inr device \<Rightarrow> body mk h device pf)
      | (pf, Inr _) \<Rightarrow> (pf, Inl InvalidPassphrase))"

definition change_passphrase ::
  "vault_libs \<Rightarrow> fates \<Rightarrow> vault_draws \<Rightarrow> bytes \<Rightarrow> bytes \<Rightarrow> profile \<Rightarrow> profile \<times> (SecurityError + unit)" where
  "change_passphrase L F dr old new pf =
     (if new = [] then (pf, Inl InvalidPassphrase)
      else with_primary L F old (\<lambda>mk h device pf.
        case seal_key L new (dr_salt dr) (dr_nonce dr) (argon h) device mk of
          Inl e \<Rightarrow> (pf, Inl e)
        | Inr ct \<Rightarrow>
            write_vault L (ft_write F 1)
              (h\<lparr>salt_primary := dr_salt dr, nonce_primary := dr_nonce dr, ct_primary := ct\<rparr>) device pf) pf)"

definition set_duress ::
  "vault_libs \<Rightarrow> fates \<Rightarrow> vault_draws \<Rightarrow> bytes \<Rightarrow> bytes option \<Rightarrow> DuressMode \<Rightarrow> profile \<Rightarrow> profile \<times> (SecurityError + unit)" where
  "set_duress L F dr pass duress_pass mode pf =
     with_primary L F pass (\<lambda>mk h device pf.
       let h = h\<lparr>duress_mode := mode\<rparr> in
       case duress_pass of
         Some dp \<Rightarrow>
           if dp \<noteq> [] \<and> dp \<noteq> pass then
             (case seal_key L dp (dr_salt dr) (dr_nonce dr) (argon h) device (dr_key dr) of
                Inl e \<Rightarrow> (pf, Inl e)
              | Inr ct \<Rightarrow>
                  write_vault L (ft_write F 1)
                    (h\<lparr>salt_duress := dr_salt dr, nonce_duress := dr_nonce dr, ct_duress := ct\<rparr>) device pf)
           else (pf, Inl InvalidPassphrase)
       | None \<Rightarrow> write_vault L (ft_write F 1) (h\<lparr>ct_duress := []\<rparr>) device pf) pf"

definition set_max_attempts ::
  "vault_libs \<Rightarrow> fates \<Rightarrow> bytes \<Rightarrow> nat \<Rightarrow> profile \<Rightarrow> profile \<times> (SecurityError + unit)" where
  "set_max_attempts L F pass n pf =
     with_primary L F pass (\<lambda>mk h device pf. write_vault L (ft_write F 1) (h\<lparr>max_attempts := n\<rparr>) device pf) pf"

definition wipe_all :: "fates \<Rightarrow> profile \<Rightarrow> profile \<times> (SecurityError + unit)" where
  "wipe_all F pf = wipe_locked (ft_wipe F) pf"

section \<open>Backups\<close>

definition BACKUP_MAGIC :: bytes where "BACKUP_MAGIC = ascii ''GIPNYBAK''"
definition BACKUP_VERSION :: u8 where "BACKUP_VERSION = 1"
definition BACKUP_VERSION_3FACTOR :: u8 where "BACKUP_VERSION_3FACTOR = 3"
definition BACKUP_MIN_MEMORY_KIB :: nat where "BACKUP_MIN_MEMORY_KIB = 8 * 1024"
definition BACKUP_MAX_MEMORY_KIB :: nat where "BACKUP_MAX_MEMORY_KIB = 262144"

definition validate_backup_memory :: "nat \<Rightarrow> SecurityError + unit" where
  "validate_backup_memory m =
     (if \<not> (BACKUP_MIN_MEMORY_KIB \<le> m \<and> m \<le> BACKUP_MAX_MEMORY_KIB) then Inl SecCrypto else Inr ())"

definition backup_key :: "vault_libs \<Rightarrow> bytes \<Rightarrow> bytes \<Rightarrow> nat \<Rightarrow> SecurityError + bytes" where
  "backup_key L pass salt m =
     (case vl_argon L \<lparr>ap_m = m, ap_t = 3, ap_p = 1\<rparr> pass salt of None \<Rightarrow> Inl SecCrypto | Some k \<Rightarrow> Inr k)"

definition backup_blob :: "u8 \<Rightarrow> u32 \<Rightarrow> bytes \<Rightarrow> bytes \<Rightarrow> bytes \<Rightarrow> bytes" where
  "backup_blob ver m salt nonce ct = BACKUP_MAGIC @ [ver] @ u32_to_be_bytes m @ salt @ nonce @ ct"

definition backup_seal :: "vault_libs \<Rightarrow> bytes \<Rightarrow> bytes \<Rightarrow> bytes \<Rightarrow> bytes \<Rightarrow> SecurityError + bytes" where
  "backup_seal L salt nonce pass plain =
     (case backup_key L pass salt 65536 of
        Inl e \<Rightarrow> Inl e
      | Inr key \<Rightarrow>
          (case seal (vl_crypto L) key nonce plain of
             Inl e \<Rightarrow> Inl e
           | Inr ct \<Rightarrow> Inr (backup_blob BACKUP_VERSION 65536 salt nonce ct)))"

definition blob_ok :: "u8 \<Rightarrow> bytes \<Rightarrow> bool" where
  "blob_ok ver blob \<longleftrightarrow> \<not> length blob < 8 + 1 + 4 + 32 + 24 + 16 \<and> take 8 blob = BACKUP_MAGIC \<and> blob ! 8 = ver"

definition backup_open :: "vault_libs \<Rightarrow> bytes \<Rightarrow> bytes \<Rightarrow> SecurityError + bytes" where
  "backup_open L pass blob =
     (if \<not> blob_ok BACKUP_VERSION blob then Inl SecCrypto
      else
        let m = of_be_bytes (take 4 (drop 9 blob)) in
        case validate_backup_memory m of
          Inl e \<Rightarrow> Inl e
        | Inr _ \<Rightarrow>
            (case backup_key L pass (take 32 (drop 13 blob)) m of
               Inl e \<Rightarrow> Inl e
             | Inr key \<Rightarrow> open_seal (vl_crypto L) key (take 24 (drop 45 blob)) (drop 69 blob)))"

definition derive_3factor_key :: "vault_libs \<Rightarrow> bytes \<Rightarrow> bytes \<Rightarrow> bytes \<Rightarrow> bytes \<Rightarrow> nat \<Rightarrow> SecurityError + bytes" where
  "derive_3factor_key L pass server_key client_secret salt m =
     (case validate_backup_memory m of
        Inl e \<Rightarrow> Inl e
      | Inr _ \<Rightarrow>
          (case backup_key L pass salt m of
             Inl e \<Rightarrow> Inl e
           | Inr k_pass \<Rightarrow> Inr (Hkdf (vl_crypto L) server_key (k_pass @ client_secret) (ascii ''gipny/backup/3factor/v1'') 32)))"

definition backup_seal_3factor ::
  "vault_libs \<Rightarrow> bytes \<Rightarrow> bytes \<Rightarrow> bytes \<Rightarrow> bytes \<Rightarrow> bytes \<Rightarrow> bytes \<Rightarrow> SecurityError + bytes" where
  "backup_seal_3factor L salt nonce pass server_key client_secret plain =
     (case derive_3factor_key L pass server_key client_secret salt 65536 of
        Inl e \<Rightarrow> Inl e
      | Inr key \<Rightarrow>
          (case seal (vl_crypto L) key nonce plain of
             Inl e \<Rightarrow> Inl e
           | Inr ct \<Rightarrow> Inr (backup_blob BACKUP_VERSION_3FACTOR 65536 salt nonce ct)))"

definition backup_open_3factor :: "vault_libs \<Rightarrow> bytes \<Rightarrow> bytes \<Rightarrow> bytes \<Rightarrow> bytes \<Rightarrow> SecurityError + bytes" where
  "backup_open_3factor L pass server_key client_secret blob =
     (if \<not> blob_ok BACKUP_VERSION_3FACTOR blob then Inl SecCrypto
      else case derive_3factor_key L pass server_key client_secret (take 32 (drop 13 blob)) (of_be_bytes (take 4 (drop 9 blob))) of
        Inl e \<Rightarrow> Inl e
      | Inr key \<Rightarrow> open_seal (vl_crypto L) key (take 24 (drop 45 blob)) (drop 69 blob))"

section \<open>Keys outside the vault\<close>

definition hex_encode :: "bytes \<Rightarrow> bytes" where
  "hex_encode b = concat (map hex_02 b)"

definition hex_value :: "u8 \<Rightarrow> u8 option" where
  "hex_value c =
     (if 0x30 \<le> c \<and> c \<le> 0x39 then Some (c - 0x30)
      else if 0x61 \<le> c \<and> c \<le> 0x66 then Some (c - 0x61 + 10)
      else if 0x41 \<le> c \<and> c \<le> 0x46 then Some (c - 0x41 + 10)
      else None)"

fun hex_pairs :: "bytes \<Rightarrow> bytes option" where
  "hex_pairs (a # b # rest) =
     (case hex_value a of
        None \<Rightarrow> None
      | Some x \<Rightarrow>
          (case hex_value b of
             None \<Rightarrow> None
           | Some y \<Rightarrow> map_option (\<lambda>out. or (push_bit 4 x) y # out) (hex_pairs rest)))"
| "hex_pairs _ = Some []"

definition hex_decode :: "bytes \<Rightarrow> bytes option" where
  "hex_decode s = (if length s mod 2 \<noteq> 0 then None else hex_pairs s)"

definition SERVER_KEY_FILE :: bytes where "SERVER_KEY_FILE = ascii ''server.key''"
definition SERVER_KEY_TMP :: bytes where "SERVER_KEY_TMP = ascii ''server.tmp''"

text \<open>
  How creating the key's file ends: the directory or the temporary file cannot be opened, so many
  bytes are written and then writing or syncing fails, the rename fails, or all succeeds.
\<close>

datatype key_fate = KeyUnopened | KeyStopped nat | KeyUnrenamed | KeyKept

definition server_ensure :: "key_fate \<Rightarrow> bytes \<Rightarrow> (bytes \<times> entry) list \<Rightarrow> (bytes \<times> entry) list \<times> (SecurityError + bytes)" where
  "server_ensure fate drawn dir =
     (case map_of dir SERVER_KEY_FILE of
        Some (FileEntry s) \<Rightarrow>
          (dir,
           if \<not> utf8_valid s then Inl SecIo
           else case hex_decode (trim s) of
             None \<Rightarrow> Inl Keystore
           | Some k \<Rightarrow> if length k = 32 then Inr k else Inl Keystore)
      | Some _ \<Rightarrow> (dir, Inl SecIo)
      | None \<Rightarrow>
          (case fate of
             KeyUnopened \<Rightarrow> (dir, Inl SecIo)
           | KeyStopped n \<Rightarrow> (AList.update SERVER_KEY_TMP (FileEntry (take n (hex_encode drawn))) dir, Inl SecIo)
           | KeyUnrenamed \<Rightarrow> (AList.update SERVER_KEY_TMP (FileEntry (hex_encode drawn)) dir, Inl SecIo)
           | KeyKept \<Rightarrow>
               (AList.update SERVER_KEY_FILE (FileEntry (hex_encode drawn)) (AList.delete SERVER_KEY_TMP dir), Inr drawn)))"

text \<open>
  The database of an unattended program, whose key comes from the secret of the device. \<open>inside\<close> is
  that the path is in the profile, \<open>enrolled\<close> what enrolling the device gives, and \<open>db_open\<close> opens the
  database of a name with a key.
\<close>

definition open_device_bound_database ::
  "crypto \<Rightarrow> (bytes \<Rightarrow> bytes \<Rightarrow> SecurityError + 'd) \<Rightarrow> bytes option \<Rightarrow> bool \<Rightarrow> bytes \<Rightarrow> profile \<Rightarrow> profile \<times> (SecurityError + 'd)" where
  "open_device_bound_database C db_open enrolled inside name pf =
     (if \<not> inside then (pf, Inl SecState)
      else
        let keyed = (\<lambda>pf device.
              (pf, if \<not> utf8_valid name then Inl SecState
                   else case master_from_slice (Hkdf C (ascii ''gipny/headless-database/v2'') device name 32) of
                     Inl e \<Rightarrow> Inl e
                   | Inr k \<Rightarrow> db_open name k)) in
        case map_of (pf_dir pf) name of
          Some (FileEntry content) \<Rightarrow>
            if take 16 content = ascii ''SQLite format 3'' @ [0] then (pf, Inl LegacyPlaintextDatabase)
            else (case device_load pf of Inl e \<Rightarrow> (pf, Inl e) | Inr device \<Rightarrow> keyed pf device)
        | Some _ \<Rightarrow> (pf, Inl SecIo)
        | None \<Rightarrow>
            (case enrolled of
               None \<Rightarrow> (pf, Inl DeviceLost)
             | Some device \<Rightarrow> keyed (pf\<lparr>pf_device := Some device\<rparr>) device))"

end
