(* ===== verification/Vault_Props.thy ===== *)
theory Vault_Props
  imports Vault
begin

text \<open>
  The vault against a specification that knows nothing of ciphertexts: a passphrase, a key, a second
  passphrase with its key or wipe, a count and its limit. The ciphertexts of the header stand for
  these as long as a key derived from one passphrase of a set does not open what one derived from
  another sealed.
\<close>

section \<open>The specification\<close>

record avault =
  av_pass :: bytes
  av_key :: bytes
  av_duress :: "(bytes \<times> bytes) option"
  av_mode :: DuressMode
  av_attempts :: nat
  av_max :: nat

definition spec_failed :: "avault \<Rightarrow> avault option \<times> (SecurityError + UnlockOutcome)" where
  "spec_failed v =
     (let a = min (av_attempts v + 1) (2 ^ 32 - 1) in
      if av_max v > 0 \<and> a \<ge> av_max v then (None, Inr Wiped)
      else (Some (v\<lparr>av_attempts := a\<rparr>), Inl InvalidPassphrase))"

definition spec_unlock :: "avault \<Rightarrow> bytes \<Rightarrow> avault option \<times> (SecurityError + UnlockOutcome)" where
  "spec_unlock v p =
     (if p = av_pass v then (Some (v\<lparr>av_attempts := 0\<rparr>), Inr (Primary (av_key v)))
      else case av_duress v of
        None \<Rightarrow> spec_failed v
      | Some (d, k) \<Rightarrow>
          if p = d then
            (case av_mode v of DecoyMode \<Rightarrow> (Some (v\<lparr>av_attempts := 0\<rparr>), Inr (Decoy k)) | WipeMode \<Rightarrow> (None, Inr Wiped))
          else spec_failed v)"

text \<open>An operation with the passphrases and what is drawn for it, and the answer to it.\<close>

datatype vault_op =
    Unlock bytes
  | Change vault_draws bytes bytes
  | Duress vault_draws bytes "bytes option" DuressMode
  | MaxTries bytes nat

datatype answer = Key UnlockOutcome | Done | Refused SecurityError

definition spec_primary :: "avault \<Rightarrow> bytes \<Rightarrow> (avault \<Rightarrow> avault \<times> answer) \<Rightarrow> avault option \<times> answer" where
  "spec_primary v p f =
     (case spec_unlock v p of
        (Some v', Inr (Primary _)) \<Rightarrow> (case f v' of (v'', a) \<Rightarrow> (Some v'', a))
      | (v', Inl e) \<Rightarrow> (v', Refused e)
      | (v', Inr _) \<Rightarrow> (v', Refused InvalidPassphrase))"

fun spec_step :: "vault_op \<Rightarrow> avault option \<Rightarrow> avault option \<times> answer" where
  "spec_step (Change dr old new) av =
     (if new = [] then (av, Refused InvalidPassphrase)
      else case av of
        None \<Rightarrow> (None, Refused DeviceLost)
      | Some v \<Rightarrow> spec_primary v old (\<lambda>v. (v\<lparr>av_pass := new\<rparr>, Done)))"
| "spec_step op None = (None, Refused DeviceLost)"
| "spec_step (Unlock p) (Some v) =
     (case spec_unlock v p of (v', Inl e) \<Rightarrow> (v', Refused e) | (v', Inr out) \<Rightarrow> (v', Key out))"
| "spec_step (Duress dr p d mode) (Some v) =
     spec_primary v p (\<lambda>v.
       case d of
         None \<Rightarrow> (v\<lparr>av_mode := mode, av_duress := None\<rparr>, Done)
       | Some dp \<Rightarrow>
           if dp \<noteq> [] \<and> dp \<noteq> p then (v\<lparr>av_mode := mode, av_duress := Some (dp, dr_key dr)\<rparr>, Done)
           else (v, Refused InvalidPassphrase))"
| "spec_step (MaxTries p n) (Some v) = spec_primary v p (\<lambda>v. (v\<lparr>av_max := n\<rparr>, Done))"

text \<open>The operations of the vault in the same form.\<close>

definition answer_of :: "SecurityError + unit \<Rightarrow> answer" where
  "answer_of r = (case r of Inl e \<Rightarrow> Refused e | Inr _ \<Rightarrow> Done)"

fun vault_step :: "vault_libs \<Rightarrow> fates \<Rightarrow> vault_op \<Rightarrow> profile \<Rightarrow> profile \<times> answer" where
  "vault_step L F (Unlock p) pf =
     (case unlock L F p pf of (pf', Inl e) \<Rightarrow> (pf', Refused e) | (pf', Inr out) \<Rightarrow> (pf', Key out))"
| "vault_step L F (Change dr old new) pf = (case change_passphrase L F dr old new pf of (pf', r) \<Rightarrow> (pf', answer_of r))"
| "vault_step L F (Duress dr p d mode) pf = (case set_duress L F dr p d mode pf of (pf', r) \<Rightarrow> (pf', answer_of r))"
| "vault_step L F (MaxTries p n) pf = (case set_max_attempts L F p n pf of (pf', r) \<Rightarrow> (pf', answer_of r))"

fun vault_runs :: "(vault_op \<Rightarrow> 's \<Rightarrow> 's \<times> answer) \<Rightarrow> vault_op list \<Rightarrow> 's \<Rightarrow> 's \<times> answer list" where
  "vault_runs step [] s = (s, [])"
| "vault_runs step (op # ops) s =
     (case step op s of (s', a) \<Rightarrow> case vault_runs step ops s' of (s'', as) \<Rightarrow> (s'', a # as))"

section \<open>What is relied on\<close>

text \<open>The parameters Argon2 accepts: at least one pass and one lane, and eight blocks of memory for each lane.\<close>

definition argon_fits :: "ArgonParams \<Rightarrow> bool" where
  "argon_fits p \<longleftrightarrow> 1 \<le> ap_t p \<and> ap_t p < 2 ^ 32 \<and> 1 \<le> ap_p p \<and> ap_p p < 2 ^ 24 \<and> 8 * ap_p p \<le> ap_m p \<and> ap_m p < 2 ^ 32"

definition header_fits :: "Header \<Rightarrow> bool" where
  "header_fits h \<longleftrightarrow>
     magic h = MAGIC \<and> hd_version h = VERSION \<and> length (salt_primary h) = 32 \<and> length (salt_duress h) = 32 \<and>
     length (nonce_primary h) = 24 \<and> length (nonce_duress h) = 24 \<and> length (ct_primary h) \<le> 48 \<and> length (ct_duress h) \<le> 48 \<and>
     attempts h < 2 ^ 32 \<and> max_attempts h < 2 ^ 32 \<and> argon_fits (argon h)"

text \<open>
  A file that fits is read back whole and is within the limit of the reader; encrypting succeeds; the
  passphrases of \<open>P\<close> can be stretched with parameters Argon2 accepts and a salt of 32 bytes, and what is sealed under one of them does not open under another.
\<close>

definition codec_law :: "vault_libs \<Rightarrow> bool" where
  "codec_law L \<longleftrightarrow>
     (\<forall>h mac. header_fits h \<and> length mac = 32 \<longrightarrow>
        bc_dec (vl_file L) (bc_enc (vl_file L) (h, mac)) = Some ((h, mac), []) \<and>
        length (bc_enc (vl_file L) (h, mac)) \<le> 65536)"

definition passes_apart :: "vault_libs \<Rightarrow> bytes set \<Rightarrow> bool" where
  "passes_apart L P \<longleftrightarrow>
     (\<forall>p \<in> P. \<forall>q \<in> P. \<forall>ap salt device kp kq nonce m c.
        p \<noteq> q \<and> argon_fits ap \<and> length salt = 32 \<and> derive_kek L p salt ap device = Inr kp \<and> derive_kek L q salt ap device = Inr kq \<and>
        Aead_encrypt (vl_crypto L) kp nonce [] m = Some c \<longrightarrow> Aead_decrypt (vl_crypto L) kq nonce [] c = None)"

lemma passes_apartD:
  assumes "passes_apart L P" "p \<in> P" "q \<in> P" "p \<noteq> q" "argon_fits ap" "length salt = 32" "derive_kek L p salt ap device = Inr kp"
    "derive_kek L q salt ap device = Inr kq" "Aead_encrypt (vl_crypto L) kp nonce [] m = Some c"
  shows "Aead_decrypt (vl_crypto L) kq nonce [] c = None"
  using assms unfolding passes_apart_def by metis

definition vault_laws :: "vault_libs \<Rightarrow> bytes set \<Rightarrow> bool" where
  "vault_laws L P \<longleftrightarrow>
     aead_correct (vl_crypto L) \<and> aead_overhead (vl_crypto L) \<and> (\<forall>k n m. Aead_encrypt (vl_crypto L) k n [] m \<noteq> None) \<and>
     (\<forall>k m. length (Hmac (vl_crypto L) k m) = 32) \<and> codec_law L \<and>
     (\<forall>p \<in> P. \<forall>ap salt. argon_fits ap \<and> length salt = 32 \<longrightarrow> vl_argon L ap p salt \<noteq> None) \<and> passes_apart L P"

lemma constant_loop_zero: "length a = length b \<Longrightarrow> constant_loop r a b = 0 \<longleftrightarrow> r = 0 \<and> a = b"
proof (induction r a b rule: constant_loop.induct)
  case (1 r x xs y ys)
  have "or r (xor x y) = 0 \<longleftrightarrow> r = 0 \<and> x = y" by (metis or_eq_0_iff xor_self_eq bit.xor_left_self xor.right_neutral)
  then show ?case using 1 by auto
qed auto

lemma constant_eq_iff: "constant_eq a b \<longleftrightarrow> a = b"
  using constant_loop_zero [of a b 0] by (auto simp: constant_eq_def)

lemma read_written:
  assumes "vault_laws L P" and "header_fits h"
  shows "read_vault L device (pf\<lparr>pf_dir := AList.update VAULT_FILE (FileEntry (bc_enc (vl_file L) (h, hmac_of L h device))) (pf_dir pf)\<rparr>) = Inr h"
proof -
  let ?c = "bc_enc (vl_file L) (h, hmac_of L h device)"
  have "length (hmac_of L h device) = 32" using assms(1) by (simp add: vault_laws_def hmac_of_def)
  then have c: "bc_dec (vl_file L) ?c = Some ((h, hmac_of L h device), [])" "length ?c \<le> 65536"
    using assms by (auto simp: vault_laws_def codec_law_def)
  have "MAGIC \<noteq> ascii ''GIPNY001''" by code_simp
  then show ?thesis using c assms(2)
    by (simp add: read_vault_def update_conv constant_eq_iff header_fits_def VERSION_def)
qed

lemma write_vault_good:
  assumes "vault_laws L P" and "header_fits h" and "write_vault L Written h device pf = (pf', r)"
  shows "r = Inr ()" "pf_device pf' = pf_device pf" "read_vault L device pf' = Inr h"
  using assms(3) read_written [OF assms(1,2), of device pf] by (auto simp: write_vault_def write_vault_impl_def Let_def)

section \<open>The relation\<close>

definition opens :: "vault_libs \<Rightarrow> bytes \<Rightarrow> ArgonParams \<Rightarrow> bytes \<Rightarrow> bytes \<Rightarrow> bytes \<Rightarrow> bytes \<Rightarrow> bytes option" where
  "opens L device ap salt nonce ct p =
     (case derive_kek L p salt ap device of Inl _ \<Rightarrow> None | Inr kek \<Rightarrow> Aead_decrypt (vl_crypto L) kek nonce [] ct)"

text \<open>\<open>ct\<close> gives \<open>key\<close> to \<open>pass\<close> and nothing to any other passphrase of \<open>P\<close>.\<close>

definition sealed_for :: "vault_libs \<Rightarrow> bytes set \<Rightarrow> bytes \<Rightarrow> ArgonParams \<Rightarrow> bytes \<Rightarrow> bytes \<Rightarrow> bytes \<Rightarrow> bytes \<Rightarrow> bytes \<Rightarrow> bool" where
  "sealed_for L P device ap salt nonce ct pass key \<longleftrightarrow>
     length key = MK_LEN \<and> (\<forall>p \<in> P. opens L device ap salt nonce ct p = (if p = pass then Some key else None))"

definition header_rel :: "vault_libs \<Rightarrow> bytes set \<Rightarrow> bytes \<Rightarrow> Header \<Rightarrow> avault \<Rightarrow> bool" where
  "header_rel L P device h v \<longleftrightarrow>
     header_fits h \<and> attempts h = av_attempts v \<and> max_attempts h = av_max v \<and> duress_mode h = av_mode v \<and>
     sealed_for L P device (argon h) (salt_primary h) (nonce_primary h) (ct_primary h) (av_pass v) (av_key v) \<and>
     (case av_duress v of
        None \<Rightarrow> ct_duress h = []
      | Some (d, k) \<Rightarrow> ct_duress h \<noteq> [] \<and> sealed_for L P device (argon h) (salt_duress h) (nonce_duress h) (ct_duress h) d k)"

definition vault_rel :: "vault_libs \<Rightarrow> bytes set \<Rightarrow> profile \<Rightarrow> avault option \<Rightarrow> bool" where
  "vault_rel L P pf av \<longleftrightarrow>
     (case av of
        None \<Rightarrow> pf_device pf = None
      | Some v \<Rightarrow> \<exists>device h. pf_device pf = Some device \<and> read_vault L device pf = Inr h \<and> header_rel L P device h v)"

lemma seal_key_sealed:
  assumes "vault_laws L P" and "pass \<in> P" and "length key = MK_LEN" and "argon_fits ap" and "length salt = 32"
  obtains ct where "seal_key L pass salt nonce ap device key = Inr ct" "length ct = 48"
    "sealed_for L P device ap salt nonce ct pass key"
proof -
  have kek: "\<exists>k. derive_kek L p salt ap device = Inr k" if "p \<in> P" for p
    using assms(1,4,5) that by (auto simp: vault_laws_def derive_kek_def split: option.split)
  then obtain k where k: "derive_kek L pass salt ap device = Inr k" using assms(2) by blast
  have "Aead_encrypt (vl_crypto L) k nonce [] key \<noteq> None" using assms(1) by (simp add: vault_laws_def)
  then obtain ct where ct: "Aead_encrypt (vl_crypto L) k nonce [] key = Some ct" by blast
  have "length ct = 48"
    using assms(1,3) ct aead_overheadD by (fastforce simp: vault_laws_def MK_LEN_def)
  moreover have "opens L device ap salt nonce ct p = (if p = pass then Some key else None)" if p: "p \<in> P" for p
  proof -
    obtain kp where kp: "derive_kek L p salt ap device = Inr kp" using kek [OF p] by blast
    show ?thesis
    proof (cases "p = pass")
      case True
      then show ?thesis using k ct assms(1) aead_correctD by (auto simp: opens_def vault_laws_def)
    next
      case False
      then have "Aead_decrypt (vl_crypto L) kp nonce [] ct = None"
        using passes_apartD [OF _ assms(2) p _ assms(4,5)] assms(1) k kp ct unfolding vault_laws_def by metis
      then show ?thesis using False kp by (simp add: opens_def)
    qed
  qed
  ultimately show thesis using that k ct assms(3) by (simp add: seal_key_def seal_def sealed_for_def)
qed

section \<open>Unlocking\<close>

text \<open>The disk works: writes are written, the device's secret can be destroyed and the directory listed.\<close>

definition works :: "fates \<Rightarrow> bool" where
  "works F \<longleftrightarrow> (\<forall>i. ft_write F i = Written) \<and> wf_destroyed (ft_wipe F) \<and> wf_listed (ft_wipe F) [] = None"

lemma wipe_locked_works: "works F \<Longrightarrow> \<exists>pf'. wipe_locked (ft_wipe F) pf = (pf', Inr ()) \<and> pf_device pf' = None"
  by (auto simp: works_def wipe_locked_def secure_wipe_dir_def)

text \<open>Which branch of \<open>unlock_locked\<close> a passphrase takes.\<close>

lemma unlock_locked_branches:
  assumes "pf_device pf = Some device" "read_vault L device pf = Inr h" "vault_laws L P" "p \<in> P" "header_fits h"
  shows "unlock_locked L F p pf =
     (case opens L device (argon h) (salt_primary h) (nonce_primary h) (ct_primary h) p of
        Some mk \<Rightarrow>
          (case write_vault L (ft_write F 0) (h\<lparr>attempts := 0\<rparr>) device pf of
             (pf, Inl e) \<Rightarrow> (pf, Inl e)
           | (pf, Inr _) \<Rightarrow> (pf, finish_key Primary (h\<lparr>attempts := 0\<rparr>) mk))
      | None \<Rightarrow>
          if ct_duress h = [] then unlock_failed L F device h pf
          else (case opens L device (argon h) (salt_duress h) (nonce_duress h) (ct_duress h) p of
                  Some mk \<Rightarrow> unlock_duress L F device h mk pf
                | None \<Rightarrow> unlock_failed L F device h pf))"
proof -
  have "vl_argon L (argon h) p (salt_primary h) \<noteq> None" "vl_argon L (argon h) p (salt_duress h) \<noteq> None"
    using assms(3-5) by (simp_all add: vault_laws_def header_fits_def)
  then obtain k1 k2 where "derive_kek L p (salt_primary h) (argon h) device = Inr k1"
    "derive_kek L p (salt_duress h) (argon h) device = Inr k2"
    by (auto simp: derive_kek_def)
  then show ?thesis
    using assms(1,2) unfolding unlock_locked_def opens_def open_seal_def device_load_def
    by (auto simp: Let_def split: sum.splits option.splits)
qed

lemma header_rel_attempts: "header_rel L P device h v \<Longrightarrow> n < 2 ^ 32 \<Longrightarrow> header_rel L P device (h\<lparr>attempts := n\<rparr>) (v\<lparr>av_attempts := n\<rparr>)"
  by (auto simp: header_rel_def header_fits_def split: option.splits)

lemma unlock_failed_spec:
  assumes "vault_laws L P" "works F" "pf_device pf = Some device" "header_rel L P device h v"
    and "unlock_failed L F device h pf = (pf', r)"
  shows "vault_rel L P pf' (fst (spec_failed v)) \<and> (r = Inl InvalidPassphrase \<and> snd (spec_failed v) = Inl InvalidPassphrase \<or>
     (\<exists>h'. r = Inr (Wiped, h') \<and> snd (spec_failed v) = Inr Wiped))"
proof -
  let ?a = "min (av_attempts v + 1) (2 ^ 32 - 1)"
  let ?h = "h\<lparr>attempts := ?a\<rparr>"
  have rel: "header_rel L P device ?h (v\<lparr>av_attempts := ?a\<rparr>)" using assms(4) by (rule header_rel_attempts) simp
  have e: "attempts h = av_attempts v" "max_attempts h = av_max v" using assms(4) by (auto simp: header_rel_def)
  obtain pf1 r1 where w: "write_vault L Written ?h device pf = (pf1, r1)" by fastforce
  note g = write_vault_good [OF assms(1) _ w]
  have "header_fits ?h" using rel by (simp add: header_rel_def)
  then have r1: "r1 = Inr ()" "pf_device pf1 = Some device" "read_vault L device pf1 = Inr ?h" using g assms(3) by auto
  obtain pf2 where x: "wipe_locked (ft_wipe F) pf1 = (pf2, Inr ())" "pf_device pf2 = None" using wipe_locked_works [OF assms(2)] by blast
  have "unlock_failed L F device h pf =
      (if av_max v > 0 \<and> ?a \<ge> av_max v then (pf2, Inr (Wiped, ?h)) else (pf1, Inl InvalidPassphrase))"
    using w r1(1) x(1) assms(2) e by (simp add: unlock_failed_def Let_def works_def)
  then show ?thesis
    using assms(5) r1 x(2) rel by (auto simp: spec_failed_def Let_def vault_rel_def split: if_splits)
qed

lemma unlock_duress_spec:
  assumes "vault_laws L P" "works F" "pf_device pf = Some device" "header_rel L P device h v" "length k = MK_LEN"
    and "unlock_duress L F device h k pf = (pf', r)"
  shows "case av_mode v of
      DecoyMode \<Rightarrow> vault_rel L P pf' (Some (v\<lparr>av_attempts := 0\<rparr>)) \<and> (\<exists>h'. r = Inr (Decoy k, h'))
    | WipeMode \<Rightarrow> vault_rel L P pf' None \<and> (\<exists>h'. r = Inr (Wiped, h'))"
proof -
  let ?h = "h\<lparr>attempts := 0\<rparr>"
  have rel: "header_rel L P device ?h (v\<lparr>av_attempts := 0\<rparr>)" using assms(4) by (rule header_rel_attempts) simp
  obtain pf1 r1 where w: "write_vault L Written ?h device pf = (pf1, r1)" by fastforce
  have "header_fits ?h" "duress_mode h = av_mode v" using rel by (simp_all add: header_rel_def)
  then have g: "r1 = Inr ()" "pf_device pf1 = Some device" "read_vault L device pf1 = Inr ?h" "duress_mode h = av_mode v"
    using write_vault_good [OF assms(1) _ w] assms(3) by auto
  obtain pf2 where x: "wipe_locked (ft_wipe F) pf1 = (pf2, Inr ())" "pf_device pf2 = None" using wipe_locked_works [OF assms(2)] by blast
  have "unlock_duress L F device h k pf =
      (case av_mode v of DecoyMode \<Rightarrow> (pf1, Inr (Decoy k, ?h)) | WipeMode \<Rightarrow> (pf2, Inr (Wiped, ?h)))"
    using w g x assms(2,5) by (simp add: unlock_duress_def Let_def works_def finish_key_def master_from_slice_def split: DuressMode.split)
  then show ?thesis using assms(6) rel g x(2) by (auto simp: vault_rel_def split: DuressMode.splits)
qed

lemma unlock_other:
  assumes "vault_laws L P" "works F" "p \<in> P" "pf_device pf = Some device" "read_vault L device pf = Inr h" "header_rel L P device h v"
    and "unlock_locked L F p pf = (pf', r)" and "p \<noteq> av_pass v"
  shows "vault_rel L P pf' (fst (spec_unlock v p)) \<and> map_sum id fst r = snd (spec_unlock v p)"
proof -
  have "header_fits h" using assms(6) by (simp add: header_rel_def)
  note u = unlock_locked_branches [OF assms(4,5,1,3) this, of F]
  have op: "opens L device (argon h) (salt_primary h) (nonce_primary h) (ct_primary h) p = None"
    using assms(3,6,8) by (auto simp: header_rel_def sealed_for_def)
  show ?thesis
  proof (cases "\<exists>k. av_duress v = Some (p, k)")
    case True
    then obtain k where k: "av_duress v = Some (p, k)" by blast
    then have "unlock_duress L F device h k pf = (pf', r)" "length k = MK_LEN"
      using u op assms(3,6,7) by (auto simp: header_rel_def sealed_for_def)
    then show ?thesis
      using unlock_duress_spec [OF assms(1,2,4,6)] k assms(8)
      by (cases "av_mode v") (fastforce simp: spec_unlock_def)+
  next
    case False
    then have "unlock_failed L F device h pf = (pf', r)"
      using u op assms(3,6,7) by (auto simp: header_rel_def sealed_for_def split: option.splits)
    moreover have "spec_unlock v p = spec_failed v"
      using False assms(8) by (auto simp: spec_unlock_def split: option.split)
    ultimately show ?thesis using unlock_failed_spec [OF assms(1,2,4,6)] by fastforce
  qed
qed

lemma unlock_right:
  assumes "vault_laws L P" "works F" "p \<in> P" "pf_device pf = Some device" "read_vault L device pf = Inr h" "header_rel L P device h v"
    and "p = av_pass v"
  obtains pf' where "unlock_locked L F p pf = (pf', Inr (Primary (av_key v), h\<lparr>attempts := 0\<rparr>))" "pf_device pf' = Some device"
    "read_vault L device pf' = Inr (h\<lparr>attempts := 0\<rparr>)" "header_rel L P device (h\<lparr>attempts := 0\<rparr>) (v\<lparr>av_attempts := 0\<rparr>)"
proof -
  have rel: "header_rel L P device (h\<lparr>attempts := 0\<rparr>) (v\<lparr>av_attempts := 0\<rparr>)" using assms(6) by (rule header_rel_attempts) simp
  obtain pf1 r1 where w: "write_vault L Written (h\<lparr>attempts := 0\<rparr>) device pf = (pf1, r1)" by fastforce
  have "header_fits (h\<lparr>attempts := 0\<rparr>)" using rel by (simp add: header_rel_def)
  then have g: "r1 = Inr ()" "pf_device pf1 = Some device" "read_vault L device pf1 = Inr (h\<lparr>attempts := 0\<rparr>)"
    using write_vault_good [OF assms(1) _ w] assms(4) by auto
  have "opens L device (argon h) (salt_primary h) (nonce_primary h) (ct_primary h) p = Some (av_key v)" "length (av_key v) = MK_LEN"
    using assms(3,6,7) by (auto simp: header_rel_def sealed_for_def)
  then have "unlock_locked L F p pf = (pf1, Inr (Primary (av_key v), h\<lparr>attempts := 0\<rparr>))"
    using unlock_locked_branches [OF assms(4,5,1,3), of F] assms(6) w g(1) assms(2)
    by (simp add: works_def finish_key_def master_from_slice_def header_rel_def)
  then show thesis using that g rel by blast
qed

section \<open>Every operation\<close>

definition op_ok :: "bytes set \<Rightarrow> vault_op \<Rightarrow> bool" where
  "op_ok P op \<longleftrightarrow>
     (case op of
        Unlock p \<Rightarrow> p \<in> P
      | Change dr p q \<Rightarrow> p \<in> P \<and> q \<in> P \<and> length (dr_salt dr) = 32 \<and> length (dr_nonce dr) = 24
      | Duress dr p d mode \<Rightarrow> p \<in> P \<and> (\<forall>dp. d = Some dp \<longrightarrow> dp \<in> P) \<and> length (dr_salt dr) = 32 \<and> length (dr_nonce dr) = 24 \<and>
          length (dr_key dr) = MK_LEN
      | MaxTries p n \<Rightarrow> p \<in> P \<and> n < 2 ^ 32)"

text \<open>The step after the passphrase, on the header it left behind.\<close>

lemma with_primary_spec:
  assumes "vault_laws L P" "works F" "p \<in> P" "vault_rel L P pf (Some v)"
    and step: "\<And>device h pf. pf_device pf = Some device \<Longrightarrow> read_vault L device pf = Inr h \<Longrightarrow> header_rel L P device h (v\<lparr>av_attempts := 0\<rparr>) \<Longrightarrow>
      vault_rel L P (fst (body (av_key v) h device pf)) (Some (fst (f (v\<lparr>av_attempts := 0\<rparr>)))) \<and>
      answer_of (snd (body (av_key v) h device pf)) = snd (f (v\<lparr>av_attempts := 0\<rparr>))"
  shows "vault_rel L P (fst (with_primary L F p body pf)) (fst (spec_primary v p f)) \<and>
     answer_of (snd (with_primary L F p body pf)) = snd (spec_primary v p f)"
proof -
  obtain device h where h: "pf_device pf = Some device" "read_vault L device pf = Inr h" "header_rel L P device h v"
    using assms(4) by (auto simp: vault_rel_def)
  show ?thesis
  proof (cases "p = av_pass v")
    case True
    obtain pf' where u: "unlock_locked L F p pf = (pf', Inr (Primary (av_key v), h\<lparr>attempts := 0\<rparr>))" "pf_device pf' = Some device"
        "read_vault L device pf' = Inr (h\<lparr>attempts := 0\<rparr>)" "header_rel L P device (h\<lparr>attempts := 0\<rparr>) (v\<lparr>av_attempts := 0\<rparr>)"
      using unlock_right [OF assms(1-3) h True] by blast
    then show ?thesis
      using step [OF u(2,3,4)] True
      by (simp add: with_primary_def device_load_def spec_primary_def spec_unlock_def case_prod_beta)
  next
    case False
    obtain pf' r where u: "unlock_locked L F p pf = (pf', r)" by fastforce
    note s = unlock_other [OF assms(1-3) h u False]
    obtain av' r' where sp: "spec_unlock v p = (av', r')" by fastforce
    have np: "r' \<noteq> Inr (Primary k)" for k
      using sp False by (auto simp: spec_unlock_def spec_failed_def Let_def split: option.splits prod.splits if_splits DuressMode.splits)
    show ?thesis
    proof (cases r)
      case (Inl e)
      then show ?thesis using s sp u by (cases av') (auto simp: with_primary_def spec_primary_def answer_of_def)
    next
      case (Inr oh)
      obtain out h' where "oh = (out, h')" by (cases oh)
      then show ?thesis
        using s sp u np Inr by (cases out; cases av') (auto simp: with_primary_def spec_primary_def answer_of_def)
    qed
  qed
qed

lemma write_header:
  assumes "vault_laws L P" "pf_device pf = Some device" "header_rel L P device h v"
  shows "vault_rel L P (fst (write_vault L Written h device pf)) (Some v) \<and> snd (write_vault L Written h device pf) = Inr ()"
proof -
  obtain pf' r where w: "write_vault L Written h device pf = (pf', r)" by fastforce
  have "header_fits h" using assms(3) by (simp add: header_rel_def)
  then show ?thesis using write_vault_good [OF assms(1) _ w] w assms(2,3) by (auto simp: vault_rel_def)
qed

lemma unlock_refines:
  assumes "vault_laws L P" "works F" "p \<in> P" "vault_rel L P pf (Some v)"
  shows "vault_rel L P (fst (unlock L F p pf)) (fst (spec_unlock v p)) \<and> snd (unlock L F p pf) = snd (spec_unlock v p)"
proof -
  obtain device h where h: "pf_device pf = Some device" "read_vault L device pf = Inr h" "header_rel L P device h v"
    using assms(4) by (auto simp: vault_rel_def)
  obtain pf' r where u: "unlock_locked L F p pf = (pf', r)" by fastforce
  have "vault_rel L P pf' (fst (spec_unlock v p)) \<and> map_sum id fst r = snd (spec_unlock v p)"
  proof (cases "p = av_pass v")
    case True
    obtain pf1 where "unlock_locked L F p pf = (pf1, Inr (Primary (av_key v), h\<lparr>attempts := 0\<rparr>))" "pf_device pf1 = Some device"
        "read_vault L device pf1 = Inr (h\<lparr>attempts := 0\<rparr>)" "header_rel L P device (h\<lparr>attempts := 0\<rparr>) (v\<lparr>av_attempts := 0\<rparr>)"
      using unlock_right [OF assms(1-3) h True] by blast
    then show ?thesis using u True by (auto simp: spec_unlock_def vault_rel_def)
  qed (rule unlock_other [OF assms(1-3) h u])
  then show ?thesis using u by (cases r) (auto simp: unlock_def split: prod.splits)
qed

lemma change_refines:
  assumes "vault_laws L P" "works F" "op_ok P (Change dr old new)" "vault_rel L P pf (Some v)" "new \<noteq> []"
  shows "vault_rel L P (fst (change_passphrase L F dr old new pf)) (fst (spec_primary v old (\<lambda>v. (v\<lparr>av_pass := new\<rparr>, Done)))) \<and>
    answer_of (snd (change_passphrase L F dr old new pf)) = snd (spec_primary v old (\<lambda>v. (v\<lparr>av_pass := new\<rparr>, Done)))"
proof -
  have o: "old \<in> P" "new \<in> P" "length (dr_salt dr) = 32" "length (dr_nonce dr) = 24" using assms(3) by (auto simp: op_ok_def)
  show ?thesis
    unfolding change_passphrase_def if_not_P [OF assms(5)]
  proof (rule with_primary_spec [OF assms(1,2) o(1) assms(4)], goal_cases)
    case (1 device h pf)
    then have "length (av_key v) = MK_LEN" "argon_fits (argon h)" by (simp_all add: header_rel_def header_fits_def sealed_for_def)
    then obtain ct where ct: "seal_key L new (dr_salt dr) (dr_nonce dr) (argon h) device (av_key v) = Inr ct" "length ct = 48"
        "sealed_for L P device (argon h) (dr_salt dr) (dr_nonce dr) ct new (av_key v)"
      using seal_key_sealed [OF assms(1) o(2) _ _ o(3)] by blast
    then have "header_rel L P device (h\<lparr>salt_primary := dr_salt dr, nonce_primary := dr_nonce dr, ct_primary := ct\<rparr>)
        (v\<lparr>av_attempts := 0, av_pass := new\<rparr>)"
      using 1(3) o by (auto simp: header_rel_def header_fits_def split: option.splits)
    then show ?case
      using write_header [OF assms(1) 1(1)] ct(1) assms(2) by (simp add: works_def answer_of_def)
  qed
qed

lemma duress_refines:
  assumes "vault_laws L P" "works F" "op_ok P (Duress dr p d mode)" "vault_rel L P pf (Some v)"
  shows "vault_rel L P (fst (set_duress L F dr p d mode pf)) (fst (spec_step (Duress dr p d mode) (Some v))) \<and>
    answer_of (snd (set_duress L F dr p d mode pf)) = snd (spec_step (Duress dr p d mode) (Some v))"
  unfolding set_duress_def spec_step.simps
proof (rule with_primary_spec [OF assms(1,2) _ assms(4)], goal_cases)
  case 1
  then show ?case using assms(3) by (simp add: op_ok_def)
next
  case (2 device h pf)
  have w: "ft_write F 1 = Written" and a: "argon_fits (argon h)"
    using assms(2) 2(3) by (simp_all add: works_def header_rel_def header_fits_def)
  have o: "d = Some dp \<Longrightarrow> dp \<in> P" "length (dr_salt dr) = 32" "length (dr_nonce dr) = 24" "length (dr_key dr) = MK_LEN" for dp
    using assms(3) by (auto simp: op_ok_def)
  show ?case
  proof (cases d)
    case None
    have "header_rel L P device (h\<lparr>duress_mode := mode, ct_duress := []\<rparr>) (v\<lparr>av_attempts := 0, av_mode := mode, av_duress := None\<rparr>)"
      using 2(3) by (simp add: header_rel_def header_fits_def)
    then show ?thesis using write_header [OF assms(1) 2(1)] None w by (simp add: answer_of_def)
  next
    case (Some dp)
    obtain ct where ct: "seal_key L dp (dr_salt dr) (dr_nonce dr) (argon h) device (dr_key dr) = Inr ct" "length ct = 48"
        "sealed_for L P device (argon h) (dr_salt dr) (dr_nonce dr) ct dp (dr_key dr)"
      using seal_key_sealed [OF assms(1) o(1) [OF Some] o(4) a o(2)] by blast
    then have "header_rel L P device (h\<lparr>duress_mode := mode, salt_duress := dr_salt dr, nonce_duress := dr_nonce dr, ct_duress := ct\<rparr>)
        (v\<lparr>av_attempts := 0, av_mode := mode, av_duress := Some (dp, dr_key dr)\<rparr>)"
      using 2(3) o by (auto simp: header_rel_def header_fits_def)
    moreover have "vault_rel L P pf (Some (v\<lparr>av_attempts := 0\<rparr>))" using 2 by (auto simp: vault_rel_def)
    ultimately show ?thesis using write_header [OF assms(1) 2(1)] Some w ct(1) by (simp add: answer_of_def)
  qed
qed

lemma max_refines:
  assumes "vault_laws L P" "works F" "op_ok P (MaxTries p n)" "vault_rel L P pf (Some v)"
  shows "vault_rel L P (fst (set_max_attempts L F p n pf)) (fst (spec_step (MaxTries p n) (Some v))) \<and>
    answer_of (snd (set_max_attempts L F p n pf)) = snd (spec_step (MaxTries p n) (Some v))"
  unfolding set_max_attempts_def spec_step.simps
proof (rule with_primary_spec [OF assms(1,2) _ assms(4)], goal_cases)
  case 1
  then show ?case using assms(3) by (simp add: op_ok_def)
next
  case (2 device h pf)
  have "header_rel L P device (h\<lparr>max_attempts := n\<rparr>) (v\<lparr>av_attempts := 0, av_max := n\<rparr>)"
    using 2(3) assms(3) by (auto simp: header_rel_def header_fits_def op_ok_def split: option.splits)
  then show ?case using write_header [OF assms(1) 2(1)] assms(2) by (simp add: works_def answer_of_def)
qed

lemma vault_step_refines:
  assumes "vault_laws L P" "works F" "op_ok P op" "vault_rel L P pf av"
  shows "vault_rel L P (fst (vault_step L F op pf)) (fst (spec_step op av)) \<and> snd (vault_step L F op pf) = snd (spec_step op av)"
proof (cases av)
  case None
  then have d: "pf_device pf = None" using assms(4) by (simp add: vault_rel_def)
  then have "unlock_locked L F p pf = (pf, Inl DeviceLost)" for p by (simp add: unlock_locked_def device_load_def)
  then show ?thesis
    using None d by (cases op) (auto simp: unlock_def change_passphrase_def set_duress_def set_max_attempts_def with_primary_def
        answer_of_def vault_rel_def)
next
  case (Some v)
  then have rel: "vault_rel L P pf (Some v)" using assms(4) by simp
  show ?thesis
  proof (cases op)
    case (Unlock p)
    then show ?thesis
      using unlock_refines [OF assms(1,2) _ rel, of p] assms(3) Some
      by (auto simp: op_ok_def split: prod.splits sum.splits)
  next
    case (Change dr old new)
    then show ?thesis
      using change_refines [OF assms(1,2) _ rel, of dr old new] assms(3) Some rel
      by (cases "new = []") (auto simp: change_passphrase_def [of L F dr old "[]"] answer_of_def split: prod.splits)
  next
    case (Duress dr p d mode)
    then show ?thesis
      using duress_refines [OF assms(1,2) _ rel, of dr p d mode] assms(3) Some by (auto simp del: spec_step.simps split: prod.splits)
  next
    case (MaxTries p n)
    then show ?thesis
      using max_refines [OF assms(1,2) _ rel, of p n] assms(3) Some by (auto simp del: spec_step.simps split: prod.splits)
  qed
qed

lemma vault_runs_refine:
  assumes "vault_laws L P" "works F"
  shows "list_all (op_ok P) ops \<Longrightarrow> vault_rel L P pf av \<Longrightarrow>
     vault_rel L P (fst (vault_runs (vault_step L F) ops pf)) (fst (vault_runs spec_step ops av)) \<and>
     snd (vault_runs (vault_step L F) ops pf) = snd (vault_runs spec_step ops av)"
proof (induction ops arbitrary: pf av)
  case (Cons op ops)
  have "vault_rel L P (fst (vault_step L F op pf)) (fst (spec_step op av))" "snd (vault_step L F op pf) = snd (spec_step op av)"
    using vault_step_refines [OF assms _ Cons.prems(2), of op] Cons.prems(1) by simp_all
  then show ?case using Cons.IH [of "fst (vault_step L F op pf)" "fst (spec_step op av)"] Cons.prems(1)
    by (simp add: case_prod_beta)
qed simp

text \<open>The vault that is created, in the specification.\<close>

definition spec_create :: "vault_draws \<Rightarrow> bytes \<Rightarrow> bytes option \<Rightarrow> DuressMode \<Rightarrow> nat \<Rightarrow> avault" where
  "spec_create dr pass duress_pass mode n =
     \<lparr>av_pass = pass, av_key = dr_key dr,
      av_duress = (case duress_pass of Some dp \<Rightarrow> if dp \<noteq> [] \<and> dp \<noteq> pass then Some (dp, dr_key2 dr) else None | None \<Rightarrow> None),
      av_mode = mode, av_attempts = 0, av_max = n\<rparr>"

definition draws_ok :: "vault_draws \<Rightarrow> bool" where
  "draws_ok dr \<longleftrightarrow> length (dr_salt dr) = 32 \<and> length (dr_salt2 dr) = 32 \<and> length (dr_nonce dr) = 24 \<and> length (dr_nonce2 dr) = 24 \<and>
     length (dr_key dr) = MK_LEN \<and> length (dr_key2 dr) = MK_LEN \<and> dr_device dr \<noteq> None"

lemma create_duress:
  assumes "vault_laws L P" "length (dr_key2 dr) = MK_LEN" "\<forall>dp. duress_pass = Some dp \<longrightarrow> dp \<in> P"
    "argon_fits p" "length (dr_salt2 dr) = 32"
  obtains cd where "(case duress_pass of Some dp \<Rightarrow> if dp \<noteq> [] \<and> dp \<noteq> pass
      then seal_key L dp (dr_salt2 dr) (dr_nonce2 dr) p device (dr_key2 dr) else Inr [] | None \<Rightarrow> Inr []) = Inr cd" "length cd \<le> 48"
    "case av_duress (spec_create dr pass duress_pass mode n) of None \<Rightarrow> cd = []
     | Some (d, k) \<Rightarrow> cd \<noteq> [] \<and> sealed_for L P device p (dr_salt2 dr) (dr_nonce2 dr) cd d k"
proof (cases "\<exists>dp. duress_pass = Some dp \<and> dp \<noteq> [] \<and> dp \<noteq> pass")
  case True
  then obtain dp where dp: "duress_pass = Some dp" "dp \<noteq> []" "dp \<noteq> pass" "dp \<in> P" using assms(3) by blast
  obtain c where c: "seal_key L dp (dr_salt2 dr) (dr_nonce2 dr) p device (dr_key2 dr) = Inr c" "length c = 48"
      "sealed_for L P device p (dr_salt2 dr) (dr_nonce2 dr) c dp (dr_key2 dr)"
    using seal_key_sealed [OF assms(1) dp(4) assms(2,4,5)] by blast
  then have "c \<noteq> []" by auto
  then show thesis using that [of c] c dp by (simp add: spec_create_def)
next
  case False
  then show thesis using that [of "[]"] by (cases duress_pass) (auto simp: spec_create_def)
qed

lemma create_refines:
  assumes "vault_laws L P" "works F" "draws_ok dr" "argon_fits p" "n < 2 ^ 32" "pass \<in> P" "\<forall>dp. duress_pass = Some dp \<longrightarrow> dp \<in> P"
    "pass \<noteq> []" "map_of (pf_dir pf) VAULT_FILE = None"
  shows "\<exists>h. snd (create_with_params L F dr pass duress_pass mode n p pf) = Inr h \<and>
     vault_rel L P (fst (create_with_params L F dr pass duress_pass mode n p pf)) (Some (spec_create dr pass duress_pass mode n))"
proof -
  obtain device where d: "dr_device dr = Some device" using assms(3) by (auto simp: draws_ok_def)
  have k: "length (dr_key dr) = MK_LEN" "length (dr_key2 dr) = MK_LEN" "length (dr_salt dr) = 32" "length (dr_salt2 dr) = 32"
    using assms(3) by (simp_all add: draws_ok_def)
  obtain ct where ct: "seal_key L pass (dr_salt dr) (dr_nonce dr) p device (dr_key dr) = Inr ct" "length ct = 48"
      "sealed_for L P device p (dr_salt dr) (dr_nonce dr) ct pass (dr_key dr)"
    using seal_key_sealed [OF assms(1,6) k(1) assms(4) k(3)] by blast
  obtain cd where cd: "(case duress_pass of Some dp \<Rightarrow> if dp \<noteq> [] \<and> dp \<noteq> pass
      then seal_key L dp (dr_salt2 dr) (dr_nonce2 dr) p device (dr_key2 dr) else Inr [] | None \<Rightarrow> Inr []) = Inr cd" "length cd \<le> 48"
    "case av_duress (spec_create dr pass duress_pass mode n) of None \<Rightarrow> cd = []
     | Some (d, k) \<Rightarrow> cd \<noteq> [] \<and> sealed_for L P device p (dr_salt2 dr) (dr_nonce2 dr) cd d k"
    using create_duress [OF assms(1) k(2) assms(7,4) k(4)] by blast
  let ?h = "\<lparr>magic = MAGIC, hd_version = VERSION, argon = p, salt_primary = dr_salt dr, salt_duress = dr_salt2 dr,
      nonce_primary = dr_nonce dr, nonce_duress = dr_nonce2 dr, ct_primary = ct, ct_duress = cd,
      attempts = 0, max_attempts = n, duress_mode = mode\<rparr>"
  have fit: "header_fits ?h" using assms(3,4,5) ct(2) cd(2) by (simp add: header_fits_def draws_ok_def)
  have rel: "header_rel L P device ?h (spec_create dr pass duress_pass mode n)"
    using fit ct(3) cd(3) unfolding header_rel_def by (cases duress_pass) (simp_all add: spec_create_def split: if_splits)
  have "create_with_params L F dr pass duress_pass mode n p pf =
      (pf\<lparr>pf_device := Some device, pf_dir := AList.update VAULT_FILE (FileEntry (bc_enc (vl_file L) (?h, hmac_of L ?h device))) (pf_dir pf)\<rparr>, Inr ?h)"
    using assms(2,8,9) d ct(1) cd(1) by (simp add: create_with_params_def write_vault_impl_def works_def Let_def)
  then show ?thesis
    using rel read_written [OF assms(1) fit, of device "pf\<lparr>pf_device := Some device\<rparr>"] by (auto simp: vault_rel_def)
qed

text \<open>
  C4. From its creation on, through any sequence of unlocking, changing the passphrase, setting the
  duress passphrase and the limit of attempts, the vault answers exactly as the specification does:
  the passphrase gives the master key that was drawn, the duress passphrase gives the other key or
  wipes, everything else is counted and wipes at the limit, and after a wipe nothing is given.\<close>

theorem vault_refines:
  assumes "vault_laws L P" "works F" "draws_ok dr" "argon_fits p" "n < 2 ^ 32" "pass \<in> P" "\<forall>dp. duress_pass = Some dp \<longrightarrow> dp \<in> P"
    "pass \<noteq> []" "map_of (pf_dir pf) VAULT_FILE = None" "list_all (op_ok P) ops"
  shows "(\<exists>h. snd (create_with_params L F dr pass duress_pass mode n p pf) = Inr h) \<and>
     snd (vault_runs (vault_step L F) ops (fst (create_with_params L F dr pass duress_pass mode n p pf))) =
     snd (vault_runs spec_step ops (Some (spec_create dr pass duress_pass mode n)))"
  using create_refines [OF assms(1-9)] vault_runs_refine [OF assms(1,2,10)] by blast

section \<open>Guessing\<close>

definition guess :: "avault \<Rightarrow> bytes \<Rightarrow> bool" where
  "guess v p \<longleftrightarrow> p \<noteq> av_pass v \<and> (case av_duress v of None \<Rightarrow> True | Some (d, _) \<Rightarrow> p \<noteq> d)"

lemma spec_guess: "guess v p \<Longrightarrow> spec_unlock v p = spec_failed v"
  by (auto simp: guess_def spec_unlock_def split: option.splits)

lemma spec_gone: "snd (vault_runs spec_step (map Unlock ps) None) = map (\<lambda>_. Refused DeviceLost) [0..<length ps]"
  by (induction ps) (simp_all add: case_prod_beta map_replicate_const)

text \<open>The answer to a guess when so many were left before the first one.\<close>

definition guess_answer :: "nat \<Rightarrow> nat \<Rightarrow> answer" where
  "guess_answer left i =
     (if i + 1 < left then Refused InvalidPassphrase else if i + 1 = left then Key Wiped else Refused DeviceLost)"

lemma spec_guesses:
  assumes "list_all (guess v) ps" "av_attempts v < av_max v" "av_max v < 2 ^ 32"
  shows "snd (vault_runs spec_step (map Unlock ps) (Some v)) = map (guess_answer (av_max v - av_attempts v)) [0..<length ps]"
  using assms
proof (induction ps arbitrary: v)
  case (Cons p ps)
  have f: "spec_unlock v p = spec_failed v" using Cons.prems(1) by (simp add: spec_guess)
  have a: "min (av_attempts v + 1) (2 ^ 32 - 1) = av_attempts v + 1" using Cons.prems by simp
  note m = length_Cons map_upt_Suc
  show ?case
  proof (cases "av_attempts v + 1 \<ge> av_max v")
    case True
    then have "spec_failed v = (None, Inr Wiped)" using a Cons.prems unfolding spec_failed_def Let_def a by simp
    moreover have "av_max v - av_attempts v = 1" using True Cons.prems by simp
    ultimately show ?thesis using f by (simp add: case_prod_beta spec_gone m guess_answer_def del: upt_Suc)
  next
    case False
    let ?v = "v\<lparr>av_attempts := av_attempts v + 1\<rparr>"
    have s: "spec_failed v = (Some ?v, Inl InvalidPassphrase)" using False unfolding spec_failed_def Let_def a by simp
    have "list_all (guess ?v) ps" using Cons.prems(1) by (simp add: guess_def [abs_def])
    then have "snd (vault_runs spec_step (map Unlock ps) (Some ?v)) = map (guess_answer (av_max v - av_attempts v - 1)) [0..<length ps]"
      using Cons.IH [of ?v] Cons.prems False by simp
    moreover have "guess_answer (av_max v - av_attempts v - 1) i = guess_answer (av_max v - av_attempts v) (Suc i)" for i
      using False by (auto simp: guess_answer_def)
    ultimately show ?thesis using f s False by (simp add: case_prod_beta m guess_answer_def del: upt_Suc)
  qed
qed simp

text \<open>
  C14. With a limit, guesses are answered with a refusal until the count reaches it; that guess wipes,
  and after it there is nothing left to guess. While the disk refuses to be written, every
  passphrase, the right one too, gets the same error and nothing changes, so that guesses that are
  not counted tell nothing.\<close>

theorem vault_guess_limit:
  assumes "vault_laws L P" "set ps \<subseteq> P" "vault_rel L P pf (Some v)"
  shows "(works F \<and> list_all (guess v) ps \<and> av_attempts v < av_max v \<and> av_max v < 2 ^ 32 \<longrightarrow>
       snd (vault_runs (vault_step L F) (map Unlock ps) pf) =
         map (guess_answer (av_max v - av_attempts v)) [0..<length ps]) \<and>
     ((\<forall>i. ft_write F i = NotWritten) \<longrightarrow>
       vault_runs (vault_step L F) (map Unlock ps) pf = (pf, replicate (length ps) (Refused SecIo)))"
proof (intro conjI impI)
  assume a: "works F \<and> list_all (guess v) ps \<and> av_attempts v < av_max v \<and> av_max v < 2 ^ 32"
  have "list_all (op_ok P) (map Unlock ps)" using assms(2) by (auto simp: list_all_iff op_ok_def)
  then show "snd (vault_runs (vault_step L F) (map Unlock ps) pf) = map (guess_answer (av_max v - av_attempts v)) [0..<length ps]"
    using vault_runs_refine [OF assms(1) _ _ assms(3)] a spec_guesses by simp
next
  assume n: "\<forall>i. ft_write F i = NotWritten"
  obtain device h where h: "pf_device pf = Some device" "read_vault L device pf = Inr h" and fits: "header_fits h"
    using assms(3) by (auto simp: vault_rel_def header_rel_def)
  have "vault_step L F (Unlock p) pf = (pf, Refused SecIo)" if "p \<in> P" for p
    using unlock_locked_branches [OF h assms(1) that fits, of F] n
    by (auto simp: unlock_def unlock_failed_def unlock_duress_def write_vault_def write_vault_impl_def Let_def split: option.splits)
  then show "vault_runs (vault_step L F) (map Unlock ps) pf = (pf, replicate (length ps) (Refused SecIo))"
    using assms(2) by (induction ps) auto
qed

text \<open>
  C40. Creating a vault and setting a duress passphrase refuse one that equals the passphrase, but
  changing the passphrase to the duress passphrase succeeds; from then on the duress passphrase
  gives the real master key, and neither a decoy nor a wipe can be had with it.\<close>

theorem duress_shadowed:
  assumes "vault_laws L P" "works F" "vault_rel L P pf (Some v)" "av_duress v = Some (d, k)" "d \<noteq> []"
    "op_ok P (Change dr (av_pass v) d)"
  shows "snd (vault_runs (vault_step L F) [Change dr (av_pass v) d, Unlock d] pf) = [Done, Key (Primary (av_key v))]"
proof -
  let ?ops = "[Change dr (av_pass v) d, Unlock d]"
  have "list_all (op_ok P) ?ops" using assms(6) by (simp add: op_ok_def)
  then have "snd (vault_runs (vault_step L F) ?ops pf) = snd (vault_runs spec_step ?ops (Some v))"
    using vault_runs_refine [OF assms(1,2) _ assms(3)] by blast
  also have "\<dots> = [Done, Key (Primary (av_key v))]" using assms(5) by (simp add: spec_primary_def spec_unlock_def)
  finally show ?thesis .
qed

section \<open>Wiping\<close>

fun entry_files :: "entry \<Rightarrow> bytes list" where
  "entry_files (FileEntry c) = [c]"
| "entry_files (DirEntry es) = concat (map (\<lambda>(n, e). entry_files e) es)"
| "entry_files OtherEntry = []"

abbreviation tree_files :: "(bytes \<times> entry) list \<Rightarrow> bytes list" where
  "tree_files es \<equiv> concat (map (\<lambda>(n, e). entry_files e) es)"

fun subentries :: "entry \<Rightarrow> entry list" where
  "subentries (DirEntry es) = DirEntry es # concat (map (\<lambda>(n, e). subentries e) es)"
| "subentries e = [e]"

abbreviation tree_entries :: "(bytes \<times> entry) list \<Rightarrow> entry list" where
  "tree_entries es \<equiv> concat (map (\<lambda>(n, e). subentries e) es)"

text \<open>The loop, when nothing stops it, goes through the whole file.\<close>

lemma overwrite_loop_zeroes:
  "written \<le> length content \<Longrightarrow>
     overwrite_loop None (length content) written content = (take written content @ replicate (length content - written) 0, Inr ())"
proof (induction "length content - written" arbitrary: written content rule: less_induct)
  case less
  show ?case
  proof (cases "written < length content")
    case True
    let ?n = "min (length content - written) (min (length content) (2 ^ 20))"
    let ?c = "write_at written (replicate ?n 0) content"
    have n: "0 < ?n" "written + ?n \<le> length content" using True by auto
    have len: "length ?c = length content" using n less.prems by (simp add: write_at_def)
    have pre: "take (written + ?n) ?c = take written content @ replicate ?n 0"
      using less.prems by (simp add: write_at_def)
    have "overwrite_loop None (length content) written content = overwrite_loop None (length ?c) (written + ?n) ?c"
      unfolding len using True by (simp add: overwrite_loop.simps [of None _ written] Let_def)
    also have "\<dots> = (take (written + ?n) ?c @ replicate (length ?c - (written + ?n)) 0, Inr ())"
    proof (rule less.hyps)
      show "length ?c - (written + ?n) < length content - written" using n(1) len True by linarith
      show "written + ?n \<le> length ?c" using n(2) len by linarith
    qed
    also have "\<dots> = (take written content @ replicate (length content - written) 0, Inr ())"
      unfolding pre len using n by (simp add: replicate_add [symmetric] del: min_less_iff_conj)
    finally show ?thesis .
  next
    case False
    then have "written = length content" using less.prems by simp
    then show ?thesis by (simp add: overwrite_loop.simps [of None "length content" "length content"])
  qed
qed

lemma overwrite_file_zeroes: "overwrite_file None content = (replicate (length content) 0, Inr ())"
  using overwrite_loop_zeroes [of 0 content] by (simp add: overwrite_file_def Let_def)

lemma wipe_zeroes:
  assumes "\<forall>path. wf_listed F path = None" "\<forall>path. wf_overwritten F path = None"
  shows "case wipe_entry F path e of None \<Rightarrow> True | Some e' \<Rightarrow> list_all (list_all (\<lambda>b. b = 0)) (entry_files e')"
    and "list_all (list_all (\<lambda>b. b = 0)) (tree_files (wipe_entries F path i es))"
  using assms
  by (induction F path e and F path i es rule: wipe_entry_wipe_entries.induct)
    (auto simp: overwrite_file_zeroes Let_def list_all_iff split: option.splits)

lemma wipe_removes:
  assumes "\<forall>path. wf_listed F path = None" "\<forall>path. wf_removed F path"
  shows "list_ex (\<lambda>x. x = OtherEntry) (subentries e) \<or> wipe_entry F path e = None"
    and "list_ex (\<lambda>x. x = OtherEntry) (concat (map (\<lambda>(n, e). subentries e) es)) \<or> wipe_entries F path i es = []"
  using assms
  by (induction F path e and F path i es rule: wipe_entry_wipe_entries.induct) (auto simp: Let_def)

text \<open>
  C18. Once the device has given up its secret the vault cannot be opened, whatever else of the wipe
  fails; if listing and overwriting succeed, every file that is left holds only zeros; and if removing
  succeeds too, nothing is left of a profile of files and directories. A wipe that cannot destroy the
  secret changes nothing and says so.\<close>

theorem wipe_erases:
  "(wf_destroyed (ft_wipe F) \<longrightarrow> vault_open L (fst (wipe_all F pf)) = Inl DeviceLost) \<and>
   (\<not> wf_destroyed (ft_wipe F) \<longrightarrow> wipe_all F pf = (pf, Inl DeviceLost)) \<and>
   (wf_destroyed (ft_wipe F) \<and> (\<forall>path. wf_listed (ft_wipe F) path = None) \<longrightarrow>
      snd (wipe_all F pf) = Inr () \<and>
      ((\<forall>path. wf_overwritten (ft_wipe F) path = None) \<longrightarrow>
         list_all (list_all (\<lambda>b. b = 0)) (tree_files (pf_dir (fst (wipe_all F pf))))) \<and>
      ((\<forall>path. wf_removed (ft_wipe F) path) \<and> \<not> list_ex (\<lambda>x. x = OtherEntry) (tree_entries (pf_dir pf)) \<longrightarrow>
         pf_dir (fst (wipe_all F pf)) = []))"
  using wipe_zeroes(2) [of "ft_wipe F" "[]" 0 "pf_dir pf"] wipe_removes(2) [of "ft_wipe F" "pf_dir pf" "[]" 0]
  by (auto simp: wipe_all_def wipe_locked_def secure_wipe_dir_def vault_open_def device_load_def split: prod.splits)

section \<open>Backups\<close>

lemma of_be_bytes_unat [simp]: "of_be_bytes (u32_to_be_bytes w) = unat w"
proof -
  have "unat w < 256 ^ 4" using unsigned_less [of w] by simp
  then show ?thesis by (simp add: of_be_bytes_def u32_to_be_bytes_def of_le_bytes_le_bytes)
qed

lemma length_backup_magic [simp]: "length BACKUP_MAGIC = 8" by (simp add: BACKUP_MAGIC_def ascii_def)

lemma backup_blob_parts:
  assumes "length salt = 32" "length nonce = 24" "length ct \<ge> 16"
  shows "blob_ok v (backup_blob ver m salt nonce ct) \<longleftrightarrow> v = ver"
    and "of_be_bytes (take 4 (drop 9 (backup_blob ver m salt nonce ct))) = unat m"
    and "take 32 (drop 13 (backup_blob ver m salt nonce ct)) = salt"
    and "take 24 (drop 45 (backup_blob ver m salt nonce ct)) = nonce"
    and "drop 69 (backup_blob ver m salt nonce ct) = ct"
  using assms by (auto simp: blob_ok_def backup_blob_def nth_append)

text \<open>
  C24. A backup opens with what sealed it, for both kinds, and neither kind opens as the other; and
  whatever the bytes of a backup say, Argon2 is never asked for less than 8 or more than 256 MiB: what
  it does outside these bounds makes no difference.\<close>

theorem backup_roundtrip:
  assumes "aead_correct (vl_crypto L)" "aead_overhead (vl_crypto L)" "length salt = 32" "length nonce = 24"
  shows "(backup_seal L salt nonce pass plain = Inr blob \<longrightarrow>
       backup_open L pass blob = Inr plain \<and> backup_open_3factor L p2 server_key client_secret blob = Inl SecCrypto) \<and>
     (backup_seal_3factor L salt nonce pass server_key client_secret plain = Inr blob \<longrightarrow>
       backup_open_3factor L pass server_key client_secret blob = Inr plain \<and> backup_open L p2 blob = Inl SecCrypto) \<and>
     ((\<forall>ap. BACKUP_MIN_MEMORY_KIB \<le> ap_m ap \<and> ap_m ap \<le> BACKUP_MAX_MEMORY_KIB \<longrightarrow> vl_argon L' ap = vl_argon L ap) \<and>
      vl_crypto L' = vl_crypto L \<longrightarrow>
       backup_open L' pass untrusted = backup_open L pass untrusted \<and>
       backup_open_3factor L' pass server_key client_secret untrusted = backup_open_3factor L pass server_key client_secret untrusted)"
proof (intro conjI impI)
  assume s: "backup_seal L salt nonce pass plain = Inr blob"
  then obtain key ct where k: "backup_key L pass salt 65536 = Inr key" "Aead_encrypt (vl_crypto L) key nonce [] plain = Some ct"
      "blob = backup_blob BACKUP_VERSION 65536 salt nonce ct"
    by (auto simp: backup_seal_def seal_def split: sum.splits option.splits)
  note b = backup_blob_parts [OF assms(3,4), of ct] and a = aead_correctD [OF assms(1) k(2)] aead_overheadD [OF assms(2) k(2)]
  show "backup_open L pass blob = Inr plain"
    using k a b by (simp add: backup_open_def validate_backup_memory_def BACKUP_MIN_MEMORY_KIB_def BACKUP_MAX_MEMORY_KIB_def open_seal_def)
  show "backup_open_3factor L p2 server_key client_secret blob = Inl SecCrypto"
    using k a b by (simp add: backup_open_3factor_def BACKUP_VERSION_def BACKUP_VERSION_3FACTOR_def)
next
  assume s: "backup_seal_3factor L salt nonce pass server_key client_secret plain = Inr blob"
  then obtain key ct where k: "derive_3factor_key L pass server_key client_secret salt 65536 = Inr key"
      "Aead_encrypt (vl_crypto L) key nonce [] plain = Some ct" "blob = backup_blob BACKUP_VERSION_3FACTOR 65536 salt nonce ct"
    by (auto simp: backup_seal_3factor_def seal_def split: sum.splits option.splits)
  note b = backup_blob_parts [OF assms(3,4), of ct] and a = aead_correctD [OF assms(1) k(2)] aead_overheadD [OF assms(2) k(2)]
  show "backup_open_3factor L pass server_key client_secret blob = Inr plain"
    using k a b by (simp add: backup_open_3factor_def open_seal_def)
  show "backup_open L p2 blob = Inl SecCrypto"
    using k a b by (simp add: backup_open_def BACKUP_VERSION_def BACKUP_VERSION_3FACTOR_def)
next
  assume a: "(\<forall>ap. BACKUP_MIN_MEMORY_KIB \<le> ap_m ap \<and> ap_m ap \<le> BACKUP_MAX_MEMORY_KIB \<longrightarrow> vl_argon L' ap = vl_argon L ap) \<and>
      vl_crypto L' = vl_crypto L"
  then have k: "backup_key L' pass s m = backup_key L pass s m" if "validate_backup_memory m = Inr ()" for s m
    using that by (simp add: backup_key_def validate_backup_memory_def split: if_splits)
  then show "backup_open L' pass untrusted = backup_open L pass untrusted"
    using a by (simp add: backup_open_def Let_def split: sum.split)
  show "backup_open_3factor L' pass server_key client_secret untrusted = backup_open_3factor L pass server_key client_secret untrusted"
    using a k by (simp add: backup_open_3factor_def derive_3factor_key_def split: sum.split)
qed

section \<open>The key of a server\<close>

lemma hex_value_digit: "n < 16 \<Longrightarrow> hex_value (hex_digit n) = Some (of_nat n)"
proof -
  have "\<forall>n \<in> set [0..<16]. hex_value (hex_digit n) = Some (of_nat n)" by code_simp
  then show "n < 16 \<Longrightarrow> hex_value (hex_digit n) = Some (of_nat n)" by simp
qed

lemma nibbles: "or (push_bit 4 (of_nat (unat b div 16))) (of_nat (unat b mod 16)) = (b :: u8)"
proof -
  have "or (push_bit 4 (drop_bit 4 b)) (take_bit 4 b) = b"
    by (rule bit_eqI) (auto simp: bit_simps)
  moreover have "unat (of_nat (unat b div 16) :: u8) = unat (drop_bit 4 b)" "unat (of_nat (unat b mod 16) :: u8) = unat (take_bit 4 b)"
    using unat_u8 [of b] by (simp_all add: drop_bit_eq_div take_bit_eq_mod unat_div unat_mod unat_of_nat)
  then have "of_nat (unat b div 16) = drop_bit 4 b" "of_nat (unat b mod 16) = take_bit 4 b"
    by (blast intro: unsigned_word_eqI)+
  ultimately show ?thesis by simp
qed

lemma hex_pairs_encode: "hex_pairs (concat (map hex_02 b)) = Some b"
proof (induction b)
  case (Cons a b)
  have "unat a div 16 < 16" using unat_u8 [of a] by simp
  then show ?case using Cons by (simp add: hex_02_def hex_value_digit nibbles)
qed simp

lemma hex_roundtrip [simp]: "hex_decode (hex_encode b) = Some b"
proof -
  have "length (concat (map hex_02 b)) = 2 * length b" by (induction b) (simp_all add: hex_02_def)
  then show ?thesis by (simp add: hex_decode_def hex_encode_def hex_pairs_encode)
qed

lemma hex_encode_range: "c \<in> set (hex_encode b) \<Longrightarrow> 0x20 < c \<and> c < 0x80"
  using hex_02_digits by (fastforce simp: hex_encode_def list_all_iff is_ascii_hexdigit_def is_digit_def word_le_nat_alt word_less_nat_alt)

text \<open>
  Once the key of a server was made it is given again, whatever the disk does later; and while it
  is being made, a failure leaves no key behind that a later start would take for one.\<close>

lemma server_key_kept:
  assumes "length drawn = 32" "map_of dir SERVER_KEY_FILE = None" "server_ensure fate drawn dir = (dir', r)"
  shows "(case r of Inr k \<Rightarrow> k = drawn \<and> server_ensure fate2 drawn2 dir' = (dir', Inr drawn)
     | Inl e \<Rightarrow> map_of dir' SERVER_KEY_FILE = None)"
proof -
  let ?s = "hex_encode drawn"
  have "?s \<noteq> []" using assms(1) by (cases drawn) (simp_all add: hex_encode_def hex_02_def)
  then have "trim ?s = ?s"
    using hex_encode_range [of "hd ?s" drawn] hex_encode_range [of "last ?s" drawn] by (intro utf8_trim_id) simp_all
  moreover have "utf8_valid ?s" using hex_encode_range by (intro utf8_valid_ascii) blast
  moreover have "SERVER_KEY_FILE \<noteq> SERVER_KEY_TMP" by code_simp
  ultimately show ?thesis
    using assms by (auto simp: server_ensure_def update_conv split: key_fate.splits)
qed

section \<open>The database of an unattended program\<close>

text \<open>
  Opening a database that exists never makes a new secret, and a plaintext one is refused; the key
  depends on the secret of the device and the name alone.
\<close>

lemma device_database_secret:
  assumes "map_of (pf_dir pf) name = Some e"
  shows "fst (open_device_bound_database C db_open enrolled inside name pf) = pf"
    and "e = FileEntry (ascii ''SQLite format 3'' @ 0 # rest) \<Longrightarrow> inside \<Longrightarrow>
      snd (open_device_bound_database C db_open enrolled inside name pf) = Inl LegacyPlaintextDatabase"
    and "snd (open_device_bound_database C db_open enrolled inside name pf) = Inr d \<Longrightarrow>
      \<exists>device. pf_device pf = Some device \<and> db_open name (Hkdf C (ascii ''gipny/headless-database/v2'') device name 32) = Inr d"
proof -
  show "fst (open_device_bound_database C db_open enrolled inside name pf) = pf"
    using assms by (simp add: open_device_bound_database_def Let_def split: entry.split sum.split)
  show "e = FileEntry (ascii ''SQLite format 3'' @ 0 # rest) \<Longrightarrow> inside \<Longrightarrow>
      snd (open_device_bound_database C db_open enrolled inside name pf) = Inl LegacyPlaintextDatabase"
    using assms by (simp add: open_device_bound_database_def Let_def ascii_def)
  show "snd (open_device_bound_database C db_open enrolled inside name pf) = Inr d \<Longrightarrow>
      \<exists>device. pf_device pf = Some device \<and> db_open name (Hkdf C (ascii ''gipny/headless-database/v2'') device name 32) = Inr d"
    using assms by (auto simp: open_device_bound_database_def Let_def device_load_def master_from_slice_def
      split: entry.splits sum.splits if_splits option.splits)
qed

end
