(* ===== verification/Vault_Witness.thy ===== *)
theory Vault_Witness
  imports Vault_Props
begin

text \<open>
  The laws of \<open>Vault_Props\<close> hold of concrete functions: a serializer of fields, a stretching that
  pads, and passphrases of one letter.
\<close>

definition header_fields :: "Header \<Rightarrow> bytes list" where
  "header_fields h =
     [magic h, le_bytes 2 (hd_version h), le_bytes 4 (ap_m (argon h)), le_bytes 4 (ap_t (argon h)), le_bytes 4 (ap_p (argon h)),
      salt_primary h, salt_duress h, nonce_primary h, nonce_duress h, ct_primary h, ct_duress h,
      le_bytes 4 (attempts h), le_bytes 4 (max_attempts h), [if duress_mode h = DecoyMode then 1 else 0]]"

definition fields_header :: "bytes list \<Rightarrow> Header" where
  "fields_header f =
     \<lparr>magic = f ! 0, hd_version = of_le_bytes (f ! 1),
      argon = \<lparr>ap_m = of_le_bytes (f ! 2), ap_t = of_le_bytes (f ! 3), ap_p = of_le_bytes (f ! 4)\<rparr>,
      salt_primary = f ! 5, salt_duress = f ! 6, nonce_primary = f ! 7, nonce_duress = f ! 8, ct_primary = f ! 9,
      ct_duress = f ! 10, attempts = of_le_bytes (f ! 11), max_attempts = of_le_bytes (f ! 12),
      duress_mode = (if f ! 13 = [1] then DecoyMode else WipeMode)\<rparr>"

definition toy_vault :: vault_libs where
  "toy_vault =
     \<lparr>vl_crypto = toy_crypto, vl_argon = (\<lambda>_ pass _. Some (fit 32 pass)),
      vl_header = \<lparr>bc_enc = (\<lambda>h. toy_ser (header_fields h)), bc_dec = (\<lambda>s. Some (fields_header (toy_de s), [])), bc_dom = (\<lambda>_. True)\<rparr>,
      vl_file = \<lparr>bc_enc = (\<lambda>(h, mac). toy_ser (mac # header_fields h)),
                 bc_dec = (\<lambda>s. case toy_de s of [] \<Rightarrow> None | mac # f \<Rightarrow> Some ((fields_header f, mac), [])),
                 bc_dom = (\<lambda>_. True)\<rparr>\<rparr>"

definition letters :: "bytes set" where "letters = {[1], [2], [3]}"

lemma fields_header_fields: "header_fits h \<Longrightarrow> fields_header (header_fields h) = h"
  by (cases h, cases "argon h", cases "duress_mode h")
    (simp_all add: header_fits_def argon_fits_def fields_header_def header_fields_def of_le_bytes_le_bytes VERSION_def)

lemma toy_codec_law: "codec_law toy_vault"
  unfolding codec_law_def
proof (intro allI impI conjI)
  fix h mac assume a: "header_fits h \<and> length (mac :: bytes) = 32"
  then show "bc_dec (vl_file toy_vault) (bc_enc (vl_file toy_vault) (h, mac)) = Some ((h, mac), [])"
    by (simp add: toy_vault_def fields_header_fields)
  have "length MAGIC = 8" by (simp add: MAGIC_def ascii_def)
  then show "length (bc_enc (vl_file toy_vault) (h, mac)) \<le> 65536"
    using a by (simp add: toy_vault_def toy_ser_def header_fields_def length_enc_field header_fits_def)
qed

lemma toy_kek: "derive_kek toy_vault [b] salt ap device = Inr (rev (fit 32 [b]))"
proof -
  have "fit 32 (rev (fit 32 [b]) @ r) = rev (fit 32 [b])" for r by (simp add: fit_def [of 32 "rev (fit 32 [b]) @ r"])
  then show ?thesis by (simp add: derive_kek_def toy_vault_def toy_crypto_def)
qed

lemma toy_kek_sum: "sum_list (rev (fit 32 [b])) = b"
  by (simp add: fit_def sum_list_rev sum_list_replicate)

lemma toy_passes_apart: "passes_apart toy_vault letters"
proof -
  have "Aead_decrypt toy_crypto (rev (fit 32 [q])) nonce [] c = None"
    if "p \<noteq> q" "Aead_encrypt toy_crypto (rev (fit 32 [p])) nonce [] m = Some c" for p q nonce m c
    using that toy_kek_sum [of p] toy_kek_sum [of q] by (auto simp: toy_crypto_def toy_tag_def)
  note apart = this
  show ?thesis
    unfolding passes_apart_def
  proof (intro ballI allI impI)
    fix p q ap salt device kp kq nonce m c
    assume l: "p \<in> letters" "q \<in> letters" and a: "p \<noteq> q \<and> argon_fits ap \<and> length salt = 32 \<and> derive_kek toy_vault p salt ap device = Inr kp \<and>
      derive_kek toy_vault q salt ap device = Inr kq \<and> Aead_encrypt (vl_crypto toy_vault) kp nonce [] m = Some c"
    obtain x y where "p = [x]" "q = [y]" using l by (auto simp: letters_def)
    then show "Aead_decrypt (vl_crypto toy_vault) kq nonce [] c = None"
      using a apart [of x y nonce m c] by (simp add: toy_kek) (simp add: toy_vault_def)
  qed
qed

lemma toy_vault_laws: "vault_laws toy_vault letters"
proof -
  have "vl_crypto toy_vault = toy_crypto" "\<And>ap p s. vl_argon toy_vault ap p s \<noteq> None" by (simp_all add: toy_vault_def)
  moreover have "Aead_encrypt toy_crypto k n [] m \<noteq> None" "length (Hmac toy_crypto k m) = 32" for k n m
    by (simp_all add: toy_crypto_def)
  ultimately show ?thesis
    unfolding vault_laws_def using toy_aead_correct toy_aead_overhead toy_codec_law toy_passes_apart by simp
qed

definition good_fates :: fates where
  "good_fates = \<lparr>ft_write = \<lambda>_. Written, ft_wipe = \<lparr>wf_listed = \<lambda>_. None, wf_overwritten = \<lambda>_. None, wf_removed = \<lambda>_. True, wf_destroyed = True\<rparr>\<rparr>"

definition some_draws :: vault_draws where
  "some_draws = \<lparr>dr_salt = replicate 32 0, dr_nonce = replicate 24 0, dr_key = replicate 32 7,
     dr_salt2 = replicate 32 0, dr_nonce2 = replicate 24 0, dr_key2 = replicate 32 8, dr_device = Some (replicate 32 9)\<rparr>"

definition some_params :: ArgonParams where "some_params = \<lparr>ap_m = 8, ap_t = 1, ap_p = 1\<rparr>"

lemma good_works: "works good_fates" by (simp add: works_def good_fates_def)

lemma some_draws_ok: "draws_ok some_draws" by (simp add: draws_ok_def some_draws_def MK_LEN_def)

lemma some_params_fit: "argon_fits some_params" by (simp add: argon_fits_def some_params_def)

section \<open>Witnesses\<close>

theorem vault_refines_witness:
  "snd (vault_runs (vault_step toy_vault good_fates)
      [Unlock [2], Unlock [3], Change some_draws [1] [3], Unlock [1], Unlock [3], Unlock [1], Unlock [2], Unlock [1], Unlock [1], Unlock [3]]
      (fst (create_with_params toy_vault good_fates some_draws [1] (Some [2]) DecoyMode 2 some_params \<lparr>pf_dir = [], pf_device = None\<rparr>))) =
   [Key (Decoy (replicate 32 8)), Refused InvalidPassphrase, Done, Refused InvalidPassphrase, Key (Primary (replicate 32 7)),
    Refused InvalidPassphrase, Key (Decoy (replicate 32 8)), Refused InvalidPassphrase, Key Wiped, Refused DeviceLost]"
proof -
  let ?ops = "[Unlock [2], Unlock [3], Change some_draws [1] [3], Unlock [1], Unlock [3], Unlock [1], Unlock [2], Unlock [1], Unlock [1], Unlock [3]]"
  have "list_all (op_ok letters) ?ops" by (simp add: op_ok_def letters_def some_draws_def MK_LEN_def)
  then have "snd (vault_runs (vault_step toy_vault good_fates) ?ops
      (fst (create_with_params toy_vault good_fates some_draws [1] (Some [2]) DecoyMode 2 some_params \<lparr>pf_dir = [], pf_device = None\<rparr>))) =
    snd (vault_runs spec_step ?ops (Some (spec_create some_draws [1] (Some [2]) DecoyMode 2)))"
    using vault_refines [OF toy_vault_laws good_works some_draws_ok some_params_fit, of 2 "[1]" "Some [2]" "\<lparr>pf_dir = [], pf_device = None\<rparr>" ?ops DecoyMode]
    by (simp add: letters_def)
  also have "\<dots> = [Key (Decoy (replicate 32 8)), Refused InvalidPassphrase, Done, Refused InvalidPassphrase, Key (Primary (replicate 32 7)),
    Refused InvalidPassphrase, Key (Decoy (replicate 32 8)), Refused InvalidPassphrase, Key Wiped, Refused DeviceLost]"
    by (simp add: spec_create_def some_draws_def spec_primary_def spec_unlock_def spec_failed_def)
  finally show ?thesis .
qed

definition some_profile :: profile where
  "some_profile = fst (create_with_params toy_vault good_fates some_draws [1] (Some [2]) WipeMode 2 some_params \<lparr>pf_dir = [], pf_device = None\<rparr>)"

lemma some_profile_rel: "vault_rel toy_vault letters some_profile (Some (spec_create some_draws [1] (Some [2]) WipeMode 2))"
  using create_refines [OF toy_vault_laws good_works some_draws_ok some_params_fit, of 2 "[1]" "Some [2]" "\<lparr>pf_dir = [], pf_device = None\<rparr>" WipeMode]
  by (simp add: letters_def some_profile_def)

theorem vault_guess_limit_witness:
  "snd (vault_runs (vault_step toy_vault good_fates) [Unlock [3], Unlock [3], Unlock [3]] some_profile) =
     [Refused InvalidPassphrase, Key Wiped, Refused DeviceLost] \<and>
   vault_runs (vault_step toy_vault (good_fates\<lparr>ft_write := \<lambda>_. NotWritten\<rparr>)) [Unlock [3], Unlock [1]] some_profile =
     (some_profile, [Refused SecIo, Refused SecIo])"
  using vault_guess_limit [OF toy_vault_laws _ some_profile_rel, of "[[3], [3], [3]]" good_fates]
    vault_guess_limit [OF toy_vault_laws _ some_profile_rel, of "[[3], [1]]" "good_fates\<lparr>ft_write := \<lambda>_. NotWritten\<rparr>"]
  by (simp add: letters_def good_works guess_def spec_create_def guess_answer_def upt_rec)

theorem duress_shadowed_witness:
  "snd (vault_runs (vault_step toy_vault good_fates) [Change some_draws [1] [2], Unlock [2]] some_profile) = [Done, Key (Primary (replicate 32 7))]"
  using duress_shadowed [OF toy_vault_laws good_works some_profile_rel, of "[2]" "replicate 32 8" some_draws]
  by (simp add: spec_create_def op_ok_def letters_def some_draws_def MK_LEN_def)

theorem backup_roundtrip_witness:
  "backup_open toy_vault [1] (backup_blob BACKUP_VERSION 65536 (replicate 32 0) (replicate 24 0) ([4, 2] @ replicate 16 1)) = Inr [4, 2]"
proof -
  have "backup_seal toy_vault (replicate 32 0) (replicate 24 0) [1] [4, 2] =
      Inr (backup_blob BACKUP_VERSION 65536 (replicate 32 0) (replicate 24 0) ([4, 2] @ replicate 16 1))"
    using toy_kek_sum [of 1]
    by (simp add: backup_seal_def backup_key_def seal_def toy_vault_def toy_crypto_def toy_tag_def sum_list_rev sum_list_replicate)
  moreover have "vl_crypto toy_vault = toy_crypto" by (simp add: toy_vault_def)
  ultimately show ?thesis
    using backup_roundtrip [of toy_vault "replicate 32 0" "replicate 24 0" "[1]" "[4, 2]"] toy_aead_correct toy_aead_overhead
    by (metis length_replicate)
qed

theorem wipe_erases_witness:
  "pf_dir (fst (wipe_all good_fates \<lparr>pf_dir = [([1], FileEntry [5, 6]), ([2], DirEntry [([3], FileEntry [7])])], pf_device = Some []\<rparr>)) = [] \<and>
   list_all (list_all (\<lambda>b. b = 0)) (tree_files (pf_dir (fst (wipe_all
     (good_fates\<lparr>ft_wipe := (ft_wipe good_fates)\<lparr>wf_removed := \<lambda>_. False\<rparr>\<rparr>) \<lparr>pf_dir = [([1], FileEntry [5, 6])], pf_device = Some []\<rparr>))))"
  using wipe_erases [of good_fates toy_vault "\<lparr>pf_dir = [([1], FileEntry [5, 6]), ([2], DirEntry [([3], FileEntry [7])])], pf_device = Some []\<rparr>"]
    wipe_erases [of "good_fates\<lparr>ft_wipe := (ft_wipe good_fates)\<lparr>wf_removed := \<lambda>_. False\<rparr>\<rparr>" toy_vault
      "\<lparr>pf_dir = [([1], FileEntry [5, 6])], pf_device = Some []\<rparr>"]
  by (simp add: good_fates_def del: wipe_entries.simps)

end
