(* ===== verification/Vault_Locks.thy ===== *)
theory Vault_Locks
  imports Vault
begin

text \<open>
  \<open>VaultLockRegistry\<close> of \<open>libcore/src/security.rs\<close>: one lock per vault.
  The registry of the locks of the open vaults, by their canonical path, and the handles that keep a
  lock alive: an entry whose lock no handle keeps is dropped before the next path is looked up. A
  lock is its number; the mutex of the operations and that of the last attempt are kept together.
\<close>

record lock_registry =
  lr_entries :: "(bytes \<times> nat) list"
  lr_handles :: "(bytes \<times> nat) list"
  lr_next :: nat

definition lock_alive :: "lock_registry \<Rightarrow> nat \<Rightarrow> bool" where
  "lock_alive r l \<longleftrightarrow> l \<in> set (map snd (lr_handles r))"

definition for_path :: "bytes \<Rightarrow> lock_registry \<Rightarrow> lock_registry \<times> nat" where
  "for_path path r =
     (let es = filter (\<lambda>(_, l). lock_alive r l) (lr_entries r) in
      case map_of es path of
        Some l \<Rightarrow> (r\<lparr>lr_entries := es, lr_handles := (path, l) # lr_handles r\<rparr>, l)
      | None \<Rightarrow>
          (r\<lparr>lr_entries := AList.update path (lr_next r) es, lr_handles := (path, lr_next r) # lr_handles r,
             lr_next := lr_next r + 1\<rparr>, lr_next r))"

definition drop_handle :: "nat \<Rightarrow> lock_registry \<Rightarrow> lock_registry" where
  "drop_handle i r = r\<lparr>lr_handles := take i (lr_handles r) @ drop (Suc i) (lr_handles r)\<rparr>"

datatype lock_op = TakeLock bytes | DropLock nat

fun lock_step :: "lock_op \<Rightarrow> lock_registry \<Rightarrow> lock_registry" where
  "lock_step (TakeLock p) r = fst (for_path p r)"
| "lock_step (DropLock i) r = drop_handle i r"

definition no_locks :: lock_registry where
  "no_locks = \<lparr>lr_entries = [], lr_handles = [], lr_next = 0\<rparr>"

definition lock_inv :: "lock_registry \<Rightarrow> bool" where
  "lock_inv r \<longleftrightarrow>
     distinct (map fst (lr_entries r)) \<and> distinct (map snd (lr_entries r)) \<and> (\<forall>x \<in> set (lr_entries r). snd x < lr_next r) \<and>
     set (lr_handles r) \<subseteq> set (lr_entries r)"

lemma distinct_fst_filter: "distinct (map fst es) \<Longrightarrow> distinct (map fst (filter P es))"
  by (induction es) auto

lemma distinct_snd_filter: "distinct (map snd es) \<Longrightarrow> distinct (map snd (filter P es))"
  by (induction es) auto

lemma update_new: "p \<notin> fst ` set es \<Longrightarrow> AList.update p k es = es @ [(p, k)]"
  by (induction es) auto

lemma update_subset: "set (AList.update p k es) \<subseteq> insert (p, k) (set es)"
  by (induction es) auto

lemma lock_inv_unique:
  assumes "lock_inv r" "x \<in> set (lr_entries r)" "y \<in> set (lr_entries r)"
  shows "snd x = snd y \<longleftrightarrow> x = y" and "fst x = fst y \<longleftrightarrow> x = y"
  using assms by (auto simp: lock_inv_def distinct_map dest: inj_onD)

lemma for_path_inv:
  assumes "lock_inv r" and "for_path p r = (r', l)"
  shows "lock_inv r'"
proof -
  let ?es = "filter (\<lambda>(_, l). lock_alive r l) (lr_entries r)"
  have es: "distinct (map fst ?es)" "distinct (map snd ?es)" "\<forall>x \<in> set ?es. snd x < lr_next r" "set (lr_handles r) \<subseteq> set ?es"
    using assms(1) by (force simp: lock_inv_def lock_alive_def distinct_fst_filter distinct_snd_filter)+
  show ?thesis
  proof (cases "map_of ?es p")
    case None
    then have n: "p \<notin> fst ` set ?es" by (simp only: map_of_eq_None_iff) simp
    have "lr_entries r' = ?es @ [(p, lr_next r)]" "lr_handles r' = (p, lr_next r) # lr_handles r" "lr_next r' = lr_next r + 1"
      using assms(2) None update_new [OF n] by (auto simp: for_path_def Let_def)
    then show ?thesis using es n unfolding lock_inv_def by fastforce
  next
    case (Some k)
    then have "(p, k) \<in> set ?es" by (rule map_of_SomeD)
    then show ?thesis using assms(2) Some es by (auto simp: for_path_def Let_def lock_inv_def)
  qed
qed

lemma drop_handle_inv: "lock_inv r \<Longrightarrow> lock_inv (drop_handle i r)"
  by (auto simp: lock_inv_def drop_handle_def dest!: in_set_takeD in_set_dropD)

lemma lock_steps_inv: "lock_inv r \<Longrightarrow> lock_inv (fold lock_step ops r)"
proof (induction ops arbitrary: r)
  case (Cons op ops)
  have "lock_inv (lock_step op r)"
    using Cons.prems by (cases op) (auto intro: drop_handle_inv for_path_inv [OF _ prod.collapse [symmetric]])
  then show ?case using Cons.IH by simp
qed simp

text \<open>
  C31. However vaults are opened and closed, two open handles share their lock exactly when they are
  for the same path, and after a path is looked up the registry has entries for no more paths than
  are open.\<close>

theorem lock_per_vault:
  assumes "r = fold lock_step ops no_locks"
  shows "(\<forall>h \<in> set (lr_handles r). \<forall>h' \<in> set (lr_handles r). snd h = snd h' \<longleftrightarrow> fst h = fst h') \<and>
     set (lr_entries (fst (for_path p r))) = set (lr_handles (fst (for_path p r)))"
proof
  have inv: "lock_inv r" using assms lock_steps_inv [of no_locks ops] by (simp add: lock_inv_def no_locks_def)
  then have sub: "set (lr_handles r) \<subseteq> set (lr_entries r)" by (simp add: lock_inv_def)
  show "\<forall>h \<in> set (lr_handles r). \<forall>h' \<in> set (lr_handles r). snd h = snd h' \<longleftrightarrow> fst h = fst h'"
    using lock_inv_unique [OF inv] sub by blast
  have "set (lr_handles (fst (for_path p r))) \<subseteq> set (lr_entries (fst (for_path p r)))"
    using for_path_inv [OF inv, of p] by (metis lock_inv_def prod.collapse)
  moreover have "set (lr_entries (fst (for_path p r))) \<subseteq> set (lr_handles (fst (for_path p r)))"
  proof -
    have "x \<in> set (lr_handles r)" if x: "x \<in> set (lr_entries r)" "lock_alive r (snd x)" for x
    proof -
      obtain h where "h \<in> set (lr_handles r)" "snd x = snd h" using x(2) by (auto simp: lock_alive_def)
      then show ?thesis using lock_inv_unique(1) [OF inv x(1), of h] sub by blast
    qed
    then show ?thesis by (auto simp: for_path_def Let_def dest!: update_subset [THEN subsetD] split: option.split)
  qed
  ultimately show "set (lr_entries (fst (for_path p r))) = set (lr_handles (fst (for_path p r)))" by blast
qed

theorem lock_per_vault_witness:
  "lr_handles (fold lock_step [TakeLock [1], TakeLock [2], TakeLock [1], DropLock 1, TakeLock [2]] no_locks) = [([2], 2), ([1], 0), ([1], 0)] \<and>
   lr_entries (fst (for_path [3] (fold lock_step [TakeLock [1], DropLock 0] no_locks))) = [([3], 1)]"
  using lock_per_vault [OF refl, of "[TakeLock [1], DropLock 0]" "[3]"]
  by (simp add: for_path_def drop_handle_def no_locks_def lock_alive_def)

end
