(* ===== verification/Spec2Isabelle.thy ===== *)
theory Spec2Isabelle
  imports Dht_Upkeep Ratchet_Props Relay_Server_Props Card_Props File_Receive_Props File_Transfer_Props
    Dht_Sql_Props Relay_Sql Attachment_Props Update_Windows_Props Vault_Witness Vault_Locks
begin

text \<open>
  \<^bold>\<open>A verification library of gipny\<close>, a messenger over I2P written in Rust. A client (\<open>libcore/\<close>,
  with the applications \<open>core/\<close>, \<open>agent/\<close> and \<open>bot-sdk/\<close> on top) keeps its mail at a relay, which may
  be its own process, and reaches contacts over their relays; a relay network (\<open>dht/\<close>) stores
  mail, addresses, prekey bundles and aliases when a relay cannot be reached. The library models
  the code the parties have to agree on - the relay network, the message cryptography, the relay,
  contact cards, the wire format of messages and the transfer of files - and two places where a
  mistake of the program harms its user: what is cleaned out of attachments, updates, and
  the vault of the master key.

  \<^bold>\<open>Foundations.\<close>
  \<^item> \<open>Prelude\<close>: machine types (\<open>u8\<close> to \<open>u64\<close> as words), a \<open>HashMap\<close> as an association list in any order,
    a \<open>BTreeMap\<close> as a sorted one, integers as bytes, and the lemmas on them. \<open>Radix\<close>, \<open>Utf8\<close>, \<open>Str_Ops\<close>:
    bit groups (base32) and the string operations the program uses. \<open>Bincode\<close>: what is relied on of
    that crate.
  \<^item> \<open>Crypto_Prims\<close>: the cryptographic crates as a record of functions passed to every definition that
    uses them; their laws (sealing opens, Diffie-Hellman commutes, signatures verify) are predicates
    that appear as hypotheses, with a toy record that satisfies them for the witnesses. Random
    draws, clocks and the transport are arguments.

  \<^bold>\<open>The relay network\<close> (\<open>dht/src\<close>).
  \<^item> \<open>Dht_Proto\<close> (\<open>proto.rs\<close>): messages, node ids, proof of work and its solver.
  \<^item> \<open>Dht_Store\<close> (\<open>store.rs\<close>): \<open>MemStorage\<close>. The trait \<open>Storage\<close> is the locale \<open>dht_storage\<close>, interpreted
    on the model; \<open>put\<close> refines the documented contract and the limits hold after any operations.
  \<^item> \<open>Dht_Sql\<close>, \<open>Dht_Sql_Props\<close>: the two databases behind the same trait, \<open>DbStorage\<close> of the application
    (\<open>dht_client.rs\<close>, \<open>db.rs\<close>) and \<open>SqliteStorage\<close> of the standalone relay, as functions on rows. The locale
    \<open>exact_storage\<close> is interpreted on all three; they answer every history of calls alike, except that
    \<open>SqliteStorage\<close> does not bound the bytes under a key.
  \<^item> \<open>Dht_Crypto\<close>, \<open>Dht_Items\<close> (\<open>crypto.rs\<close>, \<open>items.rs\<close>): keys, padding, sealing; mail, letters, signed
    records and aliases with the verdict on who owns one.
  \<^item> \<open>Dht_Node\<close>, \<open>Dht_Node_Props\<close>, \<open>Dht_Upkeep\<close> (\<open>node.rs\<close>): the table of nodes, the request handler,
    lookups, publishing, reading and upkeep. A lookup runs with fuel; \<open>lookup_terminates\<close> shows how
    many rounds are enough. \<open>items_at\<close> has no bound in the code and is a partial function.

  \<^bold>\<open>Message cryptography\<close> (\<open>libcore/src/crypto.rs\<close>): \<open>Ratchet\<close>, \<open>Ratchet_Props\<close>. X3DH, the Double Ratchet
  with its store of skipped keys, attachment chunks. Both ends stay in step through any alternating
  conversation, messages of a chain are read in any order, and nothing a stranger writes makes the
  store of skipped keys exceed its bound.

  \<^bold>\<open>The relay\<close> (\<open>libcore/src/relay_server.rs\<close>, \<open>relay.rs\<close>, \<open>relay_wire.rs\<close>).
  \<^item> \<open>Relay_Store\<close>: the mailboxes (\<open>MemStore\<close>), with the locale \<open>mailbox\<close> for what a client of them relies
    on; deposits, eviction, acknowledgements and expiry against a specification on the mail held.
    \<open>Relay_Sql\<close>: the tables of the standalone relay (\<open>core/relay/src/storage.rs\<close>), the same locale
    interpreted again.
  \<^item> \<open>Relay_Wire\<close>, \<open>Relay_Server\<close>, \<open>Relay_Server_Props\<close>: frames and logins, and the server as a step
    relation whose steps are the turns of \<open>client_loop\<close> and of its tasks in any interleaving.

  \<^bold>\<open>Contact cards\<close> (\<open>card.rs\<close>): \<open>Card\<close>, \<open>Card_Props\<close>. Parsing of every version, the compact encoding,
  and the addresses in them. \<^bold>\<open>Messages\<close> (\<open>message_wire.rs\<close>): \<open>Message_Wire\<close>. The payload in its twelve
  layouts as a chain of record extensions; every payload is read back from the shortest layout
  that holds it, and older readers see the fields they know.

  \<^bold>\<open>Files\<close> (\<open>files.rs\<close>, \<open>db/file_transfer.rs\<close>, \<open>apply_file_chunk\<close> of \<open>db/dm.rs\<close>).
  \<^item> \<open>File_Parts\<close>, \<open>File_Parts_Props\<close>: cutting, sealing and opening a file; staging the files of a message.
  \<^item> \<open>File_Received\<close>: the map of parts a receiver holds, with the locale \<open>part_map\<close> for what the
    transfer relies on, interpreted on the bitmap.
  \<^item> \<open>File_Flow\<close>, \<open>File_Flow_Props\<close>: the window of a recipient and its bounds. \<open>f64\<close> is rationals with a
    rounding parameter.
  \<^item> \<open>File_Transfer\<close>, \<open>File_Transfer_Props\<close>, \<open>File_Receive_Props\<close>: sender and receiver over a network that
    loses, repeats and reorders letters: what the sender believes is true, nothing is forgotten, and
    a file arrives whatever the order of its parts.

  \<^bold>\<open>Attachments\<close> (\<open>core/src/sanitizer.rs\<close>): \<open>Sanitizer\<close>, \<open>Sanitizer_Props\<close>, \<open>Attachment_Props\<close>. Recognising a
  format and cleaning JPEG, PNG and WebP: exactly the parts that stay are left, and cleaning again
  changes nothing. The locale \<open>cleaner\<close> holds what the formats share. Case mappings of Unicode and the
  PDF library are parameters.

  \<^bold>\<open>Updates\<close> (\<open>libcore/src/update.rs\<close>, \<open>i2p_http.rs\<close>).
  \<^item> \<open>Update\<close>, \<open>Update_Props\<close>: versions, digests, the checksum manifest, HTTP bodies and redirects, and the
    check; each reader is shown to accept exactly the texts that are written.
  \<^item> \<open>Update_Install\<close>, \<open>Update_Install_Props\<close>: saving a download, archives and replacing executables on a
    disk where any operation may fail. The locale \<open>replacement\<close> is what the steps that put a file in
    place share. From the release to the disk: only bytes the newer release lists are written.
  \<^item> \<open>Update_Windows_Props\<close>: staging on Windows as a step relation with its events: only what was staged
    is launched, once, and what was staged is applied.

  \<^bold>\<open>The vault\<close> (\<open>libcore/src/security.rs\<close>).
  \<^item> \<open>Vault\<close>: the header on disk, unlocking with its count and its wipe, the duress passphrase, backups,
    the key of a server and of an unattended database, with the ending of each write as an argument.
  \<^item> \<open>Vault_Props\<close>: a specification without ciphertexts, which every sequence of operations refines from the
    creation on; guessing, wiping and backups. \<open>Vault_Witness\<close> has functions that satisfy the laws.
  \<^item> \<open>Vault_Locks\<close>: the registry that gives the handles of one vault one lock.

  \<^bold>\<open>Bounds and fuel.\<close> Widths are kept where the code's arithmetic can wrap (times of the relay network,
  ratchet counters, lengths in frames); identifiers and sizes below their limits are naturals, and
  \<open>i64\<close> times are integers. Loops are total functions with a measure; the lookup has fuel with a
  theorem that it suffices; the paging loop, which may run forever, is a partial function.

  \<^bold>\<open>Not modelled.\<close> The applications (\<open>core/src/core.rs\<close>, most of \<open>lib.rs\<close>) and the session manager
  (\<open>libcore/src/session.rs\<close>) are tasks, channels and event plumbing around the code above. The rest of
  the database (\<open>db.rs\<close> and most of \<open>db/\<close>) is SQL text run by SQLite. The router, its embedding, port
  mapping and the browser router drive foreign code and sockets. The secrets in locked memory
  and in the key store of a device are calls of the platform; the agent, the bot library and the main program of the
  standalone relay are separate programs around a session or the relay. Of the updater the
  connection through the outproxy and the hand-over of an APK to Android are left out. Concurrency
  is modelled where the code shares state between tasks (the relay); disk and network failures are
  modelled where the code answers them.
\<close>

end
